(* ===== verification/Prelude.thy ===== *)
theory Prelude
  imports Main "HOL-Library.Word" "HOL-Library.Sublist"
begin

unbundle bit_operations_syntax

text \<open>
  Shared vocabulary of the development: Rust's fixed-width integers and the arithmetic the
  sources use on them (wrapping operators, \<^verbatim>\<open>saturating_*\<close>, \<^verbatim>\<open>div_ceil\<close>, \<^verbatim>\<open>as\<close> casts), the
  string operations of \<^verbatim>\<open>std::str\<close> on UTF-8 bytes, and small facts on options, lists and
  stable sorting. A \<^verbatim>\<open>u64\<close> is a 64-bit word; its numeric meaning is \<open>unat\<close>. An \<^verbatim>\<open>i64\<close> is
  an \<open>int\<close> kept in range by \<open>i64\<close>, which wraps the way a release build does.
\<close>

named_theorems word_nat
  \<open>equations that move word comparisons and arithmetic to natural numbers\<close>

section \<open>Machine integers\<close>

type_synonym u16 = "16 word"
type_synonym u32 = "32 word"
type_synonym u64 = "64 word"

definition u64_max :: u64 where
  "u64_max = - 1"

text \<open>\<^verbatim>\<open>u64::saturating_add\<close>, \<^verbatim>\<open>saturating_sub\<close> and \<^verbatim>\<open>saturating_mul\<close>.\<close>

definition sat_add :: "u64 \<Rightarrow> u64 \<Rightarrow> u64" where
  "sat_add a b = (if unat a + unat b < 2 ^ 64 then a + b else u64_max)"

definition sat_sub :: "u64 \<Rightarrow> u64 \<Rightarrow> u64" where
  "sat_sub a b = (if b \<le> a then a - b else 0)"

definition sat_mul :: "u64 \<Rightarrow> u64 \<Rightarrow> u64" where
  "sat_mul a b = (if unat a * unat b < 2 ^ 64 then a * b else u64_max)"

text \<open>\<^verbatim>\<open>u64::div_ceil\<close> for a non-zero divisor.\<close>

definition div_ceil :: "u64 \<Rightarrow> u64 \<Rightarrow> u64" where
  "div_ceil a b = (if a mod b = 0 then a div b else a div b + 1)"

text \<open>Two's complement reading of a value as an \<^verbatim>\<open>i64\<close>, and the wrap-around of its operators.\<close>

definition i64 :: "int \<Rightarrow> int" where
  "i64 x = signed_take_bit 63 x"

lemma unat_u64_max [simp, word_nat]: "unat u64_max = 2 ^ 64 - 1"
  by (simp only: u64_max_def unsigned_minus_1_eq_mask mask_eq_exp_minus_1 len_num1 len_bit0) simp

lemma unat_u64_lt: "unat (w :: u64) < 2 ^ 64"
  using unsigned_less [of w] by simp

lemma unat_sat_add [word_nat]: "unat (sat_add a b) = min (unat a + unat b) (2 ^ 64 - 1)"
  by (simp add: sat_add_def unat_word_ariths)

lemma unat_sat_sub [word_nat]: "unat (sat_sub a b) = unat a - unat b"
  by (auto simp: sat_sub_def unat_sub word_le_nat_alt)

lemma unat_sat_mul [word_nat]: "unat (sat_mul a b) = min (unat a * unat b) (2 ^ 64 - 1)"
  by (simp add: sat_mul_def unat_word_ariths)

lemma unat_div_u64 [word_nat]: "unat (a div b :: u64) = unat a div unat b"
  by (simp add: unat_div)

lemma unat_mod_u64 [word_nat]: "unat (a mod b :: u64) = unat a mod unat b"
  by (simp add: unat_mod)

lemma unat_add_no_wrap: "unat a + unat b < 2 ^ 64 \<Longrightarrow> unat (a + b :: u64) = unat a + unat b"
  by (simp add: unat_word_ariths)

lemma unat_of_nat_u64: "n < 2 ^ 64 \<Longrightarrow> unat (of_nat n :: u64) = n"
  by (simp add: unsigned_of_nat take_bit_nat_eq_self)

lemma unat_Suc_below: "(x :: 'a::len word) < y \<Longrightarrow> unat (x + 1) = Suc (unat x)"
proof -
  assume "x < y"
  moreover have "unat y < 2 ^ LENGTH('a)" by (rule unsigned_less)
  ultimately have "Suc (unat x) < 2 ^ LENGTH('a)" unfolding word_less_nat_alt by linarith
  then show ?thesis by (simp add: unat_word_ariths)
qed

lemma nat_div_ceil: "0 < (n::nat) \<Longrightarrow> (m + n - 1) div n = (if m mod n = 0 then m div n else m div n + 1)"
proof -
  assume n: "0 < n"
  define q r where "q = m div n" and "r = m mod n"
  have m: "m = q * n + r" and r: "r < n"
    using n by (simp_all add: q_def r_def)
  show ?thesis
  proof (cases "r = 0")
    case True
    then have "m + n - 1 = (n - 1) + q * n" using m n by simp
    moreover have "((n - 1) + q * n) div n = q + (n - 1) div n"
      using n by (intro div_mult_self1) simp
    moreover have "(n - 1) div n = 0" using n by simp
    ultimately have "(m + n - 1) div n = q" by presburger
    then show ?thesis using True by (simp add: q_def r_def)
  next
    case False
    then have "m + n - 1 = (r - 1) + (q + 1) * n" using m by simp
    moreover have "((r - 1) + (q + 1) * n) div n = (q + 1) + (r - 1) div n"
      using n by (intro div_mult_self1) simp
    moreover have "(r - 1) div n = 0" using r by simp
    ultimately have "(m + n - 1) div n = q + 1" by presburger
    then show ?thesis using False by (simp add: q_def r_def)
  qed
qed

lemma nat_ceil_bounds:
  assumes "1 \<le> (n::nat)"
  shows "m \<le> (m + n - 1) div n * n"
    and "m \<noteq> 0 \<longrightarrow> ((m + n - 1) div n - 1) * n < m"
    and "(m + n - 1) div n \<le> m"
proof -
  define q r where "q = m div n" and "r = m mod n"
  have m: "m = q * n + r" and r: "r < n" using assms by (simp_all add: q_def r_def)
  have c: "(m + n - 1) div n = (if r = 0 then q else q + 1)"
    using nat_div_ceil [of n m] assms by (simp add: q_def r_def)
  show "m \<le> (m + n - 1) div n * n" using c m r by simp
  have "(q - 1) * n < q * n" if "q \<noteq> 0" using that assms by simp
  then show "m \<noteq> 0 \<longrightarrow> ((m + n - 1) div n - 1) * n < m" using c m r by (cases "r = 0"; cases "q = 0") auto
  have "q \<le> q * n" using assms by simp
  moreover have "(m + n - 1) div n \<le> q + r" using c by (cases "r = 0") auto
  ultimately show "(m + n - 1) div n \<le> m" using m by linarith
qed

lemma unat_div_ceil [word_nat]:
  assumes "b \<noteq> 0"
  shows "unat (div_ceil a b) = (unat a + unat b - 1) div unat b"
proof -
  have n: "0 < unat b" using assms by (simp add: unat_gt_0)
  have z: "a mod b = 0 \<longleftrightarrow> unat a mod unat b = 0"
    by (metis unat_mod_u64 unat_eq_zero)
  have "unat a mod unat b \<noteq> 0 \<Longrightarrow> unat (a div b + 1) = unat a div unat b + 1"
  proof -
    assume nz: "unat a mod unat b \<noteq> 0"
    then have "unat b \<noteq> 1" by (metis mod_by_1 One_nat_def)
    with n have "2 \<le> unat b" by simp
    then have "unat a div unat b \<le> unat a div 2"
      by (simp add: div_le_mono2)
    then have "unat a div unat b + 1 < 2 ^ 64"
      using unat_u64_lt [of a] by simp
    then show ?thesis by (simp add: unat_word_ariths unat_div_u64)
  qed
  then show ?thesis
    using n z nat_div_ceil [OF n, of "unat a"] by (simp add: div_ceil_def unat_div_u64)
qed

section \<open>Two fields packed in one word\<close>

text \<open>
  The packed atomics hold a high field above bit \<open>n\<close> and a low field below it. Reading either
  field of a packed word gives the field back, truncated to its width.
\<close>

definition pack_fields :: "nat \<Rightarrow> u64 \<Rightarrow> u64 \<Rightarrow> u64" where
  "pack_fields n hi lo = push_bit n (hi AND mask (64 - n)) OR (lo AND mask n)"

lemma pack_fields_high:
  "n \<le> 64 \<Longrightarrow> drop_bit n (pack_fields n hi lo) = hi AND mask (64 - n)"
  unfolding pack_fields_def by (rule bit_word_eqI) (auto simp: bit_simps)

lemma pack_fields_low: "pack_fields n hi lo AND mask n = lo AND mask n"
  unfolding pack_fields_def by (rule bit_word_eqI) (auto simp: bit_simps)

lemma word_of_fields: "pack_fields n (drop_bit n w) (w AND mask n) = w"
proof (rule bit_word_eqI)
  fix k
  assume "k < LENGTH(64)"
  then show "bit (pack_fields n (drop_bit n w) (w AND mask n)) k = bit w k"
    unfolding pack_fields_def by (cases "k < n") (auto simp: bit_simps)
qed

lemma mask_word_eq: "n < 64 \<Longrightarrow> push_bit n 1 - 1 = (mask n :: u64)"
  by (simp add: mask_eq_exp_minus_1 push_bit_eq_mult)

lemma unat_and_mask: "unat (w AND mask n :: u64) = unat w mod 2 ^ n"
  by (simp only: take_bit_eq_mask [symmetric] unsigned_take_bit_eq) (simp only: take_bit_eq_mod)

lemma and_mask_le: "(w :: u64) AND mask n \<le> w"
  by (simp add: word_and_le2)

lemma and_mask_same: "unat (w :: u64) < 2 ^ n \<Longrightarrow> w AND mask n = w"
  by (simp add: word_unat_eq_iff unat_and_mask)

lemma unat_drop_bit_u64: "unat (drop_bit n w :: u64) = unat w div 2 ^ n"
  by (simp only: unat_drop_bit_eq) (simp only: drop_bit_eq_div)

end
