(* ===== verification/Cas_Cell.thy ===== *)
theory Cas_Cell
  imports Prelude
begin

text \<open>
  The sources keep their hot-path state in single atomics that are updated by a
  load / \<^verbatim>\<open>compare_exchange_weak\<close> retry loop. This theory models one such cell shared by any
  number of threads. An operation is given by the body of its loop: from the loaded word it
  either proposes a new word together with the value the call returns (\<open>Swap\<close>), or returns
  without writing (\<open>Return\<close>). A thread loads, then swaps if the cell still holds the loaded
  word, and starts over otherwise; the weak exchange may also fail for no reason.

  The locale shows once that every interleaving is linearizable: the completed calls, in the
  order of their linearization points, run one after the other from the initial word give the
  cell's word and every call's result; that no call is stuck; and that what each body keeps
  of the word holds in every reachable state. The components interpret it on their own loops.
\<close>

datatype ('w, 'r) attempt = Swap 'w 'r | Return 'r

text \<open>The call on its own: the first attempt succeeds.\<close>

fun run_alone :: "('w \<Rightarrow> ('w, 'r) attempt) \<Rightarrow> 'w \<Rightarrow> 'w \<times> 'r" where
  "run_alone body w = (case body w of Swap w' r \<Rightarrow> (w', r) | Return r \<Rightarrow> (w, r))"

text \<open>Calls one after the other: the final word and the results in order.\<close>

fun run_all :: "('t \<Rightarrow> 'w \<Rightarrow> ('w, 'r) attempt) \<Rightarrow> 'w \<Rightarrow> 't list \<Rightarrow> 'w \<times> 'r list" where
  "run_all body w [] = (w, [])"
| "run_all body w (t # ts) =
     (let (w', r) = run_alone (body t) w; (w'', rs) = run_all body w' ts in (w'', r # rs))"

lemma run_all_append:
  "run_all body w (ts @ us) =
     (let (w', rs) = run_all body w ts; (w'', ss) = run_all body w' us in (w'', rs @ ss))"
  by (induction ts arbitrary: w) (auto simp: Let_def split: prod.splits attempt.splits)

lemma length_run_all: "length (snd (run_all body w ts)) = length ts"
proof (induction ts arbitrary: w)
  case (Cons t ts)
  show ?case using Cons.IH [of "fst (run_alone (body t) w)"]
    by (simp add: Let_def case_prod_beta del: run_alone.simps)
qed simp

lemma run_all_last:
  assumes "run_all body w ts = (c, rs)"
  shows "run_all body w (ts @ [t]) = (fst (run_alone (body t) c), rs @ [snd (run_alone (body t) c)])"
  using assms by (simp add: run_all_append Let_def split: prod.splits attempt.splits)

lemma run_all_map: "run_all body w (map f ts) = run_all (\<lambda>t. body (f t)) w ts"
  by (induction ts arbitrary: w) (simp_all add: Let_def case_prod_beta)

text \<open>A thread is about to load, holds a loaded word whose swap is pending, or is done.\<close>

datatype ('w, 'r) call = Start | Trying 'w | Finished 'r

record ('t, 'w, 'r) cell_state =
  cell :: 'w
  calls :: "'t \<Rightarrow> ('w, 'r) call"
  history :: "('t \<times> 'r) list"

definition cell_init :: "'w \<Rightarrow> ('t, 'w, 'r) cell_state" where
  "cell_init w = \<lparr>cell = w, calls = (\<lambda>_. Start), history = []\<rparr>"

inductive cell_step ::
  "('t \<Rightarrow> 'w \<Rightarrow> ('w, 'r) attempt) \<Rightarrow> ('t, 'w, 'r) cell_state \<Rightarrow> ('t, 'w, 'r) cell_state \<Rightarrow> bool"
  for body where
  load_return: "calls s t = Start \<Longrightarrow> body t (cell s) = Return r \<Longrightarrow>
     cell_step body s (s\<lparr>calls := (calls s)(t := Finished r), history := history s @ [(t, r)]\<rparr>)"
| load_try: "calls s t = Start \<Longrightarrow> body t (cell s) = Swap w' r \<Longrightarrow>
     cell_step body s (s\<lparr>calls := (calls s)(t := Trying (cell s))\<rparr>)"
| swap: "calls s t = Trying (cell s) \<Longrightarrow> body t (cell s) = Swap w' r \<Longrightarrow>
     cell_step body s (s\<lparr>cell := w', calls := (calls s)(t := Finished r),
       history := history s @ [(t, r)]\<rparr>)"
| retry: "calls s t = Trying w \<Longrightarrow>
     cell_step body s (s\<lparr>calls := (calls s)(t := Start)\<rparr>)"

inductive_cases cell_stepE: "cell_step body s s'"

inductive cell_reachable ::
  "('t \<Rightarrow> 'w \<Rightarrow> ('w, 'r) attempt) \<Rightarrow> 'w \<Rightarrow> ('t, 'w, 'r) cell_state \<Rightarrow> bool"
  for body w0 where
  init: "cell_reachable body w0 (cell_init w0)"
| step: "cell_reachable body w0 s \<Longrightarrow> cell_step body s s' \<Longrightarrow> cell_reachable body w0 s'"

text \<open>
  Every interleaving is the sequential run of its history; a call is in the history exactly
  once, with the result its thread holds, exactly when it has finished.
\<close>

definition linearized :: "('t \<Rightarrow> 'w \<Rightarrow> ('w, 'r) attempt) \<Rightarrow> 'w \<Rightarrow> ('t, 'w, 'r) cell_state \<Rightarrow> bool" where
  "linearized body w0 s \<longleftrightarrow>
     run_all body w0 (map fst (history s)) = (cell s, map snd (history s)) \<and>
     distinct (map fst (history s)) \<and>
     (\<forall>t r. calls s t = Finished r \<longleftrightarrow> (t, r) \<in> set (history s))"

lemma linearized_init: "linearized body w0 (cell_init w0)"
  by (simp add: linearized_def cell_init_def)

lemma linearized_frame:
  assumes "linearized body w0 s" and "\<And>r. calls s t \<noteq> Finished r" and "\<And>r. c \<noteq> Finished r"
  shows "linearized body w0 (s\<lparr>calls := (calls s)(t := c)\<rparr>)"
proof -
  have "(\<forall>t' r. calls (s\<lparr>calls := (calls s)(t := c)\<rparr>) t' = Finished r \<longleftrightarrow> (t', r) \<in> set (history s))"
    using assms unfolding linearized_def by auto
  then show ?thesis using assms(1) by (simp add: linearized_def)
qed

lemma linearized_finish:
  assumes lin: "linearized body w0 s" and fresh: "\<And>r. calls s t \<noteq> Finished r"
    and run: "run_alone (body t) (cell s) = (w', r)"
  shows "linearized body w0
    (s\<lparr>cell := w', calls := (calls s)(t := Finished r), history := history s @ [(t, r)]\<rparr>)"
proof -
  have new: "t \<notin> fst ` set (history s)"
    using lin fresh unfolding linearized_def by force
  have "run_all body w0 (map fst (history s) @ [t]) = (w', map snd (history s) @ [r])"
    using lin run run_all_last unfolding linearized_def by (metis fst_conv snd_conv)
  then show ?thesis
    using lin new fresh unfolding linearized_def by (auto simp: image_iff)
qed

lemma linearized_step:
  assumes "cell_step body s s'" and "linearized body w0 s"
  shows "linearized body w0 s'"
  using assms
proof (cases rule: cell_step.cases)
  case (load_return t r)
  then have "linearized body w0 (s\<lparr>cell := cell s, calls := (calls s)(t := Finished r),
      history := history s @ [(t, r)]\<rparr>)"
    using assms(2) by (intro linearized_finish) auto
  then show ?thesis using load_return by simp
next
  case (load_try t w' r)
  then show ?thesis using assms(2) by (auto intro: linearized_frame)
next
  case (swap t w' r)
  then show ?thesis using assms(2) by (auto intro: linearized_finish)
next
  case (retry t w)
  then show ?thesis using assms(2) by (auto intro: linearized_frame)
qed

lemma reachable_linearized: "cell_reachable body w0 s \<Longrightarrow> linearized body w0 s"
  by (induction rule: cell_reachable.induct) (auto intro: linearized_init linearized_step)

text \<open>
  Lock freedom in the strong form the loops have: any unfinished call, left to run alone from
  any state, finishes in at most three of its own steps.
\<close>

lemma start_finishes:
  assumes u: "calls u t = Start"
  shows "\<exists>s' r. (cell_step body)\<^sup>*\<^sup>* u s' \<and> calls s' t = Finished r"
proof (cases "body t (cell u)")
  case (Swap w' r)
  define v where "v = u\<lparr>calls := (calls u)(t := Trying (cell u))\<rparr>"
  define x where "x = v\<lparr>cell := w', calls := (calls v)(t := Finished r),
    history := history v @ [(t, r)]\<rparr>"
  have "cell_step body u v" unfolding v_def using u Swap by (rule cell_step.load_try)
  moreover have "cell_step body v x" unfolding x_def
    by (rule cell_step.swap) (simp_all add: v_def Swap)
  moreover have "calls x t = Finished r" by (simp add: x_def)
  ultimately show ?thesis by (meson r_into_rtranclp rtranclp.rtrancl_into_rtrancl)
next
  case (Return r)
  define v where "v = u\<lparr>calls := (calls u)(t := Finished r), history := history u @ [(t, r)]\<rparr>"
  have "cell_step body u v" unfolding v_def using u Return by (rule cell_step.load_return)
  moreover have "calls v t = Finished r" by (simp add: v_def)
  ultimately show ?thesis by blast
qed

lemma finishes_alone: "\<exists>s' r. (cell_step body)\<^sup>*\<^sup>* s s' \<and> calls s' t = Finished r"
proof (cases "calls s t")
  case Start
  then show ?thesis by (rule start_finishes)
next
  case (Trying w)
  define v where "v = s\<lparr>calls := (calls s)(t := Start)\<rparr>"
  have "cell_step body s v" unfolding v_def using Trying by (rule cell_step.retry)
  moreover have "calls v t = Start" by (simp add: v_def)
  then have "\<exists>s' r. (cell_step body)\<^sup>*\<^sup>* v s' \<and> calls s' t = Finished r" by (rule start_finishes)
  ultimately show ?thesis by (meson converse_rtranclp_into_rtranclp)
next
  case (Finished r)
  then show ?thesis by blast
qed

text \<open>One call that runs undisturbed is such an interleaving.\<close>

lemma one_swap_reachable:
  fixes body :: "'t \<Rightarrow> 'w \<Rightarrow> ('w, 'r) attempt"
  assumes "body t w = Swap w' r"
  shows "\<exists>s. cell_reachable body w s \<and> cell s = w' \<and> history s = [(t, r)]"
proof -
  define u :: "('t, 'w, 'r) cell_state" where "u = cell_init w"
  define v where "v = u\<lparr>calls := (calls u)(t := Trying (cell u))\<rparr>"
  define x where "x = v\<lparr>cell := w', calls := (calls v)(t := Finished r), history := history v @ [(t, r)]\<rparr>"
  have u: "cell u = w" "calls u t = Start" "history u = []" by (simp_all add: u_def cell_init_def)
  have "cell_step body u v" unfolding v_def
    by (rule cell_step.load_try [where w' = w' and r = r]) (simp_all add: u assms)
  moreover have "cell_step body v x" unfolding x_def
    by (rule cell_step.swap) (simp_all add: v_def u assms)
  moreover have "cell_reachable body w u" unfolding u_def by (rule cell_reachable.init)
  ultimately have "cell_reachable body w x" by (blast intro: cell_reachable.step)
  then show ?thesis by (intro exI [of _ x]) (simp add: x_def v_def u)
qed

section \<open>The contract of a family of loops on one cell\<close>

text \<open>
  \<open>body\<close> is the family of loop bodies that may run on the cell (the operation and its arguments
  are part of the thread's name \<open>'t\<close>), \<open>good\<close> what each of them keeps of the word.
\<close>

locale cas_family =
  fixes body :: "'t \<Rightarrow> 'w \<Rightarrow> ('w, 'r) attempt" and good :: "'w \<Rightarrow> bool"
  assumes swap_good: "good w \<Longrightarrow> body t w = Swap w' r \<Longrightarrow> good w'"
begin

lemma run_alone_good: "good w \<Longrightarrow> good (fst (run_alone (body t) w))"
  by (auto split: attempt.splits dest: swap_good)

lemma run_all_good: "good w \<Longrightarrow> good (fst (run_all body w ts))"
proof (induction ts arbitrary: w)
  case (Cons t ts)
  from Cons.IH [OF run_alone_good [OF Cons.prems], of t] show ?case
    by (simp add: Let_def case_prod_beta del: run_alone.simps)
qed simp

lemma interleaving_good:
  assumes "cell_reachable body w0 s" and "good w0"
  shows "good (cell s)"
  using run_all_good [OF assms(2), of "map fst (history s)"] reachable_linearized [OF assms(1)]
  by (simp add: linearized_def)

lemma interleaving_sequential:
  assumes "cell_reachable body w0 s"
  shows "\<exists>h. distinct (map fst h) \<and> run_all body w0 (map fst h) = (cell s, map snd h) \<and>
    (\<forall>t r. calls s t = Finished r \<longleftrightarrow> (t, r) \<in> set h)"
  using reachable_linearized [OF assms] unfolding linearized_def by blast

end

end
