(* ===== verification/Circuit_Breaker.thy ===== *)
theory Circuit_Breaker
  imports Cas_Cell
begin

text \<open>
  \<^verbatim>\<open>CircuitBreaker\<close>, \<^verbatim>\<open>LatencyEwma\<close> and \<^verbatim>\<open>InFlightGauge\<close> of \<^verbatim>\<open>crates/router/src/lib.rs\<close>. The
  breaker's four atomics and three configuration fields are a record; every method takes
  the instant its injectable clock returns. The methods here are one thread's uncontended
  run; the two cells that are updated by a retry loop (the latency average and the half-open
  probe reservation) are also given as loop bodies for the interleaving model of \<open>Cas_Cell\<close>.
\<close>

type_synonym u8 = "8 word"

definition DEFAULT_FAILURE_THRESHOLD :: u64 where "DEFAULT_FAILURE_THRESHOLD = 5"
definition DEFAULT_SUCCESS_THRESHOLD :: u64 where "DEFAULT_SUCCESS_THRESHOLD = 3"
definition DEFAULT_COOLDOWN_MS :: u64 where "DEFAULT_COOLDOWN_MS = 30000"

datatype circuit_state = Closed | HalfOpen | Open

record circuit_breaker =
  raw_state :: u8
  failures :: u64
  successes :: u64
  opened_at :: u64
  failure_threshold :: u64
  success_threshold :: u64
  cooldown_ms :: u64

definition with_config :: "u64 \<Rightarrow> u64 \<Rightarrow> u64 \<Rightarrow> circuit_breaker" where
  "with_config ft st cd =
     \<lparr>raw_state = 0, failures = 0, successes = 0, opened_at = 0,
      failure_threshold = ft, success_threshold = st, cooldown_ms = cd\<rparr>"

definition breaker_new :: circuit_breaker where
  "breaker_new =
     with_config DEFAULT_FAILURE_THRESHOLD DEFAULT_SUCCESS_THRESHOLD DEFAULT_COOLDOWN_MS"

definition decode_state :: "u8 \<Rightarrow> circuit_state" where
  "decode_state raw = (if raw = 0 then Closed else if raw = 1 then HalfOpen else Open)"

definition breaker_state :: "u64 \<Rightarrow> circuit_breaker \<Rightarrow> circuit_state \<times> circuit_breaker" where
  "breaker_state now b =
     (if raw_state b = 2 \<and> cooldown_ms b \<le> sat_sub now (opened_at b)
      then (HalfOpen, b\<lparr>raw_state := 1, successes := 0\<rparr>)
      else (decode_state (raw_state b), b))"

definition breaker_is_available :: "u64 \<Rightarrow> circuit_breaker \<Rightarrow> bool \<times> circuit_breaker" where
  "breaker_is_available now b = (let (st, b') = breaker_state now b in (st \<noteq> Open, b'))"

definition breaker_admits :: "u64 \<Rightarrow> u64 \<Rightarrow> circuit_breaker \<Rightarrow> bool \<times> circuit_breaker" where
  "breaker_admits now in_flight_trials b =
     (let (st, b') = breaker_state now b in
      (case st of
         Closed \<Rightarrow> True
       | Open \<Rightarrow> False
       | HalfOpen \<Rightarrow> in_flight_trials < success_threshold b, b'))"

definition breaker_open :: "u64 \<Rightarrow> circuit_breaker \<Rightarrow> circuit_breaker" where
  "breaker_open now b = b\<lparr>raw_state := 2, opened_at := now, successes := 0\<rparr>"

definition breaker_close :: "circuit_breaker \<Rightarrow> circuit_breaker" where
  "breaker_close b = b\<lparr>raw_state := 0, failures := 0, successes := 0\<rparr>"

definition breaker_record_success :: "circuit_breaker \<Rightarrow> circuit_breaker" where
  "breaker_record_success b =
     (if raw_state b = 1 then
        (let s = successes b + 1; b' = b\<lparr>successes := s\<rparr> in
         if success_threshold b \<le> s then breaker_close b' else b')
      else b\<lparr>failures := 0\<rparr>)"

definition breaker_record_failure :: "u64 \<Rightarrow> circuit_breaker \<Rightarrow> circuit_breaker" where
  "breaker_record_failure now b =
     (if raw_state b = 1 then breaker_open now b
      else
        (let f = failures b + 1; b' = b\<lparr>failures := f\<rparr> in
         if failure_threshold b \<le> f then breaker_open now b' else b'))"

lemmas breaker_defs =
  breaker_state_def breaker_is_available_def breaker_admits_def breaker_open_def
  breaker_close_def breaker_record_success_def breaker_record_failure_def decode_state_def

section \<open>The breaker as a machine\<close>

text \<open>
  The calls the request path makes on one breaker, each with the instant it happens, and the
  run of a sequence of them.
\<close>

datatype breaker_event = Read u64 | Succeeded | Failed u64

fun breaker_step :: "circuit_breaker \<Rightarrow> breaker_event \<Rightarrow> circuit_breaker" where
  "breaker_step b (Read now) = snd (breaker_state now b)"
| "breaker_step b Succeeded = breaker_record_success b"
| "breaker_step b (Failed now) = breaker_record_failure now b"

definition breaker_run :: "circuit_breaker \<Rightarrow> breaker_event list \<Rightarrow> circuit_breaker" where
  "breaker_run b es = foldl breaker_step b es"

lemma breaker_run_simps [simp]:
  "breaker_run b [] = b"
  "breaker_run b (e # es) = breaker_run (breaker_step b e) es"
  "breaker_run b (es @ es') = breaker_run (breaker_run b es) es'"
  by (simp_all add: breaker_run_def)

text \<open>
  The invariant between the fields: the state byte is one of the three codes, a closed breaker
  is below its failure threshold, a half-open one below its success threshold, and the
  success counter only runs while half-open.
\<close>

definition breaker_ok :: "circuit_breaker \<Rightarrow> bool" where
  "breaker_ok b \<longleftrightarrow>
     0 < failure_threshold b \<and> 0 < success_threshold b \<and>
     raw_state b \<in> {0, 1, 2} \<and>
     (raw_state b = 0 \<longrightarrow> failures b < failure_threshold b) \<and>
     (raw_state b = 1 \<longrightarrow> successes b < success_threshold b) \<and>
     (raw_state b \<noteq> 1 \<longrightarrow> successes b = 0)"

lemma breaker_ok_new: "0 < ft \<Longrightarrow> 0 < st \<Longrightarrow> breaker_ok (with_config ft st cd)"
  by (simp add: breaker_ok_def with_config_def)

lemma breaker_ok_default: "breaker_ok breaker_new"
  by (simp add: breaker_new_def breaker_ok_new DEFAULT_FAILURE_THRESHOLD_def
      DEFAULT_SUCCESS_THRESHOLD_def)

lemma breaker_ok_state: "breaker_ok b \<Longrightarrow> breaker_ok (snd (breaker_state now b))"
  by (auto simp: breaker_ok_def breaker_state_def)

lemma breaker_ok_success: "breaker_ok b \<Longrightarrow> breaker_ok (breaker_record_success b)"
  by (auto simp: breaker_ok_def breaker_record_success_def breaker_close_def Let_def not_le)

lemma breaker_ok_failure: "breaker_ok b \<Longrightarrow> breaker_ok (breaker_record_failure now b)"
  by (auto simp: breaker_ok_def breaker_record_failure_def breaker_open_def Let_def not_le)

lemma breaker_ok_step: "breaker_ok b \<Longrightarrow> breaker_ok (breaker_step b e)"
  by (cases e) (auto intro: breaker_ok_state breaker_ok_success breaker_ok_failure)

lemma breaker_ok_run: "breaker_ok b \<Longrightarrow> breaker_ok (breaker_run b es)"
  by (induction es arbitrary: b) (auto intro: breaker_ok_step)

lemma breaker_state_code:
  "breaker_ok b \<Longrightarrow> fst (breaker_state now b) = decode_state (raw_state (snd (breaker_state now b)))"
  by (auto simp: breaker_defs)

lemma breaker_config_step [simp]:
  "failure_threshold (breaker_step b e) = failure_threshold b"
  "success_threshold (breaker_step b e) = success_threshold b"
  "cooldown_ms (breaker_step b e) = cooldown_ms b"
  by (cases e; auto simp: breaker_defs Let_def)+

lemma breaker_config_run [simp]:
  "failure_threshold (breaker_run b es) = failure_threshold b"
  "success_threshold (breaker_run b es) = success_threshold b"
  "cooldown_ms (breaker_run b es) = cooldown_ms b"
  by (induction es arbitrary: b) auto

text \<open>Opening takes exactly the threshold's number of failures in a row.\<close>

lemma closed_failures_below:
  assumes "raw_state b = 0" and "unat (failures b) + length ts < unat (failure_threshold b)"
  shows "raw_state (breaker_run b (map Failed ts)) = 0 \<and>
    unat (failures (breaker_run b (map Failed ts))) = unat (failures b) + length ts"
  using assms
proof (induction ts arbitrary: b)
  case (Cons t ts)
  have "failures b < failure_threshold b" using Cons.prems by (simp add: word_less_nat_alt)
  then have f: "unat (failures b + 1) = Suc (unat (failures b))" by (rule unat_Suc_below)
  then have "\<not> failure_threshold b \<le> failures b + 1"
    using Cons.prems by (simp add: word_le_nat_alt)
  then have "breaker_step b (Failed t) = b\<lparr>failures := failures b + 1\<rparr>"
    using Cons.prems by (simp add: breaker_record_failure_def Let_def)
  then show ?case using Cons.IH [of "breaker_step b (Failed t)"] Cons.prems f by simp
qed simp

lemma closed_failures_opens:
  assumes "raw_state b = 0" and "unat (failures b) + length ts + 1 = unat (failure_threshold b)"
  shows "raw_state (breaker_run b (map Failed ts @ [Failed t])) = 2 \<and>
    opened_at (breaker_run b (map Failed ts @ [Failed t])) = t"
proof -
  let ?c = "breaker_run b (map Failed ts)"
  have c: "raw_state ?c = 0" "unat (failures ?c) = unat (failures b) + length ts"
    using closed_failures_below [of b ts] assms by simp_all
  have "failures ?c < failure_threshold b" using c assms by (simp add: word_less_nat_alt)
  then have "unat (failures ?c + 1) = Suc (unat (failures ?c))" by (rule unat_Suc_below)
  then have "failure_threshold b \<le> failures ?c + 1"
    using c assms by (simp add: word_le_nat_alt)
  then show ?thesis using c by (simp add: breaker_record_failure_def breaker_open_def Let_def)
qed

text \<open>A half-open breaker closes after exactly the threshold's number of trial successes.\<close>

lemma half_open_successes_below:
  assumes "raw_state b = 1" and "unat (successes b) + n < unat (success_threshold b)"
  shows "raw_state (breaker_run b (replicate n Succeeded)) = 1 \<and>
    unat (successes (breaker_run b (replicate n Succeeded))) = unat (successes b) + n"
  using assms
proof (induction n arbitrary: b)
  case (Suc n)
  have "successes b < success_threshold b" using Suc.prems by (simp add: word_less_nat_alt)
  then have s: "unat (successes b + 1) = Suc (unat (successes b))" by (rule unat_Suc_below)
  then have "\<not> success_threshold b \<le> successes b + 1"
    using Suc.prems by (simp add: word_le_nat_alt)
  then have "breaker_step b Succeeded = b\<lparr>successes := successes b + 1\<rparr>"
    using Suc.prems by (simp add: breaker_record_success_def Let_def)
  then show ?case using Suc.IH [of "breaker_step b Succeeded"] Suc.prems s by simp
qed simp

lemma half_open_closes:
  assumes "raw_state b = 1" and "unat (successes b) + n + 1 = unat (success_threshold b)"
  shows "breaker_run b (replicate n Succeeded @ [Succeeded]) =
    (breaker_run b (replicate n Succeeded))\<lparr>raw_state := 0, failures := 0, successes := 0\<rparr>"
proof -
  let ?c = "breaker_run b (replicate n Succeeded)"
  have c: "raw_state ?c = 1" "unat (successes ?c) = unat (successes b) + n"
    using half_open_successes_below [of b n] assms by simp_all
  have "successes ?c < success_threshold b" using c assms by (simp add: word_less_nat_alt)
  then have "unat (successes ?c + 1) = Suc (unat (successes ?c))" by (rule unat_Suc_below)
  then have "success_threshold b \<le> successes ?c + 1"
    using c assms by (simp add: word_le_nat_alt)
  then show ?thesis using c by (simp add: breaker_record_success_def breaker_close_def Let_def)
qed

text \<open>The transition diagram of the module's documentation, as a relation.\<close>

inductive breaker_edge :: "circuit_breaker \<Rightarrow> breaker_event \<Rightarrow> circuit_state \<Rightarrow> circuit_state \<Rightarrow> bool"
  for b where
  trip: "unat (failures b) + 1 = unat (failure_threshold b) \<Longrightarrow> breaker_edge b (Failed now) Closed Open"
| cool: "cooldown_ms b \<le> sat_sub now (opened_at b) \<Longrightarrow> breaker_edge b (Read now) Open HalfOpen"
| heal: "unat (successes b) + 1 = unat (success_threshold b) \<Longrightarrow> breaker_edge b Succeeded HalfOpen Closed"
| relapse: "breaker_edge b (Failed now) HalfOpen Open"

inductive_simps breaker_edge_simps [simp]:
  "breaker_edge b (Read now) c d"
  "breaker_edge b Succeeded c d"
  "breaker_edge b (Failed now) c d"

definition circuit_of :: "circuit_breaker \<Rightarrow> circuit_state" where
  "circuit_of b = decode_state (raw_state b)"

lemma circuit_of_simps:
  "raw_state b = 0 \<Longrightarrow> circuit_of b = Closed"
  "raw_state b = 1 \<Longrightarrow> circuit_of b = HalfOpen"
  "raw_state b = 2 \<Longrightarrow> circuit_of b = Open"
  by (simp_all add: circuit_of_def decode_state_def)

lemma breaker_step_edge:
  assumes ok: "breaker_ok b"
  shows "circuit_of (breaker_step b e) = d \<and> d \<noteq> circuit_of b \<longleftrightarrow> breaker_edge b e (circuit_of b) d"
proof (cases e)
  case (Read now)
  then show ?thesis using ok
    by (auto simp: breaker_ok_def breaker_state_def circuit_of_def decode_state_def)
next
  case Succeeded
  have "successes b < success_threshold b \<Longrightarrow>
      success_threshold b \<le> successes b + 1 \<longleftrightarrow> unat (successes b) + 1 = unat (success_threshold b)"
    using unat_Suc_below [of "successes b"] by (auto simp: word_le_nat_alt word_less_nat_alt)
  then show ?thesis using ok Succeeded
    by (auto simp: breaker_ok_def breaker_record_success_def breaker_close_def circuit_of_def
        decode_state_def Let_def)
next
  case (Failed now)
  have "failures b < failure_threshold b \<Longrightarrow>
      failure_threshold b \<le> failures b + 1 \<longleftrightarrow> unat (failures b) + 1 = unat (failure_threshold b)"
    using unat_Suc_below [of "failures b"] by (auto simp: word_le_nat_alt word_less_nat_alt)
  then show ?thesis using ok Failed
    by (auto simp: breaker_ok_def breaker_record_failure_def breaker_open_def circuit_of_def
        decode_state_def Let_def)
qed

text \<open>Until the cooldown has passed an open breaker answers every read with \<open>Open\<close>, unchanged.\<close>

lemma open_holds:
  assumes "raw_state b = 2" and "sat_sub now (opened_at b) < cooldown_ms b"
  shows "breaker_state now b = (Open, b)"
  using assms by (auto simp: breaker_state_def decode_state_def)

lemma open_reads_hold:
  assumes "raw_state b = 2" and "\<forall>now \<in> set ts. sat_sub now (opened_at b) < cooldown_ms b"
  shows "breaker_run b (map Read ts) = b"
  using assms by (induction ts) (auto simp: open_holds)

lemma open_cools:
  assumes "raw_state b = 2" and "cooldown_ms b \<le> sat_sub now (opened_at b)"
  shows "breaker_state now b = (HalfOpen, b\<lparr>raw_state := 1, successes := 0\<rparr>)"
  using assms by (simp add: breaker_state_def)

section \<open>Latency average\<close>

definition LATENCY_ALPHA_MILLI :: u64 where "LATENCY_ALPHA_MILLI = 200"
definition LATENCY_UNSET :: u64 where "LATENCY_UNSET = u64_max"

text \<open>One turn of the retry loop of \<^verbatim>\<open>LatencyEwma::record\<close>; the products wrap as in a release build.\<close>

definition ewma_next :: "u64 \<Rightarrow> u64 \<Rightarrow> u64" where
  "ewma_next sample_ms prior =
     (if prior = LATENCY_UNSET then sample_ms
      else (LATENCY_ALPHA_MILLI * sample_ms + (1000 - LATENCY_ALPHA_MILLI) * prior) div 1000)"

definition ewma_body :: "u64 \<Rightarrow> u64 \<Rightarrow> (u64, unit) attempt" where
  "ewma_body sample_ms prior = Swap (ewma_next sample_ms prior) ()"

definition ewma_record :: "u64 \<Rightarrow> u64 \<Rightarrow> u64" where
  "ewma_record sample_ms w = fst (run_alone (ewma_body sample_ms) w)"

definition ewma_read :: "u64 \<Rightarrow> u64 option" where
  "ewma_read w = (if w = LATENCY_UNSET then None else Some w)"

lemma ewma_record_next [simp]: "ewma_record s w = ewma_next s w"
  by (simp add: ewma_record_def ewma_body_def)

text \<open>Below \<open>2 ^ 64 / 1000\<close> milliseconds nothing wraps and the average lies between its inputs.\<close>

definition latency_sane :: "u64 \<Rightarrow> bool" where
  "latency_sane w \<longleftrightarrow> unat w * 1000 < 2 ^ 64"

lemma latency_sane_not_unset: "latency_sane w \<Longrightarrow> w \<noteq> LATENCY_UNSET"
  by (auto simp: latency_sane_def LATENCY_UNSET_def)

lemma unat_ewma_next:
  assumes "latency_sane s" and "latency_sane p"
  shows "unat (ewma_next s p) = (200 * unat s + 800 * unat p) div 1000"
proof -
  have s: "unat (200 * s) = 200 * unat s" and p: "unat (800 * p) = 800 * unat p"
    using assms by (simp_all add: latency_sane_def unat_word_ariths)
  have "unat (200 * s + 800 * p) = 200 * unat s + 800 * unat p"
    using assms unfolding latency_sane_def by (subst unat_add_no_wrap) (simp_all add: s p)
  then show ?thesis
    using latency_sane_not_unset [OF assms(2)]
    by (simp add: ewma_next_def LATENCY_ALPHA_MILLI_def unat_div_u64)
qed

lemma ewma_between:
  assumes "latency_sane s" and "latency_sane p"
  shows "min s p \<le> ewma_next s p \<and> ewma_next s p \<le> max s p"
proof -
  have "min (unat s) (unat p) \<le> (200 * unat s + 800 * unat p) div 1000"
    "(200 * unat s + 800 * unat p) div 1000 \<le> max (unat s) (unat p)"
    by (auto simp: min_def max_def)
  then show ?thesis
    by (simp add: word_le_nat_alt unat_ewma_next [OF assms] min_def max_def split: if_splits)
qed

text \<open>Every interleaving of recorded samples keeps the average within the samples' bound.\<close>

definition ewma_within :: "u64 \<Rightarrow> u64 \<Rightarrow> bool" where
  "ewma_within hi w \<longleftrightarrow> w = LATENCY_UNSET \<or> w \<le> hi"

lemma ewma_next_within:
  assumes "latency_sane hi" and "s \<le> hi" and "ewma_within hi w"
  shows "ewma_within hi (ewma_next s w)"
proof (cases "w = LATENCY_UNSET")
  case True
  then show ?thesis using assms(2) by (simp add: ewma_next_def ewma_within_def)
next
  case False
  then have w: "w \<le> hi" using assms(3) by (simp add: ewma_within_def)
  have "latency_sane s" "latency_sane w"
    using assms(1,2) w by (simp_all add: latency_sane_def word_le_nat_alt)
  then have "ewma_next s w \<le> max s w" by (simp add: ewma_between)
  then show ?thesis using assms(2) w by (auto simp: ewma_within_def max_def split: if_splits)
qed

section \<open>In-flight gauge and the half-open probe cap\<close>

definition gauge_enter :: "u64 \<Rightarrow> u64" where
  "gauge_enter n = n + 1"

definition gauge_drop :: "u64 \<Rightarrow> u64" where
  "gauge_drop n = n - 1"

text \<open>The half-open branch of \<^verbatim>\<open>try_enter_probe\<close>: the cap check and the reservation in one exchange.\<close>

definition probe_body :: "u64 \<Rightarrow> u64 \<Rightarrow> (u64, bool) attempt" where
  "probe_body cap cur = (if cap \<le> cur then Return False else Swap (cur + 1) True)"

lemma probe_body_within: "cur \<le> cap \<Longrightarrow> probe_body cap cur = Swap w r \<Longrightarrow> w \<le> cap"
  using unat_Suc_below [of cur cap]
  by (auto simp: probe_body_def word_le_nat_alt word_less_nat_alt split: if_splits)

interpretation probe: cas_family "\<lambda>_. probe_body cap" "\<lambda>cur. cur \<le> cap" for cap :: u64
  by unfold_locales (rule probe_body_within)

lemma run_alone_probe:
  "run_alone (probe_body cap) w = (if cap \<le> w then (w, False) else (w + 1, True))"
  by (simp add: probe_body_def)

lemma probe_run_count:
  assumes "run_all (\<lambda>_. probe_body cap) w ts = (w', rs)" and "w \<le> cap"
  shows "unat w' = unat w + length (filter id rs) \<and>
    length (filter id rs) = min (length ts) (unat cap - unat w)"
  using assms
proof (induction ts arbitrary: w w' rs)
  case (Cons t ts)
  show ?case
  proof (cases "cap \<le> w")
    case True
    then have "w = cap" using Cons.prems by simp
    moreover obtain rs' where "run_all (\<lambda>_. probe_body cap) w ts = (w', rs')" "rs = False # rs'"
      using Cons.prems True
      by (auto simp: run_alone_probe Let_def simp del: run_alone.simps split: prod.splits)
    ultimately show ?thesis using Cons.IH [of w w' rs'] by simp
  next
    case False
    then have lt: "w < cap" by simp
    then have w1: "unat (w + 1) = Suc (unat w)" by (rule unat_Suc_below)
    moreover obtain rs' where run: "run_all (\<lambda>_. probe_body cap) (w + 1) ts = (w', rs')"
      and rs: "rs = True # rs'"
      using Cons.prems False
      by (auto simp: run_alone_probe Let_def simp del: run_alone.simps split: prod.splits)
    moreover have "w + 1 \<le> cap" using lt w1 by (simp add: word_le_nat_alt word_less_nat_alt)
    ultimately show ?thesis
      using Cons.IH [OF run] lt by (auto simp: word_less_nat_alt)
  qed
qed simp

section \<open>Properties\<close>

lemma breaker_trips_and_recovers_parts:
  assumes "length ts + 1 = unat ft"
  shows "circuit_of (breaker_run (with_config ft st cd) (map Failed ts)) = Closed"
    and "sat_sub now t < cd \<Longrightarrow>
      breaker_state now (breaker_run (with_config ft st cd) (map Failed ts @ [Failed t])) =
        (Open, breaker_run (with_config ft st cd) (map Failed ts @ [Failed t]))"
    and "cd \<le> sat_sub now t \<Longrightarrow>
      fst (breaker_state now (breaker_run (with_config ft st cd) (map Failed ts @ [Failed t]))) = HalfOpen"
proof -
  let ?b = "with_config ft st cd"
  let ?o = "breaker_run ?b (map Failed ts @ [Failed t])"
  have fresh: "raw_state ?b = 0" "failures ?b = 0" "failure_threshold ?b = ft" "cooldown_ms ?b = cd"
    by (simp_all add: with_config_def)
  have "raw_state (breaker_run ?b (map Failed ts)) = 0"
    using closed_failures_below [of ?b ts] fresh assms by simp
  then show "circuit_of (breaker_run ?b (map Failed ts)) = Closed" by (simp add: circuit_of_simps)
  have o: "raw_state ?o = 2" "opened_at ?o = t" "cooldown_ms ?o = cd"
    using closed_failures_opens [of ?b ts t] breaker_config_run(3) [of ?b "map Failed ts @ [Failed t]"]
      fresh assms by simp_all
  show "breaker_state now ?o = (Open, ?o)" if "sat_sub now t < cd"
    using open_holds [of ?o now] o that by simp
  show "fst (breaker_state now ?o) = HalfOpen" if "cd \<le> sat_sub now t"
    using open_cools [of ?o now] o that by simp
qed

text \<open>
  C35. A fresh breaker stays closed through one failure fewer than its threshold, opens on the failure that reaches it, answers every read with Open and unchanged until the cooldown has passed since that failure, and is half-open from the first read at or after that instant.
\<close>

theorem breaker_trips_and_recovers:
  assumes "length ts + 1 = unat ft"
  shows "(circuit_of (breaker_run (with_config ft st cd) (map Failed ts)) = Closed) \<and>
   ((sat_sub now t < cd) \<longrightarrow> breaker_state now (breaker_run (with_config ft st cd) (map Failed ts @ [Failed t])) =
        (Open, breaker_run (with_config ft st cd) (map Failed ts @ [Failed t]))) \<and>
   ((cd \<le> sat_sub now t) \<longrightarrow> fst (breaker_state now (breaker_run (with_config ft st cd) (map Failed ts @ [Failed t]))) = HalfOpen)"
  by ((rule conjI, rule breaker_trips_and_recovers_parts(1) [OF assms]),
      (rule conjI, rule impI, rule breaker_trips_and_recovers_parts(2) [OF assms], assumption),
      (rule impI, rule breaker_trips_and_recovers_parts(3) [OF assms], assumption))

theorem breaker_trips_and_recovers_witness:
  "circuit_of (breaker_run (with_config 2 1 30000) (map Failed [5])) = Closed \<and>
   fst (breaker_state 29000 (breaker_run (with_config 2 1 30000) (map Failed [5] @ [Failed 10]))) = Open \<and>
   fst (breaker_state 30010 (breaker_run (with_config 2 1 30000) (map Failed [5] @ [Failed 10]))) = HalfOpen"
  using breaker_trips_and_recovers [THEN conjunct1, of "[5]" 2 1 30000]
    breaker_trips_and_recovers [THEN conjunct2, THEN conjunct1, THEN mp, of "[5]" 2 29000 10 30000 1]
    breaker_trips_and_recovers [THEN conjunct2, THEN conjunct2, THEN mp, of "[5]" 2 30000 30010 10 1]
  by (simp add: sat_sub_def)

subsection \<open>Further facts\<close>

text \<open>
  However the half-open reservations of concurrent requests interleave on the in-flight gauge, the gauge never exceeds the success threshold, and of the calls that have finished exactly as many were admitted as the threshold left free slots for.
\<close>

lemma half_open_probe_cap:
  fixes w cap :: u64
  assumes "cell_reachable (\<lambda>_ :: 'i. probe_body cap) w s" and "w \<le> cap"
  shows "cell s \<le> cap \<and> unat (cell s) = unat w + length (filter snd (history s)) \<and>
    length (filter snd (history s)) = min (length (history s)) (unat cap - unat w)"
proof -
  have "run_all (\<lambda>_ :: 'i. probe_body cap) w (map fst (history s)) = (cell s, map snd (history s))"
    using reachable_linearized [OF assms(1)] by (simp add: linearized_def)
  from probe_run_count [OF this assms(2)]
  have "unat (cell s) = unat w + length (filter id (map snd (history s)))"
    and "length (filter id (map snd (history s))) = min (length (history s)) (unat cap - unat w)" by simp_all
  moreover have "length (filter id (map snd (history s))) = length (filter snd (history s))"
    by (simp add: filter_map comp_def)
  moreover have "cell s \<le> cap" by (rule probe.interleaving_good [OF assms])
  ultimately show ?thesis by simp
qed

text \<open>
  However concurrent samples interleave, the latency average never exceeds the largest sample recorded, as long as samples are below 2^64/1000 milliseconds so that the products do not wrap.
\<close>

lemma latency_average_bounded:
  fixes sample :: "'i \<Rightarrow> u64"
  assumes "cell_reachable (\<lambda>i. ewma_body (sample i)) LATENCY_UNSET s"
    and "\<forall>i. sample i \<le> hi" and "latency_sane hi" and "ewma_read (cell s) = Some ms"
  shows "ms \<le> hi"
proof -
  have "cas_family (\<lambda>i. ewma_body (sample i)) (ewma_within hi)"
    by unfold_locales (use assms(2,3) in \<open>auto simp: ewma_body_def intro: ewma_next_within\<close>)
  then have "ewma_within hi (cell s)"
    by (rule cas_family.interleaving_good [OF _ assms(1)]) (simp add: ewma_within_def)
  then show ?thesis using assms(4) by (auto simp: ewma_within_def ewma_read_def split: if_splits)
qed

end
