(* ===== verification/Health_Tracker.thy ===== *)
theory Health_Tracker
  imports Circuit_Breaker
begin

text \<open>
  \<^verbatim>\<open>HealthTracker\<close> of \<^verbatim>\<open>crates/router/src/lib.rs\<close>: the registry of per-provider health cells,
  scoped by owner with a fall-back to the global owner; the in-flight guards; and the packed
  per-key cooldown words. The registry is a map of maps. The sources share each cell through
  an \<^verbatim>\<open>Arc\<close> that no two registry entries have in common, so a cell is a value of the map, and a
  guard names its cell. The cooldown array has \<open>2 ^ 16\<close> words and is indexed by the low 16
  bits of a hash, so it is a function on 16-bit words; the hash itself (a randomly seeded
  \<^verbatim>\<open>RandomState\<close>) is a field the model knows nothing about.
\<close>

record provider_health =
  breaker :: circuit_breaker
  latency :: u64
  in_flight :: u64

type_synonym registry = "string \<rightharpoonup> (string \<rightharpoonup> provider_health)"

record health_tracker =
  providers :: registry
  key_cooldowns :: "u16 \<Rightarrow> u64"
  key_hasher :: "string \<times> string \<times> u64 \<Rightarrow> u64"

definition GLOBAL_OWNER :: string where "GLOBAL_OWNER = ''''"

definition provider_health_new :: provider_health where
  "provider_health_new = \<lparr>breaker = breaker_new, latency = LATENCY_UNSET, in_flight = 0\<rparr>"

fun insert_names :: "(string \<rightharpoonup> provider_health) \<Rightarrow> string list \<Rightarrow> (string \<rightharpoonup> provider_health)" where
  "insert_names m [] = m"
| "insert_names m (p # ps) = insert_names (m(p \<mapsto> provider_health_new)) ps"

definition tracker_new :: "(string \<times> string \<times> u64 \<Rightarrow> u64) \<Rightarrow> string list \<Rightarrow> health_tracker" where
  "tracker_new hasher ps =
     \<lparr>providers = [GLOBAL_OWNER \<mapsto> insert_names Map.empty ps],
      key_cooldowns = (\<lambda>_. 0), key_hasher = hasher\<rparr>"

section \<open>Resolution\<close>

definition registry_get :: "registry \<Rightarrow> string \<Rightarrow> string \<Rightarrow> provider_health option" where
  "registry_get reg owner provider = Option.bind (reg owner) (\<lambda>by_name. by_name provider)"

text \<open>The owner whose cell the lookup lands on, with the cell.\<close>

definition health_lookup :: "registry \<Rightarrow> string \<Rightarrow> string \<Rightarrow> (string \<times> provider_health) option" where
  "health_lookup reg owner provider =
     (case registry_get reg owner provider of
        Some h \<Rightarrow> Some (owner, h)
      | None \<Rightarrow> (case registry_get reg GLOBAL_OWNER provider of
                   Some h \<Rightarrow> Some (GLOBAL_OWNER, h)
                 | None \<Rightarrow> None))"

definition registry_put :: "registry \<Rightarrow> string \<Rightarrow> string \<Rightarrow> provider_health \<Rightarrow> registry" where
  "registry_put reg owner provider h =
     (case reg owner of
        None \<Rightarrow> reg(owner \<mapsto> [provider \<mapsto> h])
      | Some by_name \<Rightarrow> reg(owner \<mapsto> by_name(provider \<mapsto> h)))"

definition with_health ::
  "health_tracker \<Rightarrow> string \<Rightarrow> string \<Rightarrow> (provider_health \<Rightarrow> 'r \<times> provider_health)
     \<Rightarrow> 'r option \<times> health_tracker" where
  "with_health t owner provider f =
     (case health_lookup (providers t) owner provider of
        None \<Rightarrow> (None, t)
      | Some (o', h) \<Rightarrow> (let (r, h') = f h in
          (Some r, t\<lparr>providers := registry_put (providers t) o' provider h'\<rparr>)))"

definition register :: "health_tracker \<Rightarrow> string \<Rightarrow> string \<Rightarrow> health_tracker" where
  "register t owner name =
     (if registry_get (providers t) owner name \<noteq> None then t
      else t\<lparr>providers := registry_put (providers t) owner name provider_health_new\<rparr>)"

lemma registry_get_put [simp]:
  "registry_get (registry_put reg o' p' h) ow p =
     (if ow = o' \<and> p = p' then Some h else registry_get reg ow p)"
  by (auto simp: registry_get_def registry_put_def split: option.splits)

section \<open>Accessors\<close>

definition record_latency :: "health_tracker \<Rightarrow> string \<Rightarrow> string \<Rightarrow> u64 \<Rightarrow> health_tracker" where
  "record_latency t owner provider ms =
     snd (with_health t owner provider (\<lambda>h. ((), h\<lparr>latency := ewma_record ms (latency h)\<rparr>)))"

definition latency_ms :: "health_tracker \<Rightarrow> string \<Rightarrow> string \<Rightarrow> u64 option" where
  "latency_ms t owner provider =
     Option.bind (fst (with_health t owner provider (\<lambda>h. (ewma_read (latency h), h)))) (\<lambda>x. x)"

definition tracker_in_flight :: "health_tracker \<Rightarrow> string \<Rightarrow> string \<Rightarrow> u64" where
  "tracker_in_flight t owner provider =
     (case fst (with_health t owner provider (\<lambda>h. (in_flight h, h))) of
        Some n \<Rightarrow> n | None \<Rightarrow> u64_max)"

text \<open>A guard is the name of the cell whose gauge its drop decrements.\<close>

type_synonym guard = "string \<times> string"

definition enter_in_flight ::
  "health_tracker \<Rightarrow> string \<Rightarrow> string \<Rightarrow> guard option \<times> health_tracker" where
  "enter_in_flight t owner provider =
     (case health_lookup (providers t) owner provider of
        None \<Rightarrow> (None, t)
      | Some (o', h) \<Rightarrow>
          (Some (o', provider),
           t\<lparr>providers := registry_put (providers t) o' provider
               (h\<lparr>in_flight := gauge_enter (in_flight h)\<rparr>)\<rparr>))"

definition drop_guard :: "health_tracker \<Rightarrow> guard \<Rightarrow> health_tracker" where
  "drop_guard t g =
     (case registry_get (providers t) (fst g) (snd g) of
        None \<Rightarrow> t
      | Some h \<Rightarrow> t\<lparr>providers := registry_put (providers t) (fst g) (snd g)
          (h\<lparr>in_flight := gauge_drop (in_flight h)\<rparr>)\<rparr>)"

definition tracker_is_available ::
  "u64 \<Rightarrow> health_tracker \<Rightarrow> string \<Rightarrow> string \<Rightarrow> bool \<times> health_tracker" where
  "tracker_is_available now t owner provider =
     (let (r, t') = with_health t owner provider
        (\<lambda>h. let (a, b) = breaker_admits now (in_flight h) (breaker h) in (a, h\<lparr>breaker := b\<rparr>))
      in (case r of Some a \<Rightarrow> a | None \<Rightarrow> True, t'))"

datatype probe_admission = Admitted guard | Rejected | Untracked

text \<open>The body of the closure: the new cell, and whether a slot was taken.\<close>

definition probe_cell :: "u64 \<Rightarrow> provider_health \<Rightarrow> bool \<times> provider_health" where
  "probe_cell now h =
     (let (st, b) = breaker_state now (breaker h); h' = h\<lparr>breaker := b\<rparr> in
      case st of
        Open \<Rightarrow> (False, h')
      | Closed \<Rightarrow> (True, h'\<lparr>in_flight := gauge_enter (in_flight h')\<rparr>)
      | HalfOpen \<Rightarrow>
          (let (n, admitted) = run_alone (probe_body (success_threshold b)) (in_flight h')
           in (admitted, h'\<lparr>in_flight := n\<rparr>)))"

definition try_enter_probe ::
  "u64 \<Rightarrow> health_tracker \<Rightarrow> string \<Rightarrow> string \<Rightarrow> probe_admission \<times> health_tracker" where
  "try_enter_probe now t owner provider =
     (case health_lookup (providers t) owner provider of
        None \<Rightarrow> (Untracked, t)
      | Some (o', h) \<Rightarrow>
          (let (admitted, h') = probe_cell now h;
               t' = t\<lparr>providers := registry_put (providers t) o' provider h'\<rparr>
           in (if admitted then Admitted (o', provider) else Rejected, t')))"

definition tracker_record_success :: "health_tracker \<Rightarrow> string \<Rightarrow> string \<Rightarrow> health_tracker" where
  "tracker_record_success t owner provider =
     snd (with_health t owner provider
       (\<lambda>h. ((), h\<lparr>breaker := breaker_record_success (breaker h)\<rparr>)))"

definition tracker_record_failure ::
  "u64 \<Rightarrow> health_tracker \<Rightarrow> string \<Rightarrow> string \<Rightarrow> health_tracker" where
  "tracker_record_failure now t owner provider =
     snd (with_health t owner provider
       (\<lambda>h. ((), h\<lparr>breaker := breaker_record_failure now (breaker h)\<rparr>)))"

definition tracker_state ::
  "u64 \<Rightarrow> health_tracker \<Rightarrow> string \<Rightarrow> string \<Rightarrow> circuit_state \<times> health_tracker" where
  "tracker_state now t owner provider =
     (let (r, t') = with_health t owner provider
        (\<lambda>h. let (st, b) = breaker_state now (breaker h) in (st, h\<lparr>breaker := b\<rparr>))
      in (case r of Some st \<Rightarrow> st | None \<Rightarrow> Closed, t'))"

definition global_provider_names :: "health_tracker \<Rightarrow> string set" where
  "global_provider_names t =
     (case providers t GLOBAL_OWNER of Some by_name \<Rightarrow> dom by_name | None \<Rightarrow> {})"

lemmas accessor_defs =
  record_latency_def latency_ms_def tracker_in_flight_def enter_in_flight_def drop_guard_def
  tracker_is_available_def try_enter_probe_def tracker_record_success_def
  tracker_record_failure_def tracker_state_def

section \<open>One call, one cell\<close>

text \<open>
  A call of the request path, and the system of a tracker with its outstanding guards. A
  guard is dropped once, so a drop consumes one outstanding guard.
\<close>

datatype tracker_call =
    Register string
  | RecordLatency string u64
  | RecordSuccess string
  | RecordFailure u64 string
  | IsAvailable u64 string
  | ReadState u64 string
  | EnterInFlight string
  | TryProbe u64 string
  | DropGuard guard

fun tracked_step ::
  "health_tracker \<times> guard list \<Rightarrow> string \<times> tracker_call \<Rightarrow> health_tracker \<times> guard list" where
  "tracked_step (t, gs) (ow, Register p) = (register t ow p, gs)"
| "tracked_step (t, gs) (ow, RecordLatency p ms) = (record_latency t ow p ms, gs)"
| "tracked_step (t, gs) (ow, RecordSuccess p) = (tracker_record_success t ow p, gs)"
| "tracked_step (t, gs) (ow, RecordFailure now p) = (tracker_record_failure now t ow p, gs)"
| "tracked_step (t, gs) (ow, IsAvailable now p) = (snd (tracker_is_available now t ow p), gs)"
| "tracked_step (t, gs) (ow, ReadState now p) = (snd (tracker_state now t ow p), gs)"
| "tracked_step (t, gs) (ow, EnterInFlight p) =
     (case enter_in_flight t ow p of (None, t') \<Rightarrow> (t', gs) | (Some g, t') \<Rightarrow> (t', g # gs))"
| "tracked_step (t, gs) (ow, TryProbe now p) =
     (case try_enter_probe now t ow p of (Admitted g, t') \<Rightarrow> (t', g # gs) | (_, t') \<Rightarrow> (t', gs))"
| "tracked_step (t, gs) (ow, DropGuard g) =
     (if g \<in> set gs then (drop_guard t g, remove1 g gs) else (t, gs))"

definition tracked_run ::
  "health_tracker \<times> guard list \<Rightarrow> (string \<times> tracker_call) list \<Rightarrow> health_tracker \<times> guard list" where
  "tracked_run s cs = foldl tracked_step s cs"

lemma tracked_run_simps [simp]:
  "tracked_run s [] = s"
  "tracked_run s (c # cs) = tracked_run (tracked_step s c) cs"
  by (simp_all add: tracked_run_def)

lemma health_lookup_cases:
  obtains (unknown) "health_lookup reg ow p = None" "registry_get reg ow p = None"
      "registry_get reg GLOBAL_OWNER p = None"
  | (own) h where "health_lookup reg ow p = Some (ow, h)" "registry_get reg ow p = Some h"
  | (shared) h where "health_lookup reg ow p = Some (GLOBAL_OWNER, h)"
      "registry_get reg ow p = None" "registry_get reg GLOBAL_OWNER p = Some h"
  by (auto simp: health_lookup_def split: option.splits)

lemma health_lookup_get:
  "health_lookup reg ow p = Some (o', h) \<Longrightarrow>
     registry_get reg o' p = Some h \<and> (o' = ow \<or> o' = GLOBAL_OWNER)"
  by (auto simp: health_lookup_def split: option.splits)

lemma with_health_get:
  "registry_get (providers (snd (with_health t ow p f))) o2 p2 =
     (case health_lookup (providers t) ow p of
        Some (o', h) \<Rightarrow>
          if o2 = o' \<and> p2 = p then Some (snd (f h)) else registry_get (providers t) o2 p2
      | None \<Rightarrow> registry_get (providers t) o2 p2)"
  by (auto simp: with_health_def Let_def case_prod_beta split: option.splits)

text \<open>What a call does to the cell it lands on, and the cell a call lands on.\<close>

fun call_cell :: "tracker_call \<Rightarrow> provider_health \<Rightarrow> provider_health" where
  "call_cell (Register _) h = h"
| "call_cell (RecordLatency _ ms) h = h\<lparr>latency := ewma_record ms (latency h)\<rparr>"
| "call_cell (RecordSuccess _) h = h\<lparr>breaker := breaker_record_success (breaker h)\<rparr>"
| "call_cell (RecordFailure now _) h = h\<lparr>breaker := breaker_record_failure now (breaker h)\<rparr>"
| "call_cell (IsAvailable now _) h = h\<lparr>breaker := snd (breaker_state now (breaker h))\<rparr>"
| "call_cell (ReadState now _) h = h\<lparr>breaker := snd (breaker_state now (breaker h))\<rparr>"
| "call_cell (EnterInFlight _) h = h\<lparr>in_flight := gauge_enter (in_flight h)\<rparr>"
| "call_cell (TryProbe now _) h = snd (probe_cell now h)"
| "call_cell (DropGuard _) h = h\<lparr>in_flight := gauge_drop (in_flight h)\<rparr>"

definition call_target :: "registry \<Rightarrow> guard list \<Rightarrow> string \<Rightarrow> tracker_call \<Rightarrow> guard option" where
  "call_target reg gs ow c =
     (case c of
        Register p \<Rightarrow> None
      | DropGuard g \<Rightarrow> if g \<in> set gs then Some g else None
      | RecordLatency p _ \<Rightarrow> map_option (\<lambda>(o', _). (o', p)) (health_lookup reg ow p)
      | RecordSuccess p \<Rightarrow> map_option (\<lambda>(o', _). (o', p)) (health_lookup reg ow p)
      | RecordFailure _ p \<Rightarrow> map_option (\<lambda>(o', _). (o', p)) (health_lookup reg ow p)
      | IsAvailable _ p \<Rightarrow> map_option (\<lambda>(o', _). (o', p)) (health_lookup reg ow p)
      | ReadState _ p \<Rightarrow> map_option (\<lambda>(o', _). (o', p)) (health_lookup reg ow p)
      | EnterInFlight p \<Rightarrow> map_option (\<lambda>(o', _). (o', p)) (health_lookup reg ow p)
      | TryProbe _ p \<Rightarrow> map_option (\<lambda>(o', _). (o', p)) (health_lookup reg ow p))"

text \<open>Every call but a registration changes the one cell it lands on, by its cell function.\<close>

lemma step_get:
  assumes "\<And>p. c \<noteq> Register p"
  shows "registry_get (providers (fst (tracked_step (t, gs) (ow, c)))) o2 p2 =
    (if call_target (providers t) gs ow c = Some (o2, p2)
     then map_option (call_cell c) (registry_get (providers t) o2 p2)
     else registry_get (providers t) o2 p2)"
  using assms
  by (cases c) (auto simp: call_target_def accessor_defs with_health_get Let_def breaker_admits_def
      case_prod_beta dest: health_lookup_get split: option.splits if_splits)

lemma step_get_register:
  "registry_get (providers (fst (tracked_step (t, gs) (ow, Register p)))) o2 p2 =
    (if o2 = ow \<and> p2 = p \<and> registry_get (providers t) ow p = None
     then Some provider_health_new else registry_get (providers t) o2 p2)"
  by (auto simp: register_def)

lemma step_keeps_cells:
  "registry_get (providers t) o2 p2 \<noteq> None \<Longrightarrow>
     registry_get (providers (fst (tracked_step (t, gs) (ow, c)))) o2 p2 \<noteq> None"
  by (cases "\<exists>p. c = Register p") (auto simp: step_get step_get_register simp del: tracked_step.simps)

lemma call_target_owner:
  "call_target reg gs ow c = Some (o2, p2) \<Longrightarrow> (\<And>g. c \<noteq> DropGuard g) \<Longrightarrow> o2 = ow \<or> o2 = GLOBAL_OWNER"
  by (cases c) (auto simp: call_target_def dest: health_lookup_get)

section \<open>Tenant isolation\<close>

text \<open>A call made for another tenant; a drop counts as made by the owner of the guard's cell.\<close>

fun foreign_call :: "string \<Rightarrow> string \<times> tracker_call \<Rightarrow> bool" where
  "foreign_call b (ow, DropGuard g) \<longleftrightarrow> fst g \<noteq> b"
| "foreign_call b (ow, c) \<longleftrightarrow> ow \<noteq> b"

lemma foreign_step_get:
  assumes "foreign_call b (ow, c)" and "b \<noteq> GLOBAL_OWNER"
  shows "registry_get (providers (fst (tracked_step (t, gs) (ow, c)))) b p =
    registry_get (providers t) b p"
proof (cases "\<exists>q. c = Register q")
  case True
  then show ?thesis using assms(1) by (auto simp: step_get_register simp del: tracked_step.simps)
next
  case False
  have "call_target (providers t) gs ow c \<noteq> Some (b, p)"
  proof (cases "\<exists>g. c = DropGuard g")
    case True
    then show ?thesis using assms(1) by (auto simp: call_target_def split: if_splits)
  next
    case False
    then have "ow \<noteq> b" using assms(1) by (cases c) auto
    then show ?thesis using False assms(2) by (auto dest: call_target_owner)
  qed
  then show ?thesis using False by (simp add: step_get del: tracked_step.simps)
qed

lemma foreign_run_get:
  assumes "\<forall>c \<in> set cs. foreign_call b c" and "b \<noteq> GLOBAL_OWNER"
  shows "registry_get (providers (fst (tracked_run (t, gs) cs))) b p = registry_get (providers t) b p"
  using assms(1)
proof (induction cs arbitrary: t gs)
  case (Cons c cs)
  obtain ow k where c: "c = (ow, k)" by (cases c)
  obtain t' gs' where st: "tracked_step (t, gs) c = (t', gs')" by fastforce
  have "registry_get (providers t') b p = registry_get (providers t) b p"
    using foreign_step_get [of b ow k t gs p] Cons.prems assms(2) c st by simp
  then show ?case using Cons.IH [of t' gs'] Cons.prems st by simp
qed simp

section \<open>The gauge counts the outstanding guards\<close>

definition gauge_ok :: "health_tracker \<times> guard list \<Rightarrow> bool" where
  "gauge_ok s \<longleftrightarrow>
     (\<forall>g \<in> set (snd s). registry_get (providers (fst s)) (fst g) (snd g) \<noteq> None) \<and>
     (\<forall>ow p h. registry_get (providers (fst s)) ow p = Some h \<longrightarrow>
        in_flight h = of_nat (count_list (snd s) (ow, p)))"

text \<open>The guards after a call: a new one for the target, one fewer, or the same.\<close>

definition takes_slot :: "registry \<Rightarrow> tracker_call \<Rightarrow> guard \<Rightarrow> bool" where
  "takes_slot reg c g \<longleftrightarrow>
     (case c of
        EnterInFlight _ \<Rightarrow> True
      | TryProbe now _ \<Rightarrow> (case registry_get reg (fst g) (snd g) of
            Some h \<Rightarrow> fst (probe_cell now h) | None \<Rightarrow> False)
      | _ \<Rightarrow> False)"

lemma step_guards:
  "snd (tracked_step (t, gs) (ow, c)) =
     (case c of
        DropGuard g \<Rightarrow> remove1 g gs
      | _ \<Rightarrow> (case call_target (providers t) gs ow c of
               Some g \<Rightarrow> if takes_slot (providers t) c g then g # gs else gs
             | None \<Rightarrow> gs))"
  by (cases c) (auto simp: call_target_def takes_slot_def enter_in_flight_def try_enter_probe_def
      Let_def case_prod_beta remove1_idem dest: health_lookup_get
      split: option.splits if_splits prod.splits)

lemma in_flight_probe_cell:
  "in_flight (snd (probe_cell now h)) =
     (if fst (probe_cell now h) then in_flight h + 1 else in_flight h)"
  by (auto simp: probe_cell_def run_alone_probe gauge_enter_def Let_def case_prod_beta
      simp del: run_alone.simps split: circuit_state.splits)

lemma in_flight_call_cell:
  assumes "registry_get reg (fst g) (snd g) = Some h"
  shows "in_flight (call_cell c h) =
    (if takes_slot reg c g then in_flight h + 1
     else if \<exists>g'. c = DropGuard g' then in_flight h - 1 else in_flight h)"
  using assms by (cases c) (auto simp: takes_slot_def gauge_enter_def gauge_drop_def in_flight_probe_cell)

lemma count_list_remove1:
  "count_list (remove1 g gs) g' = (if g = g' then count_list gs g' - 1 else count_list gs g')"
  by (induction gs) (auto simp: count_list_0_iff)

lemma count_pos: "g \<in> set gs \<Longrightarrow> 0 < count_list gs g"
  by (metis count_list_0_iff gr0I)

lemma gauge_ok_register:
  assumes "gauge_ok (t, gs)"
  shows "gauge_ok (tracked_step (t, gs) (ow, Register p))"
proof (cases "registry_get (providers t) ow p")
  case None
  then have "(ow, p) \<notin> set gs" using assms by (auto simp: gauge_ok_def)
  then have "count_list gs (ow, p) = 0" by (simp add: count_list_0_iff)
  then show ?thesis using assms
    by (auto simp: gauge_ok_def register_def provider_health_new_def)
next
  case (Some h)
  then show ?thesis using assms by (simp add: register_def)
qed

lemma step_target_known:
  assumes "gauge_ok (t, gs)" and "call_target (providers t) gs ow c = Some g"
  shows "registry_get (providers t) (fst g) (snd g) \<noteq> None"
  using assms by (cases c) (auto simp: call_target_def gauge_ok_def split: if_splits
      dest: health_lookup_get)

lemma step_guards_subset:
  "set (snd (tracked_step (t, gs) (ow, c))) \<subseteq> set_option (call_target (providers t) gs ow c) \<union> set gs"
  by (cases c) (auto simp: step_guards simp del: tracked_step.simps
      dest: notin_set_remove1 split: if_splits option.splits)

text \<open>A cell the call does not land on keeps its number of guards.\<close>

lemma step_guards_other:
  "call_target (providers t) gs ow c \<noteq> Some g \<Longrightarrow>
     count_list (snd (tracked_step (t, gs) (ow, c))) g = count_list gs g"
  by (cases c) (auto simp: step_guards count_list_remove1 call_target_def count_list_0_iff
      simp del: tracked_step.simps split: option.splits if_splits)

text \<open>On the cell it lands on, the gauge moves with the number of guards.\<close>

lemma step_guards_target:
  assumes "call_target (providers t) gs ow c = Some g" and "registry_get (providers t) (fst g) (snd g) = Some h"
    and "in_flight h = of_nat (count_list gs g)"
  shows "in_flight (call_cell c h) = of_nat (count_list (snd (tracked_step (t, gs) (ow, c))) g)"
proof -
  have "g \<in> set gs" if "c = DropGuard g'" for g'
    using that assms(1) by (auto simp: call_target_def split: if_splits)
  then show ?thesis
    using assms in_flight_call_cell [OF assms(2), of c] count_pos [of g gs]
    by (auto simp: step_guards count_list_remove1 call_target_def takes_slot_def of_nat_diff
        simp del: tracked_step.simps split: tracker_call.splits if_splits)
qed

lemma gauge_ok_step:
  assumes ok: "gauge_ok (t, gs)"
  shows "gauge_ok (tracked_step (t, gs) (ow, c))"
proof (cases "\<exists>p. c = Register p")
  case True
  then show ?thesis using gauge_ok_register [OF ok] by auto
next
  case False
  let ?reg = "providers t" and ?s' = "tracked_step (t, gs) (ow, c)"
  let ?target = "call_target ?reg gs ow c"
  have known: "registry_get (providers (fst ?s')) (fst g) (snd g) \<noteq> None" if "g \<in> set (snd ?s')" for g
  proof -
    have "?target = Some g \<or> g \<in> set gs"
      using that step_guards_subset [of t gs ow c] by (cases ?target) (auto simp del: tracked_step.simps)
    then have "registry_get ?reg (fst g) (snd g) \<noteq> None"
      using ok step_target_known [OF ok] by (auto simp: gauge_ok_def)
    then show ?thesis by (rule step_keeps_cells)
  qed
  have "in_flight h' = of_nat (count_list (snd ?s') (o2, p2))"
    if cell: "registry_get (providers (fst ?s')) o2 p2 = Some h'" for o2 p2 h'
  proof (cases "?target = Some (o2, p2)")
    case True
    then obtain h where h: "registry_get ?reg o2 p2 = Some h" "h' = call_cell c h"
      using cell False by (auto simp: step_get simp del: tracked_step.simps)
    then show ?thesis
      using step_guards_target [OF True, of h] ok by (simp add: gauge_ok_def del: tracked_step.simps)
  next
    case other: False
    then show ?thesis
      using cell False ok step_guards_other [OF other]
      by (simp add: step_get gauge_ok_def del: tracked_step.simps)
  qed
  with known show ?thesis by (simp add: gauge_ok_def del: tracked_step.simps)
qed

lemma gauge_ok_run: "gauge_ok s \<Longrightarrow> gauge_ok (tracked_run s cs)"
proof (induction cs arbitrary: s)
  case (Cons c cs)
  have "gauge_ok (tracked_step (fst s, snd s) (fst c, snd c))"
    using Cons.prems by (intro gauge_ok_step) simp
  then show ?case using Cons.IH by simp
qed simp

lemma insert_names_fresh:
  "(\<forall>p h. m p = Some h \<longrightarrow> h = provider_health_new) \<Longrightarrow>
     insert_names m ps p = Some h \<Longrightarrow> h = provider_health_new"
proof (induction ps arbitrary: m)
  case (Cons q ps)
  have "\<forall>p h. (m(q \<mapsto> provider_health_new)) p = Some h \<longrightarrow> h = provider_health_new"
    using Cons.prems(1) by simp
  from Cons.IH [OF this] Cons.prems(2) show ?case by (simp add: fun_upd_def)
qed simp

lemma tracker_new_get:
  "registry_get (providers (tracker_new hasher ps)) ow p = Some h \<Longrightarrow> h = provider_health_new"
  using insert_names_fresh [of Map.empty ps p h]
  by (auto simp: tracker_new_def registry_get_def split: if_splits)

lemma gauge_ok_new: "gauge_ok (tracker_new hasher ps, [])"
  by (auto simp: gauge_ok_def provider_health_new_def dest!: tracker_new_get)

section \<open>What every operation keeps of a cell\<close>

text \<open>
  The contract between the tracker and its cells: a property of cells that holds of a fresh
  cell and that each cell function keeps holds of every cell of every reachable tracker.
\<close>

locale cell_contract =
  fixes cell_ok :: "provider_health \<Rightarrow> bool"
  assumes fresh_ok: "cell_ok provider_health_new"
    and call_ok: "cell_ok h \<Longrightarrow> cell_ok (call_cell c h)"
begin

definition all_ok :: "health_tracker \<Rightarrow> bool" where
  "all_ok t \<longleftrightarrow> (\<forall>ow p h. registry_get (providers t) ow p = Some h \<longrightarrow> cell_ok h)"

lemma all_ok_new: "all_ok (tracker_new hasher ps)"
  using fresh_ok by (auto simp: all_ok_def dest!: tracker_new_get)

lemma all_ok_step: "all_ok t \<Longrightarrow> all_ok (fst (tracked_step (t, gs) (ow, c)))"
  by (cases "\<exists>p. c = Register p")
    (auto simp: all_ok_def step_get step_get_register fresh_ok call_ok simp del: tracked_step.simps
      split: if_splits)

lemma all_ok_run: "all_ok t \<Longrightarrow> all_ok (fst (tracked_run (t, gs) cs))"
proof (induction cs arbitrary: t gs)
  case (Cons c cs)
  obtain ow k where c: "c = (ow, k)" by (cases c)
  obtain t' gs' where st: "tracked_step (t, gs) c = (t', gs')" by fastforce
  have "all_ok t'" using all_ok_step [OF Cons.prems, of gs ow k] c st by simp
  then show ?case using Cons.IH [of t' gs'] st by simp
qed simp

lemma reachable_cell_ok:
  "registry_get (providers (fst (tracked_run (tracker_new hasher ps, []) cs))) ow p = Some h \<Longrightarrow> cell_ok h"
  using all_ok_run [OF all_ok_new, of hasher ps "[]" cs] by (simp add: all_ok_def)

end

lemma breaker_ok_probe: "breaker_ok (breaker h) \<Longrightarrow> breaker_ok (breaker (snd (probe_cell now h)))"
  using breaker_ok_state [of "breaker h" now]
  by (auto simp: probe_cell_def Let_def case_prod_beta simp del: run_alone.simps
      split: circuit_state.splits)

interpretation breakers: cell_contract "\<lambda>h. breaker_ok (breaker h)"
proof unfold_locales
  show "breaker_ok (breaker provider_health_new)"
    by (simp add: provider_health_new_def breaker_ok_default)
  fix h :: provider_health and c
  assume "breaker_ok (breaker h)"
  then show "breaker_ok (breaker (call_cell c h))"
    by (cases c) (auto intro: breaker_ok_state breaker_ok_success breaker_ok_failure breaker_ok_probe)
qed

section \<open>Properties\<close>

text \<open>
  C34. In every tracker reachable by any calls of any tenants, a call changes a breaker's circuit state exactly along the documented transition diagram: closed to open on the failure that reaches the threshold, open to half-open on a read once the cooldown has passed, half-open to closed on the success that reaches the threshold, half-open to open on any failure, and no other way.
\<close>

theorem breaker_transition_diagram:
  assumes "registry_get (providers (fst (tracked_run (tracker_new hasher ps, []) cs))) ow p = Some h"
  shows "circuit_of (breaker_step (breaker h) e) = d \<and> d \<noteq> circuit_of (breaker h) \<longleftrightarrow>
    breaker_edge (breaker h) e (circuit_of (breaker h)) d"
  by (rule breaker_step_edge [OF breakers.reachable_cell_ok [OF assms]])

theorem breaker_transition_diagram_witness:
  "circuit_of (breaker_step (breaker (the (registry_get (providers (fst (tracked_run
      (tracker_new (\<lambda>_. 0) [''openai''], []) [(''acme'', RecordFailure 7 ''openai'')]))) '''' ''openai'')))
      (Failed 8)) \<noteq> Open"
proof -
  let ?t = "fst (tracked_run (tracker_new (\<lambda>_. 0) [''openai''], []) [(''acme'', RecordFailure 7 ''openai'')])"
  let ?h = "provider_health_new\<lparr>breaker := breaker_new\<lparr>failures := 1\<rparr>\<rparr>"
  have "registry_get (providers ?t) '''' ''openai'' = Some ?h"
    by (simp add: tracker_new_def GLOBAL_OWNER_def tracker_record_failure_def with_health_def
        health_lookup_def registry_get_def registry_put_def provider_health_new_def breaker_new_def with_config_def
        breaker_record_failure_def Let_def DEFAULT_FAILURE_THRESHOLD_def word_le_nat_alt)
  from breaker_transition_diagram [OF this, of "Failed 8" Open] this show ?thesis
    by (simp add: provider_health_new_def breaker_new_def with_config_def circuit_of_def decode_state_def
        DEFAULT_FAILURE_THRESHOLD_def)
qed

subsection \<open>Further facts\<close>

text \<open>
  No sequence of calls made for other tenants (failures, probes, registrations, guard drops) changes the health cell a tenant registered for one of its own providers, its breaker, latency average and gauge included.
\<close>

lemma tenant_health_isolation:
  assumes "\<forall>c \<in> set cs. foreign_call b c" and "b \<noteq> GLOBAL_OWNER"
  shows "registry_get (providers (fst (tracked_run (t, gs) cs))) b p = registry_get (providers t) b p"
  by (rule foreign_run_get [OF assms])

text \<open>
  After any calls of any tenants on a fresh tracker, every cell's in-flight gauge equals the number of guards handed out for it and not yet dropped, so a drop never takes the gauge below zero and a leak would be visible in it.
\<close>

lemma gauge_counts_guards:
  assumes "tracked_run (tracker_new hasher ps, []) cs = (t, gs)" and "registry_get (providers t) ow p = Some h"
  shows "in_flight h = of_nat (count_list gs (ow, p))"
  using gauge_ok_run [OF gauge_ok_new, of hasher ps cs] assms by (simp add: gauge_ok_def)

end
