(* ===== verification/Rust_Strings.thy ===== *)
theory Rust_Strings
  imports Prelude
begin

text \<open>
  The string operations of \<^verbatim>\<open>std::str\<close> the sources call, on strings as lists of UTF-8 bytes:
  lengths and offsets count bytes, as in Rust. Trimming removes the code points with the
  Unicode property \<^verbatim>\<open>White_Space\<close>, given here by their encodings.
\<close>

definition bytes :: "nat list \<Rightarrow> string" where
  "bytes ns = map char_of ns"

definition utf8_whitespace :: "string list" where
  "utf8_whitespace =
     map bytes
       [[9], [10], [11], [12], [13], [32], [0xC2, 0x85], [0xC2, 0xA0], [0xE1, 0x9A, 0x80],
        [0xE2, 0x80, 0x80], [0xE2, 0x80, 0x81], [0xE2, 0x80, 0x82], [0xE2, 0x80, 0x83],
        [0xE2, 0x80, 0x84], [0xE2, 0x80, 0x85], [0xE2, 0x80, 0x86], [0xE2, 0x80, 0x87],
        [0xE2, 0x80, 0x88], [0xE2, 0x80, 0x89], [0xE2, 0x80, 0x8A], [0xE2, 0x80, 0xA8],
        [0xE2, 0x80, 0xA9], [0xE2, 0x80, 0xAF], [0xE2, 0x81, 0x9F], [0xE3, 0x80, 0x80]]"

lemma utf8_whitespace_nonempty: "w \<in> set utf8_whitespace \<Longrightarrow> 0 < length w"
  by (auto simp: utf8_whitespace_def bytes_def)

lemma find_whitespace: "find P utf8_whitespace = Some w \<Longrightarrow> P w \<and> 0 < length w"
  using utf8_whitespace_nonempty [of w] nth_mem by (fastforce simp: find_Some_iff)

function trim_start :: "string \<Rightarrow> string" where
  "trim_start s =
     (case find (\<lambda>w. prefix w s) utf8_whitespace of
        None \<Rightarrow> s
      | Some w \<Rightarrow> trim_start (drop (length w) s))"
  by pat_completeness auto
termination
  by (relation "measure length") (auto dest!: find_whitespace prefix_length_le intro!: diff_less)

function trim_end :: "string \<Rightarrow> string" where
  "trim_end s =
     (case find (\<lambda>w. suffix w s) utf8_whitespace of
        None \<Rightarrow> s
      | Some w \<Rightarrow> trim_end (take (length s - length w) s))"
  by pat_completeness auto
termination
  by (relation "measure length") (auto dest!: find_whitespace suffix_length_le intro!: diff_less)

declare trim_start.simps [simp del] trim_end.simps [simp del]

definition trim :: "string \<Rightarrow> string" where
  "trim s = trim_end (trim_start s)"

text \<open>Visible ASCII characters are no part of the encoding of a white-space code point.\<close>

definition visible :: "char \<Rightarrow> bool" where
  "visible c \<longleftrightarrow> 32 < (of_char c :: nat) \<and> (of_char c :: nat) < 127"

lemma utf8_whitespace_edges: "\<forall>w\<in>set utf8_whitespace. \<not> visible (hd w) \<and> \<not> visible (last w)"
  by (simp add: utf8_whitespace_def bytes_def visible_def)

lemma trim_start_visible:
  assumes "visible (hd s)"
  shows "trim_start s = s"
proof -
  have "\<not> prefix w s" if "w \<in> set utf8_whitespace" for w
    using utf8_whitespace_edges utf8_whitespace_nonempty [OF that] that assms by (cases w) (auto simp: prefix_def)
  then have "find (\<lambda>w. prefix w s) utf8_whitespace = None" by (simp add: find_None_iff)
  then show ?thesis by (subst trim_start.simps) simp
qed

lemma trim_end_visible:
  assumes "visible (last s)"
  shows "trim_end s = s"
proof -
  have "\<not> suffix w s" if "w \<in> set utf8_whitespace" for w
    using utf8_whitespace_edges utf8_whitespace_nonempty [OF that] that assms by (cases w) (auto simp: suffix_def)
  then have "find (\<lambda>w. suffix w s) utf8_whitespace = None" by (simp add: find_None_iff)
  then show ?thesis by (subst trim_end.simps) simp
qed

text \<open>Text with visible ASCII at both ends is its own trimming.\<close>

lemma trim_visible: "visible (hd s) \<Longrightarrow> visible (last s) \<Longrightarrow> trim s = s"
  by (simp add: trim_def trim_start_visible trim_end_visible)

text \<open>Trimming leaves nothing to trim.\<close>

lemma trim_start_done: "w \<in> set utf8_whitespace \<Longrightarrow> \<not> prefix w (trim_start s)"
proof (induction s rule: trim_start.induct)
  case (1 s)
  then show ?case
    by (subst trim_start.simps) (auto simp: find_None_iff split: option.split)
qed

lemma trim_end_done: "w \<in> set utf8_whitespace \<Longrightarrow> \<not> suffix w (trim_end s)"
proof (induction s rule: trim_end.induct)
  case (1 s)
  then show ?case
    by (subst trim_end.simps) (auto simp: find_None_iff split: option.split)
qed

lemma trim_end_prefix: "prefix (trim_end s) s"
proof (induction s rule: trim_end.induct)
  case (1 s)
  then show ?case
    by (subst trim_end.simps) (auto split: option.split intro: prefix_order.trans take_is_prefix)
qed

lemma trim_trim [simp]: "trim (trim s) = trim s"
proof -
  have "\<not> prefix w (trim s)" if "w \<in> set utf8_whitespace" for w
    using trim_start_done [OF that, of s] trim_end_prefix [of "trim_start s"] prefix_order.trans
    by (auto simp: trim_def)
  then have "trim_start (trim s) = trim s"
    by (subst trim_start.simps) (auto simp: find_Some_iff split: option.split)
  moreover have "trim_end (trim_end t) = trim_end t" for t
    using trim_end_done by (subst trim_end.simps) (auto simp: find_None_iff find_Some_iff split: option.split)
  ultimately show ?thesis by (simp add: trim_def)
qed

definition is_ascii_uppercase :: "char \<Rightarrow> bool" where
  "is_ascii_uppercase c \<longleftrightarrow> 65 \<le> (of_char c :: nat) \<and> (of_char c :: nat) \<le> 90"

definition is_ascii_lowercase :: "char \<Rightarrow> bool" where
  "is_ascii_lowercase c \<longleftrightarrow> 97 \<le> (of_char c :: nat) \<and> (of_char c :: nat) \<le> 122"

definition is_ascii_digit :: "char \<Rightarrow> bool" where
  "is_ascii_digit c \<longleftrightarrow> 48 \<le> (of_char c :: nat) \<and> (of_char c :: nat) \<le> 57"

definition is_ascii_alphanumeric :: "char \<Rightarrow> bool" where
  "is_ascii_alphanumeric c \<longleftrightarrow> is_ascii_uppercase c \<or> is_ascii_lowercase c \<or> is_ascii_digit c"

definition ascii_lower :: "char \<Rightarrow> char" where
  "ascii_lower c = (if is_ascii_uppercase c then char_of ((of_char c :: nat) + 32) else c)"

definition to_ascii_lowercase :: "string \<Rightarrow> string" where
  "to_ascii_lowercase s = map ascii_lower s"

text \<open>\<^verbatim>\<open>s.contains(pat)\<close> and the start offsets of the non-overlapping \<^verbatim>\<open>match_indices\<close>.\<close>

fun contains :: "string \<Rightarrow> string \<Rightarrow> bool" where
  "contains [] pat = (pat = [])"
| "contains (c # s) pat = (prefix pat (c # s) \<or> contains s pat)"

lemma contains_sublist: "contains s pat \<longleftrightarrow> sublist pat s"
  by (induction s) (auto simp: sublist_Cons_right)

function match_offsets :: "nat \<Rightarrow> string \<Rightarrow> string \<Rightarrow> nat list" where
  "match_offsets i [] pat = (if pat = [] then [i] else [])"
| "match_offsets i (c # s) pat =
     (if prefix pat (c # s)
      then i # (if pat = [] then match_offsets (i + 1) s pat
                else match_offsets (i + length pat) (drop (length pat) (c # s)) pat)
      else match_offsets (i + 1) s pat)"
  by pat_completeness auto
termination
  by (relation "measure (\<lambda>(i, s, pat). length s)") auto

text \<open>\<^verbatim>\<open>s.split(sep)\<close> for a single byte.\<close>

fun split_on :: "char \<Rightarrow> string \<Rightarrow> string list" where
  "split_on sep [] = [[]]"
| "split_on sep (c # s) =
     (if c = sep then [] # split_on sep s
      else (case split_on sep s of [] \<Rightarrow> [[c]] | x # xs \<Rightarrow> (c # x) # xs))"

lemma split_on_nonempty [simp]: "split_on sep s \<noteq> []"
  by (cases s) (auto split: list.splits)

text \<open>Rust compares strings by their bytes.\<close>

fun str_less :: "string \<Rightarrow> string \<Rightarrow> bool" where
  "str_less [] [] = False"
| "str_less [] (_ # _) = True"
| "str_less (_ # _) [] = False"
| "str_less (c # s) (d # t) =
     (if (of_char c :: nat) < of_char d then True
      else if c = d then str_less s t else False)"

text \<open>Decimal formatting of an unsigned integer.\<close>

definition digit :: "nat \<Rightarrow> char" where
  "digit n = char_of (48 + n)"

function show_nat :: "nat \<Rightarrow> string" where
  "show_nat n = (if n < 10 then [digit n] else show_nat (n div 10) @ [digit (n mod 10)])"
  by auto
termination by (relation "measure id") auto

declare show_nat.simps [simp del]

lemma of_char_digit: "n < 10 \<Longrightarrow> of_char (digit n) = 48 + n"
  by (simp add: digit_def of_char_of)

definition read_nat :: "string \<Rightarrow> nat" where
  "read_nat ds = foldl (\<lambda>a c. 10 * a + (of_char c - 48)) 0 ds"

lemma read_show_nat: "read_nat (show_nat n) = n"
proof (induction n rule: show_nat.induct)
  case (1 n)
  then show ?case
    by (subst show_nat.simps) (simp add: read_nat_def of_char_digit)
qed

lemma show_nat_inj: "show_nat n = show_nat m \<Longrightarrow> n = m"
  using read_show_nat by metis

lemma digit_no_colon: "n < 10 \<Longrightarrow> digit n \<noteq> CHR '':''"
proof
  assume "n < 10" and "digit n = CHR '':''"
  then have "48 + n = (of_char (CHR '':'') :: nat)" using of_char_digit by metis
  then show False using \<open>n < 10\<close> by simp
qed

lemma show_nat_no_colon: "CHR '':'' \<notin> set (show_nat n)"
proof (induction n rule: show_nat.induct)
  case (1 n)
  then show ?case
    using digit_no_colon [of n] digit_no_colon [of "n mod 10"]
    by (subst show_nat.simps) (auto dest: sym)
qed

text \<open>\<^verbatim>\<open>str::parse::<u64>\<close>: digits after an optional plus sign, below the bound of the type.\<close>

definition parse_u64 :: "string \<Rightarrow> u64 option" where
  "parse_u64 s =
     (let ds = (case s of c # t \<Rightarrow> if c = CHR ''+'' then t else s | [] \<Rightarrow> [])
      in if ds \<noteq> [] \<and> list_all is_ascii_digit ds \<and> read_nat ds < 2 ^ 64 then Some (of_nat (read_nat ds)) else None)"

text \<open>\<^verbatim>\<open>str::strip_prefix\<close>.\<close>

definition strip_prefix :: "string \<Rightarrow> string \<Rightarrow> string option" where
  "strip_prefix p s = (if prefix p s then Some (drop (length p) s) else None)"

text \<open>\<^verbatim>\<open>str::split_once\<close> on a character.\<close>

fun split_once :: "char \<Rightarrow> string \<Rightarrow> (string \<times> string) option" where
  "split_once sep [] = None"
| "split_once sep (c # s) =
     (if c = sep then Some ([], s)
      else map_option (\<lambda>(a, b). (c # a, b)) (split_once sep s))"

text \<open>The characters of UTF-8 text: a byte that is no continuation byte starts one.\<close>

definition is_char_start :: "char \<Rightarrow> bool" where
  "is_char_start c \<longleftrightarrow> (of_char c :: nat) div 64 \<noteq> 2"

function chars :: "string \<Rightarrow> string list" where
  "chars [] = []"
| "chars (c # s) = (c # takeWhile (\<lambda>d. \<not> is_char_start d) s) # chars (dropWhile (\<lambda>d. \<not> is_char_start d) s)"
  by pat_completeness auto
termination by (relation "measure length") (auto simp: less_Suc_eq_le length_dropWhile_le)

end
