(* ===== verification/Routing.thy ===== *)
theory Routing
  imports Health_Tracker Rust_Strings "HOL-Library.Multiset"
begin

text \<open>
  \<^verbatim>\<open>crates/router/src/strategy.rs\<close>: the routing strategies, the per-provider weights and costs,
  the SplitMix64 generator, and the two ordering passes (over names, and over policy targets
  with overrides). An ordering drops the candidates whose health cell does not admit a request
  and orders the rest. Reading availability may flip an expired breaker to half-open, so the
  tracker is threaded through; the instant each read takes from the clock is an argument.
\<close>

datatype routing_strategy = Priority | Weighted | Cost | Latency | RoundRobin | LeastBusy

definition strategy_parse :: "string \<Rightarrow> routing_strategy" where
  "strategy_parse value =
     (let v = to_ascii_lowercase (trim value) in
      if v = ''weighted'' then Weighted
      else if v = ''cost'' then Cost
      else if v = ''latency'' then Latency
      else if v \<in> {''round_robin'', ''roundrobin'', ''round-robin''} then RoundRobin
      else if v \<in> {''least_busy'', ''leastbusy'', ''least-busy''} then LeastBusy
      else Priority)"

record provider_routing =
  pr_weight :: u32
  pr_cost :: u32

definition provider_routing_default :: provider_routing where
  "provider_routing_default = \<lparr>pr_weight = 1, pr_cost = 100\<rparr>"

record candidate_spec =
  spec_name :: string
  spec_weight :: "u32 option"
  spec_cost :: "u32 option"

definition spec_plain :: "string \<Rightarrow> candidate_spec" where
  "spec_plain name = \<lparr>spec_name = name, spec_weight = None, spec_cost = None\<rparr>"

type_synonym router_config = "string \<rightharpoonup> provider_routing"

definition config_with_defaults :: router_config where
  "config_with_defaults =
     [''gemini'' \<mapsto> \<lparr>pr_weight = 1, pr_cost = 30\<rparr>,
      ''openai'' \<mapsto> \<lparr>pr_weight = 1, pr_cost = 50\<rparr>,
      ''azure_openai'' \<mapsto> \<lparr>pr_weight = 1, pr_cost = 55\<rparr>,
      ''anthropic'' \<mapsto> \<lparr>pr_weight = 1, pr_cost = 80\<rparr>]"

definition config_set :: "router_config \<Rightarrow> string \<Rightarrow> provider_routing \<Rightarrow> router_config" where
  "config_set cfg provider routing = cfg(provider \<mapsto> routing)"

definition config_get :: "router_config \<Rightarrow> string \<Rightarrow> provider_routing" where
  "config_get cfg provider =
     (case cfg provider of Some r \<Rightarrow> r | None \<Rightarrow> provider_routing_default)"

section \<open>SplitMix64\<close>

definition rng_next_u64 :: "u64 \<Rightarrow> u64 \<times> u64" where
  "rng_next_u64 state =
     (let state' = state + 0x9E3779B97F4A7C15;
          z = state';
          z = (z XOR drop_bit 30 z) * 0xBF58476D1CE4E5B9;
          z = (z XOR drop_bit 27 z) * 0x94D049BB133111EB
      in (z XOR drop_bit 31 z, state'))"

definition rng_next_below :: "u64 \<Rightarrow> u64 \<Rightarrow> u64 \<times> u64" where
  "rng_next_below bound state = (let (x, state') = rng_next_u64 state in (x mod bound, state'))"

section \<open>Ordering\<close>

record router =
  config :: router_config
  rr_cursor :: u64

definition router_new :: "router_config \<Rightarrow> router" where
  "router_new cfg = \<lparr>config = cfg, rr_cursor = 0\<rparr>"

text \<open>The up-front filter: \<open>clock i\<close> is the instant the \<open>i\<close>-th availability read sees.\<close>

fun drop_open ::
  "(nat \<Rightarrow> u64) \<Rightarrow> nat \<Rightarrow> string \<Rightarrow> ('a \<Rightarrow> string) \<Rightarrow> health_tracker \<Rightarrow> 'a list \<Rightarrow> 'a list \<times> health_tracker" where
  "drop_open clock i owner name t [] = ([], t)"
| "drop_open clock i owner name t (x # xs) =
     (let (ok, t') = tracker_is_available (clock i) t owner (name x);
          (live, t'') = drop_open clock (i + 1) owner name t' xs
      in (if ok then x # live else live, t''))"

text \<open>The inner loop of the weighted draw: the first index whose weight exceeds what is left of the pick.\<close>

fun pick_index :: "nat \<Rightarrow> u64 list \<Rightarrow> u64 \<Rightarrow> nat" where
  "pick_index i [] pick = 0"
| "pick_index i (w # ws) pick = (if pick < w then i else pick_index (i + 1) ws (pick - w))"

definition remove_nth :: "nat \<Rightarrow> 'a list \<Rightarrow> 'a list" where
  "remove_nth i xs = take i xs @ drop (Suc i) xs"

text \<open>
  The draw loop, for the weight function of either path; \<^verbatim>\<open>Vec::remove\<close> of an index past the end
  would panic, which is the \<open>None\<close> of the model.
\<close>

fun weighted_draw :: "nat \<Rightarrow> ('a \<Rightarrow> u64) \<Rightarrow> 'a list \<Rightarrow> u64 \<Rightarrow> ('a list \<times> u64) option" where
  "weighted_draw n weight [] rng = Some ([], rng)"
| "weighted_draw 0 weight (x # xs) rng = None"
| "weighted_draw (Suc n) weight (x # xs) rng =
     (let pool = x # xs;
          weights = map weight pool;
          total = sum_list weights;
          (pick, rng') = rng_next_below (max total 1) rng;
          chosen = pick_index 0 weights pick
      in if chosen < length pool
         then map_option (\<lambda>(ordered, rng''). (pool ! chosen # ordered, rng''))
                (weighted_draw n weight (remove_nth chosen pool) rng')
         else None)"

definition weighted_order :: "router \<Rightarrow> string list \<Rightarrow> u64 \<Rightarrow> (string list \<times> u64) option" where
  "weighted_order r pool rng =
     weighted_draw (length pool) (\<lambda>name. ucast (max (pr_weight (config_get (config r) name)) 1)) pool rng"

definition weighted_order_specs ::
  "router \<Rightarrow> candidate_spec list \<Rightarrow> u64 \<Rightarrow> (candidate_spec list \<times> u64) option" where
  "weighted_order_specs r pool rng =
     weighted_draw (length pool)
       (\<lambda>s. ucast (max (case spec_weight s of Some w \<Rightarrow> w
                        | None \<Rightarrow> pr_weight (config_get (config r) (spec_name s))) 1)) pool rng"

definition round_robin_order :: "router \<Rightarrow> 'a list \<Rightarrow> 'a list \<times> router" where
  "round_robin_order r live =
     (if length live \<le> 1 then (live, r)
      else (rotate (unat (rr_cursor r) mod length live) live, r\<lparr>rr_cursor := rr_cursor r + 1\<rparr>))"

definition latency_key :: "health_tracker \<Rightarrow> string \<Rightarrow> string \<Rightarrow> u64" where
  "latency_key t owner name = (case latency_ms t owner name of Some ms \<Rightarrow> ms + 1 | None \<Rightarrow> 0)"

definition order_candidates_with_rng ::
  "(nat \<Rightarrow> u64) \<Rightarrow> router \<Rightarrow> string \<Rightarrow> string list \<Rightarrow> routing_strategy \<Rightarrow> health_tracker \<Rightarrow> u64
     \<Rightarrow> (string list \<times> router \<times> health_tracker \<times> u64) option" where
  "order_candidates_with_rng clock r owner eligible strategy t rng =
     (let (live, t') = drop_open clock 0 owner (\<lambda>n. n) t eligible in
      case strategy of
        Priority \<Rightarrow> Some (live, r, t', rng)
      | Cost \<Rightarrow> Some (sort_key (\<lambda>n. pr_cost (config_get (config r) n)) live, r, t', rng)
      | Latency \<Rightarrow> Some (sort_key (latency_key t' owner) live, r, t', rng)
      | Weighted \<Rightarrow> map_option (\<lambda>(ordered, rng'). (ordered, r, t', rng')) (weighted_order r live rng)
      | RoundRobin \<Rightarrow> (let (ordered, r') = round_robin_order r live in Some (ordered, r', t', rng))
      | LeastBusy \<Rightarrow> Some (sort_key (tracker_in_flight t' owner) live, r, t', rng))"

definition order_candidates_with_specs_rng ::
  "(nat \<Rightarrow> u64) \<Rightarrow> router \<Rightarrow> string \<Rightarrow> candidate_spec list \<Rightarrow> routing_strategy \<Rightarrow> health_tracker \<Rightarrow> u64
     \<Rightarrow> (string list \<times> router \<times> health_tracker \<times> u64) option" where
  "order_candidates_with_specs_rng clock r owner specs strategy t rng =
     (let (live, t') = drop_open clock 0 owner spec_name t specs in
      case strategy of
        Priority \<Rightarrow> Some (map spec_name live, r, t', rng)
      | Cost \<Rightarrow> Some (map spec_name (sort_key (\<lambda>s. case spec_cost s of Some c \<Rightarrow> c
                       | None \<Rightarrow> pr_cost (config_get (config r) (spec_name s))) live), r, t', rng)
      | Latency \<Rightarrow> Some (map spec_name (sort_key (\<lambda>s. latency_key t' owner (spec_name s)) live), r, t', rng)
      | Weighted \<Rightarrow> map_option (\<lambda>(ordered, rng'). (map spec_name ordered, r, t', rng'))
                      (weighted_order_specs r live rng)
      | RoundRobin \<Rightarrow> (let (ordered, r') = round_robin_order r live
                       in Some (map spec_name ordered, r', t', rng))
      | LeastBusy \<Rightarrow> Some (map spec_name (sort_key (\<lambda>s. tracker_in_flight t' owner (spec_name s)) live),
                       r, t', rng))"

text \<open>\<^verbatim>\<open>order_candidates\<close> and \<^verbatim>\<open>order_candidates_with_specs\<close> seed the generator from the clock.\<close>

definition order_candidates where
  "order_candidates seed clock r owner eligible strategy t =
     order_candidates_with_rng clock r owner eligible strategy t seed"

definition order_candidates_with_specs where
  "order_candidates_with_specs seed clock r owner specs strategy t =
     order_candidates_with_specs_rng clock r owner specs strategy t seed"

section \<open>The weighted draw\<close>

lemma pick_index_bound: "pick_index i ws p = 0 \<or> pick_index i ws p < i + length ws"
  by (induction i ws p rule: pick_index.induct) auto

lemma mset_remove_nth: "i < length xs \<Longrightarrow> mset xs = add_mset (xs ! i) (mset (remove_nth i xs))"
  unfolding remove_nth_def
  by (subst (1) id_take_nth_drop [of i xs]) simp_all

lemma length_remove_nth [simp]: "i < length xs \<Longrightarrow> length (remove_nth i xs) = length xs - 1"
  by (simp add: remove_nth_def)

lemma map_remove_nth: "map f (remove_nth i xs) = remove_nth i (map f xs)"
  by (simp add: remove_nth_def take_map drop_map)

text \<open>One turn of the draw loop on a non-empty pool.\<close>

lemma weighted_draw_Suc:
  assumes "xs \<noteq> []" and "rng_next_below (max (sum_list (map w xs)) 1) rng = (pick, rng')"
    and "k = pick_index 0 (map w xs) pick"
  shows "weighted_draw (Suc n) w xs rng =
    map_option (\<lambda>(ordered, rng''). (xs ! k # ordered, rng'')) (weighted_draw n w (remove_nth k xs) rng')"
    and "k < length xs"
proof -
  show "k < length xs" using pick_index_bound [of 0 "map w xs" pick] assms by auto
  then show "weighted_draw (Suc n) w xs rng =
    map_option (\<lambda>(ordered, rng''). (xs ! k # ordered, rng'')) (weighted_draw n w (remove_nth k xs) rng')"
    using assms by (cases xs) (simp_all add: Let_def del: pick_index.simps)
qed

lemma weighted_draw_perm:
  "length xs \<le> n \<Longrightarrow> \<exists>ys rng'. weighted_draw n w xs rng = Some (ys, rng') \<and> mset ys = mset xs"
proof (induction n arbitrary: xs rng)
  case (Suc n)
  show ?case
  proof (cases "xs = []")
    case False
    obtain pick rng' where p: "rng_next_below (max (sum_list (map w xs)) 1) rng = (pick, rng')"
      by fastforce
    note step = weighted_draw_Suc [OF False p refl]
    have "length (remove_nth (pick_index 0 (map w xs) pick) xs) \<le> n"
      using step(2) Suc.prems by simp
    from Suc.IH [OF this]
    obtain ys rng'' where "weighted_draw n w (remove_nth (pick_index 0 (map w xs) pick) xs) rng' = Some (ys, rng'')"
        "mset ys = mset (remove_nth (pick_index 0 (map w xs) pick) xs)"
      by blast
    then show ?thesis using step(1) [of n] mset_remove_nth [OF step(2)] by auto
  qed simp
qed simp

lemma weighted_draw_map:
  "weighted_draw n w (map f xs) rng =
     map_option (\<lambda>(ys, rng'). (map f ys, rng')) (weighted_draw n (\<lambda>x. w (f x)) xs rng)"
proof (induction n arbitrary: xs rng)
  case 0
  then show ?case by (cases xs) simp_all
next
  case (Suc n)
  show ?case
  proof (cases "xs = []")
    case False
    obtain pick rng' where p: "rng_next_below (max (sum_list (map (\<lambda>x. w (f x)) xs)) 1) rng = (pick, rng')"
      by fastforce
    have p': "rng_next_below (max (sum_list (map w (map f xs))) 1) rng = (pick, rng')"
      using p by (simp add: comp_def)
    have same: "map w (map f xs) = map (\<lambda>x. w (f x)) xs" by simp
    note step = weighted_draw_Suc [OF False p refl]
    have "weighted_draw (Suc n) w (map f xs) rng =
        map_option (\<lambda>(ordered, rng''). (map f xs ! pick_index 0 (map (\<lambda>x. w (f x)) xs) pick # ordered, rng''))
          (weighted_draw n w (remove_nth (pick_index 0 (map (\<lambda>x. w (f x)) xs) pick) (map f xs)) rng')"
      using weighted_draw_Suc(1) [OF _ p' refl] False unfolding same by simp
    then show ?thesis
      using step by (simp add: Suc.IH option.map_comp comp_def case_prod_beta flip: map_remove_nth)
  qed simp
qed

text \<open>Of the \<open>total\<close> equally likely picks, exactly the weight of a candidate lead to it.\<close>

lemma pick_index_in_interval:
  "unat p < sum_list (map unat ws) \<Longrightarrow> \<exists>k < length ws. pick_index i ws p = i + k \<and>
     sum_list (map unat (take k ws)) \<le> unat p \<and> unat p < sum_list (map unat (take (Suc k) ws))"
proof (induction i ws p rule: pick_index.induct)
  case (2 i w ws p)
  show ?case
  proof (cases "p < w")
    case True
    then show ?thesis by (intro exI [of _ 0]) (simp add: word_less_nat_alt)
  next
    case False
    then have le: "unat w \<le> unat p" by (simp add: word_less_nat_alt)
    then have sub: "unat (p - w) = unat p - unat w" by (simp add: unat_sub word_le_nat_alt)
    then have "unat (p - w) < sum_list (map unat ws)" using "2.prems" le by simp
    then obtain k where "k < length ws" "pick_index (i + 1) ws (p - w) = i + 1 + k"
      "sum_list (map unat (take k ws)) \<le> unat (p - w)" "unat (p - w) < sum_list (map unat (take (Suc k) ws))"
      using "2.IH" [OF False] by auto
    then show ?thesis using False le sub by (intro exI [of _ "Suc k"]) auto
  qed
qed simp

lemma partial_sum_mono:
  fixes ws :: "u64 list"
  assumes "j \<le> k"
  shows "sum_list (map unat (take j ws)) \<le> sum_list (map unat (take k ws))"
proof -
  have "take k ws = take j ws @ take (k - j) (drop j ws)"
    using assms by (metis le_add_diff_inverse take_add)
  then show ?thesis by simp
qed

lemma pick_index_interval:
  assumes "unat p < sum_list (map unat ws)" and "k < length ws"
  shows "pick_index i ws p = i + k \<longleftrightarrow>
    sum_list (map unat (take k ws)) \<le> unat p \<and> unat p < sum_list (map unat (take (Suc k) ws))"
    (is "_ \<longleftrightarrow> ?in k")
proof -
  obtain j where j: "pick_index i ws p = i + j" "?in j"
    using pick_index_in_interval [OF assms(1), of i] by blast
  moreover have "k = j" if "?in k"
  proof (rule ccontr)
    assume "k \<noteq> j"
    then have "Suc k \<le> j \<or> Suc j \<le> k" by auto
    then show False
      using that j(2) partial_sum_mono [of "Suc k" j ws] partial_sum_mono [of "Suc j" k ws] by auto
  qed
  ultimately show ?thesis by auto
qed

lemma pick_count:
  assumes "sum_list (map unat ws) < 2 ^ 64" and "k < length ws"
  shows "card {p :: u64. unat p < sum_list (map unat ws) \<and> pick_index 0 ws p = k} = unat (ws ! k)"
proof -
  let ?lo = "sum_list (map unat (take k ws))" and ?hi = "sum_list (map unat (take (Suc k) ws))"
  have hi: "?hi = ?lo + unat (ws ! k)"
    using assms(2) by (simp add: take_Suc_conv_app_nth)
  have top: "?hi \<le> sum_list (map unat ws)"
    using partial_sum_mono [of "Suc k" "length ws" ws] assms(2) by simp
  have eq: "{p :: u64. unat p < sum_list (map unat ws) \<and> pick_index 0 ws p = k} = {p. ?lo \<le> unat p \<and> unat p < ?hi}"
    using pick_index_interval [of _ ws k 0] assms(2) top by auto
  have "bij_betw unat {p :: u64. ?lo \<le> unat p \<and> unat p < ?hi} {?lo..<?hi}"
  proof (rule bij_betw_byWitness [where f' = of_nat])
    have same: "unat (of_nat m :: u64) = m" if "m < ?hi" for m
      using that top assms(1) by (intro unat_of_nat_u64) simp
    then show "\<forall>m \<in> {?lo..<?hi}. unat (of_nat m :: u64) = m" by simp
    show "of_nat ` {?lo..<?hi} \<subseteq> {p :: u64. ?lo \<le> unat p \<and> unat p < ?hi}"
      using same by auto
  qed auto
  then have "card {p :: u64. ?lo \<le> unat p \<and> unat p < ?hi} = ?hi - ?lo"
    by (simp add: bij_betw_same_card)
  then show ?thesis using hi eq by simp
qed

section \<open>The filter\<close>

definition available_at :: "u64 \<Rightarrow> health_tracker \<Rightarrow> string \<Rightarrow> string \<Rightarrow> bool" where
  "available_at now t owner p = fst (tracker_is_available now t owner p)"

lemma breaker_state_idem:
  "breaker_state now (snd (breaker_state now b)) = breaker_state now b"
  by (auto simp: breaker_state_def decode_state_def)

lemma breaker_admits_idem:
  "breaker_admits now n (snd (breaker_state now b)) = breaker_admits now n b"
  by (simp only: breaker_admits_def breaker_state_idem breaker_config_step(2) [of b "Read now", simplified])

lemma available_at_eq:
  "available_at now t owner p =
     (case health_lookup (providers t) owner p of
        Some (_, h) \<Rightarrow> fst (breaker_admits now (in_flight h) (breaker h)) | None \<Rightarrow> True)"
  by (auto simp: available_at_def tracker_is_available_def with_health_def Let_def case_prod_beta
      split: option.splits)

text \<open>At one instant, reading one provider's availability changes no provider's answer.\<close>

lemma available_at_read:
  "available_at now (snd (tracker_is_available now t owner p)) owner q = available_at now t owner q"
proof -
  let ?t' = "snd (tracker_is_available now t owner p)"
  have get: "registry_get (providers ?t') o2 p2 =
      (case health_lookup (providers t) owner p of
         Some (o', h) \<Rightarrow> if o2 = o' \<and> p2 = p
           then Some (h\<lparr>breaker := snd (breaker_state now (breaker h))\<rparr>) else registry_get (providers t) o2 p2
       | None \<Rightarrow> registry_get (providers t) o2 p2)" for o2 p2
    by (simp add: tracker_is_available_def case_prod_beta with_health_get breaker_admits_def Let_def
        split: option.splits)
  show ?thesis
  proof (cases "health_lookup (providers t) owner p")
    case None
    then show ?thesis by (simp add: tracker_is_available_def with_health_def)
  next
    case (Some oh)
    obtain o' h where oh: "oh = (o', h)" by (cases oh)
    have cell: "registry_get (providers t) o' p = Some h"
      using health_lookup_get Some oh by blast
    have get': "registry_get (providers ?t') o2 p2 =
        (if o2 = o' \<and> p2 = p then Some (h\<lparr>breaker := snd (breaker_state now (breaker h))\<rparr>)
         else registry_get (providers t) o2 p2)" for o2 p2
      using get Some oh by simp
    show ?thesis
      unfolding available_at_eq health_lookup_def get'
      using cell by (cases "q = p") (auto simp: breaker_admits_idem split: option.splits)
  qed
qed

lemma drop_open_filter:
  "fst (drop_open (\<lambda>_. now) i owner name t xs) = filter (\<lambda>x. available_at now t owner (name x)) xs"
proof (induction xs arbitrary: i t)
  case (Cons x xs)
  show ?case
    using Cons.IH [of "i + 1" "snd (tracker_is_available now t owner (name x))"]
    by (simp add: Let_def case_prod_beta available_at_read) (simp add: available_at_def)
qed simp

lemma drop_open_map:
  "drop_open clock i owner name t (map f xs) =
     (let (live, t') = drop_open clock i owner (\<lambda>x. name (f x)) t xs in (map f live, t'))"
  by (induction xs arbitrary: i t) (simp_all add: Let_def case_prod_beta)

lemma insort_key_map: "insort_key f (g x) (map g xs) = map g (insort_key (\<lambda>y. f (g y)) x xs)"
  by (induction xs) simp_all

lemma sort_key_map: "sort_key f (map g xs) = map g (sort_key (\<lambda>y. f (g y)) xs)"
  by (induction xs) (simp_all add: insort_key_map)

lemma round_robin_map:
  "round_robin_order r (map f xs) = (let (live, r') = round_robin_order r xs in (map f live, r'))"
  by (simp add: round_robin_order_def rotate_map)

lemma mset_rotate_eq: "mset (rotate n xs) = mset xs"
proof (induction n)
  case (Suc n)
  have "mset (rotate1 ys) = mset ys" for ys :: "'a list" by (cases ys) simp_all
  then show ?case using Suc by simp
qed simp

lemma mset_round_robin: "mset (fst (round_robin_order r xs)) = mset xs"
  by (simp add: round_robin_order_def mset_rotate_eq)

section \<open>Round-robin rotation\<close>

text \<open>The leaders of \<open>k\<close> successive round-robin orderings of one candidate list.\<close>

fun rr_leaders :: "nat \<Rightarrow> router \<Rightarrow> 'a list \<Rightarrow> 'a list" where
  "rr_leaders 0 r live = []"
| "rr_leaders (Suc k) r live =
     (let (ordered, r') = round_robin_order r live in hd ordered # rr_leaders k r' live)"

lemma hd_rotate_nth: "xs \<noteq> [] \<Longrightarrow> hd (rotate n xs) = xs ! (n mod length xs)"
  by (rule hd_rotate_conv_nth)

lemma rr_leaders_nth:
  assumes "1 < length live" and "unat (rr_cursor r) + k < 2 ^ 64"
  shows "rr_leaders k r live = map (\<lambda>j. live ! ((unat (rr_cursor r) + j) mod length live)) [0..<k]"
  using assms
proof (induction k arbitrary: r)
  case (Suc k)
  let ?r' = "r\<lparr>rr_cursor := rr_cursor r + 1\<rparr>"
  have c: "unat (rr_cursor r + 1) = unat (rr_cursor r) + 1"
    using Suc.prems by (simp add: unat_add_no_wrap)
  have "rr_leaders (Suc k) r live =
      live ! (unat (rr_cursor r) mod length live) # rr_leaders k ?r' live"
    using Suc.prems(1) hd_rotate_nth [of live "unat (rr_cursor r) mod length live"]
    by (cases "live = []") (auto simp: round_robin_order_def)
  also have "rr_leaders k ?r' live = map (\<lambda>j. live ! ((unat (rr_cursor r) + Suc j) mod length live)) [0..<k]"
    using Suc.IH [of ?r'] Suc.prems c by simp
  finally show ?case by (simp add: upt_conv_Cons map_Suc_upt [symmetric] comp_def del: upt_Suc)
qed simp

lemma mset_rotated_nth:
  assumes "xs \<noteq> []"
  shows "mset (map (\<lambda>j. xs ! ((c + j) mod length xs)) [0..<length xs]) = mset xs"
proof -
  have "map (\<lambda>j. xs ! ((c + j) mod length xs)) [0..<length xs] = rotate c xs"
    using assms by (intro nth_equalityI) (simp_all add: nth_rotate)
  then show ?thesis by (simp add: mset_rotate_eq)
qed

section \<open>Properties\<close>

text \<open>
  C1. Whatever the strategy and the generator's state, ordering always returns, and returns exactly the eligible candidates that are available at that instant, each as often as it was given: no candidate is lost, invented or duplicated, and none with an open breaker is offered.
\<close>

theorem ordering_is_permutation:
  "\<exists>ordered r' t' rng'.
     order_candidates_with_rng (\<lambda>_. now) r owner eligible strategy t rng = Some (ordered, r', t', rng') \<and>
     mset ordered = mset (filter (available_at now t owner) eligible)"
proof -
  obtain live t' where live: "drop_open (\<lambda>_. now) 0 owner (\<lambda>n. n) t eligible = (live, t')" by fastforce
  then have filt: "live = filter (available_at now t owner) eligible"
    using drop_open_filter [of now 0 owner "\<lambda>n. n" t eligible] by simp
  show ?thesis
  proof (cases strategy)
    case Weighted
    then show ?thesis
      using weighted_draw_perm [of live "length live" _ rng] live filt
      by (force simp: order_candidates_with_rng_def weighted_order_def)
  next
    case RoundRobin
    then show ?thesis
      using mset_round_robin [of r live] live filt
      by (auto simp: order_candidates_with_rng_def case_prod_beta)
  qed (use live filt in \<open>auto simp: order_candidates_with_rng_def\<close>)
qed

subsection \<open>Further facts\<close>

text \<open>
  Ordering policy targets without overrides gives the same order, cursor, tracker and generator state as ordering their names: the two ordering passes of the router agree.
\<close>

lemma plain_specs_order_as_names:
  "order_candidates_with_specs_rng clock r owner (map spec_plain names) strategy t rng =
     order_candidates_with_rng clock r owner names strategy t rng"
proof -
  have plain: "spec_name (spec_plain n) = n" "spec_weight (spec_plain n) = None" "spec_cost (spec_plain n) = None" for n
    by (simp_all add: spec_plain_def)
  have names: "map spec_name (map spec_plain ns) = ns" for ns by (simp add: plain comp_def)
  obtain live t' where "drop_open clock 0 owner (\<lambda>n. n) t names = (live, t')" by fastforce
  moreover from this have "drop_open clock 0 owner spec_name t (map spec_plain names) = (map spec_plain live, t')"
    by (simp add: drop_open_map plain)
  ultimately show ?thesis
    by (cases strategy)
      (simp_all add: order_candidates_with_specs_rng_def order_candidates_with_rng_def sort_key_map plain names
        weighted_order_specs_def weighted_order_def weighted_draw_map round_robin_map case_prod_beta
        option.map_comp comp_def case_prod_beta' Let_def del: map_map)
qed

text \<open>
  The weighted draw is proportional: of the picks the generator can return below the total weight, exactly as many lead to a candidate as its effective weight, with a configured weight of zero counting as one.
\<close>

lemma weighted_proportionality:
  fixes r pool
  defines "weights \<equiv> map (\<lambda>name. ucast (max (pr_weight (config_get (config r) name)) 1) :: u64) pool"
  assumes "sum_list (map unat weights) < 2 ^ 64" and "k < length pool"
  shows "card {p :: u64. unat p < sum_list (map unat weights) \<and> pick_index 0 weights p = k} =
    max (unat (pr_weight (config_get (config r) (pool ! k)))) 1"
proof -
  have "unat (max x 1 :: u32) = max (unat x) 1" for x by (simp add: max_def word_le_nat_alt)
  moreover have "unat (ucast x :: u64) = unat x" for x :: u32
    by (simp add: unsigned_ucast_eq take_bit_nat_eq_self unsigned_less [THEN less_trans])
  ultimately show ?thesis using pick_count [of weights k] assms by simp
qed

text \<open>
  Any run of as many round-robin orderings as there are candidates puts every candidate first exactly once, starting from any cursor short of the wrap-around of its 64-bit counter.
\<close>

lemma round_robin_fair:
  assumes "1 < length live" and "unat (rr_cursor r) + length live < 2 ^ 64"
  shows "mset (rr_leaders (length live) r live) = mset live"
  using rr_leaders_nth [OF assms] mset_rotated_nth [of live "unat (rr_cursor r)"] assms(1) by force

end
