(* ===== verification/Key_Cooldown.thy ===== *)
theory Key_Cooldown
  imports Health_Tracker
begin

text \<open>
  The per-key cooldown cells of \<^verbatim>\<open>HealthTracker\<close>: a fixed array of packed words
  \<open>(fingerprint:22 | cooled_until_ms:42)\<close>. A slot is a cell index and a non-zero fingerprint
  derived from one hash. The two writers are retry loops, given as bodies over the cell's
  word; the accessors run them alone, and the cell family below covers their interleavings.
\<close>

definition KEY_COOLDOWN_UNTIL_BITS :: nat where "KEY_COOLDOWN_UNTIL_BITS = 42"
definition KEY_COOLDOWN_UNTIL_MASK :: u64 where
  "KEY_COOLDOWN_UNTIL_MASK = push_bit KEY_COOLDOWN_UNTIL_BITS 1 - 1"
definition KEY_COOLDOWN_FP_MASK :: u64 where
  "KEY_COOLDOWN_FP_MASK = push_bit (64 - KEY_COOLDOWN_UNTIL_BITS) 1 - 1"

definition pack_cooldown :: "u64 \<Rightarrow> u64 \<Rightarrow> u64" where
  "pack_cooldown fp until_ms =
     push_bit KEY_COOLDOWN_UNTIL_BITS (fp AND KEY_COOLDOWN_FP_MASK) OR (until_ms AND KEY_COOLDOWN_UNTIL_MASK)"

definition cooldown_fp :: "u64 \<Rightarrow> u64" where
  "cooldown_fp word = drop_bit KEY_COOLDOWN_UNTIL_BITS word"

definition cooldown_until :: "u64 \<Rightarrow> u64" where
  "cooldown_until word = word AND KEY_COOLDOWN_UNTIL_MASK"

text \<open>\<^verbatim>\<open>(h as usize) & (KEY_COOLDOWN_CELLS - 1)\<close> with \<open>65536\<close> cells is the low 16 bits of the hash.\<close>

definition key_slot :: "health_tracker \<Rightarrow> string \<Rightarrow> string \<Rightarrow> u64 \<Rightarrow> u16 \<times> u64" where
  "key_slot t tenant provider key_index =
     (let h = key_hasher t (tenant, provider, key_index);
          cell = ucast h;
          f = drop_bit 32 h AND KEY_COOLDOWN_FP_MASK
      in (cell, if f = 0 then 1 else f))"

definition key_cooled_until :: "health_tracker \<Rightarrow> string \<Rightarrow> string \<Rightarrow> u64 \<Rightarrow> u64" where
  "key_cooled_until t tenant provider key_index =
     (let (cell, fp) = key_slot t tenant provider key_index; word = key_cooldowns t cell in
      if cooldown_fp word = fp then cooldown_until word else 0)"

definition key_available :: "health_tracker \<Rightarrow> string \<Rightarrow> string \<Rightarrow> u64 \<Rightarrow> u64 \<Rightarrow> bool" where
  "key_available t tenant provider key_index now_ms \<longleftrightarrow>
     key_cooled_until t tenant provider key_index \<le> now_ms"

definition cool_body :: "u64 \<Rightarrow> u64 \<Rightarrow> u64 \<Rightarrow> (u64, unit) attempt" where
  "cool_body fp until_ms cur =
     (if cooldown_fp cur = fp \<and> until_ms \<le> cooldown_until cur then Return ()
      else Swap (pack_cooldown fp until_ms) ())"

definition cool_key :: "health_tracker \<Rightarrow> string \<Rightarrow> string \<Rightarrow> u64 \<Rightarrow> u64 \<Rightarrow> health_tracker" where
  "cool_key t tenant provider key_index until_ms =
     (let (cell, fp) = key_slot t tenant provider key_index;
          until_ms = min until_ms KEY_COOLDOWN_UNTIL_MASK
      in t\<lparr>key_cooldowns := (key_cooldowns t)
           (cell := fst (run_alone (cool_body fp until_ms) (key_cooldowns t cell)))\<rparr>)"

definition clear_body :: "u64 \<Rightarrow> u64 \<Rightarrow> (u64, unit) attempt" where
  "clear_body fp cur = (if cooldown_fp cur \<noteq> fp then Return () else Swap 0 ())"

definition clear_key :: "health_tracker \<Rightarrow> string \<Rightarrow> string \<Rightarrow> u64 \<Rightarrow> health_tracker" where
  "clear_key t tenant provider key_index =
     (let (cell, fp) = key_slot t tenant provider key_index in
      t\<lparr>key_cooldowns := (key_cooldowns t)
          (cell := fst (run_alone (clear_body fp) (key_cooldowns t cell)))\<rparr>)"

section \<open>Packing\<close>

lemma UNTIL_MASK_eq: "KEY_COOLDOWN_UNTIL_MASK = mask 42"
  by (simp only: KEY_COOLDOWN_UNTIL_MASK_def KEY_COOLDOWN_UNTIL_BITS_def) (rule mask_word_eq, simp)

lemma FP_MASK_eq: "KEY_COOLDOWN_FP_MASK = mask 22"
  by (simp only: KEY_COOLDOWN_FP_MASK_def KEY_COOLDOWN_UNTIL_BITS_def) (simp add: mask_word_eq [symmetric])

lemma pack_cooldown_fields: "pack_cooldown fp u = pack_fields 42 fp u"
  by (simp add: pack_cooldown_def pack_fields_def UNTIL_MASK_eq FP_MASK_eq KEY_COOLDOWN_UNTIL_BITS_def)

lemma unat_UNTIL_MASK: "unat KEY_COOLDOWN_UNTIL_MASK = 2 ^ 42 - 1"
  by (simp add: UNTIL_MASK_eq mask_eq_exp_minus_1)

lemma le_UNTIL_MASK: "u \<le> KEY_COOLDOWN_UNTIL_MASK \<longleftrightarrow> unat u < 2 ^ 42"
  unfolding word_le_nat_alt unat_UNTIL_MASK by auto

definition valid_fp :: "u64 \<Rightarrow> bool" where
  "valid_fp fp \<longleftrightarrow> fp \<noteq> 0 \<and> unat fp < 2 ^ 22"

lemma cooldown_fp_pack: "unat fp < 2 ^ 22 \<Longrightarrow> cooldown_fp (pack_cooldown fp u) = fp"
  by (simp add: cooldown_fp_def KEY_COOLDOWN_UNTIL_BITS_def pack_cooldown_fields pack_fields_high
      and_mask_same)

lemma cooldown_until_pack: "u \<le> KEY_COOLDOWN_UNTIL_MASK \<Longrightarrow> cooldown_until (pack_cooldown fp u) = u"
  unfolding le_UNTIL_MASK
  by (simp add: cooldown_until_def UNTIL_MASK_eq pack_cooldown_fields pack_fields_low and_mask_same)

lemma cooldown_zero [simp]: "cooldown_fp 0 = 0" "cooldown_until 0 = 0"
  by (simp_all add: cooldown_fp_def cooldown_until_def)

lemma key_slot_valid: "valid_fp (snd (key_slot t a p i))"
proof -
  have "unat (drop_bit 32 w AND mask 22 :: u64) < 2 ^ 22" for w
    by (simp add: unat_and_mask)
  then show ?thesis by (simp add: key_slot_def Let_def FP_MASK_eq valid_fp_def)
qed

section \<open>The two loops as one family\<close>

text \<open>Any number of coolers and clearers, each with its own fingerprint, may race on one cell.\<close>

datatype cooldown_call = Cool u64 u64 | Clear u64

fun cooldown_body :: "nat \<times> cooldown_call \<Rightarrow> u64 \<Rightarrow> (u64, unit) attempt" where
  "cooldown_body (_, Cool fp until_ms) cur = cool_body fp (min until_ms KEY_COOLDOWN_UNTIL_MASK) cur"
| "cooldown_body (_, Clear fp) cur = clear_body fp cur"

fun call_fp :: "cooldown_call \<Rightarrow> u64" where
  "call_fp (Cool fp _) = fp"
| "call_fp (Clear fp) = fp"

text \<open>What a tuple with fingerprint \<open>fp\<close> reads from a cell word.\<close>

definition read_as :: "u64 \<Rightarrow> u64 \<Rightarrow> u64" where
  "read_as fp word = (if cooldown_fp word = fp then cooldown_until word else 0)"

text \<open>
  A call with another fingerprint can only take the cell away: what \<open>fp\<close> reads afterwards is
  what it read before or "never cooled", and a clear leaves the word as it was.
\<close>

lemma other_call_reads:
  assumes "valid_fp fp" and "valid_fp (call_fp c)" and "call_fp c \<noteq> fp"
  shows "read_as fp (fst (run_alone (cooldown_body (n, c)) w)) \<in> {0, read_as fp w}"
  using assms
  by (cases c) (auto simp: cool_body_def clear_body_def read_as_def valid_fp_def cooldown_fp_pack)

lemma other_clear_same: "call_fp (Clear fp') \<noteq> cooldown_fp w \<Longrightarrow> run_alone (cooldown_body (n, Clear fp')) w = (w, ())"
  by (simp add: clear_body_def)

lemma own_cool_extends:
  assumes "valid_fp fp"
  shows "read_as fp (fst (run_alone (cooldown_body (n, Cool fp u)) w)) =
    max (read_as fp w) (min u KEY_COOLDOWN_UNTIL_MASK)"
proof -
  define m where "m = min u KEY_COOLDOWN_UNTIL_MASK"
  have "cooldown_until (pack_cooldown fp m) = m"
    by (rule cooldown_until_pack) (simp add: m_def)
  then show ?thesis
    using assms unfolding cooldown_body.simps m_def [symmetric]
    by (auto simp: cool_body_def read_as_def valid_fp_def cooldown_fp_pack max_def)
qed

text \<open>
  A bound on what \<open>fp\<close> reads survives every interleaving in which \<open>fp\<close>'s own coolers stay
  under the bound, whatever windows the colliding tuples ask for.
\<close>

definition bounded_family :: "u64 \<Rightarrow> u64 \<Rightarrow> nat \<times> cooldown_call \<Rightarrow> u64 \<Rightarrow> (u64, unit) attempt" where
  "bounded_family fp hi tc w =
     (case snd tc of
        Cool fp' u \<Rightarrow> if valid_fp fp' \<and> (fp' = fp \<longrightarrow> u \<le> hi) then cooldown_body tc w else Return ()
      | Clear fp' \<Rightarrow> cooldown_body tc w)"

interpretation cooldown: cas_family "bounded_family fp hi" "\<lambda>w. read_as fp w \<le> hi" for fp hi
proof unfold_locales
  fix w w' :: u64 and t and r
  assume bound: "read_as fp w \<le> hi" and swap: "bounded_family fp hi t w = Swap w' r"
  obtain n c where t: "t = (n, c)" by (cases t)
  show "read_as fp w' \<le> hi"
  proof (cases c)
    case (Cool fp' u)
    with swap t have ok: "valid_fp fp'" "fp' = fp \<longrightarrow> u \<le> hi"
      and w': "w' = pack_cooldown fp' (min u KEY_COOLDOWN_UNTIL_MASK)"
      by (auto simp: bounded_family_def cool_body_def split: if_splits)
    then show ?thesis
      by (auto simp: read_as_def valid_fp_def cooldown_fp_pack cooldown_until_pack min_def)
  next
    case (Clear fp')
    with swap t have "w' = 0" by (auto simp: bounded_family_def clear_body_def split: if_splits)
    then show ?thesis by (simp add: read_as_def)
  qed
qed

section \<open>The accessors\<close>

lemma key_cooled_until_read:
  "key_cooled_until t a p i = read_as (snd (key_slot t a p i)) (key_cooldowns t (fst (key_slot t a p i)))"
  by (simp add: key_cooled_until_def read_as_def case_prod_beta Let_def)

lemma cool_key_word:
  "key_cooldowns (cool_key t a p i u) c =
     (if c = fst (key_slot t a p i)
      then fst (run_alone (cooldown_body (0, Cool (snd (key_slot t a p i)) u)) (key_cooldowns t c))
      else key_cooldowns t c)"
  by (simp add: cool_key_def case_prod_beta Let_def)

lemma clear_key_word:
  "key_cooldowns (clear_key t a p i) c =
     (if c = fst (key_slot t a p i)
      then fst (run_alone (cooldown_body (0, Clear (snd (key_slot t a p i)))) (key_cooldowns t c))
      else key_cooldowns t c)"
  by (simp add: clear_key_def case_prod_beta Let_def)

lemma key_slot_frame [simp]:
  "key_slot (cool_key t a p i u) b q j = key_slot t b q j"
  "key_slot (clear_key t a p i) b q j = key_slot t b q j"
  by (simp_all add: key_slot_def cool_key_def clear_key_def case_prod_beta Let_def)

lemma own_clear_reads:
  assumes "valid_fp fp"
  shows "read_as fp (fst (run_alone (cooldown_body (n, Clear fp)) w)) = 0"
  using assms by (auto simp: clear_body_def read_as_def valid_fp_def)

lemma own_cool_reads:
  "key_cooled_until (cool_key t a p i u) a p i = max (key_cooled_until t a p i) (min u KEY_COOLDOWN_UNTIL_MASK)"
  unfolding key_cooled_until_read key_slot_frame cool_key_word
  using own_cool_extends [OF key_slot_valid [of t a p i]] by (simp del: cooldown_body.simps run_alone.simps)

text \<open>A latency sample does not touch the cooldowns.\<close>

lemma record_latency_cooldown [simp]:
  "key_cooled_until (record_latency t ow q ms) a p i = key_cooled_until t a p i"
  by (simp add: record_latency_def with_health_def key_cooled_until_def key_slot_def Let_def split: option.split)

section \<open>Properties\<close>

subsection \<open>Further facts\<close>

text \<open>
  Cooling a key only ever extends its window, to the latest deadline asked for (clamped to 42 bits); clearing it makes it available at once; and cooling or clearing another key, whose slot differs in cell or fingerprint, can at most forget this key's window and never extends it.
\<close>

lemma cooldown_ownership:
  "key_cooled_until (cool_key t a p i u) a p i = max (key_cooled_until t a p i) (min u KEY_COOLDOWN_UNTIL_MASK)"
  "key_available (clear_key t a p i) a p i now"
  "key_slot t b q j \<noteq> key_slot t a p i \<Longrightarrow>
     key_cooled_until (cool_key t b q j u) a p i \<in> {0, key_cooled_until t a p i}"
  "key_slot t b q j \<noteq> key_slot t a p i \<Longrightarrow>
     key_cooled_until (clear_key t b q j) a p i \<in> {0, key_cooled_until t a p i}"
proof -
  note valid = key_slot_valid [of t a p i] key_slot_valid [of t b q j]
  show "key_cooled_until (cool_key t a p i u) a p i = max (key_cooled_until t a p i) (min u KEY_COOLDOWN_UNTIL_MASK)"
    by (rule own_cool_reads)
  show "key_available (clear_key t a p i) a p i now"
    unfolding key_available_def key_cooled_until_read key_slot_frame clear_key_word
    using own_clear_reads [OF valid(1)] by (simp del: run_alone.simps)
  assume "key_slot t b q j \<noteq> key_slot t a p i"
  then have differ: "fst (key_slot t b q j) = fst (key_slot t a p i) \<Longrightarrow> snd (key_slot t b q j) \<noteq> snd (key_slot t a p i)"
    by (simp add: prod_eq_iff)
  show "key_cooled_until (cool_key t b q j u) a p i \<in> {0, key_cooled_until t a p i}"
    using other_call_reads [OF valid(1), of "Cool (snd (key_slot t b q j)) u" 0] valid(2) differ
    unfolding key_cooled_until_read key_slot_frame cool_key_word
    by (simp del: cooldown_body.simps run_alone.simps)
  show "key_cooled_until (clear_key t b q j) a p i \<in> {0, key_cooled_until t a p i}"
    using other_call_reads [OF valid(1), of "Clear (snd (key_slot t b q j))" 0] valid(2) differ
    unfolding key_cooled_until_read key_slot_frame clear_key_word
    by (simp del: cooldown_body.simps run_alone.simps)
qed

end
