(* ===== verification/Window_Counter.thy ===== *)
theory Window_Counter
  imports Cas_Cell
begin

text \<open>
  The packed atomics of \<^verbatim>\<open>crates/limits/src/lib.rs\<close>: \<^verbatim>\<open>WindowCounter\<close> and \<^verbatim>\<open>AlertFlag\<close>
  (an epoch in the high 24 bits, a count or flag in the low 40), the consumed fraction, and the
  minute, day and month epochs with their reset boundaries. The date arithmetic of the
  \<^verbatim>\<open>chrono\<close> crate is a parameter (\<open>calendar\<close>).
\<close>

section \<open>Packing\<close>

definition EPOCH_BITS :: nat where "EPOCH_BITS = 24"
definition COUNT_BITS :: nat where "COUNT_BITS = 40"
definition COUNT_MASK :: u64 where "COUNT_MASK = push_bit COUNT_BITS 1 - 1"
definition EPOCH_MASK :: u64 where "EPOCH_MASK = push_bit EPOCH_BITS 1 - 1"

definition pack :: "u64 \<Rightarrow> u64 \<Rightarrow> u64" where
  "pack epoch count = push_bit COUNT_BITS (epoch AND EPOCH_MASK) OR (count AND COUNT_MASK)"

definition unpack :: "u64 \<Rightarrow> u64 \<times> u64" where
  "unpack p = (drop_bit COUNT_BITS p, p AND COUNT_MASK)"

lemma COUNT_MASK_eq: "COUNT_MASK = mask 40"
  by (simp only: COUNT_MASK_def COUNT_BITS_def) (rule mask_word_eq, simp)

lemma EPOCH_MASK_eq: "EPOCH_MASK = mask 24"
  by (simp only: EPOCH_MASK_def EPOCH_BITS_def) (rule mask_word_eq, simp)

lemma unat_COUNT_MASK: "unat COUNT_MASK = 2 ^ 40 - 1"
  by (simp add: COUNT_MASK_eq mask_eq_exp_minus_1)

lemma le_COUNT_MASK: "c \<le> COUNT_MASK \<longleftrightarrow> unat c < 2 ^ 40"
  unfolding word_le_nat_alt unat_COUNT_MASK by auto

lemma unpack_pack: "unpack (pack e c) = (e AND EPOCH_MASK, c AND COUNT_MASK)"
proof -
  have "pack e c = pack_fields 40 e c"
    by (simp add: pack_def pack_fields_def COUNT_MASK_eq EPOCH_MASK_eq COUNT_BITS_def)
  then show ?thesis
    by (simp add: unpack_def COUNT_MASK_eq EPOCH_MASK_eq COUNT_BITS_def pack_fields_high pack_fields_low)
qed

lemma pack_unpack: "pack (fst (unpack p)) (snd (unpack p)) = p"
proof -
  have "drop_bit 40 p AND mask 24 = drop_bit 40 p"
    using unat_u64_lt [of p] by (intro and_mask_same) (simp add: unat_drop_bit_u64 less_mult_imp_div_less)
  then have "pack (fst (unpack p)) (snd (unpack p)) = pack_fields 40 (drop_bit 40 p) (p AND mask 40)"
    by (simp add: pack_def unpack_def pack_fields_def COUNT_MASK_eq EPOCH_MASK_eq COUNT_BITS_def)
  then show ?thesis by (simp only: word_of_fields)
qed

lemma count_masked: "c \<le> COUNT_MASK \<Longrightarrow> c AND COUNT_MASK = c"
  by (simp only: le_COUNT_MASK) (simp add: COUNT_MASK_eq and_mask_same)

lemma unpack_count_bound: "snd (unpack p) \<le> COUNT_MASK"
  by (simp only: le_COUNT_MASK) (simp add: unpack_def COUNT_MASK_eq unat_and_mask)

lemma epoch_mask_idem [simp]: "(e AND EPOCH_MASK) AND EPOCH_MASK = e AND EPOCH_MASK"
  by (simp add: and.assoc)

section \<open>WindowCounter\<close>

definition window_new :: u64 where "window_new = 0"

definition window_peek :: "u64 \<Rightarrow> u64 \<Rightarrow> u64" where
  "window_peek packed epoch =
     (let (e, c) = unpack packed in if e = epoch AND EPOCH_MASK then c else 0)"

text \<open>\<open>Inr\<close> is the loop's \<^verbatim>\<open>Ok(next)\<close>, \<open>Inl\<close> its \<^verbatim>\<open>Err(base)\<close>.\<close>

definition try_consume_body :: "u64 \<Rightarrow> u64 \<Rightarrow> u64 \<Rightarrow> u64 \<Rightarrow> (u64, u64 + u64) attempt" where
  "try_consume_body amount limit epoch cur =
     (let et = epoch AND EPOCH_MASK;
          (e, c) = unpack cur;
          base = (if e = et then c else 0)
      in if limit \<le> base then Return (Inl base)
         else (let nxt = min (sat_add base amount) COUNT_MASK in Swap (pack et nxt) (Inr nxt)))"

definition try_consume :: "u64 \<Rightarrow> u64 \<Rightarrow> u64 \<Rightarrow> u64 \<Rightarrow> u64 \<times> (u64 + u64)" where
  "try_consume amount limit epoch packed = run_alone (try_consume_body amount limit epoch) packed"

definition debit_body :: "u64 \<Rightarrow> u64 \<Rightarrow> u64 \<Rightarrow> (u64, unit) attempt" where
  "debit_body amount epoch cur =
     (let et = epoch AND EPOCH_MASK;
          (e, c) = unpack cur;
          base = (if e = et then c else 0)
      in Swap (pack et (min (sat_add base amount) COUNT_MASK)) ())"

definition debit :: "u64 \<Rightarrow> u64 \<Rightarrow> u64 \<Rightarrow> u64" where
  "debit amount epoch packed = fst (run_alone (debit_body amount epoch) packed)"

lemma window_peek_bound: "window_peek w e \<le> COUNT_MASK"
  using unpack_count_bound [of w] by (simp add: window_peek_def case_prod_beta)

lemma peek_pack [simp]:
  "c \<le> COUNT_MASK \<Longrightarrow> window_peek (pack e c) e' = (if e AND EPOCH_MASK = e' AND EPOCH_MASK then c else 0)"
  by (simp add: window_peek_def unpack_pack count_masked)

lemma try_consume_eq:
  "try_consume amount limit epoch w =
     (if limit \<le> window_peek w epoch then (w, Inl (window_peek w epoch))
      else (let nxt = min (sat_add (window_peek w epoch) amount) COUNT_MASK
            in (pack (epoch AND EPOCH_MASK) nxt, Inr nxt)))"
  by (simp add: try_consume_def try_consume_body_def window_peek_def Let_def case_prod_beta)

lemma debit_eq:
  "debit amount epoch w =
     pack (epoch AND EPOCH_MASK) (min (sat_add (window_peek w epoch) amount) COUNT_MASK)"
  by (simp add: debit_def debit_body_def window_peek_def Let_def case_prod_beta)

lemma peek_debit:
  "window_peek (debit amount epoch w) e' =
     (if epoch AND EPOCH_MASK = e' AND EPOCH_MASK
      then min (sat_add (window_peek w epoch) amount) COUNT_MASK else 0)"
  by (simp add: debit_eq)

lemma unat_min: "unat (min (a :: u64) b) = min (unat a) (unat b)"
  by (auto simp: min_def word_le_nat_alt)

text \<open>The count a debit leaves in its window, saturating at the 40-bit mask.\<close>

lemma unat_peek_debit:
  "unat (window_peek (debit amount epoch w) epoch) =
     min (unat (window_peek w epoch) + unat amount) (2 ^ 40 - 1)"
  by (simp add: peek_debit unat_min unat_sat_add unat_COUNT_MASK)

section \<open>Racing consumers\<close>

text \<open>The loops that may run on one counter, tagged with the thread that runs them.\<close>

datatype window_call = TryConsume u64 u64 u64 | Debit u64 u64

fun window_body :: "nat \<times> window_call \<Rightarrow> u64 \<Rightarrow> (u64, (u64 + u64) option) attempt" where
  "window_body (_, TryConsume amount limit epoch) cur =
     (case try_consume_body amount limit epoch cur of
        Swap w r \<Rightarrow> Swap w (Some r) | Return r \<Rightarrow> Return (Some r))"
| "window_body (_, Debit amount epoch) cur =
     (case debit_body amount epoch cur of Swap w _ \<Rightarrow> Swap w None | Return _ \<Rightarrow> Return None)"

lemma run_alone_window:
  "run_alone (window_body (n, TryConsume a l e)) w = (let (w', r) = try_consume a l e w in (w', Some r))"
  "run_alone (window_body (n, Debit a e)) w = (debit a e w, None)"
  by (auto simp: try_consume_def debit_def Let_def split: attempt.splits)

definition admitted :: "(u64 + u64) option \<Rightarrow> bool" where
  "admitted r \<longleftrightarrow> (case r of Some (Inr _) \<Rightarrow> True | _ \<Rightarrow> False)"

text \<open>
  Requests of one window, run one after the other, are admitted until the count reaches the
  limit and refused from then on.
\<close>

lemma consume_run_count:
  assumes "run_all window_body w ts = (w', rs)" and "limit \<le> COUNT_MASK"
    and "\<forall>t \<in> set ts. snd t = TryConsume 1 limit epoch"
  shows "length (filter admitted rs) = min (length ts) (unat limit - unat (window_peek w epoch)) \<and>
    unat (window_peek w' epoch) = unat (window_peek w epoch) + length (filter admitted rs)"
  using assms
proof (induction ts arbitrary: w w' rs)
  case (Cons t ts)
  obtain n where t: "t = (n, TryConsume 1 limit epoch)" using Cons.prems(3) by (cases t) auto
  show ?case
  proof (cases "limit \<le> window_peek w epoch")
    case True
    then have alone: "run_alone (window_body t) w = (w, Some (Inl (window_peek w epoch)))"
      by (simp add: t run_alone_window try_consume_eq del: run_alone.simps)
    then obtain rs' where "run_all window_body w ts = (w', rs')" "rs = Some (Inl (window_peek w epoch)) # rs'"
      using Cons.prems(1) by (auto simp: Let_def simp del: run_alone.simps split: prod.splits)
    then show ?thesis
      using Cons.IH [of w w' rs'] Cons.prems True by (simp add: admitted_def word_le_nat_alt)
  next
    case False
    then have lt: "window_peek w epoch < limit" by simp
    define c where "c = window_peek w epoch + 1"
    have c: "unat c = Suc (unat (window_peek w epoch))" unfolding c_def by (rule unat_Suc_below [OF lt])
    have c_le: "c \<le> COUNT_MASK"
      using lt c Cons.prems(2) by (simp add: word_le_nat_alt word_less_nat_alt)
    have "min (sat_add (window_peek w epoch) 1) COUNT_MASK = c"
      using c c_le by (simp add: word_unat_eq_iff unat_min unat_sat_add word_le_nat_alt unat_COUNT_MASK)
    then have alone: "run_alone (window_body t) w = (pack (epoch AND EPOCH_MASK) c, Some (Inr c))"
      using False by (simp add: t run_alone_window try_consume_eq Let_def del: run_alone.simps)
    then obtain rs' where run: "run_all window_body (pack (epoch AND EPOCH_MASK) c) ts = (w', rs')"
        and rs: "rs = Some (Inr c) # rs'"
      using Cons.prems(1) by (auto simp: Let_def simp del: run_alone.simps split: prod.splits)
    then show ?thesis
      using Cons.IH [OF run] Cons.prems c c_le lt by (auto simp: admitted_def word_less_nat_alt)
  qed
qed (auto simp: word_le_nat_alt)

text \<open>Any interleaving of one window's requests keeps its count at or under the limit.\<close>

interpretation requests:
  cas_family "\<lambda>n. window_body (n, TryConsume 1 limit epoch)" "\<lambda>w. window_peek w epoch \<le> limit"
  for limit epoch
proof unfold_locales
  fix w w' :: u64 and n r
  assume "window_peek w epoch \<le> limit" and swap: "window_body (n, TryConsume 1 limit epoch) w = Swap w' r"
  let ?c = "min (sat_add (window_peek w epoch) 1) COUNT_MASK"
  have lt: "window_peek w epoch < limit" and w': "w' = pack (epoch AND EPOCH_MASK) ?c"
    using swap by (auto simp: try_consume_body_def window_peek_def case_prod_beta Let_def word_gt_0
        split: if_splits attempt.splits)
  have "unat ?c \<le> unat limit"
    using lt by (simp add: unat_min unat_sat_add word_less_nat_alt)
  then have "?c \<le> limit" by (simp only: word_le_nat_alt)
  moreover have "window_peek w' epoch = ?c" by (simp add: w')
  ultimately show "window_peek w' epoch \<le> limit" by simp
qed

section \<open>AlertFlag\<close>

definition try_fire_body :: "u64 \<Rightarrow> u64 \<Rightarrow> (u64, bool) attempt" where
  "try_fire_body epoch cur =
     (let et = epoch AND EPOCH_MASK; (e, fired) = unpack cur in
      if e = et \<and> fired \<noteq> 0 then Return False else Swap (pack et 1) True)"

definition try_fire :: "u64 \<Rightarrow> u64 \<Rightarrow> u64 \<times> bool" where
  "try_fire epoch packed = run_alone (try_fire_body epoch) packed"

definition has_fired :: "u64 \<Rightarrow> u64 \<Rightarrow> bool" where
  "has_fired epoch packed \<longleftrightarrow> window_peek packed epoch \<noteq> 0"

lemma one_le_COUNT_MASK: "1 \<le> COUNT_MASK"
  by (simp add: word_le_nat_alt unat_COUNT_MASK)

lemma try_fire_eq:
  "try_fire epoch w = (if has_fired epoch w then (w, False) else (pack (epoch AND EPOCH_MASK) 1, True))"
  by (auto simp: try_fire_def try_fire_body_def has_fired_def window_peek_def Let_def case_prod_beta)

lemma has_fired_try_fire: "has_fired epoch (fst (try_fire epoch w))"
  by (simp add: try_fire_eq) (simp add: has_fired_def one_le_COUNT_MASK)

lemma fire_run_none:
  assumes "has_fired epoch w"
  shows "run_all (\<lambda>_. try_fire_body epoch) w ts = (w, replicate (length ts) False)"
  using assms try_fire_eq [of epoch w]
  by (induction ts) (simp_all add: try_fire_def del: run_alone.simps)

lemma fire_run_once:
  assumes "\<not> has_fired epoch w"
  shows "run_all (\<lambda>_. try_fire_body epoch) w (t # ts) =
    (pack (epoch AND EPOCH_MASK) 1, True # replicate (length ts) False)"
proof -
  have fire: "try_fire epoch w = (pack (epoch AND EPOCH_MASK) 1, True)"
    using assms by (simp add: try_fire_eq)
  moreover have "has_fired epoch (pack (epoch AND EPOCH_MASK) 1)"
    using has_fired_try_fire [of epoch w] fire by simp
  ultimately show ?thesis
    using fire_run_none [of epoch "pack (epoch AND EPOCH_MASK) 1" ts]
    by (simp add: try_fire_def del: run_alone.simps)
qed

section \<open>Consumed fraction\<close>

definition consumed_permille :: "u64 \<Rightarrow> u64 \<Rightarrow> u64" where
  "consumed_permille consumed budget =
     (if budget = 0 then 1000 else min (sat_mul consumed 1000 div budget) 1000)"

lemma consumed_permille_le: "unat (consumed_permille c b) \<le> 1000"
  by (simp add: consumed_permille_def unat_min)

lemma unat_consumed_permille:
  assumes "b \<noteq> 0" and "unat c * 1000 < 2 ^ 64"
  shows "unat (consumed_permille c b) = min (unat c * 1000 div unat b) 1000"
  using assms by (simp add: consumed_permille_def unat_min unat_div_u64 unat_sat_mul)

section \<open>Properties\<close>

lemma window_race_exact_parts:
  assumes "cell_reachable (\<lambda>n :: nat. window_body (n, TryConsume 1 limit epoch)) w s"
    and "limit \<le> COUNT_MASK" and "window_peek w epoch \<le> limit"
  shows "window_peek (cell s) epoch \<le> limit"
    and "length (filter (\<lambda>(_, r). admitted r) (history s)) =
      min (length (history s)) (unat limit - unat (window_peek w epoch))"
    and "unat (window_peek (cell s) epoch) =
      unat (window_peek w epoch) + length (filter (\<lambda>(_, r). admitted r) (history s))"
proof -
  let ?call = "\<lambda>n. (n, TryConsume 1 limit epoch)"
  have "run_all window_body w (map ?call (map fst (history s))) = (cell s, map snd (history s))"
    using reachable_linearized [OF assms(1)] unfolding linearized_def run_all_map by blast
  moreover have "length (filter (\<lambda>(_, r). admitted r) (history s)) = length (filter admitted (map snd (history s)))"
    by (simp add: filter_map comp_def case_prod_unfold)
  ultimately show "length (filter (\<lambda>(_, r). admitted r) (history s)) =
      min (length (history s)) (unat limit - unat (window_peek w epoch))"
    and "unat (window_peek (cell s) epoch) =
      unat (window_peek w epoch) + length (filter (\<lambda>(_, r). admitted r) (history s))"
    using consume_run_count [of w "map ?call (map fst (history s))" "cell s" "map snd (history s)" limit epoch] assms(2)
    by auto
  show "window_peek (cell s) epoch \<le> limit" by (rule requests.interleaving_good [OF assms(1,3)])
qed

text \<open>
  C26. However concurrent requests race on one window counter, its count never exceeds the limit and the requests that have finished were admitted exactly as often as the limit left room: no request is admitted twice on one slot, and none is refused while a slot is free.
\<close>

theorem window_race_exact:
  assumes "cell_reachable (\<lambda>n :: nat. window_body (n, TryConsume 1 limit epoch)) w s"
    and "limit \<le> COUNT_MASK" and "window_peek w epoch \<le> limit"
  shows "(window_peek (cell s) epoch \<le> limit) \<and>
   (length (filter (\<lambda>(_, r). admitted r) (history s)) =
      min (length (history s)) (unat limit - unat (window_peek w epoch))) \<and>
   (unat (window_peek (cell s) epoch) =
      unat (window_peek w epoch) + length (filter (\<lambda>(_, r). admitted r) (history s)))"
  by ((rule conjI, rule window_race_exact_parts(1) [OF assms]),
      (rule conjI, rule window_race_exact_parts(2) [OF assms]),
      (rule window_race_exact_parts(3) [OF assms]))

theorem window_race_exact_witness:
  "\<exists>s. cell_reachable (\<lambda>n :: nat. window_body (n, TryConsume 1 7 3)) 0 s \<and> window_peek (cell s) 3 \<le> 7 \<and>
    length (filter (\<lambda>(_, r). admitted r) (history s)) = 1"
proof -
  obtain s where s: "cell_reachable (\<lambda>n :: nat. window_body (n, TryConsume 1 7 3)) 0 s" "length (history s) = 1"
    using one_swap_reachable [of "\<lambda>n :: nat. window_body (n, TryConsume 1 7 3)" 0 0]
    by (auto simp: try_consume_body_def unpack_def Let_def)
  have "(7 :: u64) \<le> COUNT_MASK" "window_peek 0 3 \<le> (7 :: u64)" "window_peek 0 3 = 0"
    by (simp_all add: word_le_nat_alt unat_COUNT_MASK window_peek_def unpack_def)
  then show ?thesis using window_race_exact [THEN conjunct1, OF s(1)] window_race_exact [THEN conjunct2, THEN conjunct1, OF s(1)] s by auto
qed

subsection \<open>Further facts\<close>

text \<open>
  Packing an epoch and a count in one word and unpacking gives both back, truncated to 24 and 40 bits, every word is the packing of its own fields, and a count is read back only in the epoch it was packed for.
\<close>

lemma window_word_round_trip:
  "unpack (pack e c) = (e AND EPOCH_MASK, c AND COUNT_MASK)"
  "pack (fst (unpack p)) (snd (unpack p)) = p"
  "window_peek (pack e c) e' = (if e AND EPOCH_MASK = e' AND EPOCH_MASK then c AND COUNT_MASK else 0)"
  by (rule unpack_pack, rule pack_unpack, simp add: window_peek_def unpack_pack)

text \<open>
  A settlement that arrives late, with an epoch other than the one the counter holds, discards the count of the newer window and charges only its own amount to the older one: the newer window restarts from zero.
\<close>

lemma stale_epoch_discards_count:
  assumes "late AND EPOCH_MASK \<noteq> epoch AND EPOCH_MASK"
  shows "window_peek (debit amount late w) epoch = 0"
  using assms by (simp add: peek_debit)

end
