(* ===== verification/Budget_Calendar.thy ===== *)
theory Budget_Calendar
  imports Prelude
begin

text \<open>
  The period epochs and reset boundaries of \<^verbatim>\<open>crates/limits/src/lib.rs\<close>. Signed arithmetic
  is on \<open>int\<close>, wrapped to 64 bits where the code casts or computes in \<^verbatim>\<open>i64\<close>. The civil calendar
  is the \<^verbatim>\<open>chrono\<close> crate's, so it is a parameter: the year and month of an instant, and the
  first millisecond of a month; \<open>calendar_ok\<close> states what the crate documents about them.
\<close>

type_synonym i32 = "32 word"

record calendar =
  cal_year_month :: "int \<Rightarrow> (int \<times> int) option"
  cal_month_start :: "int \<Rightarrow> int \<Rightarrow> int option"

definition MINUTE_MS :: int where "MINUTE_MS = 60000"
definition DAY_MS :: int where "DAY_MS = 86400000"

text \<open>\<^verbatim>\<open>x.max(0) as u64\<close> for an \<^verbatim>\<open>i64\<close>.\<close>

definition clamp_u64 :: "int \<Rightarrow> u64" where
  "clamp_u64 x = word_of_int (max x 0)"

definition minute_epoch :: "u64 \<Rightarrow> u64" where
  "minute_epoch now_ms = now_ms div word_of_int MINUTE_MS"

definition minute_reset_ms :: "u64 \<Rightarrow> u64" where
  "minute_reset_ms now_ms = (minute_epoch now_ms + 1) * word_of_int MINUTE_MS"

definition offset_ms :: "i32 \<Rightarrow> int" where
  "offset_ms offset_min = i64 (sint offset_min * MINUTE_MS)"

definition shifted_ms :: "u64 \<Rightarrow> i32 \<Rightarrow> int" where
  "shifted_ms now_ms offset_min = i64 (sint now_ms + offset_ms offset_min)"

definition day_epoch :: "u64 \<Rightarrow> i32 \<Rightarrow> u64" where
  "day_epoch now_ms offset_min = clamp_u64 (shifted_ms now_ms offset_min div DAY_MS)"

definition day_reset_ms :: "u64 \<Rightarrow> i32 \<Rightarrow> u64" where
  "day_reset_ms now_ms offset_min =
     (let off = offset_ms offset_min;
          shifted = shifted_ms now_ms offset_min;
          next_local_midnight = i64 ((shifted div DAY_MS + 1) * DAY_MS)
      in clamp_u64 (i64 (next_local_midnight - off)))"

definition month_parts :: "calendar \<Rightarrow> u64 \<Rightarrow> i32 \<Rightarrow> int \<times> int" where
  "month_parts cal now_ms offset_min =
     (case cal_year_month cal (shifted_ms now_ms offset_min) of
        Some ym \<Rightarrow> ym
      | None \<Rightarrow> (1970, 1))"

definition month_epoch :: "calendar \<Rightarrow> u64 \<Rightarrow> i32 \<Rightarrow> u64" where
  "month_epoch cal now_ms offset_min =
     (let (y, m) = month_parts cal now_ms offset_min in clamp_u64 (y * 12 + (m - 1)))"

definition next_month :: "int \<Rightarrow> int \<Rightarrow> int \<times> int" where
  "next_month y m = (if 12 \<le> m then (y + 1, 1) else (y, m + 1))"

definition month_reset_ms :: "calendar \<Rightarrow> u64 \<Rightarrow> i32 \<Rightarrow> u64" where
  "month_reset_ms cal now_ms offset_min =
     (let (y, m) = month_parts cal now_ms offset_min;
          (ny, nm) = next_month y m
      in case cal_month_start cal ny nm of
           Some ms \<Rightarrow> clamp_u64 (i64 (ms - offset_ms offset_min))
         | None \<Rightarrow> sat_add now_ms (31 * word_of_int DAY_MS))"

definition reset_secs :: "u64 \<Rightarrow> u64 \<Rightarrow> u64" where
  "reset_secs reset_ms now_ms = max (div_ceil (sat_sub reset_ms now_ms) 1000) 1"

section \<open>In range\<close>

text \<open>
  Instants up to the year 2255 and any 32-bit offset: nothing wraps, and the epochs and
  boundaries are the integer ones.
\<close>

definition plausible :: "u64 \<Rightarrow> bool" where
  "plausible now_ms \<longleftrightarrow> unat now_ms < 9000000000000"

lemma i64_same: "- 9223372036854775808 \<le> x \<Longrightarrow> x < 9223372036854775808 \<Longrightarrow> i64 x = x"
  unfolding i64_def by (rule signed_take_bit_int_eq_self) simp_all

lemma sint_i32_bounds: "- 2147483648 \<le> sint (w :: i32)" "sint (w :: i32) < 2147483648"
  using sint_ge [of w] sint_lt [of w] by simp_all

lemma offset_ms_eq: "offset_ms off = sint off * 60000"
proof -
  have "i64 (sint off * MINUTE_MS) = sint off * MINUTE_MS"
    using sint_i32_bounds [of off] by (intro i64_same) (simp_all add: MINUTE_MS_def)
  then show ?thesis by (simp add: offset_ms_def MINUTE_MS_def)
qed

lemma uint_plausible: "plausible now \<Longrightarrow> 0 \<le> uint now" "plausible now \<Longrightarrow> uint now < 9000000000000"
  unfolding plausible_def unat_eq_nat_uint by (rule uint_ge_0) (simp only: nat_less_iff uint_ge_0)

lemma sint_plausible: "plausible now \<Longrightarrow> sint now = uint now"
proof -
  assume now: "plausible now"
  have "signed_take_bit 63 (uint now) = uint now"
    using i64_same [of "uint now"] uint_plausible [OF now] unfolding i64_def by linarith
  then show ?thesis by (simp add: sint_uint)
qed

lemma shifted_ms_eq: "plausible now \<Longrightarrow> shifted_ms now off = uint now + sint off * 60000"
proof -
  assume now: "plausible now"
  have "i64 (uint now + sint off * 60000) = uint now + sint off * 60000"
    using uint_plausible [OF now] sint_i32_bounds [of off] by (intro i64_same) linarith+
  then show ?thesis by (simp add: shifted_ms_def sint_plausible [OF now] offset_ms_eq)
qed

lemma unat_clamp_u64: "x < 18446744073709551616 \<Longrightarrow> unat (clamp_u64 x) = nat x"
  unfolding clamp_u64_def by (simp add: unat_eq_nat_uint uint_word_of_int)

lemma unat_minute_epoch: "unat (minute_epoch now) = unat now div 60000"
  by (simp add: minute_epoch_def MINUTE_MS_def unat_div_u64)

lemma unat_minute_reset: "plausible now \<Longrightarrow> unat (minute_reset_ms now) = (unat now div 60000 + 1) * 60000"
proof -
  assume now: "plausible now"
  then have "unat now div 60000 < 9000000000000" by (simp add: plausible_def)
  then show ?thesis
    by (simp add: minute_reset_ms_def MINUTE_MS_def unat_word_ariths unat_minute_epoch)
qed

lemma unat_day_epoch:
  "plausible now \<Longrightarrow> unat (day_epoch now off) = nat ((uint now + sint off * 60000) div 86400000)"
  using uint_plausible [of now] sint_i32_bounds [of off]
  unfolding day_epoch_def DAY_MS_def
  by (subst unat_clamp_u64) (simp_all add: shifted_ms_eq, linarith?)

lemma day_bounds:
  "(s div 86400000 + 1) * 86400000 \<le> s + 86400000" "s < (s div 86400000 + 1) * (86400000 :: int)"
proof -
  have "s div 86400000 * 86400000 + s mod 86400000 = s" by (rule div_mult_mod_eq)
  moreover have "0 \<le> s mod 86400000" "s mod 86400000 < 86400000" by simp_all
  ultimately show "(s div 86400000 + 1) * 86400000 \<le> s + 86400000" "s < (s div 86400000 + 1) * 86400000"
    by (simp_all add: algebra_simps)
qed

lemma unat_day_reset:
  assumes "plausible now"
  shows "unat (day_reset_ms now off) =
    nat (((uint now + sint off * 60000) div 86400000 + 1) * 86400000 - sint off * 60000)"
proof -
  let ?s = "uint now + sint off * 60000"
  have s: "- 200000000000000 < ?s" "?s < 200000000000000"
    and off: "- 130000000000000 < sint off * 60000" "sint off * 60000 < 130000000000000"
    using uint_plausible [OF assms] sint_i32_bounds [of off] by linarith+
  have d: "(?s div 86400000 + 1) * 86400000 \<le> ?s + 86400000" "?s < (?s div 86400000 + 1) * 86400000"
    by (rule day_bounds)+
  have "i64 ((?s div 86400000 + 1) * 86400000) = (?s div 86400000 + 1) * 86400000"
    using s d by (intro i64_same) linarith+
  moreover have "i64 ((?s div 86400000 + 1) * 86400000 - sint off * 60000) =
      (?s div 86400000 + 1) * 86400000 - sint off * 60000"
    using s d off by (intro i64_same) linarith+
  ultimately show ?thesis
    unfolding day_reset_ms_def Let_def shifted_ms_eq [OF assms] offset_ms_eq DAY_MS_def
    using s d off by (simp only:) (rule unat_clamp_u64, linarith)
qed

lemma same_local_day:
  assumes "s \<le> t" and "t < (s div 86400000 + 1) * (86400000 :: int)"
  shows "t div 86400000 = s div 86400000"
proof -
  define p q where "p = s div 86400000" and "q = t div 86400000"
  obtain u v where "s = p * 86400000 + u" "0 \<le> u" "u < 86400000" "t = q * 86400000 + v" "0 \<le> v" "v < 86400000"
    unfolding p_def q_def by (metis div_mult_mod_eq pos_mod_bound pos_mod_sign zero_less_numeral)
  then show ?thesis
    using assms unfolding p_def [symmetric] q_def [symmetric] distrib_right mult_1 by linarith
qed

lemma later_local_day:
  assumes "(s div 86400000 + 1) * (86400000 :: int) \<le> t"
  shows "s div 86400000 < t div 86400000"
proof -
  define p q where "p = s div 86400000" and "q = t div 86400000"
  obtain v where "t = q * 86400000 + v" "v < 86400000"
    unfolding q_def by (metis div_mult_mod_eq pos_mod_bound zero_less_numeral)
  then show ?thesis
    using assms unfolding p_def [symmetric] q_def [symmetric] distrib_right mult_1 by linarith
qed

lemma uint_day_reset:
  assumes "plausible now"
  shows "uint (day_reset_ms now off) =
    ((uint now + sint off * 60000) div 86400000 + 1) * 86400000 - sint off * 60000"
proof -
  have nonneg: "0 \<le> ((uint now + sint off * 60000) div 86400000 + 1) * 86400000 - sint off * 60000"
    using day_bounds(2) [of "uint now + sint off * 60000"] uint_plausible(1) [OF assms] by linarith
  show ?thesis
    using unat_day_reset [OF assms, of off] unfolding unat_eq_nat_uint eq_nat_nat_iff [OF uint_ge_0 nonneg] .
qed

text \<open>The waiting time a refusal announces reaches the boundary, and overshoots it by less than a second.\<close>

lemma unat_reset_secs:
  "unat (reset_secs r now) = max ((unat r - unat now + 999) div 1000) 1"
proof -
  have "unat (div_ceil (sat_sub r now) 1000) = (unat r - unat now + 999) div 1000"
    by (subst unat_div_ceil) (simp_all add: unat_sat_sub)
  moreover have "unat (max a 1) = max (unat a) 1" for a :: u64
    by (simp add: max_def word_le_nat_alt)
  ultimately show ?thesis by (simp only: reset_secs_def)
qed

section \<open>The calendar's contract\<close>

text \<open>
  What \<^verbatim>\<open>chrono\<close> documents: an instant it can represent lies in the month it reports, months are
  numbered 1 to 12, and a month's first millisecond belongs to it.
\<close>

definition calendar_ok :: "calendar \<Rightarrow> bool" where
  "calendar_ok cal \<longleftrightarrow>
     (\<forall>t y m. cal_year_month cal t = Some (y, m) \<longrightarrow> 1 \<le> m \<and> m \<le> 12) \<and>
     (\<forall>t y m s. cal_year_month cal t = Some (y, m) \<longrightarrow>
        cal_month_start cal (fst (next_month y m)) (snd (next_month y m)) = Some s \<longrightarrow>
        t < s \<and> cal_year_month cal s = Some (next_month y m) \<and> s \<le> t + 31 * DAY_MS)"

section \<open>Properties\<close>

subsection \<open>Further facts\<close>

text \<open>
  For instants up to the year 2255 and every 32-bit offset, the minute and day resets a refusal announces are the first instants of the next minute and of the next local day: every instant before them shares the current epoch, they do not; and waiting the announced whole seconds reaches them.
\<close>

lemma reset_boundaries:
  assumes "plausible now" and "0 \<le> uint now + sint off * 60000"
  shows "unat (minute_epoch (minute_reset_ms now)) = unat (minute_epoch now) + 1"
    and "now \<le> t \<Longrightarrow> t < minute_reset_ms now \<Longrightarrow> minute_epoch t = minute_epoch now"
    and "plausible t \<Longrightarrow> now \<le> t \<Longrightarrow> t < day_reset_ms now off \<Longrightarrow> day_epoch t off = day_epoch now off"
    and "plausible t \<Longrightarrow> day_reset_ms now off \<le> t \<Longrightarrow> day_epoch now off < day_epoch t off"
    and "unat (day_reset_ms now off) \<le> unat now + 1000 * unat (reset_secs (day_reset_ms now off) now)"
proof -
  show "unat (minute_epoch (minute_reset_ms now)) = unat (minute_epoch now) + 1"
    by (simp add: unat_minute_epoch unat_minute_reset [OF assms(1)])
  show "minute_epoch t = minute_epoch now" if "now \<le> t" "t < minute_reset_ms now"
    using that unat_minute_reset [OF assms(1)]
    by (simp add: word_unat_eq_iff unat_minute_epoch word_le_nat_alt word_less_nat_alt)
  note r = uint_day_reset [OF assms(1), of off]
  show "day_epoch t off = day_epoch now off" if "plausible t" "now \<le> t" "t < day_reset_ms now off"
  proof -
    have "(uint t + sint off * 60000) div 86400000 = (uint now + sint off * 60000) div 86400000"
      using that(2,3) r unfolding word_le_def word_less_def by (intro same_local_day) linarith+
    then show ?thesis
      using unat_day_epoch [OF that(1), of off] unat_day_epoch [OF assms(1), of off]
      by (simp only: word_unat_eq_iff)
  qed
  show "day_epoch now off < day_epoch t off" if "plausible t" "day_reset_ms now off \<le> t"
  proof -
    have "(uint now + sint off * 60000) div 86400000 < (uint t + sint off * 60000) div 86400000"
      using that(2) r unfolding word_le_def by (intro later_local_day) linarith
    moreover have "0 \<le> (uint now + sint off * 60000) div 86400000" using assms(2) by (simp only: div_int_pos_iff) simp
    ultimately show ?thesis
      using unat_day_epoch [OF that(1), of off] unat_day_epoch [OF assms(1), of off]
      by (simp only: word_less_nat_alt) linarith
  qed
  show "unat (day_reset_ms now off) \<le> unat now + 1000 * unat (reset_secs (day_reset_ms now off) now)"
    unfolding unat_reset_secs by (simp add: max_def) linarith
qed

end
