(* ===== verification/Limit_Scope.thy ===== *)
theory Limit_Scope
  imports Window_Counter Budget_Calendar
begin

text \<open>
  The limit configuration and \<^verbatim>\<open>ScopeCounters\<close> of \<^verbatim>\<open>crates/limits/src/lib.rs\<close>: one scope's
  pre-resolved counters with the check-before / settle-after operations. A counter slot is a
  record whose packed words are its fields; every operation takes the instant \<open>now_ms\<close>, and
  those that need a month take the calendar.
\<close>

section \<open>Configuration\<close>

datatype limit_mode = Hard | Soft

record rate_limits =
  rl_requests_per_min :: "u64 option"
  rl_tokens_per_min :: "u64 option"
  rl_mode :: limit_mode

record budget_limits =
  bl_cost_micro_usd_daily :: "u64 option"
  bl_cost_micro_usd_monthly :: "u64 option"
  bl_tokens_daily :: "u64 option"
  bl_tokens_monthly :: "u64 option"
  bl_anchor_offset_minutes :: i32
  bl_mode :: limit_mode
  bl_soft_threshold_permille :: "u16 option"
  bl_authored_currency :: "string option"
  bl_authored_cost_daily :: "u64 option"
  bl_authored_cost_monthly :: "u64 option"
  bl_fx_units_per_usd :: "u64 option"
  bl_fx_as_of :: "string option"

record limit_policy =
  lp_policy_id :: "string option"
  lp_rate :: "rate_limits option"
  lp_budget :: "budget_limits option"

definition rate_limits_default :: rate_limits where
  "rate_limits_default = \<lparr>rl_requests_per_min = None, rl_tokens_per_min = None, rl_mode = Hard\<rparr>"

definition budget_limits_default :: budget_limits where
  "budget_limits_default =
     \<lparr>bl_cost_micro_usd_daily = None, bl_cost_micro_usd_monthly = None, bl_tokens_daily = None,
      bl_tokens_monthly = None, bl_anchor_offset_minutes = 0, bl_mode = Hard,
      bl_soft_threshold_permille = None, bl_authored_currency = None, bl_authored_cost_daily = None,
      bl_authored_cost_monthly = None, bl_fx_units_per_usd = None, bl_fx_as_of = None\<rparr>"

definition is_hard :: "limit_mode \<Rightarrow> bool" where
  "is_hard m \<longleftrightarrow> m = Hard"

definition rate_limits_is_empty :: "rate_limits \<Rightarrow> bool" where
  "rate_limits_is_empty r \<longleftrightarrow> rl_requests_per_min r = None \<and> rl_tokens_per_min r = None"

definition budget_limits_is_empty :: "budget_limits \<Rightarrow> bool" where
  "budget_limits_is_empty b \<longleftrightarrow>
     bl_cost_micro_usd_daily b = None \<and> bl_cost_micro_usd_monthly b = None \<and>
     bl_tokens_daily b = None \<and> bl_tokens_monthly b = None"

definition limit_policy_is_empty :: "limit_policy \<Rightarrow> bool" where
  "limit_policy_is_empty p \<longleftrightarrow>
     (case lp_rate p of None \<Rightarrow> True | Some r \<Rightarrow> rate_limits_is_empty r) \<and>
     (case lp_budget p of None \<Rightarrow> True | Some b \<Rightarrow> budget_limits_is_empty b)"

datatype budget_config_error = CostCapAuthoredTwice | AuthoredCostWithoutFxRate | ZeroFxRate

definition convert_authored :: "budget_limits \<Rightarrow> u64 \<Rightarrow> budget_config_error + u64" where
  "convert_authored b authored =
     (case bl_fx_units_per_usd b of
        None \<Rightarrow> Inl AuthoredCostWithoutFxRate
      | Some rate \<Rightarrow> if rate = 0 then Inl ZeroFxRate else Inr (sat_mul authored 1000000 div rate))"

definition resolve_window ::
  "budget_limits \<Rightarrow> u64 option \<Rightarrow> u64 option \<Rightarrow> budget_config_error + u64 option" where
  "resolve_window b micro authored =
     (case (micro, authored) of
        (Some _, Some _) \<Rightarrow> Inl CostCapAuthoredTwice
      | (Some m, None) \<Rightarrow> Inr (Some m)
      | (None, Some a) \<Rightarrow> (case convert_authored b a of Inl e \<Rightarrow> Inl e | Inr c \<Rightarrow> Inr (Some c))
      | (None, None) \<Rightarrow> Inr None)"

definition resolved_cost_caps ::
  "budget_limits \<Rightarrow> budget_config_error + (u64 option \<times> u64 option)" where
  "resolved_cost_caps b =
     (case resolve_window b (bl_cost_micro_usd_daily b) (bl_authored_cost_daily b) of
        Inl e \<Rightarrow> Inl e
      | Inr daily \<Rightarrow>
          (case resolve_window b (bl_cost_micro_usd_monthly b) (bl_authored_cost_monthly b) of
             Inl e \<Rightarrow> Inl e
           | Inr monthly \<Rightarrow> Inr (daily, monthly)))"

section \<open>Verdicts\<close>

datatype limit_kind = RateRequests | RateTokens | BudgetCost | BudgetTokens

definition kind_header :: "limit_kind \<Rightarrow> string" where
  "kind_header k =
     (case k of
        RateRequests \<Rightarrow> ''rate_limit_requests'' | RateTokens \<Rightarrow> ''rate_limit_tokens''
      | BudgetCost \<Rightarrow> ''budget_cost'' | BudgetTokens \<Rightarrow> ''budget_tokens'')"

definition is_budget :: "limit_kind \<Rightarrow> bool" where
  "is_budget k \<longleftrightarrow> k = BudgetCost \<or> k = BudgetTokens"

datatype limit_scope = KeyScope | TenantScope | ModelScope

definition scope_header :: "limit_scope \<Rightarrow> string" where
  "scope_header s =
     (case s of KeyScope \<Rightarrow> ''key'' | TenantScope \<Rightarrow> ''tenant'' | ModelScope \<Rightarrow> ''model'')"

record breach =
  br_kind :: limit_kind
  br_scope :: limit_scope
  br_policy_id :: string
  br_limit :: u64
  br_reset_ms :: "u64 option"
  br_now_ms :: u64

definition retry_after_secs :: "breach \<Rightarrow> u64 option" where
  "retry_after_secs b = map_option (\<lambda>r. reset_secs r (br_now_ms b)) (br_reset_ms b)"

record advisory =
  ad_limit_requests :: "u64 option"
  ad_remaining_requests :: "u64 option"
  ad_reset_requests_secs :: "u64 option"
  ad_limit_tokens :: "u64 option"
  ad_remaining_tokens :: "u64 option"
  ad_budget_remaining_micro_usd :: "u64 option"

definition advisory_default :: advisory where
  "advisory_default =
     \<lparr>ad_limit_requests = None, ad_remaining_requests = None, ad_reset_requests_secs = None,
      ad_limit_tokens = None, ad_remaining_tokens = None, ad_budget_remaining_micro_usd = None\<rparr>"

definition advisory_is_empty :: "advisory \<Rightarrow> bool" where
  "advisory_is_empty a \<longleftrightarrow>
     ad_limit_requests a = None \<and> ad_remaining_requests a = None \<and> ad_limit_tokens a = None \<and>
     ad_remaining_tokens a = None \<and> ad_budget_remaining_micro_usd a = None"

datatype admission = Allowed advisory | Denied breach

datatype budget_period = Daily | Monthly

record spend_alert =
  sa_scope :: limit_scope
  sa_period :: budget_period
  sa_threshold_permille :: u16
  sa_consumed_permille :: u16

text \<open>\<^verbatim>\<open>BudgetWarning\<close> has the fields of \<^verbatim>\<open>SpendAlert\<close>.\<close>

type_synonym budget_warning = spend_alert

section \<open>ScopeCounters\<close>

record scope_counters =
  sc_scope :: limit_scope
  sc_policy_id :: string
  sc_identity :: string
  sc_requests_per_min :: "u64 option"
  sc_req_per_min_global :: "u64 option"
  sc_tokens_per_min :: "u64 option"
  sc_rate_mode :: limit_mode
  sc_c_req :: u64
  sc_c_tok_rate :: u64
  sc_cost_daily :: "u64 option"
  sc_cost_monthly :: "u64 option"
  sc_tokens_daily :: "u64 option"
  sc_tokens_monthly :: "u64 option"
  sc_anchor_offset_minutes :: i32
  sc_budget_mode :: limit_mode
  sc_c_cost_daily :: u64
  sc_c_cost_monthly :: u64
  sc_c_tok_daily :: u64
  sc_c_tok_monthly :: u64
  sc_soft_threshold_permille :: "u16 option"
  sc_soft_alerted_cost_daily :: u64
  sc_soft_alerted_cost_monthly :: u64

definition share_per_replica :: "u64 option \<Rightarrow> u32 \<Rightarrow> u64 option" where
  "share_per_replica v max_replicas =
     map_option (\<lambda>x. if max_replicas \<le> 1 then x else div_ceil x (ucast max_replicas)) v"

definition clamp_share :: "u32 \<Rightarrow> u64 option \<Rightarrow> u64 option" where
  "clamp_share max_replicas v = map_option (\<lambda>x. min x COUNT_MASK) (share_per_replica v max_replicas)"

definition from_policy ::
  "limit_scope \<Rightarrow> limit_policy \<Rightarrow> string \<Rightarrow> u32 \<Rightarrow> scope_counters option" where
  "from_policy scope policy fallback_id max_replicas =
     (if limit_policy_is_empty policy then None
      else
        (let policy_id = (case lp_policy_id policy of Some i \<Rightarrow> i | None \<Rightarrow> fallback_id);
             rate = (case lp_rate policy of Some r \<Rightarrow> r | None \<Rightarrow> rate_limits_default);
             budget = (case lp_budget policy of Some b \<Rightarrow> b | None \<Rightarrow> budget_limits_default);
             clamp = clamp_share max_replicas;
             (cost_daily_micro, cost_monthly_micro) =
               (case resolved_cost_caps budget of Inr caps \<Rightarrow> caps | Inl _ \<Rightarrow> (Some 0, Some 0))
         in Some
           \<lparr>sc_scope = scope, sc_policy_id = policy_id, sc_identity = fallback_id,
            sc_requests_per_min = clamp (rl_requests_per_min rate),
            sc_req_per_min_global = map_option (\<lambda>x. min x COUNT_MASK) (rl_requests_per_min rate),
            sc_tokens_per_min = clamp (rl_tokens_per_min rate),
            sc_rate_mode = rl_mode rate,
            sc_c_req = window_new, sc_c_tok_rate = window_new,
            sc_cost_daily = clamp cost_daily_micro, sc_cost_monthly = clamp cost_monthly_micro,
            sc_tokens_daily = clamp (bl_tokens_daily budget),
            sc_tokens_monthly = clamp (bl_tokens_monthly budget),
            sc_anchor_offset_minutes = bl_anchor_offset_minutes budget,
            sc_budget_mode = bl_mode budget,
            sc_c_cost_daily = window_new, sc_c_cost_monthly = window_new,
            sc_c_tok_daily = window_new, sc_c_tok_monthly = window_new,
            sc_soft_threshold_permille =
              map_option (\<lambda>p. min p 1000) (bl_soft_threshold_permille budget),
            sc_soft_alerted_cost_daily = window_new, sc_soft_alerted_cost_monthly = window_new\<rparr>))"

definition same_policy :: "scope_counters \<Rightarrow> scope_counters \<Rightarrow> bool" where
  "same_policy a b \<longleftrightarrow>
     sc_scope a = sc_scope b \<and> sc_policy_id a = sc_policy_id b \<and>
     sc_requests_per_min a = sc_requests_per_min b \<and>
     sc_req_per_min_global a = sc_req_per_min_global b \<and>
     sc_tokens_per_min a = sc_tokens_per_min b \<and> sc_rate_mode a = sc_rate_mode b \<and>
     sc_cost_daily a = sc_cost_daily b \<and> sc_cost_monthly a = sc_cost_monthly b \<and>
     sc_tokens_daily a = sc_tokens_daily b \<and> sc_tokens_monthly a = sc_tokens_monthly b \<and>
     sc_anchor_offset_minutes a = sc_anchor_offset_minutes b \<and>
     sc_budget_mode a = sc_budget_mode b \<and>
     sc_soft_threshold_permille a = sc_soft_threshold_permille b"

definition rate_breach :: "scope_counters \<Rightarrow> limit_kind \<Rightarrow> u64 \<Rightarrow> u64 \<Rightarrow> breach" where
  "rate_breach s kind limit now_ms =
     \<lparr>br_kind = kind, br_scope = sc_scope s, br_policy_id = sc_policy_id s, br_limit = limit,
      br_reset_ms = Some (minute_reset_ms now_ms), br_now_ms = now_ms\<rparr>"

definition budget_breach ::
  "calendar \<Rightarrow> scope_counters \<Rightarrow> limit_kind \<Rightarrow> bool \<Rightarrow> u64 \<Rightarrow> u64 \<Rightarrow> breach" where
  "budget_breach cal s kind monthly limit now_ms =
     (let reset = (if monthly then month_reset_ms cal now_ms (sc_anchor_offset_minutes s)
                   else day_reset_ms now_ms (sc_anchor_offset_minutes s))
      in \<lparr>br_kind = kind, br_scope = sc_scope s, br_policy_id = sc_policy_id s, br_limit = limit,
          br_reset_ms = Some reset, br_now_ms = now_ms\<rparr>)"

text \<open>The guard every check has: a configured limit that the window's count has reached.\<close>

definition reached :: "u64 option \<Rightarrow> u64 \<Rightarrow> u64 \<Rightarrow> u64 option" where
  "reached limit packed epoch =
     (case limit of Some l \<Rightarrow> if l \<le> window_peek packed epoch then Some l else None | None \<Rightarrow> None)"

definition scope_check :: "calendar \<Rightarrow> scope_counters \<Rightarrow> u64 \<Rightarrow> breach option" where
  "scope_check cal s now_ms =
     (let off = sc_anchor_offset_minutes s;
          budgets =
            (if is_hard (sc_budget_mode s) then
               (case reached (sc_cost_daily s) (sc_c_cost_daily s) (day_epoch now_ms off) of
                  Some limit \<Rightarrow> Some (budget_breach cal s BudgetCost False limit now_ms)
                | None \<Rightarrow>
               (case reached (sc_cost_monthly s) (sc_c_cost_monthly s) (month_epoch cal now_ms off) of
                  Some limit \<Rightarrow> Some (budget_breach cal s BudgetCost True limit now_ms)
                | None \<Rightarrow>
               (case reached (sc_tokens_daily s) (sc_c_tok_daily s) (day_epoch now_ms off) of
                  Some limit \<Rightarrow> Some (budget_breach cal s BudgetTokens False limit now_ms)
                | None \<Rightarrow>
               (case reached (sc_tokens_monthly s) (sc_c_tok_monthly s) (month_epoch cal now_ms off) of
                  Some limit \<Rightarrow> Some (budget_breach cal s BudgetTokens True limit now_ms)
                | None \<Rightarrow> None))))
             else None)
      in if is_hard (sc_rate_mode s) then
           (case reached (sc_tokens_per_min s) (sc_c_tok_rate s) (minute_epoch now_ms) of
              Some limit \<Rightarrow> Some (rate_breach s RateTokens limit now_ms)
            | None \<Rightarrow> budgets)
         else budgets)"

definition consume_request :: "scope_counters \<Rightarrow> u64 \<Rightarrow> breach option \<times> scope_counters" where
  "consume_request s now_ms =
     (case sc_requests_per_min s of
        None \<Rightarrow> (None, s)
      | Some limit \<Rightarrow>
          (let ep = minute_epoch now_ms in
           if is_hard (sc_rate_mode s) then
             (case try_consume 1 limit ep (sc_c_req s) of
                (w, Inr _) \<Rightarrow> (None, s\<lparr>sc_c_req := w\<rparr>)
              | (w, Inl _) \<Rightarrow> (Some (rate_breach s RateRequests limit now_ms), s\<lparr>sc_c_req := w\<rparr>))
           else (None, s\<lparr>sc_c_req := debit 1 ep (sc_c_req s)\<rparr>)))"

definition maybe_spend_alert ::
  "scope_counters \<Rightarrow> u64 \<Rightarrow> u64 \<Rightarrow> budget_period \<Rightarrow> u64 \<Rightarrow> u64 \<Rightarrow> spend_alert option \<times> u64" where
  "maybe_spend_alert s limit consumed period flag epoch =
     (case sc_soft_threshold_permille s of
        None \<Rightarrow> (None, flag)
      | Some threshold \<Rightarrow>
          (let permille = consumed_permille consumed limit in
           if permille < ucast threshold then (None, flag)
           else (case try_fire epoch flag of
                   (flag', False) \<Rightarrow> (None, flag')
                 | (flag', True) \<Rightarrow>
                     (Some \<lparr>sa_scope = sc_scope s, sa_period = period, sa_threshold_permille = threshold,
                            sa_consumed_permille = ucast permille\<rparr>, flag'))))"

text \<open>The settle-after debit, in the order of the code: one \<open>let\<close> per statement.\<close>

definition debit_if :: "u64 option \<Rightarrow> u64 \<Rightarrow> u64 \<Rightarrow> u64 \<Rightarrow> u64" where
  "debit_if limit amount epoch packed =
     (case limit of None \<Rightarrow> packed | Some _ \<Rightarrow> debit amount epoch packed)"

definition scope_settle ::
  "calendar \<Rightarrow> scope_counters \<Rightarrow> u64 \<Rightarrow> u64 \<Rightarrow> u64 \<Rightarrow> spend_alert option \<times> scope_counters" where
  "scope_settle cal s now_ms total_tokens cost_micro_usd =
     (let off = sc_anchor_offset_minutes s;
          ep_day = day_epoch now_ms off;
          ep_month = month_epoch cal now_ms off;
          s = s\<lparr>sc_c_tok_rate :=
                 debit_if (sc_tokens_per_min s) total_tokens (minute_epoch now_ms) (sc_c_tok_rate s)\<rparr>;
          s = s\<lparr>sc_c_cost_daily := debit_if (sc_cost_daily s) cost_micro_usd ep_day (sc_c_cost_daily s)\<rparr>;
          (alert, flag) =
            (case sc_cost_daily s of
               None \<Rightarrow> (None, sc_soft_alerted_cost_daily s)
             | Some limit \<Rightarrow>
                 maybe_spend_alert s limit (window_peek (sc_c_cost_daily s) ep_day) Daily
                   (sc_soft_alerted_cost_daily s) ep_day);
          s = s\<lparr>sc_soft_alerted_cost_daily := flag\<rparr>;
          s = s\<lparr>sc_c_cost_monthly :=
                 debit_if (sc_cost_monthly s) cost_micro_usd ep_month (sc_c_cost_monthly s)\<rparr>;
          (alert, flag) =
            (case (alert, sc_cost_monthly s) of
               (None, Some limit) \<Rightarrow>
                 maybe_spend_alert s limit (window_peek (sc_c_cost_monthly s) ep_month) Monthly
                   (sc_soft_alerted_cost_monthly s) ep_month
             | _ \<Rightarrow> (alert, sc_soft_alerted_cost_monthly s));
          s = s\<lparr>sc_soft_alerted_cost_monthly := flag\<rparr>;
          s = s\<lparr>sc_c_tok_daily := debit_if (sc_tokens_daily s) total_tokens ep_day (sc_c_tok_daily s)\<rparr>;
          s = s\<lparr>sc_c_tok_monthly := debit_if (sc_tokens_monthly s) total_tokens ep_month (sc_c_tok_monthly s)\<rparr>
      in (alert, s))"

text \<open>The closure \<^verbatim>\<open>consider\<close> of \<^verbatim>\<open>warning\<close>: keep the strictly higher consumed fraction.\<close>

definition consider_warning ::
  "limit_scope \<Rightarrow> u16 \<Rightarrow> u64 option \<Rightarrow> u64 \<Rightarrow> budget_period \<Rightarrow> budget_warning option \<Rightarrow> budget_warning option" where
  "consider_warning scope threshold limit consumed period best =
     (case limit of
        None \<Rightarrow> best
      | Some limit \<Rightarrow>
          (let permille = consumed_permille consumed limit in
           if ucast threshold \<le> permille then
             (let w = \<lparr>sa_scope = scope, sa_period = period, sa_threshold_permille = threshold,
                       sa_consumed_permille = ucast permille\<rparr>
              in case best of
                   None \<Rightarrow> Some w
                 | Some b \<Rightarrow> if sa_consumed_permille b < sa_consumed_permille w then Some w else best)
           else best))"

definition scope_warning :: "calendar \<Rightarrow> scope_counters \<Rightarrow> u64 \<Rightarrow> budget_warning option" where
  "scope_warning cal s now_ms =
     (case sc_soft_threshold_permille s of
        None \<Rightarrow> None
      | Some threshold \<Rightarrow>
          (let off = sc_anchor_offset_minutes s;
               best = consider_warning (sc_scope s) threshold (sc_cost_daily s)
                        (window_peek (sc_c_cost_daily s) (day_epoch now_ms off)) Daily None
           in consider_warning (sc_scope s) threshold (sc_cost_monthly s)
                (window_peek (sc_c_cost_monthly s) (month_epoch cal now_ms off)) Monthly best))"

text \<open>\<^verbatim>\<open>is_none_or(|r| rem < r)\<close>.\<close>

definition tighter :: "u64 option \<Rightarrow> u64 \<Rightarrow> bool" where
  "tighter old rem \<longleftrightarrow> (case old of None \<Rightarrow> True | Some r \<Rightarrow> rem < r)"

definition budget_headroom :: "u64 option \<Rightarrow> u64 \<Rightarrow> u64 \<Rightarrow> advisory \<Rightarrow> advisory" where
  "budget_headroom limit packed epoch a =
     (case limit of
        None \<Rightarrow> a
      | Some limit \<Rightarrow>
          (let rem = sat_sub limit (window_peek packed epoch) in
           if tighter (ad_budget_remaining_micro_usd a) rem
           then a\<lparr>ad_budget_remaining_micro_usd := Some rem\<rparr> else a))"

definition contribute_advisory :: "calendar \<Rightarrow> scope_counters \<Rightarrow> u64 \<Rightarrow> advisory \<Rightarrow> advisory" where
  "contribute_advisory cal s now_ms a =
     (let a = (case sc_requests_per_min s of
                 None \<Rightarrow> a
               | Some limit \<Rightarrow>
                   (let rem = sat_sub limit (window_peek (sc_c_req s) (minute_epoch now_ms)) in
                    if tighter (ad_remaining_requests a) rem
                    then a\<lparr>ad_remaining_requests := Some rem, ad_limit_requests := Some limit,
                           ad_reset_requests_secs := Some (reset_secs (minute_reset_ms now_ms) now_ms)\<rparr>
                    else a));
          a = (case sc_tokens_per_min s of
                 None \<Rightarrow> a
               | Some limit \<Rightarrow>
                   (let rem = sat_sub limit (window_peek (sc_c_tok_rate s) (minute_epoch now_ms)) in
                    if tighter (ad_remaining_tokens a) rem
                    then a\<lparr>ad_remaining_tokens := Some rem, ad_limit_tokens := Some limit\<rparr> else a));
          off = sc_anchor_offset_minutes s;
          a = budget_headroom (sc_cost_daily s) (sc_c_cost_daily s) (day_epoch now_ms off) a
      in budget_headroom (sc_cost_monthly s) (sc_c_cost_monthly s) (month_epoch cal now_ms off) a)"

section \<open>What a slot promises\<close>

text \<open>Configured caps are representable: a saturated counter is never below its cap.\<close>

definition cap_fits :: "u64 option \<Rightarrow> bool" where
  "cap_fits cap \<longleftrightarrow> (case cap of None \<Rightarrow> True | Some l \<Rightarrow> l \<le> COUNT_MASK)"

definition caps_representable :: "scope_counters \<Rightarrow> bool" where
  "caps_representable s \<longleftrightarrow>
     cap_fits (sc_requests_per_min s) \<and> cap_fits (sc_req_per_min_global s) \<and>
     cap_fits (sc_tokens_per_min s) \<and> cap_fits (sc_cost_daily s) \<and> cap_fits (sc_cost_monthly s) \<and>
     cap_fits (sc_tokens_daily s) \<and> cap_fits (sc_tokens_monthly s) \<and>
     (case sc_soft_threshold_permille s of None \<Rightarrow> True | Some t \<Rightarrow> t \<le> 1000)"

lemma cap_fits_clamp [simp]:
  "cap_fits (clamp_share n v)" "cap_fits (map_option (\<lambda>x. min x COUNT_MASK) v)"
  by (simp_all add: clamp_share_def cap_fits_def split: option.splits)

lemma from_policy_representable:
  assumes "from_policy scope p fid n = Some s"
  shows "caps_representable s"
proof -
  define budget where "budget = (case lp_budget p of Some b \<Rightarrow> b | None \<Rightarrow> budget_limits_default)"
  obtain d m where caps: "(case resolved_cost_caps budget of Inr caps \<Rightarrow> caps | Inl _ \<Rightarrow> (Some 0, Some 0)) = (d, m)"
    by fastforce
  have "case map_option (\<lambda>p. min p (1000 :: u16)) v of None \<Rightarrow> True | Some t \<Rightarrow> t \<le> 1000" for v
    by (simp split: option.splits)
  then show ?thesis
    using assms caps unfolding from_policy_def budget_def [symmetric]
    by (auto simp: caps_representable_def Let_def split: if_splits)
qed

text \<open>A configured limit always leaves a counter of its own: a policy is absent or enforced.\<close>

lemma from_policy_None: "from_policy scope p fid n = None \<longleftrightarrow> limit_policy_is_empty p"
  by (simp add: from_policy_def Let_def case_prod_beta)

lemma from_policy_identity:
  "from_policy scope p fid n = Some s \<Longrightarrow> sc_scope s = scope \<and> sc_identity s = fid"
  by (auto simp: from_policy_def Let_def split: if_splits prod.splits)

lemma reached_Some: "reached l w e = Some x \<longleftrightarrow> l = Some x \<and> x \<le> window_peek w e"
  by (auto simp: reached_def split: option.splits)

lemma reached_None: "reached l w e = None \<longleftrightarrow> (\<forall>x. l = Some x \<longrightarrow> window_peek w e < x)"
  by (auto simp: reached_def not_le split: option.splits)

text \<open>The caps of a slot that a check looks at, with the counter and epoch each is read in.\<close>

definition checked_caps :: "calendar \<Rightarrow> scope_counters \<Rightarrow> u64 \<Rightarrow> (limit_mode \<times> limit_kind \<times> u64 option \<times> u64 \<times> u64) list" where
  "checked_caps cal s now_ms =
     [(sc_rate_mode s, RateTokens, sc_tokens_per_min s, sc_c_tok_rate s, minute_epoch now_ms),
      (sc_budget_mode s, BudgetCost, sc_cost_daily s, sc_c_cost_daily s,
         day_epoch now_ms (sc_anchor_offset_minutes s)),
      (sc_budget_mode s, BudgetCost, sc_cost_monthly s, sc_c_cost_monthly s,
         month_epoch cal now_ms (sc_anchor_offset_minutes s)),
      (sc_budget_mode s, BudgetTokens, sc_tokens_daily s, sc_c_tok_daily s,
         day_epoch now_ms (sc_anchor_offset_minutes s)),
      (sc_budget_mode s, BudgetTokens, sc_tokens_monthly s, sc_c_tok_monthly s,
         month_epoch cal now_ms (sc_anchor_offset_minutes s))]"

definition hit :: "u64 option \<Rightarrow> u64 \<Rightarrow> u64 \<Rightarrow> bool" where
  "hit limit packed epoch \<longleftrightarrow> (case limit of Some l \<Rightarrow> l \<le> window_peek packed epoch | None \<Rightarrow> False)"

lemma case_reached:
  "(case reached l w e of Some x \<Rightarrow> f x | None \<Rightarrow> g) = (if hit l w e then f (the l) else g)"
  by (simp add: reached_def hit_def split: option.splits)

lemma hit_the: "hit l w e \<Longrightarrow> Some (the l) = l"
  by (simp add: hit_def split: option.splits)

definition exhausted :: "limit_mode \<times> limit_kind \<times> u64 option \<times> u64 \<times> u64 \<Rightarrow> bool" where
  "exhausted c = (case c of (mode, kind, limit, packed, epoch) \<Rightarrow>
     mode = Hard \<and> hit limit packed epoch)"

text \<open>A check refuses exactly when some hard cap is reached, and names the first such cap.\<close>

lemma scope_check_spec:
  "map_option (\<lambda>b. (br_kind b, Some (br_limit b))) (scope_check cal s now_ms) =
     map_option (\<lambda>(_, kind, limit, _, _). (kind, limit)) (find exhausted (checked_caps cal s now_ms))"
  by (simp add: scope_check_def checked_caps_def exhausted_def case_reached is_hard_def Let_def
      rate_breach_def budget_breach_def hit_the)

lemma scope_check_None:
  "scope_check cal s now_ms = None \<longleftrightarrow> (\<forall>c \<in> set (checked_caps cal s now_ms). \<not> exhausted c)"
proof -
  have "scope_check cal s now_ms = None \<longleftrightarrow> find exhausted (checked_caps cal s now_ms) = None"
    using scope_check_spec [of cal s now_ms]
    by (cases "scope_check cal s now_ms"; cases "find exhausted (checked_caps cal s now_ms)") auto
  then show ?thesis by (auto simp: find_None_iff)
qed

section \<open>Requests\<close>

lemma consume_request_frame:
  "snd (consume_request s now) = s\<lparr>sc_c_req := sc_c_req (snd (consume_request s now))\<rparr>"
  by (simp add: consume_request_def Let_def split: option.splits prod.splits sum.splits)

lemma consume_request_None:
  "fst (consume_request s now) = None \<longleftrightarrow>
     (sc_rate_mode s = Hard \<longrightarrow> (\<forall>l. sc_requests_per_min s = Some l \<longrightarrow>
        window_peek (sc_c_req s) (minute_epoch now) < l))"
  by (cases "sc_rate_mode s")
    (auto simp: consume_request_def is_hard_def Let_def try_consume_eq split: option.splits)

lemma consume_request_denied: "fst (consume_request s now) = Some b \<Longrightarrow> snd (consume_request s now) = s"
  by (auto simp: consume_request_def Let_def try_consume_eq split: option.splits if_splits)

lemma sat_add_one_count: "unat (min (sat_add c 1) COUNT_MASK) = min (unat c + 1) (2 ^ 40 - 1)"
  by (simp add: unat_min unat_sat_add unat_COUNT_MASK)

text \<open>An admitted request counts exactly once in its minute.\<close>

lemma consume_request_counts:
  assumes "fst (consume_request s now) = None" and "sc_requests_per_min s = Some l"
  shows "unat (window_peek (sc_c_req (snd (consume_request s now))) (minute_epoch now)) =
    min (unat (window_peek (sc_c_req s) (minute_epoch now)) + 1) (2 ^ 40 - 1)"
  using assms
  by (auto simp: consume_request_def Let_def try_consume_eq debit_eq sat_add_one_count split: if_splits)

section \<open>Settling\<close>

text \<open>The configuration of a slot: everything but its atomics.\<close>

definition scope_config :: "scope_counters \<Rightarrow> scope_counters" where
  "scope_config s = s\<lparr>sc_c_req := 0, sc_c_tok_rate := 0, sc_c_cost_daily := 0, sc_c_cost_monthly := 0,
     sc_c_tok_daily := 0, sc_c_tok_monthly := 0, sc_soft_alerted_cost_daily := 0,
     sc_soft_alerted_cost_monthly := 0\<rparr>"

text \<open>What settling leaves in each atomic, one equation per field.\<close>

lemma scope_settle_fields:
  fixes cal :: calendar and s :: scope_counters and now tok cost :: u64
  defines "s' \<equiv> snd (scope_settle cal s now tok cost)"
  shows "scope_config s' = scope_config s"
    and "sc_c_req s' = sc_c_req s"
    and "sc_c_tok_rate s' = debit_if (sc_tokens_per_min s) tok (minute_epoch now) (sc_c_tok_rate s)"
    and "sc_c_cost_daily s' =
      debit_if (sc_cost_daily s) cost (day_epoch now (sc_anchor_offset_minutes s)) (sc_c_cost_daily s)"
    and "sc_c_cost_monthly s' =
      debit_if (sc_cost_monthly s) cost (month_epoch cal now (sc_anchor_offset_minutes s)) (sc_c_cost_monthly s)"
    and "sc_c_tok_daily s' =
      debit_if (sc_tokens_daily s) tok (day_epoch now (sc_anchor_offset_minutes s)) (sc_c_tok_daily s)"
    and "sc_c_tok_monthly s' =
      debit_if (sc_tokens_monthly s) tok (month_epoch cal now (sc_anchor_offset_minutes s)) (sc_c_tok_monthly s)"
  unfolding s'_def by (simp_all add: scope_settle_def scope_config_def Let_def case_prod_beta)

lemma peek_debit_if:
  "unat (window_peek (debit_if (Some l) a e w) e) = min (unat (window_peek w e) + unat a) (2 ^ 40 - 1)"
  by (simp add: debit_if_def unat_peek_debit)

subsection \<open>Spend alerts\<close>

text \<open>The consumed fraction and the alert flag of one period, as the code reads them.\<close>

definition crossed :: "scope_counters \<Rightarrow> u64 \<Rightarrow> u64 \<Rightarrow> bool" where
  "crossed s limit consumed \<longleftrightarrow>
     (case sc_soft_threshold_permille s of None \<Rightarrow> False
      | Some t \<Rightarrow> ucast t \<le> consumed_permille consumed limit)"

lemma maybe_spend_alert_eq:
  "maybe_spend_alert s limit consumed period flag epoch =
     (if crossed s limit consumed \<and> \<not> has_fired epoch flag
      then (Some \<lparr>sa_scope = sc_scope s, sa_period = period,
                  sa_threshold_permille = the (sc_soft_threshold_permille s),
                  sa_consumed_permille = ucast (consumed_permille consumed limit)\<rparr>,
            fst (try_fire epoch flag))
      else (None, flag))"
  by (auto simp: maybe_spend_alert_def crossed_def Let_def try_fire_eq not_le split: option.splits)

lemma settle_daily_flag:
  fixes cal :: calendar and s :: scope_counters and now tok cost :: u64
  defines "r \<equiv> scope_settle cal s now tok cost" and "ep \<equiv> day_epoch now (sc_anchor_offset_minutes s)"
  shows "(\<exists>a. fst r = Some a \<and> sa_period a = Daily) \<Longrightarrow>
      \<not> has_fired ep (sc_soft_alerted_cost_daily s) \<and> has_fired ep (sc_soft_alerted_cost_daily (snd r))"
    and "has_fired ep (sc_soft_alerted_cost_daily s) \<Longrightarrow> has_fired ep (sc_soft_alerted_cost_daily (snd r))"
  unfolding r_def ep_def
  by (auto simp: scope_settle_def Let_def case_prod_beta maybe_spend_alert_eq has_fired_try_fire
      split: option.splits if_splits)

text \<open>A run of settlements on one slot: the alerts in order, and the slot.\<close>

fun settle_run ::
  "calendar \<Rightarrow> scope_counters \<Rightarrow> (u64 \<times> u64 \<times> u64) list \<Rightarrow> spend_alert list \<times> scope_counters" where
  "settle_run cal s [] = ([], s)"
| "settle_run cal s ((now, tok, cost) # us) =
     (let (a, s') = scope_settle cal s now tok cost; (as, s'') = settle_run cal s' us
      in ((case a of None \<Rightarrow> as | Some x \<Rightarrow> x # as), s''))"

lemma settle_offset [simp]:
  "sc_anchor_offset_minutes (snd (scope_settle cal s now tok cost)) = sc_anchor_offset_minutes s"
  "sc_cost_daily (snd (scope_settle cal s now tok cost)) = sc_cost_daily s"
  "sc_budget_mode (snd (scope_settle cal s now tok cost)) = sc_budget_mode s"
  by (simp_all add: scope_settle_def Let_def case_prod_beta)

lemma settle_run_daily_alerts:
  assumes "\<forall>(now, _, _) \<in> set us. day_epoch now (sc_anchor_offset_minutes s) = ep"
  shows "length (filter (\<lambda>a. sa_period a = Daily) (fst (settle_run cal s us))) \<le>
    (if has_fired ep (sc_soft_alerted_cost_daily s) then 0 else 1)"
  using assms
proof (induction us arbitrary: s)
  case (Cons u us)
  obtain now tok cost where u: "u = (now, tok, cost)" by (cases u)
  let ?r = "scope_settle cal s now tok cost"
  have ep: "day_epoch now (sc_anchor_offset_minutes s) = ep" using Cons.prems u by auto
  have IH: "length (filter (\<lambda>a. sa_period a = Daily) (fst (settle_run cal (snd ?r) us))) \<le>
      (if has_fired ep (sc_soft_alerted_cost_daily (snd ?r)) then 0 else 1)"
    using Cons.prems by (intro Cons.IH) auto
  note flag = settle_daily_flag [where cal = cal and s = s and now = now and tok = tok and cost = cost,
      unfolded ep]
  show ?case
  proof (cases "\<exists>a. fst ?r = Some a \<and> sa_period a = Daily")
    case True
    then show ?thesis using IH flag(1) u by (auto simp: Let_def case_prod_beta)
  next
    case False
    then have "length (filter (\<lambda>a. sa_period a = Daily) (fst (settle_run cal s (u # us)))) =
        length (filter (\<lambda>a. sa_period a = Daily) (fst (settle_run cal (snd ?r) us)))"
      by (auto simp: u Let_def case_prod_beta split: option.splits)
    then show ?thesis using IH flag(2) by (auto split: if_splits)
  qed
qed simp

text \<open>Costs settled in one day accumulate, saturating at the counter's width.\<close>

lemma settle_run_config [simp]:
  "sc_anchor_offset_minutes (snd (settle_run cal s us)) = sc_anchor_offset_minutes s"
  "sc_cost_daily (snd (settle_run cal s us)) = sc_cost_daily s"
  "sc_budget_mode (snd (settle_run cal s us)) = sc_budget_mode s"
  by (induction us arbitrary: s) (auto simp: Let_def case_prod_beta split: prod.splits)

definition total_cost :: "(u64 \<times> u64 \<times> u64) list \<Rightarrow> nat" where
  "total_cost us = (\<Sum>u \<leftarrow> us. unat (snd (snd u)))"

lemma settle_run_daily_cost:
  assumes "\<forall>(now, _, _) \<in> set us. day_epoch now (sc_anchor_offset_minutes s) = ep"
    and "sc_cost_daily s = Some l"
  shows "unat (window_peek (sc_c_cost_daily (snd (settle_run cal s us))) ep) =
    min (unat (window_peek (sc_c_cost_daily s) ep) + total_cost us) (2 ^ 40 - 1)"
  using assms
proof (induction us arbitrary: s)
  case Nil
  then show ?case
    using window_peek_bound [of "sc_c_cost_daily s" ep] by (simp add: le_COUNT_MASK total_cost_def)
next
  case (Cons u us)
  obtain now tok cost where u: "u = (now, tok, cost)" by (cases u)
  let ?s' = "snd (scope_settle cal s now tok cost)"
  have ep: "day_epoch now (sc_anchor_offset_minutes s) = ep" using Cons.prems u by auto
  have "unat (window_peek (sc_c_cost_daily ?s') ep) =
      min (unat (window_peek (sc_c_cost_daily s) ep) + unat cost) (2 ^ 40 - 1)"
    using Cons.prems(2) by (simp only: scope_settle_fields ep peek_debit_if)
  moreover have "unat (window_peek (sc_c_cost_daily (snd (settle_run cal ?s' us))) ep) =
      min (unat (window_peek (sc_c_cost_daily ?s') ep) + total_cost us) (2 ^ 40 - 1)"
    using Cons.prems by (intro Cons.IH) auto
  moreover have "total_cost (u # us) = unat cost + total_cost us" by (simp add: u total_cost_def)
  ultimately show ?case by (simp add: u Let_def case_prod_beta)
qed

section \<open>Properties\<close>

subsection \<open>Further facts\<close>

text \<open>
  A window's cost cap resolves to an error exactly when it is authored in both units, in local currency without a rate, or with a rate of zero; and a non-empty policy whose caps do not resolve is compiled to caps of zero, so a hard budget refuses everything rather than nothing.
\<close>

lemma authored_caps_fail_closed:
  "(\<exists>e. resolve_window b micro authored = Inl e) \<longleftrightarrow>
     authored \<noteq> None \<and> (micro \<noteq> None \<or> bl_fx_units_per_usd b = None \<or> bl_fx_units_per_usd b = Some 0)"
  "resolved_cost_caps b = Inl e \<Longrightarrow> lp_budget p = Some b \<Longrightarrow> from_policy scope p fid n = Some s \<Longrightarrow>
     sc_cost_daily s = Some 0 \<and> sc_cost_monthly s = Some 0"
proof -
  show "(\<exists>e. resolve_window b micro authored = Inl e) \<longleftrightarrow>
      authored \<noteq> None \<and> (micro \<noteq> None \<or> bl_fx_units_per_usd b = None \<or> bl_fx_units_per_usd b = Some 0)"
    by (cases micro; cases authored; cases "bl_fx_units_per_usd b")
      (simp_all add: resolve_window_def convert_authored_def)
  assume caps: "resolved_cost_caps b = Inl e" "lp_budget p = Some b" "from_policy scope p fid n = Some s"
  then have "\<not> limit_policy_is_empty p" using from_policy_None [of scope p fid n] by simp
  with caps show "sc_cost_daily s = Some 0 \<and> sc_cost_monthly s = Some 0"
    unfolding from_policy_def Let_def clamp_share_def share_per_replica_def
    by clarsimp (simp add: div_ceil_def)
qed

text \<open>
  A policy that sets a limit always compiles to an enforced slot; the request cap each of n replicas enforces times n is at least the configured limit, and one request less per replica would fall short of it, so the fleet as a whole over-admits by less than one request per replica.
\<close>

lemma replica_shares_cover:
  assumes "from_policy scope p fid n = Some s" and "lp_rate p = Some r" and "rl_requests_per_min r = Some v"
    and "v \<le> COUNT_MASK" and "1 \<le> n"
  shows "\<exists>c. sc_requests_per_min s = Some c \<and> unat v \<le> unat c * unat n \<and> (v \<noteq> 0 \<longrightarrow> (unat c - 1) * unat n < unat v)"
proof -
  define c where "c = (if n \<le> 1 then v else div_ceil v (ucast n))"
  have n: "unat (ucast n :: u64) = unat n"
    by (simp add: unsigned_ucast_eq take_bit_nat_eq_self unsigned_less [THEN less_trans])
  have n1: "1 \<le> unat n" using assms(5) by (simp add: word_le_nat_alt)
  then have nz: "(ucast n :: u64) \<noteq> 0" using n by (metis not_one_le_zero unat_0)
  have c: "unat c = (unat v + unat n - 1) div unat n"
  proof (cases "n \<le> 1")
    case True
    then have "unat n = 1" using n1 by (simp add: word_le_nat_alt)
    then show ?thesis using True by (simp add: c_def)
  next
    case False
    then show ?thesis using unat_div_ceil [OF nz, of v] by (simp add: c_def n)
  qed
  have ceil: "unat v \<le> (unat v + unat n - 1) div unat n * unat n"
    "unat v \<noteq> 0 \<Longrightarrow> ((unat v + unat n - 1) div unat n - 1) * unat n < unat v"
    "(unat v + unat n - 1) div unat n \<le> unat v"
    using nat_ceil_bounds [OF n1, of "unat v"] by blast+
  then have "c \<le> COUNT_MASK" using assms(4) c by (simp add: word_le_nat_alt)
  then have "min c COUNT_MASK = c" by simp
  then have "sc_requests_per_min s = Some c"
    using assms(1-3) by (auto simp: from_policy_def clamp_share_def share_per_replica_def c_def Let_def
        split: if_splits prod.splits)
  then show ?thesis using ceil c by (auto simp: unat_eq_zero)
qed

text \<open>
  Whatever is settled on a slot during one local day, at most one daily spend alert is returned, and none once the day's alert has fired.
\<close>

lemma one_daily_alert:
  assumes "\<forall>(now, _, _) \<in> set us. day_epoch now (sc_anchor_offset_minutes s) = ep"
  shows "length (filter (\<lambda>a. sa_period a = Daily) (fst (settle_run cal s us))) \<le>
    (if has_fired ep (sc_soft_alerted_cost_daily s) then 0 else 1)"
  by (rule settle_run_daily_alerts [OF assms])

text \<open>
  A budget that is authored only in a local currency resolves to a micro-USD cap but is never enforced: the emptiness test looks at the micro-USD and token fields alone, so the policy compiles to no slot at all and the spend is uncapped.
\<close>

lemma local_currency_budget_dropped:
  assumes "lp_budget p = Some b" and "lp_rate p = None" and "bl_cost_micro_usd_daily b = None"
    and "bl_cost_micro_usd_monthly b = None" and "bl_tokens_daily b = None" and "bl_tokens_monthly b = None"
    and "bl_authored_cost_daily b = Some a" and "bl_fx_units_per_usd b = Some rate" and "rate \<noteq> 0"
  shows "\<exists>m. resolved_cost_caps b = Inr (Some (sat_mul a 1000000 div rate), m)" and "from_policy scope p fid n = None"
proof -
  show "\<exists>m. resolved_cost_caps b = Inr (Some (sat_mul a 1000000 div rate), m)"
    using assms by (cases "bl_authored_cost_monthly b")
      (simp_all add: resolved_cost_caps_def resolve_window_def convert_authored_def)
  show "from_policy scope p fid n = None"
    using assms by (simp add: from_policy_None limit_policy_is_empty_def budget_limits_is_empty_def)
qed

end
