(* ===== verification/Limit_Registry.thy ===== *)
theory Limit_Registry
  imports Limit_Scope Rust_Strings
begin

text \<open>
  \<^verbatim>\<open>LimitRegistry\<close> and \<^verbatim>\<open>LimitGuards\<close> of \<^verbatim>\<open>crates/limits/src/lib.rs\<close>. Counter slots are shared
  through \<^verbatim>\<open>Arc\<close>s: a guard keeps the slot it resolved even after the registry is replaced,
  and a replacement may reuse a slot. So the slots live in a store, and snapshots and guards
  hold their addresses. A hash map that is iterated (the per-model policies of a key) is the
  list of its entries in the order the iterator yields them.
\<close>

record key_limits =
  kl_key :: "limit_policy option"
  kl_tenant :: "limit_policy option"
  kl_model_limits :: "(string \<times> limit_policy) list"

definition model_limits_is_empty :: "key_limits \<Rightarrow> bool" where
  "model_limits_is_empty k \<longleftrightarrow>
     kl_model_limits k = [] \<or> list_all (\<lambda>(_, p). limit_policy_is_empty p) (kl_model_limits k)"

definition key_limits_is_empty :: "key_limits \<Rightarrow> bool" where
  "key_limits_is_empty k \<longleftrightarrow>
     (case kl_key k of None \<Rightarrow> True | Some p \<Rightarrow> limit_policy_is_empty p) \<and>
     (case kl_tenant k of None \<Rightarrow> True | Some p \<Rightarrow> limit_policy_is_empty p) \<and>
     model_limits_is_empty k"

record key_limits_input =
  ki_routeplane_key :: string
  ki_tenant_id :: string
  ki_limits :: key_limits

type_synonym slot = nat
type_synonym store = "scope_counters list"
type_synonym model_rows = "(string \<times> slot) list"

record registry_snapshot =
  key_counters :: "string \<rightharpoonup> slot"
  tenant_counters :: "string \<rightharpoonup> slot"
  model_counters :: "string \<rightharpoonup> model_rows"

record limit_registry =
  inner :: registry_snapshot
  max_replicas :: u32

definition snapshot_default :: registry_snapshot where
  "snapshot_default = \<lparr>key_counters = Map.empty, tenant_counters = Map.empty, model_counters = Map.empty\<rparr>"

definition registry_empty :: limit_registry where
  "registry_empty = \<lparr>inner = snapshot_default, max_replicas = 1\<rparr>"

definition alloc :: "store \<Rightarrow> scope_counters \<Rightarrow> slot \<times> store" where
  "alloc st s = (length st, st @ [s])"

text \<open>The comparison of \<^verbatim>\<open>rows.sort_by\<close>: longer patterns first, then by bytes; the sort is stable.\<close>

definition row_before :: "string \<times> 'a \<Rightarrow> string \<times> 'a \<Rightarrow> bool" where
  "row_before a b \<longleftrightarrow>
     length (fst b) < length (fst a) \<or> (length (fst a) = length (fst b) \<and> str_less (fst a) (fst b))"

fun insert_row :: "string \<times> 'a \<Rightarrow> (string \<times> 'a) list \<Rightarrow> (string \<times> 'a) list" where
  "insert_row x [] = [x]"
| "insert_row x (y # ys) = (if row_before y x then y # insert_row x ys else x # y # ys)"

fun sort_rows :: "(string \<times> 'a) list \<Rightarrow> (string \<times> 'a) list" where
  "sort_rows [] = []"
| "sort_rows (x # xs) = insert_row x (sort_rows xs)"

fun build_rows ::
  "string \<Rightarrow> u32 \<Rightarrow> store \<Rightarrow> (string \<times> limit_policy) list \<Rightarrow> model_rows \<times> store" where
  "build_rows key replicas st [] = ([], st)"
| "build_rows key replicas st ((pattern, policy) # es) =
     (let pat = trim pattern in
      if pat = [] \<or> limit_policy_is_empty policy then build_rows key replicas st es
      else (case from_policy ModelScope policy (''model:'' @ key @ '':'' @ pat) replicas of
              None \<Rightarrow> build_rows key replicas st es
            | Some sc \<Rightarrow>
                (let (i, st') = alloc st sc; (rows, st'') = build_rows key replicas st' es
                 in ((pat, i) # rows, st''))))"

definition build_key :: "u32 \<Rightarrow> key_limits_input \<Rightarrow> registry_snapshot \<times> store \<Rightarrow> registry_snapshot \<times> store" where
  "build_key replicas e s =
     (case kl_key (ki_limits e) of
        None \<Rightarrow> s
      | Some p \<Rightarrow>
          (case from_policy KeyScope p (''key:'' @ ki_routeplane_key e) replicas of
             None \<Rightarrow> s
           | Some sc \<Rightarrow>
               (let (i, st') = alloc (snd s) sc
                in ((fst s)\<lparr>key_counters := (key_counters (fst s))(ki_routeplane_key e \<mapsto> i)\<rparr>, st'))))"

definition build_tenant :: "u32 \<Rightarrow> key_limits_input \<Rightarrow> registry_snapshot \<times> store \<Rightarrow> registry_snapshot \<times> store" where
  "build_tenant replicas e s =
     (case kl_tenant (ki_limits e) of
        None \<Rightarrow> s
      | Some p \<Rightarrow>
          if tenant_counters (fst s) (ki_tenant_id e) \<noteq> None then s
          else
          (case from_policy TenantScope p (''tenant:'' @ ki_tenant_id e) replicas of
             None \<Rightarrow> s
           | Some sc \<Rightarrow>
               (let (i, st') = alloc (snd s) sc
                in ((fst s)\<lparr>tenant_counters := (tenant_counters (fst s))(ki_tenant_id e \<mapsto> i)\<rparr>, st'))))"

definition build_model :: "u32 \<Rightarrow> key_limits_input \<Rightarrow> registry_snapshot \<times> store \<Rightarrow> registry_snapshot \<times> store" where
  "build_model replicas e s =
     (if model_limits_is_empty (ki_limits e) then s
      else (let (rows, st') = build_rows (ki_routeplane_key e) replicas (snd s) (kl_model_limits (ki_limits e))
            in if rows = [] then (fst s, st')
               else ((fst s)\<lparr>model_counters :=
                        (model_counters (fst s))(ki_routeplane_key e \<mapsto> sort_rows rows)\<rparr>, st')))"

definition build_entry :: "u32 \<Rightarrow> registry_snapshot \<times> store \<Rightarrow> key_limits_input \<Rightarrow> registry_snapshot \<times> store" where
  "build_entry replicas s e =
     (if key_limits_is_empty (ki_limits e) then s
      else build_model replicas e (build_tenant replicas e (build_key replicas e s)))"

definition build_with_replicas ::
  "store \<Rightarrow> key_limits_input list \<Rightarrow> u32 \<Rightarrow> limit_registry \<times> store" where
  "build_with_replicas st entries replicas =
     (let (snap, st') = foldl (build_entry replicas) (snapshot_default, st) entries
      in (\<lparr>inner = snap, max_replicas = replicas\<rparr>, st'))"

definition registry_build :: "store \<Rightarrow> key_limits_input list \<Rightarrow> limit_registry \<times> store" where
  "registry_build st entries = build_with_replicas st entries 1"

section \<open>Replacement\<close>

definition registry_replace :: "store \<Rightarrow> limit_registry \<Rightarrow> key_limits_input list \<Rightarrow> limit_registry \<times> store" where
  "registry_replace st reg entries =
     (let (built, st') = build_with_replicas st entries (max_replicas reg)
      in (reg\<lparr>inner := inner built\<rparr>, st'))"

text \<open>Point an unchanged scope back at its prior slot.\<close>

definition keep_slot :: "store \<Rightarrow> slot option \<Rightarrow> slot \<Rightarrow> slot" where
  "keep_slot st prev i =
     (case prev of
        None \<Rightarrow> i
      | Some j \<Rightarrow> if same_policy (st ! i) (st ! j) then j else i)"

definition preserve_scope_counters :: "store \<Rightarrow> (string \<rightharpoonup> slot) \<Rightarrow> (string \<rightharpoonup> slot) \<Rightarrow> (string \<rightharpoonup> slot)" where
  "preserve_scope_counters st next prev = (\<lambda>k. map_option (keep_slot st (prev k)) (next k))"

definition preserve_rows :: "store \<Rightarrow> model_rows \<Rightarrow> model_rows \<Rightarrow> model_rows" where
  "preserve_rows st prev_rows rows =
     map (\<lambda>(pat, i). (pat, keep_slot st (map_option snd (find (\<lambda>r. fst r = pat) prev_rows)) i)) rows"

definition replace_preserving_counters ::
  "store \<Rightarrow> limit_registry \<Rightarrow> key_limits_input list \<Rightarrow> limit_registry \<times> store" where
  "replace_preserving_counters st reg entries =
     (let (built, st') = build_with_replicas st entries (max_replicas reg);
          prev = inner reg;
          next = inner built;
          next = next\<lparr>key_counters := preserve_scope_counters st' (key_counters next) (key_counters prev)\<rparr>;
          next = next\<lparr>tenant_counters :=
                        preserve_scope_counters st' (tenant_counters next) (tenant_counters prev)\<rparr>;
          next = next\<lparr>model_counters := (\<lambda>k. map_option (\<lambda>rows.
                        (case model_counters prev k of
                           None \<Rightarrow> rows | Some prev_rows \<Rightarrow> preserve_rows st' prev_rows rows))
                        (model_counters next k))\<rparr>
      in (reg\<lparr>inner := next\<rparr>, st'))"

section \<open>Guards\<close>

record limit_guards =
  lg_key :: "slot option"
  lg_tenant :: "slot option"
  lg_model :: "slot option"

definition limit_resolve :: "limit_registry \<Rightarrow> string \<Rightarrow> string \<Rightarrow> limit_guards" where
  "limit_resolve reg routeplane_key tenant_id =
     \<lparr>lg_key = key_counters (inner reg) routeplane_key,
      lg_tenant = tenant_counters (inner reg) tenant_id, lg_model = None\<rparr>"

definition resolve_for_model :: "limit_registry \<Rightarrow> string \<Rightarrow> string \<Rightarrow> string \<Rightarrow> limit_guards" where
  "resolve_for_model reg routeplane_key tenant_id served_model =
     (let model = Option.bind (model_counters (inner reg) routeplane_key)
                    (\<lambda>rows. map_option snd (find (\<lambda>(pat, _). contains served_model pat) rows))
      in \<lparr>lg_key = key_counters (inner reg) routeplane_key,
          lg_tenant = tenant_counters (inner reg) tenant_id, lg_model = model\<rparr>)"

definition is_unlimited :: "limit_guards \<Rightarrow> bool" where
  "is_unlimited g \<longleftrightarrow> lg_key g = None \<and> lg_tenant g = None \<and> lg_model g = None"

definition option_list :: "'a option \<Rightarrow> 'a list" where
  "option_list x = (case x of None \<Rightarrow> [] | Some y \<Rightarrow> [y])"

definition guard_scopes :: "limit_guards \<Rightarrow> slot list" where
  "guard_scopes g = option_list (lg_key g) @ option_list (lg_tenant g) @ option_list (lg_model g)"

fun check_scopes :: "calendar \<Rightarrow> store \<Rightarrow> slot list \<Rightarrow> u64 \<Rightarrow> breach option" where
  "check_scopes cal st [] now_ms = None"
| "check_scopes cal st (i # is) now_ms =
     (case scope_check cal (st ! i) now_ms of
        Some b \<Rightarrow> Some b
      | None \<Rightarrow> check_scopes cal st is now_ms)"

fun consume_scopes :: "store \<Rightarrow> slot list \<Rightarrow> u64 \<Rightarrow> breach option \<times> store" where
  "consume_scopes st [] now_ms = (None, st)"
| "consume_scopes st (i # is) now_ms =
     (case consume_request (st ! i) now_ms of
        (Some b, s') \<Rightarrow> (Some b, st[i := s'])
      | (None, s') \<Rightarrow> consume_scopes (st[i := s']) is now_ms)"

definition guards_advisory :: "calendar \<Rightarrow> store \<Rightarrow> limit_guards \<Rightarrow> u64 \<Rightarrow> advisory" where
  "guards_advisory cal st g now_ms =
     foldl (\<lambda>a i. contribute_advisory cal (st ! i) now_ms a) advisory_default (guard_scopes g)"

definition guards_admit :: "calendar \<Rightarrow> store \<Rightarrow> limit_guards \<Rightarrow> u64 \<Rightarrow> admission \<times> store" where
  "guards_admit cal st g now_ms =
     (case check_scopes cal st (guard_scopes g) now_ms of
        Some b \<Rightarrow> (Denied b, st)
      | None \<Rightarrow>
          (case consume_scopes st (guard_scopes g) now_ms of
             (Some b, st') \<Rightarrow> (Denied b, st')
           | (None, st') \<Rightarrow> (Allowed (guards_advisory cal st' g now_ms), st')))"

definition guards_check_only :: "calendar \<Rightarrow> store \<Rightarrow> limit_guards \<Rightarrow> u64 \<Rightarrow> admission" where
  "guards_check_only cal st g now_ms =
     (case check_scopes cal st (guard_scopes g) now_ms of
        Some b \<Rightarrow> Denied b
      | None \<Rightarrow> Allowed (guards_advisory cal st g now_ms))"

record request_rate_spec =
  rs_scope :: limit_scope
  rs_policy_id :: string
  rs_identity :: string
  rs_limit :: u64
  rs_hard :: bool

definition request_rate_specs :: "store \<Rightarrow> limit_guards \<Rightarrow> request_rate_spec list" where
  "request_rate_specs st g =
     List.map_filter (\<lambda>i. let s = st ! i in
       map_option (\<lambda>limit. \<lparr>rs_scope = sc_scope s, rs_policy_id = sc_policy_id s,
         rs_identity = sc_identity s, rs_limit = limit, rs_hard = is_hard (sc_rate_mode s)\<rparr>)
         (sc_req_per_min_global s)) (guard_scopes g)"

fun settle_scopes ::
  "calendar \<Rightarrow> store \<Rightarrow> slot list \<Rightarrow> u64 \<Rightarrow> u64 \<Rightarrow> u64 \<Rightarrow> spend_alert list \<times> store" where
  "settle_scopes cal st [] now_ms tok cost = ([], st)"
| "settle_scopes cal st (i # is) now_ms tok cost =
     (let (a, s') = scope_settle cal (st ! i) now_ms tok cost;
          (as, st') = settle_scopes cal (st[i := s']) is now_ms tok cost
      in (case a of None \<Rightarrow> as | Some x \<Rightarrow> x # as, st'))"

definition guards_settle ::
  "calendar \<Rightarrow> store \<Rightarrow> limit_guards \<Rightarrow> u64 \<Rightarrow> u64 \<Rightarrow> u64 \<Rightarrow> spend_alert list \<times> store" where
  "guards_settle cal st g now_ms tok cost = settle_scopes cal st (guard_scopes g) now_ms tok cost"

definition guards_warning :: "calendar \<Rightarrow> store \<Rightarrow> limit_guards \<Rightarrow> u64 \<Rightarrow> budget_warning option" where
  "guards_warning cal st g now_ms =
     foldl (\<lambda>best i.
       (case scope_warning cal (st ! i) now_ms of
          None \<Rightarrow> best
        | Some w \<Rightarrow>
            (case best of
               None \<Rightarrow> Some w
             | Some b \<Rightarrow> if sa_consumed_permille b < sa_consumed_permille w then Some w else best)))
       None (guard_scopes g)"

section \<open>The two phases of admission\<close>

lemma check_scopes_None:
  "check_scopes cal st is now = None \<longleftrightarrow> (\<forall>i \<in> set is. scope_check cal (st ! i) now = None)"
  by (induction "is") (auto split: option.splits)

text \<open>A guard is usable in a store when its slots are distinct and exist.\<close>

definition slots_ok :: "store \<Rightarrow> slot list \<Rightarrow> bool" where
  "slots_ok st is \<longleftrightarrow> distinct is \<and> (\<forall>i \<in> set is. i < length st)"

lemma length_consume_scopes [simp]: "length (snd (consume_scopes st is now)) = length st"
  by (induction st "is" now rule: consume_scopes.induct) (auto split: prod.splits option.splits)

lemma consume_scopes_other: "j \<notin> set is \<Longrightarrow> snd (consume_scopes st is now) ! j = st ! j"
  by (induction st "is" now rule: consume_scopes.induct) (auto split: prod.splits option.splits)

lemma consume_scopes_nth:
  assumes "slots_ok st is" and "j \<in> set is"
  shows "snd (consume_scopes st is now) ! j \<in> {st ! j, snd (consume_request (st ! j) now)}"
  using assms
proof (induction st "is" now rule: consume_scopes.induct)
  case (2 st i js now)
  obtain r s' where cr: "consume_request (st ! i) now = (r, s')" by fastforce
  show ?case
  proof (cases "j = i")
    case True
    then have "j \<notin> set js" "j < length st" using "2.prems" by (auto simp: slots_ok_def)
    then show ?thesis using cr True by (auto simp: consume_scopes_other split: option.splits)
  next
    case False
    then show ?thesis using "2.IH" [OF cr [symmetric]] "2.prems" cr
      by (auto simp: slots_ok_def split: option.splits)
  qed
qed simp

text \<open>The second phase admits exactly when every scope has a free request slot, and then uses each once.\<close>

lemma consume_scopes_None:
  assumes "slots_ok st is"
  shows "fst (consume_scopes st is now) = None \<longleftrightarrow> (\<forall>i \<in> set is. fst (consume_request (st ! i) now) = None)"
  using assms
proof (induction st "is" now rule: consume_scopes.induct)
  case (2 st i js now)
  obtain r s' where cr: "consume_request (st ! i) now = (r, s')" by fastforce
  show ?case
  proof (cases r)
    case None
    have "slots_ok (st[i := s']) js" "i \<notin> set js" using "2.prems" by (auto simp: slots_ok_def)
    moreover from this have "\<forall>k \<in> set js. st[i := s'] ! k = st ! k" by (metis nth_list_update_neq)
    ultimately show ?thesis using "2.IH" [OF cr [symmetric] None] cr None by simp
  next
    case (Some b)
    then show ?thesis using cr by auto
  qed
qed simp

lemma consume_scopes_all:
  assumes "slots_ok st is" and "fst (consume_scopes st is now) = None" and "j \<in> set is"
  shows "snd (consume_scopes st is now) ! j = snd (consume_request (st ! j) now)"
  using assms
proof (induction st "is" now rule: consume_scopes.induct)
  case (2 st i js now)
  obtain r s' where cr: "consume_request (st ! i) now = (r, s')" by fastforce
  then have r: "r = None" using "2.prems"(2) by (auto split: option.splits)
  have ok: "slots_ok (st[i := s']) js" "i \<notin> set js" using "2.prems"(1) by (auto simp: slots_ok_def)
  show ?case
  proof (cases "j = i")
    case True
    then have "j \<notin> set js" "j < length st" using "2.prems"(1) by (auto simp: slots_ok_def)
    then show ?thesis using cr r True by (simp add: consume_scopes_other)
  next
    case False
    then show ?thesis using "2.IH" [OF cr [symmetric] r ok(1)] "2.prems" cr r by simp
  qed
qed simp

lemma guards_admit_cases:
  obtains (budget) b where "check_scopes cal st (guard_scopes g) now = Some b"
      "guards_admit cal st g now = (Denied b, st)"
  | (full) b where "check_scopes cal st (guard_scopes g) now = None"
      "fst (consume_scopes st (guard_scopes g) now) = Some b"
      "guards_admit cal st g now = (Denied b, snd (consume_scopes st (guard_scopes g) now))"
  | (allowed) a where "check_scopes cal st (guard_scopes g) now = None"
      "fst (consume_scopes st (guard_scopes g) now) = None"
      "guards_admit cal st g now = (Allowed a, snd (consume_scopes st (guard_scopes g) now))"
  by (cases "check_scopes cal st (guard_scopes g) now"; cases "consume_scopes st (guard_scopes g) now")
    (auto simp: guards_admit_def split: option.splits)

definition is_allowed :: "admission \<Rightarrow> bool" where
  "is_allowed a \<longleftrightarrow> (case a of Allowed _ \<Rightarrow> True | Denied _ \<Rightarrow> False)"

lemma is_allowed_simps [simp]: "is_allowed (Allowed a)" "\<not> is_allowed (Denied b)"
  by (simp_all add: is_allowed_def)

lemma guards_admit_iff:
  assumes "slots_ok st (guard_scopes g)"
  shows "is_allowed (fst (guards_admit cal st g now)) \<longleftrightarrow>
    (\<forall>i \<in> set (guard_scopes g). scope_check cal (st ! i) now = None \<and> fst (consume_request (st ! i) now) = None)"
  using check_scopes_None [of cal st "guard_scopes g" now] consume_scopes_None [OF assms, of now]
  by (cases rule: guards_admit_cases [of cal st g now]) auto

section \<open>Settling through a guard\<close>

lemma length_settle_scopes [simp]: "length (snd (settle_scopes cal st is now tok cost)) = length st"
  by (induction cal st "is" now tok cost rule: settle_scopes.induct) (auto simp: Let_def split: prod.splits)

lemma settle_scopes_other: "j \<notin> set is \<Longrightarrow> snd (settle_scopes cal st is now tok cost) ! j = st ! j"
  by (induction cal st "is" now tok cost rule: settle_scopes.induct) (auto simp: Let_def split: prod.splits)

lemma settle_scopes_nth:
  assumes "slots_ok st is" and "j \<in> set is"
  shows "snd (settle_scopes cal st is now tok cost) ! j = snd (scope_settle cal (st ! j) now tok cost)"
  using assms
proof (induction cal st "is" now tok cost rule: settle_scopes.induct)
  case (2 cal st i js now tok cost)
  obtain a s' where cr: "scope_settle cal (st ! i) now tok cost = (a, s')" by fastforce
  show ?case
  proof (cases "j = i")
    case True
    then have "j \<notin> set js" "j < length st" using "2.prems" by (auto simp: slots_ok_def)
    then show ?thesis using cr True by (simp add: settle_scopes_other Let_def case_prod_beta)
  next
    case False
    then show ?thesis using "2.IH" [OF cr [symmetric] refl] "2.prems" cr
      by (auto simp: slots_ok_def Let_def split: prod.splits)
  qed
qed simp

section \<open>A replica's requests\<close>

datatype limit_event = Admit limit_guards u64 | Settle limit_guards u64 u64 u64

fun event_guard :: "limit_event \<Rightarrow> limit_guards" where
  "event_guard (Admit g _) = g" | "event_guard (Settle g _ _ _) = g"

fun event_now :: "limit_event \<Rightarrow> u64" where
  "event_now (Admit _ now) = now" | "event_now (Settle _ now _ _) = now"

fun limit_step :: "calendar \<Rightarrow> store \<Rightarrow> limit_event \<Rightarrow> admission option \<times> store" where
  "limit_step cal st (Admit g now) = (let (a, st') = guards_admit cal st g now in (Some a, st'))"
| "limit_step cal st (Settle g now tok cost) =
     (let (_, st') = guards_settle cal st g now tok cost in (None, st'))"

fun limit_run :: "calendar \<Rightarrow> store \<Rightarrow> limit_event list \<Rightarrow> admission option list \<times> store" where
  "limit_run cal st [] = ([], st)"
| "limit_run cal st (e # es) =
     (let (a, st') = limit_step cal st e; (as, st'') = limit_run cal st' es in (a # as, st''))"

definition events_ok :: "store \<Rightarrow> limit_event list \<Rightarrow> bool" where
  "events_ok st es \<longleftrightarrow> (\<forall>e \<in> set es. slots_ok st (guard_scopes (event_guard e)))"

lemma length_limit_step [simp]: "length (snd (limit_step cal st e)) = length st"
proof (cases e)
  case (Admit g now)
  then show ?thesis by (cases rule: guards_admit_cases [of cal st g now]) auto
next
  case (Settle g now tok cost)
  then show ?thesis by (simp add: guards_settle_def case_prod_beta)
qed

lemma slots_ok_step [simp]: "slots_ok (snd (limit_step cal st e)) is = slots_ok st is"
  by (simp add: slots_ok_def)

text \<open>How one event moves one slot: not at all, by one request, or by one settlement.\<close>

lemma limit_step_slot:
  assumes "slots_ok st (guard_scopes (event_guard e))"
  obtains (same) "snd (limit_step cal st e) ! i = st ! i"
      "\<And>g now. e = Admit g now \<Longrightarrow> i \<in> set (guard_scopes g) \<Longrightarrow> \<not> is_allowed (the (fst (limit_step cal st e)))"
      "\<And>g now tok cost. e = Settle g now tok cost \<Longrightarrow> i \<notin> set (guard_scopes g)"
  | (request) g now where "e = Admit g now" "i \<in> set (guard_scopes g)"
      "snd (limit_step cal st e) ! i = snd (consume_request (st ! i) now)"
      "is_allowed (the (fst (limit_step cal st e))) \<Longrightarrow> fst (consume_request (st ! i) now) = None"
  | (settled) g now tok cost where "e = Settle g now tok cost" "i \<in> set (guard_scopes g)"
      "snd (limit_step cal st e) ! i = snd (scope_settle cal (st ! i) now tok cost)"
proof (cases e)
  case (Admit g now)
  have ok: "slots_ok st (guard_scopes g)" using assms Admit by simp
  show thesis
  proof (cases "i \<in> set (guard_scopes g)")
    case False
    then show thesis using Admit same
      by (cases rule: guards_admit_cases [of cal st g now]) (auto simp: consume_scopes_other)
  next
    case True
    show thesis
    proof (cases rule: guards_admit_cases [of cal st g now])
      case (budget b)
      then show thesis using Admit same by auto
    next
      case (full b)
      then show thesis using Admit True same request consume_scopes_nth [OF ok True, of now] by auto
    next
      case (allowed a)
      then show thesis
        using Admit True request consume_scopes_all [OF ok _ True] consume_scopes_None [OF ok] by auto
    qed
  qed
next
  case (Settle g now tok cost)
  then show thesis
    using assms same settled settle_scopes_nth [of st "guard_scopes g" i cal now tok cost]
    by (cases "i \<in> set (guard_scopes g)") (auto simp: guards_settle_def case_prod_beta settle_scopes_other)
qed

section \<open>Runs\<close>

lemma limit_run_Cons:
  "limit_run cal st (e # es) =
     (fst (limit_step cal st e) # fst (limit_run cal (snd (limit_step cal st e)) es),
      snd (limit_run cal (snd (limit_step cal st e)) es))"
  by (simp add: case_prod_beta)

declare limit_run.simps(2) [simp del] limit_run_Cons [simp]

text \<open>Requests admitted through a slot during a run.\<close>

fun admitted_through :: "slot \<Rightarrow> limit_event list \<Rightarrow> admission option list \<Rightarrow> nat" where
  "admitted_through i (Admit g now # es) (Some a # as) =
     (if i \<in> set (guard_scopes g) \<and> is_allowed a then 1 else 0) + admitted_through i es as"
| "admitted_through i (Settle g now tok cost # es) (_ # as) = admitted_through i es as"
| "admitted_through i _ _ = 0"

text \<open>Costs settled through a slot during a run.\<close>

fun settled_cost :: "slot \<Rightarrow> limit_event list \<Rightarrow> nat" where
  "settled_cost i [] = 0"
| "settled_cost i (Admit g now # es) = settled_cost i es"
| "settled_cost i (Settle g now tok cost # es) =
     (if i \<in> set (guard_scopes g) then unat cost else 0) + settled_cost i es"

lemma scope_config_consume [simp]: "scope_config (snd (consume_request s now)) = scope_config s"
  by (subst consume_request_frame) (simp add: scope_config_def)

lemma limit_step_config:
  assumes "slots_ok st (guard_scopes (event_guard e))"
  shows "scope_config (snd (limit_step cal st e) ! i) = scope_config (st ! i)"
  using assms by (cases rule: limit_step_slot [of st e cal i]) (simp_all add: scope_settle_fields)

lemma config_eqs:
  assumes "scope_config s = scope_config t"
  shows "sc_requests_per_min s = sc_requests_per_min t" and "sc_rate_mode s = sc_rate_mode t"
    and "sc_budget_mode s = sc_budget_mode t" and "sc_cost_daily s = sc_cost_daily t"
    and "sc_anchor_offset_minutes s = sc_anchor_offset_minutes t" and "sc_scope s = sc_scope t"
    and "sc_identity s = sc_identity t"
  using assms
  by (cases s; cases t; simp add: scope_config_def)+

lemma events_ok_Cons:
  "events_ok st (e # es) \<longleftrightarrow>
     slots_ok st (guard_scopes (event_guard e)) \<and> events_ok (snd (limit_step cal st e)) es"
  by (simp add: events_ok_def slots_ok_def)

lemma limit_run_config:
  assumes "events_ok st es"
  shows "scope_config (snd (limit_run cal st es) ! i) = scope_config (st ! i)"
  using assms
proof (induction es arbitrary: st)
  case (Cons e es)
  then show ?case using limit_step_config [of st e cal i] events_ok_Cons [of st e es cal]
    by simp
qed simp

lemma length_limit_run [simp]: "length (snd (limit_run cal st es)) = length st"
  by (induction es arbitrary: st) simp_all

text \<open>A slot that no guard of a run holds is left as it was.\<close>

lemma limit_run_frame:
  assumes "events_ok st es" and "\<forall>e \<in> set es. i \<notin> set (guard_scopes (event_guard e))"
  shows "snd (limit_run cal st es) ! i = st ! i"
  using assms
proof (induction es arbitrary: st)
  case (Cons e es)
  have ok: "slots_ok st (guard_scopes (event_guard e))" using Cons.prems(1) events_ok_Cons by auto
  have "snd (limit_step cal st e) ! i = st ! i"
  proof (cases rule: limit_step_slot [OF ok, of cal i])
    case 1
    then show ?thesis using Cons.prems by simp
  qed (use Cons.prems in \<open>auto simp: events_ok_def\<close>)
  then show ?case using Cons.IH [of "snd (limit_step cal st e)"] Cons.prems events_ok_Cons [of st e es cal]
    by simp
qed simp

lemma consume_request_grows:
  "window_peek (sc_c_req s) (minute_epoch now) \<le>
    window_peek (sc_c_req (snd (consume_request s now))) (minute_epoch now)"
proof (cases "fst (consume_request s now)")
  case None
  show ?thesis
  proof (cases "sc_requests_per_min s")
    case None
    then show ?thesis by (simp add: consume_request_def)
  next
    case (Some l)
    have "unat (window_peek (sc_c_req s) (minute_epoch now)) \<le> 2 ^ 40 - 1"
      using window_peek_bound [of "sc_c_req s" "minute_epoch now"] by (simp add: le_COUNT_MASK)
    then show ?thesis
      using consume_request_counts [OF None Some] by (simp add: word_le_nat_alt)
  qed
next
  case (Some b)
  then show ?thesis by (simp add: consume_request_denied)
qed

text \<open>
  A hard per-minute request cap over a run: whatever guards share the slot, and however
  admissions and settlements interleave, no more requests pass than the cap leaves free.
\<close>

lemma admitted_within_cap:
  assumes "events_ok st es" and "sc_rate_mode (st ! i) = Hard"
    and "sc_requests_per_min (st ! i) = Some l" and "l \<le> COUNT_MASK"
    and "\<forall>e \<in> set es. minute_epoch (event_now e) = ep"
  shows "admitted_through i es (fst (limit_run cal st es)) \<le> unat l - unat (window_peek (sc_c_req (st ! i)) ep)"
  using assms(1-3,5)
proof (induction es arbitrary: st)
  case (Cons e es)
  let ?st = "snd (limit_step cal st e)"
  have ok: "slots_ok st (guard_scopes (event_guard e))" and ok': "events_ok ?st es"
    using Cons.prems(1) events_ok_Cons by auto
  note cfg = config_eqs [OF limit_step_config [OF ok, of cal i]]
  have IH: "admitted_through i es (fst (limit_run cal ?st es)) \<le>
      unat l - unat (window_peek (sc_c_req (?st ! i)) ep)"
    using Cons.prems cfg(1,2) by (intro Cons.IH [OF ok']) simp_all
  show ?case
  proof (cases rule: limit_step_slot [OF ok, of cal i])
    case 1
    have "admitted_through i (e # es) (fst (limit_run cal st (e # es))) = admitted_through i es (fst (limit_run cal ?st es))"
      using 1(2) by (cases e) (auto simp: case_prod_beta)
    then show ?thesis using IH 1(1) by simp
  next
    case (2 g now)
    have ep: "minute_epoch now = ep" using Cons.prems(4) 2(1) by auto
    show ?thesis
    proof (cases "is_allowed (the (fst (limit_step cal st e)))")
      case True
      have free: "window_peek (sc_c_req (st ! i)) ep < l"
        using 2(4) [OF True] consume_request_None [of "st ! i" now] Cons.prems(2,3) ep by simp
      have "unat (window_peek (sc_c_req (?st ! i)) ep) = unat (window_peek (sc_c_req (st ! i)) ep) + 1"
        using consume_request_counts [OF 2(4) [OF True] Cons.prems(3)] 2(3) ep free assms(4)
        by (simp add: word_less_nat_alt le_COUNT_MASK)
      moreover have "admitted_through i (e # es) (fst (limit_run cal st (e # es))) =
          Suc (admitted_through i es (fst (limit_run cal ?st es)))"
        using True 2(1,2) by (simp add: case_prod_beta)
      ultimately show ?thesis using IH free by (simp add: word_less_nat_alt)
    next
      case False
      have "admitted_through i (e # es) (fst (limit_run cal st (e # es))) = admitted_through i es (fst (limit_run cal ?st es))"
        using False 2(1) by (simp add: case_prod_beta)
      moreover have "unat (window_peek (sc_c_req (st ! i)) ep) \<le> unat (window_peek (sc_c_req (?st ! i)) ep)"
        using consume_request_grows [of "st ! i" now] 2(3) ep by (simp add: word_le_nat_alt)
      ultimately show ?thesis using IH by simp
    qed
  next
    case (3 g now tok cost)
    then show ?thesis using IH by (simp add: scope_settle_fields case_prod_beta)
  qed
qed simp

text \<open>Costs settled through a slot accumulate over a run within one day.\<close>

lemma run_daily_cost:
  assumes "events_ok st es" and "sc_cost_daily (st ! i) = Some l"
    and "\<forall>e \<in> set es. day_epoch (event_now e) (sc_anchor_offset_minutes (st ! i)) = ep"
  shows "unat (window_peek (sc_c_cost_daily (snd (limit_run cal st es) ! i)) ep) =
    min (unat (window_peek (sc_c_cost_daily (st ! i)) ep) + settled_cost i es) (2 ^ 40 - 1)"
  using assms
proof (induction es arbitrary: st)
  case Nil
  then show ?case
    using window_peek_bound [of "sc_c_cost_daily (st ! i)" ep] by (simp add: le_COUNT_MASK)
next
  case (Cons e es)
  let ?st = "snd (limit_step cal st e)"
  have ok: "slots_ok st (guard_scopes (event_guard e))" and ok': "events_ok ?st es"
    using Cons.prems(1) events_ok_Cons by auto
  note cfg = config_eqs [OF limit_step_config [OF ok, of cal i]]
  have IH: "unat (window_peek (sc_c_cost_daily (snd (limit_run cal ?st es) ! i)) ep) =
      min (unat (window_peek (sc_c_cost_daily (?st ! i)) ep) + settled_cost i es) (2 ^ 40 - 1)"
    using Cons.prems cfg by (intro Cons.IH [OF ok']) simp_all
  show ?case
  proof (cases rule: limit_step_slot [OF ok, of cal i])
    case 1
    have "settled_cost i (e # es) = settled_cost i es" using 1(3) by (cases e) auto
    then show ?thesis using IH 1(1) by simp
  next
    case (2 g now)
    have "sc_c_cost_daily (?st ! i) = sc_c_cost_daily (st ! i)"
      unfolding 2(3) by (subst consume_request_frame) simp
    then show ?thesis using IH 2(1) by simp
  next
    case (3 g now tok cost)
    have "unat (window_peek (sc_c_cost_daily (?st ! i)) ep) =
        min (unat (window_peek (sc_c_cost_daily (st ! i)) ep) + unat cost) (2 ^ 40 - 1)"
      using 3 Cons.prems(2,3) by (simp add: scope_settle_fields peek_debit_if)
    then show ?thesis using IH 3(1,2) by simp
  qed
qed

text \<open>Once a hard daily cost cap has been settled, every later request of the day is refused.\<close>

lemma spent_budget_refuses:
  assumes "events_ok st es" and "sc_budget_mode (st ! i) = Hard" and "sc_cost_daily (st ! i) = Some l"
    and "l \<le> COUNT_MASK" and "unat l \<le> settled_cost i es"
    and "\<forall>e \<in> set es. day_epoch (event_now e) (sc_anchor_offset_minutes (st ! i)) = ep"
    and "day_epoch now (sc_anchor_offset_minutes (st ! i)) = ep"
    and "i \<in> set (guard_scopes g)"
  shows "\<exists>b. guards_admit cal (snd (limit_run cal st es)) g now = (Denied b, snd (limit_run cal st es))"
proof -
  let ?st = "snd (limit_run cal st es)"
  note cfg = config_eqs [OF limit_run_config [OF assms(1), of cal i]]
  have "l \<le> window_peek (sc_c_cost_daily (?st ! i)) ep"
    using run_daily_cost [OF assms(1,3,6), of cal] assms(4,5)
    by (simp add: word_le_nat_alt unat_COUNT_MASK)
  then have "exhausted (sc_budget_mode (?st ! i), BudgetCost, sc_cost_daily (?st ! i),
      sc_c_cost_daily (?st ! i), day_epoch now (sc_anchor_offset_minutes (?st ! i)))"
    using assms(2,3,7) cfg by (simp add: exhausted_def hit_def)
  then have "scope_check cal (?st ! i) now \<noteq> None"
    unfolding scope_check_None by (auto simp: checked_caps_def)
  then have "check_scopes cal ?st (guard_scopes g) now \<noteq> None"
    using assms(8) check_scopes_None [of cal ?st "guard_scopes g" now] by auto
  then show ?thesis by (cases rule: guards_admit_cases [of cal ?st g now]) auto
qed

section \<open>The slots of a snapshot\<close>

text \<open>
  Every slot a snapshot names exists, carries the scope and identity it is filed under, and
  belongs to one key or one tenant only. \<^verbatim>\<open>lo\<close> bounds the slots from below: those of a fresh
  build are all new.
\<close>

definition filed :: "nat \<Rightarrow> store \<Rightarrow> limit_scope \<Rightarrow> string option \<Rightarrow> slot \<Rightarrow> bool" where
  "filed lo st scope fid i \<longleftrightarrow> lo \<le> i \<and> i < length st \<and> sc_scope (st ! i) = scope \<and>
     (case fid of None \<Rightarrow> True | Some f \<Rightarrow> sc_identity (st ! i) = f)"

definition row_slots :: "model_rows option \<Rightarrow> slot set" where
  "row_slots rows = (case rows of None \<Rightarrow> {} | Some rs \<Rightarrow> snd ` set rs)"

definition snap_ok :: "nat \<Rightarrow> store \<Rightarrow> registry_snapshot \<Rightarrow> bool" where
  "snap_ok lo st snap \<longleftrightarrow>
     (\<forall>k i. key_counters snap k = Some i \<longrightarrow> filed lo st KeyScope (Some (''key:'' @ k)) i) \<and>
     (\<forall>t i. tenant_counters snap t = Some i \<longrightarrow> filed lo st TenantScope (Some (''tenant:'' @ t)) i) \<and>
     (\<forall>k. \<forall>i \<in> row_slots (model_counters snap k). filed lo st ModelScope None i) \<and>
     (\<forall>k k'. k \<noteq> k' \<longrightarrow> row_slots (model_counters snap k) \<inter> row_slots (model_counters snap k') = {})"

lemma filed_append: "filed lo st sc f i \<Longrightarrow> filed lo (st @ xs) sc f i"
  by (auto simp: filed_def nth_append split: option.splits)

lemma filed_weaken: "filed lo st sc f i \<Longrightarrow> lo' \<le> lo \<Longrightarrow> filed lo' st sc f i"
  by (auto simp: filed_def)

lemma snap_ok_append: "snap_ok lo st snap \<Longrightarrow> snap_ok lo (st @ xs) snap"
  unfolding snap_ok_def by (blast intro: filed_append)

lemma snap_ok_default: "snap_ok lo st snapshot_default"
  by (simp add: snap_ok_def snapshot_default_def row_slots_def)

lemma from_policy_filed:
  "from_policy scope p fid n = Some sc \<Longrightarrow> lo \<le> length st \<Longrightarrow> filed lo (st @ [sc]) scope (Some fid) (length st)"
  using from_policy_identity [of scope p fid n sc] by (simp add: filed_def)

lemma build_key_ok:
  assumes "snap_ok lo (snd s) (fst s)" and "lo \<le> length (snd s)"
  shows "snap_ok lo (snd (build_key n e s)) (fst (build_key n e s)) \<and> (\<exists>xs. snd (build_key n e s) = snd s @ xs)"
proof (cases "\<exists>p sc. kl_key (ki_limits e) = Some p \<and> from_policy KeyScope p (''key:'' @ ki_routeplane_key e) n = Some sc")
  case True
  then obtain p sc where p: "kl_key (ki_limits e) = Some p"
      "from_policy KeyScope p (''key:'' @ ki_routeplane_key e) n = Some sc" by blast
  note new = from_policy_filed [OF p(2) assms(2)]
  have "snap_ok lo (snd s @ [sc]) (fst s)" using assms(1) by (rule snap_ok_append)
  then show ?thesis using p new
    by (auto simp: build_key_def alloc_def snap_ok_def)
next
  case False
  then have "build_key n e s = s" by (auto simp: build_key_def split: option.splits)
  then show ?thesis using assms by simp
qed

lemma build_tenant_ok:
  assumes "snap_ok lo (snd s) (fst s)" and "lo \<le> length (snd s)"
  shows "snap_ok lo (snd (build_tenant n e s)) (fst (build_tenant n e s)) \<and>
    (\<exists>xs. snd (build_tenant n e s) = snd s @ xs)"
proof (cases "\<exists>p sc. kl_tenant (ki_limits e) = Some p \<and> tenant_counters (fst s) (ki_tenant_id e) = None \<and>
    from_policy TenantScope p (''tenant:'' @ ki_tenant_id e) n = Some sc")
  case True
  then obtain p sc where p: "kl_tenant (ki_limits e) = Some p" "tenant_counters (fst s) (ki_tenant_id e) = None"
      "from_policy TenantScope p (''tenant:'' @ ki_tenant_id e) n = Some sc" by blast
  note new = from_policy_filed [OF p(3) assms(2)]
  have "snap_ok lo (snd s @ [sc]) (fst s)" using assms(1) by (rule snap_ok_append)
  then show ?thesis using p new
    by (auto simp: build_tenant_def alloc_def snap_ok_def)
next
  case False
  then have "build_tenant n e s = s" by (auto simp: build_tenant_def split: option.splits)
  then show ?thesis using assms by simp
qed

lemma set_insert_row [simp]: "set (insert_row x ys) = insert x (set ys)"
  by (induction ys) auto

lemma set_sort_rows [simp]: "set (sort_rows xs) = set xs"
  by (induction xs) auto

text \<open>Rows get new slots, in a store that only grows.\<close>

lemma build_rows_filed:
  "(\<forall>i \<in> snd ` set (fst (build_rows key n st es)).
      filed (length st) (snd (build_rows key n st es)) ModelScope None i) \<and>
   (\<exists>xs. snd (build_rows key n st es) = st @ xs)"
proof (induction key n st es rule: build_rows.induct)
  case (2 key n st pattern policy es)
  define pat where "pat = trim pattern"
  show ?case
  proof (cases "pat = [] \<or> limit_policy_is_empty policy")
    case True
    then show ?thesis using "2.IH"(1) [OF refl] by (simp add: pat_def)
  next
    case False
    then obtain sc where sc: "from_policy ModelScope policy (''model:'' @ key @ '':'' @ pat) n = Some sc"
      using from_policy_None by (metis not_None_eq)
    obtain rows st'' where rec: "build_rows key n (st @ [sc]) es = (rows, st'')" by fastforce
    have IH: "\<forall>i \<in> snd ` set rows. filed (length (st @ [sc])) st'' ModelScope None i" "\<exists>xs. st'' = (st @ [sc]) @ xs"
      using "2.IH"(3) [OF pat_def False sc] rec by (simp_all add: alloc_def)
    then obtain xs where xs: "st'' = (st @ [sc]) @ xs" by blast
    have "filed (length st) (st @ [sc]) ModelScope (Some (''model:'' @ key @ '':'' @ pat)) (length st)"
      using sc by (rule from_policy_filed) simp
    then have "filed (length st) st'' ModelScope None (length st)"
      unfolding xs by (auto simp: filed_def nth_append)
    then show ?thesis using False sc rec IH xs
      by (auto simp: pat_def [symmetric] alloc_def Let_def intro: filed_weaken)
  qed
qed simp

lemma build_model_ok:
  assumes "snap_ok lo (snd s) (fst s)" and "lo \<le> length (snd s)"
  shows "snap_ok lo (snd (build_model n e s)) (fst (build_model n e s)) \<and>
    (\<exists>xs. snd (build_model n e s) = snd s @ xs)"
proof (cases "model_limits_is_empty (ki_limits e)")
  case True
  then show ?thesis using assms by (simp add: build_model_def)
next
  case False
  let ?k = "ki_routeplane_key e"
  obtain rows st' where rows: "build_rows ?k n (snd s) (kl_model_limits (ki_limits e)) = (rows, st')" by fastforce
  have new: "\<forall>i \<in> snd ` set rows. filed (length (snd s)) st' ModelScope None i" and "\<exists>xs. st' = snd s @ xs"
    using build_rows_filed [of ?k n "snd s" "kl_model_limits (ki_limits e)"] rows by simp_all
  then obtain xs where xs: "st' = snd s @ xs" by blast
  have ok: "snap_ok lo st' (fst s)" unfolding xs using assms(1) by (rule snap_ok_append)
  have old: "i < length (snd s)" if "i \<in> row_slots (model_counters (fst s) k)" for i k
    using assms(1) that by (auto simp: snap_ok_def filed_def)
  have "i \<notin> snd ` set rows" if "i \<in> row_slots (model_counters (fst s) k)" for i k
    using old [OF that] new by (auto simp: filed_def)
  then show ?thesis using False rows new ok assms(2) xs
    by (auto simp: build_model_def snap_ok_def row_slots_def intro: filed_weaken)
qed

lemma build_entry_ok:
  assumes "snap_ok lo (snd s) (fst s)" and "lo \<le> length (snd s)"
  shows "snap_ok lo (snd (build_entry n s e)) (fst (build_entry n s e)) \<and>
    (\<exists>xs. snd (build_entry n s e) = snd s @ xs)"
proof -
  have 1: "snap_ok lo (snd (build_key n e s)) (fst (build_key n e s))" "\<exists>xs. snd (build_key n e s) = snd s @ xs"
    using build_key_ok [OF assms] by auto
  then have l1: "lo \<le> length (snd (build_key n e s))" using assms(2) by auto
  let ?t = "build_tenant n e (build_key n e s)"
  have 2: "snap_ok lo (snd ?t) (fst ?t)" "\<exists>xs. snd ?t = snd (build_key n e s) @ xs"
    using build_tenant_ok [OF 1(1) l1] by auto
  then have l2: "lo \<le> length (snd ?t)" using l1 by auto
  have "\<exists>xs. snd (build_model n e ?t) = snd ?t @ xs" using build_model_ok [OF 2(1) l2] by blast
  then have "\<exists>xs. snd (build_model n e ?t) = snd s @ xs" using 1(2) 2(2) by auto
  then show ?thesis using build_model_ok [OF 2(1) l2] assms by (simp add: build_entry_def)
qed

lemma build_ok:
  "snap_ok (length st) (snd (build_with_replicas st es n)) (inner (fst (build_with_replicas st es n))) \<and>
   (\<exists>xs. snd (build_with_replicas st es n) = st @ xs)"
proof -
  have "snap_ok (length st) (snd (foldl (build_entry n) s es)) (fst (foldl (build_entry n) s es)) \<and>
      (\<exists>xs. snd (foldl (build_entry n) s es) = st @ xs)"
    if "snap_ok (length st) (snd s) (fst s)" "\<exists>xs. snd s = st @ xs" for s
    using that
  proof (induction es arbitrary: s)
    case (Cons e es)
    have "length st \<le> length (snd s)" using Cons.prems(2) by auto
    then show ?case
      using build_entry_ok [OF Cons.prems(1), of n e] Cons.prems(2) by (auto intro!: Cons.IH)
  qed simp
  from this [of "(snapshot_default, st)"] show ?thesis
    by (simp add: build_with_replicas_def snap_ok_default case_prod_beta)
qed

section \<open>Replacing a snapshot\<close>

text \<open>A kept slot is filed under the same scope and identity as the slot it stands for.\<close>

lemma keep_slot_filed:
  assumes "filed lo st sc f i" and "\<And>j. prev = Some j \<Longrightarrow> filed 0 st sc f j"
  shows "filed 0 st sc f (keep_slot st prev i)"
  using assms by (auto simp: keep_slot_def filed_def split: option.splits)

lemma find_in_set: "find P xs = Some x \<Longrightarrow> x \<in> set xs"
  by (induction xs) (auto split: if_splits)

text \<open>A registry and a store fit when the snapshot does.\<close>

definition registry_ok :: "store \<Rightarrow> limit_registry \<Rightarrow> bool" where
  "registry_ok st reg \<longleftrightarrow> snap_ok 0 st (inner reg)"

lemma snap_ok_weaken: "snap_ok lo st snap \<Longrightarrow> snap_ok 0 st snap"
  unfolding snap_ok_def by (blast intro: filed_weaken)

lemma registry_replace_ok:
  "registry_ok (snd (registry_replace st reg es)) (fst (registry_replace st reg es))"
  using build_ok [of st es "max_replicas reg"]
  by (auto simp: registry_replace_def registry_ok_def case_prod_beta intro: snap_ok_weaken)

definition row_kept :: "store \<Rightarrow> model_rows option \<Rightarrow> model_rows \<Rightarrow> model_rows" where
  "row_kept st prev rows = (case prev of None \<Rightarrow> rows | Some prev_rows \<Rightarrow> preserve_rows st prev_rows rows)"

lemma row_kept_slots:
  "row_slots (Some (row_kept st prev rows)) \<subseteq> row_slots (Some rows) \<union> row_slots prev"
  by (auto simp: row_kept_def row_slots_def preserve_rows_def keep_slot_def image_iff
      split: option.splits if_splits dest: find_in_set) (metis find_in_set snd_conv)+

lemma preserve_scope_filed:
  assumes "\<forall>k i. next k = Some i \<longrightarrow> filed lo st sc (Some (f k)) i"
    and "\<forall>k i. prev k = Some i \<longrightarrow> filed 0 st sc (Some (f k)) i"
  shows "\<forall>k i. preserve_scope_counters st next prev k = Some i \<longrightarrow> filed 0 st sc (Some (f k)) i"
  using assms by (auto simp: preserve_scope_counters_def intro!: keep_slot_filed)

definition kept_models ::
  "store \<Rightarrow> (string \<rightharpoonup> model_rows) \<Rightarrow> (string \<rightharpoonup> model_rows) \<Rightarrow> (string \<rightharpoonup> model_rows)" where
  "kept_models st next prev = (\<lambda>k. map_option (row_kept st (prev k)) (next k))"

lemma kept_models_slots:
  "row_slots (kept_models st next prev k) \<subseteq> row_slots (next k) \<union> row_slots (prev k)"
  using row_kept_slots [of st "prev k"]
  by (cases "next k") (auto simp: kept_models_def row_slots_def)

lemma kept_models_disjoint:
  assumes "\<forall>k. \<forall>i \<in> row_slots (next k). n \<le> i" and "\<forall>k. \<forall>i \<in> row_slots (prev k). i < n"
    and "row_slots (next k) \<inter> row_slots (next k') = {}" and "row_slots (prev k) \<inter> row_slots (prev k') = {}"
  shows "row_slots (kept_models st next prev k) \<inter> row_slots (kept_models st next prev k') = {}"
proof -
  have "row_slots (next a) \<inter> row_slots (prev b) = {}" for a b
    using assms(1,2) by (meson disjoint_iff not_le)
  then show ?thesis
    using kept_models_slots [of st "next" prev k] kept_models_slots [of st "next" prev k'] assms(3,4) by blast
qed

lemma preserving_eq:
  assumes "build_with_replicas st es (max_replicas reg) = (built, st')"
  shows "replace_preserving_counters st reg es =
    (reg\<lparr>inner :=
       \<lparr>key_counters = preserve_scope_counters st' (key_counters (inner built)) (key_counters (inner reg)),
        tenant_counters = preserve_scope_counters st' (tenant_counters (inner built)) (tenant_counters (inner reg)),
        model_counters = kept_models st' (model_counters (inner built)) (model_counters (inner reg))\<rparr>\<rparr>, st')"
  using assms by (simp add: replace_preserving_counters_def kept_models_def row_kept_def [abs_def] Let_def)

lemma snap_okD:
  assumes "snap_ok lo st snap"
  shows "\<forall>k i. key_counters snap k = Some i \<longrightarrow> filed lo st KeyScope (Some (''key:'' @ k)) i"
    and "\<forall>t i. tenant_counters snap t = Some i \<longrightarrow> filed lo st TenantScope (Some (''tenant:'' @ t)) i"
    and "\<forall>k. \<forall>i \<in> row_slots (model_counters snap k). filed lo st ModelScope None i"
    and "k \<noteq> k' \<Longrightarrow> row_slots (model_counters snap k) \<inter> row_slots (model_counters snap k') = {}"
  using assms by (simp_all add: snap_ok_def)

lemma preserving_ok:
  assumes "registry_ok st reg"
  shows "registry_ok (snd (replace_preserving_counters st reg es)) (fst (replace_preserving_counters st reg es))"
proof -
  obtain built st' where b: "build_with_replicas st es (max_replicas reg) = (built, st')" by fastforce
  let ?next = "inner built" and ?prev = "inner reg"
  have new: "snap_ok (length st) st' ?next" and "\<exists>xs. st' = st @ xs"
    using build_ok [of st es "max_replicas reg"] b by auto
  then have old: "snap_ok 0 st' ?prev" and lt: "snap_ok 0 st ?prev"
    using assms snap_ok_append by (auto simp: registry_ok_def)
  let ?mc = "kept_models st' (model_counters ?next) (model_counters ?prev)"
  have keys: "\<forall>k i. preserve_scope_counters st' (key_counters ?next) (key_counters ?prev) k = Some i \<longrightarrow>
      filed 0 st' KeyScope (Some (''key:'' @ k)) i"
    by (rule preserve_scope_filed [OF snap_okD(1) [OF new] snap_okD(1) [OF old]])
  have tenants: "\<forall>t i. preserve_scope_counters st' (tenant_counters ?next) (tenant_counters ?prev) t = Some i \<longrightarrow>
      filed 0 st' TenantScope (Some (''tenant:'' @ t)) i"
    by (rule preserve_scope_filed [OF snap_okD(2) [OF new] snap_okD(2) [OF old]])
  have models: "\<forall>k. \<forall>i \<in> row_slots (?mc k). filed 0 st' ModelScope None i"
    using kept_models_slots snap_okD(3) [OF snap_ok_weaken [OF new]] snap_okD(3) [OF old] by blast
  have "\<forall>k. \<forall>i \<in> row_slots (model_counters ?next k). length st \<le> i"
    and "\<forall>k. \<forall>i \<in> row_slots (model_counters ?prev k). i < length st"
    using snap_okD(3) [OF new] snap_okD(3) [OF lt] by (simp_all add: filed_def)
  then have "\<forall>k k'. k \<noteq> k' \<longrightarrow> row_slots (?mc k) \<inter> row_slots (?mc k') = {}"
    using snap_okD(4) [OF new] snap_okD(4) [OF old]
    by (intro allI impI kept_models_disjoint [where n = "length st"]) simp_all
  then show ?thesis
    using keys tenants models unfolding preserving_eq [OF b] registry_ok_def snap_ok_def by simp
qed

section \<open>Resolving\<close>

lemma resolve_for_model_scopes:
  assumes "registry_ok st reg"
  shows "\<forall>i \<in> set (option_list (lg_key (resolve_for_model reg k t m))). filed 0 st KeyScope (Some (''key:'' @ k)) i"
    and "\<forall>i \<in> set (option_list (lg_tenant (resolve_for_model reg k t m))).
      filed 0 st TenantScope (Some (''tenant:'' @ t)) i"
    and "\<forall>i \<in> set (option_list (lg_model (resolve_for_model reg k t m))).
      i \<in> row_slots (model_counters (inner reg) k) \<and> filed 0 st ModelScope None i"
proof -
  have row: "i \<in> row_slots (model_counters (inner reg) k)"
    if "model_counters (inner reg) k = Some rows" "find P rows = Some (a, i)" for rows P a i
    using that find_in_set [of P rows "(a, i)"] by (force simp: row_slots_def)
  show "\<forall>i \<in> set (option_list (lg_key (resolve_for_model reg k t m))). filed 0 st KeyScope (Some (''key:'' @ k)) i"
    and "\<forall>i \<in> set (option_list (lg_tenant (resolve_for_model reg k t m))).
      filed 0 st TenantScope (Some (''tenant:'' @ t)) i"
    using assms by (auto simp: resolve_for_model_def option_list_def registry_ok_def snap_ok_def split: option.splits)
  have "i \<in> row_slots (model_counters (inner reg) k)"
    if "i \<in> set (option_list (lg_model (resolve_for_model reg k t m)))" for i
  proof -
    have "Option.bind (model_counters (inner reg) k)
        (\<lambda>rows. map_option snd (find (\<lambda>(pat, _). contains m pat) rows)) = Some i"
      using that by (simp add: resolve_for_model_def option_list_def split: option.splits)
    then show ?thesis using row by (auto simp: bind_eq_Some_conv)
  qed
  then show "\<forall>i \<in> set (option_list (lg_model (resolve_for_model reg k t m))).
      i \<in> row_slots (model_counters (inner reg) k) \<and> filed 0 st ModelScope None i"
    using assms unfolding registry_ok_def snap_ok_def by blast
qed

text \<open>A resolved guard names distinct, live slots.\<close>

lemma resolved_slots_ok:
  assumes "registry_ok st reg"
  shows "slots_ok st (guard_scopes (resolve_for_model reg k t m))"
proof -
  let ?g = "resolve_for_model reg k t m"
  have "distinct (option_list x)" for x :: "slot option" by (simp add: option_list_def split: option.splits)
  then show ?thesis
    using resolve_for_model_scopes [OF assms, where k = k and t = t and m = m]
    by (auto simp: guard_scopes_def slots_ok_def filed_def)
qed

text \<open>Different keys of different tenants never share a slot.\<close>

lemma resolved_disjoint:
  assumes "registry_ok st reg" and "k \<noteq> k'" and "t \<noteq> t'"
  shows "set (guard_scopes (resolve_for_model reg k t m)) \<inter>
    set (guard_scopes (resolve_for_model reg k' t' m')) = {}"
proof -
  have "row_slots (model_counters (inner reg) k) \<inter> row_slots (model_counters (inner reg) k') = {}"
    using assms by (simp add: registry_ok_def snap_ok_def)
  then show ?thesis
    using resolve_for_model_scopes [OF assms(1), where k = k and t = t and m = m]
      resolve_for_model_scopes [OF assms(1), where k = k' and t = t' and m = m'] assms(2,3)
    by (auto simp: guard_scopes_def filed_def disjoint_iff)
qed

lemma registry_ok_run:
  assumes "registry_ok st reg" and "events_ok st es"
  shows "registry_ok (snd (limit_run cal st es)) reg"
proof -
  have "filed lo (snd (limit_run cal st es)) sc f i = filed lo st sc f i" for lo sc f i
    using config_eqs(6,7) [OF limit_run_config [OF assms(2), of cal i]] by (simp add: filed_def split: option.splits)
  then show ?thesis using assms(1) by (simp add: registry_ok_def snap_ok_def)
qed

text \<open>One tenant's traffic leaves every limit of another tenant's keys as it was.\<close>

lemma foreign_traffic:
  assumes "registry_ok st reg" and "k \<noteq> k'" and "t \<noteq> t'"
    and "\<forall>e \<in> set es. \<exists>m. event_guard e = resolve_for_model reg k' t' m"
    and "i \<in> set (guard_scopes (resolve_for_model reg k t m))"
  shows "snd (limit_run cal st es) ! i = st ! i"
proof (rule limit_run_frame)
  show "events_ok st es" using assms(4) resolved_slots_ok [OF assms(1)] by (auto simp: events_ok_def)
  show "\<forall>e \<in> set es. i \<notin> set (guard_scopes (event_guard e))"
    using assms(4,5) resolved_disjoint [OF assms(1-3)] by fastforce
qed

section \<open>Reloading an unchanged configuration\<close>

text \<open>Where a build starts in the store only shifts the slots it allocates.\<close>

definition shift_rows :: "nat \<Rightarrow> model_rows \<Rightarrow> model_rows" where
  "shift_rows d = map (map_prod id (\<lambda>i. d + i))"

definition shift_snap :: "nat \<Rightarrow> registry_snapshot \<Rightarrow> registry_snapshot" where
  "shift_snap d snap =
     \<lparr>key_counters = map_option (\<lambda>i. d + i) \<circ> key_counters snap,
      tenant_counters = map_option (\<lambda>i. d + i) \<circ> tenant_counters snap,
      model_counters = map_option (shift_rows d) \<circ> model_counters snap\<rparr>"

lemma insert_row_shift:
  "insert_row (map_prod id f x) (map (map_prod id f) ys) = map (map_prod id f) (insert_row x ys)"
  by (induction ys) (simp_all add: row_before_def)

lemma sort_rows_shift: "sort_rows (shift_rows d xs) = shift_rows d (sort_rows xs)"
  by (induction xs) (simp_all add: shift_rows_def insert_row_shift)

lemma build_rows_shift:
  "build_rows key n (pre @ st) es =
     (shift_rows (length pre) (fst (build_rows key n st es)), pre @ snd (build_rows key n st es))"
proof (induction key n st es rule: build_rows.induct)
  case (2 key n st pattern policy es)
  show ?case
    using "2.IH" by (auto simp: Let_def alloc_def shift_rows_def case_prod_beta split: option.splits)
qed (simp add: shift_rows_def)

definition shift_state :: "store \<Rightarrow> registry_snapshot \<times> store \<Rightarrow> registry_snapshot \<times> store" where
  "shift_state pre s = (shift_snap (length pre) (fst s), pre @ snd s)"

lemma build_entry_shift: "build_entry n (shift_state pre s) e = shift_state pre (build_entry n s e)"
proof -
  have 1: "build_key n e (shift_state pre s) = shift_state pre (build_key n e s)" for s
    by (auto simp: build_key_def shift_state_def shift_snap_def alloc_def split: option.splits)
  have 2: "build_tenant n e (shift_state pre s) = shift_state pre (build_tenant n e s)" for s
    by (auto simp: build_tenant_def shift_state_def shift_snap_def alloc_def split: option.splits)
  have 3: "build_model n e (shift_state pre s) = shift_state pre (build_model n e s)" for s
  proof -
    have "shift_rows d rows = [] \<longleftrightarrow> rows = []" for d rows by (simp add: shift_rows_def)
    then show ?thesis
      by (auto simp: build_model_def shift_state_def shift_snap_def build_rows_shift sort_rows_shift
          case_prod_beta Let_def)
  qed
  show ?thesis by (simp add: build_entry_def 1 2 3)
qed

lemma build_shift:
  "build_with_replicas st es n =
     ((fst (build_with_replicas [] es n))\<lparr>inner := shift_snap (length st) (inner (fst (build_with_replicas [] es n)))\<rparr>,
      st @ snd (build_with_replicas [] es n))"
proof -
  have fold: "foldl (build_entry n) (shift_state st s) es = shift_state st (foldl (build_entry n) s es)" for s
    by (induction es arbitrary: s) (simp_all add: build_entry_shift)
  have "shift_state st (snapshot_default, []) = (snapshot_default, st)"
    by (simp add: shift_state_def shift_snap_def snapshot_default_def)
  then show ?thesis
    using fold [of "(snapshot_default, [])"] by (simp add: build_with_replicas_def case_prod_beta shift_state_def)
qed

lemma config_same_policy:
  assumes "scope_config s = scope_config t"
  shows "same_policy s t"
proof -
  have "same_policy s t = same_policy (scope_config s) (scope_config t)"
    by (simp add: same_policy_def scope_config_def)
  then show ?thesis using assms by (simp add: same_policy_def)
qed

lemma keep_slot_back:
  assumes "i < length xs" and "length st = length st0 + length xs"
    and "\<forall>j. scope_config (st ! j) = scope_config ((st0 @ xs) ! j)"
  shows "keep_slot (st @ xs) (Some (length st0 + i)) (length st + i) = length st0 + i"
proof -
  have "(st @ xs) ! (length st0 + i) = st ! (length st0 + i)" using assms(1,2) by (simp add: nth_append)
  moreover have "scope_config (xs ! i) = scope_config (st ! (length st0 + i))"
    using assms(3) by (simp add: nth_append)
  ultimately show ?thesis
    using config_same_policy [of "xs ! i" "st ! (length st0 + i)"] by (simp add: keep_slot_def nth_append)
qed

lemma find_sat: "find P xs = Some x \<Longrightarrow> P x"
  by (induction xs) (auto split: if_splits)

lemma find_row:
  "find (\<lambda>(p, _). Q p) rows = Some (p, i) \<Longrightarrow> find (\<lambda>r. fst r = p) rows = Some (p, i)"
  by (induction rows) (auto split: if_splits dest: find_sat)

lemma find_map_row:
  "find (\<lambda>(p, _). Q p) (map (\<lambda>(p, i). (p, f p i)) rows) =
     map_option (\<lambda>(p, i). (p, f p i)) (find (\<lambda>(p, _). Q p) rows)"
  by (induction rows) (auto split: prod.splits)

lemma shift_rows_alt: "shift_rows d rows = map (\<lambda>(p, i). (p, d + i)) rows"
  by (simp add: shift_rows_def map_prod_def)

lemma find_shift_pat:
  "find (\<lambda>r. fst r = p) (shift_rows d rows) = map_option (\<lambda>(p, i). (p, d + i)) (find (\<lambda>r. fst r = p) rows)"
  by (induction rows) (auto simp: shift_rows_def)

lemma kept_row_back:
  assumes "\<forall>i \<in> snd ` set rows. i < length xs" and "length st = length st0 + length xs"
    and "\<forall>j. scope_config (st ! j) = scope_config ((st0 @ xs) ! j)"
  shows "map_option snd (find (\<lambda>(p, _). Q p)
      (preserve_rows (st @ xs) (shift_rows (length st0) rows) (shift_rows (length st) rows))) =
    map_option snd (find (\<lambda>(p, _). Q p) (shift_rows (length st0) rows))"
proof (cases "find (\<lambda>(p, _). Q p) rows")
  case None
  then show ?thesis by (simp add: preserve_rows_def find_map_row shift_rows_alt del: map_map)
next
  case (Some r)
  obtain p i where r: "r = (p, i)" by fastforce
  have "i < length xs" using find_in_set [OF Some] r assms(1) by force
  then show ?thesis
    using Some r find_row [of Q rows p i] keep_slot_back [OF _ assms(2,3)]
    by (simp add: preserve_rows_def find_map_row shift_rows_alt
        find_shift_pat [unfolded shift_rows_alt] del: map_map)
qed

text \<open>
  Reloading the configuration a registry was built from, at any point of a run, resolves
  every request to the same live counters as before.
\<close>

lemma reload_keeps_counters:
  fixes cal :: calendar
  assumes "build_with_replicas st0 es n = (reg, st1)" and "events_ok st1 evs"
  defines "st \<equiv> snd (limit_run cal st1 evs)"
  shows "resolve_for_model (fst (replace_preserving_counters st reg es)) k t m = resolve_for_model reg k t m"
proof -
  obtain b0 xs where b0: "build_with_replicas [] es n = (b0, xs)" by fastforce
  let ?snap = "inner b0"
  have st1: "st1 = st0 @ xs" and prev: "inner reg = shift_snap (length st0) ?snap" and n: "max_replicas reg = n"
    using assms(1) build_shift [of st0 es n] b0 by (auto simp: build_with_replicas_def case_prod_beta)
  have len: "length st = length st0 + length xs" by (simp add: st_def st1)
  have cfg: "\<forall>j. scope_config (st ! j) = scope_config ((st0 @ xs) ! j)"
    using limit_run_config [OF assms(2)] by (simp add: st_def st1)
  note kept = keep_slot_back [OF _ len cfg]
  have ok: "snap_ok 0 xs ?snap" using build_ok [of "[]" es n] b0 by simp
  have "build_with_replicas st es (max_replicas reg) = (b0\<lparr>inner := shift_snap (length st) ?snap\<rparr>, st @ xs)"
    using build_shift [of st es n] b0 n by simp
  note new = preserving_eq [OF this]
  have "preserve_scope_counters (st @ xs) (map_option ((+) (length st)) \<circ> f) (map_option ((+) (length st0)) \<circ> f) x =
      map_option ((+) (length st0)) (f x)" if "\<forall>x i. f x = Some i \<longrightarrow> i < length xs" for f and x :: string
    using that kept by (cases "f x") (simp_all add: preserve_scope_counters_def)
  then have keys: "key_counters (inner (fst (replace_preserving_counters st reg es))) k = key_counters (inner reg) k"
      "tenant_counters (inner (fst (replace_preserving_counters st reg es))) t = tenant_counters (inner reg) t"
    using snap_okD(1,2) [OF ok] unfolding new prev by (simp_all add: shift_snap_def filed_def)
  have "Option.bind (kept_models (st @ xs) (model_counters (shift_snap (length st) ?snap))
        (model_counters (shift_snap (length st0) ?snap)) k) (\<lambda>rows. map_option snd (find (\<lambda>(p, _). contains m p) rows)) =
      Option.bind (model_counters (inner reg) k) (\<lambda>rows. map_option snd (find (\<lambda>(p, _). contains m p) rows))"
  proof (cases "model_counters ?snap k")
    case (Some rows)
    then have "\<forall>i \<in> snd ` set rows. i < length xs"
      using bspec [OF spec [OF snap_okD(3) [OF ok], of k]] by (simp add: row_slots_def filed_def)
    then show ?thesis
      using kept_row_back [OF _ len cfg] Some by (simp add: prev shift_snap_def kept_models_def row_kept_def)
  qed (simp add: prev shift_snap_def kept_models_def)
  then show ?thesis using keys by (simp add: resolve_for_model_def new prev)
qed

section \<open>Properties\<close>

text \<open>
  C5. Through any slot with a hard per-minute request cap, however many guards share it and however admissions and settlements of other scopes interleave, no more requests are admitted during one minute than the cap leaves free at its start.
\<close>

theorem request_cap_enforced:
  assumes "events_ok st es" and "sc_rate_mode (st ! i) = Hard" and "sc_requests_per_min (st ! i) = Some l"
    and "l \<le> COUNT_MASK" and "\<forall>e \<in> set es. minute_epoch (event_now e) = ep"
  shows "admitted_through i es (fst (limit_run cal st es)) \<le> unat l - unat (window_peek (sc_c_req (st ! i)) ep)"
  by (rule admitted_within_cap [OF assms])

theorem request_cap_enforced_witness:
  "\<exists>s. from_policy KeyScope \<lparr>lp_policy_id = None, lp_rate = Some (rate_limits_default
      \<lparr>rl_requests_per_min := Some 2\<rparr>), lp_budget = None\<rparr> ''key:a'' 1 = Some s \<and>
    admitted_through 0 (replicate 5 (Admit \<lparr>lg_key = Some 0, lg_tenant = None, lg_model = None\<rparr> 7))
      (fst (limit_run \<lparr>cal_year_month = (\<lambda>_. None), cal_month_start = (\<lambda>_ _. None)\<rparr> [s]
        (replicate 5 (Admit \<lparr>lg_key = Some 0, lg_tenant = None, lg_model = None\<rparr> 7)))) \<le> 2"
proof -
  let ?r = "rate_limits_default\<lparr>rl_requests_per_min := Some 2\<rparr>"
  let ?p = "\<lparr>lp_policy_id = None, lp_rate = Some ?r, lp_budget = None\<rparr>"
  let ?g = "\<lparr>lg_key = Some 0, lg_tenant = None, lg_model = None\<rparr>"
  have "\<not> limit_policy_is_empty ?p"
    by (simp add: limit_policy_is_empty_def rate_limits_is_empty_def rate_limits_default_def)
  then obtain s where s: "from_policy KeyScope ?p ''key:a'' 1 = Some s"
    using from_policy_None [of KeyScope ?p "''key:a''" 1] by auto
  have two: "(2 :: u64) \<le> COUNT_MASK" by (simp add: word_le_nat_alt unat_COUNT_MASK)
  have fields: "sc_rate_mode s = Hard" "sc_requests_per_min s = Some 2"
    using s two by (auto simp: from_policy_def rate_limits_default_def clamp_share_def share_per_replica_def Let_def
        min_def split: if_splits prod.splits)
  have "events_ok [s] (replicate 5 (Admit ?g 7))"
    by (simp add: events_ok_def slots_ok_def guard_scopes_def option_list_def)
  from request_cap_enforced [OF this, of 0 2 "minute_epoch 7"] s fields two show ?thesis
    by (intro exI [of _ s] conjI) (auto intro: order_trans [OF _ diff_le_self])
qed

text \<open>
  C6. Once the costs settled through a slot within one local day have reached its hard daily cost cap, every later request of that day whose guard holds the slot is refused, whatever else was admitted or settled in between, and the refusal changes no counter.
\<close>

theorem daily_budget_enforced:
  assumes "events_ok st es" and "sc_budget_mode (st ! i) = Hard" and "sc_cost_daily (st ! i) = Some l"
    and "l \<le> COUNT_MASK" and "unat l \<le> settled_cost i es"
    and "\<forall>e \<in> set es. day_epoch (event_now e) (sc_anchor_offset_minutes (st ! i)) = ep"
    and "day_epoch now (sc_anchor_offset_minutes (st ! i)) = ep" and "i \<in> set (guard_scopes g)"
  shows "\<exists>b. guards_admit cal (snd (limit_run cal st es)) g now = (Denied b, snd (limit_run cal st es))"
  by (rule spent_budget_refuses [OF assms])

theorem daily_budget_enforced_witness:
  "\<exists>s b st'. from_policy TenantScope \<lparr>lp_policy_id = None, lp_rate = None, lp_budget = Some (budget_limits_default
      \<lparr>bl_cost_micro_usd_daily := Some 100\<rparr>)\<rparr> ''tenant:t'' 1 = Some s \<and>
    guards_admit \<lparr>cal_year_month = (\<lambda>_. None), cal_month_start = (\<lambda>_ _. None)\<rparr>
      (snd (limit_run \<lparr>cal_year_month = (\<lambda>_. None), cal_month_start = (\<lambda>_ _. None)\<rparr> [s]
        [Settle \<lparr>lg_key = None, lg_tenant = Some 0, lg_model = None\<rparr> 7 1 60,
         Settle \<lparr>lg_key = None, lg_tenant = Some 0, lg_model = None\<rparr> 7 1 40]))
      \<lparr>lg_key = None, lg_tenant = Some 0, lg_model = None\<rparr> 7 = (Denied b, st')"
proof -
  let ?b = "budget_limits_default\<lparr>bl_cost_micro_usd_daily := Some 100\<rparr>"
  let ?p = "\<lparr>lp_policy_id = None, lp_rate = None, lp_budget = Some ?b\<rparr>"
  let ?g = "\<lparr>lg_key = None, lg_tenant = Some 0, lg_model = None\<rparr>"
  let ?cal = "\<lparr>cal_year_month = (\<lambda>_. None), cal_month_start = (\<lambda>_ _. None)\<rparr>"
  let ?es = "[Settle ?g 7 1 60, Settle ?g 7 1 40]"
  have "\<not> limit_policy_is_empty ?p"
    by (simp add: limit_policy_is_empty_def budget_limits_is_empty_def budget_limits_default_def)
  then obtain s where s: "from_policy TenantScope ?p ''tenant:t'' 1 = Some s"
    using from_policy_None [of TenantScope ?p "''tenant:t''" 1] by auto
  have l: "(100 :: u64) \<le> COUNT_MASK" by (simp add: word_le_nat_alt unat_COUNT_MASK)
  have fields: "sc_budget_mode s = Hard" "sc_cost_daily s = Some 100" "sc_anchor_offset_minutes s = 0"
    using s l by (auto simp: from_policy_def budget_limits_default_def clamp_share_def share_per_replica_def Let_def
        resolved_cost_caps_def resolve_window_def min_def split: if_splits prod.splits)
  have ok: "events_ok [s] ?es" by (simp add: events_ok_def slots_ok_def guard_scopes_def option_list_def)
  have "\<exists>b. guards_admit ?cal (snd (limit_run ?cal [s] ?es)) ?g 7 = (Denied b, snd (limit_run ?cal [s] ?es))"
    by (rule daily_budget_enforced [OF ok, where i = 0 and l = 100 and ep = "day_epoch 7 0"])
      (simp_all add: fields l guard_scopes_def option_list_def)
  then show ?thesis using s by blast
qed

text \<open>
  C36. In a registry built from any configuration, no traffic of another key of another tenant changes any counter that limits a request: neither the key's, nor the tenant's, nor the key's per-model caps, however policies, identifiers and patterns repeat.
\<close>

theorem tenant_limit_isolation:
  assumes "build_with_replicas st0 entries n = (reg, st)" and "k \<noteq> k'" and "t \<noteq> t'"
    and "\<forall>e \<in> set es. \<exists>m. event_guard e = resolve_for_model reg k' t' m"
    and "i \<in> set (guard_scopes (resolve_for_model reg k t m))"
  shows "snd (limit_run cal st es) ! i = st ! i"
proof -
  have "registry_ok st reg"
    using build_ok [of st0 entries n] assms(1) snap_ok_weaken by (auto simp: registry_ok_def)
  then show ?thesis by (rule foreign_traffic [OF _ assms(2-5)])
qed

theorem tenant_limit_isolation_witness:
  "snd (limit_run \<lparr>cal_year_month = (\<lambda>_. None), cal_month_start = (\<lambda>_ _. None)\<rparr>
      (snd (build_with_replicas [] [\<lparr>ki_routeplane_key = ''a'', ki_tenant_id = ''acme'', ki_limits =
        \<lparr>kl_key = Some \<lparr>lp_policy_id = None, lp_rate = Some (rate_limits_default\<lparr>rl_requests_per_min := Some 2\<rparr>),
          lp_budget = None\<rparr>, kl_tenant = None, kl_model_limits = []\<rparr>\<rparr>] 1))
      [Admit (resolve_for_model (fst (build_with_replicas [] [\<lparr>ki_routeplane_key = ''a'', ki_tenant_id = ''acme'', ki_limits =
        \<lparr>kl_key = Some \<lparr>lp_policy_id = None, lp_rate = Some (rate_limits_default\<lparr>rl_requests_per_min := Some 2\<rparr>),
          lp_budget = None\<rparr>, kl_tenant = None, kl_model_limits = []\<rparr>\<rparr>] 1)) ''b'' ''evil'' ''gpt-4o'') 7]) ! 0 =
    snd (build_with_replicas [] [\<lparr>ki_routeplane_key = ''a'', ki_tenant_id = ''acme'', ki_limits =
        \<lparr>kl_key = Some \<lparr>lp_policy_id = None, lp_rate = Some (rate_limits_default\<lparr>rl_requests_per_min := Some 2\<rparr>),
          lp_budget = None\<rparr>, kl_tenant = None, kl_model_limits = []\<rparr>\<rparr>] 1) ! 0"
proof -
  let ?p = "\<lparr>lp_policy_id = None, lp_rate = Some (rate_limits_default\<lparr>rl_requests_per_min := Some 2\<rparr>), lp_budget = None\<rparr>"
  let ?e = "\<lparr>ki_routeplane_key = ''a'', ki_tenant_id = ''acme'', ki_limits =
    \<lparr>kl_key = Some ?p, kl_tenant = None, kl_model_limits = []\<rparr>\<rparr>"
  obtain reg st where b: "build_with_replicas [] [?e] 1 = (reg, st)" by fastforce
  have ne: "\<not> limit_policy_is_empty ?p"
    by (simp add: limit_policy_is_empty_def rate_limits_is_empty_def rate_limits_default_def)
  then obtain s where s: "from_policy KeyScope ?p (''key:'' @ ''a'') 1 = Some s"
    using from_policy_None [of KeyScope ?p "''key:'' @ ''a''" 1] by auto
  then have "key_counters (inner reg) ''a'' = Some 0"
    using b ne by (auto simp: build_with_replicas_def build_entry_def key_limits_is_empty_def build_key_def
        build_tenant_def build_model_def model_limits_is_empty_def alloc_def)
  then have "0 \<in> set (guard_scopes (resolve_for_model reg ''a'' ''acme'' ''gpt-4o''))"
    by (simp add: guard_scopes_def resolve_for_model_def option_list_def)
  then show ?thesis
    using tenant_limit_isolation [OF b, of "''a''" "''b''" "''acme''" "''evil''"
        "[Admit (resolve_for_model reg ''b'' ''evil'' ''gpt-4o'') 7]" 0 "''gpt-4o''"]
    by (force simp: b)
qed



subsection \<open>Further facts\<close>

text \<open>
  A request is admitted through its guard exactly when, in every scope of the guard, no hard token, cost or budget cap has been reached in its current window and a hard request cap still has a free request; a request refused by a budget or token cap leaves every counter as it was.
\<close>

lemma admission_decision:
  assumes "slots_ok st (guard_scopes g)"
  shows "is_allowed (fst (guards_admit cal st g now)) \<longleftrightarrow>
      (\<forall>i \<in> set (guard_scopes g).
        (\<forall>c \<in> set (checked_caps cal (st ! i) now). \<not> exhausted c) \<and>
        (sc_rate_mode (st ! i) = Hard \<longrightarrow> (\<forall>l. sc_requests_per_min (st ! i) = Some l \<longrightarrow>
          window_peek (sc_c_req (st ! i)) (minute_epoch now) < l)))"
    and "\<exists>i \<in> set (guard_scopes g). \<exists>c \<in> set (checked_caps cal (st ! i) now). exhausted c \<Longrightarrow>
      snd (guards_admit cal st g now) = st"
proof -
  show "is_allowed (fst (guards_admit cal st g now)) \<longleftrightarrow>
      (\<forall>i \<in> set (guard_scopes g).
        (\<forall>c \<in> set (checked_caps cal (st ! i) now). \<not> exhausted c) \<and>
        (sc_rate_mode (st ! i) = Hard \<longrightarrow> (\<forall>l. sc_requests_per_min (st ! i) = Some l \<longrightarrow>
          window_peek (sc_c_req (st ! i)) (minute_epoch now) < l)))"
    by (simp only: guards_admit_iff [OF assms] scope_check_None consume_request_None)
  show "snd (guards_admit cal st g now) = st"
    if "\<exists>i \<in> set (guard_scopes g). \<exists>c \<in> set (checked_caps cal (st ! i) now). exhausted c"
  proof -
    have "check_scopes cal st (guard_scopes g) now \<noteq> None"
      using that unfolding check_scopes_None scope_check_None by blast
    then show ?thesis by (cases rule: guards_admit_cases [of cal st g now]) auto
  qed
qed

end
