(* ===== verification/Distributed.thy ===== *)
theory Distributed
  imports Limit_Registry Rust_Strings
begin

text \<open>
  Mode D of \<^verbatim>\<open>crates/limits/src/distributed.rs\<close>: per-minute request counters in a shared Redis.
  Redis is a service, so the commands its script calls are a parameter (a record of functions
  on an abstract server state), and so is what the network does to a call. The script, the
  counter key, the fallback decision and the admission path are the code's.
\<close>

datatype distributed_fallback = OpenToLocal | Closed

section \<open>The script\<close>

record 'r redis =
  incrby :: "'r \<Rightarrow> string \<Rightarrow> int \<Rightarrow> int \<times> 'r"
  pexpire :: "'r \<Rightarrow> string \<Rightarrow> int \<Rightarrow> 'r"
  pttl :: "'r \<Rightarrow> string \<Rightarrow> int"
  redis_get :: "'r \<Rightarrow> string \<Rightarrow> int option"

definition rate_incr_script ::
  "('r, 'm) redis_scheme \<Rightarrow> string \<Rightarrow> int \<Rightarrow> int \<Rightarrow> 'r \<Rightarrow> (int \<times> int) \<times> 'r" where
  "rate_incr_script R key amount ttl s =
     (let (c, s) = incrby R s key amount;
          s = (if c = amount then pexpire R s key ttl
               else if pttl R s key < 0 then pexpire R s key ttl else s);
          t = pttl R s key
      in ((c, t), s))"

definition rate_peek_script :: "('r, 'm) redis_scheme \<Rightarrow> string \<Rightarrow> 'r \<Rightarrow> int \<times> int" where
  "rate_peek_script R key s =
     (let c = (case redis_get R s key of None \<Rightarrow> 0 | Some v \<Rightarrow> v) in (c, pttl R s key))"

section \<open>Keys, breaches and failures\<close>

definition counter_key :: "string \<Rightarrow> limit_scope \<Rightarrow> string \<Rightarrow> string \<Rightarrow> u64 \<Rightarrow> string" where
  "counter_key pre scope identity kind epoch =
     pre @ '':'' @ scope_header scope @ '':'' @ identity @ '':'' @ kind @ '':'' @ show_nat (unat epoch)"

definition distributed_rate :: "limit_scope \<Rightarrow> string \<Rightarrow> u64 \<Rightarrow> u64 \<Rightarrow> breach" where
  "distributed_rate scope policy_id limit now_ms =
     \<lparr>br_kind = RateRequests, br_scope = scope, br_policy_id = policy_id, br_limit = limit,
      br_reset_ms = Some (minute_reset_ms now_ms), br_now_ms = now_ms\<rparr>"

definition distributed_unavailable :: "u64 \<Rightarrow> breach" where
  "distributed_unavailable now_ms =
     \<lparr>br_kind = RateRequests, br_scope = KeyScope, br_policy_id = ''distributed_unavailable'', br_limit = 0,
      br_reset_ms = Some (minute_reset_ms now_ms), br_now_ms = now_ms\<rparr>"

definition decide_failure ::
  "calendar \<Rightarrow> distributed_fallback \<Rightarrow> store \<Rightarrow> limit_guards \<Rightarrow> u64 \<Rightarrow> admission \<times> store" where
  "decide_failure cal fallback st local now_ms =
     (case fallback of
        OpenToLocal \<Rightarrow> guards_admit cal st local now_ms
      | Closed \<Rightarrow> (Denied (distributed_unavailable now_ms), st))"

section \<open>Admission\<close>

text \<open>
  What becomes of one call: the reply arrives within the timeout, the script runs but its
  reply is lost or late, or the request never reaches the server.
\<close>

datatype net_outcome = Delivered | ReplyLost | RequestLost

text \<open>A reply decodes to \<^verbatim>\<open>(u64, i64)\<close> only when the count is a \<^verbatim>\<open>u64\<close>.\<close>

definition dist_incr ::
  "('r, 'm) redis_scheme \<Rightarrow> net_outcome \<Rightarrow> string \<Rightarrow> u64 \<Rightarrow> u64 \<Rightarrow> 'r \<Rightarrow> (string + nat \<times> int) \<times> 'r" where
  "dist_incr R net key amount ttl_ms s =
     (case net of
        RequestLost \<Rightarrow> (Inl ''redis incr timeout'', s)
      | ReplyLost \<Rightarrow> (Inl ''redis incr timeout'', snd (rate_incr_script R key (uint amount) (uint ttl_ms) s))
      | Delivered \<Rightarrow>
          (let ((c, t), s') = rate_incr_script R key (uint amount) (uint ttl_ms) s
           in (if 0 \<le> c \<and> c < 2 ^ 64 then Inr (nat c, t) else Inl ''redis incr: type error'', s')))"

record distributed_limiter =
  dl_fallback :: distributed_fallback
  dl_key_prefix :: string

datatype rate_outcome = RateOk | RateDenied breach | RateFailed string

text \<open>The time left in the minute and one second of slack.\<close>

definition window_ttl_ms :: "u64 \<Rightarrow> u64" where
  "window_ttl_ms now_ms = 60000 - now_ms mod 60000 + 1000"

fun rate_phase ::
  "('r, 'm) redis_scheme \<Rightarrow> distributed_limiter \<Rightarrow> (request_rate_spec \<Rightarrow> net_outcome) \<Rightarrow> u64 \<Rightarrow>
   request_rate_spec list \<Rightarrow> 'r \<Rightarrow> rate_outcome \<times> 'r" where
  "rate_phase R dl net now_ms [] s = (RateOk, s)"
| "rate_phase R dl net now_ms (spec # specs) s =
     (let epoch = now_ms div 60000;
          key = counter_key (dl_key_prefix dl) (rs_scope spec) (rs_identity spec) ''req'' epoch;
          ttl_ms = window_ttl_ms now_ms
      in case dist_incr R (net spec) key 1 ttl_ms s of
           (Inr (count, _), s') \<Rightarrow>
             if rs_hard spec \<and> unat (rs_limit spec) < count
             then (RateDenied (distributed_rate (rs_scope spec) (rs_policy_id spec) (rs_limit spec) now_ms), s')
             else rate_phase R dl net now_ms specs s'
         | (Inl e, s') \<Rightarrow> (RateFailed e, s'))"

definition dist_admit ::
  "calendar \<Rightarrow> ('r, 'm) redis_scheme \<Rightarrow> distributed_limiter \<Rightarrow> (request_rate_spec \<Rightarrow> net_outcome) \<Rightarrow>
   store \<Rightarrow> limit_guards \<Rightarrow> u64 \<Rightarrow> 'r \<Rightarrow> admission \<times> store \<times> 'r" where
  "dist_admit cal R dl net st local now_ms s =
     (if is_unlimited local then (let (a, st') = guards_admit cal st local now_ms in (a, st', s))
      else case guards_check_only cal st local now_ms of
             Denied b \<Rightarrow> (Denied b, st, s)
           | Allowed _ \<Rightarrow>
               (case rate_phase R dl net now_ms (request_rate_specs st local) s of
                  (RateOk, s') \<Rightarrow> (Allowed (guards_advisory cal st local now_ms), st, s')
                | (RateDenied b, s') \<Rightarrow> (Denied b, st, s')
                | (RateFailed e, s') \<Rightarrow>
                    (let (a, st') = decide_failure cal (dl_fallback dl) st local now_ms in (a, st', s'))))"

definition peek_request_rate ::
  "('r, 'm) redis_scheme \<Rightarrow> distributed_limiter \<Rightarrow> limit_scope \<Rightarrow> string \<Rightarrow> u64 \<Rightarrow> 'r \<Rightarrow> int" where
  "peek_request_rate R dl scope identity now_ms s =
     fst (rate_peek_script R (counter_key (dl_key_prefix dl) scope identity ''req'' (now_ms div 60000)) s)"

section \<open>Keys are injective\<close>

lemma last_separator:
  assumes "c \<notin> set ys" and "c \<notin> set ys'"
  shows "xs @ c # ys = xs' @ c # ys' \<longleftrightarrow> xs = xs' \<and> ys = ys'"
  using assms by (auto simp: append_eq_append_conv2 append_eq_Cons_conv Cons_eq_append_conv)

lemma counter_key_inj:
  assumes "counter_key p scope identity ''req'' epoch = counter_key p scope' identity' ''req'' epoch'"
  shows "scope = scope' \<and> identity = identity' \<and> epoch = epoch'"
proof -
  have "(scope_header scope @ '':'' @ identity @ '':req'') @ CHR '':'' # show_nat (unat epoch) =
      (scope_header scope' @ '':'' @ identity' @ '':req'') @ CHR '':'' # show_nat (unat epoch')"
    using assms by (simp add: counter_key_def)
  then have "scope_header scope @ '':'' @ identity @ '':req'' = scope_header scope' @ '':'' @ identity' @ '':req''"
    and "show_nat (unat epoch) = show_nat (unat epoch')"
    using last_separator [OF show_nat_no_colon show_nat_no_colon] by blast+
  moreover from this(1) have "scope = scope' \<and> identity = identity'"
    by (cases scope; cases scope') (simp_all add: scope_header_def)
  ultimately show ?thesis using show_nat_inj word_unat_eq_iff by blast
qed

section \<open>The shared counter\<close>

text \<open>What admission relies on: a counter per key that each call increments by one.\<close>

locale shared_counter =
  fixes bump :: "string \<Rightarrow> 's \<Rightarrow> nat \<times> 's" and tally :: "'s \<Rightarrow> string \<Rightarrow> nat"
  assumes bump_result: "fst (bump k s) = tally s k + 1"
    and bump_tally: "tally (snd (bump k s)) k' = (if k' = k then tally s k + 1 else tally s k')"
begin

fun bumps :: "string list \<Rightarrow> 's \<Rightarrow> nat list \<times> 's" where
  "bumps [] s = ([], s)"
| "bumps (k # ks) s = (let (n, s') = bump k s; (ns, s'') = bumps ks s' in (n # ns, s''))"

text \<open>Calls of any clients in any order: those on one key that stay within a limit number exactly
  what the limit leaves.\<close>

lemma bumps_within:
  "length (filter (\<lambda>(k', n). k' = k \<and> n \<le> l) (zip ks (fst (bumps ks s)))) =
     min (length (filter (\<lambda>k'. k' = k) ks)) (l - tally s k)"
proof (induction ks arbitrary: s)
  case (Cons k' ks)
  have "fst (bumps (k' # ks) s) = fst (bump k' s) # fst (bumps ks (snd (bump k' s)))"
    by (simp add: case_prod_beta)
  then show ?case
    using Cons.IH [of "snd (bump k' s)"] bump_result [of k' s] bump_tally [of k' s k]
    by (auto simp del: bumps.simps)
qed simp

end

text \<open>
  The documented behaviour of the Redis commands the script calls, for a view of the server's
  counters: \<^verbatim>\<open>INCRBY\<close> adds to the key it names (an absent key counts zero) and returns the sum,
  \<^verbatim>\<open>PEXPIRE\<close> with a positive timeout leaves every value as it is. A window's key lives at
  least one second past its minute, so no expiry falls between the calls of one minute.
\<close>

definition redis_lawful :: "('r, 'm) redis_scheme \<Rightarrow> ('r \<Rightarrow> string \<Rightarrow> nat) \<Rightarrow> bool" where
  "redis_lawful R view \<longleftrightarrow>
     (\<forall>s k n. 0 \<le> n \<longrightarrow> fst (incrby R s k n) = int (view s k) + n \<and>
        view (snd (incrby R s k n)) = (view s)(k := view s k + nat n)) \<and>
     (\<forall>s k t. 0 < t \<longrightarrow> view (pexpire R s k t) = view s)"

definition script_bump :: "('r, 'm) redis_scheme \<Rightarrow> int \<Rightarrow> string \<Rightarrow> 'r \<Rightarrow> nat \<times> 'r" where
  "script_bump R ttl key s = (let ((c, _), s') = rate_incr_script R key 1 ttl s in (nat c, s'))"

lemma script_shared_counter:
  assumes "redis_lawful R view" and "0 < ttl"
  shows "shared_counter (script_bump R ttl) view"
proof
  fix k k' s
  have inc: "fst (incrby R s k 1) = int (view s k) + 1" "view (snd (incrby R s k 1)) = (view s)(k := view s k + 1)"
    and exp: "\<And>s. view (pexpire R s k ttl) = view s"
    using assms by (simp_all add: redis_lawful_def)
  show "fst (script_bump R ttl k s) = view s k + 1"
    using inc by (simp add: script_bump_def rate_incr_script_def Let_def case_prod_beta)
  show "view (snd (script_bump R ttl k s)) k' = (if k' = k then view s k + 1 else view s k')"
    using inc exp by (simp add: script_bump_def rate_incr_script_def Let_def case_prod_beta)
qed

text \<open>A server that keeps its counters in a map, on which the contract is interpreted.\<close>

definition map_redis :: "(string \<rightharpoonup> nat \<times> int) redis" where
  "map_redis =
     \<lparr>incrby = (\<lambda>s k n. (case s k of None \<Rightarrow> (n, s(k \<mapsto> (nat n, - 1)))
                       | Some (v, t) \<Rightarrow> (int v + n, s(k \<mapsto> (v + nat n, t))))),
      pexpire = (\<lambda>s k t. (case s k of None \<Rightarrow> s | Some (v, _) \<Rightarrow> s(k \<mapsto> (v, t)))),
      pttl = (\<lambda>s k. (case s k of None \<Rightarrow> - 2 | Some (_, t) \<Rightarrow> t)),
      redis_get = (\<lambda>s k. map_option (int \<circ> fst) (s k))\<rparr>"

definition map_view :: "(string \<rightharpoonup> nat \<times> int) \<Rightarrow> string \<Rightarrow> nat" where
  "map_view s k = (case s k of None \<Rightarrow> 0 | Some (v, _) \<Rightarrow> v)"

lemma map_redis_lawful: "redis_lawful map_redis map_view"
  by (auto simp: redis_lawful_def map_redis_def map_view_def fun_eq_iff split: option.splits)

interpretation map_redis: shared_counter "script_bump map_redis 61000" map_view
  by (rule script_shared_counter [OF map_redis_lawful]) simp

section \<open>Fleet-wide caps\<close>

lemma uint_pos: "(w :: u64) \<noteq> 0 \<Longrightarrow> 0 < uint w"
  using uint_0_iff [of w] by (simp add: less_le)

lemma window_ttl_pos: "0 < uint (window_ttl_ms now_ms)"
proof -
  define x where "x = now_ms mod 60000"
  have x: "unat x < 60000" unfolding x_def by (simp add: unat_mod_u64)
  define y where "y = 60000 - x"
  have "unat y = 60000 - unat x"
    unfolding y_def using x by (subst unat_sub) (simp_all add: word_le_nat_alt)
  then have "unat (y + 1000) = unat y + 1000"
    using unat_add_no_wrap [of y 1000] by simp
  then have "y + 1000 \<noteq> 0" by (intro notI) simp
  then have "0 < uint (y + 1000)" by (rule uint_pos)
  then show ?thesis unfolding window_ttl_ms_def y_def x_def .
qed

text \<open>What one call does to the counters.\<close>

lemma dist_incr_view:
  assumes "redis_lawful R view" and "0 < uint ttl"
  shows "view (snd (dist_incr R net key 1 ttl s)) =
      (if net = RequestLost then view s else (view s)(key := view s key + 1))"
    and "fst (dist_incr R net key 1 ttl s) = Inr (n, t) \<Longrightarrow> net = Delivered \<and> n = view s key + 1"
proof -
  have inc: "fst (incrby R s key 1) = int (view s key) + 1" "view (snd (incrby R s key 1)) = (view s)(key := view s key + 1)"
    and exp: "\<And>s. view (pexpire R s key (uint ttl)) = view s"
    using assms by (simp_all add: redis_lawful_def)
  show "view (snd (dist_incr R net key 1 ttl s)) =
      (if net = RequestLost then view s else (view s)(key := view s key + 1))"
    using inc exp by (cases net) (simp_all add: dist_incr_def rate_incr_script_def Let_def case_prod_beta)
  show "net = Delivered \<and> n = view s key + 1" if "fst (dist_incr R net key 1 ttl s) = Inr (n, t)"
    using that inc
    by (cases net) (auto simp: dist_incr_def rate_incr_script_def Let_def case_prod_beta nat_add_distrib
        split: if_splits)
qed

definition rate_key :: "distributed_limiter \<Rightarrow> u64 \<Rightarrow> request_rate_spec \<Rightarrow> string" where
  "rate_key dl epoch spec = counter_key (dl_key_prefix dl) (rs_scope spec) (rs_identity spec) ''req'' epoch"

lemma rate_phase_Cons:
  "rate_phase R dl net now (spec # specs) s =
     (let (r, s') = dist_incr R (net spec) (rate_key dl (now div 60000) spec) 1 (window_ttl_ms now) s
      in case r of
           Inl e \<Rightarrow> (RateFailed e, s')
         | Inr (count, _) \<Rightarrow>
             if rs_hard spec \<and> unat (rs_limit spec) < count
             then (RateDenied (distributed_rate (rs_scope spec) (rs_policy_id spec) (rs_limit spec) now), s')
             else rate_phase R dl net now specs s')"
  by (simp add: rate_key_def Let_def case_prod_beta split: sum.split)

lemma rate_call:
  assumes "redis_lawful R view"
    and "dist_incr R out (rate_key dl (now div 60000) sp) 1 (window_ttl_ms now) s = (r, s')"
  shows "view s k \<le> view s' k"
    and "r = Inr (n, t) \<Longrightarrow> n = view s (rate_key dl (now div 60000) sp) + 1 \<and>
      view s' (rate_key dl (now div 60000) sp) = n"
  using dist_incr_view [OF assms(1) window_ttl_pos, of out "rate_key dl (now div 60000) sp" now s] assms(2)
  by auto

lemma rate_phase_grows:
  assumes "redis_lawful R view"
  shows "view s k \<le> view (snd (rate_phase R dl net now specs s)) k"
proof (induction specs arbitrary: s)
  case (Cons sp specs)
  obtain r s' where call:
    "dist_incr R (net sp) (rate_key dl (now div 60000) sp) 1 (window_ttl_ms now) s = (r, s')"
    by fastforce
  have "view s k \<le> view s' k" by (rule rate_call(1) [OF assms call])
  then show ?case using Cons.IH [of s'] order_trans [of "view s k" "view s' k"]
    by (simp add: rate_phase_Cons call del: rate_phase.simps split: sum.splits)
qed simp

lemma rate_phase_ok:
  assumes "redis_lawful R view"
    and "fst (rate_phase R dl net now specs s) = RateOk" and "spec \<in> set specs" and "rs_hard spec"
    and "rate_key dl (now div 60000) spec = k"
  shows "view s k < unat (rs_limit spec) \<and> view s k < view (snd (rate_phase R dl net now specs s)) k"
  using assms(2,3)
proof (induction specs arbitrary: s)
  case (Cons sp specs)
  obtain r s' where call:
    "dist_incr R (net sp) (rate_key dl (now div 60000) sp) 1 (window_ttl_ms now) s = (r, s')"
    by fastforce
  obtain n t where r: "r = Inr (n, t)" and ok: "\<not> (rs_hard sp \<and> unat (rs_limit sp) < n)"
      and rest: "rate_phase R dl net now (sp # specs) s = rate_phase R dl net now specs s'"
    using Cons.prems(1) by (auto simp: rate_phase_Cons call simp del: rate_phase.simps split: sum.splits if_splits)
  have grow: "view s k \<le> view s' k" by (rule rate_call(1) [OF assms(1) call])
  have here: "n = view s (rate_key dl (now div 60000) sp) + 1" "view s' (rate_key dl (now div 60000) sp) = n"
    using rate_call(2) [OF assms(1) call r] by auto
  show ?case
  proof (cases "spec = sp")
    case True
    then have "view s k < view s' k" "view s k < unat (rs_limit spec)"
      using here ok assms(4,5) by auto
    then show ?thesis
      using rest rate_phase_grows [OF assms(1), of s' k dl net now specs] less_le_trans by simp
  next
    case False
    then have "view s' k < unat (rs_limit spec) \<and> view s' k < view (snd (rate_phase R dl net now specs s')) k"
      using Cons.IH [of s'] Cons.prems rest by simp
    then show ?thesis using rest grow by simp
  qed
qed simp

text \<open>
  Requests of a fleet, in the order the server sees them. Each brings the local store of its
  replica, its guard, its instant and what the network does to its calls.
\<close>

record fleet_request =
  fr_store :: store
  fr_guard :: limit_guards
  fr_now :: u64
  fr_net :: "request_rate_spec \<Rightarrow> net_outcome"

definition fleet_step ::
  "calendar \<Rightarrow> ('r, 'm) redis_scheme \<Rightarrow> distributed_limiter \<Rightarrow> 'r \<Rightarrow> fleet_request \<Rightarrow> admission \<times> 'r" where
  "fleet_step cal R dl s q =
     (let (a, _, s') = dist_admit cal R dl (fr_net q) (fr_store q) (fr_guard q) (fr_now q) s in (a, s'))"

fun fleet_run ::
  "calendar \<Rightarrow> ('r, 'm) redis_scheme \<Rightarrow> distributed_limiter \<Rightarrow> 'r \<Rightarrow> fleet_request list \<Rightarrow> admission list \<times> 'r" where
  "fleet_run cal R dl s [] = ([], s)"
| "fleet_run cal R dl s (q # qs) =
     (let (a, s') = fleet_step cal R dl s q; (as, s'') = fleet_run cal R dl s' qs in (a # as, s''))"

text \<open>A request is subject to a shared cap when one of its hard specs counts on the cap's key.\<close>

definition capped_by :: "distributed_limiter \<Rightarrow> string \<Rightarrow> u64 \<Rightarrow> fleet_request \<Rightarrow> bool" where
  "capped_by dl k limit q \<longleftrightarrow>
     \<not> is_unlimited (fr_guard q) \<and>
     (\<exists>spec \<in> set (request_rate_specs (fr_store q) (fr_guard q)).
        rs_hard spec \<and> rs_limit spec = limit \<and> rate_key dl (fr_now q div 60000) spec = k)"

lemma guards_admit_unlimited:
  "is_unlimited g \<Longrightarrow> guards_admit cal st g now = (Allowed advisory_default, st)"
  by (simp add: is_unlimited_def guards_admit_def guard_scopes_def option_list_def guards_advisory_def)

lemma fleet_step_grows:
  assumes "redis_lawful R view"
  shows "view s k \<le> view (snd (fleet_step cal R dl s q)) k"
proof -
  have "view s k \<le> view (snd (rate_phase R dl (fr_net q) (fr_now q) specs s)) k" for specs
    by (rule rate_phase_grows [OF assms])
  from this [of "request_rate_specs (fr_store q) (fr_guard q)"] show ?thesis
    by (auto simp: fleet_step_def dist_admit_def Let_def case_prod_beta
        split: admission.splits rate_outcome.splits prod.splits)
qed

text \<open>Where failures deny, an admitted request found its cap's counter below the limit and moved it.\<close>

lemma fleet_step_allowed:
  assumes "redis_lawful R view" and "dl_fallback dl = Closed" and "capped_by dl k limit q"
    and "is_allowed (fst (fleet_step cal R dl s q))"
  shows "view s k < unat limit \<and> view s k < view (snd (fleet_step cal R dl s q)) k"
proof -
  let ?specs = "request_rate_specs (fr_store q) (fr_guard q)"
  let ?phase = "rate_phase R dl (fr_net q) (fr_now q) ?specs s"
  obtain spec where spec: "spec \<in> set ?specs" "rs_hard spec" "rs_limit spec = limit"
      "rate_key dl (fr_now q div 60000) spec = k"
    using assms(3) by (auto simp: capped_by_def)
  have "fst ?phase = RateOk" and "snd (fleet_step cal R dl s q) = snd ?phase"
    using assms(2-4)
    by (auto simp: fleet_step_def dist_admit_def capped_by_def decide_failure_def case_prod_beta
        split: admission.splits rate_outcome.splits prod.splits)
  then show ?thesis using rate_phase_ok [OF assms(1) _ spec(1,2,4)] spec(3) by simp
qed

text \<open>Of all requests a fleet makes under one shared cap, no more pass than the cap leaves.\<close>

lemma fleet_within_cap:
  assumes "redis_lawful R view" and "dl_fallback dl = Closed" and "\<forall>q \<in> set qs. capped_by dl k limit q"
  shows "length (filter is_allowed (fst (fleet_run cal R dl s qs))) \<le> unat limit - view s k"
  using assms(3)
proof (induction qs arbitrary: s)
  case (Cons q qs)
  let ?s = "snd (fleet_step cal R dl s q)"
  have IH: "length (filter is_allowed (fst (fleet_run cal R dl ?s qs))) \<le> unat limit - view ?s k"
    using Cons by simp
  have "view s k \<le> view ?s k" by (rule fleet_step_grows [OF assms(1)])
  moreover have "view s k < unat limit \<and> view s k < view ?s k" if "is_allowed (fst (fleet_step cal R dl s q))"
    using fleet_step_allowed [OF assms(1,2) _ that, of k limit] Cons.prems by simp
  ultimately show ?case using IH by (auto simp: case_prod_beta)
qed simp

text \<open>When the first call fails and the policy is open, admission is the local engine's.\<close>

lemma check_only_denied:
  "guards_check_only cal st g now = Denied b \<Longrightarrow> guards_admit cal st g now = (Denied b, st)"
  by (auto simp: guards_check_only_def guards_admit_def split: option.splits)

lemma open_failure_is_local:
  assumes "dl_fallback dl = OpenToLocal" and "request_rate_specs st g \<noteq> []" and "\<forall>spec. net spec \<noteq> Delivered"
  shows "(fst (dist_admit cal R dl net st g now s), fst (snd (dist_admit cal R dl net st g now s))) =
    guards_admit cal st g now"
proof -
  obtain sp specs where specs: "request_rate_specs st g = sp # specs" using assms(2) by (cases "request_rate_specs st g") auto
  have "net sp = ReplyLost \<or> net sp = RequestLost" using assms(3) net_outcome.exhaust by metis
  then have "\<exists>e. fst (rate_phase R dl net now (sp # specs) s) = RateFailed e"
    by (auto simp: dist_incr_def Let_def)
  then obtain e s' where "rate_phase R dl net now (sp # specs) s = (RateFailed e, s')" by (metis prod.collapse)
  then show ?thesis
    using assms(1) specs check_only_denied [of cal st g now]
    by (auto simp: dist_admit_def decide_failure_def case_prod_beta simp del: rate_phase.simps
        split: admission.splits)
qed

section \<open>Identities\<close>

text \<open>
  The counter keys keep whatever the identities keep apart. The identity of a per-model cap
  joins the key and the pattern with a colon, so it does not keep apart every pair.
\<close>

lemma model_identity_clash:
  assumes "from_policy ModelScope p (''model:'' @ (k @ '':'' @ m) @ '':'' @ pat) n = Some a"
    and "from_policy ModelScope p' (''model:'' @ k @ '':'' @ (m @ '':'' @ pat)) n = Some b"
  shows "counter_key pre (sc_scope a) (sc_identity a) ''req'' epoch = counter_key pre (sc_scope b) (sc_identity b) ''req'' epoch"
  using from_policy_identity [OF assms(1)] from_policy_identity [OF assms(2)] by (simp add: counter_key_def)

section \<open>Properties\<close>



subsection \<open>Further facts\<close>

text \<open>
  In the distributed mode with the default open fallback, a guard with any request cap gets during a Redis outage exactly the verdict and the counters of the local engine: an outage neither blocks a request nor lifts a local cap.
\<close>

lemma redis_outage_is_local:
  assumes "dl_fallback dl = OpenToLocal" and "request_rate_specs st g \<noteq> []" and "\<forall>spec. net spec \<noteq> Delivered"
  shows "(fst (dist_admit cal R dl net st g now s), fst (snd (dist_admit cal R dl net st g now s))) =
    guards_admit cal st g now"
  by (rule open_failure_is_local [OF assms])

text \<open>
  Two counters of the shared cache have the same key only if their scope, their structural identity and their minute are the same, whatever characters the identities contain.
\<close>

lemma counter_keys_injective:
  "counter_key pre scope identity ''req'' epoch = counter_key pre scope' identity' ''req'' epoch' \<longleftrightarrow>
     scope = scope' \<and> identity = identity' \<and> epoch = epoch'"
  using counter_key_inj by blast

text \<open>
  Two per-model caps of different keys can share one distributed counter although their local slots are distinct: the identity joins key and pattern with a colon, so a colon inside either moves the boundary.
\<close>

lemma model_identities_collide:
  assumes "from_policy ModelScope p (''model:'' @ (k @ '':'' @ m) @ '':'' @ pat) n = Some a"
    and "from_policy ModelScope p' (''model:'' @ k @ '':'' @ (m @ '':'' @ pat)) n = Some b"
  shows "counter_key pre (sc_scope a) (sc_identity a) ''req'' epoch = counter_key pre (sc_scope b) (sc_identity b) ''req'' epoch"
  by (rule model_identity_clash [OF assms])

end
