(* ===== verification/Reconciler.thy ===== *)
theory Reconciler
  imports Limit_Scope
begin

text \<open>
  The durable reconciliation seam of \<^verbatim>\<open>crates/limits/src/lib.rs\<close>: the trait \<^verbatim>\<open>LimitReconciler\<close>
  as a locale, its two implementations as models of it. The mutex of the in-memory one makes
  each operation atomic, so its state is passed explicitly.
\<close>

record reconcile_delta =
  rd_requests :: u64
  rd_tokens :: u64
  rd_cost_micro_usd :: u64

record reconcile_base =
  rb_requests :: u64
  rb_tokens :: u64
  rb_cost_micro_usd :: u64

definition reconcile_base_default :: reconcile_base where
  "reconcile_base_default = \<lparr>rb_requests = 0, rb_tokens = 0, rb_cost_micro_usd = 0\<rparr>"

type_synonym reconcile_key = "limit_scope \<times> string"

definition noop_flush_delta :: "unit \<Rightarrow> reconcile_key \<Rightarrow> reconcile_delta \<Rightarrow> unit" where
  "noop_flush_delta _ _ _ = ()"

definition noop_pull_base :: "unit \<Rightarrow> reconcile_key \<Rightarrow> reconcile_base" where
  "noop_pull_base _ _ = reconcile_base_default"

type_synonym in_memory = "reconcile_key \<rightharpoonup> reconcile_base"

definition add_delta :: "reconcile_base \<Rightarrow> reconcile_delta \<Rightarrow> reconcile_base" where
  "add_delta e delta =
     \<lparr>rb_requests = sat_add (rb_requests e) (rd_requests delta),
      rb_tokens = sat_add (rb_tokens e) (rd_tokens delta),
      rb_cost_micro_usd = sat_add (rb_cost_micro_usd e) (rd_cost_micro_usd delta)\<rparr>"

definition mem_flush_delta :: "in_memory \<Rightarrow> reconcile_key \<Rightarrow> reconcile_delta \<Rightarrow> in_memory" where
  "mem_flush_delta agg k delta =
     agg(k \<mapsto> add_delta (case agg k of None \<Rightarrow> reconcile_base_default | Some e \<Rightarrow> e) delta)"

definition mem_pull_base :: "in_memory \<Rightarrow> reconcile_key \<Rightarrow> reconcile_base" where
  "mem_pull_base agg k = (case agg k of None \<Rightarrow> reconcile_base_default | Some e \<Rightarrow> e)"

section \<open>The trait\<close>

definition base_le :: "reconcile_base \<Rightarrow> reconcile_base \<Rightarrow> bool" where
  "base_le a b \<longleftrightarrow> rb_requests a \<le> rb_requests b \<and> rb_tokens a \<le> rb_tokens b \<and>
     rb_cost_micro_usd a \<le> rb_cost_micro_usd b"

lemma base_le_refl [simp]: "base_le a a"
  by (simp add: base_le_def)

lemma base_le_trans: "base_le a b \<Longrightarrow> base_le b c \<Longrightarrow> base_le a c"
  by (auto simp: base_le_def)

locale limit_reconciler =
  fixes flush_delta :: "'s \<Rightarrow> reconcile_key \<Rightarrow> reconcile_delta \<Rightarrow> 's"
    and pull_base :: "'s \<Rightarrow> reconcile_key \<Rightarrow> reconcile_base"
  assumes pull_other: "k' \<noteq> k \<Longrightarrow> pull_base (flush_delta s k d) k' = pull_base s k'"
    and pull_grows: "base_le (pull_base s k) (pull_base (flush_delta s k d) k)"
begin

lemma pull_run_other:
  assumes "\<forall>(k', d) \<in> set ds. k' \<noteq> k"
  shows "pull_base (foldl (\<lambda>s (k, d). flush_delta s k d) s ds) k = pull_base s k"
  using assms
proof (induction ds arbitrary: s)
  case (Cons x ds)
  obtain k' d where x: "x = (k', d)" by (cases x)
  then show ?case using Cons pull_other [of k k' s d] by auto
qed simp

lemma pull_run_grows: "base_le (pull_base s k) (pull_base (foldl (\<lambda>s (k, d). flush_delta s k d) s ds) k)"
proof (induction ds arbitrary: s)
  case (Cons x ds)
  obtain k' d where x: "x = (k', d)" by (cases x)
  have "base_le (pull_base s k) (pull_base (flush_delta s k' d) k)"
    using pull_other [of k k' s d] pull_grows [of s k d] by (cases "k' = k") simp_all
  then show ?case using Cons.IH [of "flush_delta s k' d"] x by (auto intro: base_le_trans)
qed simp

end

lemma sat_add_ge: "a \<le> sat_add a b"
  using unat_u64_lt [of a] by (simp add: word_le_nat_alt unat_sat_add)

interpretation noop: limit_reconciler noop_flush_delta noop_pull_base
  by unfold_locales (simp_all add: noop_pull_base_def)

interpretation in_memory: limit_reconciler mem_flush_delta mem_pull_base
  by unfold_locales (simp_all add: mem_pull_base_def mem_flush_delta_def base_le_def add_delta_def sat_add_ge)

text \<open>The in-memory aggregate of a scope is the saturating sum of the deltas flushed to it.\<close>

lemma mem_pull_flush:
  "mem_pull_base (mem_flush_delta agg k' d) k =
     (if k = k' then add_delta (mem_pull_base agg k) d else mem_pull_base agg k)"
  by (simp add: mem_pull_base_def mem_flush_delta_def)

lemma mem_requests_sum:
  "unat (rb_requests (mem_pull_base (foldl (\<lambda>s (k, d). mem_flush_delta s k d) agg ds) k)) =
     min (unat (rb_requests (mem_pull_base agg k)) +
       (\<Sum>(k', d) \<leftarrow> ds. if k' = k then unat (rd_requests d) else 0)) (2 ^ 64 - 1)"
proof (induction ds arbitrary: agg)
  case Nil
  then show ?case using unat_u64_lt [of "rb_requests (mem_pull_base agg k)"] by simp
next
  case (Cons x ds)
  obtain k' d where x: "x = (k', d)" by (cases x)
  show ?case using Cons.IH [of "mem_flush_delta agg k' d"] unat_u64_lt [of "rb_requests (mem_pull_base agg k)"]
    by (auto simp: x mem_pull_flush add_delta_def unat_sat_add)
qed

end
