(* ===== verification/Auth_Failures.thy ===== *)
theory Auth_Failures
  imports Cas_Cell
begin

text \<open>
  The failed-authentication tracker of \<^verbatim>\<open>crates/limits/src/auth_failures.rs\<close>: one packed atomic
  per slot (a window epoch in the high 40 bits, a failure count in the low 24), sources hashed
  into a fixed array of slots. The per-instance hash (\<^verbatim>\<open>RandomState\<close>) is a field of the model:
  the code relies on nothing but that it is a function of the source. \<^verbatim>\<open>usize\<close> is 64 bits.
\<close>

section \<open>Packing\<close>

definition AF_EPOCH_BITS :: nat where "AF_EPOCH_BITS = 40"
definition AF_COUNT_BITS :: nat where "AF_COUNT_BITS = 24"
definition AF_COUNT_MASK :: u64 where "AF_COUNT_MASK = push_bit AF_COUNT_BITS 1 - 1"
definition AF_EPOCH_MASK :: u64 where "AF_EPOCH_MASK = push_bit AF_EPOCH_BITS 1 - 1"

definition af_pack :: "u64 \<Rightarrow> u64 \<Rightarrow> u64" where
  "af_pack epoch count = push_bit AF_COUNT_BITS (epoch AND AF_EPOCH_MASK) OR (count AND AF_COUNT_MASK)"

definition af_unpack :: "u64 \<Rightarrow> u64 \<times> u64" where
  "af_unpack p = (drop_bit AF_COUNT_BITS p, p AND AF_COUNT_MASK)"

section \<open>The tracker\<close>

record auth_failure_config =
  threshold :: u64
  window_ms :: u64
  backoff_base_ms :: u64
  backoff_cap_ms :: u64
  slots :: u64

definition auth_failure_config_default :: auth_failure_config where
  "auth_failure_config_default =
     \<lparr>threshold = 5, window_ms = 60000, backoff_base_ms = 1000, backoff_cap_ms = 300000, slots = 65536\<rparr>"

definition clamp_between :: "u64 \<Rightarrow> u64 \<Rightarrow> u64 \<Rightarrow> u64" where
  "clamp_between x lo hi = (if x < lo then lo else if hi < x then hi else x)"

definition sanitized :: "auth_failure_config \<Rightarrow> auth_failure_config" where
  "sanitized c =
     (let c = c\<lparr>threshold := clamp_between (threshold c) 1 AF_COUNT_MASK\<rparr>;
          c = c\<lparr>window_ms := max (window_ms c) 1\<rparr>;
          c = c\<lparr>backoff_base_ms := max (backoff_base_ms c) 1\<rparr>;
          c = c\<lparr>backoff_cap_ms := max (backoff_cap_ms c) (backoff_base_ms c)\<rparr>
      in c\<lparr>slots := clamp_between (slots c) 1 (push_bit 20 1)\<rparr>)"

datatype auth_throttle = Allow | Throttled u64

definition is_throttled :: "auth_throttle \<Rightarrow> bool" where
  "is_throttled a \<longleftrightarrow> (case a of Throttled _ \<Rightarrow> True | Allow \<Rightarrow> False)"

record auth_failure_tracker =
  af_cfg :: auth_failure_config
  af_slots :: "u64 list"
  af_hasher :: "string \<Rightarrow> u64"

definition auth_tracker_new :: "(string \<Rightarrow> u64) \<Rightarrow> auth_failure_config \<Rightarrow> auth_failure_tracker" where
  "auth_tracker_new hasher cfg =
     (let cfg = sanitized cfg
      in \<lparr>af_cfg = cfg, af_slots = replicate (unat (slots cfg)) 0, af_hasher = hasher\<rparr>)"

definition af_epoch :: "auth_failure_tracker \<Rightarrow> u64 \<Rightarrow> u64" where
  "af_epoch t now_ms = now_ms div window_ms (af_cfg t)"

definition slot_index :: "auth_failure_tracker \<Rightarrow> string \<Rightarrow> nat" where
  "slot_index t source = unat (af_hasher t source) mod length (af_slots t)"

definition slot_for :: "auth_failure_tracker \<Rightarrow> string \<Rightarrow> u64" where
  "slot_for t source = af_slots t ! slot_index t source"

definition current_count :: "auth_failure_tracker \<Rightarrow> string \<Rightarrow> u64 \<Rightarrow> u64" where
  "current_count t source now_ms =
     (let ep = af_epoch t now_ms AND AF_EPOCH_MASK; (e, c) = af_unpack (slot_for t source)
      in if e = ep then c else 0)"

definition backoff_ms :: "auth_failure_tracker \<Rightarrow> u64 \<Rightarrow> u64" where
  "backoff_ms t count =
     (let overshoot = sat_sub count (threshold (af_cfg t));
          shift = unat (ucast (min overshoot 40) :: u32);
          scaled = sat_mul (backoff_base_ms (af_cfg t)) (push_bit shift 1)
      in min scaled (backoff_cap_ms (af_cfg t)))"

definition auth_check :: "auth_failure_tracker \<Rightarrow> string \<Rightarrow> u64 \<Rightarrow> auth_throttle" where
  "auth_check t source now_ms =
     (let count = current_count t source now_ms
      in if threshold (af_cfg t) \<le> count then Throttled (max (div_ceil (backoff_ms t count) 1000) 1)
         else Allow)"

text \<open>The retry loop of \<^verbatim>\<open>record_failure\<close> on the source's slot.\<close>

definition record_failure_body :: "u64 \<Rightarrow> u64 \<Rightarrow> (u64, u64) attempt" where
  "record_failure_body ep cur =
     (let (e, c) = af_unpack cur;
          base = (if e = ep then c else 0);
          nxt = min (sat_add base 1) AF_COUNT_MASK
      in Swap (af_pack ep nxt) nxt)"

definition auth_record_failure :: "auth_failure_tracker \<Rightarrow> string \<Rightarrow> u64 \<Rightarrow> auth_failure_tracker \<times> u64" where
  "auth_record_failure t source now_ms =
     (let ep = af_epoch t now_ms AND AF_EPOCH_MASK;
          (w, n) = run_alone (record_failure_body ep) (slot_for t source)
      in (t\<lparr>af_slots := (af_slots t)[slot_index t source := w]\<rparr>, n))"

section \<open>Fields\<close>

lemma AF_COUNT_MASK_eq: "AF_COUNT_MASK = mask 24"
  by (simp only: AF_COUNT_MASK_def AF_COUNT_BITS_def) (rule mask_word_eq, simp)

lemma AF_EPOCH_MASK_eq: "AF_EPOCH_MASK = mask 40"
  by (simp only: AF_EPOCH_MASK_def AF_EPOCH_BITS_def) (rule mask_word_eq, simp)

lemma unat_AF_COUNT_MASK: "unat AF_COUNT_MASK = 2 ^ 24 - 1"
  by (simp add: AF_COUNT_MASK_eq mask_eq_exp_minus_1)

lemma le_AF_COUNT_MASK: "c \<le> AF_COUNT_MASK \<longleftrightarrow> unat c < 2 ^ 24"
  unfolding word_le_nat_alt unat_AF_COUNT_MASK by auto

lemma af_unpack_pack: "af_unpack (af_pack e c) = (e AND AF_EPOCH_MASK, c AND AF_COUNT_MASK)"
proof -
  have "af_pack e c = pack_fields 24 e c"
    by (simp add: af_pack_def pack_fields_def AF_COUNT_MASK_eq AF_EPOCH_MASK_eq AF_COUNT_BITS_def)
  then show ?thesis
    by (simp add: af_unpack_def AF_COUNT_MASK_eq AF_EPOCH_MASK_eq AF_COUNT_BITS_def
        pack_fields_high pack_fields_low)
qed

lemma af_count_masked: "c \<le> AF_COUNT_MASK \<Longrightarrow> c AND AF_COUNT_MASK = c"
  by (simp only: le_AF_COUNT_MASK) (simp add: AF_COUNT_MASK_eq and_mask_same)

lemma af_epoch_masked [simp]: "(e AND AF_EPOCH_MASK) AND AF_EPOCH_MASK = e AND AF_EPOCH_MASK"
  by (simp add: and.assoc)

text \<open>The failures a slot holds for a window.\<close>

definition window_failures :: "u64 \<Rightarrow> u64 \<Rightarrow> u64" where
  "window_failures ep w = (let (e, c) = af_unpack w in if e = ep AND AF_EPOCH_MASK then c else 0)"

lemma failures_bound: "unat (window_failures ep w) < 2 ^ 24"
  by (simp add: window_failures_def af_unpack_def AF_COUNT_MASK_eq unat_and_mask case_prod_beta)

lemma failures_pack [simp]:
  "c \<le> AF_COUNT_MASK \<Longrightarrow>
     window_failures ep (af_pack e c) = (if e AND AF_EPOCH_MASK = ep AND AF_EPOCH_MASK then c else 0)"
  by (simp add: window_failures_def af_unpack_pack af_count_masked)

lemma current_count_failures: "current_count t source now = window_failures (af_epoch t now) (slot_for t source)"
  by (simp add: current_count_def window_failures_def Let_def)

lemma record_body_alone:
  "run_alone (record_failure_body (ep AND AF_EPOCH_MASK)) w =
     (let n = min (sat_add (window_failures ep w) 1) AF_COUNT_MASK in (af_pack (ep AND AF_EPOCH_MASK) n, n))"
  by (simp add: record_failure_body_def window_failures_def Let_def case_prod_beta)

lemma unat_next_failure:
  "unat (min (sat_add (window_failures ep w) 1) AF_COUNT_MASK) = min (unat (window_failures ep w) + 1) (2 ^ 24 - 1)"
  by (auto simp: min_def word_le_nat_alt unat_AF_COUNT_MASK unat_sat_add)

lemma failures_recorded:
  "unat (window_failures ep (fst (run_alone (record_failure_body (ep AND AF_EPOCH_MASK)) w))) =
     min (unat (window_failures ep w) + 1) (2 ^ 24 - 1)"
proof -
  have "min (sat_add (window_failures ep w) 1) AF_COUNT_MASK \<le> AF_COUNT_MASK" by simp
  then show ?thesis unfolding record_body_alone Let_def fst_conv failures_pack
    by (simp add: unat_next_failure)
qed

text \<open>Failures recorded one after the other are all counted.\<close>

lemma record_run_count:
  "unat (window_failures ep (fst (run_all (\<lambda>_. record_failure_body (ep AND AF_EPOCH_MASK)) w ts))) =
     min (unat (window_failures ep w) + length ts) (2 ^ 24 - 1)"
proof (induction ts arbitrary: w)
  case Nil
  then show ?case using failures_bound [of ep w] by simp
next
  case (Cons t ts)
  show ?case
    using Cons.IH [of "fst (run_alone (record_failure_body (ep AND AF_EPOCH_MASK)) w)"]
      failures_recorded [of ep w]
    by (simp add: Let_def case_prod_beta del: run_alone.simps)
qed

section \<open>Authentication attempts\<close>

text \<open>
  The callers consult the tracker first and record a failure only for an attempt that was let
  through: an attempt is its source, the instant of the check, and the instant its failure is
  recorded if it fails.
\<close>

type_synonym auth_try = "string \<times> u64 \<times> u64 option"

definition auth_attempt :: "auth_failure_tracker \<Rightarrow> auth_try \<Rightarrow> auth_throttle \<times> auth_failure_tracker" where
  "auth_attempt t a =
     (let (source, now, failed) = a
      in case auth_check t source now of
           Throttled r \<Rightarrow> (Throttled r, t)
         | Allow \<Rightarrow> (Allow, case failed of None \<Rightarrow> t | Some at \<Rightarrow> fst (auth_record_failure t source at)))"

fun auth_run :: "auth_failure_tracker \<Rightarrow> auth_try list \<Rightarrow> auth_throttle list \<times> auth_failure_tracker" where
  "auth_run t [] = ([], t)"
| "auth_run t (a # as) =
     (let (r, t') = auth_attempt t a; (rs, t'') = auth_run t' as in (r # rs, t''))"

text \<open>Failed attempts a run lets through on one slot.\<close>

fun guesses :: "auth_failure_tracker \<Rightarrow> nat \<Rightarrow> auth_try list \<Rightarrow> auth_throttle list \<Rightarrow> nat" where
  "guesses t i ((source, now, failed) # as) (r # rs) =
     (if slot_index t source = i \<and> failed \<noteq> None \<and> r = Allow then 1 else 0) + guesses t i as rs"
| "guesses t i _ _ = 0"

definition auth_tracker_ok :: "auth_failure_tracker \<Rightarrow> bool" where
  "auth_tracker_ok t \<longleftrightarrow> af_slots t \<noteq> [] \<and> 1 \<le> threshold (af_cfg t) \<and> threshold (af_cfg t) \<le> AF_COUNT_MASK \<and>
     1 \<le> window_ms (af_cfg t) \<and> 1 \<le> backoff_base_ms (af_cfg t) \<and>
     backoff_base_ms (af_cfg t) \<le> backoff_cap_ms (af_cfg t)"

lemma le_AF_COUNT_MASK_one: "1 \<le> AF_COUNT_MASK"
  by (simp add: word_le_nat_alt unat_AF_COUNT_MASK)

lemma max_one: "(1 :: u64) \<le> max x 1"
  by (rule max.cobounded2)

lemma clamp_between_bounds: "lo \<le> hi \<Longrightarrow> lo \<le> clamp_between x lo hi \<and> clamp_between x lo hi \<le> hi"
  by (auto simp: clamp_between_def)

lemma one_le_unat: "(1 :: u64) \<le> x \<Longrightarrow> unat x \<noteq> 0"
  by (simp add: word_le_nat_alt)

lemma auth_tracker_new_ok: "auth_tracker_ok (auth_tracker_new hasher cfg)"
proof -
  have "(1 :: u64) \<le> push_bit 20 1" by (simp add: push_bit_eq_mult word_le_nat_alt)
  then have "unat (clamp_between (slots cfg) 1 (push_bit 20 1)) \<noteq> 0"
    using clamp_between_bounds one_le_unat by blast
  then show ?thesis
    using clamp_between_bounds [OF le_AF_COUNT_MASK_one, of "threshold cfg"] max_one
    unfolding auth_tracker_ok_def auth_tracker_new_def sanitized_def Let_def by simp
qed

text \<open>An attempt changes the source's slot only, and only by counting a failure that was let through.\<close>

definition slot_count :: "auth_failure_tracker \<Rightarrow> u64 \<Rightarrow> nat \<Rightarrow> nat" where
  "slot_count t ep i = unat (window_failures ep (af_slots t ! i))"

lemma slot_index_bound: "auth_tracker_ok t \<Longrightarrow> slot_index t source < length (af_slots t)"
  by (simp add: slot_index_def auth_tracker_ok_def)

lemma record_slot_count:
  assumes "auth_tracker_ok t" and "af_epoch t at = ep"
  shows "slot_count (fst (auth_record_failure t source at)) ep i =
    (if i = slot_index t source then min (slot_count t ep i + 1) (2 ^ 24 - 1) else slot_count t ep i)"
  using failures_recorded [of ep "slot_for t source"] slot_index_bound [OF assms(1), of source] assms(2)
  by (simp add: auth_record_failure_def slot_count_def case_prod_beta Let_def slot_for_def del: run_alone.simps)

lemma auth_record_frame [simp]:
  "af_cfg (fst (auth_record_failure t source at)) = af_cfg t"
  "af_hasher (fst (auth_record_failure t source at)) = af_hasher t"
  "length (af_slots (fst (auth_record_failure t source at))) = length (af_slots t)"
  "af_slots (fst (auth_record_failure t source at)) = [] \<longleftrightarrow> af_slots t = []"
  by (simp_all add: auth_record_failure_def case_prod_beta Let_def)

lemma auth_record_index [simp]: "slot_index (fst (auth_record_failure t source at)) = slot_index t"
  by (simp add: fun_eq_iff slot_index_def)

lemma auth_record_epoch [simp]: "af_epoch (fst (auth_record_failure t source at)) = af_epoch t"
  by (simp add: fun_eq_iff af_epoch_def)

lemma auth_record_ok [simp]: "auth_tracker_ok (fst (auth_record_failure t source at)) = auth_tracker_ok t"
  unfolding auth_tracker_ok_def by simp

lemma auth_attempt_state:
  "snd (auth_attempt t a) = t \<or> (\<exists>source at. snd (auth_attempt t a) = fst (auth_record_failure t source at))"
  by (cases a; cases "auth_check t (fst a) (fst (snd a))"; cases "snd (snd a)") (auto simp: auth_attempt_def)

lemma auth_attempt_frame [simp]:
  "af_cfg (snd (auth_attempt t a)) = af_cfg t"
  "slot_index (snd (auth_attempt t a)) = slot_index t"
  "af_epoch (snd (auth_attempt t a)) = af_epoch t"
  "auth_tracker_ok (snd (auth_attempt t a)) = auth_tracker_ok t"
  using auth_attempt_state [of t a] by (elim disjE exE; simp)+

lemma auth_run_frame [simp]:
  "af_cfg (snd (auth_run t as)) = af_cfg t"
  "slot_index (snd (auth_run t as)) = slot_index t"
  "af_epoch (snd (auth_run t as)) = af_epoch t"
  by (induction as arbitrary: t) (simp_all add: case_prod_beta)

lemma guesses_cong: "slot_index t = slot_index t' \<Longrightarrow> guesses t i as rs = guesses t' i as rs"
  by (induction t i as rs rule: guesses.induct) auto

lemma auth_check_Allow:
  "auth_check t source now = Allow \<longleftrightarrow>
     slot_count t (af_epoch t now) (slot_index t source) < unat (threshold (af_cfg t))"
  by (simp add: auth_check_def current_count_failures slot_count_def slot_for_def Let_def word_le_nat_alt)

lemma auth_check_Throttled:
  "auth_check t source now \<noteq> Allow \<Longrightarrow>
     auth_check t source now =
       Throttled (max (div_ceil (backoff_ms t (current_count t source now)) 1000) 1)"
  by (auto simp: auth_check_def Let_def split: if_splits)

definition in_window :: "auth_failure_tracker \<Rightarrow> u64 \<Rightarrow> auth_try \<Rightarrow> bool" where
  "in_window t ep a = (case a of (source, now, failed) \<Rightarrow>
     af_epoch t now = ep \<and> (case failed of None \<Rightarrow> True | Some at \<Rightarrow> af_epoch t at = ep))"

lemma in_window_attempt [simp]: "in_window (snd (auth_attempt t a)) = in_window t"
  unfolding in_window_def auth_attempt_frame by (rule refl)

lemma attempt_slot_count:
  assumes "auth_tracker_ok t" and "in_window t ep (source, now, failed)"
  shows "slot_count (snd (auth_attempt t (source, now, failed))) ep i =
    slot_count t ep i +
      (if slot_index t source = i \<and> failed \<noteq> None \<and> fst (auth_attempt t (source, now, failed)) = Allow then 1 else 0)"
    and "fst (auth_attempt t (source, now, failed)) = Allow \<Longrightarrow> slot_index t source = i \<Longrightarrow>
      slot_count t ep i < unat (threshold (af_cfg t))"
proof -
  have ep: "af_epoch t now = ep" using assms(2) by (simp add: in_window_def)
  have bound: "unat (threshold (af_cfg t)) < 2 ^ 24"
    using assms(1) by (simp add: auth_tracker_ok_def le_AF_COUNT_MASK)
  show below: "fst (auth_attempt t (source, now, failed)) = Allow \<Longrightarrow> slot_index t source = i \<Longrightarrow>
      slot_count t ep i < unat (threshold (af_cfg t))"
    using auth_check_Allow [of t source now] ep
    by (auto simp: auth_attempt_def split: auth_throttle.splits)
  show "slot_count (snd (auth_attempt t (source, now, failed))) ep i = slot_count t ep i +
      (if slot_index t source = i \<and> failed \<noteq> None \<and> fst (auth_attempt t (source, now, failed)) = Allow then 1 else 0)"
  proof (cases "auth_check t source now")
    case Allow
    then show ?thesis
      using below bound record_slot_count [OF assms(1), of _ ep source i] assms(2)
      by (cases failed) (auto simp: auth_attempt_def in_window_def)
  next
    case (Throttled r)
    then show ?thesis by (simp add: auth_attempt_def)
  qed
qed

text \<open>
  A run within one window: every guess let through is counted, and no more are let through
  than the threshold leaves.
\<close>

lemma auth_run_guesses:
  assumes "auth_tracker_ok t" and "\<forall>a \<in> set as. in_window t ep a"
  shows "slot_count (snd (auth_run t as)) ep i = slot_count t ep i + guesses t i as (fst (auth_run t as)) \<and>
    guesses t i as (fst (auth_run t as)) \<le> unat (threshold (af_cfg t)) - slot_count t ep i"
  using assms
proof (induction as arbitrary: t)
  case (Cons a as)
  obtain source now failed where a: "a = (source, now, failed)" by (cases a)
  let ?t = "snd (auth_attempt t a)"
  have win: "in_window t ep (source, now, failed)" using Cons.prems a by simp
  note one = attempt_slot_count [OF Cons.prems(1) win, of i]
  have "\<forall>a \<in> set as. in_window ?t ep a" using Cons.prems by simp
  then have IH: "slot_count (snd (auth_run ?t as)) ep i = slot_count ?t ep i + guesses t i as (fst (auth_run ?t as)) \<and>
      guesses t i as (fst (auth_run ?t as)) \<le> unat (threshold (af_cfg t)) - slot_count ?t ep i"
    using Cons.IH [of ?t] Cons.prems(1) guesses_cong [of ?t t] by simp
  show ?case using IH one by (auto simp: a case_prod_beta split: if_splits)
qed simp

section \<open>The backoff an attempt is told\<close>

text \<open>
  As long as each failure is recorded in the window its check was made in, no slot ever counts
  past the threshold: the exponent of the backoff stays zero.
\<close>

definition calm :: "auth_failure_tracker \<Rightarrow> bool" where
  "calm t \<longleftrightarrow> (\<forall>w \<in> set (af_slots t). snd (af_unpack w) \<le> threshold (af_cfg t))"

lemma calm_new: "calm (auth_tracker_new hasher cfg)"
  by (auto simp: calm_def auth_tracker_new_def af_unpack_def Let_def)

lemma failures_le_raw: "window_failures ep w \<le> snd (af_unpack w)"
  by (simp add: window_failures_def case_prod_beta)

lemma calm_attempt:
  assumes "auth_tracker_ok t" and "calm t" and "in_window t ep a"
  shows "calm (snd (auth_attempt t a))"
proof -
  obtain source now failed where a: "a = (source, now, failed)" by (cases a)
  show ?thesis
  proof (cases "auth_check t source now = Allow \<and> failed \<noteq> None")
    case False
    then show ?thesis using assms(2) a
      by (cases "auth_check t source now"; cases failed) (simp_all add: auth_attempt_def)
  next
    case True
    then obtain at where failed: "failed = Some at" by blast
    have ep: "af_epoch t now = ep" "af_epoch t at = ep" using assms(3) a failed by (simp_all add: in_window_def)
    let ?n = "min (sat_add (window_failures ep (slot_for t source)) 1) AF_COUNT_MASK"
    have "unat (window_failures ep (slot_for t source)) < unat (threshold (af_cfg t))"
      using True auth_check_Allow [of t source now] ep by (simp add: slot_count_def slot_for_def)
    then have "?n \<le> threshold (af_cfg t)"
      by (simp add: word_le_nat_alt unat_next_failure)
    moreover have "?n \<le> AF_COUNT_MASK" by simp
    ultimately have "snd (af_unpack (af_pack (ep AND AF_EPOCH_MASK) ?n)) \<le> threshold (af_cfg t)"
      by (simp only: af_unpack_pack af_count_masked snd_conv)
    moreover have "snd (auth_attempt t a) =
        t\<lparr>af_slots := (af_slots t)[slot_index t source := af_pack (ep AND AF_EPOCH_MASK) ?n]\<rparr>"
      using True a failed ep
      by (simp add: auth_attempt_def auth_record_failure_def Let_def record_body_alone case_prod_beta
          del: run_alone.simps)
    ultimately show ?thesis
      using assms(2) by (auto simp: calm_def dest!: set_update_subset_insert [THEN subsetD])
  qed
qed

lemma backoff_at_threshold:
  assumes "auth_tracker_ok t" and "count \<le> threshold (af_cfg t)"
  shows "backoff_ms t count = backoff_base_ms (af_cfg t)"
proof -
  have "sat_sub count (threshold (af_cfg t)) = 0"
    using assms(2) by (simp add: word_unat_eq_iff unat_sat_sub word_le_nat_alt)
  moreover have "sat_mul (backoff_base_ms (af_cfg t)) 1 = backoff_base_ms (af_cfg t)"
    using unat_u64_lt [of "backoff_base_ms (af_cfg t)"] by (simp add: sat_mul_def)
  ultimately show ?thesis
    using assms(1) by (simp add: backoff_ms_def auth_tracker_ok_def Let_def min_def)
qed

definition base_retry_secs :: "auth_failure_tracker \<Rightarrow> u64" where
  "base_retry_secs t = max (div_ceil (backoff_base_ms (af_cfg t)) 1000) 1"

lemma auth_run_retry:
  assumes "auth_tracker_ok t" and "calm t" and "\<forall>a \<in> set as. \<exists>ep. in_window t ep a"
  shows "\<forall>r \<in> set (fst (auth_run t as)). r = Allow \<or> r = Throttled (base_retry_secs t)"
  using assms
proof (induction as arbitrary: t)
  case (Cons a as)
  obtain source now failed where a: "a = (source, now, failed)" by (cases a)
  obtain ep where "in_window t ep a" using Cons.prems by auto
  then have "calm (snd (auth_attempt t a))" using calm_attempt Cons.prems by blast
  then have IH: "\<forall>r \<in> set (fst (auth_run (snd (auth_attempt t a)) as)). r = Allow \<or> r = Throttled (base_retry_secs t)"
    using Cons.IH [of "snd (auth_attempt t a)"] Cons.prems by (simp add: base_retry_secs_def)
  have "slot_for t source \<in> set (af_slots t)"
    using slot_index_bound [OF Cons.prems(1)] by (simp add: slot_for_def)
  then have "current_count t source now \<le> threshold (af_cfg t)"
    using Cons.prems(2) failures_le_raw [of _ "slot_for t source"] order_trans
    by (simp add: calm_def current_count_failures) blast
  then have "fst (auth_attempt t a) = Allow \<or> fst (auth_attempt t a) = Throttled (base_retry_secs t)"
    using auth_check_Throttled [of t source now] backoff_at_threshold [OF Cons.prems(1)]
    by (cases "auth_check t source now") (simp_all add: auth_attempt_def a base_retry_secs_def)
  then show ?case using IH by (simp add: case_prod_beta)
qed simp

section \<open>Racing failures\<close>

text \<open>However failures race on a slot, the count of their window never falls.\<close>

interpretation recorders:
  cas_family "\<lambda>_. record_failure_body (ep AND AF_EPOCH_MASK)" "\<lambda>w. n \<le> unat (window_failures ep w)"
  for ep n
proof unfold_locales
  fix w w' :: u64 and r
  assume n: "n \<le> unat (window_failures ep w)" and swap: "record_failure_body (ep AND AF_EPOCH_MASK) w = Swap w' r"
  have "run_alone (record_failure_body (ep AND AF_EPOCH_MASK)) w = (w', r)" using swap by simp
  then have "unat (window_failures ep w') = min (unat (window_failures ep w) + 1) (2 ^ 24 - 1)"
    using failures_recorded [of ep w] by simp
  then show "n \<le> unat (window_failures ep w')" using n failures_bound [of ep w] by simp
qed

text \<open>No failure is lost: an interleaving that finished \<open>n\<close> calls counted \<open>n\<close> failures.\<close>

lemma racing_failures:
  assumes "cell_reachable (\<lambda>_ :: 'i. record_failure_body (ep AND AF_EPOCH_MASK)) w0 s"
  shows "unat (window_failures ep (cell s)) = min (unat (window_failures ep w0) + length (history s)) (2 ^ 24 - 1)"
  using reachable_linearized [OF assms]
    record_run_count [of ep w0 "map fst (history s)"]
  by (simp add: linearized_def)

section \<open>Properties\<close>

lemma brute_force_bounded_parts:
  assumes "auth_tracker_ok t" and "\<forall>a \<in> set as. in_window t ep a"
  shows "guesses t i as (fst (auth_run t as)) \<le> unat (threshold (af_cfg t)) - slot_count t ep i"
    and "slot_count (snd (auth_run t as)) ep i = slot_count t ep i + guesses t i as (fst (auth_run t as))"
    and "af_epoch t now = ep \<Longrightarrow> auth_check (snd (auth_run t as)) source now \<noteq> Allow \<Longrightarrow>
      unat (threshold (af_cfg t)) \<le>
        slot_count t ep (slot_index t source) + guesses t (slot_index t source) as (fst (auth_run t as))"
proof -
  note run = auth_run_guesses [OF assms]
  show "guesses t i as (fst (auth_run t as)) \<le> unat (threshold (af_cfg t)) - slot_count t ep i"
    and "slot_count (snd (auth_run t as)) ep i = slot_count t ep i + guesses t i as (fst (auth_run t as))"
    using run by blast+
  assume "af_epoch t now = ep" and "auth_check (snd (auth_run t as)) source now \<noteq> Allow"
  then show "unat (threshold (af_cfg t)) \<le>
      slot_count t ep (slot_index t source) + guesses t (slot_index t source) as (fst (auth_run t as))"
    using run [of "slot_index t source"] by (simp add: auth_check_Allow)
qed



subsection \<open>Further facts\<close>

text \<open>
  As long as every failure is recorded in the window of its own check, a throttled source is always told the base backoff, in any run from a fresh tracker: the count never passes the threshold, so the exponential escalation is never reached.
\<close>

lemma backoff_never_escalates:
  assumes "\<forall>a \<in> set as. \<exists>ep. in_window (auth_tracker_new hasher cfg) ep a"
  shows "\<forall>r \<in> set (fst (auth_run (auth_tracker_new hasher cfg) as)).
    r = Allow \<or> r = Throttled (base_retry_secs (auth_tracker_new hasher cfg))"
  by (rule auth_run_retry [OF auth_tracker_new_ok calm_new assms])

text \<open>
  However concurrent failures race on one slot, every one that has finished is counted exactly once in its window, up to the counter's width: a burst of parallel guesses cannot hide any of them.
\<close>

lemma racing_failures_counted:
  assumes "cell_reachable (\<lambda>_ :: 'i. record_failure_body (ep AND AF_EPOCH_MASK)) w0 s"
  shows "unat (window_failures ep (cell s)) = min (unat (window_failures ep w0) + length (history s)) (2 ^ 24 - 1)"
  by (rule racing_failures [OF assms])

end
