(* ===== verification/Pricing.thy ===== *)
theory Pricing
  imports Rust_Strings
begin

text \<open>
  Cost attribution: the price book of \<^verbatim>\<open>crates/limits/src/lib.rs\<close>, the currency table of
  \<^verbatim>\<open>fx.rs\<close> and the cost breakdown of \<^verbatim>\<open>pricing.rs\<close>. \<^verbatim>\<open>str::to_uppercase\<close> maps through the
  Unicode tables of the standard library; the table is a parameter (\<open>upper\<close>). A parsed
  configuration map is the list of its entries in the order its iterator yields them.
\<close>

section \<open>The price book\<close>

definition PRICE_BOOK :: "(string \<times> u64 \<times> u64) list" where
  "PRICE_BOOK =
     [(''gpt-4o-mini'', 150000, 600000),
      (''gpt-4o'', 3000000, 10000000),
      (''o1-mini'', 1100000, 4400000),
      (''o1'', 15000000, 60000000),
      (''gpt-4-turbo'', 10000000, 30000000),
      (''gpt-3.5'', 500000, 1500000),
      (''claude-3-5-haiku'', 800000, 4000000),
      (''claude-3-haiku'', 250000, 1250000),
      (''claude-3-opus'', 15000000, 75000000),
      (''claude-3-5-sonnet'', 3000000, 15000000),
      (''claude-3'', 3000000, 15000000),
      (''claude'', 3000000, 15000000),
      (''gemini-1.5-flash'', 75000, 300000),
      (''gemini-2.0-flash'', 100000, 400000),
      (''gemini-1.5-pro'', 1250000, 5000000),
      (''gemini'', 1250000, 5000000)]"

definition DEFAULT_RATE :: "u64 \<times> u64" where
  "DEFAULT_RATE = (2000000, 6000000)"

definition SHORT_PATTERN_LEN :: nat where
  "SHORT_PATTERN_LEN = 3"

definition pattern_matches :: "string \<Rightarrow> string \<Rightarrow> bool" where
  "pattern_matches model pat =
     (if SHORT_PATTERN_LEN < length pat then contains model pat
      else list_ex (\<lambda>start.
        let starts_at_boundary = (start = 0 \<or> model ! (start - 1) = CHR ''/'');
            end = start + length pat;
            ends_at_boundary = (end = length model \<or> \<not> is_ascii_alphanumeric (model ! end))
        in starts_at_boundary \<and> ends_at_boundary) (match_offsets 0 model pat))"

definition price_for :: "string \<Rightarrow> (u64 \<times> u64) option" where
  "price_for model = map_option snd (find (\<lambda>(pat, _, _). pattern_matches model pat) PRICE_BOOK)"

definition estimate_cost_micro_usd :: "string \<Rightarrow> u32 \<Rightarrow> u32 \<Rightarrow> u64" where
  "estimate_cost_micro_usd model prompt_tokens completion_tokens =
     (let (prompt_rate, completion_rate) = (case price_for model of Some r \<Rightarrow> r | None \<Rightarrow> DEFAULT_RATE);
          micro = sat_add (sat_mul (ucast prompt_tokens) prompt_rate)
                    (sat_mul (ucast completion_tokens) completion_rate)
      in micro div 1000000)"

section \<open>The currency table\<close>

record currency_rate =
  minor_per_usd :: u64
  exponent :: "8 word"

record fx_rates =
  fx_rates_map :: "string \<rightharpoonup> currency_rate"
  fx_region_currency :: "string \<rightharpoonup> string"
  fx_default_currency :: string

record fx_rates_config =
  fc_rates :: "(string \<times> currency_rate) list"
  fc_region_currency :: "(string \<times> string) list"
  fc_default_currency :: "string option"

definition fx_default :: fx_rates where
  "fx_default =
     \<lparr>fx_rates_map = map_of
        [(''INR'', \<lparr>minor_per_usd = 8300, exponent = 2\<rparr>),
         (''EUR'', \<lparr>minor_per_usd = 92, exponent = 2\<rparr>),
         (''AED'', \<lparr>minor_per_usd = 3672, exponent = 2\<rparr>),
         (''USD'', \<lparr>minor_per_usd = 100, exponent = 2\<rparr>)],
      fx_region_currency = map_of [(''IN'', ''INR''), (''EU'', ''EUR''), (''AE'', ''AED'')],
      fx_default_currency = ''USD''\<rparr>"

definition add_rate :: "(string \<Rightarrow> string) \<Rightarrow> fx_rates \<Rightarrow> string \<times> currency_rate \<Rightarrow> fx_rates" where
  "add_rate upper t = (\<lambda>(code, rate). t\<lparr>fx_rates_map := (fx_rates_map t)(upper code \<mapsto> rate)\<rparr>)"

definition add_region :: "(string \<Rightarrow> string) \<Rightarrow> fx_rates \<Rightarrow> string \<times> string \<Rightarrow> fx_rates" where
  "add_region upper t = (\<lambda>(region, code).
     t\<lparr>fx_region_currency := (fx_region_currency t)(upper region \<mapsto> upper code)\<rparr>)"

definition fx_merged :: "(string \<Rightarrow> string) \<Rightarrow> fx_rates \<Rightarrow> fx_rates_config \<Rightarrow> fx_rates" where
  "fx_merged upper t cfg =
     (let t = foldl (add_rate upper) t (fc_rates cfg);
          t = foldl (add_region upper) t (fc_region_currency cfg)
      in case fc_default_currency cfg of
           None \<Rightarrow> t
         | Some dc \<Rightarrow>
             (let dc = upper dc
              in if fx_rates_map t dc \<noteq> None then t\<lparr>fx_default_currency := dc\<rparr> else t))"

text \<open>A document that does not parse keeps the default table.\<close>

definition fx_from_json :: "(string \<Rightarrow> string) \<Rightarrow> fx_rates_config option \<Rightarrow> fx_rates" where
  "fx_from_json upper parsed =
     (case parsed of Some cfg \<Rightarrow> fx_merged upper fx_default cfg | None \<Rightarrow> fx_default)"

definition fx_knows :: "(string \<Rightarrow> string) \<Rightarrow> fx_rates \<Rightarrow> string \<Rightarrow> bool" where
  "fx_knows upper t code \<longleftrightarrow> fx_rates_map t (upper code) \<noteq> None"

definition region_currency :: "(string \<Rightarrow> string) \<Rightarrow> fx_rates \<Rightarrow> string option \<Rightarrow> string" where
  "region_currency upper t region =
     (case Option.bind region (\<lambda>r. fx_region_currency t (upper r)) of
        Some c \<Rightarrow> c
      | None \<Rightarrow> fx_default_currency t)"

definition fx_resolve ::
  "(string \<Rightarrow> string) \<Rightarrow> fx_rates \<Rightarrow> string option \<Rightarrow> string option \<Rightarrow> string \<times> currency_rate" where
  "fx_resolve upper t display region =
     (case Option.bind display (\<lambda>code. map_option (Pair (upper code)) (fx_rates_map t (upper code))) of
        Some r \<Rightarrow> r
      | None \<Rightarrow>
          (let region_code = region_currency upper t region
           in case fx_rates_map t region_code of
                Some rate \<Rightarrow> (region_code, rate)
              | None \<Rightarrow>
                  (let dc = fx_default_currency t
                   in (dc, case fx_rates_map t dc of
                             Some rate \<Rightarrow> rate
                           | None \<Rightarrow> \<lparr>minor_per_usd = 100, exponent = 2\<rparr>))))"

definition micro_usd_to_minor_units :: "u64 \<Rightarrow> currency_rate \<Rightarrow> u64" where
  "micro_usd_to_minor_units micro_usd rate = sat_mul micro_usd (minor_per_usd rate) div 1000000"

section \<open>The breakdown\<close>

record cost_breakdown =
  cb_micro_usd :: u64
  cb_currency :: string
  cb_minor_units :: u64
  cb_region :: "string option"

definition cost_breakdown_with ::
  "(string \<Rightarrow> string) \<Rightarrow> fx_rates \<Rightarrow> string option \<Rightarrow> string \<Rightarrow> string option \<Rightarrow> u32 \<Rightarrow> u32 \<Rightarrow> cost_breakdown" where
  "cost_breakdown_with upper rates display_currency model region prompt_tokens completion_tokens =
     (let micro_usd = estimate_cost_micro_usd model prompt_tokens completion_tokens;
          (currency, rate) = fx_resolve upper rates display_currency region;
          minor_units = micro_usd_to_minor_units micro_usd rate
      in \<lparr>cb_micro_usd = micro_usd, cb_currency = currency, cb_minor_units = minor_units, cb_region = region\<rparr>)"

definition cost_breakdown_of ::
  "(string \<Rightarrow> string) \<Rightarrow> string \<Rightarrow> string option \<Rightarrow> u32 \<Rightarrow> u32 \<Rightarrow> cost_breakdown" where
  "cost_breakdown_of upper model region prompt_tokens completion_tokens =
     cost_breakdown_with upper fx_default None model region prompt_tokens completion_tokens"

section \<open>Matching\<close>

text \<open>A pattern none of whose proper suffixes starts it again: matches cannot overlap.\<close>

definition borderless :: "string \<Rightarrow> bool" where
  "borderless pat \<longleftrightarrow> pat \<noteq> [] \<and> list_all (\<lambda>k. \<not> prefix (drop k pat) pat) [1..<length pat]"

lemma borderless_no_overlap:
  assumes "borderless pat" and "prefix pat s" and "prefix pat (drop k s)" and "0 < k"
  shows "length pat \<le> k"
proof (rule ccontr)
  assume "\<not> length pat \<le> k"
  then have k: "k < length pat" by simp
  obtain t where s: "s = pat @ t" using assms(2) by (auto simp: prefix_def)
  obtain u where u: "drop k s = pat @ u" using assms(3) by (auto simp: prefix_def)
  have "drop k pat @ t = pat @ u" using s u k by simp
  then have "prefix (drop k pat) (pat @ u)" by (metis prefixI)
  then have "prefix (drop k pat) pat"
    by (metis \<open>drop k pat @ t = pat @ u\<close> append_eq_append_conv_if diff_le_self length_drop prefix_length_prefix prefixI)
  then show False using assms(1,4) k by (auto simp: borderless_def list_all_iff)
qed

lemma match_offsets_iff:
  "borderless pat \<Longrightarrow> j \<in> set (match_offsets i s pat) \<longleftrightarrow> i \<le> j \<and> prefix pat (drop (j - i) s)"
proof (induction i s pat rule: match_offsets.induct)
  case (1 i pat)
  then show ?case by (auto simp: borderless_def)
next
  case (2 i c s pat)
  have ne: "pat \<noteq> []" using "2.prems" by (simp add: borderless_def)
  show ?case
  proof (cases "prefix pat (c # s)")
    case True
    have "j \<in> set (match_offsets i (c # s) pat) \<longleftrightarrow>
        j = i \<or> (i + length pat \<le> j \<and> prefix pat (drop (j - i) (c # s)))"
      using True ne "2.IH"(2) [OF True ne "2.prems"] by auto
    moreover have "length pat \<le> j - i" if "prefix pat (drop (j - i) (c # s))" "i < j"
      using borderless_no_overlap [OF "2.prems" True that(1)] that(2) by simp
    ultimately show ?thesis using True by (cases "j = i") auto
  next
    case False
    then show ?thesis using "2.IH"(3) [OF False "2.prems"] by (cases "j = i") (auto simp: drop_Cons')
  qed
qed

definition token_ends :: "string \<Rightarrow> bool" where
  "token_ends post \<longleftrightarrow> (case post of [] \<Rightarrow> True | c # _ \<Rightarrow> \<not> is_ascii_alphanumeric c)"

text \<open>A short pattern prices a model only where it stands as a token of its own.\<close>

lemma short_pattern_matches:
  assumes "borderless pat" and "length pat \<le> SHORT_PATTERN_LEN"
  shows "pattern_matches model pat \<longleftrightarrow>
    (\<exists>before post. model = before @ pat @ post \<and> (before = [] \<or> last before = CHR ''/'') \<and> token_ends post)"
proof -
  have ne: "pat \<noteq> []" using assms by (simp add: borderless_def)
  have split: "\<exists>before post. model = before @ pat @ post \<and> length before = j" if p: "prefix pat (drop j model)" for j
  proof -
    obtain post where post: "drop j model = pat @ post" using p by (auto simp: prefix_def)
    have "j \<le> length model" using post ne by (cases "j \<le> length model") auto
    then show ?thesis
      using append_take_drop_id [of j model] post by (intro exI [of _ "take j model"] exI [of _ post]) simp
  qed
  have "pattern_matches model pat \<longleftrightarrow> (\<exists>j. prefix pat (drop j model) \<and>
      (j = 0 \<or> model ! (j - 1) = CHR ''/'') \<and>
      (j + length pat = length model \<or> \<not> is_ascii_alphanumeric (model ! (j + length pat))))"
    using assms(2)
    by (simp add: pattern_matches_def list_ex_iff Let_def match_offsets_iff [OF assms(1)] Bex_def)
  also have "\<dots> \<longleftrightarrow> (\<exists>before post. model = before @ pat @ post \<and> (before = [] \<or> last before = CHR ''/'') \<and> token_ends post)"
    (is "?l \<longleftrightarrow> ?r")
  proof
    assume ?l
    then obtain j before post where m: "model = before @ pat @ post" "length before = j"
        and b: "j = 0 \<or> model ! (j - 1) = CHR ''/''"
        and e: "j + length pat = length model \<or> \<not> is_ascii_alphanumeric (model ! (j + length pat))"
      using split by blast
    have "before = [] \<or> last before = CHR ''/''"
      using m b by (cases "before = []") (auto simp: nth_append last_conv_nth)
    moreover have "token_ends post"
      using m e by (cases post) (auto simp: token_ends_def nth_append)
    ultimately show ?r using m by blast
  next
    assume ?r
    then obtain before post where m: "model = before @ pat @ post"
        and b: "before = [] \<or> last before = CHR ''/''" and e: "token_ends post" by blast
    have "length before = 0 \<or> model ! (length before - 1) = CHR ''/''"
      using m b by (cases "before = []") (auto simp: nth_append last_conv_nth)
    moreover have "length before + length pat = length model \<or>
        \<not> is_ascii_alphanumeric (model ! (length before + length pat))"
      using m e by (cases post) (auto simp: token_ends_def nth_append)
    moreover have "prefix pat (drop (length before) model)" using m by simp
    ultimately show ?l by blast
  qed
  finally show ?thesis .
qed

lemma long_pattern_matches:
  "SHORT_PATTERN_LEN < length pat \<Longrightarrow> pattern_matches model pat \<longleftrightarrow> sublist pat model"
  by (simp add: pattern_matches_def contains_sublist)

section \<open>Cost\<close>

lemma price_bounds:
  assumes "price_for model = Some (p, c)"
  shows "unat p \<le> 15000000 \<and> unat c \<le> 75000000"
proof -
  have "\<forall>(pat, p, c) \<in> set PRICE_BOOK. unat p \<le> 15000000 \<and> unat c \<le> 75000000"
    by (simp add: PRICE_BOOK_def)
  moreover obtain pat where "(pat, p, c) \<in> set PRICE_BOOK"
    using assms by (auto simp: price_for_def find_Some_iff) (metis nth_mem)
  ultimately show ?thesis by fast
qed

lemma unat_ucast_u32: "unat (ucast (w :: u32) :: u64) = unat w"
  by (simp add: unsigned_ucast_eq take_bit_nat_eq_self unsigned_less [THEN less_trans])

lemma estimate_cost_exact:
  defines "rate model \<equiv> (case price_for model of Some r \<Rightarrow> r | None \<Rightarrow> DEFAULT_RATE)"
  shows "unat (estimate_cost_micro_usd model pt ct) =
    (unat pt * unat (fst (rate model)) + unat ct * unat (snd (rate model))) div 1000000"
proof -
  obtain p c where r: "rate model = (p, c)" by fastforce
  have b: "unat p \<le> 15000000" "unat c \<le> 75000000"
    using r price_bounds [of model p c]
    by (auto simp: rate_def DEFAULT_RATE_def split: option.splits)
  have t: "unat pt < 4294967296" "unat ct < 4294967296"
    using unsigned_less [of pt] unsigned_less [of ct] by simp_all
  have m: "unat pt * unat p \<le> 4294967296 * 15000000" "unat ct * unat c \<le> 4294967296 * 75000000"
    using b t by (intro mult_le_mono; simp)+
  then show ?thesis
    using r by (simp add: estimate_cost_micro_usd_def rate_def [symmetric] unat_div_u64 unat_sat_add
        unat_sat_mul unat_ucast_u32)
qed

text \<open>No row of the book is shadowed: each pattern prices as its own row.\<close>

lemma rows_reachable: "\<forall>(pat, rates) \<in> set PRICE_BOOK. price_for pat = Some rates"
  by (simp add: price_for_def PRICE_BOOK_def pattern_matches_def SHORT_PATTERN_LEN_def)

section \<open>Currencies\<close>

text \<open>The table's invariant: the global default is a currency it knows.\<close>

definition fx_ok :: "fx_rates \<Rightarrow> bool" where
  "fx_ok t \<longleftrightarrow> fx_rates_map t (fx_default_currency t) \<noteq> None"

lemma fx_default_ok: "fx_ok fx_default"
  by (simp add: fx_ok_def fx_default_def)

lemma add_rates_frame:
  "fx_default_currency (foldl (add_rate upper) t rs) = fx_default_currency t"
  "fx_region_currency (foldl (add_rate upper) t rs) = fx_region_currency t"
  "fx_rates_map t k \<noteq> None \<Longrightarrow> fx_rates_map (foldl (add_rate upper) t rs) k \<noteq> None"
  by (induction rs arbitrary: t) (auto simp: add_rate_def)

lemma add_regions_frame:
  "fx_default_currency (foldl (add_region upper) t rs) = fx_default_currency t"
  "fx_rates_map (foldl (add_region upper) t rs) = fx_rates_map t"
  by (induction rs arbitrary: t) (auto simp: add_region_def)

lemma fx_merged_ok: "fx_ok t \<Longrightarrow> fx_ok (fx_merged upper t cfg)"
  using add_rates_frame(3) [of t "fx_default_currency t" upper "fc_rates cfg"]
  by (auto simp: fx_ok_def fx_merged_def Let_def add_rates_frame(1) add_regions_frame split: option.splits)

lemma fx_from_json_ok: "fx_ok (fx_from_json upper parsed)"
  by (cases parsed) (simp_all add: fx_from_json_def fx_default_ok fx_merged_ok)

text \<open>A resolved currency is in the table, with the table's rate.\<close>

lemma fx_resolve_known:
  "fx_ok t \<Longrightarrow> fx_rates_map t (fst (fx_resolve upper t display region)) = Some (snd (fx_resolve upper t display region))"
  by (auto simp: fx_resolve_def fx_ok_def Let_def bind_eq_Some_conv split: option.splits)

lemma fx_resolve_header:
  "fx_rates_map t (upper code) = Some rate \<Longrightarrow> fx_resolve upper t (Some code) region = (upper code, rate)"
  by (simp add: fx_resolve_def)

lemma fx_resolve_unknown_header:
  "fx_rates_map t (upper code) = None \<Longrightarrow> fx_resolve upper t (Some code) region = fx_resolve upper t None region"
  by (simp add: fx_resolve_def)

lemma fx_resolve_region:
  "fx_region_currency t (upper r) = Some c \<Longrightarrow> fx_rates_map t c = Some rate \<Longrightarrow>
     fx_resolve upper t None (Some r) = (c, rate)"
  by (simp add: fx_resolve_def region_currency_def)

lemma unat_minor_units:
  "unat m * unat (minor_per_usd rate) < 2 ^ 64 \<Longrightarrow>
     unat (micro_usd_to_minor_units m rate) = unat m * unat (minor_per_usd rate) div 1000000"
  by (simp add: micro_usd_to_minor_units_def unat_div_u64 unat_sat_mul)

section \<open>Properties\<close>

subsection \<open>Further facts\<close>

text \<open>
  For every model and all 32-bit token counts the estimated cost is the exact floor of tokens times rates per million, with the default rate for a model the book does not price: no intermediate product or sum saturates.
\<close>

lemma cost_is_exact:
  "unat (estimate_cost_micro_usd model pt ct) =
    (unat pt * unat (fst (case price_for model of Some r \<Rightarrow> r | None \<Rightarrow> DEFAULT_RATE)) +
     unat ct * unat (snd (case price_for model of Some r \<Rightarrow> r | None \<Rightarrow> DEFAULT_RATE))) div 1000000"
  by (rule estimate_cost_exact)

text \<open>
  Every row of the price book prices its own model, so no row is shadowed by an earlier one; a pattern longer than three bytes matches as a substring; and a short one that cannot overlap itself, such as o1, matches only as a token of its own, at the start or after a slash and before the end or a non-alphanumeric byte.
\<close>

lemma price_patterns:
  "list_all (\<lambda>(pat, rates). price_for pat = Some rates) PRICE_BOOK"
  "pattern_matches model ''o1'' \<longleftrightarrow>
     (\<exists>before post. model = before @ ''o1'' @ post \<and> (before = [] \<or> last before = CHR ''/'') \<and> token_ends post)"
  "SHORT_PATTERN_LEN < length pat \<Longrightarrow> pattern_matches model pat \<longleftrightarrow> sublist pat model"
proof -
  show "list_all (\<lambda>(pat, rates). price_for pat = Some rates) PRICE_BOOK"
    using rows_reachable by (simp add: list_all_iff)
  have "borderless ''o1''" by (simp add: borderless_def)
  then show "pattern_matches model ''o1'' \<longleftrightarrow>
     (\<exists>before post. model = before @ ''o1'' @ post \<and> (before = [] \<or> last before = CHR ''/'') \<and> token_ends post)"
    by (rule short_pattern_matches) (simp add: SHORT_PATTERN_LEN_def)
  show "SHORT_PATTERN_LEN < length pat \<Longrightarrow> pattern_matches model pat \<longleftrightarrow> sublist pat model"
    by (rule long_pattern_matches)
qed

text \<open>
  Whatever configuration is loaded, or if none parses, resolving a display currency always returns a currency of the table with the table's own rate; a known requested code wins, and an unknown one is ignored in favour of the region's or the default currency.
\<close>

lemma display_currency_known:
  "fx_rates_map (fx_from_json upper parsed) (fst (fx_resolve upper (fx_from_json upper parsed) display region)) =
     Some (snd (fx_resolve upper (fx_from_json upper parsed) display region))"
  "fx_rates_map (fx_from_json upper parsed) (upper code) = Some rate \<Longrightarrow>
     fx_resolve upper (fx_from_json upper parsed) (Some code) region = (upper code, rate)"
  "fx_rates_map (fx_from_json upper parsed) (upper code) = None \<Longrightarrow>
     fx_resolve upper (fx_from_json upper parsed) (Some code) region =
     fx_resolve upper (fx_from_json upper parsed) None region"
  by (simp_all add: fx_resolve_known fx_from_json_ok fx_resolve_header fx_resolve_unknown_header)

end
