(* ===== verification/Unicode_Fold.thy ===== *)
theory Unicode_Fold
  imports Prelude
begin

text \<open>
  The recognizer front end of \<^verbatim>\<open>crates/unicode\<close>: which characters count as invisible,
  how a confusable letter or a non-ASCII decimal digit folds to its ASCII skeleton, and the
  normalization the residency classifier and the masker apply before matching. A Rust
  \<^verbatim>\<open>char\<close> is its code point and a \<^verbatim>\<open>&str\<close> the list of its code points (\<open>utext\<close>);
  \<open>utf8\<close> gives the bytes of \<^verbatim>\<open>as_bytes\<close>.
\<close>

named_theorems folding \<open>how normalization acts on a single character\<close>

type_synonym utext = "nat list"

section \<open>Strings as code points\<close>

text \<open>The code points of an ASCII literal.\<close>

definition lit :: "string \<Rightarrow> utext" where
  "lit s = map of_char s"

definition utf8_char :: "nat \<Rightarrow> nat list" where
  "utf8_char c =
     (if c < 0x80 then [c]
      else if c < 0x800 then [0xC0 + c div 64, 0x80 + c mod 64]
      else if c < 0x10000 then [0xE0 + c div 4096, 0x80 + c div 64 mod 64, 0x80 + c mod 64]
      else [0xF0 + c div 262144, 0x80 + c div 4096 mod 64, 0x80 + c div 64 mod 64, 0x80 + c mod 64])"

definition utf8 :: "utext \<Rightarrow> nat list" where
  "utf8 s = concat (map utf8_char s)"

definition is_ascii :: "nat \<Rightarrow> bool" where
  "is_ascii c = (c < 0x80)"

definition is_ascii_digit :: "nat \<Rightarrow> bool" where
  "is_ascii_digit c = (0x30 \<le> c \<and> c \<le> 0x39)"

lemma utf8_nil [simp]: "utf8 [] = []"
  by (simp add: utf8_def)

lemma utf8_cons [simp]: "utf8 (c # s) = utf8_char c @ utf8 s"
  by (simp add: utf8_def)

lemma utf8_append: "utf8 (s @ t) = utf8 s @ utf8 t"
  by (simp add: utf8_def)

lemma utf8_char_ascii: "c < 0x80 \<Longrightarrow> utf8_char c = [c]"
  by (simp add: utf8_char_def)

lemma utf8_char_wide: "\<not> c < 0x80 \<Longrightarrow> b \<in> set (utf8_char c) \<Longrightarrow> 0x80 \<le> b"
  by (auto simp: utf8_char_def split: if_splits)

lemma utf8_ascii: "\<forall>c\<in>set s. c < 0x80 \<Longrightarrow> utf8 s = s"
  by (induction s) (simp_all add: utf8_char_ascii)

text \<open>An ASCII byte of the encoding is an ASCII character of the text, so filtering for a class
  of ASCII characters commutes with the encoding.\<close>

lemma filter_utf8:
  assumes "\<And>c. p c \<Longrightarrow> c < 0x80"
  shows "filter p (utf8 s) = filter p s"
proof (induction s)
  case (Cons c s)
  have "filter p (utf8_char c) = filter p [c]"
  proof (cases "c < 0x80")
    case False
    then have "\<forall>b\<in>set (utf8_char c). \<not> p b" using assms utf8_char_wide by fastforce
    then show ?thesis using False assms by (auto simp: filter_empty_conv)
  qed (simp add: utf8_char_ascii)
  then show ?case using Cons by simp
qed simp

section \<open>Invisible characters\<close>

definition is_invisible :: "nat \<Rightarrow> bool" where
  "is_invisible c =
     (c = 0x00AD \<or> c = 0x180E \<or> (0x200B \<le> c \<and> c \<le> 0x200F) \<or> (0x202A \<le> c \<and> c \<le> 0x202E) \<or>
      (0x2060 \<le> c \<and> c \<le> 0x2064) \<or> (0x2066 \<le> c \<and> c \<le> 0x2069) \<or> c = 0xFEFF \<or>
      (0xE0000 \<le> c \<and> c \<le> 0xE007F))"

definition contains_invisible_unicode :: "utext \<Rightarrow> bool" where
  "contains_invisible_unicode text = list_ex is_invisible text"

text \<open>The \<^verbatim>\<open>Cow\<close> results are modelled by the text they hold; the borrowed case is the
  branch that returns the argument itself.\<close>

definition strip_invisible :: "utext \<Rightarrow> utext" where
  "strip_invisible text =
     (if \<not> contains_invisible_unicode text then text
      else filter (\<lambda>c. \<not> is_invisible c) text)"

section \<open>Confusables\<close>

definition digit_zeros :: "nat list" where
  "digit_zeros = [0x0660, 0x06F0, 0x0966, 0x09E6, 0x0A66, 0x0AE6, 0x0B66, 0x0BE6, 0x0C66, 0x0CE6,
                  0x0D66, 0xFF10]"

text \<open>The first zero \<open>z\<close> of the list with \<open>z \<le> c < z + 10\<close> decides, as in the loop.\<close>

definition fold_digit :: "nat \<Rightarrow> nat option" where
  "fold_digit c =
     map_option (\<lambda>z. 0x30 + (c - z)) (find (\<lambda>z. z \<le> c \<and> c < z + 10) digit_zeros)"

definition homoglyphs :: "(nat list \<times> char) list" where
  "homoglyphs =
    [([0x0410, 0x0391], CHR ''A''),
     ([0x0412, 0x0392], CHR ''B''),
     ([0x0421], CHR ''C''),
     ([0x0415, 0x0395], CHR ''E''),
     ([0x041D, 0x0397], CHR ''H''),
     ([0x0406, 0x0399], CHR ''I''),
     ([0x0408], CHR ''J''),
     ([0x041A, 0x039A], CHR ''K''),
     ([0x041C, 0x039C], CHR ''M''),
     ([0x039D], CHR ''N''),
     ([0x041E, 0x039F], CHR ''O''),
     ([0x0420, 0x03A1], CHR ''P''),
     ([0x0405], CHR ''S''),
     ([0x0422, 0x03A4], CHR ''T''),
     ([0x0425, 0x03A7], CHR ''X''),
     ([0x0423, 0x03A5], CHR ''Y''),
     ([0x0396], CHR ''Z''),
     ([0x0430], CHR ''a''),
     ([0x0441], CHR ''c''),
     ([0x0435], CHR ''e''),
     ([0x043E], CHR ''o''),
     ([0x0440], CHR ''p''),
     ([0x0455], CHR ''s''),
     ([0x0445], CHR ''x''),
     ([0x0443], CHR ''y''),
     ([0x0456], CHR ''i''),
     ([0x0458], CHR ''j'')]"

definition fold_homoglyph :: "nat \<Rightarrow> nat" where
  "fold_homoglyph c =
     (case find (\<lambda>(cs, _). c \<in> set cs) homoglyphs of
        Some (_, t) \<Rightarrow> of_char t
      | None \<Rightarrow> c)"

definition fold_confusable :: "nat \<Rightarrow> nat" where
  "fold_confusable c =
     (if is_ascii c then c
      else case fold_digit c of
        Some d \<Rightarrow> d
      | None \<Rightarrow>
          if 0xFF21 \<le> c \<and> c \<le> 0xFF3A then 0x41 + (c - 0xFF21)
          else if 0xFF41 \<le> c \<and> c \<le> 0xFF5A then 0x61 + (c - 0xFF41)
          else fold_homoglyph c)"

definition contains_confusable :: "utext \<Rightarrow> bool" where
  "contains_confusable text = list_ex (\<lambda>c. fold_confusable c \<noteq> c) text"

definition fold_confusables :: "utext \<Rightarrow> utext" where
  "fold_confusables text = (if \<not> contains_confusable text then text else map fold_confusable text)"

definition normalize_for_recognition :: "utext \<Rightarrow> utext" where
  "normalize_for_recognition text = fold_confusables (strip_invisible text)"

section \<open>What normalization does\<close>

lemma strip_invisible_filter: "strip_invisible text = filter (\<lambda>c. \<not> is_invisible c) text"
  by (auto simp: strip_invisible_def contains_invisible_unicode_def list_ex_iff filter_id_conv)

lemma fold_confusables_map: "fold_confusables text = map fold_confusable text"
  by (auto simp: fold_confusables_def contains_confusable_def list_ex_iff intro!: map_idI [symmetric])

lemma normalize_eq:
  "normalize_for_recognition text = map fold_confusable (filter (\<lambda>c. \<not> is_invisible c) text)"
  by (simp add: normalize_for_recognition_def strip_invisible_filter fold_confusables_map)

lemma ascii_visible [folding]: "c < 0x80 \<Longrightarrow> \<not> is_invisible c"
  by (simp add: is_invisible_def)

lemma fold_ascii [folding]: "c < 0x80 \<Longrightarrow> fold_confusable c = c"
  by (simp add: fold_confusable_def is_ascii_def)

lemma find_prop: "find P xs = Some x \<Longrightarrow> P x \<and> x \<in> set xs"
  by (auto simp: find_Some_iff)

lemma homoglyph_targets: "\<forall>(cs, t)\<in>set homoglyphs. of_char t < (0x80 :: nat)"
  by (simp add: homoglyphs_def)

text \<open>A character that folds at all folds to ASCII, so folding twice is folding once.\<close>

lemma fold_changes_to_ascii: "fold_confusable c \<noteq> c \<Longrightarrow> fold_confusable c < 0x80"
  using homoglyph_targets
  by (auto simp: fold_confusable_def fold_digit_def fold_homoglyph_def is_ascii_def
      split: option.splits if_splits dest!: find_prop)

lemma fold_idempotent [simp]: "fold_confusable (fold_confusable c) = fold_confusable c"
  using fold_changes_to_ascii [of c] by (metis fold_ascii)

lemma fold_visible [folding]: "\<not> is_invisible c \<Longrightarrow> \<not> is_invisible (fold_confusable c)"
  using fold_changes_to_ascii [of c] ascii_visible by metis

lemma normalize_idempotent:
  "normalize_for_recognition (normalize_for_recognition s) = normalize_for_recognition s"
  by (induction s) (simp_all add: normalize_eq fold_visible)

lemma normalize_append:
  "normalize_for_recognition (s @ t) = normalize_for_recognition s @ normalize_for_recognition t"
  by (simp add: normalize_eq)

lemma normalize_ascii: "\<forall>c\<in>set s. c < 0x80 \<Longrightarrow> normalize_for_recognition s = s"
  by (induction s) (simp_all add: normalize_eq folding)

text \<open>A disguise of a text: each of its characters written as a visible look-alike with the same
  skeleton, with any number of invisible characters anywhere between them.\<close>

inductive disguise :: "utext \<Rightarrow> utext \<Rightarrow> bool" where
  disguise_end: "disguise [] []"
| disguise_pad: "is_invisible i \<Longrightarrow> disguise s d \<Longrightarrow> disguise s (i # d)"
| disguise_char: "\<not> is_invisible c \<Longrightarrow> \<not> is_invisible c' \<Longrightarrow> fold_confusable c' = fold_confusable c \<Longrightarrow>
    disguise s d \<Longrightarrow> disguise (c # s) (c' # d)"

lemma disguise_normalizes: "disguise s d \<Longrightarrow> normalize_for_recognition d = normalize_for_recognition s"
  by (induction rule: disguise.induct) (simp_all add: normalize_eq)

text \<open>Conversely, texts that normalize alike are disguises of their common skeleton.\<close>

lemma disguise_of_skeleton: "disguise (normalize_for_recognition d) d"
proof (induction d)
  case (Cons c d)
  show ?case
  proof (cases "is_invisible c")
    case True
    then show ?thesis using Cons by (simp add: normalize_eq disguise_pad)
  next
    case False
    then show ?thesis
      using Cons disguise_char [of "fold_confusable c" c] by (simp add: normalize_eq fold_visible)
  qed
qed (simp add: normalize_eq disguise_end)

end
