(* ===== verification/Checksums.thy ===== *)
theory Checksums
  imports Prelude
begin

text \<open>
  Check-digit algorithms. \<open>check_chain\<close> is the contract they share: a state folded over the
  symbols of an identifier by a step that is injective in the state and in the symbol, so that
  replacing one symbol always changes the final state. The Verhoeff algorithm of
  \<^verbatim>\<open>crates/residency/src/verhoeff.rs\<close> is modelled here, with its two tables, and its second
  promise, that exchanging two neighbouring digits is noticed too. The weighted sums of the
  other identifiers are instances of \<open>modular_chain\<close>.
\<close>

section \<open>Chains of injective steps\<close>

fun chain :: "(nat \<Rightarrow> nat \<Rightarrow> 'a \<Rightarrow> nat) \<Rightarrow> nat \<Rightarrow> nat \<Rightarrow> 'a list \<Rightarrow> nat" where
  "chain step i c [] = c"
| "chain step i c (d # ds) = chain step (i + 1) (step i c d) ds"

definition all_at :: "(nat \<Rightarrow> 'a \<Rightarrow> bool) \<Rightarrow> nat \<Rightarrow> 'a list \<Rightarrow> bool" where
  "all_at p i ds = (\<forall>k < length ds. p (i + k) (ds ! k))"

lemma all_at_nil [simp]: "all_at p i []"
  by (simp add: all_at_def)

lemma all_at_cons [simp]: "all_at p i (d # ds) \<longleftrightarrow> p i d \<and> all_at p (i + 1) ds"
  by (auto simp: all_at_def nth_Cons split: nat.splits)

lemma all_at_append [simp]: "all_at p i (ds @ es) \<longleftrightarrow> all_at p i ds \<and> all_at p (i + length ds) es"
  by (induction ds arbitrary: i) simp_all

lemma all_at_digits: "all_at (\<lambda>_ d. p d) i ds \<longleftrightarrow> (\<forall>d\<in>set ds. p d)"
  by (induction ds arbitrary: i) simp_all

lemma chain_append: "chain step i c (ds @ es) = chain step (i + length ds) (chain step i c ds) es"
  by (induction ds arbitrary: i c) simp_all

locale check_chain =
  fixes step :: "nat \<Rightarrow> nat \<Rightarrow> 'a \<Rightarrow> nat" and modulus :: nat
    and sym :: "nat \<Rightarrow> 'a \<Rightarrow> bool" and alike :: "'a \<Rightarrow> 'a \<Rightarrow> bool"
  assumes step_below: "c < modulus \<Longrightarrow> sym i d \<Longrightarrow> step i c d < modulus"
    and state_inj: "c < modulus \<Longrightarrow> c' < modulus \<Longrightarrow> sym i d \<Longrightarrow> step i c d = step i c' d \<Longrightarrow> c = c'"
    and symbol_inj: "c < modulus \<Longrightarrow> sym i d \<Longrightarrow> sym i d' \<Longrightarrow> alike d d' \<Longrightarrow>
        step i c d = step i c d' \<Longrightarrow> d = d'"
begin

lemma chain_below: "c < modulus \<Longrightarrow> all_at sym i ds \<Longrightarrow> chain step i c ds < modulus"
  by (induction ds arbitrary: i c) (simp_all add: step_below)

lemma chain_state_inj:
  "c < modulus \<Longrightarrow> c' < modulus \<Longrightarrow> all_at sym i ds \<Longrightarrow> chain step i c ds = chain step i c' ds \<Longrightarrow> c = c'"
proof (induction ds arbitrary: i c c')
  case (Cons d ds)
  have d: "sym i d" and ds: "all_at sym (i + 1) ds" using Cons.prems(3) by auto
  have "chain step (i + 1) (step i c d) ds = chain step (i + 1) (step i c' d) ds"
    using Cons.prems(4) by (simp only: chain.simps)
  from Cons.IH [OF step_below [OF Cons.prems(1) d] step_below [OF Cons.prems(2) d] ds this]
  show ?case by (rule state_inj [OF Cons.prems(1,2) d])
qed simp

text \<open>Replacing one symbol by another of its kind changes the result.\<close>

lemma substitution_noticed:
  assumes "c < modulus" and "all_at sym i (xs @ x # ys)" and "all_at sym i (xs @ x' # ys)"
    and "alike x x'" and same: "chain step i c (xs @ x # ys) = chain step i c (xs @ x' # ys)"
  shows "x = x'"
proof -
  let ?c = "chain step i c xs" and ?k = "i + length xs"
  have xs: "all_at sym i xs" and x: "sym ?k x" and x': "sym ?k x'" and ys: "all_at sym (?k + 1) ys"
    using assms(2,3) by auto
  have c: "?c < modulus" by (rule chain_below [OF assms(1) xs])
  have "chain step (?k + 1) (step ?k ?c x) ys = chain step (?k + 1) (step ?k ?c x') ys"
    using same by (simp only: chain_append chain.simps)
  then have "step ?k ?c x = step ?k ?c x'"
    by (rule chain_state_inj [OF step_below [OF c x] step_below [OF c x'] ys])
  then show ?thesis by (rule symbol_inj [OF c x x' assms(4)])
qed

end

section \<open>Sums modulo a number\<close>

text \<open>The step that adds a position-dependent contribution modulo \<open>m\<close>.\<close>

definition add_step :: "nat \<Rightarrow> (nat \<Rightarrow> 'a \<Rightarrow> nat) \<Rightarrow> nat \<Rightarrow> nat \<Rightarrow> 'a \<Rightarrow> nat" where
  "add_step m g i c d = (c + g i d) mod m"

lemma chain_add_step:
  "chain (add_step m g) i c ds mod m = (c + (\<Sum>k<length ds. g (i + k) (ds ! k))) mod m"
proof (induction ds arbitrary: i c)
  case (Cons d ds)
  show ?case
    using Cons [of "i + 1" "(c + g i d) mod m"]
    by (simp add: add_step_def sum.lessThan_Suc_shift mod_simps ac_simps del: sum.lessThan_Suc)
qed simp

lemma chain_add_step_below: "0 < m \<Longrightarrow> c < m \<Longrightarrow> chain (add_step m g) i c ds < m"
  by (induction ds arbitrary: i c) (simp_all add: add_step_def)

lemma add_mod_inj: "(a + c) mod m = (b + c) mod m \<longleftrightarrow> a mod m = b mod (m :: nat)"
proof
  assume "(a + c) mod m = (b + c) mod m"
  then have "int m dvd (int a + int c) - (int b + int c)"
    by (simp only: mod_eq_dvd_iff [symmetric] zmod_int [symmetric] of_nat_add [symmetric])
  then have "int a mod int m = int b mod int m" by (simp add: mod_eq_dvd_iff)
  then show "a mod m = b mod m" by (simp add: zmod_int [symmetric])
qed (rule mod_add_cong, simp_all)

section \<open>The Verhoeff algorithm\<close>

definition verhoeff_d :: "nat list list" where
  "verhoeff_d =
    [[0, 1, 2, 3, 4, 5, 6, 7, 8, 9],
     [1, 2, 3, 4, 0, 6, 7, 8, 9, 5],
     [2, 3, 4, 0, 1, 7, 8, 9, 5, 6],
     [3, 4, 0, 1, 2, 8, 9, 5, 6, 7],
     [4, 0, 1, 2, 3, 9, 5, 6, 7, 8],
     [5, 9, 8, 7, 6, 0, 4, 3, 2, 1],
     [6, 5, 9, 8, 7, 1, 0, 4, 3, 2],
     [7, 6, 5, 9, 8, 2, 1, 0, 4, 3],
     [8, 7, 6, 5, 9, 3, 2, 1, 0, 4],
     [9, 8, 7, 6, 5, 4, 3, 2, 1, 0]]"

definition verhoeff_p :: "nat list list" where
  "verhoeff_p =
    [[0, 1, 2, 3, 4, 5, 6, 7, 8, 9],
     [1, 5, 7, 6, 2, 8, 3, 0, 9, 4],
     [5, 8, 0, 3, 7, 9, 6, 1, 4, 2],
     [8, 9, 1, 6, 0, 4, 3, 5, 2, 7],
     [9, 4, 5, 3, 1, 2, 6, 8, 7, 0],
     [4, 2, 8, 6, 5, 7, 3, 9, 0, 1],
     [2, 7, 9, 3, 8, 0, 6, 4, 1, 5],
     [7, 0, 4, 6, 9, 1, 3, 2, 5, 8]]"

definition verhoeff_step :: "nat \<Rightarrow> nat \<Rightarrow> nat \<Rightarrow> nat" where
  "verhoeff_step i c d = verhoeff_d ! c ! (verhoeff_p ! (i mod 8) ! d)"

text \<open>The loop of \<^verbatim>\<open>validate\<close> over the reversed digits; \<open>None\<close> is its early return.\<close>

fun verhoeff_loop :: "nat \<Rightarrow> nat \<Rightarrow> nat list \<Rightarrow> nat option" where
  "verhoeff_loop i c [] = Some c"
| "verhoeff_loop i c (d # ds) =
     (if 9 < d then None else verhoeff_loop (i + 1) (verhoeff_step i c d) ds)"

definition verhoeff_validate :: "nat list \<Rightarrow> bool" where
  "verhoeff_validate digits =
     (if digits = [] then False else verhoeff_loop 0 0 (rev digits) = Some 0)"

lemma verhoeff_loop_chain:
  "(\<forall>d\<in>set ds. d < 10) \<Longrightarrow> verhoeff_loop i c ds = Some (chain verhoeff_step i c ds)"
  by (induction ds arbitrary: i c) auto

lemma upto_ten: "x < (10 :: nat) \<longleftrightarrow> x \<in> set [0..<10]"
  by simp

lemma upto_eight: "x < (8 :: nat) \<longleftrightarrow> x \<in> set [0..<8]"
  by simp

lemma table_d_latin:
  "list_all (\<lambda>row. length row = 10 \<and> distinct row \<and> list_all (\<lambda>x. x < 10) row) verhoeff_d"
  "list_all (\<lambda>j. distinct (map (\<lambda>row. row ! j) verhoeff_d)) [0..<10]"
  by code_simp+

lemma table_p_permutations:
  "list_all (\<lambda>row. length row = 10 \<and> distinct row \<and> list_all (\<lambda>x. x < 10) row) verhoeff_p"
  by code_simp

lemma table_d_assoc:
  "list_all (\<lambda>a. list_all (\<lambda>b. list_all (\<lambda>c.
     verhoeff_d ! (verhoeff_d ! a ! b) ! c = verhoeff_d ! a ! (verhoeff_d ! b ! c))
     [0..<10]) [0..<10]) [0..<10]"
  by code_simp

lemma table_antisymmetric:
  "list_all (\<lambda>i. list_all (\<lambda>a. list_all (\<lambda>b.
     verhoeff_d ! (verhoeff_p ! i ! a) ! (verhoeff_p ! (Suc i mod 8) ! b) =
       verhoeff_d ! (verhoeff_p ! i ! b) ! (verhoeff_p ! (Suc i mod 8) ! a) \<longrightarrow> a = b)
     [0..<10]) [0..<10]) [0..<8]"
  by code_simp

lemma verhoeff_mul_below: "a < 10 \<Longrightarrow> b < 10 \<Longrightarrow> verhoeff_d ! a ! b < 10"
  using table_d_latin(1) by (auto simp: list_all_length verhoeff_d_def)

lemma verhoeff_mul_left_inj:
  assumes "a < 10" "b < 10" "b' < 10" "verhoeff_d ! a ! b = verhoeff_d ! a ! b'"
  shows "b = b'"
proof -
  have "distinct (verhoeff_d ! a)" and "length (verhoeff_d ! a) = 10"
    using table_d_latin(1) assms(1) by (simp_all add: list_all_length verhoeff_d_def)
  then show ?thesis using assms nth_eq_iff_index_eq by metis
qed

lemma verhoeff_mul_right_inj:
  assumes "a < 10" "a' < 10" "b < 10" "verhoeff_d ! a ! b = verhoeff_d ! a' ! b"
  shows "a = a'"
proof -
  have "distinct (map (\<lambda>row. row ! b) verhoeff_d)" and "length verhoeff_d = 10"
    using table_d_latin(2) assms(3) by (simp_all add: list_all_iff verhoeff_d_def)
  then show ?thesis using assms nth_eq_iff_index_eq [of "map (\<lambda>row. row ! b) verhoeff_d" a a'] by simp
qed

lemma verhoeff_mul_assoc:
  "a < 10 \<Longrightarrow> b < 10 \<Longrightarrow> c < 10 \<Longrightarrow>
    verhoeff_d ! (verhoeff_d ! a ! b) ! c = verhoeff_d ! a ! (verhoeff_d ! b ! c)"
  using table_d_assoc by (simp add: list_all_iff del: upt_Suc upt_rec_numeral)

lemma verhoeff_perm_below: "i < 8 \<Longrightarrow> d < 10 \<Longrightarrow> verhoeff_p ! i ! d < 10"
  using table_p_permutations by (auto simp: list_all_length verhoeff_p_def)

lemma verhoeff_perm_inj:
  assumes "i < 8" "d < 10" "d' < 10" "verhoeff_p ! i ! d = verhoeff_p ! i ! d'"
  shows "d = d'"
proof -
  have "distinct (verhoeff_p ! i)" and "length (verhoeff_p ! i) = 10"
    using table_p_permutations assms(1) by (simp_all add: list_all_length verhoeff_p_def)
  then show ?thesis using assms nth_eq_iff_index_eq by metis
qed

lemma verhoeff_antisymmetric:
  "i < 8 \<Longrightarrow> a < 10 \<Longrightarrow> b < 10 \<Longrightarrow>
    verhoeff_d ! (verhoeff_p ! i ! a) ! (verhoeff_p ! (Suc i mod 8) ! b) =
      verhoeff_d ! (verhoeff_p ! i ! b) ! (verhoeff_p ! (Suc i mod 8) ! a) \<Longrightarrow> a = b"
  using table_antisymmetric by (simp add: list_all_iff del: upt_Suc upt_rec_numeral)

lemmas verhoeff_tables = verhoeff_mul_below verhoeff_perm_below

interpretation verhoeff: check_chain verhoeff_step 10 "\<lambda>_ d. d < 10" "\<lambda>_ _. True"
proof
  fix c c' i d d' :: nat
  let ?p = "\<lambda>d. verhoeff_p ! (i mod 8) ! d"
  have below: "e < 10 \<Longrightarrow> ?p e < 10" for e by (rule verhoeff_perm_below) simp_all
  show "verhoeff_step i c d < 10" if "c < 10" "d < 10"
    unfolding verhoeff_step_def by (rule verhoeff_mul_below [OF that(1) below [OF that(2)]])
  show "c = c'" if "c < 10" "c' < 10" "d < 10" "verhoeff_step i c d = verhoeff_step i c' d"
    by (rule verhoeff_mul_right_inj [OF that(1,2) below [OF that(3)]])
      (rule that(4) [unfolded verhoeff_step_def])
  show "d = d'" if "c < 10" "d < 10" "d' < 10" "True" "verhoeff_step i c d = verhoeff_step i c d'"
  proof -
    have "?p d = ?p d'"
      by (rule verhoeff_mul_left_inj [OF that(1) below [OF that(2)] below [OF that(3)]])
        (rule that(5) [unfolded verhoeff_step_def])
    with _ that(2,3) show ?thesis by (rule verhoeff_perm_inj) simp
  qed
qed

text \<open>Exchanging two neighbours changes the result: by associativity of the table the state
  before them cancels, and the permutation of each position was chosen to leave no pair that
  commutes.\<close>

lemma verhoeff_swap_noticed:
  assumes "c < 10" and "\<forall>d\<in>set (xs @ x # y # ys). d < 10"
    and same: "chain verhoeff_step i c (xs @ x # y # ys) = chain verhoeff_step i c (xs @ y # x # ys)"
  shows "x = y"
proof -
  let ?c = "chain verhoeff_step i c xs" and ?k = "i + length xs"
  let ?p = "verhoeff_p ! (?k mod 8)" and ?q = "verhoeff_p ! (Suc (?k mod 8) mod 8)"
  have digits: "x < 10" "y < 10" "all_at (\<lambda>_ d. d < 10) i xs" "all_at (\<lambda>_ d. d < 10) (?k + 2) ys"
    using assms(2) by (auto simp: all_at_def)
  have c: "?c < 10" by (rule verhoeff.chain_below [OF assms(1) digits(3)])
  have two: "verhoeff_step (?k + 1) (verhoeff_step ?k ?c a) b =
      verhoeff_d ! ?c ! (verhoeff_d ! (?p ! a) ! (?q ! b))" if "a < 10" "b < 10" for a b
    using that c by (simp add: verhoeff_step_def mod_Suc_eq verhoeff_mul_assoc verhoeff_tables)
  have "chain verhoeff_step (?k + 2) (verhoeff_step (?k + 1) (verhoeff_step ?k ?c x) y) ys =
      chain verhoeff_step (?k + 2) (verhoeff_step (?k + 1) (verhoeff_step ?k ?c y) x) ys"
    using same by (simp add: chain_append)
  then have "verhoeff_step (?k + 1) (verhoeff_step ?k ?c x) y =
      verhoeff_step (?k + 1) (verhoeff_step ?k ?c y) x"
    by (rule verhoeff.chain_state_inj
        [OF verhoeff.step_below [OF verhoeff.step_below [OF c digits(1)] digits(2)]
          verhoeff.step_below [OF verhoeff.step_below [OF c digits(2)] digits(1)] digits(4)])
  then have "verhoeff_d ! (?p ! x) ! (?q ! y) = verhoeff_d ! (?p ! y) ! (?q ! x)"
    unfolding two [OF digits(1,2)] two [OF digits(2,1)]
    by (rule verhoeff_mul_left_inj [OF c, rotated 2]) (simp_all add: verhoeff_tables digits(1,2))
  then show ?thesis by (rule verhoeff_antisymmetric [rotated 3]) (simp_all add: digits(1,2))
qed

text \<open>Both promises on \<^verbatim>\<open>validate\<close> itself, which reads the digits from the right.\<close>

lemma verhoeff_validate_chain:
  "\<forall>d\<in>set ds. d < 10 \<Longrightarrow>
    verhoeff_validate ds \<longleftrightarrow> ds \<noteq> [] \<and> chain verhoeff_step 0 0 (rev ds) = 0"
  by (simp add: verhoeff_validate_def verhoeff_loop_chain)

lemma verhoeff_substitution:
  assumes "\<forall>d\<in>set (xs @ x # ys). d < 10" and "x' < 10" and "x \<noteq> x'"
    and "verhoeff_validate (xs @ x # ys)"
  shows "\<not> verhoeff_validate (xs @ x' # ys)"
proof
  assume "verhoeff_validate (xs @ x' # ys)"
  then have "chain verhoeff_step 0 0 (rev ys @ x # rev xs) = chain verhoeff_step 0 0 (rev ys @ x' # rev xs)"
    using assms by (simp add: verhoeff_validate_chain)
  moreover have "all_at (\<lambda>_ d. d < 10) 0 (rev ys @ d # rev xs)" if "d = x \<or> d = x'" for d
    using that assms by (auto simp: all_at_digits)
  then have "all_at (\<lambda>_ d. d < 10) 0 (rev ys @ x # rev xs)"
    and "all_at (\<lambda>_ d. d < 10) 0 (rev ys @ x' # rev xs)" by blast+
  ultimately have "x = x'"
    by (intro verhoeff.substitution_noticed [of 0 0 "rev ys" x "rev xs" x', OF _ _ _ TrueI]) (assumption | simp)+
  then show False using assms by simp
qed

lemma verhoeff_transposition:
  assumes "\<forall>d\<in>set (xs @ x # y # ys). d < 10" and "x \<noteq> y" and "verhoeff_validate (xs @ x # y # ys)"
  shows "\<not> verhoeff_validate (xs @ y # x # ys)"
proof
  assume "verhoeff_validate (xs @ y # x # ys)"
  then have "chain verhoeff_step 0 0 (rev ys @ y # x # rev xs) = chain verhoeff_step 0 0 (rev ys @ x # y # rev xs)"
    using assms by (simp add: verhoeff_validate_chain)
  then have "y = x"
    by (rule verhoeff_swap_noticed [rotated 2]) (use assms(1) in auto)
  then show False using assms(2) by simp
qed

section \<open>Weighted sums\<close>

text \<open>A contribution per position that tells the symbols of a kind apart modulo \<open>m\<close>.\<close>

locale modular_sum =
  fixes m :: nat and g :: "nat \<Rightarrow> 'a \<Rightarrow> nat" and sym :: "nat \<Rightarrow> 'a \<Rightarrow> bool"
    and alike :: "'a \<Rightarrow> 'a \<Rightarrow> bool"
  assumes positive: "0 < m"
    and contribution_inj: "sym i d \<Longrightarrow> sym i d' \<Longrightarrow> alike d d' \<Longrightarrow> g i d mod m = g i d' mod m \<Longrightarrow> d = d'"

sublocale modular_sum \<subseteq> check_chain "add_step m g" m sym alike
proof
  fix c c' i :: nat and d d' :: 'a
  show "add_step m g i c d < m" using positive by (simp add: add_step_def)
  show "c = c'" if "c < m" "c' < m" "add_step m g i c d = add_step m g i c' d"
    using that by (simp add: add_step_def add_mod_inj)
  show "d = d'" if "sym i d" "sym i d'" "alike d d'" "add_step m g i c d = add_step m g i c d'"
    using that contribution_inj add_mod_inj [of "g i d" c m "g i d'"] by (simp add: add_step_def add.commute)
qed

context modular_sum
begin

lemma sum_substitution_noticed:
  assumes "all_at sym 0 (xs @ x # ys)" and "all_at sym 0 (xs @ x' # ys)" and "alike x x'"
    and "x \<noteq> x'"
  shows "(\<Sum>k<length (xs @ x # ys). g k ((xs @ x # ys) ! k)) mod m \<noteq>
         (\<Sum>k<length (xs @ x' # ys). g k ((xs @ x' # ys) ! k)) mod m"
proof
  assume "(\<Sum>k<length (xs @ x # ys). g k ((xs @ x # ys) ! k)) mod m =
          (\<Sum>k<length (xs @ x' # ys). g k ((xs @ x' # ys) ! k)) mod m"
  then have "chain (add_step m g) 0 0 (xs @ x # ys) mod m = chain (add_step m g) 0 0 (xs @ x' # ys) mod m"
    unfolding chain_add_step by simp
  then have "chain (add_step m g) 0 0 (xs @ x # ys) = chain (add_step m g) 0 0 (xs @ x' # ys)"
    using positive by (simp add: chain_add_step_below)
  then have "x = x'" by (rule substitution_noticed [OF positive assms(1,2,3)])
  then show False using assms(4) by simp
qed

end

end
