(* ===== verification/National_Ids.thy ===== *)
theory National_Ids
  imports Unicode_Fold Checksums
begin

text \<open>
  The structural and checksum validators of \<^verbatim>\<open>crates/residency/src/lib.rs\<close>, one definition per
  function: the second gate a candidate found by a recognizer's regular expression has to
  pass. A candidate is a text of code points; validators that read \<^verbatim>\<open>as_bytes\<close> read its UTF-8
  bytes. Digits are small, so the \<^verbatim>\<open>u32\<close> sums cannot overflow; the one \<^verbatim>\<open>u8\<close> subtraction that
  can wrap is written out (\<open>u8_sub\<close>).
\<close>

section \<open>Validators\<close>

definition digits_of :: "nat list \<Rightarrow> nat list" where
  "digits_of s = map (\<lambda>c. c - 0x30) (filter is_ascii_digit s)"

definition u8_sub :: "nat \<Rightarrow> nat \<Rightarrow> nat" where
  "u8_sub a b = (a + 256 - b) mod 256"

definition is_ascii_upper :: "nat \<Rightarrow> bool" where
  "is_ascii_upper c = (0x41 \<le> c \<and> c \<le> 0x5A)"

definition is_ascii_lower :: "nat \<Rightarrow> bool" where
  "is_ascii_lower c = (0x61 \<le> c \<and> c \<le> 0x7A)"

definition to_ascii_upper :: "nat \<Rightarrow> nat" where
  "to_ascii_upper c = (if is_ascii_lower c then c - 0x20 else c)"

definition is_ascii_alphanumeric :: "nat \<Rightarrow> bool" where
  "is_ascii_alphanumeric c = (is_ascii_digit c \<or> is_ascii_upper c \<or> is_ascii_lower c)"

definition is_valid_aadhaar :: "utext \<Rightarrow> bool" where
  "is_valid_aadhaar candidate =
     (let digits = digits_of candidate in
      if length digits \<noteq> 12 then False else verhoeff_validate digits)"

definition is_valid_pan :: "utext \<Rightarrow> bool" where
  "is_valid_pan candidate =
     (let b = utf8 candidate in
      if length b \<noteq> 10 then False else to_ascii_upper (b ! 3) \<in> set (lit ''PCHFATBLJGEDK''))"

definition is_valid_ssn :: "utext \<Rightarrow> bool" where
  "is_valid_ssn candidate =
     (let d = digits_of candidate in
      if length d \<noteq> 9 then False
      else
        let area = d ! 0 * 100 + d ! 1 * 10 + d ! 2;
            group = d ! 3 * 10 + d ! 4;
            serial = foldl (\<lambda>a x. a * 10 + x) 0 (take 4 (drop 5 d))
        in area \<noteq> 0 \<and> area \<noteq> 666 \<and> area < 900 \<and> group \<noteq> 0 \<and> serial \<noteq> 0)"

text \<open>The mod-97 loop over the rearranged IBAN; \<open>None\<close> is its \<^verbatim>\<open>return false\<close>.\<close>

fun iban_remainder :: "nat \<Rightarrow> nat list \<Rightarrow> nat option" where
  "iban_remainder remainder [] = Some remainder"
| "iban_remainder remainder (c # cs) =
     (if 0x30 \<le> c \<and> c \<le> 0x39 then iban_remainder ((remainder * 10 + (c - 0x30)) mod 97) cs
      else if 0x41 \<le> c \<and> c \<le> 0x5A then
        iban_remainder ((remainder * 100 + (c - 0x41 + 10)) mod 97) cs
      else None)"

definition is_valid_iban :: "utext \<Rightarrow> bool" where
  "is_valid_iban candidate =
     (let compact = filter (\<lambda>b. b \<noteq> 0x20) (utf8 candidate) in
      if length compact < 15 \<or> 34 < length compact then False
      else iban_remainder 0 (drop 4 compact @ take 4 compact) = Some 1)"

definition cpf_check :: "nat list \<Rightarrow> nat \<Rightarrow> nat" where
  "cpf_check d n =
     (let s = (\<Sum>i<n. d ! i * (n + 1 - i)); r = (s * 10) mod 11 in if r = 10 then 0 else r)"

definition is_valid_cpf :: "utext \<Rightarrow> bool" where
  "is_valid_cpf candidate =
     (let d = digits_of candidate in
      if length d \<noteq> 11 \<or> list_all (\<lambda>x. x = d ! 0) d then False
      else cpf_check d 9 = d ! 9 \<and> cpf_check d 10 = d ! 10)"

text \<open>The prefixes are \<^verbatim>\<open>S\<close> 0x53, \<^verbatim>\<open>T\<close> 0x54, \<^verbatim>\<open>F\<close> 0x46, \<^verbatim>\<open>G\<close> 0x47 and \<^verbatim>\<open>M\<close> 0x4D.\<close>

definition nric_weights :: "nat list" where
  "nric_weights = [2, 7, 6, 5, 4, 3, 2]"

definition nric_offset :: "nat \<Rightarrow> nat" where
  "nric_offset pre =
     (if pre = 0x54 \<or> pre = 0x47 then 4 else if pre = 0x4D then 3 else 0)"

definition nric_table :: "nat \<Rightarrow> nat list option" where
  "nric_table pre =
     (if pre = 0x53 \<or> pre = 0x54 then Some (lit ''JZIHGFEDCBA'')
      else if pre = 0x46 \<or> pre = 0x47 then Some (lit ''XWUTRQPNMLK'')
      else if pre = 0x4D then Some (lit ''XWUTRQPNJLK'')
      else None)"

definition is_valid_nric :: "utext \<Rightarrow> bool" where
  "is_valid_nric candidate =
     (let b = utf8 candidate in
      if length b \<noteq> 9 then False
      else
        let pre = b ! 0;
            digits = map (\<lambda>c. u8_sub c 0x30) (take 7 (drop 1 b));
            s = sum_list (map2 (*) digits nric_weights) + nric_offset pre
        in case nric_table pre of
             None \<Rightarrow> False
           | Some table \<Rightarrow> b ! 8 = table ! (s mod 11))"

definition is_valid_emirates_id :: "utext \<Rightarrow> bool" where
  "is_valid_emirates_id candidate =
     (let d = digits_of candidate in
      if length d \<noteq> 15 then False
      else if d ! 0 \<noteq> 7 \<or> d ! 1 \<noteq> 8 \<or> d ! 2 \<noteq> 4 then False
      else
        let year = d ! 3 * 1000 + d ! 4 * 100 + d ! 5 * 10 + d ! 6
        in 1900 \<le> year \<and> year \<le> 2099)"

text \<open>The Luhn-style sum over the bytes from the left; \<open>None\<close> is the early \<^verbatim>\<open>return false\<close> on a byte
  that is not a digit.\<close>

fun saudi_sum :: "nat \<Rightarrow> nat \<Rightarrow> nat list \<Rightarrow> nat option" where
  "saudi_sum i s [] = Some s"
| "saudi_sum i s (c # cs) =
     (if \<not> is_ascii_digit c then None
      else
        let digit = c - 0x30
        in if i mod 2 = 0 then saudi_sum (i + 1) (s + (digit * 2 div 10 + digit * 2 mod 10)) cs
           else saudi_sum (i + 1) (s + digit) cs)"

definition is_valid_saudi_id :: "utext \<Rightarrow> bool" where
  "is_valid_saudi_id candidate =
     (let b = utf8 candidate in
      if length b \<noteq> 10 \<or> b ! 0 \<noteq> 0x31 \<and> b ! 0 \<noteq> 0x32 then False
      else case saudi_sum 0 0 b of None \<Rightarrow> False | Some s \<Rightarrow> s mod 10 = 0)"

definition gstin_alphabet :: "nat list" where
  "gstin_alphabet = lit ''0123456789ABCDEFGHIJKLMNOPQRSTUVWXYZ''"

text \<open>\<^verbatim>\<open>slice::iter().position(|&a| a == c)\<close>.\<close>

fun position :: "nat \<Rightarrow> nat list \<Rightarrow> nat option" where
  "position c [] = None"
| "position c (a # as) = (if a = c then Some 0 else map_option Suc (position c as))"

fun gstin_sum :: "nat \<Rightarrow> nat \<Rightarrow> nat list \<Rightarrow> nat option" where
  "gstin_sum i s [] = Some s"
| "gstin_sum i s (c # cs) =
     (case position c gstin_alphabet of
        None \<Rightarrow> None
      | Some v \<Rightarrow>
          let product = v * (if i mod 2 = 0 then 1 else 2)
          in gstin_sum (i + 1) (s + (product div 36 + product mod 36)) cs)"

definition is_valid_gstin :: "utext \<Rightarrow> bool" where
  "is_valid_gstin candidate =
     (let b = utf8 candidate in
      if length b \<noteq> 15 then False
      else case gstin_sum 0 0 (take 14 b) of
          None \<Rightarrow> False
        | Some s \<Rightarrow> b ! 14 = gstin_alphabet ! ((36 - s mod 36) mod 36))"

definition is_valid_ifsc :: "utext \<Rightarrow> bool" where
  "is_valid_ifsc candidate =
     (let b = utf8 candidate in
      if length b \<noteq> 11 then False
      else list_all is_ascii_upper (take 4 b) \<and> b ! 4 = 0x30 \<and>
           list_all is_ascii_alphanumeric (drop 5 b))"

definition tfn_weights :: "nat list" where
  "tfn_weights = [1, 4, 3, 7, 5, 8, 6, 9, 10]"

definition is_valid_tfn :: "utext \<Rightarrow> bool" where
  "is_valid_tfn candidate =
     (let d = digits_of candidate in
      if length d \<noteq> 9 then False else sum_list (map2 (*) d tfn_weights) mod 11 = 0)"

definition my_number_check :: "nat list \<Rightarrow> nat" where
  "my_number_check d =
     (let s = (\<Sum>idx\<leftarrow>[0..<11]. let p = idx + 1 in d ! (10 - idx) * (if p \<le> 6 then p + 1 else p - 5));
          r = s mod 11
      in if r \<le> 1 then 0 else 11 - r)"

definition is_valid_my_number :: "utext \<Rightarrow> bool" where
  "is_valid_my_number candidate =
     (let d = digits_of candidate in
      if length d \<noteq> 12 then False else my_number_check d = d ! 11)"

section \<open>Digits of a candidate\<close>

lemma digits_of_append [simp]: "digits_of (s @ t) = digits_of s @ digits_of t"
  by (simp add: digits_of_def)

lemma digits_of_digit: "is_ascii_digit c \<Longrightarrow> digits_of (c # s) = (c - 0x30) # digits_of s"
  by (simp add: digits_of_def)

lemma digits_of_below: "d \<in> set (digits_of s) \<Longrightarrow> d < 10"
  by (auto simp: digits_of_def is_ascii_digit_def)

lemma digits_of_utf8: "digits_of (utf8 s) = digits_of s"
  unfolding digits_of_def by (subst filter_utf8) (simp_all add: is_ascii_digit_def)

lemma digit_ascii: "is_ascii_digit c \<Longrightarrow> c < 0x80"
  by (simp add: is_ascii_digit_def)

lemma digit_value_below: "is_ascii_digit c \<Longrightarrow> c - 0x30 < 10"
  by (auto simp: is_ascii_digit_def)

lemma digit_value_neq: "is_ascii_digit c \<Longrightarrow> is_ascii_digit c' \<Longrightarrow> c \<noteq> c' \<Longrightarrow> c - 0x30 \<noteq> c' - 0x30"
  by (auto simp: is_ascii_digit_def)

lemma digits_below: "\<forall>d\<in>set (digits_of s). d < 10"
  by (auto intro: digits_of_below)

section \<open>One mistyped character\<close>

text \<open>A checksum notices a typo of kind \<open>p\<close> when no valid identifier stays valid after one of its
  characters is replaced by a different one of the same kind, anywhere in it, whatever separators
  surround it.\<close>

definition notices_typos :: "(utext \<Rightarrow> bool) \<Rightarrow> (nat \<Rightarrow> bool) \<Rightarrow> bool" where
  "notices_typos valid p \<longleftrightarrow>
     (\<forall>a x x' b. p x \<longrightarrow> p x' \<longrightarrow> x \<noteq> x' \<longrightarrow> valid (a @ x # b) \<longrightarrow> \<not> valid (a @ x' # b))"

lemma aadhaar_typos: "notices_typos is_valid_aadhaar is_ascii_digit"
  unfolding notices_typos_def
proof (intro allI impI)
  fix a x x' b
  assume x: "is_ascii_digit x" "is_ascii_digit x'" "x \<noteq> x'" and v: "is_valid_aadhaar (a @ x # b)"
  have v: "verhoeff_validate (digits_of a @ (x - 0x30) # digits_of b)"
    using v x(1) by (simp add: is_valid_aadhaar_def digits_of_digit Let_def split: if_splits)
  have "\<not> verhoeff_validate (digits_of a @ (x' - 0x30) # digits_of b)"
    by (rule verhoeff_substitution [OF _ digit_value_below [OF x(2)] digit_value_neq [OF x] v])
      (simp add: ball_Un digits_below digit_value_below x(1))
  then show "\<not> is_valid_aadhaar (a @ x' # b)"
    using x(2) by (simp add: is_valid_aadhaar_def digits_of_digit Let_def)
qed

text \<open>For Aadhaar also exchanging two neighbouring digits, with any separators between them.\<close>

lemma aadhaar_swap:
  assumes x: "is_ascii_digit x" "is_ascii_digit y" "x \<noteq> y" and sep: "\<forall>c\<in>set s. \<not> is_ascii_digit c"
    and v: "is_valid_aadhaar (a @ x # s @ y # b)"
  shows "\<not> is_valid_aadhaar (a @ y # s @ x # b)"
proof -
  have s: "digits_of s = []" using sep by (simp add: digits_of_def filter_empty_conv)
  have v: "verhoeff_validate (digits_of a @ (x - 0x30) # (y - 0x30) # digits_of b)"
    using v x s by (simp add: is_valid_aadhaar_def digits_of_digit Let_def split: if_splits)
  have "\<not> verhoeff_validate (digits_of a @ (y - 0x30) # (x - 0x30) # digits_of b)"
    by (rule verhoeff_transposition [OF _ digit_value_neq [OF x] v])
      (simp add: ball_Un digits_below digit_value_below x(1,2))
  then show ?thesis using x s by (simp add: is_valid_aadhaar_def digits_of_digit Let_def)
qed

text \<open>The tax file number: nine digits with weights invertible modulo 11.\<close>

lemma table_inj:
  assumes "distinct (map f [0..<n])" and "x < n" and "y < n" and "f x = f y"
  shows "x = y"
  using assms nth_eq_iff_index_eq [of "map f [0..<n]" x y] by simp

lemma length_tfn_weights [simp]: "length tfn_weights = 9"
  by (simp add: tfn_weights_def)

lemma tfn_weights_invertible:
  "list_all (\<lambda>i. distinct (map (\<lambda>d. d * tfn_weights ! i mod 11) [0..<10])) [0..<9]"
  by code_simp

interpretation tfn: modular_sum 11 "\<lambda>i d. d * tfn_weights ! i" "\<lambda>i d. i < 9 \<and> d < 10" "\<lambda>_ _. True"
proof
  fix i d d' :: nat
  assume i: "i < 9 \<and> d < 10" "i < 9 \<and> d' < 10"
    and eq: "d * tfn_weights ! i mod 11 = d' * tfn_weights ! i mod 11"
  have "distinct (map (\<lambda>d. d * tfn_weights ! i mod 11) [0..<10])"
    using tfn_weights_invertible i by (simp only: list_all_iff set_upt) auto
  from table_inj [OF this _ _ eq] i show "d = d'" by simp
qed simp

lemma sum_list_map2_nth:
  "length ds \<le> length ws \<Longrightarrow> sum_list (map2 (*) ds ws) = (\<Sum>k<length ds. ds ! k * ws ! k)"
  by (simp add: sum_list_sum_nth lessThan_atLeast0)

lemma all_at_digits_below:
  "(\<forall>d\<in>set ds. d < n) \<Longrightarrow> length ds = k \<Longrightarrow> all_at (\<lambda>i d. i < k \<and> d < n) 0 ds"
  by (simp add: all_at_def)

lemma tfn_typos: "notices_typos is_valid_tfn is_ascii_digit"
  unfolding notices_typos_def
proof (intro allI impI)
  fix a x x' b
  assume x: "is_ascii_digit x" "is_ascii_digit x'" "x \<noteq> x'" and v: "is_valid_tfn (a @ x # b)"
  let ?ds = "\<lambda>v. digits_of a @ (v - 0x30) # digits_of b"
  have len: "length (?ds x) = 9" and len': "length (?ds x') = 9"
    and v: "sum_list (map2 (*) (?ds x) tfn_weights) mod 11 = 0"
    using v x(1) by (simp_all add: is_valid_tfn_def digits_of_digit Let_def split: if_splits)
  have "sum_list (map2 (*) (?ds x) tfn_weights) mod 11 \<noteq> sum_list (map2 (*) (?ds x') tfn_weights) mod 11"
    unfolding sum_list_map2_nth [OF eq_imp_le [OF len [folded length_tfn_weights]]]
      sum_list_map2_nth [OF eq_imp_le [OF len' [folded length_tfn_weights]]]
    by (rule tfn.sum_substitution_noticed [OF all_at_digits_below [OF _ len] all_at_digits_below [OF _ len'] TrueI
          digit_value_neq [OF x]]) (simp_all add: ball_Un digits_below digit_value_below x(1,2))
  then show "\<not> is_valid_tfn (a @ x' # b)"
    using x(2) v by (simp add: is_valid_tfn_def digits_of_digit Let_def)
qed

lemma utf8_at_digit: "is_ascii_digit x \<Longrightarrow> utf8 (a @ x # b) = utf8 a @ x # utf8 b"
  by (simp add: utf8_append utf8_char_ascii digit_ascii)

text \<open>The Saudi number: every second digit doubled, its decimal digits added.\<close>

definition luhn_left :: "nat \<Rightarrow> nat \<Rightarrow> nat" where
  "luhn_left i c =
     (if i mod 2 = 0 then (c - 0x30) * 2 div 10 + (c - 0x30) * 2 mod 10 else c - 0x30)"

lemma saudi_sum_step:
  "saudi_sum i s (c # cs) =
     (if is_ascii_digit c then saudi_sum (i + 1) (s + luhn_left i c) cs else None)"
  by (simp add: Let_def luhn_left_def)

lemma saudi_sum_eq:
  "saudi_sum i s cs =
     (if \<forall>c\<in>set cs. is_ascii_digit c then Some (s + (\<Sum>k<length cs. luhn_left (i + k) (cs ! k))) else None)"
proof (induction cs arbitrary: i s)
  case (Cons c cs)
  then show ?case
    by (simp add: saudi_sum_step sum.lessThan_Suc_shift del: saudi_sum.simps(2) sum.lessThan_Suc)
qed simp

lemma luhn_left_table:
  "list_all (\<lambda>i. distinct (map (\<lambda>d. luhn_left i (0x30 + d) mod 10) [0..<10])) [0, 1]"
  by code_simp

interpretation saudi: modular_sum 10 luhn_left "\<lambda>_ c. is_ascii_digit c" "\<lambda>_ _. True"
proof
  fix i d d' :: nat
  assume d: "is_ascii_digit d" "is_ascii_digit d'" and eq: "luhn_left i d mod 10 = luhn_left i d' mod 10"
  have "\<exists>j\<in>{0, 1}. luhn_left i = luhn_left j"
    by (cases "i mod 2 = 0") (auto simp: luhn_left_def fun_eq_iff)
  then obtain j where j: "luhn_left i = luhn_left j" and "j \<in> {0, 1}" by blast
  then have "distinct (map (\<lambda>d. luhn_left j (0x30 + d) mod 10) [0..<10])"
    using luhn_left_table unfolding list_all_iff by auto
  then have "d - 0x30 = d' - 0x30"
    by (rule table_inj [OF _ digit_value_below [OF d(1)] digit_value_below [OF d(2)]])
      (use eq d j in \<open>simp add: is_ascii_digit_def\<close>)
  then show "d = d'" using d by (auto simp: is_ascii_digit_def)
qed simp

lemma saudi_typos: "notices_typos is_valid_saudi_id is_ascii_digit"
  unfolding notices_typos_def
proof (intro allI impI)
  fix a x x' b
  assume x: "is_ascii_digit x" "is_ascii_digit x'" "x \<noteq> x'" and v: "is_valid_saudi_id (a @ x # b)"
  let ?bs = "\<lambda>v. utf8 a @ v # utf8 b"
  obtain r where r: "saudi_sum 0 0 (?bs x) = Some r" "r mod 10 = 0"
    using v x by (auto simp: is_valid_saudi_id_def utf8_at_digit Let_def split: if_splits option.splits)
  have digits: "\<forall>c\<in>set (?bs v). is_ascii_digit c" if "is_ascii_digit v" for v
    using r(1) that unfolding saudi_sum_eq by (auto split: if_splits)
  have total: "saudi_sum 0 0 (?bs v) = Some (\<Sum>k<length (?bs v). luhn_left k (?bs v ! k))"
    if "is_ascii_digit v" for v
    unfolding saudi_sum_eq by (subst if_P, rule digits [OF that]) (simp only: add_0)
  have "(\<Sum>k<length (?bs x). luhn_left k (?bs x ! k)) mod 10 \<noteq>
      (\<Sum>k<length (?bs x'). luhn_left k (?bs x' ! k)) mod 10"
    by (rule saudi.sum_substitution_noticed [OF _ _ TrueI x(3)])
      (simp_all only: all_at_digits, (rule digits, rule x)+)
  then have "(\<Sum>k<length (?bs x'). luhn_left k (?bs x' ! k)) mod 10 \<noteq> 0"
    using r total [OF x(1)] by (simp only: option.inject)
  then show "\<not> is_valid_saudi_id (a @ x' # b)"
    using x(2) by (simp only: is_valid_saudi_id_def utf8_at_digit total Let_def option.case if_False
        HOL.simp_thms split: if_split)
qed

text \<open>The IBAN: a remainder modulo 97, where both radices are invertible.\<close>

definition iban_step :: "nat \<Rightarrow> nat \<Rightarrow> nat \<Rightarrow> nat" where
  "iban_step i r c =
     (if is_ascii_digit c then (r * 10 + (c - 0x30)) mod 97 else (r * 100 + (c - 0x41 + 10)) mod 97)"

definition iban_symbol :: "nat \<Rightarrow> bool" where
  "iban_symbol c = (is_ascii_digit c \<or> is_ascii_upper c)"

definition iban_alike :: "nat \<Rightarrow> nat \<Rightarrow> bool" where
  "iban_alike c d = (iban_symbol c \<and> iban_symbol d \<and> is_ascii_digit c = is_ascii_digit d)"

lemma iban_alike_digits: "is_ascii_digit c \<Longrightarrow> is_ascii_digit d \<Longrightarrow> iban_alike c d"
  by (simp add: iban_alike_def iban_symbol_def)

lemma iban_alike_letters: "is_ascii_upper c \<Longrightarrow> is_ascii_upper d \<Longrightarrow> iban_alike c d"
  by (auto simp: iban_alike_def iban_symbol_def is_ascii_digit_def is_ascii_upper_def)

lemma iban_remainder_chain:
  "iban_remainder r cs = (if \<forall>c\<in>set cs. iban_symbol c then Some (chain iban_step i r cs) else None)"
proof (induction cs arbitrary: i r)
  case (Cons c cs)
  have "iban_remainder r (c # cs) =
      (if iban_symbol c then iban_remainder (iban_step i r c) cs else None)"
    by (simp add: iban_step_def iban_symbol_def is_ascii_digit_def is_ascii_upper_def)
  then show ?case using Cons [of "iban_step i r c" "i + 1"] by simp
qed simp

lemma unit_mult_inj:
  fixes x y k v m :: nat
  assumes unit: "k * v mod m = 1" and "x < m" and "y < m" and "x * k mod m = y * k mod m"
  shows "x = y"
proof -
  have undo: "z = (z * k mod m) * v mod m" if "z < m" for z
  proof -
    have "(z * k mod m) * v mod m = z * (k * v mod m) mod m"
      by (simp add: mod_mult_left_eq mod_mult_right_eq mult.assoc)
    then show ?thesis using unit that by simp
  qed
  show ?thesis using undo [OF assms(2)] undo [OF assms(3)] assms(4) by metis
qed

lemma iban_state_inj:
  assumes "c < 97" "c' < 97" "iban_step i c d = iban_step i c' d"
  shows "c = c'"
proof (cases "is_ascii_digit d")
  case True
  then have "c * 10 mod 97 = c' * 10 mod 97"
    using assms(3) unfolding iban_step_def by (simp only: if_True add_mod_inj)
  then show ?thesis using assms(1,2) by (intro unit_mult_inj [of 10 68 97 c c']) simp_all
next
  case False
  then have "c * 100 mod 97 = c' * 100 mod 97"
    using assms(3) unfolding iban_step_def by (simp only: if_False add_mod_inj)
  then show ?thesis using assms(1,2) by (intro unit_mult_inj [of 100 65 97 c c']) simp_all
qed

definition iban_value :: "nat \<Rightarrow> nat" where
  "iban_value c = (if is_ascii_digit c then c - 0x30 else c - 0x41 + 10)"

lemma iban_value_inj:
  "iban_alike c d \<Longrightarrow> iban_value c mod 97 = iban_value d mod 97 \<Longrightarrow> c = d"
  by (auto simp: iban_value_def iban_alike_def iban_symbol_def is_ascii_digit_def is_ascii_upper_def
      split: if_splits)

lemma iban_symbol_inj:
  assumes "iban_alike d d'" "iban_step i c d = iban_step i c d'"
  shows "d = d'"
proof -
  have "(c * (if is_ascii_digit d then 10 else 100) + iban_value d) mod 97 =
        (c * (if is_ascii_digit d then 10 else 100) + iban_value d') mod 97"
    using assms by (simp add: iban_step_def iban_value_def iban_alike_def split: if_splits)
  then have "iban_value d mod 97 = iban_value d' mod 97"
    using add_mod_inj by (metis add.commute)
  then show ?thesis by (rule iban_value_inj [OF assms(1)])
qed

interpretation iban: check_chain iban_step 97 "\<lambda>_. iban_symbol" iban_alike
proof
  fix c c' i d d' :: nat
  show "iban_step i c d < 97" by (simp add: iban_step_def)
  show "c = c'" if "c < 97" "c' < 97" "iban_step i c d = iban_step i c' d"
    using that by (rule iban_state_inj)
  show "d = d'" if "iban_alike d d'" "iban_step i c d = iban_step i c d'"
    using that by (rule iban_symbol_inj)
qed

lemma iban_rearranged_substitution:
  assumes "iban_alike x x'" "x \<noteq> x'" "iban_remainder 0 (xs @ x # ys) = Some r"
  shows "iban_remainder 0 (xs @ x' # ys) \<noteq> Some r"
proof
  assume "iban_remainder 0 (xs @ x' # ys) = Some r"
  then have "chain iban_step 0 0 (xs @ x # ys) = chain iban_step 0 0 (xs @ x' # ys)"
    and "all_at (\<lambda>_. iban_symbol) 0 (xs @ x # ys)" "all_at (\<lambda>_. iban_symbol) 0 (xs @ x' # ys)"
    using assms(3) by (auto simp only: iban_remainder_chain [of _ _ 0] all_at_digits split: if_splits)
  then have "x = x'"
    by (intro iban.substitution_noticed [of 0 0 xs x ys x', OF _ _ _ assms(1)]) simp_all
  then show False using assms(2) by simp
qed

lemma iban_typos:
  assumes alike: "iban_alike x x'" "x \<noteq> x'" and v: "is_valid_iban (a @ x # b)"
  shows "\<not> is_valid_iban (a @ x' # b)"
proof -
  let ?A = "filter (\<lambda>b. b \<noteq> 0x20) (utf8 a)" and ?B = "filter (\<lambda>b. b \<noteq> 0x20) (utf8 b)"
  have compact: "filter (\<lambda>b. b \<noteq> 0x20) (utf8 (a @ y # b)) = ?A @ y # ?B" if "y = x \<or> y = x'" for y
    using that alike(1)
    by (auto simp: utf8_append utf8_char_def iban_alike_def iban_symbol_def is_ascii_digit_def
        is_ascii_upper_def)
  have moved: "\<exists>P S. \<forall>y. drop 4 (?A @ y # ?B) @ take 4 (?A @ y # ?B) = P @ y # S"
  proof (cases "length ?A < 4")
    case True
    then have "drop 4 (?A @ y # ?B) @ take 4 (?A @ y # ?B) =
        (drop (3 - length ?A) ?B @ ?A) @ y # take (3 - length ?A) ?B" for y
      by (simp add: drop_Cons' take_Cons')
    then show ?thesis by blast
  next
    case False
    then have "drop 4 (?A @ y # ?B) @ take 4 (?A @ y # ?B) = drop 4 ?A @ y # (?B @ take 4 ?A)" for y
      by simp
    then show ?thesis by blast
  qed
  then obtain P S where "\<And>y. drop 4 (?A @ y # ?B) @ take 4 (?A @ y # ?B) = P @ y # S" by blast
  then show ?thesis
    using v iban_rearranged_substitution [OF alike, of P S 1] compact
    by (simp add: is_valid_iban_def Let_def split: if_splits)
qed

text \<open>The GSTIN: digit sums of products in base 36, complemented into the check character.\<close>

definition gstin_part :: "nat \<Rightarrow> nat \<Rightarrow> nat" where
  "gstin_part i c =
     (let product = the (position c gstin_alphabet) * (if i mod 2 = 0 then 1 else 2)
      in product div 36 + product mod 36)"

lemma position_none: "position c as = None \<longleftrightarrow> c \<notin> set as"
  by (induction as) auto

lemma gstin_sum_step:
  "gstin_sum i s (c # cs) =
     (if c \<in> set gstin_alphabet then gstin_sum (i + 1) (s + gstin_part i c) cs else None)"
  using position_none [of c gstin_alphabet] by (auto simp: gstin_part_def Let_def split: option.splits)

lemma gstin_sum_eq:
  "gstin_sum i s cs =
     (if \<forall>c\<in>set cs. c \<in> set gstin_alphabet
      then Some (s + (\<Sum>k<length cs. gstin_part (i + k) (cs ! k))) else None)"
proof (induction cs arbitrary: i s)
  case (Cons c cs)
  then show ?case
    by (simp add: gstin_sum_step sum.lessThan_Suc_shift del: gstin_sum.simps(2) sum.lessThan_Suc)
qed simp

lemma gstin_part_table:
  "list_all (\<lambda>i. distinct (map (\<lambda>v. (v * (if i = 0 then 1 else 2) div 36 + v * (if i = 0 then 1 else 2) mod 36)
     mod 36) [0..<36])) [0, 1 :: nat]"
  by code_simp

lemma gstin_alphabet_facts: "distinct gstin_alphabet" "length gstin_alphabet = 36"
  by code_simp+

lemma position_some: "c \<in> set as \<Longrightarrow> the (position c as) < length as \<and> as ! the (position c as) = c"
  by (induction as) (use position_none in \<open>force\<close>)+

interpretation gstin: modular_sum 36 gstin_part "\<lambda>_ c. c \<in> set gstin_alphabet" "\<lambda>_ _. True"
proof
  fix i d d' :: nat
  let ?w = "if i mod 2 = 0 then 1 else 2 :: nat" and ?v = "\<lambda>c. the (position c gstin_alphabet)"
  let ?f = "\<lambda>v. (v * ?w div 36 + v * ?w mod 36) mod 36"
  assume d: "d \<in> set gstin_alphabet" "d' \<in> set gstin_alphabet"
    and eq: "gstin_part i d mod 36 = gstin_part i d' mod 36"
  have "distinct (map ?f [0..<36])" using gstin_part_table unfolding list_all_iff by (cases "i mod 2 = 0") auto
  moreover have "?v d < 36" "?v d' < 36"
    using position_some [OF d(1)] position_some [OF d(2)] gstin_alphabet_facts by simp_all
  moreover have "?f (?v d) = ?f (?v d')" using eq by (simp only: gstin_part_def Let_def)
  ultimately have "?v d = ?v d'" by (rule table_inj)
  then show "d = d'" using position_some [OF d(1)] position_some [OF d(2)] by metis
qed simp

text \<open>The check character determines the sum it was computed from.\<close>

lemma gstin_check_inj:
  assumes "gstin_alphabet ! ((36 - s mod 36) mod 36) = gstin_alphabet ! ((36 - t mod 36) mod 36)"
  shows "s mod 36 = t mod (36 :: nat)"
proof -
  have "(36 - s mod 36) mod 36 = (36 - t mod 36) mod 36"
    using assms nth_eq_iff_index_eq [OF gstin_alphabet_facts(1)] gstin_alphabet_facts(2) by simp
  moreover have "s mod 36 < 36" "t mod 36 < 36" by simp_all
  ultimately show ?thesis by (cases "s mod 36 = 0"; cases "t mod 36 = 0") simp_all
qed

lemma gstin_sumD:
  "gstin_sum i s cs = Some t \<Longrightarrow>
    (\<forall>c\<in>set cs. c \<in> set gstin_alphabet) \<and> t = s + (\<Sum>k<length cs. gstin_part (i + k) (cs ! k))"
  by (simp only: gstin_sum_eq split: if_splits) simp_all

lemma gstin_sum_substitution:
  assumes "gstin_sum 0 0 (xs @ x # ys) = Some s" "gstin_sum 0 0 (xs @ x' # ys) = Some s'" "x \<noteq> x'"
  shows "s mod 36 \<noteq> s' mod 36"
  using gstin_sumD [OF assms(1)] gstin_sumD [OF assms(2)]
    gstin.sum_substitution_noticed [of xs x ys x', OF _ _ TrueI assms(3)]
  unfolding all_at_digits add_0 by blast

lemma gstin_alphabet_ascii: "c \<in> set gstin_alphabet \<Longrightarrow> c < 0x80"
  by (auto simp: gstin_alphabet_def lit_def)

lemma gstin_typos: "notices_typos is_valid_gstin (\<lambda>c. c \<in> set gstin_alphabet)"
  unfolding notices_typos_def
proof (intro allI impI notI)
  fix a x x' b
  let ?A = "utf8 a" and ?B = "utf8 b" and ?check = "\<lambda>s. gstin_alphabet ! ((36 - s mod 36) mod 36)"
  assume x: "x \<in> set gstin_alphabet" "x' \<in> set gstin_alphabet" "x \<noteq> x'"
    and v: "is_valid_gstin (a @ x # b)" "is_valid_gstin (a @ x' # b)"
  have bytes: "utf8 (a @ y # b) = ?A @ y # ?B" if "y = x \<or> y = x'" for y
    using that x gstin_alphabet_ascii by (auto simp: utf8_append utf8_char_ascii)
  obtain s s' where s: "gstin_sum 0 0 (take 14 (?A @ x # ?B)) = Some s" "(?A @ x # ?B) ! 14 = ?check s"
    and s': "gstin_sum 0 0 (take 14 (?A @ x' # ?B)) = Some s'" "(?A @ x' # ?B) ! 14 = ?check s'"
    and len: "length ?A + length ?B = 14"
    using v bytes by (auto simp: is_valid_gstin_def Let_def split: if_splits option.splits)
  show False
  proof (cases "length ?A = 14")
    case True
    then show False using s s' x(3) by (simp add: nth_append)
  next
    case False
    then obtain k where k: "14 - length ?A = Suc k" using len by (cases "14 - length ?A") auto
    then have "take 14 (?A @ y # ?B) = ?A @ y # take k ?B" for y
      using len by simp
    then have sums: "gstin_sum 0 0 (?A @ x # take k ?B) = Some s" "gstin_sum 0 0 (?A @ x' # take k ?B) = Some s'"
      using s s' by simp_all
    have "(?A @ x # ?B) ! 14 = (?A @ x' # ?B) ! 14" using k len by (simp add: nth_append)
    then have "s mod 36 = s' mod 36" using s(2) s'(2) gstin_check_inj by metis
    moreover have "s mod 36 \<noteq> s' mod 36" by (rule gstin_sum_substitution [OF sums x(3)])
    ultimately show False by simp
  qed
qed

text \<open>The NRIC: a typo in one of its seven digits.\<close>

lemma nric_weight_table:
  "list_all (\<lambda>i. distinct (map (\<lambda>d. d * nric_weights ! i mod 11) [0..<10])) [0..<7]"
  by code_simp

lemma nric_tables_distinct: "nric_table pre = Some table \<Longrightarrow> distinct table \<and> length table = 11"
  by (auto simp: nric_table_def lit_def split: if_splits)

interpretation nric: modular_sum 11 "\<lambda>i d. d * nric_weights ! i" "\<lambda>i _. i < 7" "\<lambda>d d'. d < 10 \<and> d' < 10"
proof
  fix i d d' :: nat
  assume i: "i < 7" and d: "d < 10 \<and> d' < 10" and eq: "d * nric_weights ! i mod 11 = d' * nric_weights ! i mod 11"
  have "distinct (map (\<lambda>d. d * nric_weights ! i mod 11) [0..<10])"
    using nric_weight_table i unfolding list_all_iff by simp
  from table_inj [OF this _ _ eq] d show "d = d'" by simp
qed simp

lemma nric_sum_substitution:
  assumes len: "length (xs @ d # ys) = 7" and d: "d < 10" "d' < 10" "d \<noteq> d'"
  shows "sum_list (map2 (*) (xs @ d # ys) nric_weights) mod 11 \<noteq>
         sum_list (map2 (*) (xs @ d' # ys) nric_weights) mod 11"
proof -
  have w: "length nric_weights = 7" by (simp add: nric_weights_def)
  have len': "length (xs @ d' # ys) = 7" using len by simp
  have "all_at (\<lambda>i _. i < 7) 0 (xs @ e # ys)" for e using len by (simp add: all_at_def)
  then show ?thesis
    unfolding sum_list_map2_nth [OF eq_imp_le [OF len [folded w]]]
      sum_list_map2_nth [OF eq_imp_le [OF len' [folded w]]]
    using nric.sum_substitution_noticed [of xs d ys d', OF _ _ _ d(3)] d by blast
qed

lemma nric_prefix_not_digit: "nric_table pre = Some table \<Longrightarrow> \<not> is_ascii_digit pre"
  by (auto simp: nric_table_def is_ascii_digit_def split: if_splits)

lemma nric_letter: "nric_table pre = Some table \<Longrightarrow> k < 11 \<Longrightarrow> 0x41 \<le> table ! k"
proof -
  assume t: "nric_table pre = Some table" and k: "k < 11"
  have "\<forall>c\<in>set table. 0x41 \<le> c" using t by (auto simp: nric_table_def lit_def split: if_splits)
  then show ?thesis using k nric_tables_distinct [OF t] by simp
qed

lemma u8_sub_digit: "is_ascii_digit c \<Longrightarrow> u8_sub c 0x30 = c - 0x30"
  by (auto simp: u8_sub_def is_ascii_digit_def mod_if)

lemma nric_typos: "notices_typos is_valid_nric is_ascii_digit"
  unfolding notices_typos_def
proof (intro allI impI notI)
  fix a x x' b
  assume x: "is_ascii_digit x" "is_ascii_digit x'" "x \<noteq> x'"
    and v: "is_valid_nric (a @ x # b)" "is_valid_nric (a @ x' # b)"
  let ?A = "utf8 a" and ?B = "utf8 b"
  let ?ds = "\<lambda>y. map (\<lambda>c. u8_sub c 0x30) (take 7 (drop 1 (?A @ y # ?B)))"
  let ?s = "\<lambda>y p. sum_list (map2 (*) (?ds y) nric_weights) + nric_offset p"
  have len: "length ?A + length ?B = 8"
    using v(1) by (simp add: is_valid_nric_def utf8_at_digit x Let_def split: if_splits)
  have table: "\<exists>t. nric_table ((?A @ y # ?B) ! 0) = Some t \<and>
      (?A @ y # ?B) ! 8 = t ! (?s y ((?A @ y # ?B) ! 0) mod 11)" if "y = x \<or> y = x'" for y
    using that v by (auto simp: is_valid_nric_def utf8_at_digit x Let_def split: if_splits option.splits)
  have A: "?A \<noteq> []"
  proof
    assume "?A = []"
    then have "(?A @ x # ?B) ! 0 = x" by simp
    then obtain t where "nric_table x = Some t" using table [of x] by auto
    then show False using nric_prefix_not_digit x(1) by blast
  qed
  obtain p A' where pA: "?A = p # A'" using A by (cases ?A) auto
  have B: "length A' \<noteq> 7"
  proof
    assume "length A' = 7"
    then have "(?A @ x # ?B) ! 8 = x" using pA by (simp add: nth_append)
    moreover obtain t where "nric_table ((?A @ x # ?B) ! 0) = Some t"
        "(?A @ x # ?B) ! 8 = t ! (?s x ((?A @ x # ?B) ! 0) mod 11)"
      using table [of x] by blast
    ultimately have "0x41 \<le> x"
      using nric_letter [of "(?A @ x # ?B) ! 0" t "?s x ((?A @ x # ?B) ! 0) mod 11"]
      by (metis mod_less_divisor zero_less_numeral)
    then show False using x(1) by (simp add: is_ascii_digit_def)
  qed
  then obtain k where k: "7 - length A' = Suc k" using len pA by (cases "7 - length A'") auto
  have ds: "?ds y = map (\<lambda>c. u8_sub c 0x30) A' @ (y - 0x30) # map (\<lambda>c. u8_sub c 0x30) (take k ?B)"
    if "is_ascii_digit y" for y
    using k pA len u8_sub_digit [OF that] by simp
  have p: "(?A @ y # ?B) ! 0 = p" for y using pA by simp
  obtain t where t: "nric_table p = Some t" "(?A @ x # ?B) ! 8 = t ! (?s x p mod 11)"
      "(?A @ x' # ?B) ! 8 = t ! (?s x' p mod 11)"
    using table [of x] table [of x'] unfolding p by (metis option.inject)
  have "(?A @ x # ?B) ! 8 = (?A @ x' # ?B) ! 8" using k len pA by (simp add: nth_append nth_Cons')
  then have "t ! (?s x p mod 11) = t ! (?s x' p mod 11)" using t(2,3) by (simp only:)
  moreover have "?s y p mod 11 < length t" for y using nric_tables_distinct [OF t(1)] by simp
  ultimately have "?s x p mod 11 = ?s x' p mod 11"
    using nric_tables_distinct [OF t(1)] nth_eq_iff_index_eq by blast
  then have "sum_list (map2 (*) (?ds x) nric_weights) mod 11 = sum_list (map2 (*) (?ds x') nric_weights) mod 11"
    by (simp only: add_mod_inj)
  moreover have "length (map (\<lambda>c. u8_sub c 0x30) A' @ (x - 0x30) # map (\<lambda>c. u8_sub c 0x30) (take k ?B)) = 7"
    using k len pA by simp
  ultimately show False
    using nric_sum_substitution digit_value_below [OF x(1)] digit_value_below [OF x(2)] digit_value_neq [OF x]
    unfolding ds [OF x(1)] ds [OF x(2)] by blast
qed

end
