(* ===== verification/Masker_Ids.thy ===== *)
theory Masker_Ids
  imports National_Ids
begin

text \<open>
  The validators of the masker, \<^verbatim>\<open>crates/guardrails/src/detect.rs\<close>, one definition per function.
  They were written separately from the residency classifier's and the sources demand that the
  two agree (a number classified for routing must not leave unmasked); the last section proves
  to what extent they do, on every text.
\<close>

section \<open>Validators\<close>

text \<open>\<^verbatim>\<open>digits\<close>: the ASCII digits among the bytes.\<close>

definition byte_digits :: "utext \<Rightarrow> nat list" where
  "byte_digits s = map (\<lambda>b. b - 0x30) (filter is_ascii_digit (utf8 s))"

definition is_pan :: "utext \<Rightarrow> bool" where
  "is_pan s =
     (let b = utf8 s in
      if length b \<noteq> 10 then False else to_ascii_upper (b ! 3) \<in> set (lit ''PCHFATBLJGEDK''))"

text \<open>The masker's own copy of the two Verhoeff tables.\<close>

definition masker_d :: "nat list list" where
  "masker_d =
    [[0, 1, 2, 3, 4, 5, 6, 7, 8, 9],
     [1, 2, 3, 4, 0, 6, 7, 8, 9, 5],
     [2, 3, 4, 0, 1, 7, 8, 9, 5, 6],
     [3, 4, 0, 1, 2, 8, 9, 5, 6, 7],
     [4, 0, 1, 2, 3, 9, 5, 6, 7, 8],
     [5, 9, 8, 7, 6, 0, 4, 3, 2, 1],
     [6, 5, 9, 8, 7, 1, 0, 4, 3, 2],
     [7, 6, 5, 9, 8, 2, 1, 0, 4, 3],
     [8, 7, 6, 5, 9, 3, 2, 1, 0, 4],
     [9, 8, 7, 6, 5, 4, 3, 2, 1, 0]]"

definition masker_p :: "nat list list" where
  "masker_p =
    [[0, 1, 2, 3, 4, 5, 6, 7, 8, 9],
     [1, 5, 7, 6, 2, 8, 3, 0, 9, 4],
     [5, 8, 0, 3, 7, 9, 6, 1, 4, 2],
     [8, 9, 1, 6, 0, 4, 3, 5, 2, 7],
     [9, 4, 5, 3, 1, 2, 6, 8, 7, 0],
     [4, 2, 8, 6, 5, 7, 3, 9, 0, 1],
     [2, 7, 9, 3, 8, 0, 6, 4, 1, 5],
     [7, 0, 4, 6, 9, 1, 3, 2, 5, 8]]"

fun masker_verhoeff :: "nat \<Rightarrow> nat \<Rightarrow> nat list \<Rightarrow> nat" where
  "masker_verhoeff i c [] = c"
| "masker_verhoeff i c (d # ds) =
     masker_verhoeff (i + 1) (masker_d ! c ! (masker_p ! (i mod 8) ! d)) ds"

definition is_aadhaar :: "utext \<Rightarrow> bool" where
  "is_aadhaar s =
     (let ds = byte_digits s in
      if length ds \<noteq> 12 then False else masker_verhoeff 0 0 (rev ds) = 0)"

definition masker_alphabet :: "nat list" where
  "masker_alphabet = lit ''0123456789ABCDEFGHIJKLMNOPQRSTUVWXYZ''"

fun masker_gstin_sum :: "nat \<Rightarrow> nat \<Rightarrow> nat list \<Rightarrow> nat option" where
  "masker_gstin_sum i s [] = Some s"
| "masker_gstin_sum i s (c # cs) =
     (case position c masker_alphabet of
        None \<Rightarrow> None
      | Some v \<Rightarrow>
          let product = v * (if i mod 2 = 0 then 1 else 2)
          in masker_gstin_sum (i + 1) (s + (product div 36 + product mod 36)) cs)"

definition is_gstin :: "utext \<Rightarrow> bool" where
  "is_gstin s =
     (let b = utf8 s in
      if length b \<noteq> 15 then False
      else case masker_gstin_sum 0 0 (take 14 b) of
          None \<Rightarrow> False
        | Some t \<Rightarrow> b ! 14 = masker_alphabet ! ((36 - t mod 36) mod 36))"

definition is_ifsc :: "utext \<Rightarrow> bool" where
  "is_ifsc s =
     (let b = utf8 s in
      length b = 11 \<and> list_all is_ascii_upper (take 4 b) \<and> b ! 4 = 0x30 \<and>
      list_all is_ascii_alphanumeric (drop 5 b))"

text \<open>The Luhn sum over the digits from the right.\<close>

fun luhn_sum :: "nat \<Rightarrow> nat list \<Rightarrow> nat" where
  "luhn_sum i [] = 0"
| "luhn_sum i (d # ds) =
     (if i mod 2 = 1 then (if 9 < d * 2 then d * 2 - 9 else d * 2) else d) + luhn_sum (i + 1) ds"

definition is_card :: "utext \<Rightarrow> bool" where
  "is_card s =
     (let ds = byte_digits s in
      if \<not> (13 \<le> length ds \<and> length ds \<le> 19) then False
      else luhn_sum 0 (rev ds) mod 10 = 0)"

text \<open>\<^verbatim>\<open>str::split\<close> on one character, and \<^verbatim>\<open>str::parse::<u16>\<close>: an optional plus sign, at least
  one digit, at most \<open>2\<^sup>1\<^sup>6 - 1\<close>.\<close>

fun split_on :: "nat \<Rightarrow> utext \<Rightarrow> utext list" where
  "split_on sep [] = [[]]"
| "split_on sep (c # s) =
     (if c = sep then [] # split_on sep s
      else case split_on sep s of [] \<Rightarrow> [[c]] | p # ps \<Rightarrow> (c # p) # ps)"

definition parse_u16 :: "utext \<Rightarrow> nat option" where
  "parse_u16 s =
     (let ds = (case s of c # cs \<Rightarrow> if c = 0x2B then cs else s | [] \<Rightarrow> s);
          v = foldl (\<lambda>a c. a * 10 + (c - 0x30)) 0 ds
      in if ds = [] \<or> \<not> list_all is_ascii_digit ds \<or> 65535 < v then None else Some v)"

definition is_ipv4 :: "utext \<Rightarrow> bool" where
  "is_ipv4 s =
     (let parts = split_on 0x2E s in
      length parts = 4 \<and>
      list_all (\<lambda>p. case parse_u16 p of None \<Rightarrow> False | Some n \<Rightarrow> n \<le> 255) parts)"

text \<open>\<^verbatim>\<open>u8::is_ascii_whitespace\<close>: tab, line feed, form feed, carriage return and space.\<close>

definition is_ascii_whitespace :: "nat \<Rightarrow> bool" where
  "is_ascii_whitespace b = (b \<in> {0x09, 0x0A, 0x0C, 0x0D, 0x20})"

fun masker_iban_rem :: "nat \<Rightarrow> nat list \<Rightarrow> nat option" where
  "masker_iban_rem r [] = Some r"
| "masker_iban_rem r (c # cs) =
     (if 0x30 \<le> c \<and> c \<le> 0x39 then masker_iban_rem ((r * 10 + (c - 0x30)) mod 97) cs
      else if 0x41 \<le> c \<and> c \<le> 0x5A then masker_iban_rem ((r * 100 + (c - 0x41) + 10) mod 97) cs
      else None)"

definition is_iban :: "utext \<Rightarrow> bool" where
  "is_iban s =
     (let compact = filter (\<lambda>b. \<not> is_ascii_whitespace b) (utf8 s) in
      if length compact < 15 \<or> 34 < length compact then False
      else masker_iban_rem 0 (drop 4 compact @ take 4 compact) = Some 1)"

definition masker_cpf_check :: "nat list \<Rightarrow> nat \<Rightarrow> nat" where
  "masker_cpf_check d n =
     (let s = (\<Sum>i<n. d ! i * (n + 1 - i)); r = (s * 10) mod 11 in if r = 10 then 0 else r)"

definition is_cpf :: "utext \<Rightarrow> bool" where
  "is_cpf s =
     (let d = byte_digits s in
      if length d \<noteq> 11 \<or> list_all (\<lambda>x. x = d ! 0) d then False
      else masker_cpf_check d 9 = d ! 9 \<and> masker_cpf_check d 10 = d ! 10)"

text \<open>The weights are those of the classifier; here the sum runs over the byte indices 1 to 7.\<close>

definition is_nric :: "utext \<Rightarrow> bool" where
  "is_nric s =
     (let b = utf8 s in
      if length b \<noteq> 9 then False
      else
        let w = [2, 7, 6, 5, 4, 3, 2];
            t = (\<Sum>i\<leftarrow>[1..<8]. u8_sub (b ! i) 0x30 * w ! (i - 1)) +
                (if b ! 0 = 0x54 \<or> b ! 0 = 0x47 then 4 else if b ! 0 = 0x4D then 3 else 0)
        in (if b ! 0 = 0x53 \<or> b ! 0 = 0x54 then b ! 8 = lit ''JZIHGFEDCBA'' ! (t mod 11)
            else if b ! 0 = 0x46 \<or> b ! 0 = 0x47 then b ! 8 = lit ''XWUTRQPNMLK'' ! (t mod 11)
            else if b ! 0 = 0x4D then b ! 8 = lit ''XWUTRQPNJLK'' ! (t mod 11)
            else False))"

definition is_emirates_id :: "utext \<Rightarrow> bool" where
  "is_emirates_id s =
     (let d = byte_digits s in
      if length d \<noteq> 15 then False
      else if d ! 0 \<noteq> 7 \<or> d ! 1 \<noteq> 8 \<or> d ! 2 \<noteq> 4 then False
      else
        let year = d ! 3 * 1000 + d ! 4 * 100 + d ! 5 * 10 + d ! 6
        in 1900 \<le> year \<and> year \<le> 2099)"

fun masker_saudi_sum :: "nat \<Rightarrow> nat \<Rightarrow> nat list \<Rightarrow> nat option" where
  "masker_saudi_sum i s [] = Some s"
| "masker_saudi_sum i s (c # cs) =
     (if \<not> is_ascii_digit c then None
      else
        let digit = c - 0x30
        in if i mod 2 = 0 then masker_saudi_sum (i + 1) (s + (digit * 2 div 10 + digit * 2 mod 10)) cs
           else masker_saudi_sum (i + 1) (s + digit) cs)"

definition is_saudi_id :: "utext \<Rightarrow> bool" where
  "is_saudi_id s =
     (let b = utf8 s in
      if length b \<noteq> 10 \<or> b ! 0 \<noteq> 0x31 \<and> b ! 0 \<noteq> 0x32 then False
      else case masker_saudi_sum 0 0 b of None \<Rightarrow> False | Some t \<Rightarrow> t mod 10 = 0)"

definition is_tfn :: "utext \<Rightarrow> bool" where
  "is_tfn s =
     (let d = byte_digits s in
      if length d \<noteq> 9 then False
      else sum_list (map2 (*) d [1, 4, 3, 7, 5, 8, 6, 9, 10]) mod 11 = 0)"

definition is_my_number :: "utext \<Rightarrow> bool" where
  "is_my_number s =
     (if is_aadhaar s then False
      else
        let d = byte_digits s in
        if length d \<noteq> 12 then False
        else
          let t = (\<Sum>idx\<leftarrow>[0..<11]. let p = idx + 1 in d ! (10 - idx) * (if p \<le> 6 then p + 1 else p - 5));
              r = t mod 11;
              check = (if r \<le> 1 then 0 else 11 - r)
          in check = d ! 11)"

text \<open>Whether the run \<open>[start, end)\<close> of the bytes is a maximal group of digits.\<close>

definition is_maximal_group :: "nat list \<Rightarrow> nat \<Rightarrow> nat \<Rightarrow> bool" where
  "is_maximal_group bs start stop =
     (let separator = (\<lambda>b. b = 0x2D \<or> b = 0x20);
          extends_left =
            (if start = 0 then False
             else if start = 1 then is_ascii_digit (bs ! 0)
             else is_ascii_digit (bs ! (start - 1)) \<or>
                  separator (bs ! (start - 1)) \<and> is_ascii_digit (bs ! (start - 2)));
          extends_right =
            (if length bs \<le> stop then False
             else if is_ascii_digit (bs ! stop) then True
             else if separator (bs ! stop) then stop + 1 < length bs \<and> is_ascii_digit (bs ! (stop + 1))
             else False)
      in \<not> extends_left \<and> \<not> extends_right)"

section \<open>Agreement with the classifier\<close>

lemma set_rotated: "set (drop n xs @ take n xs) = set xs"
proof -
  have "set (drop n xs @ take n xs) = set (take n xs @ drop n xs)" unfolding set_append by (rule Un_commute)
  then show ?thesis by (simp only: append_take_drop_id)
qed

lemma byte_digits_eq [simp]: "byte_digits s = digits_of s"
  using digits_of_utf8 [of s] by (simp add: byte_digits_def digits_of_def)

lemma masker_tables: "masker_d = verhoeff_d" "masker_p = verhoeff_p"
  by (simp_all only: masker_d_def verhoeff_d_def masker_p_def verhoeff_p_def)

lemma masker_verhoeff_chain: "masker_verhoeff i c ds = chain verhoeff_step i c ds"
  by (induction ds arbitrary: i c) (simp_all add: verhoeff_step_def masker_tables)

lemma aadhaar_agree: "is_aadhaar s = is_valid_aadhaar s"
proof -
  have "verhoeff_loop 0 0 (rev (digits_of s)) = Some (masker_verhoeff 0 0 (rev (digits_of s)))"
    by (simp add: masker_verhoeff_chain verhoeff_loop_chain digits_below)
  then show ?thesis
    by (auto simp: is_aadhaar_def is_valid_aadhaar_def verhoeff_validate_def Let_def)
qed

lemma pan_agree: "is_pan s = is_valid_pan s"
  by (simp add: is_pan_def is_valid_pan_def)

lemma masker_alphabet: "masker_alphabet = gstin_alphabet"
  by (simp only: masker_alphabet_def gstin_alphabet_def)

lemma masker_gstin_sum_eq: "masker_gstin_sum i s cs = gstin_sum i s cs"
  by (induction cs arbitrary: i s)
    (simp_all add: masker_alphabet split: option.split)

lemma gstin_agree: "is_gstin s = is_valid_gstin s"
  unfolding is_gstin_def is_valid_gstin_def masker_gstin_sum_eq masker_alphabet ..

lemma ifsc_agree: "is_ifsc s = is_valid_ifsc s"
  by (simp add: is_ifsc_def is_valid_ifsc_def Let_def)

lemma cpf_agree: "is_cpf s = is_valid_cpf s"
  by (simp add: is_cpf_def is_valid_cpf_def masker_cpf_check_def cpf_check_def)

lemma emirates_agree: "is_emirates_id s = is_valid_emirates_id s"
  by (simp add: is_emirates_id_def is_valid_emirates_id_def)

lemma masker_saudi_sum_eq: "masker_saudi_sum i s cs = saudi_sum i s cs"
  by (induction cs arbitrary: i s) (simp_all add: Let_def)

lemma saudi_agree: "is_saudi_id s = is_valid_saudi_id s"
  by (simp add: is_saudi_id_def is_valid_saudi_id_def masker_saudi_sum_eq)

lemma tfn_agree: "is_tfn s = is_valid_tfn s"
  by (simp add: is_tfn_def is_valid_tfn_def tfn_weights_def)

text \<open>The masker's My Number gives way to Aadhaar, so it is masked under one of the two names.\<close>

lemma my_number_agree: "is_my_number s \<longleftrightarrow> is_valid_my_number s \<and> \<not> is_aadhaar s"
  by (simp add: is_my_number_def is_valid_my_number_def my_number_check_def Let_def)

lemma masker_iban_rem_eq: "masker_iban_rem r cs = iban_remainder r cs"
  by (induction cs arbitrary: r) (simp_all add: add.assoc)

text \<open>The masker drops all white space where the classifier drops spaces only: a candidate the
  classifier accepts has no other white space left, so the masker accepts it too.\<close>

lemma iban_covered:
  assumes "is_valid_iban s"
  shows "is_iban s"
proof -
  let ?c = "filter (\<lambda>b. b \<noteq> 0x20) (utf8 s)"
  have "iban_remainder 0 (drop 4 ?c @ take 4 ?c) = Some 1" and len: "\<not> (length ?c < 15 \<or> 34 < length ?c)"
    using assms by (simp_all add: is_valid_iban_def Let_def split: if_splits)
  then have "\<forall>c\<in>set (drop 4 ?c @ take 4 ?c). iban_symbol c"
    by (simp only: iban_remainder_chain [of _ _ 0] split: if_splits) simp
  moreover have "set (drop 4 ?c @ take 4 ?c) = set ?c"
    by (rule set_rotated)
  ultimately have "\<forall>c\<in>set ?c. iban_symbol c" by (simp only:)
  then have "filter (\<lambda>b. \<not> is_ascii_whitespace b) (utf8 s) = ?c"
    by (intro filter_cong)
      (auto simp: is_ascii_whitespace_def iban_symbol_def is_ascii_digit_def is_ascii_upper_def)
  then show ?thesis
    using assms len unfolding is_iban_def is_valid_iban_def masker_iban_rem_eq Let_def by (simp only: if_False)
qed

lemma take_seven: "length b = 9 \<Longrightarrow> take 7 (drop (Suc 0) b) = map (\<lambda>i. b ! i) [Suc 0..<8]"
  by (intro nth_equalityI) (auto simp del: upt_Suc)

lemma nric_sums:
  "length b = 9 \<Longrightarrow>
    sum_list (map2 (*) (map (\<lambda>c. u8_sub c 0x30) (take 7 (drop (Suc 0) b))) nric_weights) =
    (\<Sum>i\<leftarrow>[Suc 0..<8]. u8_sub (b ! i) 0x30 * [2, 7, 6, 5, 4, 3, 2] ! (i - Suc 0))"
  by (simp add: take_seven nric_weights_def upt_conv_Cons)

lemma nric_agree: "is_nric s = is_valid_nric s"
  by (simp add: is_nric_def is_valid_nric_def nric_sums Let_def nric_table_def nric_offset_def
      del: upt_Suc)

section \<open>Card numbers\<close>

definition luhn_right :: "nat \<Rightarrow> nat \<Rightarrow> nat" where
  "luhn_right i d = (if i mod 2 = 1 then (if 9 < d * 2 then d * 2 - 9 else d * 2) else d)"

lemma luhn_sum_eq: "luhn_sum i ds = (\<Sum>k<length ds. luhn_right (i + k) (ds ! k))"
proof (induction ds arbitrary: i)
  case (Cons d ds)
  then show ?case by (simp add: luhn_right_def [of i d] sum.lessThan_Suc_shift del: sum.lessThan_Suc)
qed simp

lemma luhn_right_table: "list_all (\<lambda>i. distinct (map (\<lambda>d. luhn_right i d mod 10) [0..<10])) [0, 1]"
  by code_simp

interpretation card: modular_sum 10 luhn_right "\<lambda>_ d. d < 10" "\<lambda>_ _. True"
proof
  fix i d d' :: nat
  assume d: "d < 10" "d' < 10" and eq: "luhn_right i d mod 10 = luhn_right i d' mod 10"
  have "\<exists>j\<in>{0, 1}. luhn_right i = luhn_right j"
    by (cases "i mod 2 = 1") (auto simp: luhn_right_def fun_eq_iff)
  then obtain j where j: "luhn_right i = luhn_right j" and "j \<in> {0, 1}" by blast
  then have "distinct (map (\<lambda>d. luhn_right j d mod 10) [0..<10])"
    using luhn_right_table unfolding list_all_iff by auto
  then show "d = d'" by (rule table_inj [OF _ d]) (use eq j in simp)
qed simp

lemma card_typos: "notices_typos is_card is_ascii_digit"
  unfolding notices_typos_def
proof (intro allI impI notI)
  fix a x x' b
  assume x: "is_ascii_digit x" "is_ascii_digit x'" "x \<noteq> x'"
    and v: "is_card (a @ x # b)" "is_card (a @ x' # b)"
  let ?ds = "\<lambda>y. rev (digits_of b) @ (y - 0x30) # rev (digits_of a)"
  have zero: "luhn_sum 0 (?ds y) mod 10 = 0" if "y = x \<or> y = x'" for y
    using that v x(1,2) by (auto simp: is_card_def digits_of_digit Let_def split: if_splits)
  have ok: "all_at (\<lambda>_ d. d < 10) 0 (?ds y)" if "y = x \<or> y = x'" for y
    using that x(1,2) unfolding all_at_digits by (auto simp: digits_of_below digit_value_below)
  show False
    using card.sum_substitution_noticed [OF ok ok TrueI digit_value_neq [OF x]] zero
    unfolding luhn_sum_eq add_0 by simp
qed

section \<open>Properties\<close>

lemma masker_covers_classifier_parts:
  "is_aadhaar s = is_valid_aadhaar s" "is_pan s = is_valid_pan s" "is_cpf s = is_valid_cpf s"
  "is_nric s = is_valid_nric s" "is_emirates_id s = is_valid_emirates_id s"
  "is_saudi_id s = is_valid_saudi_id s" "is_ifsc s = is_valid_ifsc s" "is_gstin s = is_valid_gstin s"
  "is_tfn s = is_valid_tfn s"
  "is_valid_iban s \<Longrightarrow> is_iban s"
  "is_valid_my_number s \<longleftrightarrow> is_my_number s \<or> is_aadhaar s \<and> is_valid_my_number s"
  "is_my_number s \<Longrightarrow> is_valid_my_number s \<and> \<not> is_aadhaar s"
proof -
  show "is_valid_iban s \<Longrightarrow> is_iban s" by (rule iban_covered)
  show "is_valid_my_number s \<longleftrightarrow> is_my_number s \<or> is_aadhaar s \<and> is_valid_my_number s"
    and "is_my_number s \<Longrightarrow> is_valid_my_number s \<and> \<not> is_aadhaar s"
    using my_number_agree by blast+
qed (rule aadhaar_agree pan_agree cpf_agree nric_agree emirates_agree saudi_agree ifsc_agree gstin_agree
    tfn_agree)+



subsection \<open>Further facts\<close>

text \<open>
  One mistyped character is always noticed: replacing a single digit of a valid Aadhaar, TFN, Saudi ID, NRIC or card number by another, a character of a GSTIN by another of its alphabet, or a digit (letter) of an IBAN by another digit (letter), at any position and whatever separators are around it, gives a candidate the validator rejects; for Aadhaar so does exchanging two different neighbouring digits.
\<close>

lemma check_digits_catch_typos:
  "notices_typos is_valid_aadhaar is_ascii_digit"
  "notices_typos is_valid_tfn is_ascii_digit"
  "notices_typos is_valid_saudi_id is_ascii_digit"
  "notices_typos is_valid_nric is_ascii_digit"
  "notices_typos is_card is_ascii_digit"
  "notices_typos is_valid_gstin (\<lambda>c. c \<in> set gstin_alphabet)"
  "notices_typos is_valid_iban is_ascii_digit"
  "notices_typos is_valid_iban is_ascii_upper"
  "is_ascii_digit x \<Longrightarrow> is_ascii_digit y \<Longrightarrow> x \<noteq> y \<Longrightarrow> \<forall>c\<in>set s. \<not> is_ascii_digit c \<Longrightarrow>
    is_valid_aadhaar (a @ x # s @ y # b) \<Longrightarrow> \<not> is_valid_aadhaar (a @ y # s @ x # b)"
proof -
  show "notices_typos is_valid_iban is_ascii_digit" "notices_typos is_valid_iban is_ascii_upper"
    using iban_typos iban_alike_digits iban_alike_letters unfolding notices_typos_def by blast+
qed (rule aadhaar_typos tfn_typos saudi_typos nric_typos card_typos gstin_typos | erule (4) aadhaar_swap)+

end
