(* ===== verification/Residency.thy ===== *)
theory Residency
  imports National_Ids
begin

text \<open>
  The residency engine of \<^verbatim>\<open>crates/residency/src/lib.rs\<close>: which regulated identifiers a text
  contains, and whether routing must be locked to the requested region. The regular expressions
  are compiled by the \<^verbatim>\<open>regex\<close> crate, which is not part of the repository: what a recognizer
  finds in a text is the parameter \<open>regexes\<close> of the model, and no property below restricts it.
\<close>

datatype recognizer =
  EMAIL | PHONE | AADHAAR | PAN | PAN_CUE | SSN | IBAN | CPF | NRIC | EMIRATES_ID | SAUDI_ID
| IFSC | GSTIN | TFN | MY_NUMBER

text \<open>The two calls of the engine: the matches \<^verbatim>\<open>find_iter\<close> yields, and \<^verbatim>\<open>is_match\<close>.\<close>

record regexes =
  find_iter :: "recognizer \<Rightarrow> utext \<Rightarrow> utext list"
  is_match :: "recognizer \<Rightarrow> utext \<Rightarrow> bool"

datatype entity_type =
  Email | Phone | Aadhaar | Pan | Ssn | Iban | Cpf | Nric | EmiratesId | SaudiId | Ifsc | Gstin
| Tfn | MyNumber

record classification =
  contains_personal_data :: bool
  entities :: "entity_type list"

definition pan_in_context :: "regexes \<Rightarrow> utext \<Rightarrow> utext \<Rightarrow> bool" where
  "pan_in_context rx candidate text =
     (if \<not> is_valid_pan candidate then False
      else if \<not> list_ex is_ascii_lower candidate then True
      else is_match rx PAN_CUE text)"

text \<open>The tests of \<^verbatim>\<open>classify\<close> in the order it runs them, each with the entity it pushes.\<close>

definition found :: "regexes \<Rightarrow> recognizer \<Rightarrow> (utext \<Rightarrow> bool) \<Rightarrow> utext \<Rightarrow> bool" where
  "found rx r valid text = list_ex valid (find_iter rx r text)"

definition classify_tests :: "regexes \<Rightarrow> utext \<Rightarrow> (bool \<times> entity_type) list" where
  "classify_tests rx text =
    [(found rx AADHAAR is_valid_aadhaar text, Aadhaar),
     (found rx PAN (\<lambda>m. pan_in_context rx m text) text, Pan),
     (found rx SSN is_valid_ssn text, Ssn),
     (found rx IBAN is_valid_iban text, Iban),
     (found rx CPF is_valid_cpf text, Cpf),
     (found rx NRIC is_valid_nric text, Nric),
     (found rx EMIRATES_ID is_valid_emirates_id text, EmiratesId),
     (found rx SAUDI_ID is_valid_saudi_id text, SaudiId),
     (found rx IFSC is_valid_ifsc text, Ifsc),
     (found rx GSTIN is_valid_gstin text, Gstin),
     (found rx TFN is_valid_tfn text, Tfn),
     (found rx MY_NUMBER is_valid_my_number text, MyNumber),
     (is_match rx EMAIL text, Email),
     (is_match rx PHONE text, Phone)]"

definition classify :: "regexes \<Rightarrow> utext \<Rightarrow> classification" where
  "classify rx raw =
     (let text = normalize_for_recognition raw;
          es = map snd (filter fst (classify_tests rx text))
      in \<lparr>contains_personal_data = es \<noteq> [], entities = es\<rparr>)"

definition required_region :: "'r option \<Rightarrow> classification \<Rightarrow> 'r option" where
  "required_region requested c =
     (case requested of
        Some region \<Rightarrow> if contains_personal_data c then Some region else None
      | None \<Rightarrow> None)"

section \<open>Facts about the classifier\<close>

lemma classify_normalized:
  "normalize_for_recognition s = normalize_for_recognition t \<Longrightarrow> classify rx s = classify rx t"
  by (simp add: classify_def)

lemma classify_disguise: "disguise s d \<Longrightarrow> classify rx d = classify rx s"
  by (rule classify_normalized [OF disguise_normalizes])

lemma entities_iff:
  "e \<in> set (entities (classify rx s)) \<longleftrightarrow> (True, e) \<in> set (classify_tests rx (normalize_for_recognition s))"
  by (force simp: classify_def Let_def)

lemma flag_iff_entities: "contains_personal_data (classify rx s) \<longleftrightarrow> entities (classify rx s) \<noteq> []"
  by (simp add: classify_def Let_def)

lemma required_region_iff:
  "required_region requested c = Some r \<longleftrightarrow> requested = Some r \<and> contains_personal_data c"
  by (simp add: required_region_def split: option.split)

lemma required_region_none:
  "required_region requested c = None \<longleftrightarrow> requested = None \<or> \<not> contains_personal_data c"
  by (simp add: required_region_def split: option.split)

section \<open>Properties\<close>

lemma sovereign_lock_parts:
  "required_region requested (classify rx s) = Some r \<longleftrightarrow>
    requested = Some r \<and> (\<exists>e. (True, e) \<in> set (classify_tests rx (normalize_for_recognition s)))"
  "Aadhaar \<in> set (entities (classify rx s)) \<longleftrightarrow>
    (\<exists>m \<in> set (find_iter rx AADHAAR (normalize_for_recognition s)).
      length (digits_of m) = 12 \<and> verhoeff_validate (digits_of m))"
  "Pan \<in> set (entities (classify rx s)) \<longleftrightarrow>
    (\<exists>m \<in> set (find_iter rx PAN (normalize_for_recognition s)).
      is_valid_pan m \<and> ((\<forall>c\<in>set m. \<not> is_ascii_lower c) \<or> is_match rx PAN_CUE (normalize_for_recognition s)))"
  "required_region None (classify rx s) = None"
proof -
  have "entities (classify rx s) \<noteq> [] \<longleftrightarrow> (\<exists>e. e \<in> set (entities (classify rx s)))"
    by (cases "entities (classify rx s)") auto
  then show "required_region requested (classify rx s) = Some r \<longleftrightarrow>
      requested = Some r \<and> (\<exists>e. (True, e) \<in> set (classify_tests rx (normalize_for_recognition s)))"
    unfolding required_region_iff flag_iff_entities by (simp only: entities_iff)
  show "Aadhaar \<in> set (entities (classify rx s)) \<longleftrightarrow>
    (\<exists>m \<in> set (find_iter rx AADHAAR (normalize_for_recognition s)).
      length (digits_of m) = 12 \<and> verhoeff_validate (digits_of m))"
    unfolding entities_iff
    by (auto simp: classify_tests_def found_def list_ex_iff is_valid_aadhaar_def Let_def split: if_splits)
  show "Pan \<in> set (entities (classify rx s)) \<longleftrightarrow>
    (\<exists>m \<in> set (find_iter rx PAN (normalize_for_recognition s)).
      is_valid_pan m \<and> ((\<forall>c\<in>set m. \<not> is_ascii_lower c) \<or> is_match rx PAN_CUE (normalize_for_recognition s)))"
    unfolding entities_iff
    by (auto simp: classify_tests_def found_def list_ex_iff pan_in_context_def split: if_splits)
  show "required_region None (classify rx s) = None" by (simp add: required_region_def)
qed



subsection \<open>Further facts\<close>

text \<open>
  Writing a text in disguise, with invisible characters anywhere between its characters and look-alike letters or foreign decimal digits in place of ASCII ones, does not change what the classifier finds in it, nor whether routing is locked; the text the recognizers see contains no invisible and no foldable character, and is the original when that is ASCII.
\<close>

lemma smuggled_identifiers_classified:
  "disguise s d \<Longrightarrow> classify rx d = classify rx s"
  "disguise s d \<Longrightarrow> required_region requested (classify rx d) = required_region requested (classify rx s)"
  "disguise (normalize_for_recognition d) d"
  "\<not> contains_invisible_unicode (normalize_for_recognition s)"
  "\<not> contains_confusable (normalize_for_recognition s)"
  "\<forall>c\<in>set s. is_ascii c \<Longrightarrow> normalize_for_recognition s = s"
proof -
  show "classify rx d = classify rx s" if "disguise s d" using that by (rule classify_disguise)
  show "required_region requested (classify rx d) = required_region requested (classify rx s)"
    if "disguise s d" using classify_disguise [OF that] by simp
  show "disguise (normalize_for_recognition d) d" by (rule disguise_of_skeleton)
  show "\<not> contains_invisible_unicode (normalize_for_recognition s)"
    by (auto simp: contains_invisible_unicode_def list_ex_iff normalize_eq fold_visible)
  show "\<not> contains_confusable (normalize_for_recognition s)"
    by (auto simp: contains_confusable_def list_ex_iff normalize_eq)
  show "normalize_for_recognition s = s" if "\<forall>c\<in>set s. is_ascii c"
    using that by (intro normalize_ascii) (simp add: is_ascii_def)
qed

end
