(* ===== verification/Entitlements.thy ===== *)
theory Entitlements
  imports Prelude
begin

text \<open>
  Entitlements of \<^verbatim>\<open>crates/entitlements/src/lib.rs\<close>: the gateable features and their flag keys, the
  tier presets, the resolved capability set with its provider interface, and the tenant
  lifecycle as a state machine. A \<^verbatim>\<open>BTreeSet\<close> of features is a set.
\<close>

section \<open>Features and tiers\<close>

datatype feature =
  SemanticCache | AdvancedGuardrails | AgenticSecurity | PromptRegistry | FinOpsExport
| RoutingPolicy | AuditLedger | AuditArtifact | ModelCatalog | TokenCompression | TelemetryDurable

fun flag_key :: "feature \<Rightarrow> string" where
  "flag_key SemanticCache = ''semantic_cache''"
| "flag_key AdvancedGuardrails = ''advanced_guardrails''"
| "flag_key AgenticSecurity = ''agentic_security''"
| "flag_key PromptRegistry = ''prompt_registry''"
| "flag_key FinOpsExport = ''finops_export''"
| "flag_key RoutingPolicy = ''routing_policy''"
| "flag_key AuditLedger = ''audit_ledger''"
| "flag_key AuditArtifact = ''audit_artifact''"
| "flag_key ModelCatalog = ''model_catalog''"
| "flag_key TokenCompression = ''token_compression''"
| "flag_key TelemetryDurable = ''telemetry_durable''"

definition from_flag_key :: "string \<Rightarrow> feature option" where
  "from_flag_key key =
     (if key = ''semantic_cache'' then Some SemanticCache
      else if key = ''advanced_guardrails'' then Some AdvancedGuardrails
      else if key = ''agentic_security'' then Some AgenticSecurity
      else if key = ''prompt_registry'' then Some PromptRegistry
      else if key = ''finops_export'' then Some FinOpsExport
      else if key = ''routing_policy'' then Some RoutingPolicy
      else if key = ''audit_ledger'' then Some AuditLedger
      else if key = ''audit_artifact'' then Some AuditArtifact
      else if key = ''model_catalog'' then Some ModelCatalog
      else if key = ''token_compression'' then Some TokenCompression
      else if key = ''telemetry_durable'' then Some TelemetryDurable
      else None)"

definition all_features :: "feature list" where
  "all_features =
    [SemanticCache, AdvancedGuardrails, AgenticSecurity, PromptRegistry, FinOpsExport,
     RoutingPolicy, AuditLedger, AuditArtifact, ModelCatalog, TokenCompression, TelemetryDurable]"

datatype tier = Free | Standard | Business | Enterprise

text \<open>The derived order of \<^verbatim>\<open>Tier\<close> is the order of declaration, the commercial ladder.\<close>

fun tier_rank :: "tier \<Rightarrow> nat" where
  "tier_rank Free = 0" | "tier_rank Standard = 1" | "tier_rank Business = 2" | "tier_rank Enterprise = 3"

lemma tier_rank_inj: "tier_rank s = tier_rank t \<Longrightarrow> s = t"
  by (cases s; cases t) simp_all

instantiation tier :: linorder
begin

definition less_eq_tier :: "tier \<Rightarrow> tier \<Rightarrow> bool" where
  "less_eq_tier s t = (tier_rank s \<le> tier_rank t)"

definition less_tier :: "tier \<Rightarrow> tier \<Rightarrow> bool" where
  "less_tier s t = (tier_rank s < tier_rank t)"

instance
  by intro_classes (auto simp: less_eq_tier_def less_tier_def intro: tier_rank_inj)

end

fun tier_baseline :: "tier \<Rightarrow> feature set" where
  "tier_baseline Free = {RoutingPolicy, TokenCompression}"
| "tier_baseline Standard = {RoutingPolicy, SemanticCache, AdvancedGuardrails, PromptRegistry}"
| "tier_baseline Business =
     {RoutingPolicy, SemanticCache, AdvancedGuardrails, PromptRegistry, FinOpsExport}"
| "tier_baseline Enterprise =
     {RoutingPolicy, SemanticCache, AdvancedGuardrails, PromptRegistry, AgenticSecurity, FinOpsExport}"

section \<open>Capability sets\<close>

record capability_set =
  cs_active :: "feature set"

definition capability_resolve :: "tier \<Rightarrow> feature set \<Rightarrow> feature set \<Rightarrow> capability_set" where
  "capability_resolve t overrides holdbacks =
     (let active = tier_baseline t;
          active = active \<union> overrides;
          active = active - holdbacks
      in \<lparr>cs_active = active\<rparr>)"

definition from_set :: "feature set \<Rightarrow> capability_set" where
  "from_set active = \<lparr>cs_active = active\<rparr>"

definition active_feature :: "capability_set \<Rightarrow> feature \<Rightarrow> bool" where
  "active_feature cs f = (f \<in> cs_active cs)"

definition capability_len :: "capability_set \<Rightarrow> nat" where
  "capability_len cs = card (cs_active cs)"

definition capability_is_empty :: "capability_set \<Rightarrow> bool" where
  "capability_is_empty cs = (cs_active cs = {})"

record eval_context =
  targeting_key :: "string option"
  attributes :: "string \<rightharpoonup> string"

definition for_tenant :: "string \<Rightarrow> eval_context" where
  "for_tenant tenant_id = \<lparr>targeting_key = Some tenant_id, attributes = Map.empty\<rparr>"

definition with_attribute :: "eval_context \<Rightarrow> string \<Rightarrow> string \<Rightarrow> eval_context" where
  "with_attribute ctx key v = ctx\<lparr>attributes := (attributes ctx)(key \<mapsto> v)\<rparr>"

text \<open>\<^verbatim>\<open>FeatureProvider::resolve_bool\<close> of the in-process provider, and the contract of the trait: an
  unknown flag gets the caller's default. The evaluation context is not read.\<close>

definition entitlement_resolve_bool :: "capability_set \<Rightarrow> string \<Rightarrow> bool \<Rightarrow> eval_context \<Rightarrow> bool" where
  "entitlement_resolve_bool cs flag dflt ctx =
     (case from_flag_key flag of
        Some f \<Rightarrow> active_feature cs f
      | None \<Rightarrow> dflt)"

locale feature_provider =
  fixes resolve_bool :: "'p \<Rightarrow> string \<Rightarrow> bool \<Rightarrow> eval_context \<Rightarrow> bool"
    and known :: "'p \<Rightarrow> string \<Rightarrow> bool"
  assumes unknown_default: "\<not> known p flag \<Longrightarrow> resolve_bool p flag d ctx = d"
    and known_decides: "known p flag \<Longrightarrow> resolve_bool p flag d ctx = resolve_bool p flag d' ctx"
begin

text \<open>An answer that differs from the default is a real answer.\<close>

lemma refusal_is_known: "resolve_bool p flag True ctx = False \<Longrightarrow> known p flag"
  using unknown_default by blast

lemma refusal_independent: "resolve_bool p flag True ctx = False \<Longrightarrow> resolve_bool p flag d ctx = False"
  using refusal_is_known known_decides by metis

end

lemma from_flag_key_flag_key [simp]: "from_flag_key (flag_key f) = Some f"
  by (cases f) (simp_all add: from_flag_key_def)

lemma flag_key_from: "from_flag_key key = Some f \<Longrightarrow> key = flag_key f"
  by (auto simp: from_flag_key_def split: if_splits)

lemma from_flag_key_iff: "from_flag_key key = Some f \<longleftrightarrow> key = flag_key f"
  using flag_key_from by auto

lemma all_features_complete: "set all_features = UNIV" "distinct all_features"
proof -
  have "f \<in> set all_features" for f by (cases f) (simp_all add: all_features_def)
  then show "set all_features = UNIV" by blast
  show "distinct all_features" by (simp add: all_features_def)
qed

interpretation entitlement: feature_provider entitlement_resolve_bool "\<lambda>_ flag. from_flag_key flag \<noteq> None"
  by unfold_locales (auto simp: entitlement_resolve_bool_def)

lemma active_iff:
  "active_feature (capability_resolve t ov hold) f \<longleftrightarrow> (f \<in> tier_baseline t \<or> f \<in> ov) \<and> f \<notin> hold"
  by (simp add: active_feature_def capability_resolve_def Let_def)

text \<open>From \<^verbatim>\<open>Standard\<close> upwards the presets only grow.\<close>

lemma paid_baseline_mono: "Standard \<le> s \<Longrightarrow> s \<le> t \<Longrightarrow> tier_baseline s \<subseteq> tier_baseline t"
  by (cases s; cases t) (simp_all add: less_eq_tier_def)

section \<open>The tenant lifecycle\<close>

datatype tenant_state = Pending | Active | Suspended | Closed

fun can_transition_to :: "tenant_state \<Rightarrow> tenant_state \<Rightarrow> bool" where
  "can_transition_to Pending Active = True"
| "can_transition_to Pending Closed = True"
| "can_transition_to Active Suspended = True"
| "can_transition_to Active Closed = True"
| "can_transition_to Suspended Active = True"
| "can_transition_to Suspended Closed = True"
| "can_transition_to _ _ = False"

definition serves_traffic :: "tenant_state \<Rightarrow> bool" where
  "serves_traffic s = (s = Active)"

inductive lifecycle :: "tenant_state \<Rightarrow> tenant_state \<Rightarrow> bool" where
  lifecycle_refl: "lifecycle s s"
| lifecycle_step: "lifecycle s t \<Longrightarrow> can_transition_to t u \<Longrightarrow> lifecycle s u"

lemma closed_is_final: "\<not> can_transition_to Closed t"
  by (cases t) simp_all

lemma closed_stays: "lifecycle s t \<Longrightarrow> s = Closed \<Longrightarrow> t = Closed"
  by (induction rule: lifecycle.induct) (auto simp: closed_is_final)

lemma pending_unreachable: "lifecycle s t \<Longrightarrow> t = Pending \<Longrightarrow> s = Pending"
proof (induction rule: lifecycle.induct)
  case (lifecycle_step s t u)
  then show ?case by (cases t) simp_all
qed simp

lemma lifecycle_one: "can_transition_to s t \<Longrightarrow> lifecycle s t"
  by (rule lifecycle_step [OF lifecycle_refl])

lemma live_can_serve: "s \<noteq> Closed \<Longrightarrow> lifecycle s Active"
  by (cases s) (auto intro: lifecycle_one lifecycle_refl)

lemma live_can_close: "lifecycle s Closed"
  by (cases s) (auto intro: lifecycle_one lifecycle_refl)

section \<open>Properties\<close>

subsection \<open>Further facts\<close>

text \<open>
  The tenant state machine never gets stuck while it is alive and never leaves its terminal state: every tenant that is not closed can be brought to serve traffic and every tenant can be closed; a closed tenant stays closed, no tenant returns to pending, and only an active one serves.
\<close>

lemma tenant_lifecycle:
  "(\<exists>t. lifecycle s t \<and> serves_traffic t) \<longleftrightarrow> s \<noteq> Closed"
  "lifecycle s Closed"
  "lifecycle Closed t \<longleftrightarrow> t = Closed"
  "lifecycle s Pending \<longleftrightarrow> s = Pending"
  "\<not> can_transition_to s s"
proof -
  show "(\<exists>t. lifecycle s t \<and> serves_traffic t) \<longleftrightarrow> s \<noteq> Closed"
    using live_can_serve closed_stays by (auto simp: serves_traffic_def)
  show "lifecycle s Closed" by (rule live_can_close)
  show "lifecycle Closed t \<longleftrightarrow> t = Closed" using closed_stays lifecycle_refl by blast
  show "lifecycle s Pending \<longleftrightarrow> s = Pending" using pending_unreachable lifecycle_refl by blast
  show "\<not> can_transition_to s s" by (cases s) simp_all
qed

end
