(* ===== verification/Console_Accounts.thy ===== *)
theory Console_Accounts
  imports Rust_Strings "HOL-Library.List_Lexorder" "HOL-Library.Char_ord"
begin

text \<open>
  The console account store of \<^verbatim>\<open>crates/routeplane/src/console_accounts.rs\<close> and the session
  verifier of \<^verbatim>\<open>console_auth.rs\<close>: accounts by email, creation and the bump of the session
  version that logs an account out, each written to the file before readers see it. The
  snapshot is the list of its entries; the outcome of the file write and the decoding of a
  token (signature, algorithm and expiry, by the \<^verbatim>\<open>jsonwebtoken\<close> crate) are parameters.
\<close>

record console_account =
  ca_email :: string
  ca_password_hash :: string
  ca_created_at :: "string option"
  ca_session_version :: u64

type_synonym accounts = "console_account list"

definition accounts_find :: "accounts \<Rightarrow> string \<Rightarrow> console_account option" where
  "accounts_find es email = List.find (\<lambda>a. ca_email a = email) es"

definition accounts_sorted :: "accounts \<Rightarrow> console_account list" where
  "accounts_sorted es = sort_key ca_email es"

datatype build_error = InvalidEmail string | EmptyHash string | DuplicateEmail string

fun build_entries :: "accounts \<Rightarrow> console_account list \<Rightarrow> build_error + accounts" where
  "build_entries es [] = Inr es"
| "build_entries es (a # as) =
     (if ca_email a = [] \<or> ca_email a \<noteq> to_ascii_lowercase (ca_email a) then Inl (InvalidEmail (ca_email a))
      else if ca_password_hash a = [] then Inl (EmptyHash (ca_email a))
      else if accounts_find es (ca_email a) \<noteq> None then Inl (DuplicateEmail (ca_email a))
      else build_entries (es @ [a]) as)"

definition accounts_build :: "console_account list \<Rightarrow> build_error + accounts" where
  "accounts_build as = build_entries [] as"

section \<open>The store\<close>

text \<open>The snapshot readers load and the contents of the file. The write lock serializes the two
  mutations, so each is one step; \<open>io_ok\<close> tells whether the file write succeeds.\<close>

record console_store =
  st_shared :: accounts
  st_file :: "console_account list"

datatype create_error = Duplicate | StoreFailed "build_error option"

definition store_find :: "console_store \<Rightarrow> string \<Rightarrow> console_account option" where
  "store_find s email = accounts_find (st_shared s) email"

definition store_create ::
  "bool \<Rightarrow> string \<Rightarrow> console_store \<Rightarrow> string \<Rightarrow> string \<Rightarrow> (create_error + console_account) \<times> console_store" where
  "store_create io_ok now s email hash =
     (if accounts_find (st_shared s) email \<noteq> None then (Inl Duplicate, s)
      else
        let account = \<lparr>ca_email = email, ca_password_hash = hash, ca_created_at = Some now,
                       ca_session_version = 0\<rparr>;
            accounts = sort_key ca_email (accounts_sorted (st_shared s) @ [account])
        in case accounts_build accounts of
             Inl e \<Rightarrow> (Inl (StoreFailed (Some e)), s)
           | Inr snapshot \<Rightarrow>
               if \<not> io_ok then (Inl (StoreFailed None), s)
               else (Inr account, s\<lparr>st_file := accounts, st_shared := snapshot\<rparr>))"

text \<open>\<^verbatim>\<open>iter_mut().find\<close>: only the first account with the email is changed.\<close>

fun bump_first :: "string \<Rightarrow> console_account list \<Rightarrow> (u64 \<times> console_account list) option" where
  "bump_first email [] = None"
| "bump_first email (a # as) =
     (if ca_email a = email
      then (let v = ca_session_version a + 1 in Some (v, a\<lparr>ca_session_version := v\<rparr> # as))
      else map_option (\<lambda>(v, as'). (v, a # as')) (bump_first email as))"

definition store_bump ::
  "bool \<Rightarrow> console_store \<Rightarrow> string \<Rightarrow> (build_error option + u64 option) \<times> console_store" where
  "store_bump io_ok s email =
     (case bump_first email (accounts_sorted (st_shared s)) of
        None \<Rightarrow> (Inr None, s)
      | Some (v, accounts) \<Rightarrow>
          (case accounts_build accounts of
             Inl e \<Rightarrow> (Inl (Some e), s)
           | Inr snapshot \<Rightarrow>
               if \<not> io_ok then (Inl None, s)
               else (Inr (Some v), s\<lparr>st_file := accounts, st_shared := snapshot\<rparr>)))"

section \<open>Sessions\<close>

record console_claims =
  cl_sub :: string
  cl_sv :: u64

record console_session =
  se_email :: string
  se_created_at :: "string option"

record console_bridge =
  cb_decode :: "string \<Rightarrow> console_claims option"
  cb_console_key :: string
  cb_accounts :: console_store

definition console_verify :: "console_bridge \<Rightarrow> string \<Rightarrow> console_session option" where
  "console_verify b token =
     (case cb_decode b token of
        None \<Rightarrow> None
      | Some claims \<Rightarrow>
          (case store_find (cb_accounts b) (cl_sub claims) of
             None \<Rightarrow> None
           | Some account \<Rightarrow>
               if ca_session_version account \<noteq> cl_sv claims then None
               else Some \<lparr>se_email = ca_email account, se_created_at = ca_created_at account\<rparr>))"

section \<open>Well-formed stores\<close>

definition account_ok :: "console_account \<Rightarrow> bool" where
  "account_ok a \<longleftrightarrow> ca_email a \<noteq> [] \<and> ca_email a = to_ascii_lowercase (ca_email a) \<and> ca_password_hash a \<noteq> []"

definition accounts_ok :: "accounts \<Rightarrow> bool" where
  "accounts_ok es \<longleftrightarrow> distinct (map ca_email es) \<and> (\<forall>a\<in>set es. account_ok a)"

text \<open>What readers see is well formed, and is what the file holds.\<close>

definition store_ok :: "console_store \<Rightarrow> bool" where
  "store_ok s \<longleftrightarrow> accounts_ok (st_shared s) \<and> st_file s = st_shared s"

lemma accounts_find_None: "accounts_find es email = None \<longleftrightarrow> email \<notin> ca_email ` set es"
  by (auto simp: accounts_find_def find_None_iff)

lemma accounts_find_Some:
  "distinct (map ca_email es) \<Longrightarrow> accounts_find es email = Some a \<longleftrightarrow> a \<in> set es \<and> ca_email a = email"
  by (induction es) (auto simp: accounts_find_def)

lemma build_entries_iff:
  assumes "distinct (map ca_email es)"
  shows "build_entries es as = Inr out \<longleftrightarrow>
    out = es @ as \<and> distinct (map ca_email (es @ as)) \<and> (\<forall>a\<in>set as. account_ok a)"
  using assms
proof (induction as arbitrary: es)
  case (Cons a as)
  show ?case
  proof (cases "account_ok a \<and> ca_email a \<notin> ca_email ` set es")
    case True
    then have "build_entries es (a # as) = build_entries (es @ [a]) as"
      by (simp add: account_ok_def accounts_find_None)
    then show ?thesis using Cons.IH [of "es @ [a]"] Cons.prems True by auto
  next
    case False
    then have "\<exists>e. build_entries es (a # as) = Inl e"
      by (auto simp: account_ok_def accounts_find_None)
    then show ?thesis using False by auto
  qed
qed auto

lemma accounts_build_iff: "accounts_build as = Inr out \<longleftrightarrow> out = as \<and> accounts_ok as"
  using build_entries_iff [of "[]" as out] by (auto simp: accounts_build_def accounts_ok_def)

lemma accounts_sorted_ok: "accounts_ok (accounts_sorted es) \<longleftrightarrow> accounts_ok es"
proof -
  have "distinct (map ca_email (sort_key ca_email es)) \<longleftrightarrow> distinct (map ca_email es)"
    by (metis distinct_map distinct_sort set_sort)
  then show ?thesis by (simp add: accounts_ok_def accounts_sorted_def)
qed

lemma store_create_cases:
  "snd (store_create io now s email hash) = s \<or>
   (\<exists>as. snd (store_create io now s email hash) = s\<lparr>st_file := as, st_shared := as\<rparr> \<and> accounts_ok as \<and>
     set as = insert \<lparr>ca_email = email, ca_password_hash = hash, ca_created_at = Some now,
       ca_session_version = 0\<rparr> (set (st_shared s)))"
  by (auto simp: store_create_def Let_def accounts_build_iff accounts_sorted_def split: sum.split)

lemma bump_first_None: "bump_first email as = None \<longleftrightarrow> email \<notin> ca_email ` set as"
  by (induction as) (auto simp: Let_def)

lemma bump_first_emails: "bump_first email as = Some (v, as') \<Longrightarrow> map ca_email as' = map ca_email as"
  by (induction as arbitrary: as' v) (auto simp: Let_def split: if_splits)

lemma bump_first_set:
  "distinct (map ca_email as) \<Longrightarrow> bump_first email as = Some (v, as') \<Longrightarrow>
    \<exists>a\<in>set as. ca_email a = email \<and> v = ca_session_version a + 1 \<and>
      set as' = insert (a\<lparr>ca_session_version := v\<rparr>) (set as - {a})"
proof (induction as arbitrary: as')
  case (Cons b bs)
  show ?case
  proof (cases "ca_email b = email")
    case True
    then show ?thesis using Cons.prems by (auto simp: Let_def)
  next
    case False
    then obtain bs' where bs': "bump_first email bs = Some (v, bs')" "as' = b # bs'"
      using Cons.prems(2) by auto
    then obtain a where "a \<in> set bs" "ca_email a = email" "v = ca_session_version a + 1"
        "set bs' = insert (a\<lparr>ca_session_version := v\<rparr>) (set bs - {a})"
      using Cons.IH Cons.prems(1) by auto
    then show ?thesis using False bs' by (intro bexI [of _ a]) auto
  qed
qed simp

section \<open>Runs of mutations\<close>

lemma store_create_ok: "store_ok s \<Longrightarrow> store_ok (snd (store_create io now s email hash))"
  using store_create_cases [of io now s email hash] by (auto simp: store_ok_def)

lemma account_ok_version [simp]: "account_ok (a\<lparr>ca_session_version := v\<rparr>) = account_ok a"
  by (simp add: account_ok_def)

lemma bump_first_ok: "accounts_ok as \<Longrightarrow> bump_first email as = Some (v, as') \<Longrightarrow> accounts_ok as'"
  using bump_first_set [of as email v as'] bump_first_emails [of email as v as']
  by (auto simp: accounts_ok_def)

text \<open>A bump of a well-formed store writes through, unless the write fails or nobody has the email.\<close>

lemma store_bump_eq:
  assumes "store_ok s"
  shows "store_bump io s email =
    (case bump_first email (accounts_sorted (st_shared s)) of
       None \<Rightarrow> (Inr None, s)
     | Some (v, as) \<Rightarrow> if io then (Inr (Some v), s\<lparr>st_file := as, st_shared := as\<rparr>) else (Inl None, s))"
proof -
  have "accounts_ok (accounts_sorted (st_shared s))"
    using assms by (simp add: accounts_sorted_ok store_ok_def)
  then have "accounts_build as = Inr as" if "bump_first email (accounts_sorted (st_shared s)) = Some (v, as)" for v as
    using bump_first_ok that by (simp add: accounts_build_iff)
  then show ?thesis by (auto simp: store_bump_def split: option.split)
qed

lemma store_bump_ok:
  assumes ok: "store_ok s"
  shows "store_ok (snd (store_bump io s email))"
proof (cases "bump_first email (accounts_sorted (st_shared s))")
  case (Some r)
  obtain v as where r: "r = (v, as)" by (cases r)
  have "accounts_ok as"
    by (rule bump_first_ok [OF _ Some [unfolded r]]) (use ok in \<open>simp add: accounts_sorted_ok store_ok_def\<close>)
  then show ?thesis using ok Some r by (simp add: store_bump_eq) (simp add: store_ok_def)
qed (simp add: store_bump_eq ok)

lemma store_find_ok:
  "store_ok s \<Longrightarrow> store_find s email = Some a \<longleftrightarrow> a \<in> set (st_shared s) \<and> ca_email a = email"
  by (simp add: store_ok_def store_find_def accounts_ok_def accounts_find_Some)

lemma store_bump_find:
  assumes ok: "store_ok s" and a: "store_find s email = Some a"
  defines "s' \<equiv> snd (store_bump True s email)"
  shows "store_find s' email = Some (a\<lparr>ca_session_version := ca_session_version a + 1\<rparr>)"
    and "e \<noteq> email \<Longrightarrow> store_find s' e = store_find s e"
proof -
  let ?as = "accounts_sorted (st_shared s)"
  have sorted: "accounts_ok ?as" "set ?as = set (st_shared s)"
    using ok by (simp_all add: store_ok_def accounts_sorted_ok) (simp add: accounts_sorted_def)
  have mem: "a \<in> set ?as" "ca_email a = email" using a sorted by (simp_all add: store_find_ok [OF ok])
  then obtain v as' where b: "bump_first email ?as = Some (v, as')"
    using bump_first_None [of email ?as] by (cases "bump_first email ?as") auto
  obtain a' where a': "a' \<in> set ?as" "ca_email a' = email" "v = ca_session_version a' + 1"
      "set as' = insert (a'\<lparr>ca_session_version := v\<rparr>) (set ?as - {a'})"
    using bump_first_set [OF _ b] sorted(1) unfolding accounts_ok_def by blast
  have "a' = a" using a'(1,2) mem sorted(1) unfolding accounts_ok_def distinct_map by (metis inj_onD)
  have shared: "st_shared s' = as'" unfolding s'_def using b by (simp add: store_bump_eq [OF ok])
  have ok': "store_ok s'" unfolding s'_def by (rule store_bump_ok [OF ok])
  have set': "set (st_shared s') = insert (a\<lparr>ca_session_version := ca_session_version a + 1\<rparr>) (set (st_shared s) - {a})"
    unfolding shared a'(4) a'(3) \<open>a' = a\<close> sorted(2) ..
  show "store_find s' email = Some (a\<lparr>ca_session_version := ca_session_version a + 1\<rparr>)"
    unfolding store_find_ok [OF ok'] set' using mem by simp
  have "store_find s' e = Some x \<longleftrightarrow> store_find s e = Some x" if "e \<noteq> email" for x
    unfolding store_find_ok [OF ok'] store_find_ok [OF ok] set' using mem(2) that by auto
  then show "e \<noteq> email \<Longrightarrow> store_find s' e = store_find s e"
    by (metis not_None_eq)
qed

lemma store_bump_missing: "store_find s email = None \<Longrightarrow> store_bump io s email = (Inr None, s)"
proof -
  assume "store_find s email = None"
  then have "bump_first email (accounts_sorted (st_shared s)) = None"
    by (simp add: bump_first_None store_find_def accounts_find_None accounts_sorted_def)
  then show ?thesis by (simp add: store_bump_def)
qed

datatype store_op = Create bool string string string | Logout bool string

fun store_step :: "console_store \<Rightarrow> store_op \<Rightarrow> console_store" where
  "store_step s (Create io now email hash) = snd (store_create io now s email hash)"
| "store_step s (Logout io email) = snd (store_bump io s email)"

definition store_run :: "console_store \<Rightarrow> store_op list \<Rightarrow> console_store" where
  "store_run = foldl store_step"

lemma store_run_ok: "store_ok s \<Longrightarrow> store_ok (store_run s ops)"
proof (induction ops arbitrary: s)
  case (Cons p ops)
  then show ?case by (cases p) (simp_all add: store_run_def store_create_ok store_bump_ok)
qed (simp add: store_run_def)

text \<open>How often a run logs one account out.\<close>

definition logouts :: "string \<Rightarrow> store_op list \<Rightarrow> nat" where
  "logouts email ops = length (filter (\<lambda>p. p = Logout True email) ops)"

lemma store_step_find:
  assumes "store_ok s" and "store_find s email = Some a"
  shows "store_find (store_step s p) email =
    Some (if p = Logout True email then a\<lparr>ca_session_version := ca_session_version a + 1\<rparr> else a)"
proof (cases p)
  case (Create io now e hash)
  have ok: "store_ok (snd (store_create io now s e hash))" by (rule store_create_ok [OF assms(1)])
  have "set (st_shared s) \<subseteq> set (st_shared (snd (store_create io now s e hash)))"
    using store_create_cases [of io now s e hash] by auto
  then show ?thesis using Create assms(2) store_find_ok [OF ok] store_find_ok [OF assms(1)] by auto
next
  case (Logout io e)
  then show ?thesis
    using assms store_bump_find [OF assms(1), of email a] store_bump_find [OF assms(1), of e]
      store_bump_eq [OF assms(1), of io e]
    by (cases io; cases "e = email"; cases "store_find s e")
      (auto simp: store_bump_missing split: option.splits)
qed

lemma store_run_find:
  "store_ok s \<Longrightarrow> store_find s email = Some a \<Longrightarrow>
    store_find (store_run s ops) email =
      Some (a\<lparr>ca_session_version := ca_session_version a + of_nat (logouts email ops)\<rparr>)"
proof (induction ops arbitrary: s a)
  case (Cons p ops)
  have "store_ok (store_step s p)" using store_run_ok [OF Cons.prems(1), of "[p]"] by (simp add: store_run_def)
  from Cons.IH [OF this store_step_find [OF Cons.prems]] show ?case
    by (simp add: store_run_def logouts_def ac_simps)
qed (simp add: store_run_def logouts_def)

section \<open>Properties\<close>

subsection \<open>Further facts\<close>

text \<open>
  From a well-formed store, over any run of sign-ups and logouts with any outcome of the file writes, an account keeps existing and its session version counts its successful logouts: a token minted at the current version verifies as long as the account is not logged out, no longer verifies after any number of logouts short of the counter's wrap-around, and what readers see is always exactly what the file holds.
\<close>

lemma logout_revokes_sessions:
  assumes "store_ok s" and "store_find s email = Some a" and "cb_accounts b = store_run s ops"
    and "cb_decode b token = Some \<lparr>cl_sub = email, cl_sv = ca_session_version a\<rparr>"
    and "logouts email ops < 2 ^ 64"
  shows "console_verify b token \<noteq> None \<longleftrightarrow> logouts email ops = 0"
    and "store_find (store_run s ops) email =
      Some (a\<lparr>ca_session_version := ca_session_version a + of_nat (logouts email ops)\<rparr>)"
    and "st_file (store_run s ops) = st_shared (store_run s ops)"
proof -
  show f: "store_find (store_run s ops) email =
      Some (a\<lparr>ca_session_version := ca_session_version a + of_nat (logouts email ops)\<rparr>)"
    by (rule store_run_find [OF assms(1,2)])
  have "(2::nat) ^ 64 dvd logouts email ops \<longleftrightarrow> logouts email ops = 0"
    using nat_dvd_not_less [of "logouts email ops" "2 ^ 64"] assms(5) by (cases "logouts email ops = 0") auto
  then have "(of_nat (logouts email ops) :: u64) = 0 \<longleftrightarrow> logouts email ops = 0"
    by (simp add: word_of_nat_eq_0_iff)
  then show "console_verify b token \<noteq> None \<longleftrightarrow> logouts email ops = 0"
    using assms(3,4) f by (auto simp: console_verify_def split: option.splits)
  show "st_file (store_run s ops) = st_shared (store_run s ops)"
    using store_run_ok [OF assms(1), of ops] by (simp add: store_ok_def)
qed

end
