(* ===== verification/Authentication.thy ===== *)
theory Authentication
  imports Entitlements Auth_Failures Console_Accounts
begin

text \<open>
  Authentication of \<^verbatim>\<open>crates/routeplane/src/auth.rs\<close>: the virtual key record and what is resolved
  from it, the credential a request presents, and the middleware that admits, refuses or
  throttles it. Headers are given by the function that reads one as text. The constant-time
  comparison of the \<^verbatim>\<open>subtle\<close> crate, the flag source and the console session verifier are
  parameters (the verifier's JWT decoding only). The raw \<^verbatim>\<open>guardrails\<close> JSON and the \<^verbatim>\<open>limits\<close> of a key are not read here.
\<close>

section \<open>Virtual keys\<close>

record key_integration =
  ki_adapter :: string
  ki_resident_regions :: "string list"
  ki_models :: "string set"

datatype compliance_mode = Strict | Warn

record virtual_key =
  vk_name :: string
  vk_routeplane_key :: string
  vk_provider_keys :: "string \<rightharpoonup> string"
  vk_tenant_id :: "string option"
  vk_lifecycle_state :: tenant_state
  vk_tier :: tier
  vk_capability_overrides :: "feature set"
  vk_rollout_holdbacks :: "feature set"
  vk_default_residency :: "string option"
  vk_compliance_frameworks :: "string list"
  vk_compliance_mode :: compliance_mode
  vk_provisioned_models :: "string set"
  vk_integrations :: "string \<rightharpoonup> key_integration"

definition is_model_provisioned :: "virtual_key \<Rightarrow> string \<Rightarrow> bool" where
  "is_model_provisioned vk model = (model \<in> vk_provisioned_models vk)"

datatype slug_resolution = NotASlug | Resolved key_integration string | SlugDenied

definition resolve_slug :: "virtual_key \<Rightarrow> string \<Rightarrow> slug_resolution" where
  "resolve_slug vk model =
     (if \<not> prefix ''@'' model then NotASlug
      else case split_once CHR ''/'' (drop 1 model) of
          None \<Rightarrow> SlugDenied
        | Some (slug, bare) \<Rightarrow>
            if slug = [] \<or> bare = [] then SlugDenied
            else case vk_integrations vk slug of
                Some i \<Rightarrow> if bare \<in> ki_models i then Resolved i bare else SlugDenied
              | None \<Rightarrow> SlugDenied)"

definition resolved_tenant_id :: "virtual_key \<Rightarrow> string" where
  "resolved_tenant_id vk = (case vk_tenant_id vk of Some t \<Rightarrow> t | None \<Rightarrow> vk_name vk)"

text \<open>\<^verbatim>\<open>TenantId::new\<close> of \<^verbatim>\<open>crates/types/src/tenant.rs\<close>; \<open>None\<close> is its error.\<close>

definition TENANT_ID_MAX_LEN :: nat where
  "TENANT_ID_MAX_LEN = 64"

definition tenant_id_new :: "string \<Rightarrow> string option" where
  "tenant_id_new t =
     (if t = [] \<or> TENANT_ID_MAX_LEN < length t then None
      else if \<not> list_all (\<lambda>c. is_ascii_alphanumeric c \<or> c = CHR ''_'' \<or> c = CHR ''-'') t then None
      else Some t)"

definition canonical_tenant_id :: "virtual_key \<Rightarrow> string option" where
  "canonical_tenant_id vk =
     (case vk_tenant_id vk of
        None \<Rightarrow> None
      | Some t \<Rightarrow>
          if t \<noteq> [] \<and> length t \<le> TENANT_ID_MAX_LEN \<and>
             list_all (\<lambda>c. is_ascii_alphanumeric c \<or> c = CHR ''_'' \<or> c = CHR ''-'') t
          then Some t else None)"

definition capability_set_of :: "virtual_key \<Rightarrow> feature set \<Rightarrow> capability_set" where
  "capability_set_of vk global_holdbacks =
     (if global_holdbacks = {}
      then capability_resolve (vk_tier vk) (vk_capability_overrides vk) (vk_rollout_holdbacks vk)
      else
        let effective = vk_rollout_holdbacks vk \<union> global_holdbacks
        in capability_resolve (vk_tier vk) (vk_capability_overrides vk) effective)"

definition effective_requested_region :: "virtual_key \<Rightarrow> string option \<Rightarrow> string option" where
  "effective_requested_region vk header =
     (let header = (case header of
                      None \<Rightarrow> None
                    | Some h \<Rightarrow> if trim h = [] then None else Some (trim h))
      in case (vk_default_residency vk, header) of
           (_, Some h) \<Rightarrow> Some h
         | (Some d, None) \<Rightarrow> Some d
         | (None, None) \<Rightarrow> None)"

record tenant_context =
  tc_tenant_id :: string
  tc_resource_tenant_id :: "string option"
  tc_tier :: tier
  tc_capabilities :: capability_set
  tc_compliance_frameworks :: "string list"
  tc_compliance_mode :: compliance_mode

definition from_virtual_key :: "virtual_key \<Rightarrow> feature set \<Rightarrow> tenant_context" where
  "from_virtual_key vk global_holdbacks =
     \<lparr>tc_tenant_id = resolved_tenant_id vk,
      tc_resource_tenant_id = Option.bind (canonical_tenant_id vk) tenant_id_new,
      tc_tier = vk_tier vk,
      tc_capabilities = capability_set_of vk global_holdbacks,
      tc_compliance_frameworks = vk_compliance_frameworks vk,
      tc_compliance_mode = vk_compliance_mode vk\<rparr>"

fun tier_attr :: "tier \<Rightarrow> string" where
  "tier_attr Free = ''free''"
| "tier_attr Standard = ''standard''"
| "tier_attr Business = ''business''"
| "tier_attr Enterprise = ''enterprise''"

definition eval_context_for :: "virtual_key \<Rightarrow> eval_context" where
  "eval_context_for vk =
     (let ctx = with_attribute (for_tenant (resolved_tenant_id vk)) ''tier'' (tier_attr (vk_tier vk))
      in case vk_default_residency vk of
           None \<Rightarrow> ctx
         | Some r \<Rightarrow> if trim r = [] then ctx else with_attribute ctx ''region'' (trim r))"

section \<open>The registry\<close>

text \<open>The \<^verbatim>\<open>HashMap\<close> is given by its entries in iteration order, keys distinct. The flag source is
  \<^verbatim>\<open>None\<close> when not configured; otherwise its \<^verbatim>\<open>resolve_bool\<close>.\<close>

record auth_state =
  as_keys :: "(string \<times> virtual_key) list"
  as_global_holdbacks :: "feature set"
  as_unleash :: "(string \<Rightarrow> bool \<Rightarrow> eval_context \<Rightarrow> bool) option"

datatype load_error = EmptyRegistry | HoldbackError string | HoldbackNotUnicode

text \<open>\<^verbatim>\<open>HashMap::insert\<close> on the entries.\<close>

fun insert_key :: "string \<Rightarrow> virtual_key \<Rightarrow> (string \<times> virtual_key) list \<Rightarrow> (string \<times> virtual_key) list" where
  "insert_key k v [] = [(k, v)]"
| "insert_key k v ((k', v') # es) = (if k' = k then (k', v) # es else (k', v') # insert_key k v es)"

text \<open>\<^verbatim>\<open>load_from_json\<close> after decoding: the keys of the file in order.\<close>

definition load_keys :: "virtual_key list \<Rightarrow> load_error + auth_state" where
  "load_keys ks =
     (if ks = [] then Inl EmptyRegistry
      else Inr \<lparr>as_keys = foldl (\<lambda>es k. insert_key (vk_routeplane_key k) k es) [] ks,
                as_global_holdbacks = {}, as_unleash = None\<rparr>)"

definition lookup_constant_time ::
  "(string \<Rightarrow> string \<Rightarrow> bool) \<Rightarrow> auth_state \<Rightarrow> string \<Rightarrow> virtual_key option" where
  "lookup_constant_time ct_eq st presented =
     foldl (\<lambda>found (stored, vk). if ct_eq stored presented then Some vk else found) None (as_keys st)"

definition resolve_tenant_context :: "auth_state \<Rightarrow> virtual_key \<Rightarrow> tenant_context" where
  "resolve_tenant_context st vk =
     (case as_unleash st of
        None \<Rightarrow> from_virtual_key vk (as_global_holdbacks st)
      | Some resolve_bool \<Rightarrow>
          let ctx = eval_context_for vk;
              holdbacks = foldl (\<lambda>h f. if \<not> resolve_bool (flag_key f) True ctx then insert f h else h)
                (as_global_holdbacks st) all_features
          in from_virtual_key vk holdbacks)"

fun parse_holdback_entries :: "feature set \<Rightarrow> string list \<Rightarrow> load_error + feature set" where
  "parse_holdback_entries holdbacks [] = Inr holdbacks"
| "parse_holdback_entries holdbacks (raw # es) =
     (let entry = trim raw
      in if entry = [] then parse_holdback_entries holdbacks es
         else case from_flag_key entry of
             Some f \<Rightarrow> parse_holdback_entries (insert f holdbacks) es
           | None \<Rightarrow> Inl (HoldbackError entry))"

definition parse_holdbacks :: "string \<Rightarrow> load_error + feature set" where
  "parse_holdbacks raw = parse_holdback_entries {} (split_on CHR '','' raw)"

datatype env_var = VarPresent string | NotPresent | NotUnicode

fun holdbacks_from_var :: "env_var \<Rightarrow> load_error + feature set" where
  "holdbacks_from_var (VarPresent raw) = parse_holdbacks raw"
| "holdbacks_from_var NotPresent = Inr {}"
| "holdbacks_from_var NotUnicode = Inl HoldbackNotUnicode"

section \<open>Credentials\<close>

datatype auth_source = Native | Bearer

definition eq_ignore_ascii_case :: "string \<Rightarrow> string \<Rightarrow> bool" where
  "eq_ignore_ascii_case a b = (to_ascii_lowercase a = to_ascii_lowercase b)"

definition bearer_gateway_candidate :: "string option \<Rightarrow> string option \<times> bool" where
  "bearer_gateway_candidate header =
     (case header of
        None \<Rightarrow> (None, False)
      | Some raw \<Rightarrow>
          (case split_once CHR '' '' raw of
             None \<Rightarrow> (None, False)
           | Some (scheme, token) \<Rightarrow>
               if \<not> eq_ignore_ascii_case scheme ''Bearer'' then (None, False)
               else
                 let token = trim token
                 in if prefix ''rp_'' token then (Some token, False) else (None, True)))"

definition resolve_gateway_credential ::
  "string option \<Rightarrow> string option \<Rightarrow> (string \<times> auth_source) option \<times> bool" where
  "resolve_gateway_credential native authorization =
     (case native of
        Some n \<Rightarrow>
          if trim n \<noteq> [] then (Some (trim n, Native), False)
          else (case bearer_gateway_candidate authorization of
                  (Some token, b) \<Rightarrow> (Some (token, Bearer), b)
                | (None, b) \<Rightarrow> (None, b))
      | None \<Rightarrow>
          (case bearer_gateway_candidate authorization of
             (Some token, b) \<Rightarrow> (Some (token, Bearer), b)
           | (None, b) \<Rightarrow> (None, b)))"

definition bearer_raw_token :: "string option \<Rightarrow> string option" where
  "bearer_raw_token header =
     (case header of
        None \<Rightarrow> None
      | Some raw \<Rightarrow>
          (case split_once CHR '' '' raw of
             None \<Rightarrow> None
           | Some (scheme, token) \<Rightarrow>
               if \<not> eq_ignore_ascii_case scheme ''Bearer'' then None
               else if trim token = [] then None else Some (trim token)))"

definition source_ip_key :: "(string \<Rightarrow> string option) \<Rightarrow> string \<Rightarrow> string" where
  "source_ip_key headers trusted_header =
     (let first_hop =
            (case headers ''x-forwarded-for'' of
               None \<Rightarrow> ''unknown''
             | Some xff \<Rightarrow>
                 let hop = trim (hd (split_on CHR '','' xff))
                 in if hop \<noteq> [] then hop else ''unknown'')
      in case headers trusted_header of
           None \<Rightarrow> first_hop
         | Some v \<Rightarrow> if trim v \<noteq> [] then trim v else first_hop)"

section \<open>The middleware\<close>

datatype auth_outcome =
  Forwarded virtual_key tenant_context "console_session option"
| Throttled429 u64
| Unauthorized401

text \<open>The path of a console session, taken when only a foreign Bearer token was presented.\<close>

definition session_outcome ::
  "auth_state \<Rightarrow> console_bridge option \<Rightarrow> string option \<Rightarrow> auth_outcome option" where
  "session_outcome st bridge authorization =
     (case bridge of
        None \<Rightarrow> None
      | Some b \<Rightarrow>
          (case Option.bind (bearer_raw_token authorization) (console_verify b) of
             None \<Rightarrow> None
           | Some session \<Rightarrow>
               (case map_of (as_keys st) (cb_console_key b) of
                  None \<Rightarrow> None
                | Some vk \<Rightarrow>
                    if serves_traffic (vk_lifecycle_state vk)
                    then Some (Forwarded vk (resolve_tenant_context st vk) (Some session)) else None)))"

text \<open>What the credential of a request gives, before any failure is recorded.\<close>

definition authenticate ::
  "(string \<Rightarrow> string \<Rightarrow> bool) \<Rightarrow> auth_state \<Rightarrow> console_bridge option \<Rightarrow> (string \<Rightarrow> string option) \<Rightarrow>
   auth_outcome option" where
  "authenticate ct_eq st bridge headers =
     (let authorization = headers ''authorization'';
          (credential, non_rp_bearer) =
            resolve_gateway_credential (headers ''x-routeplane-api-key'') authorization
      in case credential of
           Some (key, source) \<Rightarrow>
             (case lookup_constant_time ct_eq st key of
                Some vk \<Rightarrow>
                  if \<not> serves_traffic (vk_lifecycle_state vk) then None
                  else Some (Forwarded vk (resolve_tenant_context st vk) None)
              | None \<Rightarrow> None)
         | None \<Rightarrow> if non_rp_bearer then session_outcome st bridge authorization else None)"

text \<open>\<^verbatim>\<open>auth_middleware\<close>: the two instants are the clock readings of the throttle check and of the
  recorded failure.\<close>

definition auth_middleware ::
  "(string \<Rightarrow> string \<Rightarrow> bool) \<Rightarrow> auth_state \<Rightarrow> console_bridge option \<Rightarrow> string \<Rightarrow>
   (string \<Rightarrow> string option) \<Rightarrow> u64 \<Rightarrow> u64 \<Rightarrow> auth_failure_tracker option \<Rightarrow>
   auth_outcome \<times> auth_failure_tracker option" where
  "auth_middleware ct_eq st bridge trusted_header headers now later tracker =
     (let source = source_ip_key headers trusted_header;
          refuse = (Unauthorized401,
            map_option (\<lambda>t. fst (auth_record_failure t source later)) tracker)
      in case (case tracker of None \<Rightarrow> Allow | Some t \<Rightarrow> auth_check t source now) of
           Throttled secs \<Rightarrow> (Throttled429 secs, tracker)
         | Allow \<Rightarrow>
             (case authenticate ct_eq st bridge headers of
                Some outcome \<Rightarrow> (outcome, tracker)
              | None \<Rightarrow> refuse))"

section \<open>Facts about resolution\<close>

lemma lookup_map_of:
  assumes "\<And>a b. ct_eq a b \<longleftrightarrow> a = b" and "distinct (map fst (as_keys st))"
  shows "lookup_constant_time ct_eq st k = map_of (as_keys st) k"
proof -
  have "foldl (\<lambda>found (stored, vk). if stored = k then Some vk else found) r es =
      (case map_of es k of None \<Rightarrow> r | Some vk \<Rightarrow> Some vk)"
    if "distinct (map fst es)" for r and es :: "(string \<times> virtual_key) list"
    using that
  proof (induction es arbitrary: r)
    case (Cons e es)
    have "map_of es k = None" if "fst e = k" using Cons.prems that by (auto simp: map_of_eq_None_iff)
    then show ?case using Cons by (cases e) (auto split: option.split)
  qed simp
  then show ?thesis using assms by (simp add: lookup_constant_time_def split: option.split)
qed

lemma insert_key_map_of: "map_of (insert_key k v es) = (map_of es)(k \<mapsto> v)"
  by (induction es) auto

lemma insert_key_keys: "set (map fst (insert_key k v es)) = insert k (set (map fst es))"
  using arg_cong [OF insert_key_map_of, of dom k v es] by (simp add: dom_map_of_conv_image_fst)

lemma insert_key_distinct: "distinct (map fst es) \<Longrightarrow> distinct (map fst (insert_key k v es))"
proof (induction es)
  case (Cons e es)
  then show ?case using insert_key_keys [of k v es] by (cases e) auto
qed simp

lemma load_keys_distinct: "load_keys ks = Inr st \<Longrightarrow> distinct (map fst (as_keys st))"
proof -
  have "distinct (map fst es) \<Longrightarrow>
      distinct (map fst (foldl (\<lambda>es k. insert_key (vk_routeplane_key k) k es) es ks))" for es
    by (induction ks arbitrary: es) (simp_all add: insert_key_distinct)
  then show "load_keys ks = Inr st \<Longrightarrow> distinct (map fst (as_keys st))"
    by (auto simp: load_keys_def split: if_splits)
qed

lemma capability_set_of_eq:
  "capability_set_of vk g = capability_resolve (vk_tier vk) (vk_capability_overrides vk) (vk_rollout_holdbacks vk \<union> g)"
  by (simp add: capability_set_of_def)

lemma fold_holdbacks:
  "foldl (\<lambda>h f. if \<not> r f then insert f h else h) h fs = h \<union> {f \<in> set fs. \<not> r f}"
  by (induction fs arbitrary: h) auto

definition released :: "auth_state \<Rightarrow> virtual_key \<Rightarrow> feature \<Rightarrow> bool" where
  "released st vk f \<longleftrightarrow>
     (case as_unleash st of None \<Rightarrow> True | Some r \<Rightarrow> r (flag_key f) True (eval_context_for vk))"

lemma resolve_tenant_context_eq:
  "resolve_tenant_context st vk = from_virtual_key vk (as_global_holdbacks st \<union> {f. \<not> released st vk f})"
  by (simp add: resolve_tenant_context_def released_def Let_def fold_holdbacks all_features_complete(1)
      split: option.split)

lemma context_active:
  "active_feature (tc_capabilities (resolve_tenant_context st vk)) f \<longleftrightarrow>
    (f \<in> tier_baseline (vk_tier vk) \<or> f \<in> vk_capability_overrides vk) \<and>
    f \<notin> vk_rollout_holdbacks vk \<and> f \<notin> as_global_holdbacks st \<and> released st vk f"
  by (auto simp: resolve_tenant_context_eq from_virtual_key_def capability_set_of_eq active_iff)

lemma resource_tenant_canonical:
  "tc_resource_tenant_id (resolve_tenant_context st vk) = canonical_tenant_id vk"
  by (auto simp: resolve_tenant_context_eq from_virtual_key_def canonical_tenant_id_def tenant_id_new_def
      split: option.split)

lemma parse_entries_iff:
  "parse_holdback_entries h es = Inr out \<longleftrightarrow>
    (\<forall>e\<in>set es. trim e = [] \<or> from_flag_key (trim e) \<noteq> None) \<and>
    out = h \<union> {f. \<exists>e\<in>set es. from_flag_key (trim e) = Some f}"
proof (induction es arbitrary: h)
  case (Cons e es)
  have blank: "from_flag_key [] = None" by (simp add: from_flag_key_def)
  show ?case
    by (cases "trim e = []"; cases "from_flag_key (trim e)") (auto simp: Let_def Cons blank)
qed auto

lemma credential_native:
  "trim n \<noteq> [] \<Longrightarrow> resolve_gateway_credential (Some n) auth = (Some (trim n, Native), False)"
  by (simp add: resolve_gateway_credential_def)

lemma credential_blank_native:
  "trim n = [] \<Longrightarrow> resolve_gateway_credential (Some n) auth = resolve_gateway_credential None auth"
  by (simp add: resolve_gateway_credential_def)

lemma credential_bearer:
  "resolve_gateway_credential None auth = (Some (k, src), b) \<Longrightarrow> src = Bearer \<and> prefix ''rp_'' k \<and> \<not> b"
  by (auto simp: resolve_gateway_credential_def bearer_gateway_candidate_def Let_def
      split: option.splits if_splits)

section \<open>Runs of the middleware\<close>

text \<open>One request: its headers and the two instants.\<close>

type_synonym auth_call = "(string \<Rightarrow> string option) \<times> u64 \<times> u64"

fun middleware_run ::
  "(string \<Rightarrow> string \<Rightarrow> bool) \<Rightarrow> auth_state \<Rightarrow> console_bridge option \<Rightarrow> string \<Rightarrow> auth_failure_tracker option \<Rightarrow>
   auth_call list \<Rightarrow> auth_outcome list \<times> auth_failure_tracker option" where
  "middleware_run ct_eq st br ip_header tr [] = ([], tr)"
| "middleware_run ct_eq st br ip_header tr ((headers, now, later) # cs) =
     (let (o1, tr') = auth_middleware ct_eq st br ip_header headers now later tr;
          (os, tr'') = middleware_run ct_eq st br ip_header tr' cs
      in (o1 # os, tr''))"

text \<open>The attempt of the throttle's specification (\<open>auth_run\<close>) that a request makes.\<close>

definition attempt_of ::
  "(string \<Rightarrow> string \<Rightarrow> bool) \<Rightarrow> auth_state \<Rightarrow> console_bridge option \<Rightarrow> string \<Rightarrow> auth_call \<Rightarrow> auth_try" where
  "attempt_of ct_eq st br ip_header = (\<lambda>(headers, now, later).
     (source_ip_key headers ip_header, now,
      if authenticate ct_eq st br headers = None then Some later else None))"

fun throttle_of :: "auth_outcome \<Rightarrow> auth_throttle" where
  "throttle_of (Throttled429 secs) = Throttled secs"
| "throttle_of _ = Allow"

lemma authenticate_forwards: "authenticate ct_eq st br headers = Some outcome \<Longrightarrow> throttle_of outcome = Allow"
  by (auto simp: authenticate_def session_outcome_def Let_def split: option.splits if_splits prod.splits)

lemma middleware_attempt:
  "(case auth_middleware ct_eq st br ip_header headers now later (Some t) of (outcome, tr) \<Rightarrow> (throttle_of outcome, tr)) =
   (case auth_attempt t (attempt_of ct_eq st br ip_header (headers, now, later)) of (r, t') \<Rightarrow> (r, Some t'))"
  using authenticate_forwards [of ct_eq st br headers]
  by (auto simp: auth_middleware_def auth_attempt_def attempt_of_def Let_def
      split: auth_throttle.splits option.splits)

lemma middleware_run_refines:
  "(case middleware_run ct_eq st br ip_header (Some t) cs of (os, tr) \<Rightarrow> (map throttle_of os, tr)) =
   (case auth_run t (map (attempt_of ct_eq st br ip_header) cs) of (rs, t') \<Rightarrow> (rs, Some t'))"
proof (induction cs arbitrary: t)
  case (Cons c cs)
  obtain headers now later where c: "c = (headers, now, later)" by (cases c)
  obtain o1 tr where m: "auth_middleware ct_eq st br ip_header headers now later (Some t) = (o1, tr)"
    by (cases "auth_middleware ct_eq st br ip_header headers now later (Some t)")
  obtain r t' where a: "auth_attempt t (attempt_of ct_eq st br ip_header (headers, now, later)) = (r, t')"
    by (cases "auth_attempt t (attempt_of ct_eq st br ip_header (headers, now, later))")
  have "throttle_of o1 = r" "tr = Some t'"
    using middleware_attempt [of ct_eq st br ip_header headers now later t] by (simp_all add: m a)
  then show ?case using Cons.IH [of t'] by (simp add: c m a Let_def case_prod_beta)
qed simp

section \<open>Properties\<close>

lemma auth_gate_parts:
  assumes "\<forall>a b. ct_eq a b \<longleftrightarrow> a = b" and "distinct (map fst (as_keys st))"
  shows "auth_middleware ct_eq st br trusted headers now later tr = (Forwarded vk ctx session, tr') \<longleftrightarrow>
      (\<forall>t. tr = Some t \<longrightarrow> auth_check t (source_ip_key headers trusted) now = Allow) \<and> tr' = tr \<and>
      vk_lifecycle_state vk = Active \<and> ctx = resolve_tenant_context st vk \<and>
      ((session = None \<and> (\<exists>k src b.
          resolve_gateway_credential (headers ''x-routeplane-api-key'') (headers ''authorization'') = (Some (k, src), b) \<and>
          map_of (as_keys st) k = Some vk)) \<or>
       (\<exists>bridge token s. session = Some s \<and> br = Some bridge \<and>
          resolve_gateway_credential (headers ''x-routeplane-api-key'') (headers ''authorization'') = (None, True) \<and>
          bearer_raw_token (headers ''authorization'') = Some token \<and> console_verify bridge token = Some s \<and>
          map_of (as_keys st) (cb_console_key bridge) = Some vk))"
    and "fst (auth_middleware ct_eq st br trusted headers now later (Some t)) = Unauthorized401 \<Longrightarrow>
      snd (auth_middleware ct_eq st br trusted headers now later (Some t)) =
        Some (fst (auth_record_failure t (source_ip_key headers trusted) later))"
    and "headers ''x-routeplane-api-key'' = Some n \<Longrightarrow> trim n \<noteq> [] \<Longrightarrow> map_of (as_keys st) (trim n) = None \<Longrightarrow>
      fst (auth_middleware ct_eq st br trusted headers now later None) = Unauthorized401"
proof -
  have lookup: "lookup_constant_time ct_eq st k = map_of (as_keys st) k" for k
    by (rule lookup_map_of) (use assms in auto)
  have session: "session_outcome st br auth = Some out \<longleftrightarrow> (\<exists>bridge token s vk. br = Some bridge \<and>
      bearer_raw_token auth = Some token \<and> console_verify bridge token = Some s \<and>
      map_of (as_keys st) (cb_console_key bridge) = Some vk \<and> vk_lifecycle_state vk = Active \<and>
      out = Forwarded vk (resolve_tenant_context st vk) (Some s))" for auth out
    by (auto simp: session_outcome_def serves_traffic_def bind_eq_Some_conv split: option.splits)
  show "auth_middleware ct_eq st br trusted headers now later tr = (Forwarded vk ctx session, tr') \<longleftrightarrow>
      (\<forall>t. tr = Some t \<longrightarrow> auth_check t (source_ip_key headers trusted) now = Allow) \<and> tr' = tr \<and>
      vk_lifecycle_state vk = Active \<and> ctx = resolve_tenant_context st vk \<and>
      ((session = None \<and> (\<exists>k src b.
          resolve_gateway_credential (headers ''x-routeplane-api-key'') (headers ''authorization'') = (Some (k, src), b) \<and>
          map_of (as_keys st) k = Some vk)) \<or>
       (\<exists>bridge token s. session = Some s \<and> br = Some bridge \<and>
          resolve_gateway_credential (headers ''x-routeplane-api-key'') (headers ''authorization'') = (None, True) \<and>
          bearer_raw_token (headers ''authorization'') = Some token \<and> console_verify bridge token = Some s \<and>
          map_of (as_keys st) (cb_console_key bridge) = Some vk))"
  proof -
    have "authenticate ct_eq st br headers = Some (Forwarded vk ctx session) \<longleftrightarrow>
        vk_lifecycle_state vk = Active \<and> ctx = resolve_tenant_context st vk \<and>
        ((session = None \<and> (\<exists>k src b.
            resolve_gateway_credential (headers ''x-routeplane-api-key'') (headers ''authorization'') = (Some (k, src), b) \<and>
            map_of (as_keys st) k = Some vk)) \<or>
         (\<exists>bridge token s. session = Some s \<and> br = Some bridge \<and>
            resolve_gateway_credential (headers ''x-routeplane-api-key'') (headers ''authorization'') = (None, True) \<and>
            bearer_raw_token (headers ''authorization'') = Some token \<and> console_verify bridge token = Some s \<and>
            map_of (as_keys st) (cb_console_key bridge) = Some vk))"
      by (auto simp: authenticate_def lookup session serves_traffic_def Let_def
          split: option.splits prod.splits if_splits)
    then show ?thesis
      by (auto simp: auth_middleware_def Let_def split: option.splits auth_throttle.splits)
  qed
  show "snd (auth_middleware ct_eq st br trusted headers now later (Some t)) =
      Some (fst (auth_record_failure t (source_ip_key headers trusted) later))"
    if "fst (auth_middleware ct_eq st br trusted headers now later (Some t)) = Unauthorized401"
    using that authenticate_forwards [of ct_eq st br headers]
    by (auto simp: auth_middleware_def authenticate_def session_outcome_def Let_def
        split: option.splits auth_throttle.splits prod.splits if_splits)
  show "fst (auth_middleware ct_eq st br trusted headers now later None) = Unauthorized401"
    if "headers ''x-routeplane-api-key'' = Some n" "trim n \<noteq> []" "map_of (as_keys st) (trim n) = None"
    using that by (simp add: auth_middleware_def authenticate_def credential_native lookup Let_def)
qed

text \<open>
  C2. A request reaches a handler exactly when its source is not throttled and either its gateway credential (the branded header when that is not blank, else an rp_ Bearer token, never both tried) is a registered key, or it has no such credential and its Bearer token verifies as a console session of the configured key; the key's tenant must be active, and its context is the one resolved from the registry. Admission leaves the failure tracker alone and a refusal records exactly one failure for the source.
\<close>

theorem auth_gate:
  assumes "\<forall>a b. ct_eq a b \<longleftrightarrow> a = b" and "distinct (map fst (as_keys st))"
  shows "(auth_middleware ct_eq st br trusted headers now later tr = (Forwarded vk ctx session, tr') \<longleftrightarrow>
      (\<forall>t. tr = Some t \<longrightarrow> auth_check t (source_ip_key headers trusted) now = Allow) \<and> tr' = tr \<and>
      vk_lifecycle_state vk = Active \<and> ctx = resolve_tenant_context st vk \<and>
      ((session = None \<and> (\<exists>k src b.
          resolve_gateway_credential (headers ''x-routeplane-api-key'') (headers ''authorization'') = (Some (k, src), b) \<and>
          map_of (as_keys st) k = Some vk)) \<or>
       (\<exists>bridge token s. session = Some s \<and> br = Some bridge \<and>
          resolve_gateway_credential (headers ''x-routeplane-api-key'') (headers ''authorization'') = (None, True) \<and>
          bearer_raw_token (headers ''authorization'') = Some token \<and> console_verify bridge token = Some s \<and>
          map_of (as_keys st) (cb_console_key bridge) = Some vk))) \<and>
   ((fst (auth_middleware ct_eq st br trusted headers now later (Some t)) = Unauthorized401) \<longrightarrow> snd (auth_middleware ct_eq st br trusted headers now later (Some t)) =
        Some (fst (auth_record_failure t (source_ip_key headers trusted) later))) \<and>
   ((headers ''x-routeplane-api-key'' = Some n) \<longrightarrow> (trim n \<noteq> []) \<longrightarrow> (map_of (as_keys st) (trim n) = None) \<longrightarrow> fst (auth_middleware ct_eq st br trusted headers now later None) = Unauthorized401)"
  by ((rule conjI, rule auth_gate_parts(1) [OF assms]),
      (rule conjI, rule impI, rule auth_gate_parts(2) [OF assms], assumption),
      (rule impI, rule impI, rule impI, rule auth_gate_parts(3) [OF assms], assumption, assumption, assumption))

theorem auth_gate_witness:
  "\<exists>st vk ctx. fst (auth_middleware (=) st None ''cf-connecting-ip''
      [''authorization'' \<mapsto> ''Bearer rp_k''] 5 6 None) = Forwarded vk ctx None \<and>
     fst (auth_middleware (=) st None ''cf-connecting-ip''
      [''authorization'' \<mapsto> ''Bearer rp_k'', ''x-routeplane-api-key'' \<mapsto> ''rp_x''] 5 6 None) = Unauthorized401"
proof -
  let ?vk = "\<lparr>vk_name = ''k'', vk_routeplane_key = ''rp_k'', vk_provider_keys = Map.empty, vk_tenant_id = None,
    vk_lifecycle_state = Active, vk_tier = Free, vk_capability_overrides = {}, vk_rollout_holdbacks = {},
    vk_default_residency = None, vk_compliance_frameworks = [], vk_compliance_mode = Strict,
    vk_provisioned_models = {}, vk_integrations = Map.empty\<rparr>"
  let ?st = "\<lparr>as_keys = [(''rp_k'', ?vk)], as_global_holdbacks = {}, as_unleash = None\<rparr>"
  have eq: "\<forall>a b :: string. (a = b) \<longleftrightarrow> a = b" and d: "distinct (map fst (as_keys ?st))" by simp_all
  have t: "trim ''rp_k'' = ''rp_k''" "trim ''rp_x'' = ''rp_x''" by (simp_all add: trim_visible visible_def)
  have "resolve_gateway_credential None (Some ''Bearer rp_k'') = (Some (''rp_k'', Bearer), False)"
    by (simp add: resolve_gateway_credential_def bearer_gateway_candidate_def eq_ignore_ascii_case_def t)
  then have "auth_middleware (=) ?st None ''cf-connecting-ip'' [''authorization'' \<mapsto> ''Bearer rp_k''] 5 6 None =
      (Forwarded ?vk (resolve_tenant_context ?st ?vk) None, None)"
    by (subst auth_gate [THEN conjunct1, OF eq d]) auto
  moreover have "fst (auth_middleware (=) ?st None ''cf-connecting-ip''
      [''authorization'' \<mapsto> ''Bearer rp_k'', ''x-routeplane-api-key'' \<mapsto> ''rp_x''] 5 6 None) = Unauthorized401"
    using auth_gate [THEN conjunct2, THEN conjunct2, THEN mp, THEN mp, THEN mp, OF eq d] t(2) by simp
  ultimately show ?thesis by (intro exI [of _ ?st] exI [of _ ?vk]) simp
qed

subsection \<open>Further facts\<close>

text \<open>
  Seen from the failure tracker, any sequence of requests through the middleware is a run of the throttle's specification on their source addresses, whatever the credentials, registry or console sessions: a 429 is given exactly when the specification throttles and the tracker evolves the same; so within one window no more wrong credentials per slot are answered than the threshold allows.
\<close>

lemma middleware_refines_throttle:
  "map throttle_of (fst (middleware_run ct_eq st br ip_header (Some t) cs)) =
     fst (auth_run t (map (attempt_of ct_eq st br ip_header) cs))"
  "snd (middleware_run ct_eq st br ip_header (Some t) cs) =
     Some (snd (auth_run t (map (attempt_of ct_eq st br ip_header) cs)))"
  "auth_tracker_ok t \<Longrightarrow> \<forall>c\<in>set cs. in_window t ep (attempt_of ct_eq st br ip_header c) \<Longrightarrow>
     guesses t i (map (attempt_of ct_eq st br ip_header) cs)
       (map throttle_of (fst (middleware_run ct_eq st br ip_header (Some t) cs))) \<le> unat (threshold (af_cfg t))"
proof -
  show m: "map throttle_of (fst (middleware_run ct_eq st br ip_header (Some t) cs)) =
       fst (auth_run t (map (attempt_of ct_eq st br ip_header) cs))"
    and "snd (middleware_run ct_eq st br ip_header (Some t) cs) =
       Some (snd (auth_run t (map (attempt_of ct_eq st br ip_header) cs)))"
    using middleware_run_refines [of ct_eq st br ip_header t cs] by (simp_all add: case_prod_beta)
  show "guesses t i (map (attempt_of ct_eq st br ip_header) cs)
       (map throttle_of (fst (middleware_run ct_eq st br ip_header (Some t) cs))) \<le> unat (threshold (af_cfg t))"
    if "auth_tracker_ok t" "\<forall>c\<in>set cs. in_window t ep (attempt_of ct_eq st br ip_header c)"
  proof -
    have "\<forall>a\<in>set (map (attempt_of ct_eq st br ip_header) cs). in_window t ep a" using that(2) by simp
    from auth_run_guesses [OF that(1) this, of i] show ?thesis
      unfolding m by (meson diff_le_self le_trans)
  qed
qed

text \<open>
  A feature is active for a request exactly when the tier's preset or an override of the key grants it and none of the three holdbacks removes it: the key's own, the gateway's, or an explicit refusal by the flag source; without a flag source, and for a flag it does not know, entitlement alone decides. A holdback list is accepted exactly when every entry is a known flag key, and then holds back exactly those.
\<close>

lemma capability_composition:
  "active_feature (tc_capabilities (resolve_tenant_context st vk)) f \<longleftrightarrow>
    (f \<in> tier_baseline (vk_tier vk) \<or> f \<in> vk_capability_overrides vk) \<and>
    f \<notin> vk_rollout_holdbacks vk \<and> f \<notin> as_global_holdbacks st \<and>
    (case as_unleash st of None \<Rightarrow> True | Some r \<Rightarrow> r (flag_key f) True (eval_context_for vk))"
  "parse_holdbacks raw = Inr hs \<longleftrightarrow>
    (\<forall>e\<in>set (split_on CHR '','' raw). trim e = [] \<or> (\<exists>f. trim e = flag_key f)) \<and>
    hs = {f. flag_key f \<in> trim ` set (split_on CHR '','' raw)}"
proof -
  show "active_feature (tc_capabilities (resolve_tenant_context st vk)) f \<longleftrightarrow>
    (f \<in> tier_baseline (vk_tier vk) \<or> f \<in> vk_capability_overrides vk) \<and>
    f \<notin> vk_rollout_holdbacks vk \<and> f \<notin> as_global_holdbacks st \<and>
    (case as_unleash st of None \<Rightarrow> True | Some r \<Rightarrow> r (flag_key f) True (eval_context_for vk))"
    by (simp only: context_active released_def)
  show "parse_holdbacks raw = Inr hs \<longleftrightarrow>
    (\<forall>e\<in>set (split_on CHR '','' raw). trim e = [] \<or> (\<exists>f. trim e = flag_key f)) \<and>
    hs = {f. flag_key f \<in> trim ` set (split_on CHR '','' raw)}"
  proof -
    have known: "from_flag_key x \<noteq> None \<longleftrightarrow> (\<exists>f. x = flag_key f)" for x
      using from_flag_key_iff [of x] by (metis not_None_eq)
    have held: "{f. \<exists>e\<in>set es. from_flag_key (trim e) = Some f} = {f. flag_key f \<in> trim ` set es}" for es
      by (auto simp: from_flag_key_iff image_iff) metis
    show ?thesis unfolding parse_holdbacks_def parse_entries_iff known held Un_empty_left ..
  qed
qed

end
