(* ===== verification/Json.thy ===== *)
theory Json
  imports Rust_Strings Complex_Main
begin

text \<open>
  Results and JSON values. A fallible function returns a sum, the error on the left; the
  combinators here are the \<^verbatim>\<open>?\<close> operator and the loops that use it. A JSON value is that of
  \<^verbatim>\<open>serde_json::Value\<close>: an object lists its members by key, in key order. A finite \<^verbatim>\<open>f64\<close> is the
  rational number it denotes.
\<close>

named_theorems result_simps
  \<open>when a composed computation succeeds\<close>

section \<open>Results\<close>

definition and_then :: "'e + 'a \<Rightarrow> ('a \<Rightarrow> 'e + 'b) \<Rightarrow> 'e + 'b" where
  "and_then m f = (case m of Inl e \<Rightarrow> Inl e | Inr x \<Rightarrow> f x)"

definition ok_or :: "'e \<Rightarrow> 'a option \<Rightarrow> 'e + 'a" where
  "ok_or e m = (case m of None \<Rightarrow> Inl e | Some x \<Rightarrow> Inr x)"

definition ensure :: "bool \<Rightarrow> 'e \<Rightarrow> 'e + unit" where
  "ensure c e = (if c then Inr () else Inl e)"

text \<open>An optional member that must parse when it is there.\<close>

definition try_opt :: "('a \<Rightarrow> 'e + 'b) \<Rightarrow> 'a option \<Rightarrow> 'e + 'b option" where
  "try_opt f m = (case m of None \<Rightarrow> Inr None | Some x \<Rightarrow> map_sum id Some (f x))"

definition try_or :: "'b \<Rightarrow> ('a \<Rightarrow> 'e + 'b) \<Rightarrow> 'a option \<Rightarrow> 'e + 'b" where
  "try_or d f m = (case m of None \<Rightarrow> Inr d | Some x \<Rightarrow> f x)"

text \<open>\<^verbatim>\<open>for (i, x) in xs.iter().enumerate()\<close> with a body that may return early.\<close>

fun try_each :: "(nat \<Rightarrow> 'a \<Rightarrow> 'e + 'b) \<Rightarrow> nat \<Rightarrow> 'a list \<Rightarrow> 'e + 'b list" where
  "try_each f i [] = Inr []"
| "try_each f i (x # xs) =
     (case f i x of
        Inl e \<Rightarrow> Inl e
      | Inr y \<Rightarrow> (case try_each f (Suc i) xs of Inl e \<Rightarrow> Inl e | Inr ys \<Rightarrow> Inr (y # ys)))"

lemma and_then_simps [simp]: "and_then (Inl e) f = Inl e" "and_then (Inr x) f = f x"
  by (simp_all add: and_then_def)

lemma and_then_Inr [result_simps]: "and_then m f = Inr y \<longleftrightarrow> (\<exists>x. m = Inr x \<and> f x = Inr y)"
  by (auto simp: and_then_def split: sum.split)

lemma and_then_Inl: "and_then m f = Inl e \<longleftrightarrow> m = Inl e \<or> (\<exists>x. m = Inr x \<and> f x = Inl e)"
  by (auto simp: and_then_def split: sum.split)

lemma ok_or_Inr [result_simps]: "ok_or e m = Inr x \<longleftrightarrow> m = Some x"
  by (auto simp: ok_or_def split: option.split)

lemma ok_or_simps [simp]: "ok_or e (Some x) = Inr x" "ok_or e None = Inl e"
  by (simp_all add: ok_or_def)

lemma ensure_Inr [result_simps]: "ensure c e = Inr u \<longleftrightarrow> c"
  by (auto simp: ensure_def)

lemma ensure_simps [simp]: "ensure True e = Inr ()" "ensure False e = Inl e"
  by (simp_all add: ensure_def)

lemma map_sum_Inr: "map_sum id f m = Inr y \<longleftrightarrow> (\<exists>x. m = Inr x \<and> y = f x)"
  by (cases m) auto

lemma try_opt_Inr [result_simps]:
  "try_opt f m = Inr r \<longleftrightarrow> (case m of None \<Rightarrow> r = None | Some x \<Rightarrow> (\<exists>y. f x = Inr y \<and> r = Some y))"
  by (auto simp: try_opt_def map_sum_def split: option.split sum.splits)

lemma try_or_Inr [result_simps]:
  "try_or d f m = Inr r \<longleftrightarrow> (case m of None \<Rightarrow> r = d | Some x \<Rightarrow> f x = Inr r)"
  by (auto simp: try_or_def split: option.split)

lemma try_or_cases: "try_or d f m = Inr r \<Longrightarrow> (r = d \<Longrightarrow> P) \<Longrightarrow> (\<And>x. m = Some x \<Longrightarrow> f x = Inr r \<Longrightarrow> P) \<Longrightarrow> P"
  by (auto simp: result_simps split: option.splits)

lemma try_each_Cons [result_simps]:
  "try_each f i (x # xs) = Inr zs \<longleftrightarrow>
    (\<exists>y ys. zs = y # ys \<and> f i x = Inr y \<and> try_each f (Suc i) xs = Inr ys)"
  by (auto split: sum.splits)

lemma try_each_all2:
  "try_each f i xs = Inr ys \<Longrightarrow> (\<And>k x y. x \<in> set xs \<Longrightarrow> f k x = Inr y \<Longrightarrow> P x y) \<Longrightarrow> list_all2 P xs ys"
proof (induction xs arbitrary: i ys)
  case (Cons x xs)
  then obtain y ys' where y: "ys = y # ys'" "f i x = Inr y" "try_each f (Suc i) xs = Inr ys'"
    by (auto simp: try_each_Cons simp del: try_each.simps)
  then show ?case using Cons.IH [OF y(3)] Cons.prems(2) by simp
qed simp

lemma try_each_length: "try_each f i xs = Inr ys \<Longrightarrow> length ys = length xs"
  using try_each_all2 [of f i xs ys "\<lambda>_ _. True"] by (metis list_all2_lengthD)

lemma try_each_all:
  assumes "try_each f i xs = Inr ys" and "\<And>k x y. x \<in> set xs \<Longrightarrow> f k x = Inr y \<Longrightarrow> P y"
  shows "\<forall>y\<in>set ys. P y"
  using try_each_all2 [OF assms(1), of "\<lambda>_. P"] assms(2) by (auto simp: list_all2_conv_all_nth in_set_conv_nth)

lemma try_each_cong [fundef_cong]:
  "xs = ys \<Longrightarrow> i = j \<Longrightarrow> (\<And>k x. x \<in> set ys \<Longrightarrow> f k x = g k x) \<Longrightarrow> try_each f i xs = try_each g j ys"
proof (induction xs arbitrary: ys i j)
  case (Cons x xs)
  have "try_each f (Suc j) xs = try_each g (Suc j) xs" by (rule Cons.IH) (use Cons.prems in auto)
  moreover have "f j x = g j x" using Cons.prems by auto
  ultimately show ?case using Cons.prems(1,2) by (auto split: sum.split)
qed simp

section \<open>Values\<close>

type_synonym f64 = rat

datatype json_number = PosInt u64 | NegInt int | Float f64

datatype json =
  VNull | VBool bool | VNumber json_number | VString string | VArray "json list"
| VObject "(string \<times> json) list"

type_synonym json_map = "(string \<times> json) list"

definition obj_get :: "json_map \<Rightarrow> string \<Rightarrow> json option" where
  "obj_get m k = map_of m k"

definition obj_keys :: "json_map \<Rightarrow> string list" where
  "obj_keys m = map fst m"

fun as_object :: "json \<Rightarrow> json_map option" where
  "as_object (VObject m) = Some m" | "as_object _ = None"

fun as_array :: "json \<Rightarrow> json list option" where
  "as_array (VArray vs) = Some vs" | "as_array _ = None"

fun as_str :: "json \<Rightarrow> string option" where
  "as_str (VString s) = Some s" | "as_str _ = None"

fun as_bool :: "json \<Rightarrow> bool option" where
  "as_bool (VBool b) = Some b" | "as_bool _ = None"

fun as_u64 :: "json \<Rightarrow> u64 option" where
  "as_u64 (VNumber (PosInt n)) = Some n" | "as_u64 _ = None"

fun is_number :: "json \<Rightarrow> bool" where
  "is_number (VNumber _) = True" | "is_number _ = False"

text \<open>The cast of an integer to \<^verbatim>\<open>f64\<close>: to 53 significant bits, ties to even.\<close>

fun bit_length :: "nat \<Rightarrow> nat" where
  "bit_length n = (if n = 0 then 0 else Suc (bit_length (n div 2)))"

declare bit_length.simps [simp del]

definition round_f64 :: "nat \<Rightarrow> nat" where
  "round_f64 n =
     (if n < 2 ^ 53 then n
      else
        let k = bit_length n - 53; q = n div 2 ^ k; r = n mod 2 ^ k
        in (if 2 ^ k < 2 * r \<or> (2 * r = 2 ^ k \<and> odd q) then q + 1 else q) * 2 ^ k)"

definition int_to_f64 :: "int \<Rightarrow> f64" where
  "int_to_f64 i = (if 0 \<le> i then of_nat (round_f64 (nat i)) else - of_nat (round_f64 (nat (- i))))"

fun number_to_f64 :: "json_number \<Rightarrow> f64" where
  "number_to_f64 (PosInt n) = int_to_f64 (uint n)"
| "number_to_f64 (NegInt i) = int_to_f64 i"
| "number_to_f64 (Float x) = x"

fun as_f64 :: "json \<Rightarrow> f64 option" where
  "as_f64 (VNumber n) = Some (number_to_f64 n)" | "as_f64 _ = None"

text \<open>\<^verbatim>\<open>Value::get\<close> on a key.\<close>

definition json_get :: "json \<Rightarrow> string \<Rightarrow> json option" where
  "json_get v k = Option.bind (as_object v) (\<lambda>m. obj_get m k)"

lemma as_u64_Some: "as_u64 v = Some n \<longleftrightarrow> v = VNumber (PosInt n)"
  by (cases v rule: as_u64.cases) auto

lemma as_str_Some: "as_str v = Some s \<longleftrightarrow> v = VString s"
  by (cases v) auto

lemma as_object_Some: "as_object v = Some m \<longleftrightarrow> v = VObject m"
  by (cases v) auto

lemma obj_get_None: "obj_get m k = None \<longleftrightarrow> k \<notin> set (obj_keys m)"
  by (simp add: obj_get_def obj_keys_def map_of_eq_None_iff)

lemma obj_get_simps [simp]:
  "obj_get [] j = None" "obj_get ((k, v) # m) j = (if j = k then Some v else obj_get m j)"
  by (simp_all add: obj_get_def)

text \<open>Insertion in an object, whose members are in key order.\<close>

fun obj_insert :: "string \<Rightarrow> json \<Rightarrow> json_map \<Rightarrow> json_map" where
  "obj_insert k v [] = [(k, v)]"
| "obj_insert k v ((k', v') # m) =
     (if k = k' then (k, v) # m
      else if str_less k k' then (k, v) # (k', v') # m
      else (k', v') # obj_insert k v m)"

lemma obj_get_insert: "obj_get (obj_insert k v m) j = (if j = k then Some v else obj_get m j)"
  by (induction m) (auto simp: obj_get_def)

lemma bit_length_le: "n \<noteq> 0 \<Longrightarrow> 2 ^ (bit_length n - 1) \<le> n"
proof (induction n rule: bit_length.induct)
  case (1 n)
  show ?case
  proof (cases "n div 2 = 0")
    case False
    have "2 ^ (bit_length (n div 2) - 1) \<le> n div 2" using 1 False by simp
    moreover have "bit_length n = Suc (bit_length (n div 2))" using 1(2) by (subst bit_length.simps) simp
    moreover have "bit_length (n div 2) \<noteq> 0" using False by (subst bit_length.simps) simp
    ultimately show ?thesis by (cases "bit_length (n div 2)") simp_all
  next
    case True
    then have "bit_length n = 1" using 1(2) by (subst bit_length.simps) (simp add: bit_length.simps)
    then show ?thesis using 1(2) by simp
  qed
qed

lemma round_f64_pos:
  assumes "0 < n"
  shows "0 < round_f64 n"
proof (cases "n < 2 ^ 53")
  case False
  have "(2::nat) ^ (bit_length n - 53) \<le> 2 ^ (bit_length n - 1)" by (rule power_increasing) simp_all
  also have "\<dots> \<le> n" using bit_length_le assms by simp
  finally have "0 < n div 2 ^ (bit_length n - 53)" by (simp add: div_greater_zero_iff)
  then show ?thesis using False by (simp add: round_f64_def Let_def)
qed (simp add: round_f64_def assms)

end
