(* ===== verification/Policy_Config.thy ===== *)
theory Policy_Config
  imports Json
begin

text \<open>
  Parsing of routing configurations, \<^verbatim>\<open>crates/policy/src/lib.rs\<close>: bounds, errors, the directives
  (hedge, cache, retry and backoff, parameter shaping), targets with one level of nested pools,
  conditions, and \<^verbatim>\<open>RoutingConfig::parse\<close>. The input is the decoded JSON value; an error is its
  code and its JSON pointer, the message text being output only. Durations are milliseconds.
\<close>

section \<open>Limits and errors\<close>

definition MAX_CONFIG_BYTES :: nat where "MAX_CONFIG_BYTES = 8 * 1024"
definition MAX_METADATA_BYTES :: nat where "MAX_METADATA_BYTES = 4 * 1024"
definition MAX_TARGETS_PER_LEVEL :: nat where "MAX_TARGETS_PER_LEVEL = 16"
definition MAX_FLATTENED_TARGETS :: nat where "MAX_FLATTENED_TARGETS = 32"
definition MAX_CONDITIONS :: nat where "MAX_CONDITIONS = 16"
definition MAX_CLAUSES_PER_CONDITION :: nat where "MAX_CLAUSES_PER_CONDITION = 8"
definition MAX_RETRY_ATTEMPTS :: u32 where "MAX_RETRY_ATTEMPTS = 5"
definition MAX_NESTING_DEPTH :: nat where "MAX_NESTING_DEPTH = 2"

definition ALLOWED_RETRY_STATUS :: "u16 list" where
  "ALLOWED_RETRY_STATUS = [408, 429, 500, 502, 503, 504]"

definition DEFAULT_RETRY_STATUS :: "u16 list" where
  "DEFAULT_RETRY_STATUS = [429, 500, 502, 503, 504]"

definition BACKOFF_INITIAL_MIN_MS :: u64 where "BACKOFF_INITIAL_MIN_MS = 1"
definition BACKOFF_INITIAL_MAX_MS :: u64 where "BACKOFF_INITIAL_MAX_MS = 10000"
definition BACKOFF_MAX_CAP_MS :: u64 where "BACKOFF_MAX_CAP_MS = 30000"
definition HEDGE_DELAY_MIN_MS :: u64 where "HEDGE_DELAY_MIN_MS = 1"
definition HEDGE_DELAY_MAX_MS :: u64 where "HEDGE_DELAY_MAX_MS = 60000"
definition HEDGE_MAX_EXTRA :: "8 word" where "HEDGE_MAX_EXTRA = 2"

definition PARAM_ALLOWLIST :: "string list" where
  "PARAM_ALLOWLIST =
    [''model'', ''temperature'', ''max_tokens'', ''max_completion_tokens'', ''top_p'', ''stop'', ''n'',
     ''presence_penalty'', ''frequency_penalty'', ''user'']"

definition CONDITION_PARAM_FIELDS :: "string list" where
  "CONDITION_PARAM_FIELDS =
    [''model'', ''user'', ''stream'', ''max_tokens'', ''max_completion_tokens'', ''temperature'']"

definition CACHE_TTL_MIN_SECONDS :: u64 where "CACHE_TTL_MIN_SECONDS = 10"
definition CACHE_TTL_MAX_SECONDS :: u64 where "CACHE_TTL_MAX_SECONDS = 86400"
definition CACHE_TTL_DEFAULT_SECONDS :: u64 where "CACHE_TTL_DEFAULT_SECONDS = 300"
definition CACHE_MAX_RESPONSE_BYTES_CAP :: u64 where "CACHE_MAX_RESPONSE_BYTES_CAP = 262144"

text \<open>The \<^verbatim>\<open>f64\<close> values of the literals 0.80, 0.999 and 0.95.\<close>

definition CACHE_SIMILARITY_MIN :: f64 where
  "CACHE_SIMILARITY_MIN = 3602879701896397 / 4503599627370496"
definition CACHE_SIMILARITY_MAX :: f64 where
  "CACHE_SIMILARITY_MAX = 8998192055486251 / 9007199254740992"
definition CACHE_SIMILARITY_DEFAULT :: f64 where
  "CACHE_SIMILARITY_DEFAULT = 4278419646001971 / 4503599627370496"

datatype config_error_code = InvalidConfig | ConfigNotFound | ConfigTooLarge | InvalidMetadata

fun code_as_str :: "config_error_code \<Rightarrow> string" where
  "code_as_str InvalidConfig = ''invalid_config''"
| "code_as_str ConfigNotFound = ''config_not_found''"
| "code_as_str ConfigTooLarge = ''config_too_large''"
| "code_as_str InvalidMetadata = ''invalid_metadata''"

record config_error =
  ce_code :: config_error_code
  ce_param :: string

definition invalid :: "string \<Rightarrow> config_error" where
  "invalid param = \<lparr>ce_code = InvalidConfig, ce_param = param\<rparr>"

definition too_large :: "string \<Rightarrow> config_error" where
  "too_large param = \<lparr>ce_code = ConfigTooLarge, ce_param = param\<rparr>"

definition not_found :: config_error where
  "not_found = \<lparr>ce_code = ConfigNotFound, ce_param = ''/''\<rparr>"

definition metadata_error :: config_error where
  "metadata_error = \<lparr>ce_code = InvalidMetadata, ce_param = ''/''\<rparr>"

section \<open>Small typed parsers\<close>

definition parse_u32 :: "json \<Rightarrow> string \<Rightarrow> config_error + u32" where
  "parse_u32 v ptr =
     (case as_u64 v of
        Some n \<Rightarrow> if n \<le> 0xFFFFFFFF then Inr (ucast n) else Inl (invalid ptr)
      | None \<Rightarrow> Inl (invalid ptr))"

definition parse_positive_u64 :: "json \<Rightarrow> string \<Rightarrow> config_error + u64" where
  "parse_positive_u64 v ptr =
     (case as_u64 v of
        Some n \<Rightarrow> if 0 < n then Inr n else Inl (invalid ptr)
      | None \<Rightarrow> Inl (invalid ptr))"

definition reject_unknown :: "json_map \<Rightarrow> string list \<Rightarrow> string \<Rightarrow> config_error + unit" where
  "reject_unknown m allowed base_ptr =
     (case find (\<lambda>k. k \<notin> set allowed) (obj_keys m) of
        Some k \<Rightarrow> Inl (invalid (base_ptr @ ''/'' @ k))
      | None \<Rightarrow> Inr ())"

lemma parse_u32_Inr [result_simps]:
  "parse_u32 v ptr = Inr n \<longleftrightarrow> (\<exists>w. v = VNumber (PosInt w) \<and> w \<le> 0xFFFFFFFF \<and> n = ucast w)"
  by (auto simp: parse_u32_def as_u64_Some split: option.split)

lemma parse_positive_u64_Inr [result_simps]:
  "parse_positive_u64 v ptr = Inr n \<longleftrightarrow> v = VNumber (PosInt n) \<and> 0 < n"
  by (auto simp: parse_positive_u64_def as_u64_Some split: option.split)

lemma reject_unknown_Inr [result_simps]:
  "reject_unknown m allowed ptr = Inr u \<longleftrightarrow> set (obj_keys m) \<subseteq> set allowed"
  by (auto simp: reject_unknown_def find_None_iff find_Some_iff subset_iff split: option.split) (metis nth_mem)

section \<open>Strategies\<close>

datatype policy_strategy =
  Priority | Weighted | Cost | Latency | RoundRobin | LeastBusy | Conditional

definition policy_strategy_parse :: "string \<Rightarrow> string \<Rightarrow> config_error + policy_strategy" where
  "policy_strategy_parse value param =
     (let v = to_ascii_lowercase (trim value)
      in if v = ''priority'' then Inr Priority
         else if v = ''weighted'' then Inr Weighted
         else if v = ''cost'' then Inr Cost
         else if v = ''latency'' then Inr Latency
         else if v \<in> {''round_robin'', ''roundrobin'', ''round-robin''} then Inr RoundRobin
         else if v \<in> {''least_busy'', ''leastbusy'', ''least-busy''} then Inr LeastBusy
         else if v = ''conditional'' then Inr Conditional
         else Inl (invalid param))"

fun as_router_str :: "policy_strategy \<Rightarrow> string" where
  "as_router_str Priority = ''priority''"
| "as_router_str Conditional = ''priority''"
| "as_router_str Weighted = ''weighted''"
| "as_router_str Cost = ''cost''"
| "as_router_str Latency = ''latency''"
| "as_router_str RoundRobin = ''round_robin''"
| "as_router_str LeastBusy = ''least_busy''"

text \<open>A \<^verbatim>\<open>strategy\<close> member: a string, or an object with a \<^verbatim>\<open>mode\<close>.\<close>

definition parse_strategy :: "json option \<Rightarrow> string \<Rightarrow> config_error + policy_strategy" where
  "parse_strategy v ptr =
     (case v of
        None \<Rightarrow> Inr Priority
      | Some (VString s) \<Rightarrow> policy_strategy_parse s ptr
      | Some (VObject m) \<Rightarrow>
          and_then (reject_unknown m [''mode''] ptr) (\<lambda>_.
          and_then (ok_or (invalid (ptr @ ''/mode'')) (Option.bind (obj_get m ''mode'') as_str)) (\<lambda>mode.
          policy_strategy_parse mode (ptr @ ''/mode'')))
      | Some _ \<Rightarrow> Inl (invalid ptr))"

section \<open>Retry and backoff\<close>

record backoff =
  initial_ms :: u64
  max_ms :: u64
  jitter :: bool

definition backoff_default :: backoff where
  "backoff_default = \<lparr>initial_ms = 200, max_ms = 2000, jitter = True\<rparr>"

record retry_policy =
  attempts :: u32
  on_status :: "u16 set"
  backoff :: backoff

definition retry_policy_default :: retry_policy where
  "retry_policy_default =
     \<lparr>attempts = 0, on_status = set DEFAULT_RETRY_STATUS, backoff = backoff_default\<rparr>"

definition parse_bool :: "bool \<Rightarrow> json option \<Rightarrow> string \<Rightarrow> config_error + bool" where
  "parse_bool dflt v ptr =
     (case v of Some (VBool b) \<Rightarrow> Inr b | None \<Rightarrow> Inr dflt | Some _ \<Rightarrow> Inl (invalid ptr))"

definition parse_backoff :: "json \<Rightarrow> string \<Rightarrow> config_error + backoff" where
  "parse_backoff v ptr =
     and_then (ok_or (invalid ptr) (as_object v)) (\<lambda>obj.
     and_then (reject_unknown obj [''initial_ms'', ''max_ms'', ''jitter''] ptr) (\<lambda>_.
     and_then (try_or (initial_ms backoff_default) (\<lambda>v. parse_positive_u64 v (ptr @ ''/initial_ms''))
       (obj_get obj ''initial_ms'')) (\<lambda>i.
     and_then (ensure (BACKOFF_INITIAL_MIN_MS \<le> i \<and> i \<le> BACKOFF_INITIAL_MAX_MS)
       (invalid (ptr @ ''/initial_ms''))) (\<lambda>_.
     and_then (try_or (max (max_ms backoff_default) i) (\<lambda>v. parse_positive_u64 v (ptr @ ''/max_ms''))
       (obj_get obj ''max_ms'')) (\<lambda>m.
     and_then (ensure (m \<le> BACKOFF_MAX_CAP_MS) (invalid (ptr @ ''/max_ms''))) (\<lambda>_.
     and_then (ensure (i \<le> m) (invalid (ptr @ ''/max_ms''))) (\<lambda>_.
     and_then (parse_bool True (obj_get obj ''jitter'') (ptr @ ''/jitter'')) (\<lambda>j.
     Inr \<lparr>initial_ms = i, max_ms = m, jitter = j\<rparr>))))))))"

text \<open>An entry of \<^verbatim>\<open>on_status\<close>: the integer is cast to \<^verbatim>\<open>u16\<close> before the allow-list is read.\<close>

definition parse_status :: "string \<Rightarrow> nat \<Rightarrow> json \<Rightarrow> config_error + u16" where
  "parse_status ptr i code =
     and_then (ok_or (invalid (ptr @ ''/on_status/'' @ show_nat i)) (as_u64 code)) (\<lambda>n.
     let c = ucast n
     in if c \<notin> set ALLOWED_RETRY_STATUS then Inl (invalid (ptr @ ''/on_status/'' @ show_nat i))
        else Inr c)"

definition parse_on_status :: "json option \<Rightarrow> string \<Rightarrow> config_error + u16 set" where
  "parse_on_status v ptr =
     (case v of
        None \<Rightarrow> Inr (set DEFAULT_RETRY_STATUS)
      | Some (VArray arr) \<Rightarrow> map_sum id set (try_each (parse_status ptr) 0 arr)
      | Some _ \<Rightarrow> Inl (invalid (ptr @ ''/on_status'')))"

definition parse_retry :: "json \<Rightarrow> string \<Rightarrow> config_error + retry_policy" where
  "parse_retry v ptr =
     and_then (ok_or (invalid ptr) (as_object v)) (\<lambda>obj.
     and_then (reject_unknown obj [''attempts'', ''on_status'', ''backoff''] ptr) (\<lambda>_.
     and_then (try_or 1 (\<lambda>v. parse_u32 v (ptr @ ''/attempts'')) (obj_get obj ''attempts'')) (\<lambda>n.
     and_then (ensure (n \<le> MAX_RETRY_ATTEMPTS) (invalid (ptr @ ''/attempts''))) (\<lambda>_.
     and_then (parse_on_status (obj_get obj ''on_status'') ptr) (\<lambda>sts.
     and_then (try_or backoff_default (\<lambda>v. parse_backoff v (ptr @ ''/backoff'')) (obj_get obj ''backoff'')) (\<lambda>b.
     Inr \<lparr>attempts = n, on_status = sts, backoff = b\<rparr>))))))"

section \<open>Hedging\<close>

record hedge_policy =
  hedge_delay :: u64
  max_extra :: "8 word"

definition parse_hedge :: "json \<Rightarrow> string \<Rightarrow> config_error + hedge_policy" where
  "parse_hedge v ptr =
     and_then (ok_or (invalid ptr) (as_object v)) (\<lambda>obj.
     and_then (reject_unknown obj [''delay_ms'', ''max''] ptr) (\<lambda>_.
     and_then (case obj_get obj ''delay_ms'' of
         Some v \<Rightarrow> parse_positive_u64 v (ptr @ ''/delay_ms'')
       | None \<Rightarrow> Inl (invalid (ptr @ ''/delay_ms''))) (\<lambda>d.
     and_then (ensure (HEDGE_DELAY_MIN_MS \<le> d \<and> d \<le> HEDGE_DELAY_MAX_MS) (invalid (ptr @ ''/delay_ms''))) (\<lambda>_.
     and_then (case obj_get obj ''max'' of
         Some v \<Rightarrow>
           and_then (parse_u32 v (ptr @ ''/max'')) (\<lambda>n.
           and_then (ensure (n \<noteq> 0) (invalid (ptr @ ''/max''))) (\<lambda>_.
           and_then (ensure (n \<le> ucast HEDGE_MAX_EXTRA) (invalid (ptr @ ''/max''))) (\<lambda>_.
           Inr (ucast n))))
       | None \<Rightarrow> Inr 1) (\<lambda>e.
     Inr \<lparr>hedge_delay = d, max_extra = e\<rparr>)))))"

section \<open>Parameter shaping\<close>

record param_shaping =
  sh_default :: json_map
  sh_overrides :: json_map
  sh_drop :: "string list"

definition shaping_default :: param_shaping where
  "shaping_default = \<lparr>sh_default = [], sh_overrides = [], sh_drop = []\<rparr>"

definition shaping_is_noop :: "param_shaping \<Rightarrow> bool" where
  "shaping_is_noop p \<longleftrightarrow> sh_default p = [] \<and> sh_overrides p = [] \<and> sh_drop p = []"

definition pinned_model :: "param_shaping \<Rightarrow> string option" where
  "pinned_model p = Option.bind (obj_get (sh_overrides p) ''model'') as_str"

definition check_allowlisted :: "string \<Rightarrow> string \<Rightarrow> config_error + unit" where
  "check_allowlisted key ptr = (if key \<in> set PARAM_ALLOWLIST then Inr () else Inl (invalid ptr))"

definition parse_param_map :: "json option \<Rightarrow> string \<Rightarrow> config_error + json_map" where
  "parse_param_map v ptr =
     (case v of
        None \<Rightarrow> Inr []
      | Some (VObject m) \<Rightarrow>
          and_then (try_each (\<lambda>_ k. check_allowlisted k (ptr @ ''/'' @ k)) 0 (obj_keys m)) (\<lambda>_. Inr m)
      | Some _ \<Rightarrow> Inl (invalid ptr))"

definition parse_drop :: "json option \<Rightarrow> string \<Rightarrow> config_error + string list" where
  "parse_drop v ptr =
     (case v of
        None \<Rightarrow> Inr []
      | Some (VArray arr) \<Rightarrow>
          try_each (\<lambda>i k.
            and_then (ok_or (invalid (ptr @ ''/drop/'' @ show_nat i)) (as_str k)) (\<lambda>key.
            and_then (check_allowlisted key (ptr @ ''/drop/'' @ show_nat i)) (\<lambda>_. Inr key))) 0 arr
      | Some _ \<Rightarrow> Inl (invalid (ptr @ ''/drop'')))"

definition parse_params :: "json \<Rightarrow> string \<Rightarrow> config_error + param_shaping" where
  "parse_params v ptr =
     and_then (ok_or (invalid ptr) (as_object v)) (\<lambda>obj.
     and_then (reject_unknown obj [''default'', ''override'', ''drop''] ptr) (\<lambda>_.
     and_then (parse_param_map (obj_get obj ''default'') (ptr @ ''/default'')) (\<lambda>dflt.
     and_then (parse_param_map (obj_get obj ''override'') (ptr @ ''/override'')) (\<lambda>overrides.
     and_then (parse_drop (obj_get obj ''drop'') ptr) (\<lambda>drops.
     and_then (ensure (\<forall>k\<in>set drops. obj_get overrides k = None) (invalid (ptr @ ''/drop''))) (\<lambda>_.
     Inr \<lparr>sh_default = dflt, sh_overrides = overrides, sh_drop = drops\<rparr>))))))"

section \<open>The cache directive\<close>

datatype cache_mode = Simple | Semantic

record cache_directive =
  cd_mode :: cache_mode
  cd_ttl_seconds :: u64
  cd_namespace :: string
  cd_force_refresh :: bool
  cd_similarity_threshold :: "f64 option"
  cd_max_response_bytes :: u64

definition is_valid_cache_namespace :: "string \<Rightarrow> bool" where
  "is_valid_cache_namespace s \<longleftrightarrow>
     s \<noteq> [] \<and> length s \<le> 64 \<and>
     list_all (\<lambda>b. is_ascii_lowercase b \<or> is_ascii_digit b \<or> b = CHR ''_'' \<or> b = CHR ''-'') s"

definition parse_cache_mode :: "json option \<Rightarrow> string \<Rightarrow> config_error + cache_mode" where
  "parse_cache_mode v ptr =
     (case v of
        Some (VString s) \<Rightarrow>
          if s = ''simple'' then Inr Simple else if s = ''semantic'' then Inr Semantic
          else Inl (invalid (ptr @ ''/mode''))
      | Some _ \<Rightarrow> Inl (invalid (ptr @ ''/mode''))
      | None \<Rightarrow> Inl (invalid (ptr @ ''/mode'')))"

definition parse_ttl :: "json option \<Rightarrow> string \<Rightarrow> config_error + u64" where
  "parse_ttl v ptr =
     try_or CACHE_TTL_DEFAULT_SECONDS (\<lambda>v.
       and_then (parse_positive_u64 v (ptr @ ''/ttl_seconds'')) (\<lambda>n.
       if CACHE_TTL_MIN_SECONDS \<le> n \<and> n \<le> CACHE_TTL_MAX_SECONDS then Inr n
       else Inl (invalid (ptr @ ''/ttl_seconds'')))) v"

definition parse_namespace :: "json option \<Rightarrow> string \<Rightarrow> config_error + string" where
  "parse_namespace v ptr =
     (case v of
        Some (VString s) \<Rightarrow>
          if \<not> is_valid_cache_namespace s then Inl (invalid (ptr @ ''/namespace'')) else Inr s
      | Some _ \<Rightarrow> Inl (invalid (ptr @ ''/namespace''))
      | None \<Rightarrow> Inr ''default'')"

definition parse_similarity :: "cache_mode \<Rightarrow> json option \<Rightarrow> string \<Rightarrow> config_error + f64 option" where
  "parse_similarity mode v ptr =
     (case v of
        Some v \<Rightarrow>
          if mode \<noteq> Semantic then Inl (invalid (ptr @ ''/similarity_threshold''))
          else
            and_then (ok_or (invalid (ptr @ ''/similarity_threshold'')) (as_f64 v)) (\<lambda>f.
            if CACHE_SIMILARITY_MIN \<le> f \<and> f \<le> CACHE_SIMILARITY_MAX then Inr (Some f)
            else Inl (invalid (ptr @ ''/similarity_threshold'')))
      | None \<Rightarrow> Inr (if mode = Semantic then Some CACHE_SIMILARITY_DEFAULT else None))"

definition parse_max_bytes :: "json option \<Rightarrow> string \<Rightarrow> config_error + u64" where
  "parse_max_bytes v ptr =
     try_or CACHE_MAX_RESPONSE_BYTES_CAP (\<lambda>v.
       and_then (parse_positive_u64 v (ptr @ ''/max_response_bytes'')) (\<lambda>n.
       if CACHE_MAX_RESPONSE_BYTES_CAP < n then Inl (invalid (ptr @ ''/max_response_bytes'')) else Inr n)) v"

definition parse_cache_directive :: "json \<Rightarrow> string \<Rightarrow> config_error + cache_directive" where
  "parse_cache_directive v ptr =
     and_then (ok_or (invalid ptr) (as_object v)) (\<lambda>obj.
     and_then (reject_unknown obj
       [''mode'', ''ttl_seconds'', ''namespace'', ''force_refresh'', ''similarity_threshold'',
        ''max_response_bytes''] ptr) (\<lambda>_.
     and_then (parse_cache_mode (obj_get obj ''mode'') ptr) (\<lambda>mode.
     and_then (parse_ttl (obj_get obj ''ttl_seconds'') ptr) (\<lambda>ttl.
     and_then (parse_namespace (obj_get obj ''namespace'') ptr) (\<lambda>ns.
     and_then (parse_bool False (obj_get obj ''force_refresh'') (ptr @ ''/force_refresh'')) (\<lambda>fr.
     and_then (parse_similarity mode (obj_get obj ''similarity_threshold'') ptr) (\<lambda>sim.
     and_then (parse_max_bytes (obj_get obj ''max_response_bytes'') ptr) (\<lambda>mb.
     Inr \<lparr>cd_mode = mode, cd_ttl_seconds = ttl, cd_namespace = ns, cd_force_refresh = fr,
          cd_similarity_threshold = sim, cd_max_response_bytes = mb\<rparr>))))))))"

section \<open>Targets\<close>

record leaf =
  lf_name :: "string option"
  lf_provider :: string
  lf_weight :: "u32 option"
  lf_cost :: "u32 option"
  lf_timeout_ms :: "u64 option"
  lf_retry :: "retry_policy option"
  lf_params :: param_shaping

record pool =
  pl_name :: "string option"
  pl_strategy :: policy_strategy
  pl_leaves :: "leaf list"

datatype node = Leaf leaf | Pool pool

fun node_name :: "node \<Rightarrow> string option" where
  "node_name (Leaf l) = lf_name l"
| "node_name (Pool p) = pl_name p"

fun node_leaves :: "node \<Rightarrow> leaf list" where
  "node_leaves (Leaf l) = [l]"
| "node_leaves (Pool p) = pl_leaves p"

definition parse_leaf :: "json_map \<Rightarrow> string \<Rightarrow> config_error + leaf" where
  "parse_leaf obj ptr =
     and_then (reject_unknown obj
       [''name'', ''provider'', ''weight'', ''cost'', ''timeout_ms'', ''retry'', ''params''] ptr) (\<lambda>_.
     and_then (case Option.bind (obj_get obj ''provider'') as_str of
         Some s \<Rightarrow> if s \<noteq> [] then Inr s else Inl (invalid ptr)
       | None \<Rightarrow> Inl (invalid ptr)) (\<lambda>provider.
     and_then (try_opt (\<lambda>v. parse_u32 v (ptr @ ''/weight'')) (obj_get obj ''weight'')) (\<lambda>weight.
     and_then (try_opt (\<lambda>v. parse_u32 v (ptr @ ''/cost'')) (obj_get obj ''cost'')) (\<lambda>cost.
     and_then (try_opt (\<lambda>v. parse_positive_u64 v (ptr @ ''/timeout_ms'')) (obj_get obj ''timeout_ms'')) (\<lambda>timeout.
     and_then (try_opt (\<lambda>v. parse_retry v (ptr @ ''/retry'')) (obj_get obj ''retry'')) (\<lambda>retry.
     and_then (try_or shaping_default (\<lambda>v. parse_params v (ptr @ ''/params'')) (obj_get obj ''params'')) (\<lambda>params.
     Inr \<lparr>lf_name = Option.bind (obj_get obj ''name'') as_str, lf_provider = provider, lf_weight = weight,
          lf_cost = cost, lf_timeout_ms = timeout, lf_retry = retry, lf_params = params\<rparr>)))))))"

definition leaf_of_node :: "string \<Rightarrow> nat \<Rightarrow> node \<Rightarrow> config_error + leaf" where
  "leaf_of_node ptr i n =
     (case n of Leaf l \<Rightarrow> Inr l | Pool _ \<Rightarrow> Inl (invalid (ptr @ ''/targets/'' @ show_nat i)))"

function parse_node :: "json \<Rightarrow> string \<Rightarrow> nat \<Rightarrow> config_error + node" where
  "parse_node v ptr depth =
     (case as_object v of
        None \<Rightarrow> Inl (invalid ptr)
      | Some obj \<Rightarrow>
          let is_leaf = obj_get obj ''provider'' \<noteq> None; is_nested = obj_get obj ''targets'' \<noteq> None
          in if is_leaf \<and> is_nested then Inl (invalid ptr)
             else if is_nested then
               if MAX_NESTING_DEPTH \<le> depth then Inl (invalid ptr)
               else
                 and_then (reject_unknown obj [''name'', ''strategy'', ''targets''] ptr) (\<lambda>_.
                 and_then (parse_strategy (obj_get obj ''strategy'') (ptr @ ''/strategy'')) (\<lambda>strategy.
                 and_then (ensure (strategy \<noteq> Conditional) (invalid (ptr @ ''/strategy''))) (\<lambda>_.
                 and_then (ok_or (invalid (ptr @ ''/targets'')) (Option.bind (obj_get obj ''targets'') as_array)) (\<lambda>children.
                 and_then (ensure (children \<noteq> []) (invalid (ptr @ ''/targets''))) (\<lambda>_.
                 and_then (ensure (length children \<le> MAX_TARGETS_PER_LEVEL) (invalid (ptr @ ''/targets''))) (\<lambda>_.
                 and_then (try_each (\<lambda>i c.
                     and_then (parse_node c (ptr @ ''/targets/'' @ show_nat i) (depth + 1)) (leaf_of_node ptr i))
                   0 children) (\<lambda>leaves.
                 Inr (Pool \<lparr>pl_name = Option.bind (obj_get obj ''name'') as_str, pl_strategy = strategy,
                            pl_leaves = leaves\<rparr>))))))))
             else and_then (parse_leaf obj ptr) (\<lambda>l. Inr (Leaf l)))"
  by pat_completeness auto
termination
  by (relation "measure (\<lambda>(v, ptr, depth). MAX_NESTING_DEPTH - depth)") auto

declare parse_node.simps [simp del]

section \<open>Conditions\<close>

record condition =
  cn_when :: json_map
  cn_target :: string

definition validate_path :: "string \<Rightarrow> string \<Rightarrow> config_error + unit" where
  "validate_path path ptr =
     (if prefix ''params.'' path then
        (if drop (length ''params.'') path \<notin> set CONDITION_PARAM_FIELDS then Inl (invalid ptr) else Inr ())
      else if prefix ''metadata.'' path then Inr ()
      else Inl (invalid ptr))"

definition validate_op :: "string \<Rightarrow> string \<times> json \<Rightarrow> config_error + unit" where
  "validate_op pptr = (\<lambda>(op, val).
     let optr = pptr @ ''/'' @ op
     in if op = ''eq'' \<or> op = ''ne'' then Inr ()
        else if op = ''in'' \<or> op = ''nin'' then ensure (as_array val \<noteq> None) (invalid optr)
        else if op \<in> {''gt'', ''gte'', ''lt'', ''lte''} then ensure (is_number val) (invalid optr)
        else if op = ''exists'' then ensure (as_bool val \<noteq> None) (invalid optr)
        else Inl (invalid optr))"

definition validate_clause :: "string \<Rightarrow> string \<times> json \<Rightarrow> config_error + unit" where
  "validate_clause ptr = (\<lambda>(path, spec).
     let pptr = ptr @ ''/'' @ path
     in and_then (validate_path path pptr) (\<lambda>_.
        and_then (ok_or (invalid pptr) (as_object spec)) (\<lambda>ops.
        and_then (try_each (\<lambda>_. validate_op pptr) 0 ops) (\<lambda>_. Inr ()))))"

definition validate_when :: "json_map \<Rightarrow> string \<Rightarrow> config_error + unit" where
  "validate_when w ptr = and_then (try_each (\<lambda>_. validate_clause ptr) 0 w) (\<lambda>_. Inr ())"

definition parse_condition :: "string \<Rightarrow> nat \<Rightarrow> json \<Rightarrow> config_error + condition" where
  "parse_condition ptr i c =
     (let cptr = ptr @ ''/'' @ show_nat i
      in and_then (ok_or (invalid cptr) (as_object c)) (\<lambda>obj.
         and_then (reject_unknown obj [''when'', ''target''] cptr) (\<lambda>_.
         and_then (ok_or (invalid (cptr @ ''/target'')) (Option.bind (obj_get obj ''target'') as_str)) (\<lambda>target.
         and_then (ok_or (invalid (cptr @ ''/when'')) (Option.bind (obj_get obj ''when'') as_object)) (\<lambda>w.
         and_then (ensure (length w \<le> MAX_CLAUSES_PER_CONDITION) (invalid (cptr @ ''/when''))) (\<lambda>_.
         and_then (validate_when w (cptr @ ''/when'')) (\<lambda>_.
         Inr \<lparr>cn_when = w, cn_target = target\<rparr>)))))))"

definition parse_conditions :: "json \<Rightarrow> string \<Rightarrow> config_error + condition list" where
  "parse_conditions v ptr =
     and_then (ok_or (invalid ptr) (as_array v)) (\<lambda>arr.
     and_then (ensure (length arr \<le> MAX_CONDITIONS) (invalid ptr)) (\<lambda>_.
     try_each (parse_condition ptr) 0 arr))"

section \<open>Routing configurations\<close>

datatype config_ref = Inline | Saved string

record routing_config =
  rc_strategy :: policy_strategy
  rc_targets :: "node list"
  rc_conditions :: "condition list"
  rc_default_target :: "string option"
  rc_config_retry :: retry_policy
  rc_timeout_ms :: "u64 option"
  rc_config_ref :: config_ref
  rc_cache :: "cache_directive option"
  rc_hedge :: "hedge_policy option"

definition config_ref_label :: "routing_config \<Rightarrow> string" where
  "config_ref_label cfg = (case rc_config_ref cfg of Inline \<Rightarrow> ''inline'' | Saved _ \<Rightarrow> ''saved'')"

definition target_models :: "routing_config \<Rightarrow> string option list" where
  "target_models cfg = concat (map (\<lambda>n. map (\<lambda>l. pinned_model (lf_params l)) (node_leaves n)) (rc_targets cfg))"

text \<open>The loop over the top-level names of \<^verbatim>\<open>validate_conditional\<close>.\<close>

fun collect_names :: "nat \<Rightarrow> string set \<Rightarrow> node list \<Rightarrow> config_error + string set" where
  "collect_names i names [] = Inr names"
| "collect_names i names (n # ns) =
     (case node_name n of
        None \<Rightarrow> Inl (invalid (''/targets/'' @ show_nat i))
      | Some name \<Rightarrow>
          if name \<in> names then Inl (invalid (''/targets/'' @ show_nat i @ ''/name''))
          else collect_names (Suc i) (insert name names) ns)"

definition validate_conditional :: "routing_config \<Rightarrow> config_error + unit" where
  "validate_conditional cfg =
     (if rc_strategy cfg \<noteq> Conditional then Inr ()
      else
        and_then (collect_names 0 {} (rc_targets cfg)) (\<lambda>names.
        and_then (ok_or (invalid ''/default_target'') (rc_default_target cfg)) (\<lambda>dflt.
        and_then (ensure (dflt \<in> names) (invalid ''/default_target'')) (\<lambda>_.
        and_then (try_each (\<lambda>i c. ensure (cn_target c \<in> names)
          (invalid (''/conditions/'' @ show_nat i @ ''/target''))) 0 (rc_conditions cfg)) (\<lambda>_.
        Inr ())))))"

definition routing_config_parse :: "json \<Rightarrow> config_ref \<Rightarrow> config_error + routing_config" where
  "routing_config_parse routing ref =
     and_then (ok_or (invalid ''/'') (as_object routing)) (\<lambda>obj.
     and_then (reject_unknown obj
       [''strategy'', ''targets'', ''conditions'', ''default_target'', ''retry'', ''timeout_ms'', ''cache'', ''hedge'']
       '''') (\<lambda>_.
     and_then (parse_strategy (obj_get obj ''strategy'') ''/strategy'') (\<lambda>strategy.
     and_then (try_opt (\<lambda>v. parse_cache_directive v ''/cache'') (obj_get obj ''cache'')) (\<lambda>cache.
     and_then (try_or retry_policy_default (\<lambda>v. parse_retry v ''/retry'') (obj_get obj ''retry'')) (\<lambda>config_retry.
     and_then (try_opt (\<lambda>v. parse_positive_u64 v ''/timeout_ms'') (obj_get obj ''timeout_ms'')) (\<lambda>timeout.
     and_then (try_opt (\<lambda>v. parse_hedge v ''/hedge'') (obj_get obj ''hedge'')) (\<lambda>hedge.
     and_then (ok_or (invalid ''/targets'') (Option.bind (obj_get obj ''targets'') as_array)) (\<lambda>targets_val.
     and_then (ensure (targets_val \<noteq> []) (invalid ''/targets'')) (\<lambda>_.
     and_then (ensure (length targets_val \<le> MAX_TARGETS_PER_LEVEL) (invalid ''/targets'')) (\<lambda>_.
     and_then (try_each (\<lambda>i t. parse_node t (''/targets/'' @ show_nat i) 1) 0 targets_val) (\<lambda>targets.
     and_then (ensure (sum_list (map (\<lambda>n. length (node_leaves n)) targets) \<le> MAX_FLATTENED_TARGETS)
       (invalid ''/targets'')) (\<lambda>_.
     and_then (try_or [] (\<lambda>v. parse_conditions v ''/conditions'') (obj_get obj ''conditions'')) (\<lambda>conditions.
     let cfg = \<lparr>rc_strategy = strategy, rc_targets = targets, rc_conditions = conditions,
                rc_default_target = Option.bind (obj_get obj ''default_target'') as_str,
                rc_config_retry = config_retry, rc_timeout_ms = timeout, rc_config_ref = ref,
                rc_cache = cache, rc_hedge = hedge\<rparr>
     in and_then (validate_conditional cfg) (\<lambda>_. Inr cfg))))))))))))))"

section \<open>Well-formed configurations\<close>

definition backoff_ok :: "backoff \<Rightarrow> bool" where
  "backoff_ok b \<longleftrightarrow> 1 \<le> initial_ms b \<and> initial_ms b \<le> 10000 \<and> initial_ms b \<le> max_ms b \<and> max_ms b \<le> 30000"

definition retry_ok :: "retry_policy \<Rightarrow> bool" where
  "retry_ok r \<longleftrightarrow> attempts r \<le> 5 \<and> on_status r \<subseteq> set ALLOWED_RETRY_STATUS \<and> backoff_ok (backoff r)"

definition hedge_ok :: "hedge_policy \<Rightarrow> bool" where
  "hedge_ok h \<longleftrightarrow> 1 \<le> hedge_delay h \<and> hedge_delay h \<le> 60000 \<and> max_extra h \<in> {1, 2}"

definition shaping_ok :: "param_shaping \<Rightarrow> bool" where
  "shaping_ok p \<longleftrightarrow>
     set (obj_keys (sh_default p)) \<union> set (obj_keys (sh_overrides p)) \<union> set (sh_drop p) \<subseteq> set PARAM_ALLOWLIST \<and>
     set (obj_keys (sh_overrides p)) \<inter> set (sh_drop p) = {}"

definition cache_ok :: "cache_directive \<Rightarrow> bool" where
  "cache_ok d \<longleftrightarrow>
     10 \<le> cd_ttl_seconds d \<and> cd_ttl_seconds d \<le> 86400 \<and> is_valid_cache_namespace (cd_namespace d) \<and>
     0 < cd_max_response_bytes d \<and> cd_max_response_bytes d \<le> 262144 \<and>
     (case cd_similarity_threshold d of
        None \<Rightarrow> cd_mode d = Simple
      | Some f \<Rightarrow> cd_mode d = Semantic \<and> CACHE_SIMILARITY_MIN \<le> f \<and> f \<le> CACHE_SIMILARITY_MAX)"

definition leaf_ok :: "leaf \<Rightarrow> bool" where
  "leaf_ok l \<longleftrightarrow> lf_provider l \<noteq> [] \<and> lf_timeout_ms l \<noteq> Some 0 \<and>
     (\<forall>r. lf_retry l = Some r \<longrightarrow> retry_ok r) \<and> shaping_ok (lf_params l)"

fun node_ok :: "node \<Rightarrow> bool" where
  "node_ok (Leaf l) = leaf_ok l"
| "node_ok (Pool p) \<longleftrightarrow> pl_strategy p \<noteq> Conditional \<and> pl_leaves p \<noteq> [] \<and> length (pl_leaves p) \<le> 16 \<and>
     (\<forall>l\<in>set (pl_leaves p). leaf_ok l)"

definition conditional_ok :: "routing_config \<Rightarrow> bool" where
  "conditional_ok cfg \<longleftrightarrow> (rc_strategy cfg = Conditional \<longrightarrow>
     (\<exists>names. map node_name (rc_targets cfg) = map Some names \<and> distinct names \<and>
       (\<exists>d. rc_default_target cfg = Some d \<and> d \<in> set names) \<and>
       (\<forall>c\<in>set (rc_conditions cfg). cn_target c \<in> set names)))"

definition config_ok :: "routing_config \<Rightarrow> bool" where
  "config_ok cfg \<longleftrightarrow>
     rc_targets cfg \<noteq> [] \<and> length (rc_targets cfg) \<le> 16 \<and> (\<forall>n\<in>set (rc_targets cfg). node_ok n) \<and>
     sum_list (map (\<lambda>n. length (node_leaves n)) (rc_targets cfg)) \<le> 32 \<and>
     length (rc_conditions cfg) \<le> 16 \<and> (\<forall>c\<in>set (rc_conditions cfg). length (cn_when c) \<le> 8) \<and>
     retry_ok (rc_config_retry cfg) \<and> rc_timeout_ms cfg \<noteq> Some 0 \<and>
     (\<forall>d. rc_cache cfg = Some d \<longrightarrow> cache_ok d) \<and> (\<forall>h. rc_hedge cfg = Some h \<longrightarrow> hedge_ok h) \<and>
     conditional_ok cfg"

lemmas policy_bounds = MAX_TARGETS_PER_LEVEL_def MAX_FLATTENED_TARGETS_def MAX_CONDITIONS_def
  MAX_CLAUSES_PER_CONDITION_def MAX_RETRY_ATTEMPTS_def MAX_NESTING_DEPTH_def
  BACKOFF_INITIAL_MIN_MS_def BACKOFF_INITIAL_MAX_MS_def BACKOFF_MAX_CAP_MS_def
  HEDGE_DELAY_MIN_MS_def HEDGE_DELAY_MAX_MS_def HEDGE_MAX_EXTRA_def
  CACHE_TTL_MIN_SECONDS_def CACHE_TTL_MAX_SECONDS_def CACHE_TTL_DEFAULT_SECONDS_def
  CACHE_MAX_RESPONSE_BYTES_CAP_def

lemma parse_backoff_ok: "parse_backoff v ptr = Inr b \<Longrightarrow> backoff_ok b"
  by (auto simp: parse_backoff_def result_simps backoff_ok_def policy_bounds simp del: split_paired_Ex)

lemma backoff_default_ok: "backoff_ok backoff_default"
  by (simp add: backoff_ok_def backoff_default_def)

lemma parse_status_ok: "parse_status ptr i code = Inr c \<Longrightarrow> c \<in> set ALLOWED_RETRY_STATUS"
  by (auto simp: parse_status_def result_simps Let_def split: if_splits)

lemma parse_on_status_ok: "parse_on_status v ptr = Inr s \<Longrightarrow> s \<subseteq> set ALLOWED_RETRY_STATUS"
proof -
  assume a: "parse_on_status v ptr = Inr s"
  have "set DEFAULT_RETRY_STATUS \<subseteq> set ALLOWED_RETRY_STATUS"
    by (simp add: DEFAULT_RETRY_STATUS_def ALLOWED_RETRY_STATUS_def)
  moreover have "s \<subseteq> set ALLOWED_RETRY_STATUS"
    if m: "map_sum id set (try_each (parse_status ptr) 0 arr) = Inr s" for arr
  proof -
    obtain cs where cs: "try_each (parse_status ptr) 0 arr = Inr cs" "s = set cs"
      using m by (cases "try_each (parse_status ptr) 0 arr") auto
    have "\<forall>c\<in>set cs. c \<in> set ALLOWED_RETRY_STATUS"
      by (rule try_each_all [OF cs(1)]) (rule parse_status_ok)
    then show ?thesis using cs(2) by blast
  qed
  ultimately show ?thesis
    using a by (cases v rule: option.exhaust; cases "the v") (simp_all add: parse_on_status_def)
qed

lemma parse_retry_ok: "parse_retry v ptr = Inr r \<Longrightarrow> retry_ok r"
  by (auto simp: parse_retry_def and_then_Inr ensure_Inr retry_ok_def policy_bounds
      dest!: parse_on_status_ok elim!: try_or_cases intro: backoff_default_ok parse_backoff_ok)

lemma retry_default_ok: "retry_ok retry_policy_default"
  by (simp add: retry_ok_def retry_policy_default_def backoff_default_ok DEFAULT_RETRY_STATUS_def ALLOWED_RETRY_STATUS_def)

lemma parse_hedge_ok: "parse_hedge v ptr = Inr h \<Longrightarrow> hedge_ok h"
proof -
  have small: "ucast n \<in> {1, 2 :: 8 word}" if "n \<noteq> 0" "n \<le> (2 :: u32)" for n
  proof -
    have "unat n \<noteq> 0" "unat n \<le> 2" using that by (simp_all add: word_le_nat_alt unat_eq_zero)
    then have "unat n = 1 \<or> unat n = 2" by linarith
    moreover have "n = of_nat (unat n)" by simp
    ultimately have "n = 1 \<or> n = 2" by (metis of_nat_1 of_nat_numeral)
    then show ?thesis by auto
  qed
  assume "parse_hedge v ptr = Inr h"
  then show ?thesis
    by (auto simp: parse_hedge_def and_then_Inr ensure_Inr hedge_ok_def policy_bounds split: option.splits)
      (use small in blast)
qed

lemma check_allowlisted_Inr: "check_allowlisted k ptr = Inr u \<longleftrightarrow> k \<in> set PARAM_ALLOWLIST"
  by (simp add: check_allowlisted_def)

lemma parse_param_map_keys: "parse_param_map v ptr = Inr m \<Longrightarrow> set (obj_keys m) \<subseteq> set PARAM_ALLOWLIST"
proof -
  have each: "set ks \<subseteq> set PARAM_ALLOWLIST"
    if "try_each (\<lambda>_ k. check_allowlisted k (ptr @ ''/'' @ k)) i ks = Inr us" for i ks us
    using try_each_all2 [OF that, of "\<lambda>k _. k \<in> set PARAM_ALLOWLIST"]
    by (auto simp: check_allowlisted_Inr list_all2_conv_all_nth in_set_conv_nth)
  assume "parse_param_map v ptr = Inr m"
  then show ?thesis
    using each [of 0 "obj_keys m"]
    by (auto simp: parse_param_map_def and_then_Inr split: option.splits json.splits)
       (auto simp: obj_keys_def)
qed

lemma parse_drop_keys: "parse_drop v ptr = Inr ds \<Longrightarrow> set ds \<subseteq> set PARAM_ALLOWLIST"
  by (auto simp: parse_drop_def and_then_Inr check_allowlisted_Inr split: option.splits json.splits
      dest!: try_each_all [where P = "\<lambda>k. k \<in> set PARAM_ALLOWLIST"])

lemma parse_params_ok: "parse_params v ptr = Inr p \<Longrightarrow> shaping_ok p"
  by (auto simp: parse_params_def and_then_Inr ensure_Inr shaping_ok_def obj_get_None
      dest!: parse_param_map_keys parse_drop_keys)

lemma shaping_default_ok: "shaping_ok shaping_default"
  by (simp add: shaping_ok_def shaping_default_def obj_keys_def)

lemma parse_cache_ok: "parse_cache_directive v ptr = Inr d \<Longrightarrow> cache_ok d"
proof -
  have ttl: "10 \<le> n \<and> n \<le> 86400" if "parse_ttl v ptr = Inr n" for v n
    using that by (auto simp: parse_ttl_def and_then_Inr policy_bounds split: if_splits elim!: try_or_cases)
  have ns: "is_valid_cache_namespace n" if "parse_namespace v ptr = Inr n" for v n
  proof -
    have "is_valid_cache_namespace ''default''"
      by (simp add: is_valid_cache_namespace_def is_ascii_lowercase_def)
    then show ?thesis using that by (auto simp: parse_namespace_def split: option.splits json.splits if_splits)
  qed
  have mb: "0 < n \<and> n \<le> 262144" if "parse_max_bytes v ptr = Inr n" for v n
    using that by (auto simp: parse_max_bytes_def and_then_Inr parse_positive_u64_Inr policy_bounds not_less word_gt_0
        split: if_splits elim!: try_or_cases)
  have sim: "case r of None \<Rightarrow> mode = Simple
      | Some f \<Rightarrow> mode = Semantic \<and> CACHE_SIMILARITY_MIN \<le> f \<and> f \<le> CACHE_SIMILARITY_MAX"
    if "parse_similarity mode v ptr = Inr r" for mode v r
  proof -
    have "CACHE_SIMILARITY_MIN \<le> CACHE_SIMILARITY_DEFAULT \<and> CACHE_SIMILARITY_DEFAULT \<le> CACHE_SIMILARITY_MAX"
      by (simp add: CACHE_SIMILARITY_MIN_def CACHE_SIMILARITY_DEFAULT_def CACHE_SIMILARITY_MAX_def)
    then show ?thesis
      using that by (cases mode) (auto simp: parse_similarity_def and_then_Inr split: option.splits if_splits)
  qed
  assume "parse_cache_directive v ptr = Inr d"
  then obtain mode ttl' ns' fr sim' mb' where
      "parse_ttl ttl' ptr = Inr (cd_ttl_seconds d)" "parse_namespace ns' ptr = Inr (cd_namespace d)"
      "parse_similarity (cd_mode d) sim' ptr = Inr (cd_similarity_threshold d)"
      "parse_max_bytes mb' ptr = Inr (cd_max_response_bytes d)"
    by (fastforce simp: parse_cache_directive_def and_then_Inr)
  then show ?thesis using ttl ns sim mb unfolding cache_ok_def by blast
qed

lemma try_opt_retry_ok: "try_opt (\<lambda>v. parse_retry v q) m = Inr r \<Longrightarrow> r = Some x \<Longrightarrow> retry_ok x"
  by (auto simp: try_opt_Inr split: option.splits intro: parse_retry_ok)

lemma try_opt_positive: "try_opt (\<lambda>v. parse_positive_u64 v q) m = Inr r \<Longrightarrow> r \<noteq> Some 0"
  by (auto simp: try_opt_Inr parse_positive_u64_Inr split: option.splits)

lemma try_or_params_ok: "try_or shaping_default (\<lambda>v. parse_params v q) m = Inr p \<Longrightarrow> shaping_ok p"
  by (auto elim!: try_or_cases intro: parse_params_ok shaping_default_ok)

lemma parse_leaf_ok:
  assumes "parse_leaf obj ptr = Inr l"
  shows "leaf_ok l"
proof -
  obtain provider weight cost timeout retry params where
      parts: "(case Option.bind (obj_get obj ''provider'') as_str of
         Some s \<Rightarrow> if s \<noteq> [] then Inr s else Inl (invalid ptr)
       | None \<Rightarrow> Inl (invalid ptr)) = Inr provider"
      "try_opt (\<lambda>v. parse_positive_u64 v (ptr @ ''/timeout_ms'')) (obj_get obj ''timeout_ms'') = Inr timeout"
      "try_opt (\<lambda>v. parse_retry v (ptr @ ''/retry'')) (obj_get obj ''retry'') = Inr retry"
      "try_or shaping_default (\<lambda>v. parse_params v (ptr @ ''/params'')) (obj_get obj ''params'') = Inr params"
    and l: "l = \<lparr>lf_name = Option.bind (obj_get obj ''name'') as_str, lf_provider = provider, lf_weight = weight,
          lf_cost = cost, lf_timeout_ms = timeout, lf_retry = retry, lf_params = params\<rparr>"
    using assms unfolding parse_leaf_def and_then_Inr by blast
  have "provider \<noteq> []" using parts(1) by (auto split: option.splits if_splits)
  then show ?thesis
    using try_opt_positive [OF parts(2)] try_opt_retry_ok [OF parts(3)] try_or_params_ok [OF parts(4)]
    by (simp add: leaf_ok_def l)
qed

lemma parse_node_leaf:
  assumes "parse_node v ptr depth = Inr (Leaf l)"
  shows "leaf_ok l"
  using assms
  by (subst (asm) parse_node.simps) (auto simp: Let_def and_then_Inr parse_leaf_ok split: option.splits if_splits)

lemma parse_node_pool:
  assumes "parse_node v ptr depth = Inr (Pool p)"
  shows "\<exists>children. pl_strategy p \<noteq> Conditional \<and> children \<noteq> [] \<and> length children \<le> 16 \<and>
    try_each (\<lambda>i c. and_then (parse_node c (ptr @ ''/targets/'' @ show_nat i) (depth + 1)) (leaf_of_node ptr i))
       0 children = Inr (pl_leaves p)"
proof (cases "as_object v")
  case (Some obj)
  note e = assms [unfolded parse_node.simps [of v] Some option.case Let_def]
  have c: "(obj_get obj ''provider'' \<noteq> None) = False"
      "(obj_get obj ''targets'' \<noteq> None) = True" "(MAX_NESTING_DEPTH \<le> depth) = False"
    using e by (auto simp: and_then_Inr simp del: not_None_eq split: if_splits)
  show ?thesis
    using e unfolding c simp_thms if_True if_False and_then_Inr ensure_Inr MAX_TARGETS_PER_LEVEL_def
    by (elim conjE exE, clarify) (rule exI, simp)
qed (use assms in \<open>simp add: parse_node.simps [of v]\<close>)

lemma parse_node_ok:
  assumes "parse_node v ptr depth = Inr n"
  shows "node_ok n"
proof (cases n)
  case (Pool p)
  obtain children where p: "pl_strategy p \<noteq> Conditional" "children \<noteq> []" "length children \<le> 16"
      "try_each (\<lambda>i c. and_then (parse_node c (ptr @ ''/targets/'' @ show_nat i) (depth + 1)) (leaf_of_node ptr i))
         0 children = Inr (pl_leaves p)"
    using parse_node_pool [of v ptr depth p] assms Pool by blast
  have "\<forall>l\<in>set (pl_leaves p). leaf_ok l"
  proof (rule try_each_all [OF p(4)])
    fix k x l
    assume "and_then (parse_node x (ptr @ ''/targets/'' @ show_nat k) (depth + 1)) (leaf_of_node ptr k) = Inr l"
    then obtain m where "parse_node x (ptr @ ''/targets/'' @ show_nat k) (depth + 1) = Inr m" "leaf_of_node ptr k m = Inr l"
      unfolding and_then_Inr by blast
    then show "leaf_ok l" using parse_node_leaf by (cases m) (auto simp: leaf_of_node_def)
  qed
  then show ?thesis using p(1,2,3) try_each_length [OF p(4)] Pool by auto
qed (use assms parse_node_leaf in auto)

lemma collect_names_Inr:
  "collect_names i names ns = Inr out \<Longrightarrow>
    \<exists>new. map node_name ns = map Some new \<and> distinct new \<and> set new \<inter> names = {} \<and> out = names \<union> set new"
proof (induction i names ns rule: collect_names.induct)
  case (2 i names n ns)
  then obtain name where name: "node_name n = Some name" "name \<notin> names"
      "collect_names (Suc i) (insert name names) ns = Inr out"
    by (auto split: option.splits if_splits)
  then obtain new where "map node_name ns = map Some new" "distinct new" "set new \<inter> insert name names = {}"
      "out = insert name names \<union> set new"
    using "2.IH" by blast
  then show ?case using name by (intro exI [of _ "name # new"]) auto
qed simp

lemma validate_conditional_ok:
  assumes "validate_conditional cfg = Inr u"
  shows "conditional_ok cfg"
  unfolding conditional_ok_def
proof
  assume "rc_strategy cfg = Conditional"
  then obtain names d us where n: "collect_names 0 {} (rc_targets cfg) = Inr names"
      "rc_default_target cfg = Some d" "d \<in> names"
      "try_each (\<lambda>i c. ensure (cn_target c \<in> names)
          (invalid (''/conditions/'' @ show_nat i @ ''/target''))) 0 (rc_conditions cfg) = Inr us"
    using assms by (auto simp: validate_conditional_def and_then_Inr ensure_Inr ok_or_Inr)
  have "\<forall>c\<in>set (rc_conditions cfg). cn_target c \<in> names"
    using try_each_all2 [OF n(4), of "\<lambda>c _. cn_target c \<in> names"]
    by (auto simp: ensure_Inr list_all2_conv_all_nth in_set_conv_nth)
  then show "\<exists>names. map node_name (rc_targets cfg) = map Some names \<and> distinct names \<and>
       (\<exists>d. rc_default_target cfg = Some d \<and> d \<in> set names) \<and>
       (\<forall>c\<in>set (rc_conditions cfg). cn_target c \<in> set names)"
    using collect_names_Inr [OF n(1)] n(2,3) by auto
qed

lemma parse_condition_size: "parse_condition ptr i v = Inr c \<Longrightarrow> length (cn_when c) \<le> 8"
  by (auto simp: parse_condition_def and_then_Inr ensure_Inr Let_def policy_bounds)

lemma parse_conditions_size:
  assumes "parse_conditions v ptr = Inr cs"
  shows "length cs \<le> 16 \<and> (\<forall>c\<in>set cs. length (cn_when c) \<le> 8)"
proof -
  obtain arr where "length arr \<le> 16" and arr: "try_each (parse_condition ptr) 0 arr = Inr cs"
    using assms by (auto simp: parse_conditions_def and_then_Inr ensure_Inr policy_bounds)
  moreover have "\<forall>c\<in>set cs. length (cn_when c) \<le> 8"
    by (rule try_each_all [OF arr]) (rule parse_condition_size)
  ultimately show ?thesis using try_each_length [OF arr] by simp
qed

lemma routing_config_parse_ok:
  assumes "routing_config_parse v ref = Inr cfg"
  shows "config_ok cfg"
proof -
  obtain obj targets_val where parts:
      "try_opt (\<lambda>v. parse_cache_directive v ''/cache'') (obj_get obj ''cache'') = Inr (rc_cache cfg)"
      "try_or retry_policy_default (\<lambda>v. parse_retry v ''/retry'') (obj_get obj ''retry'') = Inr (rc_config_retry cfg)"
      "try_opt (\<lambda>v. parse_positive_u64 v ''/timeout_ms'') (obj_get obj ''timeout_ms'') = Inr (rc_timeout_ms cfg)"
      "try_opt (\<lambda>v. parse_hedge v ''/hedge'') (obj_get obj ''hedge'') = Inr (rc_hedge cfg)"
      "targets_val \<noteq> []" "length targets_val \<le> 16"
      "try_each (\<lambda>i t. parse_node t (''/targets/'' @ show_nat i) 1) 0 targets_val = Inr (rc_targets cfg)"
      "sum_list (map (\<lambda>n. length (node_leaves n)) (rc_targets cfg)) \<le> 32"
      "try_or [] (\<lambda>v. parse_conditions v ''/conditions'') (obj_get obj ''conditions'') = Inr (rc_conditions cfg)"
      "validate_conditional cfg = Inr ()"
    using assms unfolding routing_config_parse_def and_then_Inr Let_def ensure_Inr MAX_TARGETS_PER_LEVEL_def
      MAX_FLATTENED_TARGETS_def
    by (elim conjE exE, clarify) simp
  have "\<forall>n\<in>set (rc_targets cfg). node_ok n"
    by (rule try_each_all [OF parts(7)]) (rule parse_node_ok)
  moreover have "rc_targets cfg \<noteq> []" "length (rc_targets cfg) \<le> 16"
    using parts(5,6) try_each_length [OF parts(7)] by auto
  moreover have "retry_ok (rc_config_retry cfg)"
    using parts(2) by (auto elim!: try_or_cases intro: retry_default_ok parse_retry_ok)
  moreover have "length (rc_conditions cfg) \<le> 16 \<and> (\<forall>c\<in>set (rc_conditions cfg). length (cn_when c) \<le> 8)"
    using parts(9) by (rule try_or_cases) (use parse_conditions_size in auto)
  moreover have "\<forall>d. rc_cache cfg = Some d \<longrightarrow> cache_ok d"
    using parts(1) parse_cache_ok by (auto simp: try_opt_Inr split: option.splits)
  moreover have "\<forall>h. rc_hedge cfg = Some h \<longrightarrow> hedge_ok h"
    using parts(4) parse_hedge_ok by (auto simp: try_opt_Inr split: option.splits)
  ultimately show ?thesis
    using try_opt_positive [OF parts(3)] parts(8) validate_conditional_ok [OF parts(10)]
    unfolding config_ok_def by blast
qed

end
