(* ===== verification/Policy_Eval.thy ===== *)
theory Policy_Eval
  imports Policy_Config "HOL-Library.AList" "HOL-Library.Multiset"
begin

text \<open>
  Evaluation of routing configurations, \<^verbatim>\<open>crates/policy/src/lib.rs\<close>: the generator and the backoff
  delay, parameter shaping of a request, the choice of a branch by the conditions, the flattened
  plan, the metadata header, the registry of saved configurations and combos, and the
  resolution of the configuration header. JSON decoding and the serde form of a request are
  parameters.
\<close>

section \<open>Generator and backoff\<close>

definition policy_next_u64 :: "u64 \<Rightarrow> u64 \<times> u64" where
  "policy_next_u64 state =
     (let state = state + 0x9E3779B97F4A7C15;
          z = state;
          z = (z XOR drop_bit 30 z) * 0xBF58476D1CE4E5B9;
          z = (z XOR drop_bit 27 z) * 0x94D049BB133111EB
      in (z XOR drop_bit 31 z, state))"

definition policy_next_below :: "u64 \<Rightarrow> u64 \<Rightarrow> u64 \<times> u64" where
  "policy_next_below bound rng = (let (x, rng) = policy_next_u64 rng in (x mod bound, rng))"

text \<open>\<^verbatim>\<open>Backoff::delay\<close>, in milliseconds, with the generator's next state.\<close>

definition backoff_base :: "backoff \<Rightarrow> u32 \<Rightarrow> u64" where
  "backoff_base b retry_index =
     (let shift = min retry_index 31
      in min (sat_mul (initial_ms b) (push_bit (unat shift) 1)) (max_ms b))"

definition delay :: "backoff \<Rightarrow> u32 \<Rightarrow> u64 \<Rightarrow> u64 \<times> u64" where
  "delay b retry_index rng =
     (let base = backoff_base b retry_index
      in if jitter b \<and> 0 < base then policy_next_below (base + 1) rng else (base, rng))"

section \<open>Shaping a request\<close>

definition obj_entry_or_insert :: "string \<Rightarrow> json \<Rightarrow> json_map \<Rightarrow> json_map" where
  "obj_entry_or_insert k v m = (if obj_get m k = None then obj_insert k v m else m)"

definition obj_remove :: "string \<Rightarrow> json_map \<Rightarrow> json_map" where
  "obj_remove k m = filter (\<lambda>(k', _). k' \<noteq> k) m"

definition shape_object :: "param_shaping \<Rightarrow> json_map \<Rightarrow> json_map" where
  "shape_object p obj =
     (let obj = foldl (\<lambda>obj (k, v). obj_entry_or_insert k v obj) obj (sh_default p);
          obj = foldl (\<lambda>obj (k, v). obj_insert k v obj) obj (sh_overrides p)
      in foldl (\<lambda>obj k. obj_remove k obj) obj (sh_drop p))"

definition shaping_apply ::
  "('r \<Rightarrow> json option) \<Rightarrow> (json \<Rightarrow> 'r option) \<Rightarrow> param_shaping \<Rightarrow> 'r \<Rightarrow> 'r" where
  "shaping_apply to_value from_value p req =
     (if shaping_is_noop p then req
      else case to_value req of
          Some (VObject obj) \<Rightarrow>
            (case from_value (VObject (shape_object p obj)) of Some r \<Rightarrow> r | None \<Rightarrow> req)
        | _ \<Rightarrow> req)"

section \<open>Plans\<close>

record target_plan =
  tp_provider :: string
  tp_weight :: "u32 option"
  tp_cost :: "u32 option"
  tp_timeout_ms :: "u64 option"
  tp_retry :: retry_policy
  tp_params :: param_shaping

record compiled_plan =
  pn_strategy :: policy_strategy
  pn_targets :: "target_plan list"
  pn_request_timeout_ms :: "u64 option"
  pn_matched_label :: string
  pn_hedge :: "hedge_policy option"

definition leaf_to_plan :: "retry_policy \<Rightarrow> leaf \<Rightarrow> target_plan" where
  "leaf_to_plan config_retry l =
     \<lparr>tp_provider = lf_provider l, tp_weight = lf_weight l, tp_cost = lf_cost l,
      tp_timeout_ms = lf_timeout_ms l,
      tp_retry = (case lf_retry l of Some r \<Rightarrow> r | None \<Rightarrow> config_retry),
      tp_params = lf_params l\<rparr>"

definition leaf_weight :: "leaf \<Rightarrow> u64" where
  "leaf_weight l = ucast (max (case lf_weight l of Some w \<Rightarrow> w | None \<Rightarrow> 1) 1)"

text \<open>The scan for the position a draw falls on; position 0 when it falls on none.\<close>

fun policy_pick :: "u64 \<Rightarrow> u64 list \<Rightarrow> nat option" where
  "policy_pick pick [] = None"
| "policy_pick pick (w # ws) = (if pick < w then Some 0 else map_option Suc (policy_pick (pick - w) ws))"

definition chosen_index :: "u64 \<Rightarrow> u64 list \<Rightarrow> nat" where
  "chosen_index pick ws = (case policy_pick pick ws of Some i \<Rightarrow> i | None \<Rightarrow> 0)"

definition remove_at :: "nat \<Rightarrow> 'a list \<Rightarrow> 'a list" where
  "remove_at i xs = take i xs @ drop (Suc i) xs"

lemma pick_index_less: "policy_pick pick ws = Some i \<Longrightarrow> i < length ws"
  by (induction pick ws arbitrary: i rule: policy_pick.induct) (auto split: if_splits)

lemma chosen_index_less: "ws \<noteq> [] \<Longrightarrow> chosen_index pick ws < length ws"
  by (auto simp: chosen_index_def dest: pick_index_less split: option.split)

lemma remove_at_length: "i < length xs \<Longrightarrow> length (remove_at i xs) < length xs"
  by (simp add: remove_at_def)

function policy_weighted_order :: "leaf list \<Rightarrow> u64 \<Rightarrow> leaf list \<times> u64" where
  "policy_weighted_order pool rng =
     (if pool = [] then ([], rng)
      else
        let ws = map leaf_weight pool;
            (pick, rng) = policy_next_below (max (sum_list ws) 1) rng;
            i = chosen_index pick ws;
            (ordered, rng) = policy_weighted_order (remove_at i pool) rng
        in (pool ! i # ordered, rng))"
  by pat_completeness auto
termination
proof (relation "measure (\<lambda>(pool, rng). length pool)")
  fix pool :: "leaf list" and rng pick :: u64 and ws x rng' i
  assume "pool \<noteq> []" and ws: "ws = map leaf_weight pool" and i: "i = chosen_index pick ws"
  then have "i < length pool" using chosen_index_less [of ws pick] by simp
  then show "((remove_at i pool, rng'), pool, rng) \<in> measure (\<lambda>(pool, rng). length pool)"
    by (simp add: remove_at_length)
qed simp

declare policy_weighted_order.simps [simp del]

definition flatten_pool :: "pool \<Rightarrow> retry_policy \<Rightarrow> u64 \<Rightarrow> target_plan list \<times> u64" where
  "flatten_pool p config_retry rng =
     (let (leaves, rng) =
        (case pl_strategy p of
           Cost \<Rightarrow> (sort_key (\<lambda>l. case lf_cost l of Some c \<Rightarrow> c | None \<Rightarrow> 100) (pl_leaves p), rng)
         | Weighted \<Rightarrow> policy_weighted_order (pl_leaves p) rng
         | _ \<Rightarrow> (pl_leaves p, rng))
      in (map (leaf_to_plan config_retry) leaves, rng))"

section \<open>Conditions\<close>

text \<open>A finite \<^verbatim>\<open>f32\<close> is the rational it denotes; \<^verbatim>\<open>Number::from_f64\<close> rejects the others.\<close>

datatype f32 = Finite rat | NonFinite

record chat_params =
  cp_model :: string
  cp_user :: "string option"
  cp_stream :: "bool option"
  cp_max_tokens :: "u32 option"
  cp_max_completion_tokens :: "u32 option"
  cp_temperature :: "f32 option"

type_synonym metadata = "json_map"

definition param_value :: "string \<Rightarrow> chat_params \<Rightarrow> json option" where
  "param_value field req =
     (if field = ''model'' then Some (VString (cp_model req))
      else if field = ''user'' then map_option VString (cp_user req)
      else if field = ''stream'' then map_option VBool (cp_stream req)
      else if field = ''max_tokens'' then map_option (\<lambda>n. VNumber (PosInt (ucast n))) (cp_max_tokens req)
      else if field = ''max_completion_tokens''
        then map_option (\<lambda>n. VNumber (PosInt (ucast n))) (cp_max_completion_tokens req)
      else if field = ''temperature'' then
        (case cp_temperature req of Some (Finite t) \<Rightarrow> Some (VNumber (Float t)) | _ \<Rightarrow> None)
      else None)"

definition resolve_path :: "string \<Rightarrow> metadata \<Rightarrow> chat_params \<Rightarrow> json option" where
  "resolve_path path md req =
     (if prefix ''metadata.'' path then obj_get md (drop (length ''metadata.'') path)
      else if prefix ''params.'' path then param_value (drop (length ''params.'') path) req
      else None)"

definition eval_op :: "string \<Rightarrow> json option \<Rightarrow> json \<Rightarrow> bool" where
  "eval_op op actual expected =
     (if op = ''exists'' then (actual \<noteq> None) = (case as_bool expected of Some b \<Rightarrow> b | None \<Rightarrow> False)
      else case actual of
          None \<Rightarrow> False
        | Some a \<Rightarrow>
            if op = ''eq'' then a = expected
            else if op = ''ne'' then a \<noteq> expected
            else if op = ''in'' then (case as_array expected of Some vs \<Rightarrow> a \<in> set vs | None \<Rightarrow> False)
            else if op = ''nin'' then (case as_array expected of Some vs \<Rightarrow> a \<notin> set vs | None \<Rightarrow> False)
            else if op \<in> {''gt'', ''gte'', ''lt'', ''lte''} then
              (case (as_f64 a, as_f64 expected) of
                 (Some x, Some y) \<Rightarrow>
                   if op = ''gt'' then y < x else if op = ''gte'' then y \<le> x
                   else if op = ''lt'' then x < y else x \<le> y
               | _ \<Rightarrow> False)
            else False)"

definition eval_when :: "json_map \<Rightarrow> metadata \<Rightarrow> chat_params \<Rightarrow> bool" where
  "eval_when w md req =
     list_all (\<lambda>(path, spec).
       case as_object spec of
         None \<Rightarrow> False
       | Some ops \<Rightarrow> list_all (\<lambda>(op, expected). eval_op op (resolve_path path md req) expected) ops) w"

fun first_match :: "nat \<Rightarrow> metadata \<Rightarrow> chat_params \<Rightarrow> condition list \<Rightarrow> (nat \<times> string) option" where
  "first_match i md req [] = None"
| "first_match i md req (c # cs) =
     (if eval_when (cn_when c) md req then Some (i, cn_target c) else first_match (Suc i) md req cs)"

fun flatten_nodes :: "retry_policy \<Rightarrow> node list \<Rightarrow> u64 \<Rightarrow> target_plan list \<times> u64" where
  "flatten_nodes config_retry [] rng = ([], rng)"
| "flatten_nodes config_retry (Leaf l # ns) rng =
     (let (ts, rng) = flatten_nodes config_retry ns rng in (leaf_to_plan config_retry l # ts, rng))"
| "flatten_nodes config_retry (Pool p # ns) rng =
     (let (ps, rng) = flatten_pool p config_retry rng;
          (ts, rng) = flatten_nodes config_retry ns rng
      in (ps @ ts, rng))"

definition choose_node :: "routing_config \<Rightarrow> string option \<Rightarrow> node option" where
  "choose_node cfg chosen =
     (case Option.bind chosen (\<lambda>name. find (\<lambda>n. node_name n = Some name) (rc_targets cfg)) of
        Some n \<Rightarrow> Some n
      | None \<Rightarrow> (case rc_targets cfg of [] \<Rightarrow> None | n # _ \<Rightarrow> Some n))"

definition evaluate :: "routing_config \<Rightarrow> metadata \<Rightarrow> chat_params \<Rightarrow> u64 \<Rightarrow> compiled_plan \<times> u64" where
  "evaluate cfg md req rng =
     (if rc_strategy cfg = Conditional then
        let (matched_label, chosen) =
              (case first_match 0 md req (rc_conditions cfg) of
                 Some (i, target) \<Rightarrow> (show_nat i, Some target)
               | None \<Rightarrow> (''default'', rc_default_target cfg));
            (targets, strategy, rng) =
              (case choose_node cfg chosen of
                 Some (Leaf l) \<Rightarrow> ([leaf_to_plan (rc_config_retry cfg) l], Priority, rng)
               | Some (Pool p) \<Rightarrow>
                   (let (ts, rng) = flatten_pool p (rc_config_retry cfg) rng in (ts, pl_strategy p, rng))
               | None \<Rightarrow> ([], Priority, rng))
        in (\<lparr>pn_strategy = strategy, pn_targets = targets, pn_request_timeout_ms = rc_timeout_ms cfg,
             pn_matched_label = matched_label, pn_hedge = rc_hedge cfg\<rparr>, rng)
      else
        let (targets, rng) = flatten_nodes (rc_config_retry cfg) (rc_targets cfg) rng
        in (\<lparr>pn_strategy = rc_strategy cfg, pn_targets = targets, pn_request_timeout_ms = rc_timeout_ms cfg,
             pn_matched_label = ''none'', pn_hedge = rc_hedge cfg\<rparr>, rng))"

section \<open>Metadata and saved configurations\<close>

definition is_scalar :: "json \<Rightarrow> bool" where
  "is_scalar v = (case v of VString _ \<Rightarrow> True | VNumber _ \<Rightarrow> True | VBool _ \<Rightarrow> True | _ \<Rightarrow> False)"

definition parse_metadata :: "(string \<Rightarrow> json option) \<Rightarrow> string option \<Rightarrow> config_error + metadata" where
  "parse_metadata from_str header =
     (case header of
        None \<Rightarrow> Inr []
      | Some raw \<Rightarrow>
          let raw = trim raw
          in if raw = [] then Inr []
             else if MAX_METADATA_BYTES < length raw then Inl (too_large ''/'')
             else case from_str raw of
                 None \<Rightarrow> Inl metadata_error
               | Some v \<Rightarrow>
                   and_then (ok_or metadata_error (as_object v)) (\<lambda>obj.
                   if list_all (\<lambda>(k, v). is_scalar v) obj then Inr obj else Inl metadata_error))"

type_synonym policy_registry = "(string \<times> routing_config) list"

datatype registry_load_error =
  RegistryRead | RegistryParse | RegistryConfig string config_error | BadShape

definition load_entry :: "policy_registry \<Rightarrow> json \<Rightarrow> registry_load_error + policy_registry" where
  "load_entry registry entry =
     (case Option.bind (json_get entry ''id'') as_str of
        None \<Rightarrow> Inl BadShape
      | Some id' \<Rightarrow>
          if \<not> prefix ''cfg_'' id' then Inl BadShape
          else case json_get entry ''routing'' of
              None \<Rightarrow> Inl BadShape
            | Some routing \<Rightarrow>
                (case routing_config_parse routing (Saved id') of
                   Inl e \<Rightarrow> Inl (RegistryConfig id' e)
                 | Inr cfg \<Rightarrow>
                     (case Option.bind (json_get entry ''combo'') as_str of
                        None \<Rightarrow> Inr (AList.update id' cfg registry)
                      | Some combo_raw \<Rightarrow>
                          let combo = trim combo_raw; key = ''combo:'' @ combo
                          in if combo = [] \<or> prefix ''cfg_'' combo \<or> prefix ''combo:'' combo then Inl BadShape
                             else if None \<in> set (target_models cfg) then Inl BadShape
                             else if map_of registry key \<noteq> None then Inl BadShape
                             else Inr (AList.update id' cfg (AList.update key cfg registry)))))"

fun load_entries :: "policy_registry \<Rightarrow> json list \<Rightarrow> registry_load_error + policy_registry" where
  "load_entries registry [] = Inr registry"
| "load_entries registry (e # es) = and_then (load_entry registry e) (\<lambda>r. load_entries r es)"

text \<open>The content is absent when the file cannot be read.\<close>

definition load_registry :: "(string \<Rightarrow> json option) \<Rightarrow> string option \<Rightarrow> registry_load_error + policy_registry" where
  "load_registry from_str content =
     (case content of
        None \<Rightarrow> Inl RegistryRead
      | Some text \<Rightarrow>
          (case from_str text of
             None \<Rightarrow> Inl RegistryParse
           | Some v \<Rightarrow>
               (case Option.bind (json_get v ''configs'') as_array of
                  None \<Rightarrow> Inl BadShape
                | Some configs \<Rightarrow> load_entries [] configs)))"

definition combo_registry_key :: "string \<Rightarrow> string" where
  "combo_registry_key name = ''combo:'' @ name"

definition combo_names :: "policy_registry \<Rightarrow> string list" where
  "combo_names registry = map (drop (length ''combo:'')) (filter (prefix ''combo:'') (map fst registry))"

definition resolve_routing_config ::
  "(string \<Rightarrow> json option) \<Rightarrow> string option \<Rightarrow> policy_registry \<Rightarrow> config_error + routing_config option" where
  "resolve_routing_config from_str header registry =
     (case header of
        None \<Rightarrow> Inr None
      | Some raw \<Rightarrow>
          let raw = trim raw
          in if raw = [] then Inr None
             else if MAX_CONFIG_BYTES < length raw then Inl (too_large ''/'')
             else if prefix ''{'' raw then
               (case from_str raw of
                  None \<Rightarrow> Inl (invalid ''/'')
                | Some v \<Rightarrow>
                    and_then (case as_object v of
                        Some obj \<Rightarrow> reject_unknown obj [''routing'', ''guardrails''] ''''
                      | None \<Rightarrow> Inr ()) (\<lambda>_.
                    case json_get v ''routing'' of
                      None \<Rightarrow> Inr None
                    | Some routing \<Rightarrow> map_sum id Some (routing_config_parse routing Inline)))
             else if prefix ''cfg_'' raw then
               (if CHR ''@'' \<in> set raw then Inl not_found
                else case map_of registry raw of Some cfg \<Rightarrow> Inr (Some cfg) | None \<Rightarrow> Inl not_found)
             else Inl (invalid ''/''))"

section \<open>Backoff\<close>

lemma backoff_base_eq:
  "unat (backoff_base b i) = min (unat (initial_ms b) * 2 ^ min (unat i) 31) (unat (max_ms b))"
proof -
  have small: "(2::nat) ^ unat (min i 31) < 2 ^ 64"
    by (rule power_strict_increasing) (simp_all add: min_def word_le_nat_alt)
  have one: "unat (push_bit (unat (min i 31)) 1 :: u64) = 2 ^ unat (min i 31)"
  proof -
    have "push_bit (unat (min i 31)) 1 = (of_nat (2 ^ unat (min i 31)) :: u64)"
      by (simp add: push_bit_eq_mult)
    then show ?thesis by (simp only: unat_of_nat_u64 [OF small])
  qed
  have "unat (min i 31) = min (unat i) 31" by (simp add: min_def word_le_nat_alt)
  then show ?thesis
    using one unat_u64_lt [of "max_ms b"]
    by (simp add: backoff_base_def Let_def min_def word_le_nat_alt unat_sat_mul)
qed

lemma next_below_less: "0 < bound \<Longrightarrow> fst (policy_next_below bound rng) < bound"
  by (simp add: policy_next_below_def case_prod_beta word_less_nat_alt unat_mod unat_gt_0)

lemma delay_base:
  assumes "backoff_ok b"
  shows "fst (delay b i rng) \<le> backoff_base b i"
proof -
  have "unat (max_ms b) \<le> 30000" using assms by (simp add: backoff_ok_def word_le_nat_alt)
  then have "unat (backoff_base b i + 1) = unat (backoff_base b i) + 1"
    using unat_add_no_wrap [of "backoff_base b i" 1] by (simp add: backoff_base_eq min_def)
  then have "fst (policy_next_below (backoff_base b i + 1) rng) \<le> backoff_base b i"
    using next_below_less [of "backoff_base b i + 1" rng] by (simp add: word_less_nat_alt word_le_nat_alt)
  then show ?thesis by (simp add: delay_def Let_def)
qed

section \<open>Shaping\<close>

lemma obj_get_entry: "obj_get (obj_entry_or_insert k v m) j =
    (if j = k \<and> obj_get m k = None then Some v else obj_get m j)"
  by (simp add: obj_entry_or_insert_def obj_get_insert)

lemma obj_get_remove: "obj_get (obj_remove k m) j = (if j = k then None else obj_get m j)"
  by (induction m) (auto simp: obj_get_def obj_remove_def)

lemma fold_default:
  "distinct (obj_keys ds) \<Longrightarrow> obj_get (foldl (\<lambda>obj (k, v). obj_entry_or_insert k v obj) obj ds) j =
    (case obj_get obj j of Some v \<Rightarrow> Some v | None \<Rightarrow> obj_get ds j)"
proof (induction ds arbitrary: obj)
  case (Cons d ds)
  obtain k v where d: "d = (k, v)" by (cases d)
  have "k \<notin> set (obj_keys ds)" using Cons.prems by (simp add: d obj_keys_def)
  then have none: "obj_get ds k = None" by (simp add: obj_get_None)
  have ds: "distinct (obj_keys ds)" using Cons.prems by (simp add: obj_keys_def)
  show ?case using Cons.IH [OF ds, of "obj_entry_or_insert k v obj"] none
    by (auto simp: d obj_get_entry split: option.split)
qed (simp split: option.split)

lemma fold_override:
  "distinct (obj_keys os) \<Longrightarrow> obj_get (foldl (\<lambda>obj (k, v). obj_insert k v obj) obj os) j =
    (case obj_get os j of Some v \<Rightarrow> Some v | None \<Rightarrow> obj_get obj j)"
proof (induction os arbitrary: obj)
  case (Cons d ds)
  obtain k v where d: "d = (k, v)" by (cases d)
  have "k \<notin> set (obj_keys ds)" using Cons.prems by (simp add: d obj_keys_def)
  then have none: "obj_get ds k = None" by (simp add: obj_get_None)
  have ds: "distinct (obj_keys ds)" using Cons.prems by (simp add: obj_keys_def)
  show ?case using Cons.IH [OF ds, of "obj_insert k v obj"] none
    by (auto simp: d obj_get_insert split: option.split)
qed simp

lemma fold_drop: "obj_get (foldl (\<lambda>obj k. obj_remove k obj) obj ks) j = (if j \<in> set ks then None else obj_get obj j)"
  by (induction ks arbitrary: obj) (auto simp: obj_get_remove)

lemma obj_get_shape:
  assumes "distinct (obj_keys (sh_default p))" and "distinct (obj_keys (sh_overrides p))"
  shows "obj_get (shape_object p obj) k =
    (if k \<in> set (sh_drop p) then None
     else case obj_get (sh_overrides p) k of Some v \<Rightarrow> Some v
       | None \<Rightarrow> (case obj_get obj k of Some v \<Rightarrow> Some v | None \<Rightarrow> obj_get (sh_default p) k))"
  by (simp add: shape_object_def fold_drop fold_override fold_default assms split: option.split)

section \<open>Plans\<close>

lemma mset_remove_at: "i < length xs \<Longrightarrow> add_mset (xs ! i) (mset (remove_at i xs)) = mset xs"
  by (metis id_take_nth_drop mset.simps(2) mset_append remove_at_def union_mset_add_mset_right)

lemma weighted_order_mset: "mset (fst (policy_weighted_order pool rng)) = mset pool"
proof (induction pool rng rule: policy_weighted_order.induct)
  case (1 pool rng)
  show ?case
  proof (cases "pool = []")
    case False
    define ws where "ws = map leaf_weight pool"
    obtain pick rng' where d: "policy_next_below (max (sum_list ws) 1) rng = (pick, rng')" by fastforce
    define i where "i = chosen_index pick ws"
    have i: "i < length pool" using chosen_index_less [of ws pick] False by (simp add: i_def ws_def)
    have "mset (fst (policy_weighted_order (remove_at i pool) rng')) = mset (remove_at i pool)"
      by (rule "1.IH" [OF False ws_def]) (simp_all add: d [symmetric] ws_def i_def)
    moreover have "fst (policy_weighted_order pool rng) = pool ! i # fst (policy_weighted_order (remove_at i pool) rng')"
      using False d by (subst policy_weighted_order.simps) (simp add: ws_def i_def Let_def case_prod_beta)
    ultimately show ?thesis using mset_remove_at [OF i] by simp
  qed (simp add: policy_weighted_order.simps)
qed

lemma flatten_pool_mset:
  "mset (fst (flatten_pool p r rng)) = mset (map (leaf_to_plan r) (pl_leaves p))"
  using weighted_order_mset [of "pl_leaves p" rng]
  by (simp add: flatten_pool_def case_prod_beta split: policy_strategy.split)

lemma flatten_nodes_mset:
  "mset (fst (flatten_nodes r ns rng)) = mset (map (leaf_to_plan r) (concat (map node_leaves ns)))"
proof (induction ns arbitrary: rng)
  case (Cons n ns)
  show ?case by (cases n) (simp_all add: Cons flatten_pool_mset case_prod_beta Let_def)
qed simp

lemma first_match_None: "first_match i md req cs = None \<longleftrightarrow> (\<forall>c\<in>set cs. \<not> eval_when (cn_when c) md req)"
  by (induction cs arbitrary: i) auto

lemma first_match_Some:
  "first_match i md req cs = Some (j, t) \<Longrightarrow>
    \<exists>k<length cs. j = i + k \<and> t = cn_target (cs ! k) \<and> eval_when (cn_when (cs ! k)) md req \<and>
      (\<forall>k'<k. \<not> eval_when (cn_when (cs ! k')) md req)"
proof (induction cs arbitrary: i)
  case (Cons c cs)
  show ?case
  proof (cases "eval_when (cn_when c) md req")
    case False
    then have "first_match (Suc i) md req cs = Some (j, t)" using Cons.prems by simp
    then obtain k where "k < length cs" "j = Suc i + k" "t = cn_target (cs ! k)"
        "eval_when (cn_when (cs ! k)) md req" "\<forall>k'<k. \<not> eval_when (cn_when (cs ! k')) md req"
      using Cons.IH by blast
    then show ?thesis using False by (intro exI [of _ "Suc k"]) (auto simp: less_Suc_eq_0_disj)
  qed (use Cons.prems in auto)
qed simp

lemma first_match_eq:
  "k < length cs \<Longrightarrow> eval_when (cn_when (cs ! k)) md req \<Longrightarrow> \<forall>j<k. \<not> eval_when (cn_when (cs ! j)) md req \<Longrightarrow>
    first_match i md req cs = Some (i + k, cn_target (cs ! k))"
proof (induction cs arbitrary: i k)
  case (Cons c cs)
  show ?case
  proof (cases k)
    case (Suc k')
    then have "\<not> eval_when (cn_when c) md req" using Cons.prems(3) by force
    moreover have "\<forall>j<k'. \<not> eval_when (cn_when (cs ! j)) md req" using Cons.prems(3) Suc by force
    ultimately show ?thesis using Cons.IH [of k' "Suc i"] Cons.prems(1,2) Suc by simp
  qed (use Cons.prems in simp)
qed simp

text \<open>The target that the conditions select.\<close>

definition selected :: "routing_config \<Rightarrow> metadata \<Rightarrow> chat_params \<Rightarrow> string option" where
  "selected cfg md req =
     (case first_match 0 md req (rc_conditions cfg) of Some (_, t) \<Rightarrow> Some t | None \<Rightarrow> rc_default_target cfg)"

lemma choose_selected:
  assumes "config_ok cfg" and "rc_strategy cfg = Conditional"
  shows "\<exists>n\<in>set (rc_targets cfg). choose_node cfg (selected cfg md req) = Some n \<and>
    node_name n = selected cfg md req \<and> node_name n \<noteq> None"
proof -
  obtain names d where names: "map node_name (rc_targets cfg) = map Some names"
      "rc_default_target cfg = Some d" "d \<in> set names" "\<forall>c\<in>set (rc_conditions cfg). cn_target c \<in> set names"
    using assms unfolding config_ok_def conditional_ok_def by blast
  have "\<exists>t\<in>set names. selected cfg md req = Some t"
  proof (cases "first_match 0 md req (rc_conditions cfg)")
    case (Some m)
    obtain j t where m: "m = (j, t)" by (cases m)
    then show ?thesis
      using Some first_match_Some [of 0 md req "rc_conditions cfg" j t] names(4)
      by (auto simp: selected_def)
  qed (use names in \<open>auto simp: selected_def\<close>)
  then obtain t where t: "t \<in> set names" "selected cfg md req = Some t" by blast
  have "Some t \<in> set (map node_name (rc_targets cfg))" using t(1) names(1) by simp
  then have "find (\<lambda>n. node_name n = Some t) (rc_targets cfg) \<noteq> None" by (auto simp: find_None_iff)
  then obtain n where n: "find (\<lambda>n. node_name n = Some t) (rc_targets cfg) = Some n" by blast
  then have "n \<in> set (rc_targets cfg) \<and> node_name n = Some t" by (auto simp: find_Some_iff)
  then show ?thesis using n t(2) by (auto simp: choose_node_def)
qed

text \<open>The nodes whose leaves a request's plan is made of.\<close>

definition plan_nodes :: "routing_config \<Rightarrow> metadata \<Rightarrow> chat_params \<Rightarrow> node list" where
  "plan_nodes cfg md req =
     (if rc_strategy cfg = Conditional
      then filter (\<lambda>n. node_name n = selected cfg md req) (rc_targets cfg) else rc_targets cfg)"

lemma selected_unique:
  assumes "config_ok cfg" and "rc_strategy cfg = Conditional"
  shows "\<exists>n\<in>set (rc_targets cfg). plan_nodes cfg md req = [n] \<and>
    choose_node cfg (selected cfg md req) = Some n \<and> node_name n = selected cfg md req"
proof -
  obtain n where n: "n \<in> set (rc_targets cfg)" "choose_node cfg (selected cfg md req) = Some n"
      "node_name n = selected cfg md req"
    using choose_selected [OF assms] by blast
  obtain names where "map node_name (rc_targets cfg) = map Some names" "distinct names"
    using assms unfolding config_ok_def conditional_ok_def by blast
  then have d: "distinct (map node_name (rc_targets cfg))" by (simp add: distinct_map)
  obtain xs ys where xs: "rc_targets cfg = xs @ n # ys" using split_list [OF n(1)] by blast
  have "\<forall>m\<in>set xs \<union> set ys. node_name m \<noteq> node_name n"
  proof
    fix m assume "m \<in> set xs \<union> set ys"
    then have "node_name m \<in> node_name ` set xs \<union> node_name ` set ys" by blast
    moreover have "node_name n \<notin> node_name ` set xs \<union> node_name ` set ys" using d by (simp add: xs)
    ultimately show "node_name m \<noteq> node_name n" by metis
  qed
  then have "filter (\<lambda>m. node_name m = node_name n) xs = []" "filter (\<lambda>m. node_name m = node_name n) ys = []"
    by (simp_all add: filter_empty_conv)
  then have "plan_nodes cfg md req = [n]"
    using assms(2) by (simp add: plan_nodes_def xs n(3) [symmetric])
  then show ?thesis using n by blast
qed

lemma evaluate_mset:
  assumes "config_ok cfg"
  shows "mset (pn_targets (fst (evaluate cfg md req rng))) =
    mset (map (leaf_to_plan (rc_config_retry cfg)) (concat (map node_leaves (plan_nodes cfg md req))))"
proof (cases "rc_strategy cfg = Conditional")
  case True
  obtain n where n: "plan_nodes cfg md req = [n]" "choose_node cfg (selected cfg md req) = Some n"
    using selected_unique [OF assms True] by blast
  have "pn_targets (fst (evaluate cfg md req rng)) = (case n of
      Leaf l \<Rightarrow> [leaf_to_plan (rc_config_retry cfg) l] | Pool p \<Rightarrow> fst (flatten_pool p (rc_config_retry cfg) rng))"
    using True n(2)
    by (cases "first_match 0 md req (rc_conditions cfg)")
      (auto simp: evaluate_def selected_def case_prod_beta Let_def split: node.split)
  then show ?thesis using n(1) flatten_pool_mset by (cases n) simp_all
next
  case False
  then show ?thesis
    using flatten_nodes_mset by (simp add: evaluate_def plan_nodes_def case_prod_beta Let_def)
qed

lemma plan_nodes_subset: "set (plan_nodes cfg md req) \<subseteq> set (rc_targets cfg)"
  by (auto simp: plan_nodes_def)

lemma plan_nodes_nonempty:
  assumes "config_ok cfg"
  shows "plan_nodes cfg md req \<noteq> []"
proof (cases "rc_strategy cfg = Conditional")
  case True
  then show ?thesis using selected_unique [OF assms True, of md req] by auto
qed (use assms in \<open>simp add: plan_nodes_def config_ok_def\<close>)

lemma node_ok_leaves: "node_ok n \<Longrightarrow> node_leaves n \<noteq> [] \<and> (\<forall>l\<in>set (node_leaves n). leaf_ok l)"
  by (cases n) auto

lemma sum_list_filter_le: "sum_list (map f (filter P xs)) \<le> (sum_list (map f xs) :: nat)"
  by (induction xs) auto

lemma plan_size:
  assumes "config_ok cfg"
  shows "length (concat (map node_leaves (plan_nodes cfg md req))) \<le> 32"
proof -
  have "length (concat (map node_leaves (plan_nodes cfg md req))) \<le>
      sum_list (map (\<lambda>n. length (node_leaves n)) (rc_targets cfg))"
    by (simp add: plan_nodes_def length_concat o_def sum_list_filter_le)
  then show ?thesis using assms by (simp add: config_ok_def)
qed

lemma evaluate_strategy:
  assumes "config_ok cfg"
  shows "pn_strategy (fst (evaluate cfg md req rng)) \<noteq> Conditional"
proof (cases "rc_strategy cfg = Conditional")
  case True
  obtain n where n: "n \<in> set (rc_targets cfg)" "choose_node cfg (selected cfg md req) = Some n"
    using selected_unique [OF assms True] by blast
  then have "node_ok n" using assms by (simp add: config_ok_def)
  moreover have "pn_strategy (fst (evaluate cfg md req rng)) = (case n of Leaf l \<Rightarrow> Priority | Pool p \<Rightarrow> pl_strategy p)"
    using True n(2)
    by (cases "first_match 0 md req (rc_conditions cfg)")
      (auto simp: evaluate_def selected_def case_prod_beta Let_def split: node.split)
  ultimately show ?thesis by (cases n) simp_all
qed (simp add: evaluate_def case_prod_beta Let_def)

section \<open>The registry\<close>

definition registry_entry_ok :: "string \<Rightarrow> routing_config \<Rightarrow> bool" where
  "registry_entry_ok k cfg \<longleftrightarrow> config_ok cfg \<and>
     (prefix ''cfg_'' k \<or>
      (\<exists>name. k = combo_registry_key name \<and> name \<noteq> [] \<and> \<not> prefix ''cfg_'' name \<and> \<not> prefix ''combo:'' name \<and>
        None \<notin> set (target_models cfg)))"

definition policy_registry_ok :: "policy_registry \<Rightarrow> bool" where
  "policy_registry_ok r \<longleftrightarrow> distinct (map fst r) \<and> (\<forall>(k, cfg)\<in>set r. registry_entry_ok k cfg)"

lemma registry_update_ok:
  "policy_registry_ok r \<Longrightarrow> registry_entry_ok k cfg \<Longrightarrow> policy_registry_ok (AList.update k cfg r)"
  unfolding policy_registry_ok_def
  by (induction r) (auto simp: AList.distinct_update dom_update)

lemma load_entry_cases:
  assumes "load_entry r e = Inr r'"
  shows "\<exists>k routing cfg. prefix ''cfg_'' k \<and> routing_config_parse routing (Saved k) = Inr cfg \<and>
    (r' = AList.update k cfg r \<or>
     (\<exists>name. r' = AList.update k cfg (AList.update (combo_registry_key name) cfg r) \<and> name \<noteq> [] \<and>
       \<not> prefix ''cfg_'' name \<and> \<not> prefix ''combo:'' name \<and> None \<notin> set (target_models cfg) \<and>
       map_of r (combo_registry_key name) = None))"
proof -
  obtain k where k: "Option.bind (json_get e ''id'') as_str = Some k" "prefix ''cfg_'' k"
    using assms unfolding load_entry_def by (auto split: option.splits if_splits)
  obtain routing where routing: "json_get e ''routing'' = Some routing"
    using assms k unfolding load_entry_def by (auto split: option.splits if_splits)
  obtain cfg where cfg: "routing_config_parse routing (Saved k) = Inr cfg"
    using assms k routing unfolding load_entry_def by (auto split: sum.splits)
  have "load_entry r e = (case Option.bind (json_get e ''combo'') as_str of
      None \<Rightarrow> Inr (AList.update k cfg r)
    | Some combo_raw \<Rightarrow>
        let combo = trim combo_raw; key = ''combo:'' @ combo
        in if combo = [] \<or> prefix ''cfg_'' combo \<or> prefix ''combo:'' combo then Inl BadShape
           else if None \<in> set (target_models cfg) then Inl BadShape
           else if map_of r key \<noteq> None then Inl BadShape
           else Inr (AList.update k cfg (AList.update key cfg r)))"
    by (simp add: load_entry_def k routing cfg)
  then have "r' = AList.update k cfg r \<or>
     (\<exists>name. r' = AList.update k cfg (AList.update (combo_registry_key name) cfg r) \<and> name \<noteq> [] \<and>
       \<not> prefix ''cfg_'' name \<and> \<not> prefix ''combo:'' name \<and> None \<notin> set (target_models cfg) \<and>
       map_of r (combo_registry_key name) = None)"
    using assms unfolding combo_registry_key_def Let_def
    by (cases "Option.bind (json_get e ''combo'') as_str") (auto split: if_splits)
  then show ?thesis using k(2) cfg by blast
qed

lemma load_entry_ok:
  assumes "policy_registry_ok r" and "load_entry r e = Inr r'"
  shows "policy_registry_ok r'"
proof -
  obtain k routing cfg where k: "prefix ''cfg_'' k" "config_ok cfg" "r' = AList.update k cfg r \<or>
     (\<exists>name. r' = AList.update k cfg (AList.update (combo_registry_key name) cfg r) \<and> name \<noteq> [] \<and>
       \<not> prefix ''cfg_'' name \<and> \<not> prefix ''combo:'' name \<and> None \<notin> set (target_models cfg))"
    using load_entry_cases [OF assms(2)] routing_config_parse_ok by blast
  then have "registry_entry_ok k cfg" by (simp add: registry_entry_ok_def)
  moreover have "registry_entry_ok (combo_registry_key name) cfg"
    if "name \<noteq> []" "\<not> prefix ''cfg_'' name" "\<not> prefix ''combo:'' name" "None \<notin> set (target_models cfg)" for name
    unfolding registry_entry_ok_def using that k(2) by blast
  ultimately show ?thesis using k(3) registry_update_ok assms(1) by blast
qed

lemma load_entries_ok: "policy_registry_ok r \<Longrightarrow> load_entries r es = Inr r' \<Longrightarrow> policy_registry_ok r'"
  by (induction es arbitrary: r) (auto simp: and_then_Inr intro: load_entry_ok)

lemma load_registry_ok:
  assumes "load_registry from_str content = Inr r"
  shows "policy_registry_ok r"
proof -
  obtain configs where "load_entries [] configs = Inr r"
    using assms unfolding load_registry_def by (auto split: option.splits)
  moreover have "policy_registry_ok []" by (simp add: policy_registry_ok_def)
  ultimately show ?thesis using load_entries_ok by blast
qed

lemma policy_registry_lookup: "policy_registry_ok r \<Longrightarrow> map_of r k = Some cfg \<Longrightarrow> registry_entry_ok k cfg"
  by (auto simp: policy_registry_ok_def dest!: map_of_SomeD)

lemma combo_not_saved: "\<not> prefix ''cfg_'' (combo_registry_key name)"
  by (simp add: combo_registry_key_def)

section \<open>Single-precision values\<close>

text \<open>Every finite \<^verbatim>\<open>f32\<close> is an integer of at most 24 bits scaled by a power of two.\<close>

definition is_f32 :: "rat \<Rightarrow> bool" where
  "is_f32 t \<longleftrightarrow> (\<exists>m e. \<bar>m\<bar> < 2 ^ 24 \<and> (t = of_int m * 2 ^ e \<or> t = of_int m / 2 ^ e))"

text \<open>The \<^verbatim>\<open>f64\<close> nearest to 0.7 needs 52 bits.\<close>

lemma decimal_not_f32: "is_f32 t \<Longrightarrow> t \<noteq> 3152519739159347 / 4503599627370496"
proof
  assume "is_f32 t" and t: "t = 3152519739159347 / 4503599627370496"
  then obtain m :: int and e :: nat where m: "\<bar>m\<bar> < 2 ^ 24" and c: "t = of_int m * 2 ^ e \<or> t = of_int m / 2 ^ e"
    unfolding is_f32_def by blast
  have odd: "odd (3152519739159347 :: int)" by simp
  from c show False
  proof
    assume "t = of_int m * 2 ^ e"
    then have "(of_int (m * 2 ^ e * 4503599627370496) :: rat) = of_int 3152519739159347" by (simp add: t)
    then have "m * 2 ^ e * 4503599627370496 = 3152519739159347" by (simp only: of_int_eq_iff)
    then have "even (3152519739159347 :: int)" by (metis dvd_mult even_numeral)
    then show False using odd by blast
  next
    assume "t = of_int m / 2 ^ e"
    then have "(of_int (m * 2 ^ 52) :: rat) = of_int (3152519739159347 * 2 ^ e)" by (simp add: t field_simps)
    then have eq: "m * 2 ^ 52 = 3152519739159347 * 2 ^ e" by (simp only: of_int_eq_iff)
    show False
    proof (cases "e < 52")
      case True
      then have d: "52 = e + Suc (51 - e)" by simp
      let ?d = "51 - e"
      have "m * 2 ^ Suc ?d * 2 ^ e = 3152519739159347 * 2 ^ e" using eq by (subst (asm) d) (simp add: power_add ac_simps)
      then have "m * 2 ^ Suc ?d = 3152519739159347" by simp
      then have "even (3152519739159347 :: int)" by (metis dvd_triv_right even_mult_iff even_numeral power_Suc)
      then show False using odd by blast
    next
      case False
      then obtain d where d: "e = 52 + d" using le_Suc_ex not_less by blast
      have "m * 2 ^ 52 = (3152519739159347 * 2 ^ d) * 2 ^ 52" using eq unfolding d by (simp add: power_add ac_simps)
      then have "m = 3152519739159347 * 2 ^ d" by simp
      moreover have "(1::int) \<le> 2 ^ d" by simp
      moreover have "m < 16777216" using m by simp
      ultimately show False by linarith
    qed
  qed
qed

text \<open>A plan of an accepted configuration: its size, and what each target satisfies.\<close>

lemma accepted_plan:
  assumes "routing_config_parse v ref = Inr cfg"
  shows "1 \<le> length (pn_targets (fst (evaluate cfg md req rng))) \<and> length (pn_targets (fst (evaluate cfg md req rng))) \<le> 32"
    and "t \<in> set (pn_targets (fst (evaluate cfg md req rng))) \<Longrightarrow>
      retry_ok (tp_retry t) \<and> tp_provider t \<noteq> [] \<and> tp_timeout_ms t \<noteq> Some 0 \<and> shaping_ok (tp_params t)"
proof -
  let ?ls = "concat (map node_leaves (plan_nodes cfg md req))"
  have ok: "config_ok cfg" by (rule routing_config_parse_ok [OF assms])
  have m: "mset (pn_targets (fst (evaluate cfg md req rng))) = mset (map (leaf_to_plan (rc_config_retry cfg)) ?ls)"
    by (rule evaluate_mset [OF ok])
  have nodes: "\<forall>n\<in>set (plan_nodes cfg md req). node_leaves n \<noteq> [] \<and> (\<forall>l\<in>set (node_leaves n). leaf_ok l)"
    using ok plan_nodes_subset node_ok_leaves unfolding config_ok_def by blast
  then have "?ls \<noteq> []" using plan_nodes_nonempty [OF ok, of md req] by (cases "plan_nodes cfg md req") auto
  then show "1 \<le> length (pn_targets (fst (evaluate cfg md req rng))) \<and> length (pn_targets (fst (evaluate cfg md req rng))) \<le> 32"
    using mset_eq_length [OF m] plan_size [OF ok, of md req] by (auto simp: Suc_le_eq)
  assume "t \<in> set (pn_targets (fst (evaluate cfg md req rng)))"
  then obtain l where l: "l \<in> set ?ls" "t = leaf_to_plan (rc_config_retry cfg) l"
    using mset_eq_setD [OF m] by auto
  then have "leaf_ok l" using nodes by auto
  moreover have "retry_ok (rc_config_retry cfg)" using ok by (simp add: config_ok_def)
  ultimately show "retry_ok (tp_retry t) \<and> tp_provider t \<noteq> [] \<and> tp_timeout_ms t \<noteq> Some 0 \<and> shaping_ok (tp_params t)"
    using l(2) by (auto simp: leaf_to_plan_def leaf_ok_def split: option.split)
qed

section \<open>Properties\<close>

lemma accepted_config_plans_parts:
  assumes "routing_config_parse v ref = Inr cfg"
  shows "config_ok cfg"
    and "1 \<le> length (pn_targets (fst (evaluate cfg md req rng))) \<and> length (pn_targets (fst (evaluate cfg md req rng))) \<le> 32"
    and "pn_strategy (fst (evaluate cfg md req rng)) \<noteq> Conditional"
    and "mset (pn_targets (fst (evaluate cfg md req rng))) =
      mset (map (leaf_to_plan (rc_config_retry cfg)) (concat (map node_leaves (plan_nodes cfg md req))))"
    and "t \<in> set (pn_targets (fst (evaluate cfg md req rng))) \<Longrightarrow>
      tp_provider t \<noteq> [] \<and> tp_timeout_ms t \<noteq> Some 0 \<and> unat (attempts (tp_retry t)) \<le> 5 \<and>
      on_status (tp_retry t) \<subseteq> {408, 429, 500, 502, 503, 504} \<and>
      1 \<le> unat (initial_ms (backoff (tp_retry t))) \<and> unat (initial_ms (backoff (tp_retry t))) \<le> unat (max_ms (backoff (tp_retry t))) \<and>
      unat (max_ms (backoff (tp_retry t))) \<le> 30000 \<and> shaping_ok (tp_params t)"
proof -
  show ok: "config_ok cfg" by (rule routing_config_parse_ok [OF assms])
  show "1 \<le> length (pn_targets (fst (evaluate cfg md req rng))) \<and> length (pn_targets (fst (evaluate cfg md req rng))) \<le> 32"
    by (rule accepted_plan(1) [OF assms])
  show "pn_strategy (fst (evaluate cfg md req rng)) \<noteq> Conditional" by (rule evaluate_strategy [OF ok])
  show "mset (pn_targets (fst (evaluate cfg md req rng))) =
      mset (map (leaf_to_plan (rc_config_retry cfg)) (concat (map node_leaves (plan_nodes cfg md req))))"
    by (rule evaluate_mset [OF ok])
  assume "t \<in> set (pn_targets (fst (evaluate cfg md req rng)))"
  then show "tp_provider t \<noteq> [] \<and> tp_timeout_ms t \<noteq> Some 0 \<and> unat (attempts (tp_retry t)) \<le> 5 \<and>
      on_status (tp_retry t) \<subseteq> {408, 429, 500, 502, 503, 504} \<and>
      1 \<le> unat (initial_ms (backoff (tp_retry t))) \<and> unat (initial_ms (backoff (tp_retry t))) \<le> unat (max_ms (backoff (tp_retry t))) \<and>
      unat (max_ms (backoff (tp_retry t))) \<le> 30000 \<and> shaping_ok (tp_params t)"
    using accepted_plan(2) [OF assms] by (auto simp: retry_ok_def backoff_ok_def ALLOWED_RETRY_STATUS_def word_le_nat_alt)
qed

text \<open>
  C4. Every configuration the parser accepts is well formed, and evaluating it for any request gives a plan that can be executed within the documented bounds: between 1 and 32 targets, never the conditional strategy, each target with a provider, at most 5 retries, only allow-listed retry statuses, a backoff between 1 ms and 30 s, and shaping that only names allow-listed parameters; the plan's targets are exactly the leaves of the targets the strategy selects, in some order.
\<close>

theorem accepted_config_plans:
  assumes "routing_config_parse v ref = Inr cfg"
  shows "(config_ok cfg) \<and>
   (1 \<le> length (pn_targets (fst (evaluate cfg md req rng))) \<and> length (pn_targets (fst (evaluate cfg md req rng))) \<le> 32) \<and>
   (pn_strategy (fst (evaluate cfg md req rng)) \<noteq> Conditional) \<and>
   (mset (pn_targets (fst (evaluate cfg md req rng))) =
      mset (map (leaf_to_plan (rc_config_retry cfg)) (concat (map node_leaves (plan_nodes cfg md req))))) \<and>
   ((t \<in> set (pn_targets (fst (evaluate cfg md req rng)))) \<longrightarrow> tp_provider t \<noteq> [] \<and> tp_timeout_ms t \<noteq> Some 0 \<and> unat (attempts (tp_retry t)) \<le> 5 \<and>
      on_status (tp_retry t) \<subseteq> {408, 429, 500, 502, 503, 504} \<and>
      1 \<le> unat (initial_ms (backoff (tp_retry t))) \<and> unat (initial_ms (backoff (tp_retry t))) \<le> unat (max_ms (backoff (tp_retry t))) \<and>
      unat (max_ms (backoff (tp_retry t))) \<le> 30000 \<and> shaping_ok (tp_params t))"
  by ((rule conjI, rule accepted_config_plans_parts(1) [OF assms]),
      (rule conjI, rule accepted_config_plans_parts(2) [OF assms]),
      (rule conjI, rule accepted_config_plans_parts(3) [OF assms]),
      (rule conjI, rule accepted_config_plans_parts(4) [OF assms]),
      (rule impI, rule accepted_config_plans_parts(5) [OF assms], assumption))

theorem accepted_config_plans_witness:
  "\<exists>cfg. routing_config_parse (VObject [(''targets'', VArray [VObject [(''provider'', VString ''openai'')]])]) Inline = Inr cfg \<and>
     pn_strategy (fst (evaluate cfg [] \<lparr>cp_model = ''m'', cp_user = None, cp_stream = None, cp_max_tokens = None,
       cp_max_completion_tokens = None, cp_temperature = None\<rparr> 0)) \<noteq> Conditional"
proof -
  let ?v = "VObject [(''targets'', VArray [VObject [(''provider'', VString ''openai'')]])]"
  have "\<exists>cfg. routing_config_parse ?v Inline = Inr cfg"
    by (simp add: routing_config_parse_def reject_unknown_def obj_keys_def parse_strategy_def try_opt_def try_or_def
        policy_bounds parse_node.simps parse_leaf_def validate_conditional_def Let_def)
  then obtain cfg where c: "routing_config_parse ?v Inline = Inr cfg" by blast
  from accepted_config_plans [THEN conjunct2, THEN conjunct2, THEN conjunct1, OF c] c show ?thesis by blast
qed

subsection \<open>Further facts\<close>

text \<open>
  In an accepted conditional configuration the first condition that holds decides: the plan is the leaves of the one target it names, labelled with the condition's index; when none holds the plan is that of the default target. The names are unique and always resolve, so the fall-back to the first target is never taken.
\<close>

lemma branch_selection:
  assumes "routing_config_parse v ref = Inr cfg" and "rc_strategy cfg = Conditional"
  shows "k < length (rc_conditions cfg) \<Longrightarrow> eval_when (cn_when (rc_conditions cfg ! k)) md req \<Longrightarrow>
      (\<forall>j<k. \<not> eval_when (cn_when (rc_conditions cfg ! j)) md req) \<Longrightarrow>
      \<exists>n\<in>set (rc_targets cfg). node_name n = Some (cn_target (rc_conditions cfg ! k)) \<and>
        filter (\<lambda>m. node_name m = node_name n) (rc_targets cfg) = [n] \<and>
        pn_matched_label (fst (evaluate cfg md req rng)) = show_nat k \<and>
        mset (pn_targets (fst (evaluate cfg md req rng))) = mset (map (leaf_to_plan (rc_config_retry cfg)) (node_leaves n))"
    and "(\<forall>c\<in>set (rc_conditions cfg). \<not> eval_when (cn_when c) md req) \<Longrightarrow>
      \<exists>n\<in>set (rc_targets cfg). node_name n = rc_default_target cfg \<and>
        filter (\<lambda>m. node_name m = node_name n) (rc_targets cfg) = [n] \<and>
        pn_matched_label (fst (evaluate cfg md req rng)) = ''default'' \<and>
        mset (pn_targets (fst (evaluate cfg md req rng))) = mset (map (leaf_to_plan (rc_config_retry cfg)) (node_leaves n))"
proof -
  have ok: "config_ok cfg" by (rule routing_config_parse_ok [OF assms(1)])
  obtain n where n: "n \<in> set (rc_targets cfg)" "plan_nodes cfg md req = [n]" "node_name n = selected cfg md req"
    using selected_unique [OF ok assms(2)] by blast
  have f: "filter (\<lambda>m. node_name m = node_name n) (rc_targets cfg) = [n]"
    using n(2,3) assms(2) by (simp add: plan_nodes_def)
  have m: "mset (pn_targets (fst (evaluate cfg md req rng))) = mset (map (leaf_to_plan (rc_config_retry cfg)) (node_leaves n))"
    using evaluate_mset [OF ok, of md req rng] n(2) by simp
  have label: "pn_matched_label (fst (evaluate cfg md req rng)) =
      (case first_match 0 md req (rc_conditions cfg) of Some (i, t) \<Rightarrow> show_nat i | None \<Rightarrow> ''default'')"
    using assms(2) by (auto simp: evaluate_def case_prod_beta Let_def split: option.split)
  show "\<exists>n\<in>set (rc_targets cfg). node_name n = Some (cn_target (rc_conditions cfg ! k)) \<and>
        filter (\<lambda>m. node_name m = node_name n) (rc_targets cfg) = [n] \<and>
        pn_matched_label (fst (evaluate cfg md req rng)) = show_nat k \<and>
        mset (pn_targets (fst (evaluate cfg md req rng))) = mset (map (leaf_to_plan (rc_config_retry cfg)) (node_leaves n))"
    if "k < length (rc_conditions cfg)" "eval_when (cn_when (rc_conditions cfg ! k)) md req"
      "\<forall>j<k. \<not> eval_when (cn_when (rc_conditions cfg ! j)) md req"
    using n f m label first_match_eq [OF that, of 0] by (intro bexI [of _ n]) (simp_all add: selected_def)
  show "\<exists>n\<in>set (rc_targets cfg). node_name n = rc_default_target cfg \<and>
        filter (\<lambda>m. node_name m = node_name n) (rc_targets cfg) = [n] \<and>
        pn_matched_label (fst (evaluate cfg md req rng)) = ''default'' \<and>
        mset (pn_targets (fst (evaluate cfg md req rng))) = mset (map (leaf_to_plan (rc_config_retry cfg)) (node_leaves n))"
    if "\<forall>c\<in>set (rc_conditions cfg). \<not> eval_when (cn_when c) md req"
    using n f m label that first_match_None [of 0 md req "rc_conditions cfg"]
    by (intro bexI [of _ n]) (simp_all add: selected_def)
qed

text \<open>
  The wait before retry number i never exceeds the initial delay doubled i times (the doubling stops at 2^31), nor the configured maximum, hence never 30 seconds; without jitter it is exactly the smaller of the two, so the sequence of waits is non-decreasing and does not overflow.
\<close>

lemma backoff_bounded:
  assumes "parse_backoff v ptr = Inr b"
  shows "unat (fst (delay b i rng)) \<le> min (unat (initial_ms b) * 2 ^ min (unat i) 31) (unat (max_ms b))"
    and "unat (fst (delay b i rng)) \<le> 30000"
    and "\<not> jitter b \<Longrightarrow> unat (fst (delay b i rng)) = min (unat (initial_ms b) * 2 ^ min (unat i) 31) (unat (max_ms b))"
    and "\<not> jitter b \<Longrightarrow> i \<le> j \<Longrightarrow> fst (delay b i rng) \<le> fst (delay b j rng')"
proof -
  have ok: "backoff_ok b" by (rule parse_backoff_ok [OF assms])
  show le: "unat (fst (delay b i rng)) \<le> min (unat (initial_ms b) * 2 ^ min (unat i) 31) (unat (max_ms b))"
    using delay_base [OF ok, of i rng] by (simp only: word_le_nat_alt backoff_base_eq)
  show "unat (fst (delay b i rng)) \<le> 30000"
    using le ok by (simp add: backoff_ok_def word_le_nat_alt)
  have eq: "\<not> jitter b \<Longrightarrow> unat (fst (delay b i rng)) = min (unat (initial_ms b) * 2 ^ min (unat i) 31) (unat (max_ms b))"
    for i rng by (simp add: delay_def backoff_base_eq)
  then show "\<not> jitter b \<Longrightarrow> unat (fst (delay b i rng)) = min (unat (initial_ms b) * 2 ^ min (unat i) 31) (unat (max_ms b))" .
  assume j: "\<not> jitter b" and "i \<le> j"
  then have "(2::nat) ^ min (unat i) 31 \<le> 2 ^ min (unat j) 31"
    by (intro power_increasing) (simp_all add: word_le_nat_alt min.coboundedI1)
  then have "unat (initial_ms b) * 2 ^ min (unat i) 31 \<le> unat (initial_ms b) * 2 ^ min (unat j) 31" by simp
  then show "fst (delay b i rng) \<le> fst (delay b j rng')"
    unfolding word_le_nat_alt eq [OF j] by (rule min.mono) simp
qed

text \<open>
  Accepted parameter shaping never changes a member of the request outside the allow-list, in particular neither the messages nor the stream flag; inside it, a dropped parameter is gone, an overridden one has the configured value, and a default is used only when the request has none.
\<close>

lemma shaping_confined:
  assumes "parse_params v ptr = Inr p" and "distinct (obj_keys (sh_default p))" and "distinct (obj_keys (sh_overrides p))"
  shows "k \<notin> set PARAM_ALLOWLIST \<Longrightarrow> obj_get (shape_object p obj) k = obj_get obj k"
    and "obj_get (shape_object p obj) ''messages'' = obj_get obj ''messages''"
    and "obj_get (shape_object p obj) ''stream'' = obj_get obj ''stream''"
    and "k \<in> set (sh_drop p) \<Longrightarrow> obj_get (shape_object p obj) k = None"
    and "obj_get (sh_overrides p) k = Some x \<Longrightarrow> obj_get (shape_object p obj) k = Some x"
    and "k \<notin> set (sh_drop p) \<Longrightarrow> obj_get (sh_overrides p) k = None \<Longrightarrow> obj_get (sh_default p) k = Some x \<Longrightarrow>
      obj_get (shape_object p obj) k = (case obj_get obj k of Some y \<Rightarrow> Some y | None \<Rightarrow> Some x)"
proof -
  have ok: "shaping_ok p" by (rule parse_params_ok [OF assms(1)])
  note get = obj_get_shape [OF assms(2,3)]
  show out: "obj_get (shape_object p obj) k = obj_get obj k" if "k \<notin> set PARAM_ALLOWLIST" for k
  proof -
    have "k \<notin> set (sh_drop p)" "obj_get (sh_default p) k = None" "obj_get (sh_overrides p) k = None"
      using ok that by (auto simp: shaping_ok_def obj_get_None)
    then show ?thesis by (simp add: get split: option.split)
  qed
  show "obj_get (shape_object p obj) ''messages'' = obj_get obj ''messages''"
    and "obj_get (shape_object p obj) ''stream'' = obj_get obj ''stream''"
    by (rule out, simp add: PARAM_ALLOWLIST_def)+
  show "k \<in> set (sh_drop p) \<Longrightarrow> obj_get (shape_object p obj) k = None" by (simp add: get)
  show "obj_get (sh_overrides p) k = Some x \<Longrightarrow> obj_get (shape_object p obj) k = Some x"
  proof -
    assume s: "obj_get (sh_overrides p) k = Some x"
    then have "k \<in> set (obj_keys (sh_overrides p))" using obj_get_None [of "sh_overrides p" k] by auto
    then have "k \<notin> set (sh_drop p)" using ok by (auto simp: shaping_ok_def)
    then show ?thesis using s by (simp add: get)
  qed
  show "k \<notin> set (sh_drop p) \<Longrightarrow> obj_get (sh_overrides p) k = None \<Longrightarrow> obj_get (sh_default p) k = Some x \<Longrightarrow>
      obj_get (shape_object p obj) k = (case obj_get obj k of Some y \<Rightarrow> Some y | None \<Rightarrow> Some x)"
    by (simp add: get split: option.split)
qed

text \<open>
  A loaded registry keeps saved configurations and public combos apart: a configuration header only ever selects an entry under a cfg_ id, never a combo, and what it selects is well formed; and every target of a combo's plan overrides the model, so the combo's public name is never what a provider is asked for.
\<close>

lemma combos_self_contained:
  assumes "load_registry from_str content = Inr r"
  shows "resolve_routing_config from_str (Some h) r = Inr (Some cfg) \<Longrightarrow>
      config_ok cfg \<and> (prefix ''{'' (trim h) \<or> prefix ''cfg_'' (trim h) \<and> map_of r (trim h) = Some cfg)"
    and "map_of r (combo_registry_key name) = Some cfg \<Longrightarrow> t \<in> set (pn_targets (fst (evaluate cfg md req rng))) \<Longrightarrow>
      distinct (obj_keys (sh_default (tp_params t))) \<Longrightarrow> distinct (obj_keys (sh_overrides (tp_params t))) \<Longrightarrow>
      \<exists>m. pinned_model (tp_params t) = Some m \<and> obj_get (shape_object (tp_params t) obj) ''model'' = Some (VString m)"
    and "map_of r k = Some cfg \<Longrightarrow> prefix ''cfg_'' k \<or> (\<exists>name. k = combo_registry_key name \<and> name \<noteq> [])"
proof -
  note ok = load_registry_ok [OF assms]
  show "config_ok cfg \<and> (prefix ''{'' (trim h) \<or> prefix ''cfg_'' (trim h) \<and> map_of r (trim h) = Some cfg)"
    if res: "resolve_routing_config from_str (Some h) r = Inr (Some cfg)"
  proof (cases "prefix ''{'' (trim h)")
    case True
    then obtain routing where "routing_config_parse routing Inline = Inr cfg"
      using res unfolding resolve_routing_config_def Let_def
      by (auto simp: and_then_Inr map_sum_Inr split: if_splits option.splits)
    then show ?thesis using True routing_config_parse_ok by blast
  next
    case False
    then have s: "prefix ''cfg_'' (trim h)" "map_of r (trim h) = Some cfg"
      using res unfolding resolve_routing_config_def Let_def by (auto split: if_splits option.splits)
    then show ?thesis using policy_registry_lookup [OF ok s(2)] by (simp add: registry_entry_ok_def)
  qed
  show "prefix ''cfg_'' k \<or> (\<exists>name. k = combo_registry_key name \<and> name \<noteq> [])" if "map_of r k = Some cfg"
    using policy_registry_lookup [OF ok that] unfolding registry_entry_ok_def by blast
  show "\<exists>m. pinned_model (tp_params t) = Some m \<and> obj_get (shape_object (tp_params t) obj) ''model'' = Some (VString m)"
    if c: "map_of r (combo_registry_key name) = Some cfg" and t: "t \<in> set (pn_targets (fst (evaluate cfg md req rng)))"
      and d: "distinct (obj_keys (sh_default (tp_params t)))" "distinct (obj_keys (sh_overrides (tp_params t)))"
  proof -
    have e: "config_ok cfg" "None \<notin> set (target_models cfg)"
      using policy_registry_lookup [OF ok c] combo_not_saved unfolding registry_entry_ok_def by blast+
    obtain n l where l: "n \<in> set (rc_targets cfg)" "l \<in> set (node_leaves n)" "tp_params t = lf_params l"
    proof -
      obtain l where "l \<in> set (concat (map node_leaves (plan_nodes cfg md req)))" "t = leaf_to_plan (rc_config_retry cfg) l"
        using mset_eq_setD [OF evaluate_mset [OF e(1), of md req rng]] t by auto
      then show thesis using that plan_nodes_subset [of cfg md req] by (auto simp: leaf_to_plan_def)
    qed
    have "pinned_model (lf_params l) \<in> set (target_models cfg)" using l(1,2) by (auto simp: target_models_def)
    then obtain m where m: "pinned_model (tp_params t) = Some m" using e(2) l(3) by (metis not_None_eq)
    have "shaping_ok (lf_params l)"
      using e(1) l(1,2) node_ok_leaves unfolding config_ok_def leaf_ok_def by blast
    then have "shaping_ok (tp_params t)" using l(3) by simp
    moreover have "obj_get (sh_overrides (tp_params t)) ''model'' = Some (VString m)"
      using m by (auto simp: pinned_model_def bind_eq_Some_conv as_str_Some)
    moreover from this have "''model'' \<in> set (obj_keys (sh_overrides (tp_params t)))"
      using obj_get_None [of "sh_overrides (tp_params t)" "''model''"] by auto
    ultimately have "obj_get (shape_object (tp_params t) obj) ''model'' = Some (VString m)"
      by (auto simp: obj_get_shape [OF d] shaping_ok_def)
    then show ?thesis using m by blast
  qed
qed

text \<open>
  The retry-status allow-list is checked after the entry has been cut to 16 bits: an integer is accepted exactly when its value modulo 65536 is an allowed status, so the entry 66036 is accepted and means 500, although the list is meant to reject every other number.
\<close>

lemma wrapped_status_accepted:
  "(\<exists>c. parse_status ptr i (VNumber (PosInt n)) = Inr c) \<longleftrightarrow> unat n mod 65536 \<in> {408, 429, 500, 502, 503, 504}"
  "parse_on_status (Some (VArray [VNumber (PosInt 66036)])) ptr = Inr {500}"
proof -
  have u: "unat (ucast n :: u16) = unat n mod 65536" by (simp add: unsigned_ucast_eq take_bit_eq_mod)
  have "(ucast n :: u16) \<in> {408, 429, 500, 502, 503, 504} \<longleftrightarrow> unat (ucast n :: u16) \<in> {408, 429, 500, 502, 503, 504}"
    by (simp add: word_unat_eq_iff [of "ucast n"])
  moreover have "(\<exists>c. parse_status ptr i (VNumber (PosInt n)) = Inr c) \<longleftrightarrow> (ucast n :: u16) \<in> set ALLOWED_RETRY_STATUS"
    by (auto simp: parse_status_def Let_def)
  ultimately show "(\<exists>c. parse_status ptr i (VNumber (PosInt n)) = Inr c) \<longleftrightarrow> unat n mod 65536 \<in> {408, 429, 500, 502, 503, 504}"
    unfolding u ALLOWED_RETRY_STATUS_def list.set by metis
  show "parse_on_status (Some (VArray [VNumber (PosInt 66036)])) ptr = Inr {500}"
    by (simp add: parse_on_status_def parse_status_def ALLOWED_RETRY_STATUS_def Let_def)
qed

text \<open>
  A condition that compares the temperature for equality with 0.7 (or any decimal that is no 32-bit float) holds for no request: the request's temperature is a 32-bit float, which widened to 64 bits differs from the literal, and the 32-bit value of 0.7 is even below it, so the comparison gte 0.7 fails for a request that says 0.7.
\<close>

lemma temperature_equality_never_holds:
  "cp_temperature req = Some (Finite t) \<Longrightarrow> is_f32 t \<Longrightarrow>
    \<not> eval_op ''eq'' (resolve_path ''params.temperature'' md req) (VNumber (Float (3152519739159347 / 4503599627370496)))"
  "cp_temperature req = Some (Finite (11744051 / 16777216)) \<Longrightarrow>
    \<not> eval_op ''gte'' (resolve_path ''params.temperature'' md req) (VNumber (Float (3152519739159347 / 4503599627370496)))"
proof -
  have path: "resolve_path ''params.temperature'' md req = param_value ''temperature'' req" by (simp add: resolve_path_def)
  show "\<not> eval_op ''eq'' (resolve_path ''params.temperature'' md req) (VNumber (Float (3152519739159347 / 4503599627370496)))"
    if "cp_temperature req = Some (Finite t)" "is_f32 t"
    using that decimal_not_f32 [of t] unfolding path by (auto simp: eval_op_def param_value_def)
  show "\<not> eval_op ''gte'' (resolve_path ''params.temperature'' md req) (VNumber (Float (3152519739159347 / 4503599627370496)))"
    if "cp_temperature req = Some (Finite (11744051 / 16777216))"
    using that unfolding path by (simp add: eval_op_def param_value_def)
qed

end
