(* ===== verification/Ip_Guard.thy ===== *)
theory Ip_Guard
  imports Json
begin

text \<open>
  The outbound-address guard of \<^verbatim>\<open>crates/routeplane/src/custom_providers.rs\<close>: the classification of
  an address and the check of a provider's base URL. Addresses are words, most significant
  octet first. \<^verbatim>\<open>IpAddr::from_str\<close> of the standard library is given by its grammar. The URL
  parser is a parameter (the parts it returns), and so is the system's name resolution.
\<close>

section \<open>Addresses\<close>

type_synonym ipv4 = "32 word"
type_synonym ipv6 = "128 word"

datatype ip_addr = V4 ipv4 | V6 ipv6

definition octet :: "ipv4 \<Rightarrow> nat \<Rightarrow> 8 word" where
  "octet a i = ucast (drop_bit (24 - 8 * i) a)"

definition v4_is_unspecified :: "ipv4 \<Rightarrow> bool" where "v4_is_unspecified a \<longleftrightarrow> a = 0"
definition v4_is_broadcast :: "ipv4 \<Rightarrow> bool" where "v4_is_broadcast a \<longleftrightarrow> a = 0xFFFFFFFF"
definition v4_is_loopback :: "ipv4 \<Rightarrow> bool" where "v4_is_loopback a \<longleftrightarrow> octet a 0 = 127"

definition v4_is_multicast :: "ipv4 \<Rightarrow> bool" where
  "v4_is_multicast a \<longleftrightarrow> 224 \<le> octet a 0 \<and> octet a 0 \<le> 239"

definition v4_is_link_local :: "ipv4 \<Rightarrow> bool" where
  "v4_is_link_local a \<longleftrightarrow> octet a 0 = 169 \<and> octet a 1 = 254"

definition v4_is_private :: "ipv4 \<Rightarrow> bool" where
  "v4_is_private a \<longleftrightarrow>
     octet a 0 = 10 \<or> (octet a 0 = 172 \<and> 16 \<le> octet a 1 \<and> octet a 1 \<le> 31) \<or> (octet a 0 = 192 \<and> octet a 1 = 168)"

definition segment0 :: "ipv6 \<Rightarrow> u16" where
  "segment0 a = ucast (drop_bit 112 a)"

definition v6_is_unspecified :: "ipv6 \<Rightarrow> bool" where "v6_is_unspecified a \<longleftrightarrow> a = 0"
definition v6_is_loopback :: "ipv6 \<Rightarrow> bool" where "v6_is_loopback a \<longleftrightarrow> a = 1"
definition v6_is_multicast :: "ipv6 \<Rightarrow> bool" where "v6_is_multicast a \<longleftrightarrow> segment0 a AND 0xFF00 = 0xFF00"

definition to_ipv4_mapped :: "ipv6 \<Rightarrow> ipv4 option" where
  "to_ipv4_mapped a = (if drop_bit 32 a = 0xFFFF then Some (ucast a) else None)"

definition ipv6_is_link_local :: "ipv6 \<Rightarrow> bool" where
  "ipv6_is_link_local a \<longleftrightarrow> segment0 a AND 0xFFC0 = 0xFE80"

definition ipv6_is_unique_local :: "ipv6 \<Rightarrow> bool" where
  "ipv6_is_unique_local a \<longleftrightarrow> segment0 a AND 0xFE00 = 0xFC00"

datatype block_reason = NonRoutable | LinkLocalMetadata | LinkLocal | PrivateLoopback

definition v4_is_blocked :: "ipv4 \<Rightarrow> bool \<Rightarrow> block_reason option" where
  "v4_is_blocked a allow_private =
     (if v4_is_unspecified a \<or> v4_is_multicast a \<or> v4_is_broadcast a then Some NonRoutable
      else if v4_is_link_local a then Some LinkLocalMetadata
      else if \<not> allow_private \<and> (v4_is_loopback a \<or> v4_is_private a) then Some PrivateLoopback
      else None)"

fun ip_is_blocked :: "ip_addr \<Rightarrow> bool \<Rightarrow> block_reason option" where
  "ip_is_blocked (V4 a) allow_private = v4_is_blocked a allow_private"
| "ip_is_blocked (V6 a) allow_private =
     (if v6_is_unspecified a \<or> v6_is_multicast a then Some NonRoutable
      else if ipv6_is_link_local a then Some LinkLocal
      else case to_ipv4_mapped a of
          Some v4 \<Rightarrow> v4_is_blocked v4 allow_private
        | None \<Rightarrow>
            if \<not> allow_private \<and> (v6_is_loopback a \<or> ipv6_is_unique_local a) then Some PrivateLoopback
            else None)"

section \<open>Text form\<close>

definition hex_value :: "char \<Rightarrow> nat option" where
  "hex_value c =
     (if is_ascii_digit c then Some (of_char c - 48)
      else if 97 \<le> (of_char c :: nat) \<and> (of_char c :: nat) \<le> 102 then Some (of_char c - 87)
      else if 65 \<le> (of_char c :: nat) \<and> (of_char c :: nat) \<le> 70 then Some (of_char c - 55)
      else None)"

definition parse_octet :: "string \<Rightarrow> nat option" where
  "parse_octet s =
     (if s \<noteq> [] \<and> length s \<le> 3 \<and> list_all is_ascii_digit s \<and> (hd s = CHR ''0'' \<longrightarrow> length s = 1) \<and> read_nat s \<le> 255
      then Some (read_nat s) else None)"

definition parse_v4 :: "string \<Rightarrow> ipv4 option" where
  "parse_v4 s =
     (case map parse_octet (split_on CHR ''.'' s) of
        [Some a, Some b, Some c, Some d] \<Rightarrow> Some (of_nat (((a * 256 + b) * 256 + c) * 256 + d))
      | _ \<Rightarrow> None)"

definition parse_group :: "string \<Rightarrow> nat option" where
  "parse_group s =
     (if s \<noteq> [] \<and> length s \<le> 4 \<and> list_all (\<lambda>c. hex_value c \<noteq> None) s
      then Some (foldl (\<lambda>n c. 16 * n + the (hex_value c)) 0 s) else None)"

text \<open>Colon-separated groups; the last one may be a dotted address, which stands for two.\<close>

fun parse_groups :: "string list \<Rightarrow> nat list option" where
  "parse_groups [] = Some []"
| "parse_groups [g] =
     (case parse_group g of
        Some n \<Rightarrow> Some [n]
      | None \<Rightarrow> map_option (\<lambda>a. [unat (drop_bit 16 a), unat (a AND 0xFFFF)]) (parse_v4 g))"
| "parse_groups (g # gs) = Option.bind (parse_group g) (\<lambda>n. map_option (\<lambda>ns. n # ns) (parse_groups gs))"

definition groups_of :: "string \<Rightarrow> nat list option" where
  "groups_of s = (if s = [] then Some [] else parse_groups (split_on CHR '':'' s))"

definition hex_only :: "string \<Rightarrow> bool" where
  "hex_only s \<longleftrightarrow> s = [] \<or> list_all (\<lambda>g. parse_group g \<noteq> None) (split_on CHR '':'' s)"

text \<open>The text before and after the first \<open>::\<close>.\<close>

fun split_elision :: "string \<Rightarrow> (string \<times> string) option" where
  "split_elision (a # b # s) =
     (if a = CHR '':'' \<and> b = CHR '':'' then Some ([], s)
      else map_option (\<lambda>(h, t). (a # h, t)) (split_elision (b # s)))"
| "split_elision _ = None"

definition join_groups :: "nat list \<Rightarrow> ipv6" where
  "join_groups ns = of_nat (foldl (\<lambda>x n. 65536 * x + n) 0 ns)"

definition parse_v6 :: "string \<Rightarrow> ipv6 option" where
  "parse_v6 s =
     (case split_elision s of
        None \<Rightarrow>
          (case groups_of s of Some ns \<Rightarrow> if length ns = 8 then Some (join_groups ns) else None | None \<Rightarrow> None)
      | Some (h, t) \<Rightarrow>
          (case (groups_of h, groups_of t) of
             (Some hs, Some ts) \<Rightarrow>
               if hex_only h \<and> length hs + length ts \<le> 7
               then Some (join_groups (hs @ replicate (8 - length hs - length ts) 0 @ ts)) else None
           | _ \<Rightarrow> None))"

definition parse_ip :: "string \<Rightarrow> ip_addr option" where
  "parse_ip s =
     (case parse_v4 s of Some a \<Rightarrow> Some (V4 a) | None \<Rightarrow> map_option V6 (parse_v6 s))"

section \<open>The check of a base URL\<close>

record url =
  url_scheme :: string
  url_username :: string
  url_password :: "string option"
  url_host :: "string option"
  url_port :: "u16 option"
  url_query :: "string option"
  url_fragment :: "string option"

datatype ssrf_error = InvalidUrl | NoHost | Refused block_reason

text \<open>\<^verbatim>\<open>(host, port).to_socket_addrs()\<close>: a literal address as such, any other name by the system's
  resolver.\<close>

definition socket_addrs :: "(string \<Rightarrow> ip_addr list option) \<Rightarrow> string \<Rightarrow> ip_addr list option" where
  "socket_addrs lookup host = (case parse_ip host of Some ip \<Rightarrow> Some [ip] | None \<Rightarrow> lookup host)"

fun first_blocked :: "bool \<Rightarrow> ip_addr list \<Rightarrow> block_reason option" where
  "first_blocked allow_private [] = None"
| "first_blocked allow_private (ip # ips) =
     (case ip_is_blocked ip allow_private of Some r \<Rightarrow> Some r | None \<Rightarrow> first_blocked allow_private ips)"

definition ssrf_check ::
  "(string \<Rightarrow> url option) \<Rightarrow> (string \<Rightarrow> ip_addr list option) \<Rightarrow> string \<Rightarrow> bool \<Rightarrow> ssrf_error + unit" where
  "ssrf_check url_parse lookup base_url allow_private =
     (case url_parse base_url of
        None \<Rightarrow> Inl InvalidUrl
      | Some parsed \<Rightarrow>
          (case url_host parsed of
             None \<Rightarrow> Inl NoHost
           | Some host \<Rightarrow>
               (case parse_ip host of
                  Some ip \<Rightarrow>
                    (case ip_is_blocked ip allow_private of Some r \<Rightarrow> Inl (Refused r) | None \<Rightarrow> Inr ())
                | None \<Rightarrow>
                    (case socket_addrs lookup host of
                       Some addrs \<Rightarrow>
                         (case first_blocked allow_private addrs of Some r \<Rightarrow> Inl (Refused r) | None \<Rightarrow> Inr ())
                     | None \<Rightarrow> Inr ()))))"

section \<open>Networks\<close>

definition in_net4 :: "ipv4 \<Rightarrow> ipv4 \<Rightarrow> nat \<Rightarrow> bool" where
  "in_net4 base a len \<longleftrightarrow> unat a div 2 ^ (32 - len) = unat base div 2 ^ (32 - len)"

definition in_net6 :: "ipv6 \<Rightarrow> ipv6 \<Rightarrow> nat \<Rightarrow> bool" where
  "in_net6 base a len \<longleftrightarrow> unat a div 2 ^ (128 - len) = unat base div 2 ^ (128 - len)"

lemma octet0: "unat (octet a 0) = unat a div 2 ^ 24"
proof -
  have "unat a < 2 ^ 32" using unsigned_less [of a] by simp
  then have "unat a div 2 ^ 24 < 256" by (simp add: less_mult_imp_div_less)
  then show ?thesis by (simp add: octet_def unsigned_ucast_eq take_bit_eq_mod unat_div drop_bit_eq_div)
qed

lemma octet1: "unat (octet a 1) = unat a div 2 ^ 16 mod 256"
  by (simp add: octet_def unsigned_ucast_eq take_bit_eq_mod unat_div drop_bit_eq_div)

lemma top_octet: "unat a div 2 ^ 24 = (unat a div 2 ^ 16) div (256::nat)"
  by (simp add: div_mult2_eq [symmetric])

lemma segment0_nat: "unat (segment0 a) = unat a div 2 ^ 112"
proof -
  have "unat a < 2 ^ 128" using unsigned_less [of a] by simp
  then have "unat a div 2 ^ 112 < 65536" by (simp add: less_mult_imp_div_less)
  then show ?thesis by (simp add: segment0_def unsigned_ucast_eq take_bit_eq_mod unat_div drop_bit_eq_div)
qed

text \<open>The first two octets as one number, and quotients as intervals.\<close>

lemma leading_octets:
  "unat (octet a 0) = unat a div 65536 div 256" "unat (octet a (Suc 0)) = unat a div 65536 mod 256"
  using octet0 [of a] octet1 [of a] top_octet [of a] by simp_all

lemma div_interval: "(0::nat) < d \<Longrightarrow> x div d = q \<longleftrightarrow> q * d \<le> x \<and> x < q * d + d"
  using div_times_less_eq_dividend [of x d] dividend_less_div_times [of d x] by (auto intro!: div_nat_eqI simp: ac_simps)

lemma div_mod_interval:
  assumes "lo \<le> hi" "hi < (256::nat)"
  shows "x div 256 = q \<and> lo \<le> x mod 256 \<and> x mod 256 \<le> hi \<longleftrightarrow> q * 256 + lo \<le> x \<and> x \<le> q * 256 + hi"
proof -
  obtain p r where x: "x = p * 256 + r" "r < 256"
    using div_mult_mod_eq [of x 256] by (metis mod_less_divisor zero_less_numeral)
  then have "p \<noteq> q \<Longrightarrow> \<not> (q * 256 + lo \<le> x \<and> x \<le> q * 256 + hi)"
    using assms by linarith
  then show ?thesis using x by (cases "p = q") auto
qed

lemma link_local4: "v4_is_link_local a \<longleftrightarrow> in_net4 0xA9FE0000 a 16"
proof -
  obtain x where x: "unat a div 65536 = x" by blast
  have "v4_is_link_local a \<longleftrightarrow> x div 256 = 169 \<and> 254 \<le> x mod 256 \<and> x mod 256 \<le> 254"
    by (auto simp: v4_is_link_local_def word_unat_eq_iff [of "octet a 0"] word_unat_eq_iff [of "octet a (Suc 0)"]
        leading_octets x)
  also have "\<dots> \<longleftrightarrow> x = 43518" by (subst div_mod_interval) auto
  finally show ?thesis by (simp add: in_net4_def x)
qed

lemma loopback4: "v4_is_loopback a \<longleftrightarrow> in_net4 0x7F000000 a 8"
  by (simp add: v4_is_loopback_def word_unat_eq_iff [of "octet a 0"] octet0 in_net4_def)

lemma multicast4: "v4_is_multicast a \<longleftrightarrow> in_net4 0xE0000000 a 4"
proof -
  obtain x where x: "unat a div 16777216 = x" by blast
  have "unat a div 268435456 = x div 16" by (simp add: x [symmetric] div_mult2_eq [symmetric])
  moreover have "v4_is_multicast a \<longleftrightarrow> 224 \<le> x \<and> x \<le> 239"
    by (simp add: v4_is_multicast_def word_le_nat_alt octet0 x)
  moreover have "224 \<le> x \<and> x \<le> 239 \<longleftrightarrow> x div 16 = 14" by (subst div_interval) auto
  ultimately show ?thesis by (simp add: in_net4_def)
qed

lemma private4:
  "v4_is_private a \<longleftrightarrow> in_net4 0x0A000000 a 8 \<or> in_net4 0xAC100000 a 12 \<or> in_net4 0xC0A80000 a 16"
proof -
  obtain x where x: "unat a div 65536 = x" by blast
  have d: "unat a div 16777216 = x div 256" "unat a div 1048576 = x div 16"
    by (simp_all add: x [symmetric] div_mult2_eq [symmetric])
  have "v4_is_private a \<longleftrightarrow> x div 256 = 10 \<or> (x div 256 = 172 \<and> 16 \<le> x mod 256 \<and> x mod 256 \<le> 31) \<or>
      (x div 256 = 192 \<and> 168 \<le> x mod 256 \<and> x mod 256 \<le> 168)"
    by (auto simp: v4_is_private_def word_unat_eq_iff [of "octet a 0"] word_unat_eq_iff [of "octet a (Suc 0)"]
        word_le_nat_alt leading_octets x)
  also have "\<dots> \<longleftrightarrow> x div 256 = 10 \<or> (44048 \<le> x \<and> x \<le> 44063) \<or> x = 49320"
    by (subst (1 2) div_mod_interval) auto
  also have "44048 \<le> x \<and> x \<le> 44063 \<longleftrightarrow> x div 16 = 2753" by (subst div_interval) auto
  finally show ?thesis by (simp add: in_net4_def x d)
qed

text \<open>A test of leading bits by a mask is a comparison of quotients.\<close>

lemma high_bits: "unat (w AND NOT (mask n) :: u16) = unat w div 2 ^ n * 2 ^ n"
proof -
  have l: "unat w < 65536" using unsigned_less [of w] by simp
  have "w AND NOT (mask n) = push_bit n (drop_bit n w)"
    by (rule bit_word_eqI) (auto simp: bit_simps)
  then have "unat (w AND NOT (mask n)) = push_bit n (drop_bit n (unat w)) mod 2 ^ 16"
    by (simp only: unsigned_push_bit_eq unsigned_drop_bit_eq take_bit_eq_mod) (use l in simp)
  moreover have "unat w div 2 ^ n * 2 ^ n < 2 ^ 16"
    using le_less_trans [OF div_times_less_eq_dividend l] by simp
  ultimately show ?thesis
    by (simp add: push_bit_eq_mult drop_bit_eq_div)
qed

lemma segment0_masked:
  assumes "NOT (mask n) = m" "unat c = d * 2 ^ n"
  shows "segment0 a AND m = c \<longleftrightarrow> unat a div 2 ^ (112 + n) = d"
  using high_bits [of "segment0 a" n] assms
  by (simp add: word_unat_eq_iff [of _ c] segment0_nat div_mult2_eq power_add)

lemma link_local6: "ipv6_is_link_local a \<longleftrightarrow> in_net6 0xFE800000000000000000000000000000 a 10"
  using segment0_masked [of 6 "0xFFC0" "0xFE80" 1018 a]
  by (simp add: ipv6_is_link_local_def in_net6_def mask_eq_exp_minus_1)

lemma unique_local6: "ipv6_is_unique_local a \<longleftrightarrow> in_net6 0xFC000000000000000000000000000000 a 7"
  using segment0_masked [of 9 "0xFE00" "0xFC00" 126 a]
  by (simp add: ipv6_is_unique_local_def in_net6_def mask_eq_exp_minus_1)

lemma multicast6: "v6_is_multicast a \<longleftrightarrow> in_net6 0xFF000000000000000000000000000000 a 8"
  using segment0_masked [of 8 "0xFF00" "0xFF00" 255 a]
  by (simp add: v6_is_multicast_def in_net6_def mask_eq_exp_minus_1)

lemmas networks = link_local4 loopback4 multicast4 private4 link_local6 unique_local6 multicast6

text \<open>A mapped address is in none of the IPv6 networks.\<close>

lemma mapped_low:
  assumes "to_ipv4_mapped a = Some v"
  shows "a \<noteq> 0" "\<not> in_net6 0xFF000000000000000000000000000000 a 8" "\<not> in_net6 0xFE800000000000000000000000000000 a 10"
proof -
  have "drop_bit 32 a = 0xFFFF" using assms by (simp add: to_ipv4_mapped_def split: if_splits)
  then have "unat (drop_bit 32 a) = 65535" by simp
  then have d: "unat a div 4294967296 = 65535" by (simp add: drop_bit_eq_div unat_div)
  then show "a \<noteq> 0" by auto
  have "unat a div (4294967296 * k) = 65535 div k" for k using d by (simp add: div_mult2_eq)
  from this [of "2 ^ 88"] this [of "2 ^ 86"]
  show "\<not> in_net6 0xFF000000000000000000000000000000 a 8" "\<not> in_net6 0xFE800000000000000000000000000000 a 10"
    by (simp_all add: in_net6_def)
qed

lemma join_zeros [simp]: "foldl (\<lambda>x n. 65536 * x + n) 0 (replicate k 0) = (0::nat)"
  by (induction k) simp_all

section \<open>Bracketed hosts\<close>

lemma split_on_Cons: "c \<noteq> sep \<Longrightarrow> \<exists>p ps. split_on sep (c # s) = (c # p) # ps"
  using split_on_nonempty [of sep s] by (cases "split_on sep s") auto

lemma bracket_octet: "parse_octet (CHR ''['' # p) = None"
  by (simp add: parse_octet_def is_ascii_digit_def)

lemma bracket_group: "parse_group (CHR ''['' # p) = None"
  by (simp add: parse_group_def hex_value_def is_ascii_digit_def)

lemma bracket_v4: "parse_v4 (CHR ''['' # s) = None"
proof -
  obtain p ps where "split_on CHR ''.'' (CHR ''['' # s) = (CHR ''['' # p) # ps"
    using split_on_Cons [of "CHR ''[''" "CHR ''.''" s] by auto
  then show ?thesis by (simp add: parse_v4_def bracket_octet)
qed

lemma bracket_groups: "groups_of (CHR ''['' # s) = None"
proof -
  obtain p ps where "split_on CHR '':'' (CHR ''['' # s) = (CHR ''['' # p) # ps"
    using split_on_Cons [of "CHR ''[''" "CHR '':''" s] by auto
  then show ?thesis by (cases ps) (simp_all add: groups_of_def bracket_group bracket_v4)
qed

lemma bracket_elision: "split_elision (CHR ''['' # s) = Some (h, t) \<Longrightarrow> \<exists>h'. h = CHR ''['' # h'"
  by (cases s) auto

lemma bracket_not_ip: "parse_ip (CHR ''['' # s) = None"
proof -
  have "parse_v6 (CHR ''['' # s) = None"
    by (auto simp: parse_v6_def bracket_groups split: option.split dest!: bracket_elision)
  then show ?thesis by (simp add: parse_ip_def bracket_v4)
qed

lemma first_blocked_None: "first_blocked allow_private ips = None \<longleftrightarrow> (\<forall>ip\<in>set ips. ip_is_blocked ip allow_private = None)"
  by (induction ips) (auto split: option.split)

section \<open>Properties\<close>

lemma guard_networks_parts:
  shows "ip_is_blocked (V4 a) allow_private = None \<longleftrightarrow>
      a \<noteq> 0 \<and> a \<noteq> 0xFFFFFFFF \<and> \<not> in_net4 0xE0000000 a 4 \<and> \<not> in_net4 0xA9FE0000 a 16 \<and>
      (\<not> allow_private \<longrightarrow> \<not> in_net4 0x7F000000 a 8 \<and> \<not> in_net4 0x0A000000 a 8 \<and> \<not> in_net4 0xAC100000 a 12 \<and> \<not> in_net4 0xC0A80000 a 16)"
    and "to_ipv4_mapped b = Some v \<Longrightarrow> ip_is_blocked (V6 b) allow_private = ip_is_blocked (V4 v) allow_private"
    and "to_ipv4_mapped b = None \<Longrightarrow> ip_is_blocked (V6 b) allow_private = None \<longleftrightarrow>
      b \<noteq> 0 \<and> \<not> in_net6 0xFF000000000000000000000000000000 b 8 \<and> \<not> in_net6 0xFE800000000000000000000000000000 b 10 \<and>
      (\<not> allow_private \<longrightarrow> b \<noteq> 1 \<and> \<not> in_net6 0xFC000000000000000000000000000000 b 7)"
proof -
  show "ip_is_blocked (V4 a) allow_private = None \<longleftrightarrow>
      a \<noteq> 0 \<and> a \<noteq> 0xFFFFFFFF \<and> \<not> in_net4 0xE0000000 a 4 \<and> \<not> in_net4 0xA9FE0000 a 16 \<and>
      (\<not> allow_private \<longrightarrow> \<not> in_net4 0x7F000000 a 8 \<and> \<not> in_net4 0x0A000000 a 8 \<and> \<not> in_net4 0xAC100000 a 12 \<and> \<not> in_net4 0xC0A80000 a 16)"
    by (auto simp: v4_is_blocked_def v4_is_unspecified_def v4_is_broadcast_def networks)
  show "ip_is_blocked (V6 b) allow_private = ip_is_blocked (V4 v) allow_private" if m: "to_ipv4_mapped b = Some v"
    using mapped_low [OF m] m by (auto simp: v6_is_unspecified_def networks)
  show "ip_is_blocked (V6 b) allow_private = None \<longleftrightarrow>
      b \<noteq> 0 \<and> \<not> in_net6 0xFF000000000000000000000000000000 b 8 \<and> \<not> in_net6 0xFE800000000000000000000000000000 b 10 \<and>
      (\<not> allow_private \<longrightarrow> b \<noteq> 1 \<and> \<not> in_net6 0xFC000000000000000000000000000000 b 7)" if "to_ipv4_mapped b = None"
    using that by (auto simp: v6_is_unspecified_def v6_is_loopback_def networks)
qed

text \<open>
  C32. The address guard refuses exactly the documented networks. An IPv4 address passes iff it is not unspecified, broadcast, multicast (224.0.0.0/4) or link-local (169.254.0.0/16, the cloud metadata network), nor, unless private endpoints are allowed, loopback (127.0.0.0/8) or private (10/8, 172.16/12, 192.168/16). An IPv4-mapped IPv6 address is judged by the embedded address; any other IPv6 address passes iff it is outside ff00::/8 and fe80::/10, not unspecified and, unless allowed, not ::1 or in fc00::/7.
\<close>

theorem guard_networks:
  shows "(ip_is_blocked (V4 a) allow_private = None \<longleftrightarrow>
      a \<noteq> 0 \<and> a \<noteq> 0xFFFFFFFF \<and> \<not> in_net4 0xE0000000 a 4 \<and> \<not> in_net4 0xA9FE0000 a 16 \<and>
      (\<not> allow_private \<longrightarrow> \<not> in_net4 0x7F000000 a 8 \<and> \<not> in_net4 0x0A000000 a 8 \<and> \<not> in_net4 0xAC100000 a 12 \<and> \<not> in_net4 0xC0A80000 a 16)) \<and>
   ((to_ipv4_mapped b = Some v) \<longrightarrow> ip_is_blocked (V6 b) allow_private = ip_is_blocked (V4 v) allow_private) \<and>
   ((to_ipv4_mapped b = None) \<longrightarrow> ip_is_blocked (V6 b) allow_private = None \<longleftrightarrow>
      b \<noteq> 0 \<and> \<not> in_net6 0xFF000000000000000000000000000000 b 8 \<and> \<not> in_net6 0xFE800000000000000000000000000000 b 10 \<and>
      (\<not> allow_private \<longrightarrow> b \<noteq> 1 \<and> \<not> in_net6 0xFC000000000000000000000000000000 b 7))"
  by ((rule conjI, rule guard_networks_parts(1)),
      (rule conjI, rule impI, rule guard_networks_parts(2), assumption),
      (rule impI, rule guard_networks_parts(3), assumption))

theorem guard_networks_witness:
  "ip_is_blocked (V6 0xFFFFA9FEA9FE) True = Some LinkLocalMetadata"
proof -
  have "to_ipv4_mapped 0xFFFFA9FEA9FE = Some 0xA9FEA9FE" by (simp add: to_ipv4_mapped_def drop_bit_eq_div word_unat_eq_iff unat_div)
  from guard_networks [THEN conjunct2, THEN conjunct1, THEN mp, OF this] show ?thesis
    by (simp add: v4_is_blocked_def v4_is_unspecified_def v4_is_broadcast_def networks in_net4_def)
qed

subsection \<open>Further facts\<close>

text \<open>
  A base URL passes the registration check iff it parses, has a host, and either the host is a literal address or a name all of whose resolved addresses pass the guard, or the name does not resolve; so every address a resolvable host has at that moment is outside the refused networks.
\<close>

lemma ssrf_check_passes:
  shows "ssrf_check url_parse lookup base_url allow_private = Inr () \<longleftrightarrow>
    (\<exists>u host. url_parse base_url = Some u \<and> url_host u = Some host \<and>
      (\<forall>addrs. socket_addrs lookup host = Some addrs \<longrightarrow> (\<forall>ip\<in>set addrs. ip_is_blocked ip allow_private = None)))"
proof (cases "url_parse base_url")
  case (Some u)
  show ?thesis
  proof (cases "url_host u")
    case (Some host)
    show ?thesis
    proof (cases "parse_ip host")
      case None
      then show ?thesis
        using Some \<open>url_parse base_url = Some u\<close> first_blocked_None [of allow_private "the (lookup host)"]
        by (cases "lookup host"; cases "first_blocked allow_private (the (lookup host))") (simp_all add: ssrf_check_def socket_addrs_def)
    next
      case (Some ip)
      then show ?thesis
        using \<open>url_host u = Some host\<close> \<open>url_parse base_url = Some u\<close>
        by (cases "ip_is_blocked ip allow_private") (simp_all add: ssrf_check_def socket_addrs_def)
    qed
  qed (use Some in \<open>simp add: ssrf_check_def\<close>)
qed (simp add: ssrf_check_def)

text \<open>
  A base URL whose host is an IPv6 literal is never checked: the URL crate returns such a host in brackets, the bracketed text is not an address, the resolver does not know it, and a host that does not resolve passes. So a link-local, loopback or IPv4-mapped metadata address is accepted in brackets, whatever the opt-in says.
\<close>

lemma bracketed_address_not_checked:
  assumes "url_parse base_url = Some u" and "url_host u = Some (CHR ''['' # literal @ '']'')"
    and "parse_ip literal = Some ip" and "ip_is_blocked ip allow_private = Some r"
    and "lookup (CHR ''['' # literal @ '']'') = None"
  shows "ssrf_check url_parse lookup base_url allow_private = Inr ()"
  using assms bracket_not_ip [of "literal @ '']''"] by (simp add: ssrf_check_def socket_addrs_def)

end
