(* ===== verification/Custom_Providers.thy ===== *)
theory Custom_Providers
  imports Ip_Guard Health_Tracker "HOL-Library.List_Lexorder" "HOL-Library.Char_ord" "HOL-Library.Product_Lexorder" "HOL-Library.Multiset"
begin

text \<open>
  The runtime registry of tenant-defined upstreams: \<^verbatim>\<open>crates/routeplane/src/custom_providers.rs\<close>
  and the handlers of \<^verbatim>\<open>providers_api.rs\<close>. A snapshot lists its entries in the iteration order
  of the hash map that holds them; \<open>arrange\<close> is that order, any rearrangement of the entries.
  The URL parser, the name resolution, the wall clock and the outcome of each file operation
  are parameters.
\<close>

section \<open>Configurations\<close>

record provider_config =
  cp_tenant_id :: "string option"
  cp_name :: string
  cp_base_url :: string
  cp_api_key :: string
  cp_models :: "string list"
  cp_stream_include_usage :: "bool option"
  cp_created_at :: "string option"

record provider_view =
  pv_name :: string
  pv_base_url :: string
  pv_api_key :: string
  pv_models :: "string list"
  pv_created_at :: "string option"

definition ellipsis :: string where
  "ellipsis = bytes [0xE2, 0x80, 0xA6]"

definition mask_key :: "string \<Rightarrow> string" where
  "mask_key key =
     (let n = length (chars key) in
      if 8 \<le> n then ellipsis @ concat (drop (n - 4) (chars key)) else ellipsis)"

definition view_of :: "provider_config \<Rightarrow> provider_view" where
  "view_of cfg =
     \<lparr>pv_name = cp_name cfg, pv_base_url = cp_base_url cfg, pv_api_key = mask_key (cp_api_key cfg),
      pv_models = cp_models cfg, pv_created_at = cp_created_at cfg\<rparr>"

definition trim_end_slashes :: "string \<Rightarrow> string" where
  "trim_end_slashes s = rev (dropWhile (\<lambda>c. c = CHR ''/'') (rev s))"

definition name_byte :: "char \<Rightarrow> bool" where
  "name_byte b \<longleftrightarrow> is_ascii_lowercase b \<or> is_ascii_digit b \<or> b = CHR ''_'' \<or> b = CHR ''-''"

datatype provider_config_error =
  NameLength | NameBytes | UrlInvalid | UrlScheme | UrlHost | UrlCredentials | UrlQuery
| ApiKeyLength | ModelLength | ModelCount

text \<open>The loop over the model ids: trimmed, checked and deduplicated.\<close>

fun normalize_models :: "string list \<Rightarrow> string list \<Rightarrow> provider_config_error + string list" where
  "normalize_models models [] = Inr models"
| "normalize_models models (m # ms) =
     (let m = trim m in
      if m = [] \<or> 256 < length m then Inl ModelLength
      else normalize_models (if m \<in> set models then models else models @ [m]) ms)"

definition check_url :: "url \<Rightarrow> provider_config_error + unit" where
  "check_url parsed =
     (if url_scheme parsed \<noteq> ''http'' \<and> url_scheme parsed \<noteq> ''https'' then Inl UrlScheme
      else if (case url_host parsed of Some h \<Rightarrow> h = [] | None \<Rightarrow> True) then Inl UrlHost
      else if url_username parsed \<noteq> [] \<or> url_password parsed \<noteq> None then Inl UrlCredentials
      else if url_query parsed \<noteq> None \<or> url_fragment parsed \<noteq> None then Inl UrlQuery
      else Inr ())"

definition validate_and_normalize ::
  "(string \<Rightarrow> url option) \<Rightarrow> provider_config \<Rightarrow> provider_config_error + provider_config" where
  "validate_and_normalize url_parse cfg =
     (let name = trim (cp_name cfg); base_url = trim_end_slashes (trim (cp_base_url cfg)) in
      if name = [] \<or> 64 < length name then Inl NameLength
      else if \<not> list_all name_byte name then Inl NameBytes
      else case url_parse base_url of
        None \<Rightarrow> Inl UrlInvalid
      | Some parsed \<Rightarrow>
          and_then (check_url parsed) (\<lambda>_.
          if cp_api_key cfg = [] \<or> 512 < length (cp_api_key cfg) then Inl ApiKeyLength
          else and_then (normalize_models [] (cp_models cfg)) (\<lambda>models.
          if models = [] \<or> 128 < length models then Inl ModelCount
          else Inr (cfg\<lparr>cp_name := name, cp_base_url := base_url, cp_models := models\<rparr>))))"

definition custom_provider_allow_private :: "string option \<Rightarrow> bool" where
  "custom_provider_allow_private env =
     (case env of
        None \<Rightarrow> False
      | Some v \<Rightarrow> to_ascii_lowercase (trim v) \<in> {''1'', ''on'', ''true'', ''yes''})"

section \<open>Snapshots\<close>

text \<open>The adapter of an entry: \<^verbatim>\<open>SelfHostedProvider\<close> of \<^verbatim>\<open>adapters/src/openai_compatible.rs\<close>.\<close>

record self_hosted =
  sh_base_url :: string
  sh_region :: string
  sh_stream_include_usage :: bool

definition self_hosted_new :: "string \<Rightarrow> string \<Rightarrow> self_hosted" where
  "self_hosted_new base_url region =
     \<lparr>sh_base_url = trim_end_slashes base_url, sh_region = region, sh_stream_include_usage = True\<rparr>"

definition without_stream_usage :: "self_hosted \<Rightarrow> self_hosted" where
  "without_stream_usage p = p\<lparr>sh_stream_include_usage := False\<rparr>"

definition resident_regions :: "self_hosted \<Rightarrow> string list" where
  "resident_regions p = (if sh_region p = [] then [] else [sh_region p])"

record provider_entry =
  en_config :: provider_config
  en_adapter :: self_hosted

type_synonym owned_key = "string \<times> string"

record runtime_providers =
  by_name :: "(owned_key \<times> provider_entry) list"
  model_index :: "(owned_key \<times> string) list"

definition owner_of :: "provider_config \<Rightarrow> string" where
  "owner_of cfg = (case cp_tenant_id cfg of Some t \<Rightarrow> t | None \<Rightarrow> GLOBAL_OWNER)"

definition entry_of :: "provider_config \<Rightarrow> provider_entry" where
  "entry_of cfg =
     \<lparr>en_config = cfg,
      en_adapter =
        (let self_hosted = self_hosted_new (cp_base_url cfg) [] in
         if cp_stream_include_usage cfg = Some False then without_stream_usage self_hosted else self_hosted)\<rparr>"

datatype store_error = DuplicateName string | SerializeFailed | JoinFailed | IoFailed

fun index_configs ::
  "(owned_key \<times> provider_entry) list \<Rightarrow> provider_config list \<Rightarrow> store_error + (owned_key \<times> provider_entry) list" where
  "index_configs es [] = Inr es"
| "index_configs es (cfg # cfgs) =
     (let key = (owner_of cfg, cp_name cfg) in
      if map_of es key \<noteq> None then Inl (DuplicateName (cp_name cfg))
      else index_configs (es @ [(key, entry_of cfg)]) cfgs)"

text \<open>\<^verbatim>\<open>entry(k).or_insert_with\<close> for each model of one provider, then for the providers in order.\<close>

fun index_models :: "owned_key \<Rightarrow> (owned_key \<times> string) list \<Rightarrow> string list \<Rightarrow> (owned_key \<times> string) list" where
  "index_models key mi [] = mi"
| "index_models key mi (m # ms) =
     index_models key (if map_of mi (fst key, m) \<noteq> None then mi else mi @ [((fst key, m), snd key)]) ms"

fun index_names ::
  "(owned_key \<times> provider_entry) list \<Rightarrow> (owned_key \<times> string) list \<Rightarrow> owned_key list \<Rightarrow> (owned_key \<times> string) list" where
  "index_names es mi [] = mi"
| "index_names es mi (key # keys) =
     index_names es
       (case map_of es key of Some e \<Rightarrow> index_models key mi (cp_models (en_config e)) | None \<Rightarrow> mi) keys"

type_synonym arrangement = "(owned_key \<times> provider_entry) list \<Rightarrow> (owned_key \<times> provider_entry) list"

definition providers_build :: "arrangement \<Rightarrow> provider_config list \<Rightarrow> store_error + runtime_providers" where
  "providers_build arrange configs =
     and_then (index_configs [] configs) (\<lambda>es.
     Inr \<lparr>by_name = arrange es, model_index = index_names (arrange es) [] (sort (map fst (arrange es)))\<rparr>)"

definition providers_default :: runtime_providers where
  "providers_default = \<lparr>by_name = [], model_index = []\<rparr>"

definition configs_sorted :: "runtime_providers \<Rightarrow> provider_config list" where
  "configs_sorted r = sort_key cp_name (map (\<lambda>(k, e). en_config e) (by_name r))"

section \<open>The file\<close>

text \<open>
  \<^verbatim>\<open>write_atomic\<close> as the steps it takes on the directory, the temporary file and the target; \<open>ok\<close>
  tells which of the calls succeed. Contents are the configurations they decode to.
\<close>

record registry_file =
  rf_target :: "provider_config list option"
  rf_tmp :: "provider_config list option"

datatype io_call = CreateDir | OpenTmp | WriteTmp | SyncTmp | RenameTmp

fun io_effect :: "provider_config list \<Rightarrow> io_call \<Rightarrow> registry_file \<Rightarrow> registry_file" where
  "io_effect contents CreateDir f = f"
| "io_effect contents OpenTmp f = f\<lparr>rf_tmp := Some []\<rparr>"
| "io_effect contents WriteTmp f = f\<lparr>rf_tmp := Some contents\<rparr>"
| "io_effect contents SyncTmp f = f"
| "io_effect contents RenameTmp f = f\<lparr>rf_target := rf_tmp f, rf_tmp := None\<rparr>"

definition write_steps :: "io_call list" where
  "write_steps = [CreateDir, OpenTmp, WriteTmp, SyncTmp, RenameTmp]"

fun io_run :: "(io_call \<Rightarrow> bool) \<Rightarrow> provider_config list \<Rightarrow> io_call list \<Rightarrow> registry_file \<Rightarrow> (store_error + unit) \<times> registry_file" where
  "io_run ok contents [] f = (Inr (), f)"
| "io_run ok contents (c # cs) f =
     (if ok c then io_run ok contents cs (io_effect contents c f) else (Inl IoFailed, f))"

definition write_atomic ::
  "(io_call \<Rightarrow> bool) \<Rightarrow> provider_config list \<Rightarrow> registry_file \<Rightarrow> (store_error + unit) \<times> registry_file" where
  "write_atomic ok contents f = io_run ok contents write_steps f"

section \<open>The store\<close>

record provider_store =
  ps_shared :: runtime_providers
  ps_has_path :: bool
  ps_file :: registry_file

text \<open>What the environment decides for one mutation: the hash order of the map it builds, the
  clock, whether serialization and the blocking task succeed, and the file operations.\<close>

record mutation_env =
  me_arrange :: arrangement
  me_now :: string
  me_serialize_ok :: bool
  me_join_ok :: bool
  me_io_ok :: "io_call \<Rightarrow> bool"

datatype file_read = Absent | Unreadable | Blank | BadJson | Decoded "provider_config list"

datatype provider_load_error = ReadFailed | InvalidJson | InvalidEntry provider_config_error | BuildFailed store_error

definition store_load ::
  "(string \<Rightarrow> url option) \<Rightarrow> arrangement \<Rightarrow> file_read \<Rightarrow> provider_load_error + runtime_providers" where
  "store_load url_parse arrange raw =
     (case raw of
        Absent \<Rightarrow> Inr providers_default
      | Unreadable \<Rightarrow> Inl ReadFailed
      | Blank \<Rightarrow> Inr providers_default
      | BadJson \<Rightarrow> Inl InvalidJson
      | Decoded configs \<Rightarrow>
          and_then (try_each (\<lambda>_ cfg. map_sum InvalidEntry id (validate_and_normalize url_parse cfg)) 0 configs)
            (\<lambda>configs. map_sum BuildFailed id (providers_build arrange configs)))"

definition ephemeral :: provider_store where
  "ephemeral = \<lparr>ps_shared = providers_default, ps_has_path = False, ps_file = \<lparr>rf_target = None, rf_tmp = None\<rparr>\<rparr>"

definition or_else :: "'a option \<Rightarrow> 'a option \<Rightarrow> 'a option" where
  "or_else a b = (case a of Some x \<Rightarrow> Some x | None \<Rightarrow> b)"

definition entry_for :: "runtime_providers \<Rightarrow> string \<Rightarrow> string \<Rightarrow> provider_entry option" where
  "entry_for snap tenant_id name =
     or_else (map_of (by_name snap) (tenant_id, name)) (map_of (by_name snap) (GLOBAL_OWNER, name))"

definition provider_adapter :: "runtime_providers \<Rightarrow> string \<Rightarrow> string \<Rightarrow> self_hosted option" where
  "provider_adapter snap tenant_id name = map_option en_adapter (entry_for snap tenant_id name)"

definition provider_api_key :: "runtime_providers \<Rightarrow> string \<Rightarrow> string \<Rightarrow> string option" where
  "provider_api_key snap tenant_id name = map_option (\<lambda>e. cp_api_key (en_config e)) (entry_for snap tenant_id name)"

definition provider_contains :: "runtime_providers \<Rightarrow> string \<Rightarrow> string \<Rightarrow> bool" where
  "provider_contains snap tenant_id name \<longleftrightarrow> entry_for snap tenant_id name \<noteq> None"

definition provider_for_model :: "runtime_providers \<Rightarrow> string \<Rightarrow> string \<Rightarrow> string option" where
  "provider_for_model snap tenant_id model =
     or_else (map_of (model_index snap) (tenant_id, model)) (map_of (model_index snap) (GLOBAL_OWNER, model))"

definition list_views :: "runtime_providers \<Rightarrow> string \<Rightarrow> provider_view list" where
  "list_views snap tenant_id =
     map view_of (filter (\<lambda>c. case cp_tenant_id c of Some owner \<Rightarrow> owner = tenant_id | None \<Rightarrow> True) (configs_sorted snap))"

definition global_names :: "runtime_providers \<Rightarrow> string list" where
  "global_names snap = sort (map snd (filter (\<lambda>(owner, _). owner = GLOBAL_OWNER) (map fst (by_name snap))))"

definition owned_names :: "runtime_providers \<Rightarrow> owned_key list" where
  "owned_names snap = map fst (by_name snap)"

definition model_entries :: "runtime_providers \<Rightarrow> string \<Rightarrow> (string \<times> string) list" where
  "model_entries snap tenant_id =
     sort (map (\<lambda>((_, m), p). (m, p))
       (filter (\<lambda>((owner, _), _). owner = tenant_id \<or> owner = GLOBAL_OWNER) (model_index snap)))"

definition persist :: "mutation_env \<Rightarrow> provider_store \<Rightarrow> provider_config list \<Rightarrow> (store_error + unit) \<times> provider_store" where
  "persist env s configs =
     (if \<not> ps_has_path s then (Inr (), s)
      else if \<not> me_serialize_ok env then (Inl SerializeFailed, s)
      else if \<not> me_join_ok env then (Inl JoinFailed, s)
      else let (r, f) = write_atomic (me_io_ok env) configs (ps_file s) in (r, s\<lparr>ps_file := f\<rparr>))"

text \<open>Build, persist, then swap: the end of both mutations.\<close>

definition commit :: "mutation_env \<Rightarrow> provider_store \<Rightarrow> provider_config list \<Rightarrow> (store_error + unit) \<times> provider_store" where
  "commit env s configs =
     (case providers_build (me_arrange env) configs of
        Inl e \<Rightarrow> (Inl e, s)
      | Inr next_snap \<Rightarrow>
          (case persist env s configs of
             (Inl e, s) \<Rightarrow> (Inl e, s)
           | (Inr _, s) \<Rightarrow> (Inr (), s\<lparr>ps_shared := next_snap\<rparr>)))"

definition owned_by :: "string \<Rightarrow> string \<Rightarrow> provider_config \<Rightarrow> bool" where
  "owned_by tenant_id name c \<longleftrightarrow> cp_name c = name \<and> cp_tenant_id c = Some tenant_id"

fun replace_first :: "('a \<Rightarrow> bool) \<Rightarrow> 'a \<Rightarrow> 'a list \<Rightarrow> 'a list" where
  "replace_first P y [] = []"
| "replace_first P y (x # xs) = (if P x then y # xs else x # replace_first P y xs)"

definition upsert ::
  "mutation_env \<Rightarrow> provider_store \<Rightarrow> string \<Rightarrow> provider_config \<Rightarrow> (store_error + provider_view \<times> bool) \<times> provider_store" where
  "upsert env s tenant_id cfg =
     (let cfg = cfg\<lparr>cp_tenant_id := Some tenant_id\<rparr>;
          configs = configs_sorted (ps_shared s);
          (cfg, configs, created) =
            (case List.find (owned_by tenant_id (cp_name cfg)) configs of
               Some existing \<Rightarrow>
                 let cfg = cfg\<lparr>cp_created_at := cp_created_at existing\<rparr>
                 in (cfg, replace_first (owned_by tenant_id (cp_name cfg)) cfg configs, False)
             | None \<Rightarrow>
                 let cfg = cfg\<lparr>cp_created_at := Some (me_now env)\<rparr>
                 in (cfg, sort_key cp_name (configs @ [cfg]), True))
      in case commit env s configs of
           (Inl e, s) \<Rightarrow> (Inl e, s)
         | (Inr _, s) \<Rightarrow> (Inr (view_of cfg, created), s))"

definition remove ::
  "mutation_env \<Rightarrow> provider_store \<Rightarrow> string \<Rightarrow> string \<Rightarrow> (store_error + bool) \<times> provider_store" where
  "remove env s tenant_id name =
     (let configs = configs_sorted (ps_shared s);
          kept = filter (\<lambda>c. \<not> owned_by tenant_id name c) configs
      in if length kept = length configs then (Inr False, s)
         else case commit env s kept of
           (Inl e, s) \<Rightarrow> (Inl e, s)
         | (Inr _, s) \<Rightarrow> (Inr True, s))"

section \<open>Handlers\<close>

record provider_state =
  pr_builtin :: "string set"
  pr_store :: provider_store
  pr_health :: health_tracker

datatype api_response =
  BadConfig provider_config_error | NameReserved | SsrfBlocked ssrf_error | InternalError
| Created provider_view | Updated provider_view | Deleted string | NotFound string
| Listing "provider_view list"

record api_env =
  ae_url_parse :: "string \<Rightarrow> url option"
  ae_lookup :: "string \<Rightarrow> ip_addr list option"
  ae_allow_private :: "string option"
  ae_check_join_ok :: bool
  ae_mutation :: mutation_env
  ae_task_ok :: bool

text \<open>A spawned task that fails to join (\<open>ae_task_ok\<close> false) has not run.\<close>

definition upsert_provider ::
  "api_env \<Rightarrow> provider_state \<Rightarrow> string \<Rightarrow> provider_config \<Rightarrow> api_response \<times> provider_state" where
  "upsert_provider env st tenant_id cfg =
     (case validate_and_normalize (ae_url_parse env) cfg of
        Inl e \<Rightarrow> (BadConfig e, st)
      | Inr cfg \<Rightarrow>
          if cp_name cfg \<in> pr_builtin st \<or> cp_name cfg = ''routeplane'' then (NameReserved, st)
          else if \<not> ae_check_join_ok env then (InternalError, st)
          else case ssrf_check (ae_url_parse env) (ae_lookup env) (cp_base_url cfg)
                 (custom_provider_allow_private (ae_allow_private env)) of
            Inl e \<Rightarrow> (SsrfBlocked e, st)
          | Inr _ \<Rightarrow>
              if \<not> ae_task_ok env then (InternalError, st)
              else case upsert (ae_mutation env) (pr_store st) tenant_id cfg of
                (Inl e, s) \<Rightarrow> (InternalError, st\<lparr>pr_store := s\<rparr>)
              | (Inr (view, created), s) \<Rightarrow>
                  (if created then Created view else Updated view,
                   st\<lparr>pr_store := s, pr_health := register (pr_health st) tenant_id (cp_name cfg)\<rparr>))"

definition list_providers :: "provider_state \<Rightarrow> string \<Rightarrow> api_response" where
  "list_providers st tenant_id = Listing (list_views (ps_shared (pr_store st)) tenant_id)"

definition delete_provider ::
  "api_env \<Rightarrow> provider_state \<Rightarrow> string \<Rightarrow> string \<Rightarrow> api_response \<times> provider_state" where
  "delete_provider env st tenant_id name =
     (if \<not> ae_task_ok env then (InternalError, st)
      else case remove (ae_mutation env) (pr_store st) tenant_id name of
        (Inl e, s) \<Rightarrow> (InternalError, st\<lparr>pr_store := s\<rparr>)
      | (Inr True, s) \<Rightarrow> (Deleted name, st\<lparr>pr_store := s\<rparr>)
      | (Inr False, s) \<Rightarrow> (NotFound name, st\<lparr>pr_store := s\<rparr>))"

text \<open>The adapter a tenant's name resolves to: \<^verbatim>\<open>AppState::resolve_provider\<close>. The built-in registry is
  consulted first.\<close>

datatype 'b resolved_adapter = Builtin 'b | Custom self_hosted

definition resolve_provider :: "(string \<rightharpoonup> 'b) \<Rightarrow> provider_store \<Rightarrow> string \<Rightarrow> string \<Rightarrow> 'b resolved_adapter option" where
  "resolve_provider builtins s tenant_id name =
     (case builtins name of
        Some p \<Rightarrow> Some (Builtin p)
      | None \<Rightarrow> map_option Custom (provider_adapter (ps_shared s) tenant_id name))"

text \<open>The health cells of the providers loaded at boot (\<^verbatim>\<open>main.rs\<close>).\<close>

definition register_owned :: "health_tracker \<Rightarrow> runtime_providers \<Rightarrow> health_tracker" where
  "register_owned t snap = foldl (\<lambda>t (owner, name). register t owner name) t (owned_names snap)"

section \<open>Snapshots by owner and name\<close>

definition arrange_ok :: "arrangement \<Rightarrow> bool" where
  "arrange_ok arrange \<longleftrightarrow> (\<forall>es. mset (arrange es) = mset es)"

definition config_key :: "provider_config \<Rightarrow> owned_key" where
  "config_key cfg = (owner_of cfg, cp_name cfg)"

definition keyed :: "provider_config \<Rightarrow> owned_key \<times> provider_entry" where
  "keyed cfg = (config_key cfg, entry_of cfg)"

definition providers_ok :: "runtime_providers \<Rightarrow> bool" where
  "providers_ok r \<longleftrightarrow> distinct (map fst (by_name r)) \<and> (\<forall>x\<in>set (by_name r). x = keyed (en_config (snd x))) \<and>
     model_index r = index_names (by_name r) [] (sort (map fst (by_name r)))"

text \<open>What a snapshot holds, as a map: the specification the store refines.\<close>

definition registered :: "runtime_providers \<Rightarrow> owned_key \<rightharpoonup> provider_config" where
  "registered r k = map_option en_config (map_of (by_name r) k)"

lemma index_configs_Inr:
  "index_configs es cfgs = Inr es' \<longleftrightarrow>
     es' = es @ map keyed cfgs \<and> distinct (map config_key cfgs) \<and> config_key ` set cfgs \<inter> fst ` set es = {}"
proof (induction cfgs arbitrary: es)
  case (Cons c cfgs)
  then show ?case
    by (auto simp: Let_def map_of_eq_None_iff config_key_def [symmetric] keyed_def)
qed auto

lemma providers_build_Inr:
  "providers_build arrange cfgs = Inr r \<longleftrightarrow>
     distinct (map config_key cfgs) \<and>
     r = \<lparr>by_name = arrange (map keyed cfgs),
          model_index = index_names (arrange (map keyed cfgs)) [] (sort (map fst (arrange (map keyed cfgs))))\<rparr>"
  by (auto simp: providers_build_def and_then_Inr index_configs_Inr)

lemma keyed_simps [simp]: "fst (keyed c) = config_key c" "en_config (snd (keyed c)) = c"
  "en_config (entry_of c) = c"
  by (simp_all add: keyed_def entry_of_def)

lemma build_providers_ok:
  assumes "providers_build arrange cfgs = Inr r" and "arrange_ok arrange"
  shows "providers_ok r" "set (by_name r) = keyed ` set cfgs"
proof -
  let ?es = "arrange (map keyed cfgs)"
  have m: "mset ?es = mset (map keyed cfgs)" using assms(2) by (simp add: arrange_ok_def)
  then have s: "set ?es = keyed ` set cfgs" using mset_eq_setD by fastforce
  have "mset (map fst ?es) = mset (map fst (map keyed cfgs))" using m by (metis mset_map)
  then have "distinct (map fst ?es) = distinct (map fst (map keyed cfgs))" by (rule mset_eq_imp_distinct_iff)
  moreover have "map fst (map keyed cfgs) = map config_key cfgs" by simp
  ultimately have "distinct (map fst ?es)" using assms(1) unfolding providers_build_Inr by metis
  then show "providers_ok r" using assms(1) s by (auto simp: providers_ok_def providers_build_Inr)
  show "set (by_name r) = keyed ` set cfgs" using assms(1) s by (simp add: providers_build_Inr)
qed

lemma providers_default_ok [simp]: "providers_ok providers_default"
  by (simp add: providers_ok_def providers_default_def)

lemma providers_empty_ok [simp]: "providers_ok \<lparr>by_name = [], model_index = []\<rparr>"
  using providers_default_ok by (simp add: providers_default_def)

lemma configs_sorted_set: "set (configs_sorted r) = en_config ` snd ` set (by_name r)"
  by (force simp: configs_sorted_def)

lemma registered_iff:
  assumes "providers_ok r"
  shows "registered r k = Some c \<longleftrightarrow> c \<in> set (configs_sorted r) \<and> config_key c = k"
proof -
  have "registered r k = Some c \<longleftrightarrow> (\<exists>e. (k, e) \<in> set (by_name r) \<and> en_config e = c)"
    using assms by (auto simp: registered_def providers_ok_def map_of_eq_Some_iff)
  also have "\<dots> \<longleftrightarrow> c \<in> set (configs_sorted r) \<and> config_key c = k"
  proof
    assume "\<exists>e. (k, e) \<in> set (by_name r) \<and> en_config e = c"
    then obtain e where "(k, e) \<in> set (by_name r)" "en_config e = c" by blast
    moreover from this have "(k, e) = keyed c" using assms by (auto simp: providers_ok_def)
    ultimately show "c \<in> set (configs_sorted r) \<and> config_key c = k"
      by (force simp: configs_sorted_set keyed_def)
  next
    assume "c \<in> set (configs_sorted r) \<and> config_key c = k"
    then obtain x where "x \<in> set (by_name r)" "en_config (snd x) = c" "config_key c = k" by (auto simp: configs_sorted_set)
    then show "\<exists>e. (k, e) \<in> set (by_name r) \<and> en_config e = c"
      using assms by (metis keyed_simps(1) prod.collapse providers_ok_def)
  qed
  finally show ?thesis .
qed

lemma configs_sorted_keys: "providers_ok r \<Longrightarrow> distinct (map config_key (configs_sorted r))"
proof -
  assume ok: "providers_ok r"
  have "mset (map config_key (configs_sorted r)) = mset (map config_key (map (\<lambda>(k, e). en_config e) (by_name r)))"
    by (simp only: configs_sorted_def mset_map mset_sort)
  moreover have "map config_key (map (\<lambda>(k, e). en_config e) (by_name r)) = map fst (by_name r)"
    using ok by (auto simp: providers_ok_def keyed_def)
  ultimately show ?thesis using ok by (metis mset_eq_imp_distinct_iff providers_ok_def)
qed

text \<open>The registry built from a list of configurations with distinct keys.\<close>

lemma build_registered:
  assumes "providers_build arrange cfgs = Inr r" and "arrange_ok arrange"
  shows "registered r k = Some c \<longleftrightarrow> c \<in> set cfgs \<and> config_key c = k"
proof -
  note ok = build_providers_ok [OF assms]
  have "set (configs_sorted r) = set cfgs" by (force simp: configs_sorted_set ok(2))
  then show ?thesis using registered_iff [OF ok(1)] by simp
qed

lemma registered_key: "providers_ok r \<Longrightarrow> registered r k = Some c \<Longrightarrow> config_key c = k"
  by (simp add: registered_iff)

lemma entry_registered: "providers_ok r \<Longrightarrow> map_of (by_name r) k = map_option entry_of (registered r k)"
proof -
  assume ok: "providers_ok r"
  show ?thesis
  proof (cases "map_of (by_name r) k")
    case (Some e)
    then have "(k, e) \<in> set (by_name r)" by (rule map_of_SomeD)
    then have "e = entry_of (en_config e)" using ok by (force simp: providers_ok_def keyed_def)
    then show ?thesis using Some by (simp add: registered_def)
  qed (simp add: registered_def)
qed

section \<open>The model index\<close>

definition serves :: "runtime_providers \<Rightarrow> string \<Rightarrow> string \<Rightarrow> string \<Rightarrow> bool" where
  "serves r owner model name \<longleftrightarrow> (\<exists>c. registered r (owner, name) = Some c \<and> model \<in> set (cp_models c))"

lemma or_else_simps [simp]: "or_else (Some x) b = Some x" "or_else None b = b" "or_else a None = a"
  by (simp_all add: or_else_def split: option.split)

lemma index_models_lookup:
  "map_of (index_models key mi ms) (owner, m) =
     or_else (map_of mi (owner, m)) (if fst key = owner \<and> m \<in> set ms then Some (snd key) else None)"
  by (induction ms arbitrary: mi) (auto simp: map_add_def or_else_def split: option.splits)

lemma index_names_lookup:
  "map_of (index_names es mi keys) (owner, m) =
     or_else (map_of mi (owner, m))
       (map_option snd (List.find (\<lambda>k. fst k = owner \<and>
          (case map_of es k of Some e \<Rightarrow> m \<in> set (cp_models (en_config e)) | None \<Rightarrow> False)) keys))"
proof (induction keys arbitrary: mi)
  case (Cons k keys)
  then show ?case
    by (cases "map_of es k") (auto simp: index_models_lookup or_else_def split: option.splits)
qed simp

lemma find_sorted:
  "sorted xs \<Longrightarrow> List.find P xs = Some x \<longleftrightarrow> x \<in> set xs \<and> P x \<and> (\<forall>y\<in>set xs. P y \<longrightarrow> x \<le> y)"
  by (induction xs) (auto intro: order.antisym)

lemma model_index_least:
  assumes "providers_ok r"
  shows "map_of (model_index r) (owner, m) = Some p \<longleftrightarrow> serves r owner m p \<and> (\<forall>n. serves r owner m n \<longrightarrow> p \<le> n)"
proof -
  let ?P = "\<lambda>k. fst k = owner \<and> (case map_of (by_name r) k of Some e \<Rightarrow> m \<in> set (cp_models (en_config e)) | None \<Rightarrow> False)"
  let ?keys = "sort (map fst (by_name r))"
  have P: "?P k \<longleftrightarrow> fst k = owner \<and> serves r owner m (snd k)" for k
    by (cases k) (auto simp: serves_def registered_def split: option.splits)
  have dom: "serves r owner m n \<Longrightarrow> (owner, n) \<in> set ?keys" for n
    by (force simp: serves_def registered_def dest!: map_of_SomeD)
  have "map_of (model_index r) (owner, m) = map_option snd (List.find ?P ?keys)"
    using assms by (simp add: providers_ok_def index_names_lookup)
  then have "map_of (model_index r) (owner, m) = Some p \<longleftrightarrow> (\<exists>k. List.find ?P ?keys = Some k \<and> snd k = p)" by auto
  also have "\<dots> \<longleftrightarrow> serves r owner m p \<and> (\<forall>n. serves r owner m n \<longrightarrow> p \<le> n)"
  proof
    assume "\<exists>k. List.find ?P ?keys = Some k \<and> snd k = p"
    then have "(owner, p) \<in> set ?keys" "serves r owner m p" "\<forall>k\<in>set ?keys. fst k = owner \<and> serves r owner m (snd k) \<longrightarrow> (owner, p) \<le> k"
      unfolding find_sorted [OF sorted_sort] P by (auto simp: image_iff)
    then have sp: "serves r owner m p" and least: "\<And>k. k \<in> set ?keys \<Longrightarrow> fst k = owner \<Longrightarrow> serves r owner m (snd k) \<Longrightarrow> (owner, p) \<le> k"
      by blast+
    have "p \<le> n" if "serves r owner m n" for n using least [OF dom [OF that]] that by simp
    then show "serves r owner m p \<and> (\<forall>n. serves r owner m n \<longrightarrow> p \<le> n)" using sp by simp
  next
    assume s: "serves r owner m p \<and> (\<forall>n. serves r owner m n \<longrightarrow> p \<le> n)"
    then have "List.find ?P ?keys = Some (owner, p)"
      unfolding find_sorted [OF sorted_sort] P using dom by (auto simp: less_eq_prod_def)
    then show "\<exists>k. List.find ?P ?keys = Some k \<and> snd k = p" by auto
  qed
  finally show ?thesis .
qed

lemma model_index_cong:
  assumes "providers_ok r" "providers_ok r'" and "\<And>n. registered r (owner, n) = registered r' (owner, n)"
  shows "map_of (model_index r) (owner, m) = map_of (model_index r') (owner, m)"
proof -
  have "serves r owner m = serves r' owner m" using assms(3) by (auto simp: serves_def)
  then have "map_of (model_index r) (owner, m) = Some p \<longleftrightarrow> map_of (model_index r') (owner, m) = Some p" for p
    by (simp add: model_index_least assms)
  then show ?thesis by (metis not_None_eq)
qed

section \<open>Mutations\<close>

lemma write_atomic_result:
  "write_atomic ok contents f = (Inr u, f') \<Longrightarrow> rf_target f' = Some contents"
  "write_atomic ok contents f = (Inl e, f') \<Longrightarrow> rf_target f' = rf_target f"
  by (auto simp: write_atomic_def write_steps_def split: if_splits)

text \<open>A crash between two calls leaves the old contents or the new.\<close>

lemma write_atomic_crash:
  "rf_target (snd (io_run ok contents (take n write_steps) f)) \<in> {rf_target f, Some contents}"
proof -
  have "n \<in> {0, 1, 2, 3, 4} \<or> 5 \<le> n" by auto
  then show ?thesis by (auto simp: write_steps_def)
qed

definition persisted :: "provider_store \<Rightarrow> bool" where
  "persisted s \<longleftrightarrow> (ps_has_path s \<longrightarrow>
     (case rf_target (ps_file s) of
        None \<Rightarrow> by_name (ps_shared s) = []
      | Some cfgs \<Rightarrow> distinct (map config_key cfgs) \<and> set cfgs = set (configs_sorted (ps_shared s))))"

lemma commit_result:
  assumes "commit env s cfgs = (r, s')" and "distinct (map config_key cfgs)"
  obtains "r = Inr ()" "providers_build (me_arrange env) cfgs = Inr (ps_shared s')"
      "ps_has_path s' = ps_has_path s" "ps_has_path s \<longrightarrow> rf_target (ps_file s') = Some cfgs"
    | e where "r = Inl e" "ps_shared s' = ps_shared s" "ps_has_path s' = ps_has_path s"
      "rf_target (ps_file s') = rf_target (ps_file s)" "ps_has_path s"
proof -
  obtain next_snap where b: "providers_build (me_arrange env) cfgs = Inr next_snap"
    using assms(2) by (simp add: providers_build_Inr)
  show ?thesis
  proof (cases "fst (persist env s cfgs)")
    case (Inr u)
    then show ?thesis
      using assms(1) b that(1) write_atomic_result(1)
      by (auto simp: commit_def persist_def split: if_splits prod.splits)
  next
    case (Inl e)
    then show ?thesis
      using assms(1) b that(2) write_atomic_result(2)
      by (auto simp: commit_def persist_def split: if_splits prod.splits)
  qed
qed

lemma commit_ok:
  assumes "commit env s cfgs = (r, s')" and "distinct (map config_key cfgs)" and "arrange_ok (me_arrange env)"
    and "providers_ok (ps_shared s)"
  shows "providers_ok (ps_shared s')" "persisted s \<Longrightarrow> persisted s'" "ps_has_path s' = ps_has_path s"
    "\<not> ps_has_path s \<Longrightarrow> r = Inr ()"
proof -
  from assms(1,2) show "providers_ok (ps_shared s')"
    by (rule commit_result) (use assms(3,4) build_providers_ok in auto)
  show "persisted s'" if p: "persisted s"
    using assms(1,2)
  proof (rule commit_result)
    assume *: "providers_build (me_arrange env) cfgs = Inr (ps_shared s')" "ps_has_path s' = ps_has_path s"
      "ps_has_path s \<longrightarrow> rf_target (ps_file s') = Some cfgs"
    have "set (configs_sorted (ps_shared s')) = set cfgs"
      using build_providers_ok(2) [OF *(1) assms(3)] by (force simp: configs_sorted_set)
    then show ?thesis using * assms(2) by (simp add: persisted_def)
  qed (use p in \<open>auto simp: persisted_def split: option.splits\<close>)
  from assms(1,2) show "ps_has_path s' = ps_has_path s" by (rule commit_result) auto
  from assms(1,2) show "\<not> ps_has_path s \<Longrightarrow> r = Inr ()" by (rule commit_result) auto
qed

lemma owner_key: "t \<noteq> GLOBAL_OWNER \<Longrightarrow> config_key c = (t, n) \<longleftrightarrow> owned_by t n c"
  by (auto simp: config_key_def owner_of_def owned_by_def split: option.split)

lemma owned_key_of: "owned_by t n c \<Longrightarrow> config_key c = (t, n)"
  by (auto simp: config_key_def owner_of_def owned_by_def)

lemma find_owned:
  assumes "providers_ok r" and "t \<noteq> GLOBAL_OWNER \<or> registered r (t, n) = None"
  shows "List.find (owned_by t n) (configs_sorted r) = registered r (t, n)"
proof (cases "List.find (owned_by t n) (configs_sorted r)")
  case None
  then have "t \<noteq> GLOBAL_OWNER \<Longrightarrow> registered r (t, n) \<noteq> Some c" for c
    using assms(1) by (auto simp: registered_iff owner_key find_None_iff)
  then show ?thesis using None assms(2) by (metis not_None_eq)
next
  case (Some c)
  then have "c \<in> set (configs_sorted r)" "owned_by t n c" by (auto simp: find_Some_iff)
  then have "registered r (t, n) = Some c" using assms(1) owned_key_of by (simp add: registered_iff)
  then show ?thesis using Some by simp
qed

lemma replace_first_map:
  "List.find P xs = Some x \<Longrightarrow> f y = f x \<Longrightarrow> map f (replace_first P y xs) = map f xs"
  by (induction xs) (auto split: if_splits)

lemma replace_first_set:
  "List.find P xs = Some x \<Longrightarrow> distinct xs \<Longrightarrow> set (replace_first P y xs) = insert y (set xs - {x})"
  by (induction xs) (auto split: if_splits simp: find_Some_iff)

text \<open>The configuration an upsert stores.\<close>

definition stamped :: "mutation_env \<Rightarrow> runtime_providers \<Rightarrow> string \<Rightarrow> provider_config \<Rightarrow> provider_config" where
  "stamped env r t cfg = cfg\<lparr>cp_tenant_id := Some t,
     cp_created_at := (case registered r (t, cp_name cfg) of Some old \<Rightarrow> cp_created_at old | None \<Rightarrow> Some (me_now env))\<rparr>"

lemma stamped_simps [simp]:
  "config_key (stamped env r t cfg) = (t, cp_name cfg)" "cp_name (stamped env r t cfg) = cp_name cfg"
  "cp_models (stamped env r t cfg) = cp_models cfg" "cp_base_url (stamped env r t cfg) = cp_base_url cfg"
  "cp_api_key (stamped env r t cfg) = cp_api_key cfg" "cp_tenant_id (stamped env r t cfg) = Some t"
  by (simp_all add: stamped_def config_key_def owner_of_def)

lemma upsert_commit:
  assumes ok: "providers_ok (ps_shared s)" and t: "t \<noteq> GLOBAL_OWNER \<or> registered (ps_shared s) (t, cp_name cfg) = None"
  obtains cfgs where
    "upsert env s t cfg = (case commit env s cfgs of (Inl e, s) \<Rightarrow> (Inl e, s)
       | (Inr _, s') \<Rightarrow> (Inr (view_of (stamped env (ps_shared s) t cfg), registered (ps_shared s) (t, cp_name cfg) = None), s'))"
    "distinct (map config_key cfgs)"
    "set cfgs = insert (stamped env (ps_shared s) t cfg) {c \<in> set (configs_sorted (ps_shared s)). config_key c \<noteq> (t, cp_name cfg)}"
proof -
  let ?r = "ps_shared s" and ?k = "(t, cp_name cfg)"
  let ?cs = "configs_sorted ?r"
  note find = find_owned [OF ok t]
  have d: "distinct (map config_key ?cs)" by (rule configs_sorted_keys [OF ok])
  show ?thesis
  proof (cases "registered ?r ?k")
    case None
    then have "?k \<notin> config_key ` set ?cs" using registered_iff [OF ok, of ?k] by (metis imageE option.distinct(1))
    let ?new = "stamped env ?r t cfg"
    have new: "?new = cfg\<lparr>cp_tenant_id := Some t, cp_created_at := Some (me_now env)\<rparr>"
      using None by (simp add: stamped_def)
    have "mset (map config_key (sort_key cp_name (?cs @ [?new]))) = mset (map config_key (?cs @ [?new]))"
      by (simp only: mset_map mset_sort)
    then have "distinct (map config_key (sort_key cp_name (?cs @ [?new])))"
      using \<open>?k \<notin> config_key ` set ?cs\<close> d mset_eq_imp_distinct_iff by fastforce
    moreover have "set (sort_key cp_name (?cs @ [?new])) = insert ?new {c \<in> set ?cs. config_key c \<noteq> ?k}"
      using \<open>?k \<notin> config_key ` set ?cs\<close> by (auto intro: rev_image_eqI)
    moreover have "upsert env s t cfg = (case commit env s (sort_key cp_name (?cs @ [?new])) of (Inl e, s) \<Rightarrow> (Inl e, s)
       | (Inr _, s') \<Rightarrow> (Inr (view_of ?new, registered ?r ?k = None), s'))"
      using find None by (auto simp: upsert_def Let_def new split: prod.split sum.split)
    ultimately show ?thesis using that by blast
  next
    case (Some old)
    then have old: "old \<in> set ?cs" "config_key old = ?k" by (simp_all add: registered_iff ok)
    have f: "List.find (owned_by t (cp_name cfg)) ?cs = Some old" using find Some by simp
    have s: "set ?cs - {old} = {c \<in> set ?cs. config_key c \<noteq> ?k}"
      using d old by (auto simp: distinct_map inj_on_def)
    let ?new = "stamped env ?r t cfg"
    have new: "?new = cfg\<lparr>cp_tenant_id := Some t, cp_created_at := cp_created_at old\<rparr>"
      using Some by (simp add: stamped_def)
    let ?cfgs = "replace_first (owned_by t (cp_name cfg)) ?new ?cs"
    have "map config_key ?cfgs = map config_key ?cs" by (rule replace_first_map [OF f]) (simp add: old)
    then have "distinct (map config_key ?cfgs)" using d by simp
    moreover have "set ?cfgs = insert ?new {c \<in> set ?cs. config_key c \<noteq> ?k}"
      using replace_first_set [OF f] d s by (simp add: distinct_map)
    moreover have "upsert env s t cfg = (case commit env s ?cfgs of (Inl e, s) \<Rightarrow> (Inl e, s)
       | (Inr _, s') \<Rightarrow> (Inr (view_of ?new, registered ?r ?k = None), s'))"
      using f Some by (auto simp: upsert_def Let_def new split: prod.split sum.split)
    ultimately show ?thesis using that by blast
  qed
qed

text \<open>An upsert refines an update of the map, a removal refines a deletion.\<close>

lemma upsert_spec:
  assumes "providers_ok (ps_shared s)" and "t \<noteq> GLOBAL_OWNER \<or> registered (ps_shared s) (t, cp_name cfg) = None" and a: "arrange_ok (me_arrange env)"
    and u: "upsert env s t cfg = (res, s')"
  shows "providers_ok (ps_shared s')" "persisted s \<Longrightarrow> persisted s'" "ps_has_path s' = ps_has_path s"
    and "registered (ps_shared s') =
      (case res of Inl _ \<Rightarrow> registered (ps_shared s)
       | Inr _ \<Rightarrow> (registered (ps_shared s))((t, cp_name cfg) \<mapsto> stamped env (ps_shared s) t cfg))"
    and "res = Inr (v, created) \<Longrightarrow> v = view_of (stamped env (ps_shared s) t cfg) \<and>
      (created \<longleftrightarrow> registered (ps_shared s) (t, cp_name cfg) = None)"
    and "\<not> ps_has_path s \<Longrightarrow> isl res = False"
proof -
  obtain cfgs where c: "upsert env s t cfg = (case commit env s cfgs of (Inl e, s) \<Rightarrow> (Inl e, s)
       | (Inr _, s') \<Rightarrow> (Inr (view_of (stamped env (ps_shared s) t cfg), registered (ps_shared s) (t, cp_name cfg) = None), s'))"
    and d: "distinct (map config_key cfgs)"
    and s: "set cfgs = insert (stamped env (ps_shared s) t cfg) {c \<in> set (configs_sorted (ps_shared s)). config_key c \<noteq> (t, cp_name cfg)}"
    by (rule upsert_commit [OF assms(1,2)])
  obtain r where r: "commit env s cfgs = (r, s')" using c u by (auto split: prod.splits sum.splits)
  note ok = commit_ok [OF r d a assms(1)]
  show "providers_ok (ps_shared s')" "persisted s \<Longrightarrow> persisted s'" "ps_has_path s' = ps_has_path s" by (fact ok)+
  show "res = Inr (v, created) \<Longrightarrow> v = view_of (stamped env (ps_shared s) t cfg) \<and>
      (created \<longleftrightarrow> registered (ps_shared s) (t, cp_name cfg) = None)"
    using c u r by (auto split: sum.splits)
  show "\<not> ps_has_path s \<Longrightarrow> isl res = False" using c u r ok(4) by auto
  show "registered (ps_shared s') = (case res of Inl _ \<Rightarrow> registered (ps_shared s)
       | Inr _ \<Rightarrow> (registered (ps_shared s))((t, cp_name cfg) \<mapsto> stamped env (ps_shared s) t cfg))"
    using r d
  proof (rule commit_result)
    assume *: "r = Inr ()" "providers_build (me_arrange env) cfgs = Inr (ps_shared s')"
    have "registered (ps_shared s') k = Some x \<longleftrightarrow>
        ((registered (ps_shared s))((t, cp_name cfg) \<mapsto> stamped env (ps_shared s) t cfg)) k = Some x" for k x
      using build_registered [OF *(2) a, of k x] registered_iff [OF assms(1), of k x] s by auto
    then have "registered (ps_shared s') = (registered (ps_shared s))((t, cp_name cfg) \<mapsto> stamped env (ps_shared s) t cfg)"
      by (intro ext) (metis not_None_eq)
    then show ?thesis using c u r * by auto
  qed (use c u r in auto)
qed

lemma remove_spec:
  assumes "providers_ok (ps_shared s)" and "t \<noteq> GLOBAL_OWNER" and a: "arrange_ok (me_arrange env)"
    and u: "remove env s t n = (res, s')"
  shows "providers_ok (ps_shared s')" "persisted s \<Longrightarrow> persisted s'" "ps_has_path s' = ps_has_path s"
    and "registered (ps_shared s') =
      (case res of Inl _ \<Rightarrow> registered (ps_shared s) | Inr _ \<Rightarrow> (registered (ps_shared s))((t, n) := None))"
    and "res = Inr b \<Longrightarrow> b \<longleftrightarrow> registered (ps_shared s) (t, n) \<noteq> None"
    and "\<not> ps_has_path s \<Longrightarrow> isl res = False"
proof -
  let ?cs = "configs_sorted (ps_shared s)"
  let ?kept = "filter (\<lambda>c. \<not> owned_by t n c) ?cs"
  have same: "length ?kept = length ?cs \<longleftrightarrow> registered (ps_shared s) (t, n) = None"
    using find_owned [OF assms(1), of t n] assms(2) by (metis (no_types, lifting) filter_id_conv find_None_iff length_filter_less order_less_irrefl)
  have d: "distinct (map config_key ?kept)" using configs_sorted_keys [OF assms(1)] by (simp add: distinct_map inj_on_def)
  obtain r s'' where r: "commit env s ?kept = (r, s'')" by fastforce
  have c: "(res, s') = (if registered (ps_shared s) (t, n) = None then (Inr False, s)
      else case r of Inl e \<Rightarrow> (Inl e, s'') | Inr _ \<Rightarrow> (Inr True, s''))"
    using u same by (cases "registered (ps_shared s) (t, n) = None"; cases r) (auto simp: remove_def Let_def r)
  note ok = commit_ok [OF r d a assms(1)]
  show "providers_ok (ps_shared s')" "persisted s \<Longrightarrow> persisted s'" "ps_has_path s' = ps_has_path s"
    using c ok(1-3) assms(1) by (auto split: if_splits sum.splits)
  show "res = Inr b \<Longrightarrow> b \<longleftrightarrow> registered (ps_shared s) (t, n) \<noteq> None" using c by (auto split: if_splits sum.splits)
  show "\<not> ps_has_path s \<Longrightarrow> isl res = False" using c ok(4) by (auto split: if_splits sum.splits)
  show "registered (ps_shared s') =
      (case res of Inl _ \<Rightarrow> registered (ps_shared s) | Inr _ \<Rightarrow> (registered (ps_shared s))((t, n) := None))"
  proof (cases "registered (ps_shared s) (t, n) = None")
    case True
    then show ?thesis using c by auto
  next
    case False
    from r d show ?thesis
    proof (rule commit_result)
      assume *: "r = Inr ()" "providers_build (me_arrange env) ?kept = Inr (ps_shared s'')"
      have "registered (ps_shared s'') k = Some x \<longleftrightarrow> ((registered (ps_shared s))((t, n) := None)) k = Some x" for k x
        using build_registered [OF *(2) a, of k x] registered_iff [OF assms(1), of k x] owner_key [OF assms(2), of x n] by auto
      then have "registered (ps_shared s'') = (registered (ps_shared s))((t, n) := None)"
        by (intro ext) (metis not_None_eq)
      then show ?thesis using c * False by auto
    qed (use c False in auto)
  qed
qed

section \<open>Runs of the API\<close>

datatype api_call = Upsert string provider_config | Delete string string

fun api_tenant :: "api_call \<Rightarrow> string" where
  "api_tenant (Upsert t _) = t" | "api_tenant (Delete t _) = t"

fun api_step :: "provider_state \<Rightarrow> api_env \<times> api_call \<Rightarrow> provider_state" where
  "api_step st (env, Upsert t cfg) = snd (upsert_provider env st t cfg)"
| "api_step st (env, Delete t name) = snd (delete_provider env st t name)"

definition api_run :: "provider_state \<Rightarrow> (api_env \<times> api_call) list \<Rightarrow> provider_state" where
  "api_run st reqs = foldl api_step st reqs"

text \<open>Calls by tenants with a name of their own, on any hash order.\<close>

definition call_ok :: "api_env \<times> api_call \<Rightarrow> bool" where
  "call_ok c \<longleftrightarrow> arrange_ok (me_arrange (ae_mutation (fst c))) \<and> api_tenant (snd c) \<noteq> GLOBAL_OWNER"

abbreviation shared :: "provider_state \<Rightarrow> runtime_providers" where
  "shared st \<equiv> ps_shared (pr_store st)"

text \<open>Every call either keeps the registry, or stores one validated configuration under its tenant,
  or deletes one name of its tenant.\<close>

lemma upsert_provider_cases:
  assumes "call_ok (env, Upsert t cfg)" and "providers_ok (shared st)"
  obtains "pr_store (snd (upsert_provider env st t cfg)) = pr_store st"
      "pr_health (snd (upsert_provider env st t cfg)) = pr_health st"
    | "providers_ok (shared (snd (upsert_provider env st t cfg)))"
      "persisted (pr_store st) \<Longrightarrow> persisted (pr_store (snd (upsert_provider env st t cfg)))"
      "ps_has_path (pr_store (snd (upsert_provider env st t cfg))) = ps_has_path (pr_store st)"
      "registered (shared (snd (upsert_provider env st t cfg))) = registered (shared st)"
      "pr_health (snd (upsert_provider env st t cfg)) = pr_health st"
    | c where "providers_ok (shared (snd (upsert_provider env st t cfg)))"
      "persisted (pr_store st) \<Longrightarrow> persisted (pr_store (snd (upsert_provider env st t cfg)))"
      "ps_has_path (pr_store (snd (upsert_provider env st t cfg))) = ps_has_path (pr_store st)"
      "validate_and_normalize (ae_url_parse env) cfg = Inr c"
      "cp_name c \<notin> pr_builtin st" "cp_name c \<noteq> ''routeplane''"
      "ssrf_check (ae_url_parse env) (ae_lookup env) (cp_base_url c) (custom_provider_allow_private (ae_allow_private env)) = Inr ()"
      "registered (shared (snd (upsert_provider env st t cfg))) =
         (registered (shared st))((t, cp_name c) \<mapsto> stamped (ae_mutation env) (shared st) t c)"
      "pr_health (snd (upsert_provider env st t cfg)) = register (pr_health st) t (cp_name c)"
proof -
  let ?st = "snd (upsert_provider env st t cfg)"
  consider (same) "?st = st"
    | (ran) c where "validate_and_normalize (ae_url_parse env) cfg = Inr c" "cp_name c \<notin> pr_builtin st" "cp_name c \<noteq> ''routeplane''"
        "ssrf_check (ae_url_parse env) (ae_lookup env) (cp_base_url c) (custom_provider_allow_private (ae_allow_private env)) = Inr ()"
        "ae_check_join_ok env" "ae_task_ok env"
  proof (cases "validate_and_normalize (ae_url_parse env) cfg")
    case (Inl e)
    then show ?thesis using that(1) by (simp add: upsert_provider_def)
  next
    case (Inr c)
    show ?thesis
    proof (cases "cp_name c \<notin> pr_builtin st \<and> cp_name c \<noteq> ''routeplane'' \<and> ae_check_join_ok env \<and> ae_task_ok env \<and>
        ssrf_check (ae_url_parse env) (ae_lookup env) (cp_base_url c) (custom_provider_allow_private (ae_allow_private env)) = Inr ()")
      case True
      then show ?thesis using that(2) Inr by blast
    next
      case False
      then show ?thesis using Inr by (intro that(1)) (auto simp: upsert_provider_def split: sum.split)
    qed
  qed
  then show ?thesis
  proof cases
    case same
    then show ?thesis using that(1) by simp
  next
    case (ran c)
    obtain res s where u: "upsert (ae_mutation env) (pr_store st) t c = (res, s)" by fastforce
    have spec: "providers_ok (ps_shared s)" "persisted (pr_store st) \<Longrightarrow> persisted s" "ps_has_path s = ps_has_path (pr_store st)"
      "registered (ps_shared s) = (case res of Inl _ \<Rightarrow> registered (shared st)
         | Inr _ \<Rightarrow> (registered (shared st))((t, cp_name c) \<mapsto> stamped (ae_mutation env) (shared st) t c))"
      using upsert_spec [OF assms(2) _ _ u] assms(1) by (auto simp: call_ok_def)
    show ?thesis
    proof (cases res)
      case (Inl e)
      then show ?thesis using that(2) spec ran u by (simp add: upsert_provider_def)
    next
      case (Inr x)
      then show ?thesis using that(3) [of c] spec ran u by (cases x) (simp add: upsert_provider_def)
    qed
  qed
qed

lemma delete_provider_spec:
  assumes "call_ok (env, Delete t n)" and "providers_ok (shared st)"
  shows "providers_ok (shared (snd (delete_provider env st t n)))"
    and "persisted (pr_store st) \<Longrightarrow> persisted (pr_store (snd (delete_provider env st t n)))"
    and "ps_has_path (pr_store (snd (delete_provider env st t n))) = ps_has_path (pr_store st)"
    and "registered (shared (snd (delete_provider env st t n))) \<in>
      {registered (shared st), (registered (shared st))((t, n) := None)}"
    and "pr_health (snd (delete_provider env st t n)) = pr_health st"
proof -
  obtain res s where u: "remove (ae_mutation env) (pr_store st) t n = (res, s)" by fastforce
  have "providers_ok (ps_shared s)" "persisted (pr_store st) \<Longrightarrow> persisted s" "ps_has_path s = ps_has_path (pr_store st)"
    "registered (ps_shared s) = (case res of Inl _ \<Rightarrow> registered (shared st) | Inr _ \<Rightarrow> (registered (shared st))((t, n) := None))"
    using remove_spec [OF assms(2) _ _ u] assms(1) by (auto simp: call_ok_def)
  moreover have "pr_store (snd (delete_provider env st t n)) \<in> {pr_store st, s}"
    using u by (auto simp: delete_provider_def split: sum.split bool.split)
  ultimately show "providers_ok (shared (snd (delete_provider env st t n)))"
    "persisted (pr_store st) \<Longrightarrow> persisted (pr_store (snd (delete_provider env st t n)))"
    "ps_has_path (pr_store (snd (delete_provider env st t n))) = ps_has_path (pr_store st)"
    "registered (shared (snd (delete_provider env st t n))) \<in> {registered (shared st), (registered (shared st))((t, n) := None)}"
    using assms(2) by (auto split: sum.splits)
  show "pr_health (snd (delete_provider env st t n)) = pr_health st"
    using u by (auto simp: delete_provider_def split: sum.split bool.split)
qed

lemma api_step_keeps:
  assumes "call_ok c" and "providers_ok (shared st)"
  shows "providers_ok (shared (api_step st c))"
    and "persisted (pr_store st) \<Longrightarrow> persisted (pr_store (api_step st c))"
    and "ps_has_path (pr_store (api_step st c)) = ps_has_path (pr_store st)"
    and "pr_builtin (api_step st c) = pr_builtin st"
    and "ow \<noteq> api_tenant (snd c) \<Longrightarrow> registered (shared (api_step st c)) (ow, n) = registered (shared st) (ow, n)"
    and "ow \<noteq> api_tenant (snd c) \<Longrightarrow> registry_get (providers (pr_health (api_step st c))) ow n = registry_get (providers (pr_health st)) ow n"
proof -
  have *: "providers_ok (shared (api_step st c)) \<and> (persisted (pr_store st) \<longrightarrow> persisted (pr_store (api_step st c))) \<and>
      ps_has_path (pr_store (api_step st c)) = ps_has_path (pr_store st) \<and> pr_builtin (api_step st c) = pr_builtin st \<and>
      (ow \<noteq> api_tenant (snd c) \<longrightarrow> registered (shared (api_step st c)) (ow, n) = registered (shared st) (ow, n) \<and>
        registry_get (providers (pr_health (api_step st c))) ow n = registry_get (providers (pr_health st)) ow n)"
  proof (cases c)
    case (Pair env call)
    show ?thesis
    proof (cases call)
      case (Delete t m)
      then show ?thesis
        using delete_provider_spec [of env t m st] assms Pair
        by (auto simp: delete_provider_def split: sum.split bool.split prod.split)
    next
      case (Upsert t cfg)
      have b: "pr_builtin (snd (upsert_provider env st t cfg)) = pr_builtin st"
        by (auto simp: upsert_provider_def split: sum.split prod.split)
      have "call_ok (env, Upsert t cfg)" using assms(1) Pair Upsert by simp
      then show ?thesis
        by (rule upsert_provider_cases [OF _ assms(2)]) (use Pair Upsert b assms(2) in \<open>auto simp: register_def\<close>)
    qed
  qed
  from * show "providers_ok (shared (api_step st c))" "ps_has_path (pr_store (api_step st c)) = ps_has_path (pr_store st)"
    "pr_builtin (api_step st c) = pr_builtin st" by blast+
  from * show "persisted (pr_store st) \<Longrightarrow> persisted (pr_store (api_step st c))" by blast
  from * show "ow \<noteq> api_tenant (snd c) \<Longrightarrow> registered (shared (api_step st c)) (ow, n) = registered (shared st) (ow, n)" by blast
  from * show "ow \<noteq> api_tenant (snd c) \<Longrightarrow> registry_get (providers (pr_health (api_step st c))) ow n = registry_get (providers (pr_health st)) ow n" by blast
qed

text \<open>The registry as a system of owners: a run keeps what belongs to owners it does not act for.\<close>

locale isolated_runs =
  fixes step :: "'s \<Rightarrow> 'c \<Rightarrow> 's" and allowed :: "'c \<Rightarrow> bool" and owner :: "'c \<Rightarrow> 'o"
    and inv :: "'s \<Rightarrow> bool" and view :: "'s \<Rightarrow> 'o \<Rightarrow> 'v"
  assumes keeps: "allowed c \<Longrightarrow> inv s \<Longrightarrow> inv (step s c)"
    and foreign: "allowed c \<Longrightarrow> inv s \<Longrightarrow> owner c \<noteq> ow \<Longrightarrow> view (step s c) ow = view s ow"
begin

lemma run_keeps: "\<forall>c\<in>set cs. allowed c \<Longrightarrow> inv s \<Longrightarrow> inv (foldl step s cs)"
  by (induction cs arbitrary: s) (auto simp: keeps)

lemma run_foreign: "\<forall>c\<in>set cs. allowed c \<Longrightarrow> inv s \<Longrightarrow> ow \<notin> owner ` set cs \<Longrightarrow> view (foldl step s cs) ow = view s ow"
  by (induction cs arbitrary: s) (auto simp: keeps foreign)

end

interpretation api: isolated_runs api_step call_ok "\<lambda>c. api_tenant (snd c)" "\<lambda>st. providers_ok (shared st)"
  "\<lambda>st ow. (\<lambda>n. registered (shared st) (ow, n), \<lambda>n. registry_get (providers (pr_health st)) ow n)"
  by unfold_locales (auto simp: api_step_keeps)

text \<open>The other invariant of a run: the file holds what readers see.\<close>

interpretation durable: isolated_runs api_step call_ok "\<lambda>c. api_tenant (snd c)"
  "\<lambda>st. providers_ok (shared st) \<and> persisted (pr_store st) \<and> ps_has_path (pr_store st)" "\<lambda>st (ow :: string). pr_builtin st"
  by unfold_locales (auto simp: api_step_keeps)

lemma api_run_foreign:
  assumes "\<forall>c\<in>set reqs. call_ok c" and "providers_ok (shared st)" and "ow \<notin> (\<lambda>c. api_tenant (snd c)) ` set reqs"
  shows "providers_ok (shared (api_run st reqs))"
    and "registered (shared (api_run st reqs)) (ow, n) = registered (shared st) (ow, n)"
    and "registry_get (providers (pr_health (api_run st reqs))) ow n = registry_get (providers (pr_health st)) ow n"
  using api.run_keeps [OF assms(1,2)] api.run_foreign [OF assms] by (simp_all add: api_run_def fun_eq_iff)

section \<open>What a tenant sees\<close>

lemma index_models_distinct: "distinct (map fst mi) \<Longrightarrow> distinct (map fst (index_models key mi ms))"
  by (induction ms arbitrary: mi) (auto simp: map_of_eq_None_iff)

lemma index_names_distinct: "distinct (map fst mi) \<Longrightarrow> distinct (map fst (index_names es mi keys))"
  by (induction keys arbitrary: mi) (auto simp: index_models_distinct split: option.split)

text \<open>Two snapshots with the same entries of one owner and of the operator look alike to that owner.\<close>

lemma same_sight:
  assumes ok: "providers_ok r" "providers_ok r'"
    and own: "\<And>n. registered r (t, n) = registered r' (t, n)"
    and glob: "\<And>n. registered r (GLOBAL_OWNER, n) = registered r' (GLOBAL_OWNER, n)"
  shows "entry_for r t n = entry_for r' t n" "provider_for_model r t m = provider_for_model r' t m"
    and "mset (list_views r t) = mset (list_views r' t)" "model_entries r t = model_entries r' t"
proof -
  show "entry_for r t n = entry_for r' t n"
    by (simp add: entry_for_def entry_registered ok own glob)
  have mi: "map_of (model_index r) (ow, m) = map_of (model_index r') (ow, m)" if "ow \<in> {t, GLOBAL_OWNER}" for ow m
    using model_index_cong [OF ok] own glob that by blast
  then show "provider_for_model r t m = provider_for_model r' t m" by (simp add: provider_for_model_def)
  let ?P = "\<lambda>c. case cp_tenant_id c of Some owner \<Rightarrow> owner = t | None \<Rightarrow> True"
  let ?cs = "\<lambda>r. filter ?P (configs_sorted r)"
  have "set (?cs r) = set (?cs r')"
  proof -
    have "?P c \<Longrightarrow> registered r (config_key c) = registered r' (config_key c)" for c
      using own glob by (auto simp: config_key_def owner_of_def split: option.splits)
    then have "c \<in> set (?cs r) \<longleftrightarrow> c \<in> set (?cs r')" for c
      using registered_iff [OF ok(1), of "config_key c" c] registered_iff [OF ok(2), of "config_key c" c] by auto
    then show ?thesis by blast
  qed
  then have "mset (?cs r) = mset (?cs r')"
    using configs_sorted_keys [OF ok(1)] configs_sorted_keys [OF ok(2)]
      set_eq_iff_mset_eq_distinct [of "?cs r" "?cs r'"] by (simp add: distinct_map)
  then show "mset (list_views r t) = mset (list_views r' t)" by (simp add: list_views_def)
  let ?Q = "\<lambda>((owner, m), p). owner = t \<or> owner = GLOBAL_OWNER" and ?ms = "\<lambda>r. model_index r"
  have d: "distinct (map fst (model_index r))" "distinct (map fst (model_index r'))"
    using ok by (simp_all add: providers_ok_def index_names_distinct)
  have "((ow, m), p) \<in> set (filter ?Q (model_index r)) \<longleftrightarrow> ((ow, m), p) \<in> set (filter ?Q (model_index r'))" for ow m p
    using mi [of ow m] map_of_eq_Some_iff [OF d(1), of "(ow, m)" p] map_of_eq_Some_iff [OF d(2), of "(ow, m)" p] by auto
  then have "set (filter ?Q (model_index r)) = set (filter ?Q (model_index r'))" by auto
  then have "mset (filter ?Q (model_index r)) = mset (filter ?Q (model_index r'))"
    using d set_eq_iff_mset_eq_distinct [of "filter ?Q (model_index r)" "filter ?Q (model_index r')"] by (simp add: distinct_map)
  then show "model_entries r t = model_entries r' t"
    unfolding model_entries_def by (intro properties_for_sort) (simp_all only: mset_sort mset_map sorted_sort)
qed

section \<open>Validation\<close>

definition model_ok :: "string \<Rightarrow> bool" where
  "model_ok m \<longleftrightarrow> m \<noteq> [] \<and> length m \<le> 256 \<and> trim m = m"

definition config_valid :: "(string \<Rightarrow> url option) \<Rightarrow> provider_config \<Rightarrow> bool" where
  "config_valid url_parse c \<longleftrightarrow>
     cp_name c \<noteq> [] \<and> length (cp_name c) \<le> 64 \<and> list_all name_byte (cp_name c) \<and>
     (\<exists>u. url_parse (cp_base_url c) = Some u \<and> url_scheme u \<in> {''http'', ''https''} \<and> (\<exists>h. url_host u = Some h \<and> h \<noteq> []) \<and>
        url_username u = [] \<and> url_password u = None \<and> url_query u = None \<and> url_fragment u = None) \<and>
     cp_api_key c \<noteq> [] \<and> length (cp_api_key c) \<le> 512 \<and>
     cp_models c \<noteq> [] \<and> length (cp_models c) \<le> 128 \<and> distinct (cp_models c) \<and>
     (\<forall>m\<in>set (cp_models c). model_ok m)"

lemma check_url_Inr:
  "check_url u = Inr x \<longleftrightarrow> url_scheme u \<in> {''http'', ''https''} \<and> (\<exists>h. url_host u = Some h \<and> h \<noteq> []) \<and>
     url_username u = [] \<and> url_password u = None \<and> url_query u = None \<and> url_fragment u = None"
  by (auto simp: check_url_def split: option.splits if_splits)

lemma normalize_models_ok:
  assumes "normalize_models acc ms = Inr r" "distinct acc" "\<forall>m\<in>set acc. model_ok m"
  shows "distinct r \<and> (\<forall>m\<in>set r. model_ok m) \<and> set r = set acc \<union> trim ` set ms"
  using assms
proof (induction ms arbitrary: acc)
  case (Cons m ms)
  let ?acc = "if trim m \<in> set acc then acc else acc @ [trim m]"
  have m: "trim m \<noteq> []" "length (trim m) \<le> 256" and r: "normalize_models ?acc ms = Inr r"
    using Cons.prems(1) by (auto simp: Let_def split: if_splits)
  have "distinct ?acc" "\<forall>m\<in>set ?acc. model_ok m"
    using Cons.prems(2,3) m by (auto simp: model_ok_def)
  from Cons.IH [OF r this] show ?case by auto
qed simp

lemma normalize_models_id:
  "distinct (acc @ ms) \<Longrightarrow> \<forall>m\<in>set ms. model_ok m \<Longrightarrow> normalize_models acc ms = Inr (acc @ ms)"
  by (induction ms arbitrary: acc) (auto simp: Let_def model_ok_def)

lemma validate_valid:
  assumes "validate_and_normalize url_parse cfg = Inr c"
  shows "config_valid url_parse c" "trim (cp_name c) = cp_name c" "cp_base_url c = trim_end_slashes (trim (cp_base_url cfg))"
    "cp_api_key c = cp_api_key cfg"
proof -
  obtain u ms where *: "url_parse (trim_end_slashes (trim (cp_base_url cfg))) = Some u" "check_url u = Inr ()"
      "normalize_models [] (cp_models cfg) = Inr ms" "ms \<noteq> []" "length ms \<le> 128"
      "cp_api_key cfg \<noteq> []" "length (cp_api_key cfg) \<le> 512" "trim (cp_name cfg) \<noteq> []" "length (trim (cp_name cfg)) \<le> 64"
      "list_all name_byte (trim (cp_name cfg))"
      "c = cfg\<lparr>cp_name := trim (cp_name cfg), cp_base_url := trim_end_slashes (trim (cp_base_url cfg)), cp_models := ms\<rparr>"
    using assms by (auto simp: validate_and_normalize_def Let_def and_then_Inr split: if_splits option.splits)
  then show "config_valid url_parse c"
    using normalize_models_ok [OF *(3)] by (auto simp: config_valid_def check_url_Inr)
  show "trim (cp_name c) = cp_name c" "cp_base_url c = trim_end_slashes (trim (cp_base_url cfg))" "cp_api_key c = cp_api_key cfg"
    using * by simp_all
qed

lemma validate_fixed:
  assumes "config_valid url_parse c" "trim (cp_name c) = cp_name c" "trim_end_slashes (trim (cp_base_url c)) = cp_base_url c"
  shows "validate_and_normalize url_parse c = Inr c"
proof -
  obtain u where "url_parse (cp_base_url c) = Some u" "check_url u = Inr ()"
    using assms(1) by (auto simp: config_valid_def check_url_Inr)
  then show ?thesis
    using assms normalize_models_id [of "[]" "cp_models c"] by (auto simp: validate_and_normalize_def Let_def config_valid_def)
qed

lemma config_valid_stamped [simp]: "config_valid url_parse (stamped env r t c) = config_valid url_parse c"
  by (simp add: config_valid_def)

section \<open>Masked keys\<close>

lemma concat_chars: "concat (chars s) = s"
  by (induction s rule: chars.induct) auto

lemma chars_drop: "chars (concat (drop n (chars s))) = drop n (chars s)"
proof (induction s arbitrary: n rule: chars.induct)
  case (2 c s)
  then show ?case by (cases n) (simp_all add: concat_chars)
qed simp

lemma chars_suffix: "\<exists>front. s = front @ concat (drop n (chars s))"
  by (metis append_take_drop_id concat_append concat_chars)

section \<open>Registered configurations\<close>

definition config_good :: "(string \<Rightarrow> url option) \<Rightarrow> string set \<Rightarrow> provider_config \<Rightarrow> bool" where
  "config_good url_parse builtin c \<longleftrightarrow> config_valid url_parse c \<and> cp_name c \<notin> builtin \<and> cp_name c \<noteq> ''routeplane''"

definition all_good :: "(string \<Rightarrow> url option) \<Rightarrow> provider_state \<Rightarrow> bool" where
  "all_good url_parse st \<longleftrightarrow> (\<forall>t n c. t \<noteq> GLOBAL_OWNER \<longrightarrow> registered (shared st) (t, n) = Some c \<longrightarrow>
     cp_tenant_id c = Some t \<and> config_good url_parse (pr_builtin st) c)"

interpretation good: isolated_runs api_step "\<lambda>c. call_ok c \<and> ae_url_parse (fst c) = url_parse" "\<lambda>c. api_tenant (snd c)"
  "\<lambda>st. providers_ok (shared st) \<and> all_good url_parse st" "\<lambda>st (ow :: string). pr_builtin st" for url_parse
proof
  fix c st
  assume c: "call_ok c \<and> ae_url_parse (fst c) = url_parse" and st: "providers_ok (shared st) \<and> all_good url_parse st"
  have b: "pr_builtin (api_step st c) = pr_builtin st" using c st by (simp add: api_step_keeps)
  obtain env call where p: "c = (env, call)" by fastforce
  have "all_good url_parse (api_step st c)"
  proof (cases call)
    case (Delete t n)
    then show ?thesis
      using delete_provider_spec(4) [of env t n st] c st b p by (auto simp: all_good_def split: if_splits)
  next
    case (Upsert t cfg)
    then have ok: "call_ok (env, Upsert t cfg)" "providers_ok (shared st)" using c st p by simp_all
    show ?thesis
      using ok by (rule upsert_provider_cases)
        (use c st b p Upsert validate_valid(1) in \<open>auto simp: all_good_def config_good_def split: if_splits\<close>)
  qed
  then show "providers_ok (shared (api_step st c)) \<and> all_good url_parse (api_step st c)"
    using c st by (simp add: api_step_keeps)
next
  fix c st and ow :: string
  assume "call_ok c \<and> ae_url_parse (fst c) = url_parse" "providers_ok (shared st) \<and> all_good url_parse st"
  then show "pr_builtin (api_step st c) = pr_builtin st" by (simp add: api_step_keeps)
qed

section \<open>Restarts\<close>

text \<open>Validation leaves a stored configuration alone, so reading the file back gives the registry; the
  one exception is a base URL that ends in white space before its slashes.\<close>

fun clean_call :: "api_call \<Rightarrow> bool" where
  "clean_call (Upsert t cfg) =
     (let u = trim_end_slashes (trim (cp_base_url cfg)) in trim_end_slashes (trim u) = u)"
| "clean_call (Delete t n) = True"

definition all_fixed :: "(string \<Rightarrow> url option) \<Rightarrow> provider_state \<Rightarrow> bool" where
  "all_fixed url_parse st \<longleftrightarrow> (\<forall>k c. registered (shared st) k = Some c \<longrightarrow> validate_and_normalize url_parse c = Inr c)"

lemma validate_stamped:
  assumes "validate_and_normalize url_parse cfg = Inr c" and "clean_call (Upsert t cfg)"
  shows "validate_and_normalize url_parse (stamped env r t c) = Inr (stamped env r t c)"
  using validate_valid [OF assms(1)] assms(2) by (intro validate_fixed) (auto simp: Let_def)

interpretation restart: isolated_runs api_step
  "\<lambda>c. call_ok c \<and> ae_url_parse (fst c) = url_parse \<and> clean_call (snd c)" "\<lambda>c. api_tenant (snd c)"
  "\<lambda>st. providers_ok (shared st) \<and> persisted (pr_store st) \<and> ps_has_path (pr_store st) \<and> all_fixed url_parse st"
  "\<lambda>st (ow :: string). pr_builtin st" for url_parse
proof
  fix c st
  assume c: "call_ok c \<and> ae_url_parse (fst c) = url_parse \<and> clean_call (snd c)"
    and st: "providers_ok (shared st) \<and> persisted (pr_store st) \<and> ps_has_path (pr_store st) \<and> all_fixed url_parse st"
  obtain env call where p: "c = (env, call)" by fastforce
  have "all_fixed url_parse (api_step st c)"
  proof (cases call)
    case (Delete t n)
    then show ?thesis
      using delete_provider_spec(4) [of env t n st] c st p by (auto simp: all_fixed_def split: if_splits)
  next
    case (Upsert t cfg)
    then have ok: "call_ok (env, Upsert t cfg)" "providers_ok (shared st)" using c st p by simp_all
    have cl: "clean_call (Upsert t cfg)" using c p Upsert by (metis snd_conv)
    show ?thesis
      using ok by (rule upsert_provider_cases)
        (use c st p Upsert validate_stamped [OF _ cl] in \<open>auto simp: all_fixed_def split: if_splits\<close>)
  qed
  then show "providers_ok (shared (api_step st c)) \<and> persisted (pr_store (api_step st c)) \<and> ps_has_path (pr_store (api_step st c)) \<and>
      all_fixed url_parse (api_step st c)"
    using c st by (simp add: api_step_keeps)
next
  fix c st and ow :: string
  assume "call_ok c \<and> ae_url_parse (fst c) = url_parse \<and> clean_call (snd c)"
    "providers_ok (shared st) \<and> persisted (pr_store st) \<and> ps_has_path (pr_store st) \<and> all_fixed url_parse st"
  then show "pr_builtin (api_step st c) = pr_builtin st" by (simp add: api_step_keeps)
qed

definition file_read_of :: "registry_file \<Rightarrow> file_read" where
  "file_read_of f = (case rf_target f of None \<Rightarrow> Absent | Some cfgs \<Rightarrow> Decoded cfgs)"

lemma try_each_id: "(\<And>x. x \<in> set xs \<Longrightarrow> f x = Inr x) \<Longrightarrow> try_each (\<lambda>_. f) i xs = Inr xs"
  by (induction xs arbitrary: i) auto

lemma reload_same:
  assumes ok: "providers_ok (shared st)" and p: "persisted (pr_store st)" "ps_has_path (pr_store st)"
    and f: "all_fixed url_parse st" and a: "arrange_ok arrange"
  shows "\<exists>r. store_load url_parse arrange (file_read_of (ps_file (pr_store st))) = Inr r \<and> providers_ok r \<and> registered r = registered (shared st)"
proof (cases "rf_target (ps_file (pr_store st))")
  case None
  then have "by_name (shared st) = []" using p by (simp add: persisted_def)
  then have "registered providers_default = registered (shared st)" by (simp add: fun_eq_iff registered_def providers_default_def)
  then show ?thesis using None by (simp add: store_load_def file_read_of_def)
next
  case (Some cfgs)
  then have c: "distinct (map config_key cfgs)" "set cfgs = set (configs_sorted (shared st))"
    using p by (simp_all add: persisted_def)
  have "validate_and_normalize url_parse c = Inr c" if "c \<in> set cfgs" for c
    using f registered_iff [OF ok, of "config_key c" c] that c(2) unfolding all_fixed_def by blast
  then have t: "try_each (\<lambda>_ cfg. map_sum InvalidEntry id (validate_and_normalize url_parse cfg)) 0 cfgs = Inr cfgs"
    by (intro try_each_id) simp
  obtain r where r: "providers_build arrange cfgs = Inr r" using c(1) by (simp add: providers_build_Inr)
  have "registered r k = Some c \<longleftrightarrow> registered (shared st) k = Some c" for k c
    by (simp add: build_registered [OF r a] registered_iff [OF ok] c(2))
  then have "registered r = registered (shared st)" by (intro ext) (metis not_None_eq)
  then show ?thesis using Some t r build_providers_ok(1) [OF r a] by (simp add: store_load_def file_read_of_def)
qed

section \<open>Properties\<close>

lemma provider_isolation_parts:
  assumes "\<forall>c\<in>set reqs. call_ok c" and "providers_ok (shared st)" and "t \<noteq> GLOBAL_OWNER"
    and "t \<notin> (\<lambda>c. api_tenant (snd c)) ` set reqs"
  shows "entry_for (shared (api_run st reqs)) t n = entry_for (shared st) t n"
    and "provider_for_model (shared (api_run st reqs)) t m = provider_for_model (shared st) t m"
    and "resolve_provider builtins (pr_store (api_run st reqs)) t n = resolve_provider builtins (pr_store st) t n"
    and "mset (list_views (shared (api_run st reqs)) t) = mset (list_views (shared st) t)"
    and "model_entries (shared (api_run st reqs)) t = model_entries (shared st) t"
    and "registry_get (providers (pr_health (api_run st reqs))) t n = registry_get (providers (pr_health st)) t n"
proof -
  have g: "GLOBAL_OWNER \<notin> (\<lambda>c. api_tenant (snd c)) ` set reqs" using assms(1) by (auto simp: call_ok_def)
  note mine = api_run_foreign [OF assms(1,2,4)] and glob = api_run_foreign [OF assms(1,2) g]
  note same = same_sight [of "shared (api_run st reqs)" "shared st" t, OF mine(1) assms(2) mine(2) glob(2)]
  show e: "entry_for (shared (api_run st reqs)) t n = entry_for (shared st) t n" by (rule same(1))
  show "provider_for_model (shared (api_run st reqs)) t m = provider_for_model (shared st) t m" by (rule same(2))
  show "resolve_provider builtins (pr_store (api_run st reqs)) t n = resolve_provider builtins (pr_store st) t n"
    using e by (cases "builtins n") (simp_all add: resolve_provider_def provider_adapter_def)
  show "mset (list_views (shared (api_run st reqs)) t) = mset (list_views (shared st) t)" by (rule same(3))
  show "model_entries (shared (api_run st reqs)) t = model_entries (shared st) t" by (rule same(4))
  show "registry_get (providers (pr_health (api_run st reqs))) t n = registry_get (providers (pr_health st)) t n" by (rule mine(3))
qed

text \<open>
  C3. Whatever other tenants do through the provider API, in any order and with any success or failure of the store, a tenant's view does not change: the provider a name resolves to (so the endpoint and the API key used), the provider a model id routes to, the listed views, the model list, and the circuit breaker cells it owns.
\<close>

theorem provider_isolation:
  assumes "\<forall>c\<in>set reqs. call_ok c" and "providers_ok (shared st)" and "t \<noteq> GLOBAL_OWNER"
    and "t \<notin> (\<lambda>c. api_tenant (snd c)) ` set reqs"
  shows "(entry_for (shared (api_run st reqs)) t n = entry_for (shared st) t n) \<and>
   (provider_for_model (shared (api_run st reqs)) t m = provider_for_model (shared st) t m) \<and>
   (resolve_provider builtins (pr_store (api_run st reqs)) t n = resolve_provider builtins (pr_store st) t n) \<and>
   (mset (list_views (shared (api_run st reqs)) t) = mset (list_views (shared st) t)) \<and>
   (model_entries (shared (api_run st reqs)) t = model_entries (shared st) t) \<and>
   (registry_get (providers (pr_health (api_run st reqs))) t n = registry_get (providers (pr_health st)) t n)"
  by ((rule conjI, rule provider_isolation_parts(1) [OF assms]),
      (rule conjI, rule provider_isolation_parts(2) [OF assms]),
      (rule conjI, rule provider_isolation_parts(3) [OF assms]),
      (rule conjI, rule provider_isolation_parts(4) [OF assms]),
      (rule conjI, rule provider_isolation_parts(5) [OF assms]),
      (rule provider_isolation_parts(6) [OF assms]))

theorem provider_isolation_witness:
  "let st = \<lparr>pr_builtin = {}, pr_store = ephemeral, pr_health = tracker_new (\<lambda>_. 0) []\<rparr>;
       menv = \<lparr>me_arrange = id, me_now = [], me_serialize_ok = True, me_join_ok = True, me_io_ok = \<lambda>_. True\<rparr>;
       env = \<lparr>ae_url_parse = \<lambda>_. None, ae_lookup = \<lambda>_. None, ae_allow_private = None, ae_check_join_ok = True,
              ae_mutation = menv, ae_task_ok = True\<rparr>
   in entry_for (shared (api_run st [(env, Delete ''b'' ''p'')])) ''a'' ''p'' = entry_for (shared st) ''a'' ''p''"
  unfolding Let_def
  by (rule provider_isolation [THEN conjunct1]) (simp_all add: call_ok_def arrange_ok_def ephemeral_def GLOBAL_OWNER_def)

lemma registry_survives_restart_parts:
  assumes "\<forall>c\<in>set reqs. call_ok c \<and> ae_url_parse (fst c) = url_parse \<and> clean_call (snd c)"
    and "providers_ok (shared st) \<and> persisted (pr_store st) \<and> ps_has_path (pr_store st) \<and> all_fixed url_parse st"
    and "arrange_ok arrange"
  shows "\<exists>r. store_load url_parse arrange (file_read_of (ps_file (pr_store (api_run st reqs)))) = Inr r \<and>
      providers_ok r \<and> registered r = registered (shared (api_run st reqs))"
    and "rf_target (snd (io_run ok contents (take k write_steps) f)) \<in> {rf_target f, Some contents}"
  using restart.run_keeps [OF assms(1,2)] assms(3) write_atomic_crash by (auto simp: api_run_def intro!: reload_same)



lemma registry_refines_map_parts:
  assumes "providers_ok (ps_shared s)" and "t \<noteq> GLOBAL_OWNER" and "arrange_ok (me_arrange env)"
  shows "upsert env s t cfg = (Inr (v, created), s') \<Longrightarrow>
      registered (ps_shared s') = (registered (ps_shared s))((t, cp_name cfg) \<mapsto> stamped env (ps_shared s) t cfg) \<and>
      v = view_of (stamped env (ps_shared s) t cfg) \<and> (created \<longleftrightarrow> registered (ps_shared s) (t, cp_name cfg) = None)"
    and "remove env s t n = (Inr b, s') \<Longrightarrow>
      registered (ps_shared s') = (registered (ps_shared s))((t, n) := None) \<and> (b \<longleftrightarrow> registered (ps_shared s) (t, n) \<noteq> None)"
    and "upsert env s t cfg = (Inl e, s') \<or> remove env s t n = (Inl e, s') \<Longrightarrow>
      registered (ps_shared s') = registered (ps_shared s) \<and> ps_has_path s"
proof -
  note u = upsert_spec [OF assms(1) disjI1 [OF assms(2)] assms(3)] and r = remove_spec [OF assms]
  show "upsert env s t cfg = (Inr (v, created), s') \<Longrightarrow>
      registered (ps_shared s') = (registered (ps_shared s))((t, cp_name cfg) \<mapsto> stamped env (ps_shared s) t cfg) \<and>
      v = view_of (stamped env (ps_shared s) t cfg) \<and> (created \<longleftrightarrow> registered (ps_shared s) (t, cp_name cfg) = None)"
    using u(4) [of cfg "Inr (v, created)" s'] u(5) [of cfg "Inr (v, created)" s' v created] by simp
  show "remove env s t n = (Inr b, s') \<Longrightarrow>
      registered (ps_shared s') = (registered (ps_shared s))((t, n) := None) \<and> (b \<longleftrightarrow> registered (ps_shared s) (t, n) \<noteq> None)"
    using r(4) [of n "Inr b" s'] r(5) [of n "Inr b" s' b] by simp
  show "upsert env s t cfg = (Inl e, s') \<or> remove env s t n = (Inl e, s') \<Longrightarrow>
      registered (ps_shared s') = registered (ps_shared s) \<and> ps_has_path s"
    using u(4,6) [of cfg "Inl e" s'] r(4,6) [of n "Inl e" s'] by auto
qed

text \<open>
  C38. The store refines a map from owner and name to configuration. A successful upsert sets exactly the caller's entry of that name, under the caller's tenant whatever the body says and with the old creation stamp on an update, and reports whether it was new; a removal deletes exactly the caller's entry and reports whether there was one; a failure, which only persistence can cause, changes nothing.
\<close>

theorem registry_refines_map:
  assumes "providers_ok (ps_shared s)" and "t \<noteq> GLOBAL_OWNER" and "arrange_ok (me_arrange env)"
  shows "((upsert env s t cfg = (Inr (v, created), s')) \<longrightarrow> registered (ps_shared s') = (registered (ps_shared s))((t, cp_name cfg) \<mapsto> stamped env (ps_shared s) t cfg) \<and>
      v = view_of (stamped env (ps_shared s) t cfg) \<and> (created \<longleftrightarrow> registered (ps_shared s) (t, cp_name cfg) = None)) \<and>
   ((remove env s t n = (Inr b, s')) \<longrightarrow> registered (ps_shared s') = (registered (ps_shared s))((t, n) := None) \<and> (b \<longleftrightarrow> registered (ps_shared s) (t, n) \<noteq> None)) \<and>
   ((upsert env s t cfg = (Inl e, s') \<or> remove env s t n = (Inl e, s')) \<longrightarrow> registered (ps_shared s') = registered (ps_shared s) \<and> ps_has_path s)"
  by ((rule conjI, rule impI, rule registry_refines_map_parts(1) [OF assms], assumption),
      (rule conjI, rule impI, rule registry_refines_map_parts(2) [OF assms], assumption),
      (rule impI, rule registry_refines_map_parts(3) [OF assms], assumption))

theorem registry_refines_map_witness:
  "let menv = \<lparr>me_arrange = id, me_now = ''now'', me_serialize_ok = True, me_join_ok = True, me_io_ok = \<lambda>_. True\<rparr>;
       cfg = \<lparr>cp_tenant_id = Some ''b'', cp_name = ''p'', cp_base_url = ''u'', cp_api_key = ''k'', cp_models = [''m''],
              cp_stream_include_usage = None, cp_created_at = None\<rparr>
   in registered (ps_shared (snd (upsert menv ephemeral ''a'' cfg))) (''b'', ''p'') = None"
proof -
  let ?menv = "\<lparr>me_arrange = id, me_now = ''now'', me_serialize_ok = True, me_join_ok = True, me_io_ok = \<lambda>_. True\<rparr>"
  let ?cfg = "\<lparr>cp_tenant_id = Some ''b'', cp_name = ''p'', cp_base_url = ''u'', cp_api_key = ''k'', cp_models = [''m''],
              cp_stream_include_usage = None, cp_created_at = None\<rparr>"
  have ok: "providers_ok (ps_shared ephemeral)" "arrange_ok (me_arrange ?menv)" "''a'' \<noteq> GLOBAL_OWNER"
    by (simp_all add: ephemeral_def arrange_ok_def GLOBAL_OWNER_def)
  obtain res s' where u: "upsert ?menv ephemeral ''a'' ?cfg = (res, s')" by fastforce
  show ?thesis
  proof (cases res)
    case (Inl e)
    then show ?thesis using registry_refines_map [THEN conjunct2, THEN conjunct2, THEN mp, OF ok(1,3,2), of ?cfg e s'] u by (auto simp: ephemeral_def)
  next
    case (Inr x)
    then obtain v c where "res = Inr (v, c)" by (cases x) auto
    then have "registered (ps_shared s') (''b'', ''p'') = registered (ps_shared ephemeral) (''b'', ''p'')"
      using registry_refines_map [THEN conjunct1, THEN mp, OF ok(1,3,2), of ?cfg v c s'] u by simp
    then show ?thesis using u by (simp add: ephemeral_def registered_def providers_default_def)
  qed
qed

subsection \<open>Further facts\<close>

text \<open>
  A model id with no provider named routes to the least name among the caller's own providers that list it, and only if there is none to the least such operator-global name; the answer does not depend on the order of the hash map the registry is built in.
\<close>

lemma model_routing_least:
  assumes "providers_build arrange configs = Inr r" and "arrange_ok arrange"
  shows "provider_for_model r t m = Some p \<longleftrightarrow>
    (let own = {cp_name c | c. c \<in> set configs \<and> owner_of c = t \<and> m \<in> set (cp_models c)};
         global = {cp_name c | c. c \<in> set configs \<and> owner_of c = GLOBAL_OWNER \<and> m \<in> set (cp_models c)};
         names = (if own = {} then global else own)
     in p \<in> names \<and> (\<forall>n\<in>names. p \<le> n))"
proof -
  have sv: "serves r ow m n \<longleftrightarrow> n \<in> {cp_name c | c. c \<in> set configs \<and> owner_of c = ow \<and> m \<in> set (cp_models c)}" for ow n
    by (auto simp: serves_def build_registered [OF assms] config_key_def)
  note ok = build_providers_ok(1) [OF assms]
  note least = model_index_least [OF ok, of _ m]
  have fin: "finite {n. serves r t m n}"
    by (rule finite_subset [of _ "cp_name ` set configs"]) (auto simp: sv)
  have none: "map_of (model_index r) (t, m) = None \<longleftrightarrow> {n. serves r t m n} = {}"
  proof
    assume n: "map_of (model_index r) (t, m) = None"
    show "{n. serves r t m n} = {}"
    proof (rule ccontr)
      assume ne: "{n. serves r t m n} \<noteq> {}"
      then have "map_of (model_index r) (t, m) = Some (Min {n. serves r t m n})"
        using Min_in [OF fin ne] Min_le [OF fin] by (subst least) auto
      with n show False by simp
    qed
  next
    assume "{n. serves r t m n} = {}"
    then show "map_of (model_index r) (t, m) = None" using least by (metis (mono_tags) empty_Collect_eq not_None_eq)
  qed
  show ?thesis
  proof (cases "{n. serves r t m n} = {}")
    case True
    then show ?thesis
      using none least [of GLOBAL_OWNER p] unfolding sv by (simp add: provider_for_model_def Let_def)
  next
    case False
    then obtain q where q: "map_of (model_index r) (t, m) = Some q" using none by blast
    then show ?thesis
      using False least [of t p] unfolding sv by (auto simp: provider_for_model_def Let_def)
  qed
qed

text \<open>
  Every tenant-owned provider ever reachable through the API is one that passed validation and belongs to the tenant it is filed under: a lower-case name of at most 64 bytes that is neither built in nor reserved, an http(s) base URL with a host and no credentials, query or fragment, a key of 1 to 512 bytes, and 1 to 128 distinct trimmed model ids.
\<close>

lemma registered_configs_valid:
  assumes "\<forall>c\<in>set reqs. call_ok c \<and> ae_url_parse (fst c) = url_parse" and "providers_ok (shared st) \<and> all_good url_parse st"
    and "t \<noteq> GLOBAL_OWNER" and "registered (shared (api_run st reqs)) (t, n) = Some c"
  shows "cp_tenant_id c = Some t \<and> cp_name c = n \<and> n \<notin> pr_builtin (api_run st reqs) \<and> n \<noteq> ''routeplane'' \<and> config_valid url_parse c"
proof -
  have "providers_ok (shared (api_run st reqs)) \<and> all_good url_parse (api_run st reqs)"
    using good.run_keeps [OF assms(1,2)] by (simp add: api_run_def)
  then have "cp_tenant_id c = Some t" "config_good url_parse (pr_builtin (api_run st reqs)) c" "config_key c = (t, n)"
    using assms(3,4) registered_key by (auto simp: all_good_def)
  then show ?thesis by (simp add: config_good_def config_key_def)
qed

text \<open>
  What the list endpoint returns to a tenant are views of its own and of operator-global configurations only, and each carries at most the last four characters of its key, and those only for keys of at least eight characters.
\<close>

lemma views_hide_keys:
  assumes "providers_ok r" and "v \<in> set (list_views r t)"
  shows "\<exists>c front rest. registered r (owner_of c, pv_name v) = Some c \<and> cp_tenant_id c \<in> {Some t, None} \<and>
    pv_api_key v = ellipsis @ rest \<and> cp_api_key c = front @ rest \<and>
    (rest = [] \<or> (length (chars rest) = 4 \<and> 8 \<le> length (chars (cp_api_key c))))"
proof -
  obtain c where c: "c \<in> set (configs_sorted r)" "cp_tenant_id c \<in> {Some t, None}" "v = view_of c"
    using assms(2) by (auto simp: list_views_def split: option.splits)
  then have "registered r (owner_of c, pv_name v) = Some c"
    by (simp add: registered_iff assms(1) config_key_def view_of_def)
  moreover have "\<exists>front rest. pv_api_key v = ellipsis @ rest \<and> cp_api_key c = front @ rest \<and>
      (rest = [] \<or> (length (chars rest) = 4 \<and> 8 \<le> length (chars (cp_api_key c))))"
  proof (cases "8 \<le> length (chars (cp_api_key c))")
    case True
    let ?rest = "concat (drop (length (chars (cp_api_key c)) - 4) (chars (cp_api_key c)))"
    obtain front where "cp_api_key c = front @ ?rest" using chars_suffix by blast
    moreover have "length (chars ?rest) = 4" using True by (simp add: chars_drop)
    ultimately show ?thesis using True c(3) by (intro exI [of _ front] exI [of _ ?rest]) (simp add: view_of_def mask_key_def)
  next
    case False
    then show ?thesis using c(3) by (intro exI [of _ "cp_api_key c"] exI [of _ "[]"]) (simp add: view_of_def mask_key_def)
  qed
  ultimately show ?thesis using c(2) by blast
qed

text \<open>
  A caller whose tenant id is the empty string is taken for the operator: what it upserts is filed under the global owner, so every other tenant without a provider of that name resolves the name to the caller's endpoint and key. Nothing in the key registry refuses an empty tenant id, although the resolution of the id is documented as never empty.
\<close>

lemma empty_tenant_is_operator:
  assumes "providers_ok (ps_shared s)" and "arrange_ok (me_arrange env)" and "registered (ps_shared s) (GLOBAL_OWNER, cp_name cfg) = None"
    and "upsert env s [] cfg = (Inr x, s')" and "registered (ps_shared s) (t, cp_name cfg) = None"
  shows "provider_api_key (ps_shared s') t (cp_name cfg) = Some (cp_api_key cfg)"
proof -
  have "registered (ps_shared s) ([], cp_name cfg) = None" using assms(3) by (simp add: GLOBAL_OWNER_def)
  note spec = upsert_spec [OF assms(1) disjI2 [OF this] assms(2,4)]
  have "registered (ps_shared s') (GLOBAL_OWNER, cp_name cfg) = Some (stamped env (ps_shared s) [] cfg)"
    using spec(4) by (simp add: GLOBAL_OWNER_def)
  moreover have "registered (ps_shared s') (t, cp_name cfg) \<in> {None, Some (stamped env (ps_shared s) [] cfg)}"
    using spec(4) assms(5) by simp
  ultimately show ?thesis
    by (auto simp: provider_api_key_def entry_for_def entry_registered [OF spec(1)])
qed

end
