(* ===== verification/Provider_Errors.thy ===== *)
theory Provider_Errors
  imports Rust_Strings
begin

text \<open>
  The typed errors of upstream calls: \<^verbatim>\<open>ProviderError\<close> of \<^verbatim>\<open>crates/adapters/src/lib.rs\<close>, their
  retry class and text, and the classification of a response in \<^verbatim>\<open>client.rs\<close>. A \<^verbatim>\<open>Duration\<close> is a
  number of nanoseconds. What the HTTP client reports of a failed transport is given by the
  tests of \<^verbatim>\<open>reqwest::Error\<close>.
\<close>

type_synonym duration = nat

definition from_millis :: "u64 \<Rightarrow> duration" where "from_millis ms = unat ms * 1000000"
definition from_secs :: "u64 \<Rightarrow> duration" where "from_secs s = unat s * 1000000000"
definition as_secs :: "duration \<Rightarrow> u64" where "as_secs d = of_nat (d div 1000000000)"

text \<open>\<^verbatim>\<open>as_millis() as u64\<close>.\<close>

definition as_millis :: "duration \<Rightarrow> u64" where "as_millis d = of_nat (d div 1000000)"

datatype provider_error =
    Timeout string string
  | RateLimited string "duration option" string
  | Auth string u16 string
  | BadRequest string u16 string
  | Upstream5xx string u16 string
  | Network string string
  | Translation string

datatype retry_class = Always | Status u16 | Never

fun error_status :: "provider_error \<Rightarrow> u16 option" where
  "error_status (RateLimited _ _ _) = Some 429"
| "error_status (Auth _ status _) = Some status"
| "error_status (BadRequest _ status _) = Some status"
| "error_status (Upstream5xx _ status _) = Some status"
| "error_status (Timeout _ _) = None"
| "error_status (Network _ _) = None"
| "error_status (Translation _) = None"

fun retry_class_of :: "provider_error \<Rightarrow> retry_class" where
  "retry_class_of (Timeout _ _) = Always"
| "retry_class_of (Network _ _) = Always"
| "retry_class_of (RateLimited _ _ _) = Status 429"
| "retry_class_of (Upstream5xx _ status _) = Status status"
| "retry_class_of (Auth _ _ _) = Never"
| "retry_class_of (BadRequest _ _ _) = Never"
| "retry_class_of (Translation _) = Never"

definition show_u16 :: "u16 \<Rightarrow> string" where "show_u16 n = show_nat (unat n)"

fun error_display :: "provider_error \<Rightarrow> string" where
  "error_display (Timeout provider detail) = provider @ '': '' @ detail"
| "error_display (RateLimited provider _ body) = provider @ '' API error (429): '' @ body"
| "error_display (Auth provider status _) = provider @ '' authentication failed ('' @ show_u16 status @ '')''"
| "error_display (BadRequest provider status body) = provider @ '' API error ('' @ show_u16 status @ ''): '' @ body"
| "error_display (Upstream5xx provider status body) = provider @ '' API error ('' @ show_u16 status @ ''): '' @ body"
| "error_display (Network provider detail) = provider @ '': '' @ detail"
| "error_display (Translation detail) = detail"

text \<open>A capability the provider lacks: a 422 whose body starts with the name of the capability.\<close>

definition not_supported :: "string \<Rightarrow> string \<Rightarrow> string \<Rightarrow> provider_error" where
  "not_supported code endpoint provider =
     BadRequest provider 422 (code @ '': provider '' @ [CHR 0x27] @ provider @ [CHR 0x27] @ '' has no first-party '' @ endpoint @ '' endpoint'')"

definition embeddings_not_supported :: "string \<Rightarrow> provider_error" where
  "embeddings_not_supported = not_supported ''embeddings_not_supported'' ''embeddings''"
definition rerank_not_supported :: "string \<Rightarrow> provider_error" where
  "rerank_not_supported = not_supported ''rerank_not_supported'' ''rerank''"
definition moderation_not_supported :: "string \<Rightarrow> provider_error" where
  "moderation_not_supported = not_supported ''moderation_not_supported'' ''moderation''"
definition image_generation_not_supported :: "string \<Rightarrow> provider_error" where
  "image_generation_not_supported = not_supported ''image_generation_not_supported'' ''image-generation''"
definition transcription_not_supported :: "string \<Rightarrow> provider_error" where
  "transcription_not_supported = not_supported ''transcription_not_supported'' ''audio-transcription''"
definition translation_not_supported :: "string \<Rightarrow> provider_error" where
  "translation_not_supported = not_supported ''translation_not_supported'' ''audio-translation''"
definition speech_not_supported :: "string \<Rightarrow> provider_error" where
  "speech_not_supported = not_supported ''speech_not_supported'' ''text-to-speech''"

definition azure_deployment_unmapped :: "string \<Rightarrow> string \<Rightarrow> provider_error" where
  "azure_deployment_unmapped provider model =
     BadRequest provider 422 (''azure_deployment_unmapped: model '' @ [CHR 0x27] @ model @ [CHR 0x27] @
       '' maps to no configured Azure deployment (set it in AZURE_OPENAI_DEPLOYMENTS)'')"

section \<open>Responses and transport failures\<close>

definition MAX_ERROR_BODY_BYTES :: nat where "MAX_ERROR_BODY_BYTES = 2048"

text \<open>\<^verbatim>\<open>is_char_boundary\<close>: the ends of the text, and every byte that is no continuation byte.\<close>

definition is_continuation :: "char \<Rightarrow> bool" where
  "is_continuation c \<longleftrightarrow> (of_char c :: nat) div 64 = 2"

definition is_char_boundary :: "string \<Rightarrow> nat \<Rightarrow> bool" where
  "is_char_boundary s i \<longleftrightarrow> i = 0 \<or> i = length s \<or> (i < length s \<and> \<not> is_continuation (s ! i))"

fun boundary_below :: "string \<Rightarrow> nat \<Rightarrow> nat" where
  "boundary_below s 0 = 0"
| "boundary_below s (Suc n) = (if is_char_boundary s (Suc n) then Suc n else boundary_below s n)"

definition truncation_mark :: string where
  "truncation_mark = bytes [0xE2, 0x80, 0xA6] @ ''[truncated]''"

definition truncate_body :: "string \<Rightarrow> string" where
  "truncate_body body =
     (if MAX_ERROR_BODY_BYTES < length body
      then take (boundary_below body MAX_ERROR_BODY_BYTES) body @ truncation_mark else body)"

definition classify_status :: "string \<Rightarrow> u16 \<Rightarrow> duration option \<Rightarrow> string \<Rightarrow> provider_error" where
  "classify_status provider status retry_after body =
     (if status = 401 \<or> status = 403 then Auth provider status body
      else if status = 408 then
        Timeout provider (if body = [] then ''upstream returned 408'' else ''upstream 408: '' @ body)
      else if status = 429 then RateLimited provider retry_after body
      else if 500 \<le> status \<and> status \<le> 599 then Upstream5xx provider status body
      else BadRequest provider status body)"

text \<open>A non-success response: its status, the \<^verbatim>\<open>Retry-After\<close> header when it is visible ASCII, the body
  (empty when it cannot be read).\<close>

definition error_from_response :: "string \<Rightarrow> u16 \<Rightarrow> string option \<Rightarrow> string option \<Rightarrow> provider_error" where
  "error_from_response provider status retry_after body =
     classify_status provider status
       (map_option from_secs (Option.bind retry_after (\<lambda>s. parse_u64 (trim s))))
       (truncate_body (case body of Some b \<Rightarrow> b | None \<Rightarrow> []))"

record transport_error =
  te_is_timeout :: bool
  te_is_connect :: bool
  te_is_request :: bool
  te_is_decode :: bool
  te_is_body :: bool

definition sanitize_transport_error :: "string \<Rightarrow> transport_error \<Rightarrow> provider_error" where
  "sanitize_transport_error provider err =
     (if te_is_timeout err then Timeout provider ''request timed out''
      else if te_is_connect err then Network provider ''connection failed''
      else if te_is_request err then Network provider ''request error''
      else if te_is_decode err then Translation (provider @ '': response decode error'')
      else if te_is_body err then Translation (provider @ '': request/response body error'')
      else Network provider ''upstream transport error'')"

section \<open>Lemmas\<close>

lemma as_secs_from_secs [simp]: "as_secs (from_secs s) = s"
  by (simp add: as_secs_def from_secs_def)

lemma boundary_below_le: "boundary_below s n \<le> n"
  by (induction n) auto

lemma boundary_below_boundary: "is_char_boundary s (boundary_below s n)"
  by (induction n) (auto simp: is_char_boundary_def)

lemma truncate_body_length: "length (truncate_body body) \<le> MAX_ERROR_BODY_BYTES + length truncation_mark"
  using boundary_below_le [of body MAX_ERROR_BODY_BYTES] by (auto simp: truncate_body_def min_def)

text \<open>The retry class of a classified response is determined by its status.\<close>

lemma classify_retry:
  "retry_class_of (classify_status provider status ra body) =
     (if status = 408 then Always
      else if status = 429 \<or> (500 \<le> status \<and> status \<le> 599) then Status status else Never)"
  by (auto simp: classify_status_def)

lemma classify_error_status:
  "error_status (classify_status provider status ra body) = (if status = 408 then None else Some status)"
  by (auto simp: classify_status_def)

text \<open>The text of an authentication failure does not depend on the body.\<close>

lemma auth_display_body: "error_display (Auth provider status body) = error_display (Auth provider status body')"
  by simp

end
