(* ===== verification/Deadlines.thy ===== *)
theory Deadlines
  imports Provider_Errors
begin

text \<open>
  Server limits of \<^verbatim>\<open>crates/routeplane/src/config.rs\<close> and the request deadline of \<^verbatim>\<open>proxy.rs\<close>. An
  instant is a number of nanoseconds on the monotonic clock; every clock reading is an argument.
  The environment is a map from variable names to values.
\<close>

section \<open>Configuration\<close>

type_synonym environment = "string \<rightharpoonup> string"

definition env_duration_ms :: "environment \<Rightarrow> string \<Rightarrow> duration \<Rightarrow> duration" where
  "env_duration_ms env var def =
     (case Option.bind (env var) parse_u64 of
        Some v \<Rightarrow> if 0 < v then from_millis v else def
      | None \<Rightarrow> def)"

definition env_usize :: "environment \<Rightarrow> string \<Rightarrow> u64 \<Rightarrow> u64" where
  "env_usize env var def =
     (case Option.bind (env var) parse_u64 of
        Some v \<Rightarrow> if 0 < v then v else def
      | None \<Rightarrow> def)"

record deadline_config =
  request_deadline :: duration
  per_attempt_timeout :: duration

definition deadline_config_default :: deadline_config where
  "deadline_config_default = \<lparr>request_deadline = from_millis 120000, per_attempt_timeout = from_millis 60000\<rparr>"

definition deadline_config_from_env :: "environment \<Rightarrow> deadline_config" where
  "deadline_config_from_env env =
     (let d = deadline_config_default in
      \<lparr>request_deadline = env_duration_ms env ''ROUTEPLANE_REQUEST_DEADLINE_MS'' (request_deadline d),
       per_attempt_timeout = env_duration_ms env ''ROUTEPLANE_PER_ATTEMPT_TIMEOUT_MS'' (per_attempt_timeout d)\<rparr>)"

record server_limits =
  max_concurrency :: u64
  request_timeout :: duration
  max_body_bytes :: u64
  audio_max_body_bytes :: u64
  max_messages :: u64
  max_message_chars :: u64
  max_embedding_inputs :: u64

definition server_limits_default :: server_limits where
  "server_limits_default =
     \<lparr>max_concurrency = 256, request_timeout = from_millis 150000, max_body_bytes = 2 * 1024 * 1024,
      audio_max_body_bytes = 26 * 1024 * 1024, max_messages = 2048, max_message_chars = 1500000,
      max_embedding_inputs = 2048\<rparr>"

definition server_limits_from_env :: "environment \<Rightarrow> server_limits" where
  "server_limits_from_env env =
     (let d = server_limits_default in
      \<lparr>max_concurrency = env_usize env ''ROUTEPLANE_MAX_CONCURRENCY'' (max_concurrency d),
       request_timeout = env_duration_ms env ''ROUTEPLANE_REQUEST_TIMEOUT_MS'' (request_timeout d),
       max_body_bytes = env_usize env ''ROUTEPLANE_MAX_BODY_BYTES'' (max_body_bytes d),
       audio_max_body_bytes = env_usize env ''RP_AUDIO_MAX_BODY_BYTES'' (audio_max_body_bytes d),
       max_messages = env_usize env ''RP_MAX_MESSAGES'' (max_messages d),
       max_message_chars = env_usize env ''RP_MAX_MESSAGE_CHARS'' (max_message_chars d),
       max_embedding_inputs = env_usize env ''RP_MAX_EMBEDDING_INPUTS'' (max_embedding_inputs d)\<rparr>)"

datatype input_error = TooManyMessages | ContentTooLarge | TooManyInputs

definition check_chat_input :: "server_limits \<Rightarrow> u64 \<Rightarrow> u64 \<Rightarrow> input_error + unit" where
  "check_chat_input l message_count total_chars =
     (if max_messages l < message_count then Inl TooManyMessages
      else if max_message_chars l < total_chars then Inl ContentTooLarge
      else Inr ())"

definition check_embedding_input :: "server_limits \<Rightarrow> u64 \<Rightarrow> input_error + unit" where
  "check_embedding_input l input_count = (if max_embedding_inputs l < input_count then Inl TooManyInputs else Inr ())"

section \<open>The deadline of a request\<close>

type_synonym instant = nat

record deadline =
  expires_at :: instant
  per_attempt :: duration
  client_capped :: bool

definition deadline_start :: "deadline_config \<Rightarrow> instant \<Rightarrow> deadline" where
  "deadline_start cfg now =
     \<lparr>expires_at = now + request_deadline cfg, per_attempt = per_attempt_timeout cfg, client_capped = False\<rparr>"

definition with_request_cap :: "instant \<Rightarrow> u64 option \<Rightarrow> deadline \<Rightarrow> deadline" where
  "with_request_cap now cap_ms d =
     (case cap_ms of
        Some ms \<Rightarrow> (let capped = now + from_millis ms in if capped < expires_at d then d\<lparr>expires_at := capped\<rparr> else d)
      | None \<Rightarrow> d)"

definition with_client_request_cap :: "instant \<Rightarrow> u64 option \<Rightarrow> deadline \<Rightarrow> deadline" where
  "with_client_request_cap now cap_ms d =
     (case cap_ms of
        Some ms \<Rightarrow>
          (let capped = now + from_millis ms in
           if capped < expires_at d then d\<lparr>expires_at := capped, client_capped := True\<rparr> else d)
      | None \<Rightarrow> d)"

definition remaining :: "instant \<Rightarrow> deadline \<Rightarrow> duration" where
  "remaining now d = expires_at d - now"

definition next_attempt_timeout :: "instant \<Rightarrow> deadline \<Rightarrow> duration option" where
  "next_attempt_timeout now d =
     (let r = remaining now d in if r = 0 then None else Some (min r (per_attempt d)))"

definition next_attempt_timeout_capped :: "instant \<Rightarrow> deadline \<Rightarrow> u64 option \<Rightarrow> duration option" where
  "next_attempt_timeout_capped now d cap_ms =
     (case next_attempt_timeout now d of
        None \<Rightarrow> None
      | Some base \<Rightarrow> Some (case cap_ms of Some ms \<Rightarrow> min base (from_millis ms) | None \<Rightarrow> base))"

definition server_attempt_bound :: "deadline \<Rightarrow> u64 option \<Rightarrow> duration" where
  "server_attempt_bound d cap_ms =
     (case cap_ms of Some ms \<Rightarrow> min (per_attempt d) (from_millis ms) | None \<Rightarrow> per_attempt d)"

definition attempt_bounded_by_client :: "deadline \<Rightarrow> duration \<Rightarrow> u64 option \<Rightarrow> bool" where
  "attempt_bounded_by_client d attempt_timeout cap_ms \<longleftrightarrow>
     client_capped d \<and> attempt_timeout < server_attempt_bound d cap_ms"

text \<open>The header value, when it is visible ASCII.\<close>

definition parse_request_timeout_header :: "string option \<Rightarrow> u64 option" where
  "parse_request_timeout_header header =
     (case Option.bind header (\<lambda>s. parse_u64 (trim s)) of
        Some ms \<Rightarrow> if 0 < ms then Some ms else None
      | None \<Rightarrow> None)"

text \<open>The deadline of a chat request: the server's budget, the routing configuration's cap, the caller's.\<close>

definition request_deadline_of ::
  "deadline_config \<Rightarrow> instant \<Rightarrow> instant \<Rightarrow> u64 option \<Rightarrow> instant \<Rightarrow> string option \<Rightarrow> deadline" where
  "request_deadline_of cfg now0 now1 config_cap now2 header =
     with_client_request_cap now2 (parse_request_timeout_header header)
       (with_request_cap now1 config_cap (deadline_start cfg now0))"

section \<open>Lemmas\<close>

lemma cap_shrinks:
  "expires_at (with_request_cap now cap d) \<le> expires_at d"
  "expires_at (with_client_request_cap now cap d) \<le> expires_at d"
  by (auto simp: with_request_cap_def with_client_request_cap_def Let_def split: option.split)

lemma cap_keeps:
  "per_attempt (with_request_cap now cap d) = per_attempt d"
  "client_capped (with_request_cap now cap d) = client_capped d"
  "per_attempt (with_client_request_cap now cap d) = per_attempt d"
  by (auto simp: with_request_cap_def with_client_request_cap_def Let_def split: option.split)

lemma client_capped_iff:
  "client_capped (with_client_request_cap now cap d) \<longleftrightarrow>
     client_capped d \<or> (\<exists>ms. cap = Some ms \<and> now + from_millis ms < expires_at d)"
  by (auto simp: with_client_request_cap_def Let_def split: option.split)

text \<open>A timeout lets the attempt end by the deadline, and is within the server's bound.\<close>

lemma attempt_timeout_bounds:
  assumes "next_attempt_timeout_capped now d cap = Some t"
  shows "now < expires_at d" "now + t \<le> expires_at d" "t \<le> server_attempt_bound d cap"
    "t = min (expires_at d - now) (server_attempt_bound d cap)"
  using assms by (auto simp: next_attempt_timeout_capped_def next_attempt_timeout_def remaining_def
      server_attempt_bound_def Let_def split: option.splits if_splits)

lemma attempt_timeout_None: "next_attempt_timeout_capped now d cap = None \<longleftrightarrow> expires_at d \<le> now"
  by (auto simp: next_attempt_timeout_capped_def next_attempt_timeout_def remaining_def Let_def split: option.splits)

text \<open>The deadline of a request is within each of the three budgets.\<close>

lemma request_deadline_bounds:
  "expires_at (request_deadline_of cfg now0 now1 config_cap now2 header) \<le> now0 + request_deadline cfg"
  "config_cap = Some ms \<Longrightarrow> expires_at (request_deadline_of cfg now0 now1 config_cap now2 header) \<le> now1 + from_millis ms"
  "parse_request_timeout_header header = Some ms2 \<Longrightarrow>
     expires_at (request_deadline_of cfg now0 now1 config_cap now2 header) \<le> now2 + from_millis ms2"
  "per_attempt (request_deadline_of cfg now0 now1 config_cap now2 header) = per_attempt_timeout cfg"
  by (auto simp: request_deadline_of_def with_request_cap_def with_client_request_cap_def deadline_start_def Let_def
      split: option.split)

end
