(* ===== verification/Key_Pool.thy ===== *)
theory Key_Pool
  imports Deadlines Key_Cooldown Policy_Eval
begin

text \<open>
  Upstream API keys, \<^verbatim>\<open>crates/routeplane/src/proxy.rs\<close>: a virtual key's entry for a provider is one
  key or a comma-separated pool; the keys of a pool are tried in the order their cooldowns give,
  and a failed attempt cools its key for a time that depends on the error.
\<close>

section \<open>Resolving keys\<close>

definition env_or_empty :: "environment \<Rightarrow> string \<Rightarrow> string" where
  "env_or_empty env var = (case env var of Some v \<Rightarrow> v | None \<Rightarrow> [])"

definition is_key_pool :: "string \<Rightarrow> bool" where
  "is_key_pool value \<longleftrightarrow> contains value '',''"

definition resolve_element :: "environment \<Rightarrow> string \<Rightarrow> string" where
  "resolve_element env raw =
     (let elem = trim raw in
      case strip_prefix ''env:'' elem of Some env_var \<Rightarrow> env_or_empty env env_var | None \<Rightarrow> elem)"

definition resolve_pool :: "environment \<Rightarrow> string \<Rightarrow> (u64 \<times> string) list" where
  "resolve_pool env value =
     filter (\<lambda>(_, key). key \<noteq> [])
       (map (\<lambda>(idx, raw). (of_nat idx, resolve_element env raw)) (enumerate 0 (split_on CHR '','' value)))"

definition resolve_api_key :: "environment \<Rightarrow> (string \<rightharpoonup> string) \<Rightarrow> string \<Rightarrow> string option" where
  "resolve_api_key env provider_keys provider_name =
     (case provider_keys provider_name of
        None \<Rightarrow> None
      | Some value \<Rightarrow>
          if is_key_pool value then
            (case resolve_pool env value of [] \<Rightarrow> None | (_, key) # _ \<Rightarrow> Some key)
          else
            let api_key = (case strip_prefix ''env:'' value of Some env_var \<Rightarrow> env_or_empty env env_var | None \<Rightarrow> value)
            in if api_key = [] then None else Some api_key)"

section \<open>The order of a pool\<close>

definition swap_at :: "nat \<Rightarrow> nat \<Rightarrow> 'a list \<Rightarrow> 'a list" where
  "swap_at i j xs = xs[i := xs ! j, j := xs ! i]"

text \<open>The Fisher-Yates loop, from the last index down to 1.\<close>

fun shuffle_from :: "nat \<Rightarrow> 'a list \<Rightarrow> u64 \<Rightarrow> 'a list \<times> u64" where
  "shuffle_from 0 xs rng = (xs, rng)"
| "shuffle_from (Suc i) xs rng =
     (let (j, rng) = policy_next_below (of_nat (Suc i) + 1) rng
      in shuffle_from i (swap_at (Suc i) (unat j) xs) rng)"

definition order_pool_keys ::
  "(u64 \<times> string) list \<Rightarrow> string \<Rightarrow> string \<Rightarrow> health_tracker \<Rightarrow> u64 \<Rightarrow> u64 \<Rightarrow> (u64 \<times> string) list \<times> u64" where
  "order_pool_keys resolved tenant provider health now_ms rng =
     (let (available, cooled) = partition (\<lambda>(idx, _). key_available health tenant provider idx now_ms) resolved;
          (available, rng) = shuffle_from (length available - 1) available rng;
          cooled = sort_key (\<lambda>(idx, _). key_cooled_until health tenant provider idx) cooled
      in (available @ cooled, rng))"

section \<open>Cooldowns\<close>

record cooldown_windows =
  rate_limited_ms :: u64
  auth_ms :: u64
  transient_ms :: u64

definition env_u64 :: "environment \<Rightarrow> string \<Rightarrow> u64 \<Rightarrow> u64" where
  "env_u64 env name def = (case Option.bind (env name) (\<lambda>v. parse_u64 (trim v)) of Some v \<Rightarrow> v | None \<Rightarrow> def)"

definition COOLDOWN_WINDOWS :: "environment \<Rightarrow> cooldown_windows" where
  "COOLDOWN_WINDOWS env =
     \<lparr>rate_limited_ms = env_u64 env ''RP_KEY_COOLDOWN_429_MS'' 20000,
      auth_ms = env_u64 env ''RP_KEY_COOLDOWN_AUTH_MS'' 600000,
      transient_ms = env_u64 env ''RP_KEY_COOLDOWN_TRANSIENT_MS'' 2000\<rparr>"

definition key_cooldown_ms :: "cooldown_windows \<Rightarrow> u16 option \<Rightarrow> u64 option \<Rightarrow> u64" where
  "key_cooldown_ms w status retry_after_secs =
     (if status = Some 429 then
        (case retry_after_secs of Some s \<Rightarrow> sat_mul s 1000 | None \<Rightarrow> rate_limited_ms w)
      else if status = Some 401 \<or> status = Some 403 then auth_ms w
      else transient_ms w)"

fun key_cooldown_for_error :: "cooldown_windows \<Rightarrow> provider_error \<Rightarrow> u64 option" where
  "key_cooldown_for_error w (RateLimited _ retry_after _) =
     Some (key_cooldown_ms w (Some 429) (map_option as_secs retry_after))"
| "key_cooldown_for_error w (Auth _ status _) = Some (key_cooldown_ms w (Some status) None)"
| "key_cooldown_for_error w (Upstream5xx _ _ _) = Some (key_cooldown_ms w (Some 500) None)"
| "key_cooldown_for_error w (Timeout _ _) = Some (key_cooldown_ms w (Some 500) None)"
| "key_cooldown_for_error w (Network _ _) = Some (key_cooldown_ms w (Some 500) None)"
| "key_cooldown_for_error w (BadRequest _ _ _) = None"
| "key_cooldown_for_error w (Translation _) = None"

section \<open>Lemmas\<close>

lemma mset_swap_at: "i < length xs \<Longrightarrow> j < length xs \<Longrightarrow> mset (swap_at i j xs) = mset xs"
  by (simp add: swap_at_def mset_swap)

lemma next_below_le:
  assumes "i < 2 ^ 63"
  shows "unat (fst (policy_next_below (of_nat i + 1) rng)) \<le> i"
proof -
  have u: "unat (of_nat i + 1 :: u64) = Suc i" using unat_of_nat_u64 [of "Suc i"] assms by (simp add: add.commute)
  have "unat (x mod (of_nat i + 1) :: u64) < Suc i" for x
    unfolding unat_mod_u64 u by simp
  then show ?thesis by (auto simp: policy_next_below_def less_Suc_eq_le split: prod.split)
qed

lemma mset_shuffle_from: "i < length xs \<Longrightarrow> i < 2 ^ 63 \<Longrightarrow> mset (fst (shuffle_from i xs rng)) = mset xs"
proof (induction i arbitrary: xs rng)
  case (Suc i)
  obtain j rng' where j: "policy_next_below (of_nat (Suc i) + 1) rng = (j, rng')" by fastforce
  then have "unat j \<le> Suc i" using next_below_le [of "Suc i" rng] Suc.prems by simp
  then have "unat j < length xs" using Suc.prems by simp
  then have "mset (swap_at (Suc i) (unat j) xs) = mset xs" using Suc.prems by (simp add: mset_swap_at)
  moreover have "length (swap_at (Suc i) (unat j) xs) = length xs" by (simp add: swap_at_def)
  ultimately show ?case using Suc.IH [of "swap_at (Suc i) (unat j) xs" rng'] Suc.prems j by simp
qed simp

lemma mset_shuffle: "length xs \<le> 2 ^ 63 \<Longrightarrow> mset (fst (shuffle_from (length xs - 1) xs rng)) = mset xs"
  using mset_shuffle_from [of "length xs - 1" xs rng] by (cases xs) auto

lemma order_pool_keys_split:
  assumes "length resolved \<le> 2 ^ 63"
  obtains av where "fst (order_pool_keys resolved tenant provider health now_ms rng) =
      av @ sort_key (\<lambda>(idx, _). key_cooled_until health tenant provider idx)
        (filter (\<lambda>(idx, _). \<not> key_available health tenant provider idx now_ms) resolved)"
    "mset av = mset (filter (\<lambda>(idx, _). key_available health tenant provider idx now_ms) resolved)"
proof -
  let ?P = "\<lambda>(idx, key :: string). key_available health tenant provider idx now_ms"
  let ?av = "filter ?P resolved"
  have n: "filter (Not \<circ> ?P) resolved = filter (\<lambda>(idx, _). \<not> key_available health tenant provider idx now_ms) resolved"
    by (rule filter_cong) auto
  have "length ?av \<le> 2 ^ 63" using assms length_filter_le le_trans by blast
  then have "mset (fst (shuffle_from (length ?av - 1) ?av rng)) = mset ?av" by (rule mset_shuffle)
  then show ?thesis
    using that by (simp add: order_pool_keys_def Let_def case_prod_beta n del: filter.simps)
qed

lemma resolve_pool_indices:
  "(i, k) \<in> set (resolve_pool env value) \<Longrightarrow>
     k \<noteq> [] \<and> (\<exists>n < length (split_on CHR '','' value). i = of_nat n \<and> k = resolve_element env (split_on CHR '','' value ! n))"
  by (auto simp: resolve_pool_def in_set_enumerate_eq)

lemma resolve_pool_distinct:
  assumes "length (split_on CHR '','' value) \<le> 2 ^ 63"
  shows "distinct (map fst (resolve_pool env value))"
proof -
  let ?n = "length (split_on CHR '','' value)"
  have "inj_on (of_nat :: nat \<Rightarrow> u64) {0..<?n}"
  proof (rule inj_onI)
    fix i j assume "i \<in> {0..<?n}" "j \<in> {0..<?n}" and e: "(of_nat i :: u64) = of_nat j"
    then have "i < 2 ^ 64" "j < 2 ^ 64" using assms by simp_all
    then show "i = j" using unat_of_nat_u64 e by metis
  qed
  then have "distinct (map (of_nat :: nat \<Rightarrow> u64) [0..<?n])" by (simp add: distinct_map)
  moreover have "map fst (map (\<lambda>(idx, raw). (of_nat idx :: u64, resolve_element env raw)) (enumerate 0 xs)) =
      map of_nat [0..<length xs]" for xs
    by (rule nth_equalityI) (simp_all add: nth_enumerate_eq)
  ultimately have "distinct (map fst (map (\<lambda>(idx, raw). (of_nat idx :: u64, resolve_element env raw)) (enumerate 0 (split_on CHR '','' value))))"
    by simp
  then show ?thesis unfolding resolve_pool_def by (rule distinct_map_filter)
qed

lemma resolve_pool_length: "length (resolve_pool env value) \<le> length (split_on CHR '','' value)"
  unfolding resolve_pool_def by (rule order_trans [OF length_filter_le]) simp

section \<open>Properties\<close>

lemma pool_order_parts:
  assumes "length (split_on CHR '','' value) \<le> 2 ^ 63"
    and "keys = fst (order_pool_keys (resolve_pool env value) tenant provider health now_ms rng)"
  shows "mset keys = mset (resolve_pool env value)"
    and "\<exists>available cooled. keys = available @ cooled \<and>
      (\<forall>(i, _)\<in>set available. key_available health tenant provider i now_ms) \<and>
      (\<forall>(i, _)\<in>set cooled. \<not> key_available health tenant provider i now_ms) \<and>
      sorted (map (\<lambda>(i, _). key_cooled_until health tenant provider i) cooled)"
    and "distinct (map fst keys)"
proof -
  let ?until = "\<lambda>(i, _ :: string). key_cooled_until health tenant provider i"
  let ?av = "\<lambda>(i, _ :: string). key_available health tenant provider i now_ms"
  let ?cooled = "sort_key ?until (filter (\<lambda>x. \<not> ?av x) (resolve_pool env value))"
  have n: "filter (\<lambda>(i, _). \<not> key_available health tenant provider i now_ms) (resolve_pool env value) =
      filter (\<lambda>x. \<not> ?av x) (resolve_pool env value)" by (rule filter_cong) auto
  have len: "length (resolve_pool env value) \<le> 2 ^ 63"
    using assms(1) resolve_pool_length [of env "value"] by linarith
  obtain av where av: "keys = av @ ?cooled" "mset av = mset (filter ?av (resolve_pool env value))"
    using order_pool_keys_split [OF len, of tenant provider health now_ms rng] unfolding assms(2) n by blast
  show m: "mset keys = mset (resolve_pool env value)" unfolding av(1) by (simp add: av(2))
  have "\<forall>x\<in>set av. ?av x" using mset_eq_setD [OF av(2)] by simp
  moreover have "\<forall>x\<in>set ?cooled. \<not> ?av x" by simp
  moreover have "sorted (map ?until ?cooled)" by simp
  ultimately show "\<exists>available cooled. keys = available @ cooled \<and>
      (\<forall>(i, _)\<in>set available. key_available health tenant provider i now_ms) \<and>
      (\<forall>(i, _)\<in>set cooled. \<not> key_available health tenant provider i now_ms) \<and>
      sorted (map (\<lambda>(i, _). key_cooled_until health tenant provider i) cooled)"
    using av(1) by (intro exI [of _ av] exI [of _ ?cooled]) (simp add: case_prod_beta)
  have "distinct (map fst (resolve_pool env value))" by (rule resolve_pool_distinct [OF assms(1)])
  then show "distinct (map fst keys)" using m by (metis mset_map mset_eq_imp_distinct_iff)
qed

text \<open>
  C29. A pool of keys is tried in a full permutation of the usable entries of its value, every key that is not cooling down before every key that is, and the cooling ones in the order their windows end, so that a pool whose keys all cool down is still tried, the key that recovers first leading.
\<close>

theorem pool_order:
  assumes "length (split_on CHR '','' value) \<le> 2 ^ 63"
    and "keys = fst (order_pool_keys (resolve_pool env value) tenant provider health now_ms rng)"
  shows "(mset keys = mset (resolve_pool env value)) \<and>
   ((\<exists>available cooled. keys = available @ cooled \<and>
      (\<forall>(i, _)\<in>set available. key_available health tenant provider i now_ms) \<and>
      (\<forall>(i, _)\<in>set cooled. \<not> key_available health tenant provider i now_ms) \<and>
      sorted (map (\<lambda>(i, _). key_cooled_until health tenant provider i) cooled))) \<and>
   (distinct (map fst keys))"
  by ((rule conjI, rule pool_order_parts(1) [OF assms]),
      (rule conjI, rule pool_order_parts(2) [OF assms]),
      (rule pool_order_parts(3) [OF assms]))

theorem pool_order_witness:
  "\<exists>available cooled. fst (order_pool_keys (resolve_pool Map.empty ''a, b'') ''acme'' ''openai'' (tracker_new (\<lambda>_. 0) []) 5 0) = available @ cooled \<and>
      (\<forall>(i, _)\<in>set available. key_available (tracker_new (\<lambda>_. 0) []) ''acme'' ''openai'' i 5) \<and>
      (\<forall>(i, _)\<in>set cooled. \<not> key_available (tracker_new (\<lambda>_. 0) []) ''acme'' ''openai'' i 5) \<and>
      sorted (map (\<lambda>(i, _). key_cooled_until (tracker_new (\<lambda>_. 0) []) ''acme'' ''openai'' i) cooled)"
  by (rule pool_order [THEN conjunct2, THEN conjunct1, of "''a, b''" _ Map.empty "''acme''" "''openai''" "tracker_new (\<lambda>_. 0) []" 5 0]) simp_all

end
