(* ===== verification/Dispatch.thy ===== *)
theory Dispatch
  imports Key_Pool Custom_Providers
begin

text \<open>
  The dispatch of a buffered chat request, \<^verbatim>\<open>crates/routeplane/src/proxy.rs\<close>: \<^verbatim>\<open>attempt_target\<close>, which
  drives one target with its retries, and the sequential walk over the targets and their keys.
  The process-wide health state is shared: before every access of a request to it, other
  requests may have made any calls. What the upstream answers, the clock readings and those
  calls are the inputs of a try.
\<close>

section \<open>The shared state\<close>

type_synonym health_sys = "health_tracker \<times> guard list"

datatype health_call =
    Tracked string tracker_call
  | CoolKey string string u64 u64
  | ClearKey string string u64

fun health_step :: "health_sys \<Rightarrow> health_call \<Rightarrow> health_sys" where
  "health_step s (Tracked ow c) = tracked_step s (ow, c)"
| "health_step (t, gs) (CoolKey ow p i until_ms) = (cool_key t ow p i until_ms, gs)"
| "health_step (t, gs) (ClearKey ow p i) = (clear_key t ow p i, gs)"

definition health_run :: "health_sys \<Rightarrow> health_call list \<Rightarrow> health_sys" where
  "health_run s cs = foldl health_step s cs"

text \<open>A request's run: the shared state, its own calls on it, the upstream calls it has sent (key and
  timeout), and the failure events it has emitted.\<close>

record run =
  rn_sys :: health_sys
  rn_log :: "health_call list"
  rn_sent :: "(string \<times> instant \<times> duration) list"
  rn_usage :: "string list"

definition others :: "health_call list \<Rightarrow> run \<Rightarrow> run" where
  "others cs r = r\<lparr>rn_sys := health_run (rn_sys r) cs\<rparr>"

definition own_call :: "health_call \<Rightarrow> run \<Rightarrow> run" where
  "own_call c r = r\<lparr>rn_sys := health_step (rn_sys r) c, rn_log := rn_log r @ [c]\<rparr>"

section \<open>Errors and health\<close>

fun counts_as_health_failure :: "provider_error \<Rightarrow> bool" where
  "counts_as_health_failure (RateLimited _ _ _) = False"
| "counts_as_health_failure (BadRequest _ _ _) = False"
| "counts_as_health_failure _ = True"

fun is_timeout_error :: "provider_error \<Rightarrow> bool" where
  "is_timeout_error (Timeout _ _) = True" | "is_timeout_error _ = False"

definition is_client_deadline_timeout :: "provider_error \<Rightarrow> bool \<Rightarrow> bool" where
  "is_client_deadline_timeout e client_bounded \<longleftrightarrow> client_bounded \<and> is_timeout_error e"

definition is_retryable :: "provider_error \<Rightarrow> retry_policy \<Rightarrow> bool" where
  "is_retryable e retry =
     (case retry_class_of e of Always \<Rightarrow> True | Status code \<Rightarrow> code \<in> on_status retry | Never \<Rightarrow> False)"

fun upstream_client_status :: "provider_error \<Rightarrow> u16 option" where
  "upstream_client_status (BadRequest _ status _) = (if 400 \<le> status \<and> status < 500 then Some status else None)"
| "upstream_client_status _ = None"

fun retry_after_of :: "provider_error \<Rightarrow> duration option" where
  "retry_after_of (RateLimited _ retry_after _) = retry_after" | "retry_after_of _ = None"

section \<open>One target\<close>

text \<open>
  The inputs of a try. \<open>ti_others n\<close> are the calls of other requests before the \<open>n\<close>-th own access:
  the availability check (0), the probe permit (1), the drop of the guard (2), the latency sample
  (3), the breaker verdict (4), the key's cooldown (5). The answer is missing when the timeout
  elapsed first.
\<close>

record 'r try_input =
  ti_retry_clock :: instant
  ti_others :: "nat \<Rightarrow> health_call list"
  ti_available_ms :: u64
  ti_clock :: instant
  ti_probe_ms :: u64
  ti_reply :: "(provider_error + 'r) option"
  ti_elapsed :: duration
  ti_failure_ms :: u64
  ti_unix_ms :: u64
  ti_end_clock :: instant

record target_attempt =
  at_tenant :: string
  at_resolves :: bool
  at_target :: target_plan
  at_key :: string
  at_deadline :: deadline
  at_key_index :: "u64 option"
  at_windows :: cooldown_windows

datatype exhausted_reason =
    Unsupported | NoTimeToRetry | BreakerOpen | NoTimeLeft | ProbeSaturated | UpstreamError provider_error
  | NoKey | NoProviders

datatype 'r target_outcome =
    Won 'r u64
  | Exhausted exhausted_reason bool "u16 option"

definition max_duration :: "duration \<Rightarrow> duration option \<Rightarrow> duration" where
  "max_duration d hint = (case hint of Some ra \<Rightarrow> max d ra | None \<Rightarrow> d)"

text \<open>The wait before a retry: the next state of the generator, unless the deadline comes first.\<close>

definition retry_wait :: "target_attempt \<Rightarrow> instant \<Rightarrow> u32 \<Rightarrow> duration option \<Rightarrow> u64 \<Rightarrow> u64 option" where
  "retry_wait a clock n hint rng =
     (if n = 0 then Some rng
      else let (ms, rng) = delay (backoff (tp_retry (at_target a))) (n - 1) rng
           in if remaining clock (at_deadline a) \<le> max_duration (from_millis ms) hint then None else Some rng)"

text \<open>From the check of the breaker to the permit: the guard and the timeout, or why no call is made.\<close>

definition enter_try :: "target_attempt \<Rightarrow> 'r try_input \<Rightarrow> run \<Rightarrow> (exhausted_reason + guard option \<times> duration) \<times> run" where
  "enter_try a i r =
     (let p = tp_provider (at_target a); r = others (ti_others i 0) r;
          available = fst (tracker_is_available (ti_available_ms i) (fst (rn_sys r)) (at_tenant a) p);
          r = own_call (Tracked (at_tenant a) (IsAvailable (ti_available_ms i) p)) r
      in if \<not> available then (Inl BreakerOpen, r)
         else case next_attempt_timeout_capped (ti_clock i) (at_deadline a) (tp_timeout_ms (at_target a)) of
             None \<Rightarrow> (Inl NoTimeLeft, r)
           | Some t \<Rightarrow>
               let r = others (ti_others i 1) r;
                   admission = fst (try_enter_probe (ti_probe_ms i) (fst (rn_sys r)) (at_tenant a) p);
                   r = own_call (Tracked (at_tenant a) (TryProbe (ti_probe_ms i) p)) r
               in case admission of
                    Admitted g \<Rightarrow> (Inr (Some g, t), r)
                  | Untracked \<Rightarrow> (Inr (None, t), r)
                  | Rejected \<Rightarrow> (Inl ProbeSaturated, r))"

text \<open>The upstream call and the drop of the guard.\<close>

definition send_try :: "target_attempt \<Rightarrow> 'r try_input \<Rightarrow> guard option \<Rightarrow> duration \<Rightarrow> run \<Rightarrow> run" where
  "send_try a i g t r =
     (let r = r\<lparr>rn_sent := rn_sent r @ [(at_key a, ti_clock i, t)]\<rparr>; r = others (ti_others i 2) r
      in case g of Some g \<Rightarrow> own_call (Tracked (at_tenant a) (DropGuard g)) r | None \<Rightarrow> r)"

definition reply_of :: "target_attempt \<Rightarrow> 'r try_input \<Rightarrow> duration \<Rightarrow> provider_error + 'r" where
  "reply_of a i t =
     (case ti_reply i of
        Some reply \<Rightarrow> reply
      | None \<Rightarrow> Inl (Timeout (tp_provider (at_target a)) (''timed out after '' @ show_nat (t div 1000000) @ ''ms'')))"

definition note_success :: "target_attempt \<Rightarrow> 'r try_input \<Rightarrow> run \<Rightarrow> run" where
  "note_success a i r =
     (let p = tp_provider (at_target a);
          r = own_call (Tracked (at_tenant a) (RecordLatency p (as_millis (ti_elapsed i)))) (others (ti_others i 3) r);
          r = own_call (Tracked (at_tenant a) (RecordSuccess p)) (others (ti_others i 4) r)
      in case at_key_index a of
           Some k \<Rightarrow> own_call (ClearKey (at_tenant a) p k) (others (ti_others i 5) r)
         | None \<Rightarrow> r)"

definition health_failure_of :: "target_attempt \<Rightarrow> duration \<Rightarrow> provider_error \<Rightarrow> bool" where
  "health_failure_of a t e \<longleftrightarrow>
     counts_as_health_failure e \<and>
     \<not> is_client_deadline_timeout e (attempt_bounded_by_client (at_deadline a) t (tp_timeout_ms (at_target a)))"

definition cool_until :: "u64 \<Rightarrow> u64 \<Rightarrow> u64" where
  "cool_until now_ms cool_ms = now_ms + cool_ms"

definition note_failure :: "target_attempt \<Rightarrow> 'r try_input \<Rightarrow> duration \<Rightarrow> provider_error \<Rightarrow> run \<Rightarrow> run" where
  "note_failure a i t e r =
     (let p = tp_provider (at_target a);
          client_deadline_timeout =
            is_client_deadline_timeout e (attempt_bounded_by_client (at_deadline a) t (tp_timeout_ms (at_target a)));
          r = (if client_deadline_timeout then r
               else own_call (Tracked (at_tenant a) (RecordLatency p (as_millis (ti_elapsed i)))) (others (ti_others i 3) r));
          r = (if at_key_index a = None \<and> health_failure_of a t e
               then own_call (Tracked (at_tenant a) (RecordFailure (ti_failure_ms i) p)) (others (ti_others i 4) r) else r);
          r = (case (at_key_index a, key_cooldown_for_error (at_windows a) e) of
                 (Some k, Some cool_ms) \<Rightarrow>
                   own_call (CoolKey (at_tenant a) p k (cool_until (ti_unix_ms i) cool_ms)) (others (ti_others i 5) r)
               | _ \<Rightarrow> r)
      in r\<lparr>rn_usage := rn_usage r @ [error_display e]\<rparr>)"

definition retries :: "target_attempt \<Rightarrow> 'r try_input \<Rightarrow> u32 \<Rightarrow> provider_error \<Rightarrow> bool" where
  "retries a i n e \<longleftrightarrow>
     is_retryable e (tp_retry (at_target a)) \<and> n < attempts (tp_retry (at_target a)) \<and>
     remaining (ti_end_clock i) (at_deadline a) \<noteq> 0"

text \<open>The loop, from try \<open>n\<close> on.\<close>

function attempt_loop ::
  "target_attempt \<Rightarrow> (u32 \<Rightarrow> 'r try_input) \<Rightarrow> u32 \<Rightarrow> duration option \<Rightarrow> u64 \<Rightarrow> run \<Rightarrow> 'r target_outcome \<times> run" where
  "attempt_loop a inp n hint rng r =
     (let i = inp n in
      case retry_wait a (ti_retry_clock i) n hint rng of
        None \<Rightarrow> (Exhausted NoTimeToRetry False None, r)
      | Some rng \<Rightarrow>
          (case enter_try a i r of
             (Inl why, r) \<Rightarrow> (Exhausted why False None, r)
           | (Inr (g, t), r) \<Rightarrow>
               (let r = send_try a i g t r in
                case reply_of a i t of
                  Inr response \<Rightarrow> (Won response (as_millis (ti_elapsed i)), note_success a i r)
                | Inl e \<Rightarrow>
                    (let r = note_failure a i t e r in
                     if retries a i n e then attempt_loop a inp (n + 1) (retry_after_of e) rng r
                     else (Exhausted (UpstreamError e) (health_failure_of a t e) (upstream_client_status e), r)))))"
  by pat_completeness auto

lemma retry_decreases:
  "n < m \<Longrightarrow> unat (m :: u32) - unat (n + 1) < unat m - unat n"
  using unat_Suc_below [of n m] by (simp add: word_less_nat_alt)

termination attempt_loop
  by (relation "measure (\<lambda>(a, inp, n, hint, rng, r). unat (attempts (tp_retry (at_target a))) - unat n)")
    (auto simp: retries_def intro: retry_decreases)

declare attempt_loop.simps [simp del]

text \<open>The loop, outcome by outcome.\<close>

lemma attempt_loop_late:
  "retry_wait a (ti_retry_clock (inp n)) n hint rng = None \<Longrightarrow>
     attempt_loop a inp n hint rng r = (Exhausted NoTimeToRetry False None, r)"
  by (subst attempt_loop.simps) (simp add: Let_def)

lemma attempt_loop_refused:
  "retry_wait a (ti_retry_clock (inp n)) n hint rng = Some rng' \<Longrightarrow> enter_try a (inp n) r = (Inl why, r') \<Longrightarrow>
     attempt_loop a inp n hint rng r = (Exhausted why False None, r')"
  by (subst attempt_loop.simps) (simp add: Let_def)

lemma attempt_loop_won:
  "retry_wait a (ti_retry_clock (inp n)) n hint rng = Some rng' \<Longrightarrow> enter_try a (inp n) r = (Inr (g, t), r') \<Longrightarrow>
     reply_of a (inp n) t = Inr response \<Longrightarrow>
     attempt_loop a inp n hint rng r =
       (Won response (as_millis (ti_elapsed (inp n))), note_success a (inp n) (send_try a (inp n) g t r'))"
  by (subst attempt_loop.simps) (simp add: Let_def)

lemma attempt_loop_failed:
  "retry_wait a (ti_retry_clock (inp n)) n hint rng = Some rng' \<Longrightarrow> enter_try a (inp n) r = (Inr (g, t), r') \<Longrightarrow>
     reply_of a (inp n) t = Inl e \<Longrightarrow> r'' = note_failure a (inp n) t e (send_try a (inp n) g t r') \<Longrightarrow>
     attempt_loop a inp n hint rng r =
       (if retries a (inp n) n e then attempt_loop a inp (n + 1) (retry_after_of e) rng' r''
        else (Exhausted (UpstreamError e) (health_failure_of a t e) (upstream_client_status e), r''))"
  by (subst attempt_loop.simps) (simp add: Let_def)

definition attempt_target ::
  "target_attempt \<Rightarrow> (u32 \<Rightarrow> 'r try_input) \<Rightarrow> u64 \<Rightarrow> run \<Rightarrow> 'r target_outcome \<times> run" where
  "attempt_target a inp rng r =
     (if \<not> at_resolves a then (Exhausted Unsupported False None, r) else attempt_loop a inp 0 None rng r)"

section \<open>The targets and their keys\<close>

definition target_rng_seed :: "u64 \<Rightarrow> nat \<Rightarrow> u64" where
  "target_rng_seed base idx = base XOR (of_nat idx * 0x9E3779B97F4A7C15)"

record ready_target =
  rt_idx :: nat
  rt_target :: target_plan
  rt_keys :: "(u64 option \<times> string) list"

text \<open>What the choice of keys reads: the process environment, the registries, the virtual key, the
  authenticated tenant, the health state and the wall clock when the request is prepared.\<close>

record key_context =
  kc_env :: environment
  kc_builtin :: "string set"
  kc_custom :: runtime_providers
  kc_provider_keys :: "string \<rightharpoonup> string"
  kc_tenant :: string
  kc_health :: health_tracker
  kc_now_ms :: u64
  kc_seed :: u64

definition target_keys :: "key_context \<Rightarrow> nat \<Rightarrow> string \<Rightarrow> (u64 option \<times> string) list" where
  "target_keys kc idx provider =
     (let single =
        (case or_else (resolve_api_key (kc_env kc) (kc_provider_keys kc) provider)
                (provider_api_key (kc_custom kc) (kc_tenant kc) provider) of
           Some key \<Rightarrow> [(None, key)]
         | None \<Rightarrow> [])
      in case kc_provider_keys kc provider of
           Some value \<Rightarrow>
             if is_key_pool value
             then map (\<lambda>(pool_idx, key). (Some pool_idx, key))
                    (fst (order_pool_keys (resolve_pool (kc_env kc) value) (kc_tenant kc) provider (kc_health kc)
                       (kc_now_ms kc) (target_rng_seed (kc_seed kc) idx)))
             else single
         | None \<Rightarrow> single)"

text \<open>The ready targets, and the last reason a target was left out.\<close>

fun prepare_targets ::
  "key_context \<Rightarrow> nat \<Rightarrow> exhausted_reason \<Rightarrow> target_plan list \<Rightarrow> ready_target list \<times> exhausted_reason" where
  "prepare_targets kc idx last_error [] = ([], last_error)"
| "prepare_targets kc idx last_error (t # ts) =
     (if tp_provider t \<notin> kc_builtin kc \<and> \<not> provider_contains (kc_custom kc) (kc_tenant kc) (tp_provider t)
      then prepare_targets kc (Suc idx) Unsupported ts
      else let keys = target_keys kc idx (tp_provider t) in
           if keys = [] then prepare_targets kc (Suc idx) NoKey ts
           else (let (rts, err) = prepare_targets kc (Suc idx) last_error ts
                 in (\<lparr>rt_idx = idx, rt_target = t, rt_keys = keys\<rparr> # rts, err)))"

section \<open>The sequential walk\<close>

text \<open>The inputs of the walk: those of the tries of each key of each target, whether the adapter still
  resolves, and the moment of a pool's own verdict with the calls before it.\<close>

record 'r walk_input =
  wi_try :: "nat \<Rightarrow> nat \<Rightarrow> u32 \<Rightarrow> 'r try_input"
  wi_resolves :: "nat \<Rightarrow> nat \<Rightarrow> bool"
  wi_pool_others :: "nat \<Rightarrow> health_call list"
  wi_pool_ms :: "nat \<Rightarrow> u64"

record dispatch =
  di_tenant :: string
  di_deadline :: deadline
  di_windows :: cooldown_windows
  di_seed :: u64

definition key_attempt :: "dispatch \<Rightarrow> target_plan \<Rightarrow> bool \<Rightarrow> u64 option \<times> string \<Rightarrow> target_attempt" where
  "key_attempt d t resolves k =
     \<lparr>at_tenant = di_tenant d, at_resolves = resolves, at_target = t, at_key = snd k, at_deadline = di_deadline d,
      at_key_index = fst k, at_windows = di_windows d\<rparr>"

lemma key_attempt_simps [simp]:
  "at_tenant (key_attempt d t res key) = di_tenant d" "at_target (key_attempt d t res key) = t"
  "at_key (key_attempt d t res key) = snd key" "at_deadline (key_attempt d t res key) = di_deadline d"
  "at_key_index (key_attempt d t res key) = fst key" "at_resolves (key_attempt d t res key) = res"
  "at_windows (key_attempt d t res key) = di_windows d"
  by (simp_all add: key_attempt_def)

record walk_state =
  ws_error :: exhausted_reason
  ws_client_status :: "u16 option"

definition note_exhausted :: "walk_state \<Rightarrow> exhausted_reason \<Rightarrow> u16 option \<Rightarrow> walk_state" where
  "note_exhausted w why status =
     \<lparr>ws_error = why, ws_client_status = (case status of Some s \<Rightarrow> Some s | None \<Rightarrow> ws_client_status w)\<rparr>"

text \<open>The keys of one target: the response if one of them wins, else whether a key met a health fault.\<close>

fun walk_keys ::
  "dispatch \<Rightarrow> ready_target \<Rightarrow> (nat \<Rightarrow> u32 \<Rightarrow> 'r try_input) \<Rightarrow> (nat \<Rightarrow> bool) \<Rightarrow> nat \<Rightarrow> (u64 option \<times> string) list
     \<Rightarrow> bool \<Rightarrow> walk_state \<Rightarrow> run \<Rightarrow> (('r \<times> u64) + bool) \<times> walk_state \<times> run" where
  "walk_keys d rt inp resolves k [] failed w r = (Inr failed, w, r)"
| "walk_keys d rt inp resolves k (key # keys) failed w r =
     (case attempt_target (key_attempt d (rt_target rt) (resolves k) key) (inp k)
             (target_rng_seed (di_seed d) (rt_idx rt)) r of
        (Won response elapsed_ms, r) \<Rightarrow> (Inl (response, elapsed_ms), w, r)
      | (Exhausted why health_failure status, r) \<Rightarrow>
          walk_keys d rt inp resolves (Suc k) keys (failed \<or> health_failure) (note_exhausted w why status) r)"

definition is_pool_target :: "ready_target \<Rightarrow> bool" where
  "is_pool_target rt \<longleftrightarrow> (case rt_keys rt of (ki, _) # _ \<Rightarrow> ki \<noteq> None | [] \<Rightarrow> False)"

fun walk_targets ::
  "dispatch \<Rightarrow> 'r walk_input \<Rightarrow> nat \<Rightarrow> ready_target list \<Rightarrow> walk_state \<Rightarrow> run
     \<Rightarrow> (nat \<times> 'r \<times> u64) option \<times> walk_state \<times> run" where
  "walk_targets d inp j [] w r = (None, w, r)"
| "walk_targets d inp j (rt # rts) w r =
     (case walk_keys d rt (wi_try inp j) (wi_resolves inp j) 0 (rt_keys rt) False w r of
        (Inl (response, elapsed_ms), w, r) \<Rightarrow> (Some (rt_idx rt, response, elapsed_ms), w, r)
      | (Inr failed, w, r) \<Rightarrow>
          (let r = (if is_pool_target rt \<and> failed
                    then own_call (Tracked (di_tenant d) (RecordFailure (wi_pool_ms inp j) (tp_provider (rt_target rt))))
                           (others (wi_pool_others inp j) r)
                    else r)
           in walk_targets d inp (Suc j) rts w r))"

definition dispatch_sequential ::
  "dispatch \<Rightarrow> key_context \<Rightarrow> 'r walk_input \<Rightarrow> target_plan list \<Rightarrow> run
     \<Rightarrow> (nat \<times> 'r \<times> u64) option \<times> walk_state \<times> run" where
  "dispatch_sequential d kc inp ordered_targets r =
     (let (ready, err) = prepare_targets kc 0 NoProviders ordered_targets
      in walk_targets d inp 0 ready \<lparr>ws_error = err, ws_client_status = None\<rparr> r)"

section \<open>What a run keeps\<close>

lemma run_fields [simp]:
  "rn_log (others cs r) = rn_log r" "rn_sent (others cs r) = rn_sent r" "rn_usage (others cs r) = rn_usage r"
  "rn_sent (own_call c r) = rn_sent r" "rn_usage (own_call c r) = rn_usage r" "rn_log (own_call c r) = rn_log r @ [c]"
  by (simp_all add: others_def own_call_def)

definition try_timeout :: "target_attempt \<Rightarrow> 'r try_input \<Rightarrow> duration option" where
  "try_timeout a i = next_attempt_timeout_capped (ti_clock i) (at_deadline a) (tp_timeout_ms (at_target a))"

text \<open>A try may count against the shared breaker.\<close>

definition has_fault :: "target_attempt \<Rightarrow> (u32 \<Rightarrow> 'r try_input) \<Rightarrow> bool" where
  "has_fault a inp \<longleftrightarrow>
     (\<exists>n t e. try_timeout a (inp n) = Some t \<and> reply_of a (inp n) t = Inl e \<and> health_failure_of a t e)"

definition may_fail :: "target_attempt \<Rightarrow> (u32 \<Rightarrow> 'r try_input) \<Rightarrow> bool" where
  "may_fail a inp \<longleftrightarrow> at_key_index a = None \<and> has_fault a inp"

text \<open>The calls of an attempt other than a failure verdict.\<close>

definition plain_calls :: "string \<Rightarrow> string \<Rightarrow> health_call set" where
  "plain_calls tenant p =
     (\<Union>now. {Tracked tenant (IsAvailable now p), Tracked tenant (TryProbe now p)}) \<union>
     (\<Union>g. {Tracked tenant (DropGuard g)}) \<union> (\<Union>ms. {Tracked tenant (RecordLatency p ms)}) \<union>
     {Tracked tenant (RecordSuccess p)} \<union> (\<Union>k u. {ClearKey tenant p k, CoolKey tenant p k u})"

lemma plain_calls_intros [simp]:
  "Tracked tenant (IsAvailable now p) \<in> plain_calls tenant p" "Tracked tenant (TryProbe now p) \<in> plain_calls tenant p"
  "Tracked tenant (DropGuard g) \<in> plain_calls tenant p" "Tracked tenant (RecordLatency p ms) \<in> plain_calls tenant p"
  "Tracked tenant (RecordSuccess p) \<in> plain_calls tenant p"
  "ClearKey tenant p k \<in> plain_calls tenant p" "CoolKey tenant p k u \<in> plain_calls tenant p"
  by (auto simp: plain_calls_def)

text \<open>
  The contract of a property of runs: kept by the admissible calls of others, by the calls of the
  request, by an upstream call within the deadline and by a usage event. Every attempt keeps it.
\<close>

locale run_contract =
  fixes good :: "run \<Rightarrow> bool" and foreign :: "health_call set" and own :: "health_call set"
    and sendable :: "string \<times> instant \<times> duration \<Rightarrow> bool"
  assumes good_others: "set cs \<subseteq> foreign \<Longrightarrow> good r \<Longrightarrow> good (others cs r)"
    and good_own: "c \<in> own \<Longrightarrow> good r \<Longrightarrow> good (own_call c r)"
    and good_sent: "sendable x \<Longrightarrow> good r \<Longrightarrow> good (r\<lparr>rn_sent := rn_sent r @ [x]\<rparr>)"
    and good_usage: "good r \<Longrightarrow> good (r\<lparr>rn_usage := rn_usage r @ [u]\<rparr>)"
begin

lemma enter_try_good:
  assumes "good r" "plain_calls (at_tenant a) (tp_provider (at_target a)) \<subseteq> own" "\<And>m. set (ti_others i m) \<subseteq> foreign"
  shows "good (snd (enter_try a i r))"
  using assms good_others good_own plain_calls_intros
  by (auto simp: enter_try_def Let_def subset_iff split: option.split probe_admission.split)

lemma send_try_good:
  assumes "good r" "plain_calls (at_tenant a) (tp_provider (at_target a)) \<subseteq> own" "\<And>m. set (ti_others i m) \<subseteq> foreign"
    and "sendable (at_key a, ti_clock i, t)"
  shows "good (send_try a i g t r)"
  using good_sent [OF assms(4,1)] assms(2,3) good_others good_own plain_calls_intros
  by (auto simp: send_try_def Let_def subset_iff split: option.split)

lemma note_success_good:
  assumes "good r" "plain_calls (at_tenant a) (tp_provider (at_target a)) \<subseteq> own" "\<And>m. set (ti_others i m) \<subseteq> foreign"
  shows "good (note_success a i r)"
  using assms good_others good_own plain_calls_intros
  by (auto simp: note_success_def Let_def subset_iff split: option.split)

lemma note_failure_good:
  assumes "good r" "plain_calls (at_tenant a) (tp_provider (at_target a)) \<subseteq> own" "\<And>m. set (ti_others i m) \<subseteq> foreign"
    and "at_key_index a = None \<Longrightarrow> health_failure_of a t e \<Longrightarrow>
      Tracked (at_tenant a) (RecordFailure (ti_failure_ms i) (tp_provider (at_target a))) \<in> own"
  shows "good (note_failure a i t e r)"
proof -
  let ?p = "tp_provider (at_target a)"
  have step: "good (own_call c (others (ti_others i m) r'))" if "good r'" "c \<in> own" for c m r'
    using that assms(3) good_others good_own by blast
  define r1 where "r1 = (if is_client_deadline_timeout e (attempt_bounded_by_client (at_deadline a) t (tp_timeout_ms (at_target a))) then r
      else own_call (Tracked (at_tenant a) (RecordLatency ?p (as_millis (ti_elapsed i)))) (others (ti_others i 3) r))"
  define r2 where "r2 = (if at_key_index a = None \<and> health_failure_of a t e
      then own_call (Tracked (at_tenant a) (RecordFailure (ti_failure_ms i) ?p)) (others (ti_others i 4) r1) else r1)"
  define r3 where "r3 = (case (at_key_index a, key_cooldown_for_error (at_windows a) e) of
      (Some k, Some cool_ms) \<Rightarrow>
        own_call (CoolKey (at_tenant a) ?p k (cool_until (ti_unix_ms i) cool_ms)) (others (ti_others i 5) r2)
    | _ \<Rightarrow> r2)"
  have "good r1" using assms(1,2) step by (auto simp: r1_def subset_iff)
  then have "good r2" using assms(4) step by (auto simp: r2_def)
  then have "good r3" using assms(2) step by (auto simp: r3_def subset_iff split: option.split)
  moreover have "note_failure a i t e r = r3\<lparr>rn_usage := rn_usage r3 @ [error_display e]\<rparr>"
    by (simp only: note_failure_def Let_def r1_def r2_def r3_def)
  ultimately show ?thesis using good_usage by simp
qed

end

lemma enter_try_timeout: "enter_try a i r = (Inr (g, t), r') \<Longrightarrow> try_timeout a i = Some t"
  by (auto simp: enter_try_def try_timeout_def Let_def split: option.splits probe_admission.splits if_splits)

context run_contract
begin

lemma attempt_loop_good:
  assumes "good r" "plain_calls (at_tenant a) (tp_provider (at_target a)) \<subseteq> own"
    and "\<And>n m. set (ti_others (inp n) m) \<subseteq> foreign"
    and "may_fail a inp \<Longrightarrow> \<forall>now. Tracked (at_tenant a) (RecordFailure now (tp_provider (at_target a))) \<in> own"
    and "\<And>n t. try_timeout a (inp n) = Some t \<Longrightarrow> sendable (at_key a, ti_clock (inp n), t)"
  shows "good (snd (attempt_loop a inp n hint rng r))"
  using assms
proof (induction a inp n hint rng r rule: attempt_loop.induct)
  case (1 a inp n hint rng r)
  show ?case
  proof (cases "retry_wait a (ti_retry_clock (inp n)) n hint rng")
    case None
    then show ?thesis using "1.prems"(1) by (simp add: attempt_loop_late)
  next
    case (Some rng')
    obtain res r1 where e: "enter_try a (inp n) r = (res, r1)" by fastforce
    have g1: "good r1" using enter_try_good [OF "1.prems"(1,2), of "inp n"] "1.prems"(3) e by simp
    show ?thesis
    proof (cases res)
      case (Inl why)
      then show ?thesis using g1 Some e by (simp add: attempt_loop_refused)
    next
      case (Inr gt)
      obtain g t where gt: "gt = (g, t)" by fastforce
      have e': "enter_try a (inp n) r = (Inr (g, t), r1)" using e Inr gt by simp
      then have t: "try_timeout a (inp n) = Some t" by (rule enter_try_timeout)
      let ?r2 = "send_try a (inp n) g t r1"
      have g2: "good ?r2"
        by (rule send_try_good [OF g1 "1.prems"(2)]) (use "1.prems"(3,5) t in auto)
      show ?thesis
      proof (cases "reply_of a (inp n) t")
        case (Inr response)
        then show ?thesis
          using note_success_good [OF g2 "1.prems"(2,3)] Some e \<open>res = Inr gt\<close> gt by (simp add: attempt_loop_won)
      next
        case (Inl err)
        let ?r3 = "note_failure a (inp n) t err ?r2"
        have g3: "good ?r3"
        proof (rule note_failure_good [OF g2 "1.prems"(2)])
          show "set (ti_others (inp n) m) \<subseteq> foreign" for m by (rule "1.prems"(3))
          show "Tracked (at_tenant a) (RecordFailure (ti_failure_ms (inp n)) (tp_provider (at_target a))) \<in> own"
            if "at_key_index a = None" "health_failure_of a t err"
            using "1.prems"(4) that t Inl by (auto simp: may_fail_def has_fault_def)
        qed
        show ?thesis
        proof (cases "retries a (inp n) n err")
          case True
          have "good (snd (attempt_loop a inp (n + 1) (retry_after_of err) rng' ?r3))"
            using "1.IH" [OF refl Some e' [symmetric] refl refl refl Inl refl True g3 "1.prems"(2-5)] by simp
          then show ?thesis using True by (simp add: attempt_loop_failed [of a inp n hint rng rng' r g t r1 err, OF Some e' Inl refl])
        next
          case False
          then show ?thesis using g3 by (simp add: attempt_loop_failed [of a inp n hint rng rng' r g t r1 err, OF Some e' Inl refl])
        qed
      qed
    qed
  qed
qed

lemma attempt_target_good:
  assumes "good r" "plain_calls (at_tenant a) (tp_provider (at_target a)) \<subseteq> own"
    and "\<And>n m. set (ti_others (inp n) m) \<subseteq> foreign"
    and "may_fail a inp \<Longrightarrow> \<forall>now. Tracked (at_tenant a) (RecordFailure now (tp_provider (at_target a))) \<in> own"
    and "\<And>n t. try_timeout a (inp n) = Some t \<Longrightarrow> sendable (at_key a, ti_clock (inp n), t)"
  shows "good (snd (attempt_target a inp rng r))"
  using attempt_loop_good [OF assms] assms(1) by (simp add: attempt_target_def)

lemma walk_keys_good:
  assumes "good r" "plain_calls (di_tenant d) (tp_provider (rt_target rt)) \<subseteq> own"
    and "\<And>k n m. set (ti_others (inp k n) m) \<subseteq> foreign"
    and "\<And>k key res. key \<in> set keys \<Longrightarrow> may_fail (key_attempt d (rt_target rt) res key) (inp k) \<Longrightarrow>
      \<forall>now. Tracked (di_tenant d) (RecordFailure now (tp_provider (rt_target rt))) \<in> own"
    and "\<And>k n t key res. key \<in> set keys \<Longrightarrow> try_timeout (key_attempt d (rt_target rt) res key) (inp k n) = Some t \<Longrightarrow>
      sendable (snd key, ti_clock (inp k n), t)"
  shows "good (snd (snd (walk_keys d rt inp resolves k keys failed w r)))"
  using assms
proof (induction keys arbitrary: k failed w r)
  case (Cons key keys)
  let ?a = "key_attempt d (rt_target rt) (resolves k) key"
  obtain out r1 where o: "attempt_target ?a (inp k) (target_rng_seed (di_seed d) (rt_idx rt)) r = (out, r1)" by fastforce
  have "good (snd (attempt_target ?a (inp k) (target_rng_seed (di_seed d) (rt_idx rt)) r))"
  proof (rule attempt_target_good [OF Cons.prems(1)])
    show "plain_calls (at_tenant ?a) (tp_provider (at_target ?a)) \<subseteq> own" using Cons.prems(2) by simp
    show "set (ti_others (inp k n) m) \<subseteq> foreign" for n m by (rule Cons.prems(3))
    show "\<forall>now. Tracked (at_tenant ?a) (RecordFailure now (tp_provider (at_target ?a))) \<in> own" if "may_fail ?a (inp k)"
      using Cons.prems(4) [OF _ that] by simp
    show "sendable (at_key ?a, ti_clock (inp k n), t)" if "try_timeout ?a (inp k n) = Some t" for n t
      using Cons.prems(5) [OF _ that] by simp
  qed
  then have g: "good r1" using o by simp
  have "good (snd (snd (walk_keys d rt inp resolves (Suc k) keys f w' r1)))" for f w'
  proof (rule Cons.IH [OF g Cons.prems(2,3)])
    show "\<forall>now. Tracked (di_tenant d) (RecordFailure now (tp_provider (rt_target rt))) \<in> own"
      if "x \<in> set keys" "may_fail (key_attempt d (rt_target rt) res x) (inp k)" for k x res
      by (rule Cons.prems(4) [OF _ that(2)]) (simp add: that(1))
    show "sendable (snd x, ti_clock (inp k n), t)"
      if "x \<in> set keys" "try_timeout (key_attempt d (rt_target rt) res x) (inp k n) = Some t" for k n t x res
      by (rule Cons.prems(5) [OF _ that(2)]) (simp add: that(1))
  qed
  then show ?case using o g by (auto split: target_outcome.split)
qed simp

end

text \<open>A health fault is only reported for a reply that is one.\<close>

lemma exhausted_fault:
  "attempt_loop a inp n hint rng r = (Exhausted why True status, r') \<Longrightarrow> has_fault a inp"
proof (induction a inp n hint rng r rule: attempt_loop.induct)
  case (1 a inp n hint rng r)
  from "1.prems" obtain rng' where w: "retry_wait a (ti_retry_clock (inp n)) n hint rng = Some rng'"
    by (cases "retry_wait a (ti_retry_clock (inp n)) n hint rng") (auto simp: attempt_loop_late)
  from "1.prems" w obtain g t r1 where e: "enter_try a (inp n) r = (Inr (g, t), r1)"
    by (cases "enter_try a (inp n) r"; cases "fst (enter_try a (inp n) r)") (auto simp: attempt_loop_refused)
  from "1.prems" obtain err where p: "reply_of a (inp n) t = Inl err"
    by (cases "reply_of a (inp n) t") (auto simp: attempt_loop_won [of a inp n hint rng rng' r g t r1, OF w e])
  note f = attempt_loop_failed [of a inp n hint rng rng' r g t r1 err, OF w e p refl]
  show ?case
  proof (cases "retries a (inp n) n err")
    case True
    then show ?thesis using "1.IH" [OF refl w e [symmetric] refl refl refl p refl True] "1.prems" f by simp
  next
    case False
    then have "health_failure_of a t err" using "1.prems" f by simp
    then show ?thesis using enter_try_timeout [OF e] p by (auto simp: has_fault_def)
  qed
qed

lemma attempt_target_fault:
  "attempt_target a inp rng r = (Exhausted why True status, r') \<Longrightarrow> has_fault a inp"
  by (auto simp: attempt_target_def dest: exhausted_fault split: if_splits)

lemma walk_keys_fault:
  "walk_keys d rt inp resolves k keys failed w r = (Inr True, w', r') \<Longrightarrow>
     failed \<or> (\<exists>key\<in>set keys. \<exists>k res. has_fault (key_attempt d (rt_target rt) res key) (inp k))"
proof (induction keys arbitrary: k failed w r)
  case (Cons key keys)
  let ?a = "key_attempt d (rt_target rt) (resolves k) key"
  obtain out r1 where o: "attempt_target ?a (inp k) (target_rng_seed (di_seed d) (rt_idx rt)) r = (out, r1)" by fastforce
  then obtain why hf status where e: "out = Exhausted why hf status" using Cons.prems by (cases out) auto
  then have "hf \<Longrightarrow> has_fault ?a (inp k)" using attempt_target_fault o by (cases hf) auto
  moreover have "failed \<or> hf \<or> (\<exists>key\<in>set keys. \<exists>k res. has_fault (key_attempt d (rt_target rt) res key) (inp k))"
    using Cons.IH [of "Suc k" "failed \<or> hf"] Cons.prems o e by auto
  ultimately show ?case by auto
qed simp

context run_contract
begin

lemma walk_targets_good:
  assumes "good r" "\<And>rt. rt \<in> set rts \<Longrightarrow> plain_calls (di_tenant d) (tp_provider (rt_target rt)) \<subseteq> own"
    and "\<And>j k n m. set (ti_others (wi_try inp j k n) m) \<subseteq> foreign" "\<And>j. set (wi_pool_others inp j) \<subseteq> foreign"
    and "\<And>rt j k key res. rt \<in> set rts \<Longrightarrow> key \<in> set (rt_keys rt) \<Longrightarrow>
      has_fault (key_attempt d (rt_target rt) res key) (wi_try inp j k) \<Longrightarrow>
      \<forall>now. Tracked (di_tenant d) (RecordFailure now (tp_provider (rt_target rt))) \<in> own"
    and "\<And>rt j k n t key res. rt \<in> set rts \<Longrightarrow> key \<in> set (rt_keys rt) \<Longrightarrow>
      try_timeout (key_attempt d (rt_target rt) res key) (wi_try inp j k n) = Some t \<Longrightarrow>
      sendable (snd key, ti_clock (wi_try inp j k n), t)"
  shows "good (snd (snd (walk_targets d inp j rts w r)))"
  using assms
proof (induction rts arbitrary: j w r)
  case (Cons rt rts)
  obtain out w1 r1 where o: "walk_keys d rt (wi_try inp j) (wi_resolves inp j) 0 (rt_keys rt) False w r = (out, w1, r1)"
    by (metis prod_cases3)
  have "good (snd (snd (walk_keys d rt (wi_try inp j) (wi_resolves inp j) 0 (rt_keys rt) False w r)))"
  proof (rule walk_keys_good [OF Cons.prems(1)])
    show "plain_calls (di_tenant d) (tp_provider (rt_target rt)) \<subseteq> own" by (rule Cons.prems(2)) simp
    show "set (ti_others (wi_try inp j k n) m) \<subseteq> foreign" for k n m by (rule Cons.prems(3))
    show "\<forall>now. Tracked (di_tenant d) (RecordFailure now (tp_provider (rt_target rt))) \<in> own"
      if "key \<in> set (rt_keys rt)" "may_fail (key_attempt d (rt_target rt) res key) (wi_try inp j k)" for k key res
      using Cons.prems(5) [OF _ that(1), of res j k] that(2) by (simp add: may_fail_def)
    show "sendable (snd key, ti_clock (wi_try inp j k n), t)"
      if "key \<in> set (rt_keys rt)" "try_timeout (key_attempt d (rt_target rt) res key) (wi_try inp j k n) = Some t" for k n t key res
      by (rule Cons.prems(6) [OF _ that]) simp
  qed
  then have g: "good r1" using o by simp
  show ?case
  proof (cases out)
    case (Inl x)
    then show ?thesis using o g by (cases x) simp
  next
    case (Inr failed)
    let ?c = "Tracked (di_tenant d) (RecordFailure (wi_pool_ms inp j) (tp_provider (rt_target rt)))"
    have "?c \<in> own" if f: "failed"
      using walk_keys_fault [of d rt "wi_try inp j" "wi_resolves inp j" 0 "rt_keys rt" False w r w1 r1] o Inr f Cons.prems(5) [of rt]
      by auto
    then have g2: "good (if is_pool_target rt \<and> failed then own_call ?c (others (wi_pool_others inp j) r1) else r1)"
      using g good_own good_others Cons.prems(4) by auto
    have "good (snd (snd (walk_targets d inp (Suc j) rts w1
        (if is_pool_target rt \<and> failed then own_call ?c (others (wi_pool_others inp j) r1) else r1))))"
    proof (rule Cons.IH [OF g2 _ Cons.prems(3,4)])
      show "plain_calls (di_tenant d) (tp_provider (rt_target x)) \<subseteq> own" if "x \<in> set rts" for x
        by (rule Cons.prems(2)) (simp add: that)
      show "\<forall>now. Tracked (di_tenant d) (RecordFailure now (tp_provider (rt_target x))) \<in> own"
        if "x \<in> set rts" "key \<in> set (rt_keys x)" "has_fault (key_attempt d (rt_target x) res key) (wi_try inp j k)"
        for x j k key res
        by (rule Cons.prems(5) [OF _ that(2,3)]) (simp add: that(1))
      show "sendable (snd key, ti_clock (wi_try inp j k n), t)"
        if "x \<in> set rts" "key \<in> set (rt_keys x)"
          "try_timeout (key_attempt d (rt_target x) res key) (wi_try inp j k n) = Some t" for x j k n t key res
        by (rule Cons.prems(6) [OF _ that(2,3)]) (simp add: that(1))
    qed
    then show ?thesis using o Inr by (simp add: Let_def)
  qed
qed simp

end

end
