(* ===== verification/Dispatch_Facts.thy ===== *)
theory Dispatch_Facts
  imports Dispatch
begin

text \<open>
  What a dispatch does and does not do: interpretations of the contract of runs on the shared
  gauge, on closed circuit breakers, on the deadline and on the failure verdicts of a pool;
  the accounting of upstream calls; and the origin of the answer.
\<close>

section \<open>Contracts of a dispatch\<close>

lemma key_calls_providers [simp]:
  "providers (cool_key t ow p i u) = providers t" "providers (clear_key t ow p i) = providers t"
  by (simp_all add: cool_key_def clear_key_def case_prod_beta Let_def)

lemma step_invariant:
  assumes "\<And>s c. c \<in> C \<Longrightarrow> Q s \<Longrightarrow> Q (health_step s c)" "set cs \<subseteq> C" "Q s"
  shows "Q (health_run s cs)"
  using assms(2,3) unfolding health_run_def
proof (induction cs arbitrary: s)
  case (Cons c cs)
  then show ?case using assms(1) [of c s] by simp
qed simp

lemma sum_list_bound: "(\<And>x. x \<in> set xs \<Longrightarrow> f x \<le> (b :: nat)) \<Longrightarrow> sum_list (map f xs) \<le> length xs * b"
proof (induction xs)
  case (Cons x xs)
  have "f x \<le> b" "sum_list (map f xs) \<le> length xs * b" using Cons.IH Cons.prems by simp_all
  then show ?case by simp
qed simp

text \<open>The gauge.\<close>

lemma gauge_ok_health_step: "gauge_ok s \<Longrightarrow> gauge_ok (health_step s c)"
proof (induction s c rule: health_step.induct)
  case (1 s ow c)
  then show ?case using gauge_ok_step [of "fst s" "snd s" ow c] by simp
qed (simp_all add: gauge_ok_def)

interpretation gauge_runs: run_contract "\<lambda>r. gauge_ok (rn_sys r)" UNIV UNIV "\<lambda>_. True"
proof unfold_locales
  show "gauge_ok (rn_sys (others cs r))" if "gauge_ok (rn_sys r)" for cs r
    using step_invariant [of UNIV gauge_ok cs "rn_sys r"] that gauge_ok_health_step by (simp add: others_def)
qed (simp_all add: own_call_def gauge_ok_health_step)

text \<open>Closed circuit breakers: only a failure verdict on the provider can open one.\<close>

definition failure_on :: "string \<Rightarrow> health_call \<Rightarrow> bool" where
  "failure_on p c \<longleftrightarrow> (case c of Tracked _ (RecordFailure _ q) \<Rightarrow> q = p | _ \<Rightarrow> False)"

definition all_closed :: "string \<Rightarrow> health_sys \<Rightarrow> bool" where
  "all_closed p s \<longleftrightarrow> (\<forall>ow h. registry_get (providers (fst s)) ow p = Some h \<longrightarrow> raw_state (breaker h) = 0)"

lemma closed_call_cell:
  assumes "raw_state (breaker h) = 0" "\<And>now q. c \<noteq> RecordFailure now q"
  shows "raw_state (breaker (call_cell c h)) = 0"
  using assms by (cases c) (auto simp: breaker_record_success_def breaker_state_def probe_cell_def
      decode_state_def Let_def)

lemma call_target_provider:
  "call_target reg gs ow (RecordFailure now q) = Some (o2, p) \<Longrightarrow> q = p"
  by (auto simp: call_target_def)

lemma closed_health_step:
  assumes "\<not> failure_on p c" "all_closed p s"
  shows "all_closed p (health_step s c)"
proof (cases c)
  case (Tracked ow k)
  obtain t gs where s: "s = (t, gs)" by fastforce
  have "raw_state (breaker h') = 0" if "registry_get (providers (fst (tracked_step (t, gs) (ow, k)))) o2 p = Some h'" for o2 h'
  proof (cases "\<exists>q. k = Register q")
    case True
    then show ?thesis using that assms(2) s
      by (auto simp: step_get_register all_closed_def provider_health_new_def breaker_new_def with_config_def
          simp del: tracked_step.simps split: if_splits)
  next
    case False
    have old: "raw_state (breaker h) = 0" if "registry_get (providers t) o2 p = Some h" for h
      using assms(2) s that by (simp add: all_closed_def)
    have "k \<noteq> RecordFailure now q" if "call_target (providers t) gs ow k = Some (o2, p)" for now q
      using assms(1) Tracked that call_target_provider by (auto simp: failure_on_def)
    then show ?thesis using that False old closed_call_cell
      by (auto simp: step_get simp del: tracked_step.simps split: if_splits)
  qed
  then show ?thesis using Tracked s by (simp add: all_closed_def del: tracked_step.simps)
qed (use assms(2) in \<open>cases s; simp add: all_closed_def\<close>)+

interpretation closed_runs: run_contract "\<lambda>r. all_closed p (rn_sys r)" "{c. \<not> failure_on p c}" "{c. \<not> failure_on p c}"
  "\<lambda>_. True" for p
proof unfold_locales
  show "all_closed p (rn_sys (others cs r))" if "set cs \<subseteq> {c. \<not> failure_on p c}" "all_closed p (rn_sys r)" for cs r
    using step_invariant [of "{c. \<not> failure_on p c}" "all_closed p" cs "rn_sys r"] that closed_health_step
    by (simp add: others_def)
qed (simp_all add: own_call_def closed_health_step)

lemma closed_available:
  assumes "all_closed p s"
  shows "fst (tracker_is_available now (fst s) ow p)"
proof -
  have "raw_state (breaker h) = 0" if "health_lookup (providers (fst s)) ow p = Some (o', h)" for o' h
    using assms health_lookup_get [OF that] by (auto simp: all_closed_def)
  then show ?thesis
    by (auto simp: tracker_is_available_def with_health_def breaker_admits_def breaker_state_def decode_state_def
        Let_def case_prod_beta split: option.split)
qed

text \<open>The deadline.\<close>

interpretation deadline_runs: run_contract
  "\<lambda>r. \<forall>x \<in> set (rn_sent r). x \<in> set sent \<or> sendable x" UNIV UNIV sendable for sent and sendable :: "string \<times> instant \<times> duration \<Rightarrow> bool"
  by unfold_locales auto

text \<open>Failure verdicts.\<close>

definition failures_in :: "health_call list \<Rightarrow> health_call list" where
  "failures_in cs = filter (\<lambda>c. \<exists>p. failure_on p c) cs"

interpretation verdict_runs: run_contract "\<lambda>r. failures_in (rn_log r) = l" UNIV "{c. \<forall>p. \<not> failure_on p c}" "\<lambda>_. True" for l
  by unfold_locales (auto simp: failures_in_def)

lemma plain_calls_no_failure: "c \<in> plain_calls tenant p \<Longrightarrow> \<not> failure_on q c"
  by (auto simp: plain_calls_def failure_on_def)

section \<open>Counting upstream calls\<close>

text \<open>A try emits one failure event per upstream call that fails, none for a success.\<close>

lemma enter_try_counts:
  "enter_try a i r = (x, r') \<Longrightarrow> rn_sent r' = rn_sent r \<and> rn_usage r' = rn_usage r"
  by (auto simp: enter_try_def Let_def split: option.splits probe_admission.splits if_splits)

lemma send_try_counts:
  "rn_sent (send_try a i g t r) = rn_sent r @ [(at_key a, ti_clock i, t)]" "rn_usage (send_try a i g t r) = rn_usage r"
  by (auto simp: send_try_def Let_def split: option.split)

lemma note_success_counts:
  "rn_sent (note_success a i r) = rn_sent r" "rn_usage (note_success a i r) = rn_usage r"
  by (auto simp: note_success_def Let_def split: option.split)

lemma note_failure_counts:
  "rn_sent (note_failure a i t e r) = rn_sent r" "rn_usage (note_failure a i t e r) = rn_usage r @ [error_display e]"
  by (auto simp: note_failure_def Let_def split: option.split)

lemmas run_counts = send_try_counts note_success_counts note_failure_counts

definition won :: "'r target_outcome \<Rightarrow> nat" where
  "won out = (case out of Won _ _ \<Rightarrow> 1 | Exhausted _ _ _ \<Rightarrow> 0)"

definition calls_sent :: "run \<Rightarrow> nat" where "calls_sent r = length (rn_sent r)"
definition failures_emitted :: "run \<Rightarrow> nat" where "failures_emitted r = length (rn_usage r)"

lemma attempt_loop_counts:
  assumes "attempt_loop a inp n hint rng r = (out, r')" "unat n \<le> unat (attempts (tp_retry (at_target a)))"
  shows "calls_sent r' + unat n \<le> calls_sent r + unat (attempts (tp_retry (at_target a))) + 1 \<and>
    calls_sent r' + failures_emitted r = calls_sent r + failures_emitted r' + won out"
  using assms
proof (induction a inp n hint rng r rule: attempt_loop.induct)
  case (1 a inp n hint rng r)
  show ?case
  proof (cases "retry_wait a (ti_retry_clock (inp n)) n hint rng")
    case None
    then show ?thesis using "1.prems" by (auto simp: attempt_loop_late won_def)
  next
    case (Some rng')
    obtain res r1 where e: "enter_try a (inp n) r = (res, r1)" by fastforce
    note same = enter_try_counts [OF e]
    show ?thesis
    proof (cases res)
      case (Inl why)
      then show ?thesis using "1.prems" Some e same
        by (auto simp: attempt_loop_refused won_def calls_sent_def failures_emitted_def)
    next
      case (Inr gt)
      obtain g t where gt: "gt = (g, t)" by fastforce
      have e': "enter_try a (inp n) r = (Inr (g, t), r1)" using e Inr gt by simp
      show ?thesis
      proof (cases "reply_of a (inp n) t")
        case (Inr response)
        then show ?thesis using "1.prems" same
          by (auto simp: attempt_loop_won [of a inp n hint rng rng' r g t r1, OF Some e' Inr] won_def calls_sent_def failures_emitted_def run_counts)
      next
        case (Inl err)
        let ?r3 = "note_failure a (inp n) t err (send_try a (inp n) g t r1)"
        have r3: "calls_sent ?r3 = Suc (calls_sent r)" "failures_emitted ?r3 = Suc (failures_emitted r)"
          using same by (simp_all add: calls_sent_def failures_emitted_def run_counts)
        note f = attempt_loop_failed [of a inp n hint rng rng' r g t r1 err, OF Some e' Inl refl]
        show ?thesis
        proof (cases "retries a (inp n) n err")
          case True
          have lt: "n < attempts (tp_retry (at_target a))" using True by (simp add: retries_def)
          then have m: "unat (n + 1) = Suc (unat n)" by (rule unat_Suc_below)
          have "unat (n + 1) \<le> unat (attempts (tp_retry (at_target a)))" using m lt by (simp add: word_less_nat_alt)
          with "1.IH" [OF refl Some e' [symmetric] refl refl refl Inl refl True] "1.prems" f True
          have "calls_sent r' + unat (n + 1) \<le> calls_sent ?r3 + unat (attempts (tp_retry (at_target a))) + 1 \<and>
            calls_sent r' + failures_emitted ?r3 = calls_sent ?r3 + failures_emitted r' + won out" by simp
          then show ?thesis using r3 m by simp
        next
          case False
          then show ?thesis using f "1.prems" r3 by (auto simp: won_def)
        qed
      qed
    qed
  qed
qed

lemma attempt_target_counts:
  assumes "attempt_target a inp rng r = (out, r')"
  shows "calls_sent r' \<le> calls_sent r + unat (attempts (tp_retry (at_target a))) + 1 \<and>
    calls_sent r' + failures_emitted r = calls_sent r + failures_emitted r' + won out"
  using assms attempt_loop_counts [of a inp 0 None rng r out r']
  by (auto simp: attempt_target_def won_def split: if_splits)

lemma walk_keys_counts:
  assumes "walk_keys d rt inp resolves k keys failed w r = (out, w', r')"
  shows "calls_sent r' \<le> calls_sent r + length keys * (unat (attempts (tp_retry (rt_target rt))) + 1) \<and>
    calls_sent r' + failures_emitted r = calls_sent r + failures_emitted r' + (case out of Inl _ \<Rightarrow> 1 | Inr _ \<Rightarrow> 0)"
  using assms
proof (induction keys arbitrary: k failed w r)
  case (Cons key keys)
  let ?a = "key_attempt d (rt_target rt) (resolves k) key"
  obtain o1 r1 where o: "attempt_target ?a (inp k) (target_rng_seed (di_seed d) (rt_idx rt)) r = (o1, r1)" by fastforce
  note c = attempt_target_counts [OF o]
  show ?case
  proof (cases o1)
    case (Won x ms)
    then show ?thesis using Cons.prems o c by (auto simp: won_def)
  next
    case (Exhausted why hf st)
    then have "walk_keys d rt inp resolves (Suc k) keys (failed \<or> hf) (note_exhausted w why st) r1 = (out, w', r')"
      using Cons.prems o by simp
    from Cons.IH [OF this] c Exhausted show ?thesis by (auto simp: won_def)
  qed
qed auto

definition max_calls :: "ready_target list \<Rightarrow> nat" where
  "max_calls rts = (\<Sum>rt\<leftarrow>rts. length (rt_keys rt) * (unat (attempts (tp_retry (rt_target rt))) + 1))"

lemma pool_verdict_counts [simp]:
  "calls_sent (own_call c r) = calls_sent r" "failures_emitted (own_call c r) = failures_emitted r"
  "calls_sent (others cs r) = calls_sent r" "failures_emitted (others cs r) = failures_emitted r"
  by (simp_all add: calls_sent_def failures_emitted_def)

lemma walk_targets_counts:
  assumes "walk_targets d inp j rts w r = (out, w', r')"
  shows "calls_sent r' \<le> calls_sent r + max_calls rts \<and>
    calls_sent r' + failures_emitted r = calls_sent r + failures_emitted r' + (case out of Some _ \<Rightarrow> 1 | None \<Rightarrow> 0)"
  using assms
proof (induction rts arbitrary: j w r)
  case (Cons rt rts)
  obtain o1 w1 r1 where o: "walk_keys d rt (wi_try inp j) (wi_resolves inp j) 0 (rt_keys rt) False w r = (o1, w1, r1)"
    by (metis prod_cases3)
  note c = walk_keys_counts [OF o]
  show ?case
  proof (cases o1)
    case (Inl x)
    then show ?thesis using Cons.prems o c by (cases x) (auto simp: max_calls_def)
  next
    case (Inr failed)
    let ?r = "if is_pool_target rt \<and> failed
      then own_call (Tracked (di_tenant d) (RecordFailure (wi_pool_ms inp j) (tp_provider (rt_target rt)))) (others (wi_pool_others inp j) r1)
      else r1"
    have "walk_targets d inp (Suc j) rts w1 ?r = (out, w', r')" using Cons.prems o Inr by (simp add: Let_def)
    moreover have "calls_sent ?r = calls_sent r1" "failures_emitted ?r = failures_emitted r1" by simp_all
    ultimately show ?thesis using Cons.IH [of "Suc j" w1 ?r] c Inr by (simp add: max_calls_def)
  qed
qed (auto simp: max_calls_def)

section \<open>The origin of an answer\<close>

text \<open>The answer is the reply to the last upstream call of the run.\<close>

definition answers :: "target_attempt \<Rightarrow> (u32 \<Rightarrow> 'r try_input) \<Rightarrow> 'r \<Rightarrow> u64 \<Rightarrow> run \<Rightarrow> bool" where
  "answers a inp response ms r \<longleftrightarrow>
     (\<exists>n t. try_timeout a (inp n) = Some t \<and> ti_reply (inp n) = Some (Inr response) \<and>
        ms = as_millis (ti_elapsed (inp n)) \<and> rn_sent r \<noteq> [] \<and> last (rn_sent r) = (at_key a, ti_clock (inp n), t))"

lemma attempt_loop_answers:
  "attempt_loop a inp n hint rng r = (Won response ms, r') \<Longrightarrow> answers a inp response ms r'"
proof (induction a inp n hint rng r rule: attempt_loop.induct)
  case (1 a inp n hint rng r)
  from "1.prems" obtain rng' where w: "retry_wait a (ti_retry_clock (inp n)) n hint rng = Some rng'"
    by (cases "retry_wait a (ti_retry_clock (inp n)) n hint rng") (auto simp: attempt_loop_late)
  from "1.prems" w obtain g t r1 where e: "enter_try a (inp n) r = (Inr (g, t), r1)"
    by (cases "enter_try a (inp n) r"; cases "fst (enter_try a (inp n) r)") (auto simp: attempt_loop_refused)
  show ?case
  proof (cases "reply_of a (inp n) t")
    case (Inr x)
    then have "ti_reply (inp n) = Some (Inr x)" by (auto simp: reply_of_def split: option.splits)
    then show ?thesis
      using "1.prems" attempt_loop_won [of a inp n hint rng rng' r g t r1, OF w e Inr] enter_try_timeout [OF e]
      by (auto simp: answers_def run_counts)
  next
    case (Inl err)
    note f = attempt_loop_failed [of a inp n hint rng rng' r g t r1 err, OF w e Inl refl]
    show ?thesis
    proof (cases "retries a (inp n) n err")
      case True
      then show ?thesis using "1.IH" [OF refl w e [symmetric] refl refl refl Inl refl True] "1.prems" f by simp
    next
      case False
      then show ?thesis using "1.prems" f by simp
    qed
  qed
qed

lemma attempt_target_answers:
  "attempt_target a inp rng r = (Won response ms, r') \<Longrightarrow> answers a inp response ms r'"
  by (auto simp: attempt_target_def dest: attempt_loop_answers split: if_splits)

lemma walk_keys_answers:
  "walk_keys d rt inp resolves k keys failed w r = (Inl (response, ms), w', r') \<Longrightarrow>
     \<exists>key\<in>set keys. \<exists>k res. answers (key_attempt d (rt_target rt) res key) (inp k) response ms r'"
proof (induction keys arbitrary: k failed w r)
  case (Cons key keys)
  let ?a = "key_attempt d (rt_target rt) (resolves k) key"
  obtain o1 r1 where o: "attempt_target ?a (inp k) (target_rng_seed (di_seed d) (rt_idx rt)) r = (o1, r1)" by fastforce
  show ?case
  proof (cases o1)
    case (Won x y)
    then show ?thesis using Cons.prems o attempt_target_answers [of ?a "inp k" _ r x y r1] by auto
  next
    case (Exhausted why hf st)
    then have "\<exists>key\<in>set keys. \<exists>k res. answers (key_attempt d (rt_target rt) res key) (inp k) response ms r'"
      using Cons.prems o by (intro Cons.IH [of "Suc k" "failed \<or> hf" "note_exhausted w why st" r1]) simp
    then show ?thesis by auto
  qed
qed simp

lemma walk_targets_answers:
  "walk_targets d inp j rts w r = (Some (idx, response, ms), w', r') \<Longrightarrow>
     \<exists>rt\<in>set rts. rt_idx rt = idx \<and>
       (\<exists>key\<in>set (rt_keys rt). \<exists>j k res. answers (key_attempt d (rt_target rt) res key) (wi_try inp j k) response ms r')"
proof (induction rts arbitrary: j w r)
  case (Cons rt rts)
  obtain o1 w1 r1 where o: "walk_keys d rt (wi_try inp j) (wi_resolves inp j) 0 (rt_keys rt) False w r = (o1, w1, r1)"
    by (metis prod_cases3)
  show ?case
  proof (cases o1)
    case (Inl x)
    obtain resp ms' where x: "x = (resp, ms')" by fastforce
    have "\<exists>key\<in>set (rt_keys rt). \<exists>k res. answers (key_attempt d (rt_target rt) res key) (wi_try inp j k) resp ms' r1"
      using walk_keys_answers [of d rt "wi_try inp j" "wi_resolves inp j" 0 "rt_keys rt" False w r resp ms' w1 r1] o Inl x by simp
    moreover have "rt_idx rt = idx" "resp = response" "ms' = ms" "r1 = r'" using Cons.prems o Inl x by simp_all
    ultimately show ?thesis by auto
  next
    case (Inr failed)
    let ?r = "if is_pool_target rt \<and> failed
      then own_call (Tracked (di_tenant d) (RecordFailure (wi_pool_ms inp j) (tp_provider (rt_target rt)))) (others (wi_pool_others inp j) r1)
      else r1"
    have "walk_targets d inp (Suc j) rts w1 ?r = (Some (idx, response, ms), w', r')"
      using Cons.prems o Inr by (simp add: Let_def)
    from Cons.IH [OF this] show ?thesis by auto
  qed
qed simp

section \<open>Ready targets\<close>

definition routable :: "key_context \<Rightarrow> string \<Rightarrow> bool" where
  "routable kc p \<longleftrightarrow> p \<in> kc_builtin kc \<or> provider_contains (kc_custom kc) (kc_tenant kc) p"

text \<open>The ready targets are the routable ones with a key, in order, with their positions.\<close>

lemma prepare_targets_eq:
  "fst (prepare_targets kc idx err ts) =
     map (\<lambda>(i, t). \<lparr>rt_idx = i, rt_target = t, rt_keys = target_keys kc i (tp_provider t)\<rparr>)
       (filter (\<lambda>(i, t). routable kc (tp_provider t) \<and> target_keys kc i (tp_provider t) \<noteq> []) (enumerate idx ts))"
  by (induction kc idx err ts rule: prepare_targets.induct)
    (auto simp: routable_def Let_def case_prod_beta)

lemma prepare_targets_length: "length (fst (prepare_targets kc idx err ts)) \<le> length ts"
  unfolding prepare_targets_eq using length_filter_le [of _ "enumerate idx ts"] by simp

lemma prepare_targets_member:
  assumes "rt \<in> set (fst (prepare_targets kc 0 err ts))"
  shows "rt_idx rt < length ts" "rt_target rt = ts ! rt_idx rt"
    "rt_keys rt = target_keys kc (rt_idx rt) (tp_provider (rt_target rt))" "rt_keys rt \<noteq> []"
    "routable kc (tp_provider (rt_target rt))" "rt_target rt \<in> set ts"
  using assms by (auto simp: prepare_targets_eq in_set_enumerate_eq)

lemma dispatch_sequential_walk:
  "dispatch_sequential d kc inp ts r =
     walk_targets d inp 0 (fst (prepare_targets kc 0 NoProviders ts))
       \<lparr>ws_error = snd (prepare_targets kc 0 NoProviders ts), ws_client_status = None\<rparr> r"
  by (simp add: dispatch_sequential_def case_prod_beta)

section \<open>A refused key\<close>

text \<open>A try no other request interferes with and the upstream answers with an error.\<close>

definition fails_alone :: "'r try_input \<Rightarrow> provider_error \<Rightarrow> bool" where
  "fails_alone i e \<longleftrightarrow> ti_reply i = Some (Inl e) \<and> (\<forall>m. ti_others i m = [])"

lemma registry_put_same: "registry_get reg ow p = Some h \<Longrightarrow> registry_put reg ow p h = reg"
  by (cases "reg ow") (auto simp: registry_get_def registry_put_def fun_upd_idem_iff)

lemma registry_put_put [simp]: "registry_put (registry_put reg ow p h) ow p h' = registry_put reg ow p h'"
  by (auto simp: registry_put_def split: option.splits)

lemma health_lookup_put:
  "health_lookup reg ow p = Some (o', h) \<Longrightarrow> health_lookup (registry_put reg o' p h') ow p = Some (o', h')"
  by (auto simp: health_lookup_def split: option.splits if_splits)

definition with_cell :: "health_tracker \<Rightarrow> string \<Rightarrow> string \<Rightarrow> provider_health \<Rightarrow> health_tracker" where
  "with_cell t ow p h = t\<lparr>providers := registry_put (providers t) ow p h\<rparr>"

lemma with_cell_lookup:
  "health_lookup (providers t) ow p = Some (o', h) \<Longrightarrow> health_lookup (providers (with_cell t o' p h')) ow p = Some (o', h')"
  by (simp add: with_cell_def health_lookup_put)

lemma with_cell_twice [simp]: "with_cell (with_cell t ow p h) ow p h' = with_cell t ow p h'"
  by (simp add: with_cell_def)

lemma with_cell_same: "registry_get (providers t) ow p = Some h \<Longrightarrow> with_cell t ow p h = t"
  by (simp add: with_cell_def registry_put_same)

lemma with_health_cell:
  "health_lookup (providers t) ow p = Some (o', h) \<Longrightarrow>
     with_health t ow p f = (Some (fst (f h)), with_cell t o' p (snd (f h)))"
  by (simp add: with_health_def with_cell_def case_prod_beta)

lemma others_nil [simp]: "others [] r = r"
  by (simp add: others_def health_run_def)

lemma enter_closed:
  assumes "rn_sys r = (t, gs)" "health_lookup (providers t) (at_tenant a) (tp_provider (at_target a)) = Some (ow, h)"
    "raw_state (breaker h) = 0" "\<forall>m. ti_others i m = []" "try_timeout a i = Some to"
  obtains r1 where "enter_try a i r = (Inr (Some (ow, tp_provider (at_target a)), to), r1)"
    "rn_sys r1 = (with_cell t ow (tp_provider (at_target a)) (h\<lparr>in_flight := in_flight h + 1\<rparr>),
       (ow, tp_provider (at_target a)) # gs)"
proof -
  let ?p = "tp_provider (at_target a)"
  have g: "registry_get (providers t) ow ?p = Some h" using health_lookup_get [OF assms(2)] by simp
  have st: "breaker_state now (breaker h) = (Closed, breaker h)" for now
    using assms(3) by (simp add: breaker_state_def decode_state_def)
  have av: "tracker_is_available now t (at_tenant a) ?p = (True, t)" for now
    using assms(2) g by (simp add: tracker_is_available_def with_health_cell breaker_admits_def st Let_def with_cell_same)
  have pr: "try_enter_probe now t (at_tenant a) ?p = (Admitted (ow, ?p), with_cell t ow ?p (h\<lparr>in_flight := in_flight h + 1\<rparr>))" for now
    using assms(2) by (simp add: try_enter_probe_def probe_cell_def st Let_def gauge_enter_def with_cell_def)
  show ?thesis
    using that assms(1,4,5) by (simp add: enter_try_def own_call_def av pr Let_def try_timeout_def)
qed

lemma drop_own_guard:
  assumes "registry_get (providers t) ow p = Some h"
  shows "tracked_step (with_cell t ow p (h\<lparr>in_flight := in_flight h + 1\<rparr>), (ow, p) # gs) (tenant, DropGuard (ow, p)) = (t, gs)"
proof -
  have "h\<lparr>in_flight := in_flight h\<rparr> = h" by simp
  then show ?thesis using assms by (simp add: with_cell_def drop_guard_def gauge_drop_def registry_put_same)
qed

text \<open>A single-key try that fails with an authentication error is one failure of the shared cell.\<close>

lemma auth_failure_attempt:
  assumes "rn_sys r = (t, gs)" "health_lookup (providers t) (at_tenant a) (tp_provider (at_target a)) = Some (ow, h)"
    "raw_state (breaker h) = 0" "fails_alone (inp 0) (Auth prov status body)" "try_timeout a (inp 0) = Some to"
    "at_key_index a = None" "at_resolves a"
  obtains r' h' e where "attempt_target a inp rng r = (Exhausted (UpstreamError (Auth prov status body)) True None, r')"
    "rn_sys r' = (with_cell t ow (tp_provider (at_target a)) h', gs)"
    "breaker h' = breaker_record_failure (ti_failure_ms (inp 0)) (breaker h)"
proof -
  let ?p = "tp_provider (at_target a)" and ?e = "Auth prov status body"
  have q: "ti_others (inp 0) m = []" and rep: "reply_of a (inp 0) to = Inl ?e" for m
    using assms(4) by (simp_all add: fails_alone_def reply_of_def)
  obtain r1 where r1: "enter_try a (inp 0) r = (Inr (Some (ow, ?p), to), r1)"
    "rn_sys r1 = (with_cell t ow ?p (h\<lparr>in_flight := in_flight h + 1\<rparr>), (ow, ?p) # gs)"
    by (rule enter_closed [OF assms(1-3) _ assms(5)]) (use q in auto)
  have g: "registry_get (providers t) ow ?p = Some h" using health_lookup_get [OF assms(2)] by simp
  let ?r2 = "send_try a (inp 0) (Some (ow, ?p)) to r1"
  have r2: "rn_sys ?r2 = (t, gs)"
    using r1(2) drop_own_guard [OF g] by (simp add: send_try_def q own_call_def)
  let ?h1 = "h\<lparr>latency := ewma_next (as_millis (ti_elapsed (inp 0))) (latency h)\<rparr>"
  let ?h2 = "?h1\<lparr>breaker := breaker_record_failure (ti_failure_ms (inp 0)) (breaker h)\<rparr>"
  have hf: "health_failure_of a to ?e" by (simp add: health_failure_of_def is_client_deadline_timeout_def)
  have lk: "health_lookup (providers (with_cell t ow ?p ?h1)) (at_tenant a) ?p = Some (ow, ?h1)"
    by (rule with_cell_lookup [OF assms(2)])
  have r3: "rn_sys (note_failure a (inp 0) to ?e ?r2) = (with_cell t ow ?p ?h2, gs)"
    using r2 assms(6) hf lk
    by (simp add: note_failure_def Let_def q own_call_def is_client_deadline_timeout_def record_latency_def
        tracker_record_failure_def with_health_cell [OF assms(2)] with_health_cell [OF lk])
  have "attempt_target a inp rng r = (Exhausted (UpstreamError ?e) True None, note_failure a (inp 0) to ?e ?r2)"
    using assms(7) hf attempt_loop_failed [of a inp 0 None rng rng r "Some (ow, ?p)" to r1 ?e, OF _ r1(1) rep refl]
    by (simp add: attempt_target_def retry_wait_def retries_def is_retryable_def)
  then show ?thesis by (rule that [OF _ r3]) simp
qed

text \<open>A request whose plan is one target with one key.\<close>

lemma auth_failure_dispatch:
  assumes "rn_sys r = (t, gs)" "health_lookup (providers t) (di_tenant d) (tp_provider tp) = Some (ow, h)"
    "raw_state (breaker h) = 0" "fails_alone (wi_try inp 0 0 0) (Auth prov status body)"
    "next_attempt_timeout_capped (ti_clock (wi_try inp 0 0 0)) (di_deadline d) (tp_timeout_ms tp) = Some to"
    "wi_resolves inp 0 0" "routable kc (tp_provider tp)" "target_keys kc 0 (tp_provider tp) = [(None, key)]"
  obtains h' where "rn_sys (snd (snd (dispatch_sequential d kc inp [tp] r))) = (with_cell t ow (tp_provider tp) h', gs)"
    "breaker h' = breaker_record_failure (ti_failure_ms (wi_try inp 0 0 0)) (breaker h)"
    "fst (dispatch_sequential d kc inp [tp] r) = None"
proof -
  let ?a = "key_attempt d tp True (None, key)"
  obtain r' h' where r': "attempt_target ?a (wi_try inp 0 0) (target_rng_seed (di_seed d) 0) r =
      (Exhausted (UpstreamError (Auth prov status body)) True None, r')"
    "rn_sys r' = (with_cell t ow (tp_provider tp) h', gs)"
    "breaker h' = breaker_record_failure (ti_failure_ms (wi_try inp 0 0 0)) (breaker h)"
    by (rule auth_failure_attempt [of r t gs ?a ow h "wi_try inp 0 0" prov status body to "target_rng_seed (di_seed d) 0"])
      (use assms in \<open>auto simp: try_timeout_def\<close>)
  have "fst (prepare_targets kc 0 NoProviders [tp]) = [\<lparr>rt_idx = 0, rt_target = tp, rt_keys = [(None, key)]\<rparr>]"
    using assms(7,8) by (simp add: prepare_targets_eq del: prepare_targets.simps)
  then have "dispatch_sequential d kc inp [tp] r =
      (None, note_exhausted \<lparr>ws_error = snd (prepare_targets kc 0 NoProviders [tp]), ws_client_status = None\<rparr>
         (UpstreamError (Auth prov status body)) None, r')"
    using r'(1) assms(6) by (simp add: dispatch_sequential_walk is_pool_target_def)
  then show ?thesis using that [of h'] r' by simp
qed

text \<open>Requests of that kind, one after the other.\<close>

definition serve_each :: "dispatch \<Rightarrow> key_context \<Rightarrow> target_plan \<Rightarrow> 'r walk_input list \<Rightarrow> run \<Rightarrow> run" where
  "serve_each d kc tp inps r = foldl (\<lambda>r inp. snd (snd (dispatch_sequential d kc inp [tp] r))) r inps"

definition refused_key :: "dispatch \<Rightarrow> target_plan \<Rightarrow> 'r walk_input \<Rightarrow> bool" where
  "refused_key d tp inp \<longleftrightarrow>
     (\<exists>prov status body. fails_alone (wi_try inp 0 0 0) (Auth prov status body)) \<and> wi_resolves inp 0 0 \<and>
     ti_clock (wi_try inp 0 0 0) < expires_at (di_deadline d)"

lemma serve_each_fails:
  assumes "rn_sys r = (t, gs)" "health_lookup (providers t) (di_tenant d) (tp_provider tp) = Some (ow, h)"
    "raw_state (breaker h) = 0" "unat (failures (breaker h)) + length inps \<le> unat (failure_threshold (breaker h))"
    "\<forall>inp\<in>set inps. refused_key d tp inp" "routable kc (tp_provider tp)"
    "target_keys kc 0 (tp_provider tp) = [(None, key)]"
  obtains h' where "rn_sys (serve_each d kc tp inps r) = (with_cell t ow (tp_provider tp) h', gs)"
    "breaker h' = breaker_run (breaker h) (map (\<lambda>inp. Failed (ti_failure_ms (wi_try inp 0 0 0))) inps)"
proof -
  have "\<exists>h'. rn_sys (serve_each d kc tp inps r) = (with_cell t ow (tp_provider tp) h', gs) \<and>
    breaker h' = breaker_run (breaker h) (map (\<lambda>inp. Failed (ti_failure_ms (wi_try inp 0 0 0))) inps)"
    using assms(1-5)
  proof (induction inps arbitrary: r t h)
    case Nil
    then show ?case using health_lookup_get [OF Nil(2)] with_cell_same [of t ow "tp_provider tp" h]
      by (intro exI [of _ h]) (simp add: serve_each_def)
  next
    case (Cons inp inps)
    have "refused_key d tp inp" using Cons.prems(5) by simp
    then obtain prov status body where i: "fails_alone (wi_try inp 0 0 0) (Auth prov status body)" "wi_resolves inp 0 0"
      "\<not> expires_at (di_deadline d) \<le> ti_clock (wi_try inp 0 0 0)" unfolding refused_key_def by auto
    then obtain to where to: "next_attempt_timeout_capped (ti_clock (wi_try inp 0 0 0)) (di_deadline d) (tp_timeout_ms tp) = Some to"
      using attempt_timeout_None by (metis not_Some_eq)
    let ?r = "snd (snd (dispatch_sequential d kc inp [tp] r))" and ?b = "breaker_record_failure (ti_failure_ms (wi_try inp 0 0 0)) (breaker h)"
    obtain h1 where h1: "rn_sys ?r = (with_cell t ow (tp_provider tp) h1, gs)" "breaker h1 = ?b"
      by (rule auth_failure_dispatch [OF Cons.prems(1-3) i(1) to i(2) assms(6,7)]) blast
    show ?case
    proof (cases inps)
      case Nil
      then show ?thesis using h1 by (auto simp: serve_each_def)
    next
      case (Cons inp' rest)
      have "unat (failures (breaker h)) + length [ti_failure_ms (wi_try inp 0 0 0)] < unat (failure_threshold (breaker h))"
        using Cons.prems(4) Cons by simp
      from closed_failures_below [OF Cons.prems(3) this]
      have b: "raw_state ?b = 0" "unat (failures ?b) = unat (failures (breaker h)) + 1" by simp_all
      have "failure_threshold ?b = failure_threshold (breaker h)"
        using breaker_config_step(1) [of "breaker h" "Failed (ti_failure_ms (wi_try inp 0 0 0))"] by simp
      then obtain h' where h': "rn_sys (serve_each d kc tp inps ?r) = (with_cell (with_cell t ow (tp_provider tp) h1) ow (tp_provider tp) h', gs)"
        "breaker h' = breaker_run (breaker h1) (map (\<lambda>inp. Failed (ti_failure_ms (wi_try inp 0 0 0))) inps)"
        using Cons.IH [OF h1(1) with_cell_lookup [OF Cons.prems(2)]] h1(2) b Cons.prems(4,5) by auto
      then show ?thesis using h1(2) by (auto simp: serve_each_def)
    qed
  qed
  then show ?thesis using that by blast
qed

section \<open>Pools\<close>

lemma target_keys_pool:
  assumes "kc_provider_keys kc p = Some value" "is_key_pool value" "key \<in> set (target_keys kc idx p)"
  shows "fst key \<noteq> None"
  using assms by (auto simp: target_keys_def)

lemma pool_walk_silent:
  assumes "\<forall>key\<in>set keys. fst key \<noteq> None"
  shows "failures_in (rn_log (snd (snd (walk_keys d rt inp resolves k keys failed w r)))) = failures_in (rn_log r)"
proof (rule verdict_runs.walk_keys_good [OF refl])
  show "plain_calls (di_tenant d) (tp_provider (rt_target rt)) \<subseteq> {c. \<forall>p. \<not> failure_on p c}"
    using plain_calls_no_failure by blast
  show "\<forall>now. Tracked (di_tenant d) (RecordFailure now (tp_provider (rt_target rt))) \<in> {c. \<forall>p. \<not> failure_on p c}"
    if "key \<in> set keys" "may_fail (key_attempt d (rt_target rt) res key) (inp k)" for k key res
    using that assms by (auto simp: may_fail_def)
qed simp_all

lemma failures_in_own:
  "length (failures_in (rn_log (own_call c r))) \<le> length (failures_in (rn_log r)) + 1"
  by (simp add: failures_in_def)

lemma pool_targets_fail_once:
  assumes "\<forall>rt\<in>set rts. \<forall>key\<in>set (rt_keys rt). fst key \<noteq> None"
  shows "length (failures_in (rn_log (snd (snd (walk_targets d inp j rts w r))))) \<le> length (failures_in (rn_log r)) + length rts"
  using assms
proof (induction rts arbitrary: j w r)
  case (Cons rt rts)
  obtain o1 w1 r1 where o: "walk_keys d rt (wi_try inp j) (wi_resolves inp j) 0 (rt_keys rt) False w r = (o1, w1, r1)"
    by (metis prod_cases3)
  have s: "failures_in (rn_log r1) = failures_in (rn_log r)"
    using pool_walk_silent [of "rt_keys rt" d rt "wi_try inp j" "wi_resolves inp j" 0 False w r] Cons.prems o by simp
  show ?case
  proof (cases o1)
    case (Inl x)
    then show ?thesis using o s by (cases x) simp
  next
    case (Inr failed)
    let ?r = "if is_pool_target rt \<and> failed
      then own_call (Tracked (di_tenant d) (RecordFailure (wi_pool_ms inp j) (tp_provider (rt_target rt)))) (others (wi_pool_others inp j) r1)
      else r1"
    have "length (failures_in (rn_log ?r)) \<le> length (failures_in (rn_log r)) + 1"
      using failures_in_own [of _ "others (wi_pool_others inp j) r1"] s by simp
    moreover have "length (failures_in (rn_log (snd (snd (walk_targets d inp (Suc j) rts w1 ?r))))) \<le> length (failures_in (rn_log ?r)) + length rts"
      by (rule Cons.IH) (use Cons.prems in simp)
    ultimately show ?thesis using o Inr by (simp add: Let_def)
  qed
qed simp

text \<open>A response the caller is to blame for: a throttle, a bad request, or the caller's own deadline.\<close>

definition callers_fault :: "deadline \<Rightarrow> target_plan \<Rightarrow> 'r try_input \<Rightarrow> bool" where
  "callers_fault dl tp i \<longleftrightarrow>
     (case ti_reply i of
        Some (Inl (RateLimited _ _ _)) \<Rightarrow> True
      | Some (Inl (BadRequest _ _ _)) \<Rightarrow> True
      | None \<Rightarrow> (case next_attempt_timeout_capped (ti_clock i) dl (tp_timeout_ms tp) of
                   Some t \<Rightarrow> attempt_bounded_by_client dl t (tp_timeout_ms tp) | None \<Rightarrow> True)
      | _ \<Rightarrow> False)"

definition answered :: "'r try_input \<Rightarrow> bool" where
  "answered i \<longleftrightarrow> (\<exists>x. ti_reply i = Some (Inr x))"

lemma callers_fault_no_fault:
  assumes "\<forall>n. answered (inp n) \<or> callers_fault (at_deadline a) (at_target a) (inp n)"
  shows "\<not> has_fault a inp"
proof
  assume "has_fault a inp"
  then obtain n t e where n: "try_timeout a (inp n) = Some t" "reply_of a (inp n) t = Inl e" "health_failure_of a t e"
    by (auto simp: has_fault_def)
  show False using spec [OF assms, of n] n
    by (auto simp: answered_def callers_fault_def reply_of_def health_failure_of_def try_timeout_def
        is_client_deadline_timeout_def split: option.splits sum.splits provider_error.splits)
qed

section \<open>A sample request\<close>

text \<open>One tenant, one built-in provider with one key, and an upstream that always gives the same reply.\<close>

definition sample_target :: target_plan where
  "sample_target = \<lparr>tp_provider = ''openai'', tp_weight = None, tp_cost = None, tp_timeout_ms = None,
     tp_retry = retry_policy_default, tp_params = shaping_default\<rparr>"

definition sample_context :: key_context where
  "sample_context = \<lparr>kc_env = Map.empty, kc_builtin = {''openai''}, kc_custom = providers_default,
     kc_provider_keys = [''openai'' \<mapsto> ''sk''], kc_tenant = ''acme'',
     kc_health = tracker_new (\<lambda>_. 0) [''openai''], kc_now_ms = 0, kc_seed = 0\<rparr>"

definition sample_try :: "provider_error + 'r \<Rightarrow> u64 \<Rightarrow> 'r try_input" where
  "sample_try reply ms = \<lparr>ti_retry_clock = 0, ti_others = (\<lambda>_. []), ti_available_ms = ms, ti_clock = 0,
     ti_probe_ms = ms, ti_reply = Some reply, ti_elapsed = 0, ti_failure_ms = ms, ti_unix_ms = ms, ti_end_clock = 0\<rparr>"

definition sample_walk :: "provider_error + 'r \<Rightarrow> u64 \<Rightarrow> 'r walk_input" where
  "sample_walk reply ms = \<lparr>wi_try = (\<lambda>_ _ _. sample_try reply ms), wi_resolves = (\<lambda>_ _. True),
     wi_pool_others = (\<lambda>_. []), wi_pool_ms = (\<lambda>_. ms)\<rparr>"

definition sample_dispatch :: dispatch where
  "sample_dispatch = \<lparr>di_tenant = ''acme'', di_deadline = deadline_start deadline_config_default 0,
     di_windows = COOLDOWN_WINDOWS Map.empty, di_seed = 0\<rparr>"

definition sample_run :: run where
  "sample_run = \<lparr>rn_sys = (tracker_new (\<lambda>_. 0) [''openai''], []), rn_log = [], rn_sent = [], rn_usage = []\<rparr>"

lemmas sample_defs = sample_target_def sample_context_def sample_try_def sample_walk_def sample_dispatch_def sample_run_def

lemma sample_keys [simp]: "target_keys sample_context idx ''openai'' = [(None, ''sk'')]"
  by (simp add: target_keys_def resolve_api_key_def is_key_pool_def strip_prefix_def sample_context_def contains_def or_else_def)

lemma sample_routable [simp]: "routable sample_context ''openai''"
  by (simp add: routable_def sample_context_def)

lemma sample_cell:
  "health_lookup (providers (fst (rn_sys sample_run))) tenant ''openai'' = Some (GLOBAL_OWNER, provider_health_new)"
  by (simp add: sample_run_def tracker_new_def health_lookup_def registry_get_def GLOBAL_OWNER_def)

lemma sample_wins:
  obtains w r' t where "dispatch_sequential sample_dispatch sample_context (sample_walk (Inr x) ms) [sample_target] sample_run =
    (Some (0, x, 0), w, r')" "(''sk'', 0, t) \<in> set (rn_sent r')"
proof -
  let ?a = "key_attempt sample_dispatch sample_target True (None, ''sk'')" and ?i = "sample_try (Inr x) ms"
  have p: "tp_provider sample_target = ''openai''" by (simp add: sample_target_def)
  have c: "raw_state (breaker provider_health_new) = 0"
    by (simp add: provider_health_new_def breaker_new_def with_config_def)
  obtain to where to: "try_timeout ?a ?i = Some to"
    using attempt_timeout_None [of "ti_clock ?i" "at_deadline ?a" "tp_timeout_ms (at_target ?a)"]
    by (cases "try_timeout ?a ?i") (auto simp: try_timeout_def sample_dispatch_def deadline_start_def
        deadline_config_default_def from_millis_def sample_try_def)
  obtain r1 where e: "enter_try ?a ?i sample_run = (Inr (Some (GLOBAL_OWNER, ''openai''), to), r1)"
    by (rule enter_closed [of sample_run "fst (rn_sys sample_run)" "snd (rn_sys sample_run)" ?a GLOBAL_OWNER provider_health_new ?i to])
      (use sample_cell c to in \<open>auto simp: p sample_try_def\<close>)
  have "reply_of ?a ?i to = Inr x" by (simp add: reply_of_def sample_try_def)
  from attempt_loop_won [of ?a "\<lambda>_. ?i" 0 None _ _ sample_run _ to r1 x, OF _ e this]
  have "attempt_target ?a (\<lambda>_. ?i) rng sample_run =
      (Won x 0, note_success ?a ?i (send_try ?a ?i (Some (GLOBAL_OWNER, ''openai'')) to r1))" for rng
    by (simp add: attempt_target_def retry_wait_def as_millis_def) (simp add: sample_try_def)
  moreover have "(''sk'', 0, to) \<in> set (rn_sent (note_success ?a ?i (send_try ?a ?i (Some (GLOBAL_OWNER, ''openai'')) to r1)))"
    by (simp add: run_counts) (simp add: sample_try_def)
  ultimately show ?thesis
    using that by (simp add: dispatch_sequential_walk prepare_targets_eq p sample_walk_def del: prepare_targets.simps)
qed

section \<open>Properties\<close>

lemma caller_faults_spare_breaker_parts:
  assumes "dispatch_sequential d kc inp ts r = (out, w, r')" and "all_closed p (rn_sys r)"
    and "\<forall>j k n m. \<forall>c\<in>set (ti_others (wi_try inp j k n) m). \<not> failure_on p c"
    and "\<forall>j. \<forall>c\<in>set (wi_pool_others inp j). \<not> failure_on p c"
    and "\<forall>t\<in>set ts. tp_provider t = p \<longrightarrow>
      (\<forall>j k n. answered (wi_try inp j k n) \<or> callers_fault (di_deadline d) t (wi_try inp j k n))"
  shows "all_closed p (rn_sys r')" and "fst (tracker_is_available now (fst (rn_sys r')) tenant p)"
proof -
  let ?rts = "fst (prepare_targets kc 0 NoProviders ts)"
  have "all_closed p (rn_sys (snd (snd (dispatch_sequential d kc inp ts r))))"
    unfolding dispatch_sequential_walk
  proof (rule closed_runs.walk_targets_good [OF assms(2)])
    show "plain_calls (di_tenant d) (tp_provider (rt_target rt)) \<subseteq> {c. \<not> failure_on p c}" for rt
      using plain_calls_no_failure by blast
    show "set (ti_others (wi_try inp j k n) m) \<subseteq> {c. \<not> failure_on p c}" for j k n m using assms(3) by blast
    show "set (wi_pool_others inp j) \<subseteq> {c. \<not> failure_on p c}" for j using assms(4) by blast
    show "\<forall>now. Tracked (di_tenant d) (RecordFailure now (tp_provider (rt_target rt))) \<in> {c. \<not> failure_on p c}"
      if rt: "rt \<in> set ?rts" and f: "has_fault (key_attempt d (rt_target rt) res key) (wi_try inp j k)" for rt j k key res
    proof (cases "tp_provider (rt_target rt) = p")
      case True
      then have "\<not> has_fault (key_attempt d (rt_target rt) res key) (wi_try inp j k)"
        using assms(5) prepare_targets_member(6) [OF rt] by (intro callers_fault_no_fault) simp
      then show ?thesis using f by simp
    next
      case False
      then show ?thesis by (simp add: failure_on_def)
    qed
  qed simp_all
  then show c: "all_closed p (rn_sys r')" using assms(1) by simp
  show "fst (tracker_is_available now (fst (rn_sys r')) tenant p)" by (rule closed_available [OF c])
qed

text \<open>
  C27. A caller cannot open a shared circuit breaker by its own fault. If every reply its requests get from a provider is a success, a 429, a client-class 4xx, or the expiry of the deadline the caller itself asked for, then, whatever other requests do short of recording a failure, a dispatch over any targets and keys leaves the provider's closed breakers closed and the provider stays available to every tenant.
\<close>

theorem caller_faults_spare_breaker:
  assumes "dispatch_sequential d kc inp ts r = (out, w, r')" and "all_closed p (rn_sys r)"
    and "\<forall>j k n m. \<forall>c\<in>set (ti_others (wi_try inp j k n) m). \<not> failure_on p c"
    and "\<forall>j. \<forall>c\<in>set (wi_pool_others inp j). \<not> failure_on p c"
    and "\<forall>t\<in>set ts. tp_provider t = p \<longrightarrow>
      (\<forall>j k n. answered (wi_try inp j k n) \<or> callers_fault (di_deadline d) t (wi_try inp j k n))"
  shows "(all_closed p (rn_sys r')) \<and>
   (fst (tracker_is_available now (fst (rn_sys r')) tenant p))"
  by ((rule conjI, rule caller_faults_spare_breaker_parts(1) [OF assms]),
      (rule caller_faults_spare_breaker_parts(2) [OF assms]))

theorem caller_faults_spare_breaker_witness:
  "fst (tracker_is_available 7 (fst (rn_sys (snd (snd (dispatch_sequential sample_dispatch sample_context
     (sample_walk (Inl (RateLimited ''openai'' None ''slow down'') :: provider_error + string) 3) [sample_target] sample_run))))) ''beta'' ''openai'')"
proof -
  let ?res = "dispatch_sequential sample_dispatch sample_context
     (sample_walk (Inl (RateLimited ''openai'' None ''slow down'') :: provider_error + string) 3) [sample_target] sample_run"
  have "all_closed ''openai'' (rn_sys sample_run)"
    by (auto simp: all_closed_def sample_run_def provider_health_new_def breaker_new_def with_config_def dest!: tracker_new_get)
  from caller_faults_spare_breaker [THEN conjunct2, of sample_dispatch sample_context
      "sample_walk (Inl (RateLimited ''openai'' None ''slow down'') :: provider_error + string) 3"
      "[sample_target]" sample_run "fst ?res" "fst (snd ?res)" "snd (snd ?res)" "''openai''", OF _ this]
  show ?thesis by (simp add: sample_walk_def sample_try_def callers_fault_def)
qed

text \<open>
  C28. An authentication failure counts against the shared breaker, although the documentation says only transport, server, timeout and translation errors do. When a tenant with a single, revoked key for a built-in provider sends as many requests as the failure threshold and each is answered 401 or 403, the provider's global breaker opens at the last answer, and until the cooldown has passed the provider is refused to every tenant without a provider of its own of that name.
\<close>

theorem revoked_key_opens_breaker:
  assumes "rn_sys r = (t, gs)" and "health_lookup (providers t) (di_tenant d) (tp_provider tp) = Some (GLOBAL_OWNER, h)"
    and "raw_state (breaker h) = 0" and "failures (breaker h) = 0" and "unat (failure_threshold (breaker h)) = length inps + 1"
    and "\<forall>inp\<in>set (inps @ [inp]). refused_key d tp inp" and "routable kc (tp_provider tp)"
    and "target_keys kc 0 (tp_provider tp) = [(None, key)]"
    and "registry_get (providers t) tenant (tp_provider tp) = None"
    and "sat_sub now (ti_failure_ms (wi_try inp 0 0 0)) < cooldown_ms (breaker h)"
  shows "\<not> fst (tracker_is_available now (fst (rn_sys (serve_each d kc tp (inps @ [inp]) r))) tenant (tp_provider tp))"
proof -
  let ?f = "\<lambda>inp. ti_failure_ms (wi_try inp 0 0 0)" and ?p = "tp_provider tp"
  have n: "unat (failures (breaker h)) + length (inps @ [inp]) \<le> unat (failure_threshold (breaker h))"
    using assms(4,5) by simp
  obtain h' where h': "rn_sys (serve_each d kc tp (inps @ [inp]) r) = (with_cell t GLOBAL_OWNER ?p h', gs)"
    "breaker h' = breaker_run (breaker h) (map (\<lambda>inp. Failed (?f inp)) (inps @ [inp]))"
    by (rule serve_each_fails [OF assms(1,2,3) n assms(6,7,8)])
  then have b: "breaker h' = breaker_run (breaker h) (map Failed (map ?f inps) @ [Failed (?f inp)])" by (simp add: comp_def)
  have "raw_state (breaker h') = 2 \<and> opened_at (breaker h') = ?f inp"
    unfolding b by (rule closed_failures_opens) (use assms(3,4,5) in simp_all)
  moreover have "cooldown_ms (breaker h') = cooldown_ms (breaker h)" unfolding b by (rule breaker_config_run(3))
  ultimately have st: "breaker_state now (breaker h') = (Open, breaker h')" using assms(10) by (simp add: open_holds)
  have "tenant \<noteq> GLOBAL_OWNER" using assms(2,9) health_lookup_get [OF assms(2)] by auto
  then have "health_lookup (providers (with_cell t GLOBAL_OWNER ?p h')) tenant ?p = Some (GLOBAL_OWNER, h')"
    using assms(9) by (simp add: health_lookup_def with_cell_def)
  then show ?thesis using h'(1) st by (simp add: tracker_is_available_def with_health_cell breaker_admits_def Let_def)
qed

theorem revoked_key_opens_breaker_witness:
  "\<not> fst (tracker_is_available 9 (fst (rn_sys (serve_each sample_dispatch sample_context sample_target
     (replicate 4 (sample_walk (Inl (Auth ''openai'' 401 []) :: provider_error + string) 3) @ [sample_walk (Inl (Auth ''openai'' 401 [])) 8])
     sample_run))) ''beta'' ''openai'')"
proof -
  have p: "tp_provider sample_target = ''openai''" by (simp add: sample_target_def)
  have r: "refused_key sample_dispatch sample_target (sample_walk (Inl (Auth ''openai'' 401 []) :: provider_error + string) ms)" for ms
    by (auto simp: refused_key_def fails_alone_def sample_walk_def sample_try_def sample_dispatch_def deadline_start_def
        deadline_config_default_def from_millis_def)
  show ?thesis
    using revoked_key_opens_breaker [of sample_run "tracker_new (\<lambda>_. 0) [''openai'']" "[]" sample_dispatch sample_target
        provider_health_new "replicate 4 (sample_walk (Inl (Auth ''openai'' 401 []) :: provider_error + string) 3)"
        "sample_walk (Inl (Auth ''openai'' 401 [])) 8" sample_context "''sk''" "''beta''" 9] r sample_cell
    by (simp add: p sample_run_def provider_health_new_def breaker_new_def with_config_def
        DEFAULT_FAILURE_THRESHOLD_def DEFAULT_COOLDOWN_MS_def sample_walk_def sample_try_def sat_sub_def tracker_new_def
        registry_get_def GLOBAL_OWNER_def)
qed

lemma dispatch_bounded_parts:
  assumes "dispatch_sequential d kc inp ts r = (out, w, r')"
  shows "calls_sent r' \<le> calls_sent r + max_calls (fst (prepare_targets kc 0 NoProviders ts))"
    and "calls_sent r' + failures_emitted r = calls_sent r + failures_emitted r' + (if out = None then 0 else 1)"
    and "routing_config_parse v ref = Inr cfg \<Longrightarrow> mset ts \<subseteq># mset (pn_targets (fst (evaluate cfg md req rng))) \<Longrightarrow>
      \<forall>i < length ts. length (target_keys kc i (tp_provider (ts ! i))) \<le> K \<Longrightarrow> calls_sent r' \<le> calls_sent r + 192 * K"
proof -
  let ?rts = "fst (prepare_targets kc 0 NoProviders ts)"
  have "calls_sent r' \<le> calls_sent r + max_calls ?rts \<and>
    calls_sent r' + failures_emitted r = calls_sent r + failures_emitted r' + (case out of Some _ \<Rightarrow> 1 | None \<Rightarrow> 0)"
    by (rule walk_targets_counts [OF assms [unfolded dispatch_sequential_walk]])
  then show bound: "calls_sent r' \<le> calls_sent r + max_calls ?rts"
    and "calls_sent r' + failures_emitted r = calls_sent r + failures_emitted r' + (if out = None then 0 else 1)"
    by (auto split: option.splits)
  assume cfg: "routing_config_parse v ref = Inr cfg" and sub: "mset ts \<subseteq># mset (pn_targets (fst (evaluate cfg md req rng)))"
    and K: "\<forall>i < length ts. length (target_keys kc i (tp_provider (ts ! i))) \<le> K"
  have "length ts \<le> length (pn_targets (fst (evaluate cfg md req rng)))" using size_mset_mono [OF sub] by simp
  then have n: "length ts \<le> 32" using accepted_plan(1) [OF cfg, of md req rng] by linarith
  have a: "unat (attempts (tp_retry t)) \<le> 5" if "t \<in> set ts" for t
    using accepted_plan(2) [OF cfg, of t md req rng] that set_mset_mono [OF sub]
    by (auto simp: retry_ok_def word_le_nat_alt)
  have "max_calls ?rts \<le> length ?rts * (K * 6)"
    unfolding max_calls_def
  proof (rule sum_list_bound)
    show "length (rt_keys rt) * (unat (attempts (tp_retry (rt_target rt))) + 1) \<le> K * 6" if "rt \<in> set ?rts" for rt
    proof (rule mult_le_mono)
      show "length (rt_keys rt) \<le> K" using K prepare_targets_member(1-3) [OF that] by simp
      show "unat (attempts (tp_retry (rt_target rt))) + 1 \<le> 6" using a [OF prepare_targets_member(6) [OF that]] by simp
    qed
  qed
  also have "\<dots> \<le> 32 * (K * 6)"
    using n prepare_targets_length [of kc 0 NoProviders ts] by (intro mult_le_mono) simp_all
  finally show "calls_sent r' \<le> calls_sent r + 192 * K" using bound by simp
qed

text \<open>
  C30. Every dispatch ends, after a bounded number of upstream calls, whatever the upstream answers: at most one try plus the target's retries for each key of each routable target; a failure event is emitted for each call but the one that wins. For any selection of the targets of an accepted routing configuration, with at most K keys each, that is at most 192 K calls.
\<close>

theorem dispatch_bounded:
  assumes "dispatch_sequential d kc inp ts r = (out, w, r')"
  shows "(calls_sent r' \<le> calls_sent r + max_calls (fst (prepare_targets kc 0 NoProviders ts))) \<and>
   (calls_sent r' + failures_emitted r = calls_sent r + failures_emitted r' + (if out = None then 0 else 1)) \<and>
   ((routing_config_parse v ref = Inr cfg) \<longrightarrow> (mset ts \<subseteq># mset (pn_targets (fst (evaluate cfg md req rng)))) \<longrightarrow> (\<forall>i < length ts. length (target_keys kc i (tp_provider (ts ! i))) \<le> K) \<longrightarrow> calls_sent r' \<le> calls_sent r + 192 * K)"
  by ((rule conjI, rule dispatch_bounded_parts(1) [OF assms]),
      (rule conjI, rule dispatch_bounded_parts(2) [OF assms]),
      (rule impI, rule impI, rule impI, rule dispatch_bounded_parts(3) [OF assms], assumption, assumption, assumption))

theorem dispatch_bounded_witness:
  "calls_sent (snd (snd (dispatch_sequential sample_dispatch sample_context
     (sample_walk (Inl (Upstream5xx ''openai'' 503 []) :: provider_error + string) 3) [sample_target] sample_run))) \<le> 1"
proof -
  let ?inp = "sample_walk (Inl (Upstream5xx ''openai'' 503 []) :: provider_error + string) 3"
  let ?res = "dispatch_sequential sample_dispatch sample_context ?inp [sample_target] sample_run"
  have "max_calls (fst (prepare_targets sample_context 0 NoProviders [sample_target])) = 1"
    by (simp add: prepare_targets_eq max_calls_def sample_target_def retry_policy_default_def del: prepare_targets.simps)
  then show ?thesis
    using dispatch_bounded [THEN conjunct1, of sample_dispatch sample_context ?inp "[sample_target]" sample_run "fst ?res" "fst (snd ?res)" "snd (snd ?res)"]
    by (simp add: calls_sent_def sample_run_def)
qed

subsection \<open>Further facts\<close>

text \<open>
  No upstream call of a dispatch is started after the request's deadline or allowed to run past it. The deadline is at most the server's budget after the request began, at most the routing configuration's cap and at most the caller's own timeout header after those were read, and no single call gets more than the server's per-attempt limit; the caps can only shorten the deadline.
\<close>

lemma calls_end_by_deadline:
  assumes "dispatch_sequential d kc inp ts r = (out, w, r')"
    and "di_deadline d = request_deadline_of cfg now0 now1 config_cap now2 header"
    and "(key, start, timeout) \<in> set (rn_sent r')" and "(key, start, timeout) \<notin> set (rn_sent r)"
  shows "start < expires_at (di_deadline d)" and "start + timeout \<le> now0 + request_deadline cfg"
    and "config_cap = Some ms \<Longrightarrow> start + timeout \<le> now1 + from_millis ms"
    and "parse_request_timeout_header header = Some ms2 \<Longrightarrow> start + timeout \<le> now2 + from_millis ms2"
    and "timeout \<le> per_attempt_timeout cfg"
proof -
  define sendable :: "string \<times> instant \<times> duration \<Rightarrow> bool" where "sendable = (\<lambda>(key, start, timeout).
    start < expires_at (di_deadline d) \<and> start + timeout \<le> expires_at (di_deadline d) \<and> timeout \<le> per_attempt (di_deadline d))"
  have "\<forall>x\<in>set (rn_sent (snd (snd (dispatch_sequential d kc inp ts r)))). x \<in> set (rn_sent r) \<or> sendable x"
    unfolding dispatch_sequential_walk
  proof (rule deadline_runs.walk_targets_good)
    show "sendable (snd key, ti_clock (wi_try inp j k n), t)"
      if "try_timeout (key_attempt d (rt_target rt) res key) (wi_try inp j k n) = Some t" for rt j k n t key res
      using attempt_timeout_bounds [OF that [unfolded try_timeout_def]]
      by (auto simp: sendable_def server_attempt_bound_def split: option.splits)
  qed simp_all
  then have s: "sendable (key, start, timeout)" using assms(1,3,4) by auto
  note e = request_deadline_bounds [where cfg = cfg and ?now0.0 = now0 and ?now1.0 = now1 and config_cap = config_cap and ?now2.0 = now2 and header = header, folded assms(2)]
  show "start < expires_at (di_deadline d)" using s by (simp add: sendable_def)
  show "start + timeout \<le> now0 + request_deadline cfg" using s e(1) by (simp add: sendable_def)
  show "start + timeout \<le> now1 + from_millis ms" if "config_cap = Some ms" using s e(2) [OF that] by (simp add: sendable_def)
  show "start + timeout \<le> now2 + from_millis ms2" if "parse_request_timeout_header header = Some ms2"
    using s e(3) [OF that] by (simp add: sendable_def)
  show "timeout \<le> per_attempt_timeout cfg" using s e(4) by (simp add: sendable_def)
qed

text \<open>
  A tenant's pool of keys does not multiply its failures. Over targets whose providers all have a key pool, a dispatch records at most one failure per target against the shared circuit breakers, however many keys and retries fail, and none for a target at which no try met a health fault.
\<close>

lemma pool_fails_once:
  assumes "\<forall>t\<in>set ts. \<exists>value. kc_provider_keys kc (tp_provider t) = Some value \<and> is_key_pool value"
    and "dispatch_sequential d kc inp ts r = (out, w, r')"
  shows "length (failures_in (rn_log r')) \<le> length (failures_in (rn_log r)) + length ts"
    and "\<forall>t\<in>set ts. \<forall>j k n. answered (wi_try inp j k n) \<or> callers_fault (di_deadline d) t (wi_try inp j k n) \<Longrightarrow>
      failures_in (rn_log r') = failures_in (rn_log r)"
proof -
  let ?rts = "fst (prepare_targets kc 0 NoProviders ts)"
  have pool: "\<forall>rt\<in>set ?rts. \<forall>key\<in>set (rt_keys rt). fst key \<noteq> None"
    using assms(1) target_keys_pool prepare_targets_member(3,6) by metis
  have "length (failures_in (rn_log r')) \<le> length (failures_in (rn_log r)) + length ?rts"
    using pool_targets_fail_once [OF pool, of d inp 0 "\<lparr>ws_error = snd (prepare_targets kc 0 NoProviders ts), ws_client_status = None\<rparr>" r]
      assms(2) by (simp add: dispatch_sequential_walk)
  then show "length (failures_in (rn_log r')) \<le> length (failures_in (rn_log r)) + length ts"
    using prepare_targets_length [of kc 0 NoProviders ts] by linarith
  assume ok: "\<forall>t\<in>set ts. \<forall>j k n. answered (wi_try inp j k n) \<or> callers_fault (di_deadline d) t (wi_try inp j k n)"
  have "failures_in (rn_log (snd (snd (dispatch_sequential d kc inp ts r)))) = failures_in (rn_log r)"
    unfolding dispatch_sequential_walk
  proof (rule verdict_runs.walk_targets_good [OF refl])
    show "plain_calls (di_tenant d) (tp_provider (rt_target rt)) \<subseteq> {c. \<forall>p. \<not> failure_on p c}" for rt
      using plain_calls_no_failure by blast
    show "\<forall>now. Tracked (di_tenant d) (RecordFailure now (tp_provider (rt_target rt))) \<in> {c. \<forall>p. \<not> failure_on p c}"
      if "rt \<in> set ?rts" "has_fault (key_attempt d (rt_target rt) res key) (wi_try inp j k)" for rt j k key res
      using callers_fault_no_fault [of "wi_try inp j k" "key_attempt d (rt_target rt) res key"] ok
        prepare_targets_member(6) [OF that(1)] that(2) by simp
  qed simp_all
  then show "failures_in (rn_log r') = failures_in (rn_log r)" using assms(2) by simp
qed

text \<open>
  After a throttled attempt with a pool key, the key's window is extended to the moment of the failure plus the upstream's Retry-After, cut to 42 bits. The product in milliseconds saturates but the sum wraps: a Retry-After of 2^64/1000 seconds or more gives a moment already past, so the key the upstream has asked to leave alone the longest is not cooled at all.
\<close>

lemma retry_after_wraps:
  assumes "at_key_index a = Some k" and "\<forall>m. ti_others i m = []" and "p = tp_provider (at_target a)"
    and "r' = note_failure a i t (RateLimited prov (Some ra) body) r"
  shows "key_cooled_until (fst (rn_sys r')) (at_tenant a) p k =
      max (key_cooled_until (fst (rn_sys r)) (at_tenant a) p k) (min (ti_unix_ms i + sat_mul (as_secs ra) 1000) KEY_COOLDOWN_UNTIL_MASK)"
    and "2 ^ 64 \<le> unat (as_secs ra) * 1000 \<Longrightarrow> 0 < ti_unix_ms i \<Longrightarrow>
      key_available (fst (rn_sys r)) (at_tenant a) p k (ti_unix_ms i) \<Longrightarrow>
      key_available (fst (rn_sys r')) (at_tenant a) p k (ti_unix_ms i)"
proof -
  define r1 where "r1 = own_call (Tracked (at_tenant a) (RecordLatency p (as_millis (ti_elapsed i)))) r"
  have k: "key_cooled_until (fst (rn_sys r1)) (at_tenant a) p k = key_cooled_until (fst (rn_sys r)) (at_tenant a) p k"
    by (cases "rn_sys r") (simp add: r1_def own_call_def)
  have "rn_sys r' = rn_sys (own_call (CoolKey (at_tenant a) p k (cool_until (ti_unix_ms i) (sat_mul (as_secs ra) 1000))) r1)"
    using assms by (simp add: note_failure_def Let_def is_client_deadline_timeout_def r1_def key_cooldown_ms_def)
  then have "fst (rn_sys r') = cool_key (fst (rn_sys r1)) (at_tenant a) p k (cool_until (ti_unix_ms i) (sat_mul (as_secs ra) 1000))"
    by (cases "rn_sys r1") (simp add: own_call_def)
  then show w: "key_cooled_until (fst (rn_sys r')) (at_tenant a) p k =
      max (key_cooled_until (fst (rn_sys r)) (at_tenant a) p k) (min (ti_unix_ms i + sat_mul (as_secs ra) 1000) KEY_COOLDOWN_UNTIL_MASK)"
    using k by (simp add: own_cool_reads cool_until_def)
  assume "2 ^ 64 \<le> unat (as_secs ra) * 1000" and pos: "0 < ti_unix_ms i"
    and free: "key_available (fst (rn_sys r)) (at_tenant a) p k (ti_unix_ms i)"
  then have "sat_mul (as_secs ra) 1000 = - 1" by (simp add: sat_mul_def u64_max_def)
  then have "ti_unix_ms i + sat_mul (as_secs ra) 1000 \<le> ti_unix_ms i" using pos by (simp add: word_le_nat_alt unat_minus_one word_gt_0)
  then show "key_available (fst (rn_sys r')) (at_tenant a) p k (ti_unix_ms i)"
    using free unfolding key_available_def w by (auto simp: min_def)
qed

text \<open>
  The answer of a dispatch is genuine and final: it is the reply of an upstream call to the target whose index is reported, made with one of that target's keys before the deadline, and no upstream call follows it. Without an answer, no target is reported and a failure event was emitted for every call.
\<close>

lemma answer_is_last_reply:
  assumes "dispatch_sequential d kc inp ts r = (out, w, r')"
  shows "out = Some (idx, response, ms) \<Longrightarrow>
      idx < length ts \<and> routable kc (tp_provider (ts ! idx)) \<and>
      (\<exists>key\<in>set (target_keys kc idx (tp_provider (ts ! idx))). \<exists>j k n t.
         ti_reply (wi_try inp j k n) = Some (Inr response) \<and> ms = as_millis (ti_elapsed (wi_try inp j k n)) \<and>
         rn_sent r' \<noteq> [] \<and> last (rn_sent r') = (snd key, ti_clock (wi_try inp j k n), t) \<and>
         ti_clock (wi_try inp j k n) < expires_at (di_deadline d))"
    and "out = None \<Longrightarrow> calls_sent r' + failures_emitted r = calls_sent r + failures_emitted r'"
proof -
  show "calls_sent r' + failures_emitted r = calls_sent r + failures_emitted r'" if "out = None"
    using walk_targets_counts [OF assms [unfolded dispatch_sequential_walk]] that by simp
  assume out: "out = Some (idx, response, ms)"
  obtain rt key j k res where rt: "rt \<in> set (fst (prepare_targets kc 0 NoProviders ts))" "rt_idx rt = idx"
    "key \<in> set (rt_keys rt)" "answers (key_attempt d (rt_target rt) res key) (wi_try inp j k) response ms r'"
    using walk_targets_answers [OF assms [unfolded dispatch_sequential_walk out]] by auto
  note m = prepare_targets_member [OF rt(1)]
  obtain n t where "try_timeout (key_attempt d (rt_target rt) res key) (wi_try inp j k n) = Some t"
    "ti_reply (wi_try inp j k n) = Some (Inr response)" "ms = as_millis (ti_elapsed (wi_try inp j k n))"
    "rn_sent r' \<noteq> []" "last (rn_sent r') = (snd key, ti_clock (wi_try inp j k n), t)"
    using rt(4) by (auto simp: answers_def)
  moreover from this(1) have "ti_clock (wi_try inp j k n) < expires_at (di_deadline d)"
    using attempt_timeout_bounds(1) by (simp add: try_timeout_def)
  ultimately show "idx < length ts \<and> routable kc (tp_provider (ts ! idx)) \<and>
      (\<exists>key\<in>set (target_keys kc idx (tp_provider (ts ! idx))). \<exists>j k n t.
         ti_reply (wi_try inp j k n) = Some (Inr response) \<and> ms = as_millis (ti_elapsed (wi_try inp j k n)) \<and>
         rn_sent r' \<noteq> [] \<and> last (rn_sent r') = (snd key, ti_clock (wi_try inp j k n), t) \<and>
         ti_clock (wi_try inp j k n) < expires_at (di_deadline d))"
    using m rt(2,3) by (auto intro!: bexI [of _ key])
qed

end
