(* ===== verification/Hedging.thy ===== *)
theory Hedging
  imports Dispatch_Facts
begin

text \<open>
  Hedged dispatch, \<^verbatim>\<open>run_hedged_targets\<close> of \<^verbatim>\<open>crates/routeplane/src/proxy.rs\<close>: the ready targets
  race, the next one starting when the running ones have been slow for the configured delay or
  when one of them fails. The race is a state machine whose events are the resolution of one of the
  attempts in flight and the elapse of the delay. What an attempt does to the shared state is
  \<^verbatim>\<open>attempt_target\<close> of the dispatch theory, the calls of the attempts it races with being among
  the calls of others.
\<close>

section \<open>The race\<close>

record hedge_context =
  hc_dispatch :: dispatch
  hc_ready :: "ready_target list"
  hc_policy :: hedge_policy

text \<open>The attempt for a target uses its first key, without the key's index.\<close>

definition hedge_attempt :: "hedge_context \<Rightarrow> ready_target \<Rightarrow> bool \<Rightarrow> target_attempt" where
  "hedge_attempt hc rt resolves = key_attempt (hc_dispatch hc) (rt_target rt) resolves (None, snd (rt_keys rt ! 0))"

text \<open>A flight is a position in the list of ready targets, with whether it was launched as a hedge.\<close>

type_synonym flight = "nat \<times> bool"

record race =
  rc_next :: nat
  rc_flights :: "flight list"
  rc_walk :: walk_state

datatype 'r hedge_status =
    Racing race
  | Winner nat 'r u64 bool
  | AllFailed walk_state

datatype 'r hedge_event = AttemptResolved flight "'r target_outcome" | DelayElapsed instant | NothingLeft

definition max_in_flight :: "hedge_context \<Rightarrow> nat" where
  "max_in_flight hc = unat (max_extra (hc_policy hc)) + 1"

definition launch :: "bool \<Rightarrow> race \<Rightarrow> race" where
  "launch was_hedge s = s\<lparr>rc_next := rc_next s + 1, rc_flights := rc_flights s @ [(rc_next s, was_hedge)]\<rparr>"

definition can_hedge :: "hedge_context \<Rightarrow> instant \<Rightarrow> race \<Rightarrow> bool" where
  "can_hedge hc now s \<longleftrightarrow>
     rc_flights s \<noteq> [] \<and> length (rc_flights s) < max_in_flight hc \<and> rc_next s < length (hc_ready hc) \<and>
     next_attempt_timeout now (di_deadline (hc_dispatch hc)) \<noteq> None"

definition hedge_start :: "hedge_context \<Rightarrow> walk_state \<Rightarrow> 'r hedge_status" where
  "hedge_start hc w =
     (if hc_ready hc = [] then AllFailed w
      else Racing (launch False \<lparr>rc_next = 0, rc_flights = [], rc_walk = w\<rparr>))"

text \<open>One turn of the loop; \<open>None\<close> for an event that cannot happen there.\<close>

fun hedge_turn :: "hedge_context \<Rightarrow> race \<Rightarrow> 'r hedge_event \<Rightarrow> 'r hedge_status option" where
  "hedge_turn hc s (AttemptResolved f outcome) =
     (if f \<notin> set (rc_flights s) then None
      else case outcome of
          Won response elapsed_ms \<Rightarrow> Some (Winner (rt_idx (hc_ready hc ! fst f)) response elapsed_ms (snd f))
        | Exhausted why _ status \<Rightarrow>
            (let s = s\<lparr>rc_flights := remove1 f (rc_flights s), rc_walk := note_exhausted (rc_walk s) why status\<rparr>
             in Some (Racing (if rc_next s < length (hc_ready hc) then launch False s else s))))"
| "hedge_turn hc s (DelayElapsed now) = (if can_hedge hc now s then Some (Racing (launch True s)) else None)"
| "hedge_turn hc s NothingLeft = (if rc_flights s = [] then Some (AllFailed (rc_walk s)) else None)"

inductive hedge_step :: "hedge_context \<Rightarrow> 'r hedge_status \<Rightarrow> 'r hedge_event \<Rightarrow> 'r hedge_status \<Rightarrow> bool" for hc where
  turn: "hedge_turn hc s e = Some st \<Longrightarrow> hedge_step hc (Racing s) e st"

inductive_cases hedge_stepE: "hedge_step hc st e st'"
inductive_simps hedge_step_ended: "hedge_step hc (Winner i x ms h) e st" "hedge_step hc (AllFailed w) e st"

text \<open>The races that can occur, with the events so far.\<close>

inductive races :: "hedge_context \<Rightarrow> walk_state \<Rightarrow> 'r hedge_event list \<Rightarrow> 'r hedge_status \<Rightarrow> bool" for hc w where
  start: "races hc w [] (hedge_start hc w)"
| step: "races hc w es st \<Longrightarrow> hedge_step hc st e st' \<Longrightarrow> races hc w (es @ [e]) st'"

inductive_cases races_snocE: "races hc w (es @ [e]) st"

section \<open>Invariants\<close>

definition failed_in :: "'r hedge_event list \<Rightarrow> nat set" where
  "failed_in es = {i. \<exists>h why hf status. AttemptResolved (i, h) (Exhausted why hf status) \<in> set es}"

lemma failed_in_simps [simp]:
  "failed_in [] = {}"
  "failed_in (es @ [e]) = failed_in es \<union> (case e of AttemptResolved f (Exhausted _ _ _) \<Rightarrow> {fst f} | _ \<Rightarrow> {})"
  by (auto simp: failed_in_def split: hedge_event.splits target_outcome.splits)

text \<open>
  The targets launched are the first \<open>rc_next\<close> ones, each once: it is in flight or has failed. The
  flights are within the bound, and only end when every target has been launched.
\<close>

definition delay_passed :: "hedge_context \<Rightarrow> 'r hedge_event list \<Rightarrow> bool" where
  "delay_passed hc es \<longleftrightarrow> (\<exists>now. DelayElapsed now \<in> set es \<and> now < expires_at (di_deadline (hc_dispatch hc)))"

definition race_ok :: "hedge_context \<Rightarrow> 'r hedge_event list \<Rightarrow> race \<Rightarrow> bool" where
  "race_ok hc es s \<longleftrightarrow>
     rc_next s \<le> length (hc_ready hc) \<and> 0 < rc_next s \<and>
     distinct (map fst (rc_flights s)) \<and> set (map fst (rc_flights s)) \<inter> failed_in es = {} \<and>
     set (map fst (rc_flights s)) \<union> failed_in es = {0..<rc_next s} \<and>
     length (rc_flights s) \<le> max_in_flight hc \<and>
     (rc_flights s = [] \<longrightarrow> rc_next s = length (hc_ready hc)) \<and>
     (\<forall>f\<in>set (rc_flights s). snd f \<longrightarrow> 0 < fst f \<and> delay_passed hc es)"

lemma race_ok_start: "hc_ready hc \<noteq> [] \<Longrightarrow> race_ok hc [] (launch False \<lparr>rc_next = 0, rc_flights = [], rc_walk = w\<rparr>)"
  by (simp add: race_ok_def launch_def max_in_flight_def Suc_le_eq)

lemma race_ok_launch:
  assumes "set (map fst (rc_flights s)) \<union> failed_in es = {0..<rc_next s}" "set (map fst (rc_flights s)) \<inter> failed_in es = {}"
    and "distinct (map fst (rc_flights s))" "rc_next s < length (hc_ready hc)" "length (rc_flights s) < max_in_flight hc"
    and "0 < rc_next s" "\<forall>f\<in>set (rc_flights s). snd f \<longrightarrow> 0 < fst f \<and> delay_passed hc es" "h \<Longrightarrow> delay_passed hc es"
  shows "race_ok hc es (launch h s)"
proof -
  have "rc_next s \<notin> set (map fst (rc_flights s))" "rc_next s \<notin> failed_in es" using assms(1) by auto
  moreover have "{0..<rc_next s + 1} = insert (rc_next s) {0..<rc_next s}" by auto
  ultimately show ?thesis using assms by (auto simp: race_ok_def launch_def)
qed

lemma distinct_remove1_set:
  "distinct (map fst xs) \<Longrightarrow> f \<in> set xs \<Longrightarrow>
     set (map fst (remove1 f xs)) = set (map fst xs) - {fst f} \<and> distinct (map fst (remove1 f xs))"
proof (induction xs)
  case (Cons x xs)
  then show ?case by (cases "x = f") (auto simp: rev_image_eqI)
qed simp

lemma race_ok_turn:
  assumes ok: "race_ok hc es s" and turn: "hedge_turn hc s e = Some (Racing s')"
  shows "race_ok hc (es @ [e]) s'"
proof (cases e)
  case (DelayElapsed now)
  then have s': "s' = launch True s" and c: "can_hedge hc now s" using turn by (auto split: if_splits)
  have "now < expires_at (di_deadline (hc_dispatch hc))"
    using c by (auto simp: can_hedge_def next_attempt_timeout_def remaining_def Let_def split: if_splits)
  then have "delay_passed hc (es @ [e])" using DelayElapsed by (auto simp: delay_passed_def)
  moreover have "failed_in (es @ [e]) = failed_in es" using DelayElapsed by simp
  ultimately show ?thesis unfolding s' using ok c by (intro race_ok_launch) (auto simp: race_ok_def can_hedge_def)
next
  case NothingLeft
  then show ?thesis using turn by (simp split: if_splits)
next
  case (AttemptResolved f outcome)
  then obtain why hf status where o: "outcome = Exhausted why hf status" "f \<in> set (rc_flights s)"
    using turn by (cases outcome) (auto split: if_splits)
  define s1 where "s1 = s\<lparr>rc_flights := remove1 f (rc_flights s), rc_walk := note_exhausted (rc_walk s) why status\<rparr>"
  have s': "s' = (if rc_next s1 < length (hc_ready hc) then launch False s1 else s1)"
    using turn AttemptResolved o by (auto simp: s1_def Let_def)
  have fe: "failed_in (es @ [e]) = insert (fst f) (failed_in es)" using AttemptResolved o by simp
  have d: "distinct (map fst (rc_flights s))" "set (map fst (rc_flights s)) \<inter> failed_in es = {}"
    "set (map fst (rc_flights s)) \<union> failed_in es = {0..<rc_next s}" "length (rc_flights s) \<le> max_in_flight hc"
    "rc_next s \<le> length (hc_ready hc)" "0 < rc_next s" "\<forall>f\<in>set (rc_flights s). snd f \<longrightarrow> 0 < fst f \<and> delay_passed hc es"
    using ok by (simp_all add: race_ok_def)
  note r = distinct_remove1_set [OF d(1) o(2)]
  have fi: "fst f \<in> set (map fst (rc_flights s))" using o(2) by auto
  have fl: "set (map fst (rc_flights s1)) = set (map fst (rc_flights s)) - {fst f}" "distinct (map fst (rc_flights s1))"
    "rc_next s1 = rc_next s" using r by (simp_all add: s1_def)
  have u: "set (map fst (rc_flights s1)) \<union> failed_in (es @ [e]) = {0..<rc_next s1}"
    "set (map fst (rc_flights s1)) \<inter> failed_in (es @ [e]) = {}"
    unfolding fl fe using d(2,3) fi by auto
  have len: "length (rc_flights s1) < max_in_flight hc"
  proof -
    have "length (rc_flights s1) = length (rc_flights s) - 1" using o(2) by (simp add: s1_def length_remove1)
    then show ?thesis using d(4) length_pos_if_in_set [OF o(2)] by linarith
  qed
  have "set (rc_flights s1) \<subseteq> set (rc_flights s)" using set_remove1_subset by (simp add: s1_def)
  then have z: "\<forall>f\<in>set (rc_flights s1). snd f \<longrightarrow> 0 < fst f \<and> delay_passed hc (es @ [e])"
    using d(7) unfolding delay_passed_def by auto
  show ?thesis
  proof (cases "rc_next s1 < length (hc_ready hc)")
    case True
    then show ?thesis using race_ok_launch [OF u fl(2) True len _ z] s' fl(3) d(6) by simp
  next
    case False
    then show ?thesis using s' u fl d(5,6) len z by (simp add: race_ok_def)
  qed
qed

lemma races_ok: "races hc w es (Racing s :: 'r hedge_status) \<Longrightarrow> race_ok hc es s"
proof (induction es "Racing s :: 'r hedge_status" arbitrary: s rule: races.induct)
  case (start s)
  then show ?case using race_ok_start [of hc w] by (auto simp: hedge_start_def split: if_splits)
next
  case (step es st e s)
  from step.hyps(3) obtain s0 where "st = Racing s0" "hedge_turn hc s0 e = Some (Racing s)" by (auto elim: hedge_stepE)
  then show ?case using step.hyps(2) race_ok_turn by blast
qed

section \<open>Progress and results\<close>

lemma race_ok_flight:
  assumes "race_ok hc es s" "f \<in> set (rc_flights s)"
  shows "fst f < length (hc_ready hc)" "fst f \<notin> failed_in es" "snd f \<longrightarrow> 0 < fst f \<and> delay_passed hc es"
proof -
  have "fst f \<in> set (map fst (rc_flights s))" using assms(2) by auto
  then have "fst f \<in> {0..<rc_next s}" "fst f \<notin> failed_in es" using assms(1) unfolding race_ok_def by blast+
  then show "fst f < length (hc_ready hc)" "fst f \<notin> failed_in es" using assms(1) by (auto simp: race_ok_def)
  show "snd f \<longrightarrow> 0 < fst f \<and> delay_passed hc es" using assms by (simp add: race_ok_def)
qed

lemma resolution_possible:
  assumes "f \<in> set (rc_flights s)"
  shows "\<exists>st. hedge_turn hc s (AttemptResolved f outcome) = Some st"
  using assms by (cases outcome) (auto simp: Let_def)

text \<open>Every turn uses up a target to launch or a flight.\<close>

fun turns_left :: "hedge_context \<Rightarrow> 'r hedge_status \<Rightarrow> nat" where
  "turns_left hc (Racing s) = 2 * (length (hc_ready hc) - rc_next s) + length (rc_flights s) + 1"
| "turns_left hc (Winner _ _ _ _) = 0"
| "turns_left hc (AllFailed _) = 0"

lemma turn_decreases: "hedge_turn hc s e = Some st \<Longrightarrow> turns_left hc st < turns_left hc (Racing s)"
proof (cases e)
  case (AttemptResolved f outcome)
  moreover assume "hedge_turn hc s e = Some st"
  moreover have "f \<in> set (rc_flights s) \<Longrightarrow> 0 < length (rc_flights s)" by auto
  ultimately show ?thesis
    by (cases outcome) (auto simp: Let_def launch_def length_remove1 split: if_splits)
qed (auto simp: can_hedge_def launch_def split: if_splits)

lemma races_turns: "races hc w es st \<Longrightarrow> length es + turns_left hc st \<le> 2 * length (hc_ready hc)"
proof (induction es st rule: races.induct)
  case start
  then show ?case by (cases "hc_ready hc") (auto simp: hedge_start_def launch_def)
next
  case (step es st e st')
  obtain s where "st = Racing s" "hedge_turn hc s e = Some st'" using step.hyps(2) by (auto elim: hedge_stepE)
  then show ?case using turn_decreases [of hc s e st'] step.IH by simp
qed

text \<open>How a race ends.\<close>

lemma races_ended:
  assumes "races hc w es st" "\<And>s. st \<noteq> Racing s"
  obtains "es = []" "hc_ready hc = []" "st = AllFailed w"
  | es0 s e where "es = es0 @ [e]" "races hc w es0 (Racing s)" "hedge_turn hc s e = Some st"
  using assms(1)
proof cases
  case start
  then show ?thesis using that(1) assms(2) by (auto simp: hedge_start_def split: if_splits)
next
  case (step es0 st0 e)
  then obtain s where "st0 = Racing s" "hedge_turn hc s e = Some st" by (auto elim: hedge_stepE)
  then show ?thesis using that(2) step by blast
qed

section \<open>A sample race\<close>

definition sample_race :: hedge_context where
  "sample_race = \<lparr>hc_dispatch = sample_dispatch,
     hc_ready = [\<lparr>rt_idx = 0, rt_target = sample_target, rt_keys = [(None, ''sk'')]\<rparr>,
       \<lparr>rt_idx = 1, rt_target = sample_target, rt_keys = [(None, ''sk'')]\<rparr>],
     hc_policy = \<lparr>hedge_delay = 100, max_extra = 1\<rparr>\<rparr>"

lemma sample_race_won: "races sample_race w [DelayElapsed 0, AttemptResolved (1, True) (Won x ms)] (Winner 1 x ms True)"
proof -
  let ?s = "launch False \<lparr>rc_next = 0, rc_flights = [], rc_walk = w\<rparr>"
  have n: "length (hc_ready sample_race) = 2" "hc_ready sample_race \<noteq> []" "max_in_flight sample_race = 2"
    "rt_idx (hc_ready sample_race ! Suc 0) = Suc 0"
    by (simp_all add: sample_race_def max_in_flight_def)
  have r0: "races sample_race w [] (Racing ?s)" using races.start [of sample_race w] n by (simp add: hedge_start_def)
  have "can_hedge sample_race 0 ?s"
    by (simp add: can_hedge_def launch_def n next_attempt_timeout_def remaining_def Let_def)
      (simp add: sample_race_def sample_dispatch_def deadline_start_def deadline_config_default_def from_millis_def)
  then have r1: "races sample_race w ([] @ [DelayElapsed 0]) (Racing (launch True ?s))"
    by (intro races.step [OF r0]) (simp add: hedge_step.turn)
  have "hedge_turn sample_race (launch True ?s) (AttemptResolved (1, True) (Won x ms)) = Some (Winner 1 x ms True)"
    by (simp add: launch_def n)
  from races.step [OF r1 hedge_step.turn [OF this]] show ?thesis by simp
qed

section \<open>Properties\<close>

lemma hedged_race_safe_parts:
  assumes "races hc w es st"
  shows "st = Racing s \<Longrightarrow> length (rc_flights s) \<le> unat (max_extra (hc_policy hc)) + 1 \<and> distinct (map fst (rc_flights s)) \<and>
      set (map fst (rc_flights s)) \<inter> failed_in es = {} \<and> set (map fst (rc_flights s)) \<union> failed_in es = {0..<rc_next s} \<and>
      rc_next s \<le> length (hc_ready hc) \<and> (\<forall>f\<in>set (rc_flights s). snd f \<longrightarrow> 0 < fst f \<and> delay_passed hc es)"
    and "st = AllFailed w' \<Longrightarrow> failed_in es = {0..<length (hc_ready hc)}"
    and "st = Winner idx response ms hedged \<Longrightarrow>
      \<exists>es0 pos. es = es0 @ [AttemptResolved (pos, hedged) (Won response ms)] \<and> pos < length (hc_ready hc) \<and> pos \<notin> failed_in es0 \<and>
        idx = rt_idx (hc_ready hc ! pos) \<and> (hedged \<longrightarrow> 0 < pos \<and> delay_passed hc es0)"
proof -
  show "length (rc_flights s) \<le> unat (max_extra (hc_policy hc)) + 1 \<and> distinct (map fst (rc_flights s)) \<and>
      set (map fst (rc_flights s)) \<inter> failed_in es = {} \<and> set (map fst (rc_flights s)) \<union> failed_in es = {0..<rc_next s} \<and>
      rc_next s \<le> length (hc_ready hc) \<and> (\<forall>f\<in>set (rc_flights s). snd f \<longrightarrow> 0 < fst f \<and> delay_passed hc es)" if "st = Racing s"
    using races_ok [of hc w es s] assms that by (simp add: race_ok_def max_in_flight_def)
  show "failed_in es = {0..<length (hc_ready hc)}" if st: "st = AllFailed w'"
    using assms
  proof (rule races_ended)
    fix es0 s e
    assume e: "es = es0 @ [e]" "races hc w es0 (Racing s)" "hedge_turn hc s e = Some st"
    then have "e = NothingLeft" "rc_flights s = []" using st by (cases e; auto simp: Let_def split: if_splits target_outcome.splits)+
    then show ?thesis using races_ok [OF e(2)] e(1) by (simp add: race_ok_def)
  qed (use st in simp_all)
  show "\<exists>es0 pos. es = es0 @ [AttemptResolved (pos, hedged) (Won response ms)] \<and> pos < length (hc_ready hc) \<and> pos \<notin> failed_in es0 \<and>
        idx = rt_idx (hc_ready hc ! pos) \<and> (hedged \<longrightarrow> 0 < pos \<and> delay_passed hc es0)" if st: "st = Winner idx response ms hedged"
    using assms
  proof (rule races_ended)
    fix es0 s e
    assume e: "es = es0 @ [e]" "races hc w es0 (Racing s)" "hedge_turn hc s e = Some st"
    then obtain f where f: "e = AttemptResolved f (Won response ms)" "f \<in> set (rc_flights s)" "idx = rt_idx (hc_ready hc ! fst f)" "hedged = snd f"
      using st by (cases e) (auto simp: Let_def split: if_splits target_outcome.splits)
    have ok: "race_ok hc es0 s" by (rule races_ok [OF e(2)])
    have "fst f < length (hc_ready hc)" "fst f \<notin> failed_in es0" "hedged \<longrightarrow> 0 < fst f \<and> delay_passed hc es0"
      using race_ok_flight [OF ok f(2)] f(4) by simp_all
    then show ?thesis using e(1) f by (intro exI [of _ es0] exI [of _ "fst f"]) simp
  qed (use st in simp_all)
qed

text \<open>
  C31. In every reachable state of a hedged race at most one more attempt than the configured extras is in flight, every target is launched at most once and in order, and each launched target is in flight or has failed. A target launched as a hedge is never the first one and was launched because the delay elapsed before the request's deadline. The race is lost only when every target has failed; it is won by the first success reported, with the index of the target it was reported for.
\<close>

theorem hedged_race_safe:
  assumes "races hc w es st"
  shows "((st = Racing s) \<longrightarrow> length (rc_flights s) \<le> unat (max_extra (hc_policy hc)) + 1 \<and> distinct (map fst (rc_flights s)) \<and>
      set (map fst (rc_flights s)) \<inter> failed_in es = {} \<and> set (map fst (rc_flights s)) \<union> failed_in es = {0..<rc_next s} \<and>
      rc_next s \<le> length (hc_ready hc) \<and> (\<forall>f\<in>set (rc_flights s). snd f \<longrightarrow> 0 < fst f \<and> delay_passed hc es)) \<and>
   ((st = AllFailed w') \<longrightarrow> failed_in es = {0..<length (hc_ready hc)}) \<and>
   ((st = Winner idx response ms hedged) \<longrightarrow> (\<exists>es0 pos. es = es0 @ [AttemptResolved (pos, hedged) (Won response ms)] \<and> pos < length (hc_ready hc) \<and> pos \<notin> failed_in es0 \<and>
        idx = rt_idx (hc_ready hc ! pos) \<and> (hedged \<longrightarrow> 0 < pos \<and> delay_passed hc es0)))"
  by ((rule conjI, rule impI, rule hedged_race_safe_parts(1) [OF assms], assumption),
      (rule conjI, rule impI, rule hedged_race_safe_parts(2) [OF assms], assumption),
      (rule impI, rule hedged_race_safe_parts(3) [OF assms], assumption))

theorem hedged_race_safe_witness:
  "\<exists>st. races sample_race \<lparr>ws_error = NoProviders, ws_client_status = None\<rparr> [DelayElapsed 0, AttemptResolved (1, True) (Won ''hi'' 9)] st \<and> st = Winner 1 ''hi'' 9 True \<and>
     (\<exists>es0 pos. [DelayElapsed 0, AttemptResolved (1, True) (Won ''hi'' 9)] = es0 @ [AttemptResolved (pos, True) (Won ''hi'' 9)] \<and> 0 < pos)"
proof -
  have r: "races sample_race \<lparr>ws_error = NoProviders, ws_client_status = None\<rparr> [DelayElapsed 0, AttemptResolved (1, True) (Won ''hi'' 9)] (Winner 1 ''hi'' 9 True)"
    by (rule sample_race_won)
  show ?thesis using r hedged_race_safe [THEN conjunct2, THEN conjunct2, THEN mp, OF r, of 1 "''hi''" 9 True] by blast
qed

subsection \<open>Further facts\<close>

text \<open>
  A hedged race ends: it has at most two turns per ready target, whatever the outcomes and however often the delay elapses, and until it ends it is never stuck, since any attempt in flight can resolve with any outcome and, with nothing in flight, the loop returns that every target failed.
\<close>

lemma hedged_race_ends:
  assumes "races hc w es st"
  shows "length es \<le> 2 * length (hc_ready hc)"
    and "st = Racing s \<Longrightarrow> f \<in> set (rc_flights s) \<Longrightarrow> \<exists>st'. hedge_step hc st (AttemptResolved f outcome) st'"
    and "st = Racing s \<Longrightarrow> rc_flights s = [] \<Longrightarrow> hedge_step hc st NothingLeft (AllFailed (rc_walk s))"
    and "(\<forall>s. st \<noteq> Racing s) \<Longrightarrow> \<not> hedge_step hc st e st'"
proof -
  show "length es \<le> 2 * length (hc_ready hc)" using races_turns [OF assms] by simp
  show "\<exists>st'. hedge_step hc st (AttemptResolved f outcome) st'" if "st = Racing s" "f \<in> set (rc_flights s)"
    using resolution_possible [OF that(2), of hc outcome] hedge_step.turn unfolding that(1) by blast
  show "hedge_step hc st NothingLeft (AllFailed (rc_walk s))" if "st = Racing s" "rc_flights s = []"
    using that by (auto intro: hedge_step.intros)
  show "\<not> hedge_step hc st e st'" if "\<forall>s. st \<noteq> Racing s"
    using that by (auto elim: hedge_stepE)
qed

text \<open>
  Under a hedging configuration the attempt for a target with a key pool is made without the index of its key, so, against the rule that a pool key never feeds the shared breaker by itself, an authentication failure of that key is recorded as a failure of the provider at once, and the key is not cooled.
\<close>

lemma hedged_pool_key_opens_breaker:
  assumes "rn_sys r = (t, gs)" and "a = hedge_attempt hc rt True"
    and "health_lookup (providers t) (at_tenant a) (tp_provider (rt_target rt)) = Some (ow, h)"
    and "raw_state (breaker h) = 0" and "fails_alone (inp 0) (Auth prov status body)"
    and "ti_clock (inp 0) < expires_at (di_deadline (hc_dispatch hc))"
  shows "\<exists>r' h'. attempt_target a inp rng r = (Exhausted (UpstreamError (Auth prov status body)) True None, r') \<and>
      registry_get (providers (fst (rn_sys r'))) ow (tp_provider (rt_target rt)) = Some h' \<and>
      breaker h' = breaker_record_failure (ti_failure_ms (inp 0)) (breaker h) \<and>
      key_cooldowns (fst (rn_sys r')) = key_cooldowns t"
proof -
  have a: "at_target a = rt_target rt" "at_key_index a = None" "at_resolves a" "at_deadline a = di_deadline (hc_dispatch hc)"
    by (simp_all add: assms(2) hedge_attempt_def)
  obtain to where to: "try_timeout a (inp 0) = Some to"
    using attempt_timeout_None [of "ti_clock (inp 0)" "at_deadline a" "tp_timeout_ms (at_target a)"] assms(6) a(4)
    by (cases "try_timeout a (inp 0)") (auto simp: try_timeout_def)
  obtain r' h' where r': "attempt_target a inp rng r = (Exhausted (UpstreamError (Auth prov status body)) True None, r')"
    "rn_sys r' = (with_cell t ow (tp_provider (rt_target rt)) h', gs)"
    "breaker h' = breaker_record_failure (ti_failure_ms (inp 0)) (breaker h)"
    by (rule auth_failure_attempt [of r t gs a ow h inp prov status body to rng]) (use assms a to in auto)
  then show ?thesis by (intro exI [of _ r'] exI [of _ h']) (simp add: with_cell_def)
qed

end
