(* ===== verification/Shard_Map.thy ===== *)
theory Shard_Map
  imports Prelude "HOL-Library.Multiset"
begin

text \<open>
  One shard of the caches: a \<^verbatim>\<open>HashMap\<close>, as the list of its entries with distinct keys. The
  order of the list carries no meaning; where the code iterates over a map, the order of the
  iteration is a parameter, any rearrangement of the entries. SHA-256 is a parameter too.
\<close>

type_synonym ('k, 'v) entries = "('k \<times> 'v) list"

text \<open>The digest that keys are hashed with.\<close>

type_synonym sha256 = "string \<Rightarrow> 8 word list"

definition shard_remove :: "'k \<Rightarrow> ('k, 'v) entries \<Rightarrow> ('k, 'v) entries" where
  "shard_remove k m = filter (\<lambda>e. fst e \<noteq> k) m"

definition shard_insert :: "'k \<Rightarrow> 'v \<Rightarrow> ('k, 'v) entries \<Rightarrow> ('k, 'v) entries" where
  "shard_insert k s m = (k, s) # shard_remove k m"

definition shard_ok :: "('k, 'v) entries \<Rightarrow> bool" where
  "shard_ok m \<longleftrightarrow> distinct (map fst m)"

definition iter_ok :: "(('k, 'v) entries \<Rightarrow> ('k, 'v) entries) \<Rightarrow> bool" where
  "iter_ok iter \<longleftrightarrow> (\<forall>m. mset (iter m) = mset m)"

lemma map_of_shard_remove [simp]: "map_of (shard_remove k m) k' = (if k' = k then None else map_of m k')"
  by (induction m) (auto simp: shard_remove_def)

lemma map_of_shard_insert [simp]: "map_of (shard_insert k s m) k' = (if k' = k then Some s else map_of m k')"
  by (simp add: shard_insert_def)

lemma shard_ok_remove: "shard_ok m \<Longrightarrow> shard_ok (shard_remove k m)"
  by (auto simp: shard_ok_def shard_remove_def distinct_map intro: inj_on_subset)

lemma shard_ok_filter: "shard_ok m \<Longrightarrow> shard_ok (filter P m)"
  by (auto simp: shard_ok_def distinct_map intro: inj_on_subset)

lemma shard_ok_insert: "shard_ok m \<Longrightarrow> shard_ok (shard_insert k s m)"
  using shard_ok_remove [of m k] by (auto simp: shard_insert_def shard_ok_def shard_remove_def)

lemma shard_remove_absent: "k \<notin> fst ` set m \<Longrightarrow> shard_remove k m = m"
  by (force simp: shard_remove_def intro: filter_True)

lemma length_shard_remove:
  "shard_ok m \<Longrightarrow> k \<in> fst ` set m \<Longrightarrow> Suc (length (shard_remove k m)) = length m"
proof (induction m)
  case (Cons e m)
  show ?case
  proof (cases "fst e = k")
    case True
    then have "k \<notin> fst ` set m" using Cons.prems(1) by (auto simp: shard_ok_def)
    then show ?thesis using True shard_remove_absent [of k m] by (simp add: shard_remove_def)
  next
    case False
    then show ?thesis using Cons by (auto simp: shard_remove_def shard_ok_def)
  qed
qed simp

lemma shard_remove_mset:
  "shard_ok m \<Longrightarrow> k \<in> fst ` set m \<Longrightarrow> mset (map fst m) = add_mset k (mset (map fst (shard_remove k m)))"
proof (induction m)
  case (Cons e m)
  show ?case
  proof (cases "fst e = k")
    case True
    then have "k \<notin> fst ` set m" using Cons.prems(1) by (auto simp: shard_ok_def)
    then show ?thesis using True shard_remove_absent [of k m] by (simp add: shard_remove_def)
  next
    case False
    then show ?thesis using Cons by (auto simp: shard_remove_def shard_ok_def)
  qed
qed simp

end
