(* ===== verification/Idempotency.thy ===== *)
theory Idempotency
  imports Cas_Cell Rust_Strings Shard_Map "HOL-Library.List_Lexorder" "HOL-Library.Char_ord" "HOL-Library.Product_Lexorder"
    "HOL-Library.Multiset"
begin

text \<open>
  The idempotency store, \<^verbatim>\<open>crates/cache/src/idempotency.rs\<close>, and its use by the chat handler,
  \<^verbatim>\<open>chat_completions_core_idem\<close> of \<^verbatim>\<open>proxy.rs\<close>. A shard is a cell (\<^verbatim>\<open>ArcSwap\<close>) holding a map of
  keys to slots, updated by a compare-exchange loop; the clock reading of a call is that of the
  attempt that completes it. A shard is the list of its entries; the order in which a
  \<^verbatim>\<open>HashMap\<close> iterates over them is a parameter, and so is the SHA-256 digest.
\<close>

section \<open>Keys and slots\<close>

type_synonym fingerprint = "8 word list"

record idem_key =
  ik_tenant :: string
  ik_key :: string

definition key_shard :: "sha256 \<Rightarrow> idem_key \<Rightarrow> nat" where
  "key_shard sha k = unat (drop_bit 2 (sha (ik_tenant k @ bytes [0x1F] @ ik_key k) ! 0))"

record stored_response =
  sr_status :: u16
  sr_content_type :: string
  sr_body :: string
  sr_fingerprint :: fingerprint
  sr_provider :: "string option"
  sr_request_id :: "string option"
  sr_created_at_ms :: u64
  sr_ttl_ms :: u64

datatype idem_slot = InFlight u64 u64 | Done stored_response

fun slot_created_at_ms :: "idem_slot \<Rightarrow> u64" where
  "slot_created_at_ms (InFlight created_at_ms _) = created_at_ms"
| "slot_created_at_ms (Done r) = sr_created_at_ms r"

fun slot_expired :: "u64 \<Rightarrow> idem_slot \<Rightarrow> bool" where
  "slot_expired now (InFlight created_at_ms ttl_ms) \<longleftrightarrow> sat_add created_at_ms ttl_ms \<le> now"
| "slot_expired now (Done r) \<longleftrightarrow> sat_add (sr_created_at_ms r) (sr_ttl_ms r) \<le> now"

datatype reserve_outcome = Reserved | Replay stored_response | FingerprintMismatch | AlreadyInFlight

type_synonym shard_map = "(idem_key \<times> idem_slot) list"
type_synonym iteration = "shard_map \<Rightarrow> shard_map"

section \<open>Eviction\<close>

definition tenant_count :: "shard_map \<Rightarrow> string \<Rightarrow> nat" where
  "tenant_count m tenant = length (filter (\<lambda>e. ik_tenant (fst e) = tenant) m)"

definition tenant_counts :: "shard_map \<Rightarrow> (string \<times> nat) list" where
  "tenant_counts m = map (\<lambda>tenant. (tenant, tenant_count m tenant)) (remdups (map (\<lambda>e. ik_tenant (fst e)) m))"

text \<open>The order of \<^verbatim>\<open>max_by\<close>: the count, then the inserting tenant, then the name. The last maximum wins.\<close>

definition victim_rank :: "string \<Rightarrow> string \<times> nat \<Rightarrow> nat \<times> bool \<times> string" where
  "victim_rank inserting c = (snd c, fst c = inserting, fst c)"

definition eviction_victim :: "(string \<times> nat) list \<Rightarrow> string \<Rightarrow> string option" where
  "eviction_victim counts inserting =
     (case counts of
        [] \<Rightarrow> None
      | c # cs \<Rightarrow>
          Some (fst (foldl (\<lambda>best x. if victim_rank inserting x < victim_rank inserting best then best else x) c cs)))"

definition counts_remove :: "string \<Rightarrow> (string \<times> nat) list \<Rightarrow> (string \<times> nat) list" where
  "counts_remove tenant counts = filter (\<lambda>c. fst c \<noteq> tenant) counts"

definition counts_drop :: "string \<Rightarrow> (string \<times> nat) list \<Rightarrow> (string \<times> nat) list" where
  "counts_drop victim counts =
     (let remaining = (case map_of counts victim of Some n \<Rightarrow> n | None \<Rightarrow> 0) in
      if 1 < remaining then (victim, remaining - 1) # counts_remove victim counts else counts_remove victim counts)"

lemma find_member: "find P xs = Some x \<Longrightarrow> x \<in> set xs \<and> P x"
  by (auto simp: find_Some_iff in_set_conv_nth)

function evict_loop ::
  "nat \<Rightarrow> string \<Rightarrow> (string \<times> nat) list \<Rightarrow> (idem_key \<times> u64) list \<Rightarrow> shard_map \<Rightarrow> shard_map" where
  "evict_loop cap inserting counts oldest_first m =
     (if length m < cap then m
      else case eviction_victim counts inserting of
          None \<Rightarrow> m
        | Some victim \<Rightarrow>
            (case find (\<lambda>e. ik_tenant (fst e) = victim) oldest_first of
               None \<Rightarrow> evict_loop cap inserting (counts_remove victim counts) oldest_first m
             | Some e \<Rightarrow> evict_loop cap inserting (counts_drop victim counts) (remove1 e oldest_first) (shard_remove (fst e) m)))"
  by pat_completeness auto

lemma foldl_member: "foldl (\<lambda>best x. if r x < r best then best else x) c cs \<in> set (c # cs)"
  by (induction cs arbitrary: c) auto

lemma eviction_victim_member: "eviction_victim counts inserting = Some v \<Longrightarrow> v \<in> fst ` set counts"
  using foldl_member [of "victim_rank inserting" "hd counts" "tl counts"]
  by (cases counts) (auto simp: eviction_victim_def)

termination evict_loop
proof (relation "measures [\<lambda>(cap, inserting, counts, oldest, m). length oldest, \<lambda>(cap, inserting, counts, oldest, m). length counts]")
  fix cap inserting counts oldest m v
  assume "eviction_victim counts inserting = Some v"
  then have "v \<in> fst ` set counts" by (rule eviction_victim_member)
  then have "length (counts_remove v counts) < length counts"
    unfolding counts_remove_def by (auto intro!: length_filter_less)
  then show "((cap, inserting, counts_remove v counts, oldest, m), cap, inserting, counts, oldest, m)
    \<in> measures [\<lambda>(cap, inserting, counts, oldest, m). length oldest, \<lambda>(cap, inserting, counts, oldest, m). length counts]" by simp
next
  fix cap inserting counts and oldest :: "(idem_key \<times> u64) list" and m v e
  assume "find (\<lambda>e. ik_tenant (fst e) = v) oldest = Some e"
  from find_member [OF this] have "e \<in> set oldest" by simp
  then have "length (remove1 e oldest) < length oldest" using length_pos_if_in_set [of e oldest] by (simp add: length_remove1 del: length_greater_0_conv)
  then show "((cap, inserting, counts_drop v counts, remove1 e oldest, shard_remove (fst e) m), cap, inserting, counts, oldest, m)
    \<in> measures [\<lambda>(cap, inserting, counts, oldest, m). length oldest, \<lambda>(cap, inserting, counts, oldest, m). length counts]" by simp
qed simp

declare evict_loop.simps [simp del]

definition evict_if_needed :: "iteration \<Rightarrow> nat \<Rightarrow> u64 \<Rightarrow> string \<Rightarrow> shard_map \<Rightarrow> shard_map" where
  "evict_if_needed iter cap now tenant_id m =
     (if length m < cap then m
      else let m = filter (\<lambda>e. \<not> slot_expired now (snd e)) m in
           if length m < cap then m
           else evict_loop cap tenant_id (tenant_counts (iter m))
                  (sort_key snd (map (\<lambda>(k, s). (k, slot_created_at_ms s)) (iter m))) m)"

section \<open>The three operations\<close>

record idem_config =
  ic_iter :: iteration
  ic_ttl_ms :: u64
  ic_cap :: nat

definition reserve_body :: "idem_config \<Rightarrow> u64 \<Rightarrow> idem_key \<Rightarrow> fingerprint \<Rightarrow> shard_map \<Rightarrow> (shard_map, reserve_outcome) attempt" where
  "reserve_body cfg now k fingerprint current =
     (let claim = Swap (shard_insert k (InFlight now (ic_ttl_ms cfg))
            (evict_if_needed (ic_iter cfg) (ic_cap cfg) now (ik_tenant k) (shard_remove k current))) Reserved
      in case map_of current k of
           None \<Rightarrow> claim
         | Some slot \<Rightarrow>
             if slot_expired now slot then claim
             else (case slot of
                     Done stored \<Rightarrow> Return (if sr_fingerprint stored = fingerprint then Replay stored else FingerprintMismatch)
                   | InFlight _ _ \<Rightarrow> Return AlreadyInFlight))"

definition store_body :: "u64 \<Rightarrow> idem_key \<Rightarrow> stored_response \<Rightarrow> shard_map \<Rightarrow> (shard_map, bool) attempt" where
  "store_body now k resp current =
     (case map_of current k of
        Some (InFlight _ _) \<Rightarrow> Swap (shard_insert k (Done (resp\<lparr>sr_created_at_ms := now\<rparr>)) current) True
      | _ \<Rightarrow> Return False)"

definition release_body :: "idem_key \<Rightarrow> shard_map \<Rightarrow> (shard_map, bool) attempt" where
  "release_body k current =
     (case map_of current k of
        Some (InFlight _ _) \<Rightarrow> Swap (shard_remove k current) True
      | _ \<Rightarrow> Return False)"

text \<open>The calls on a shard; \<open>StoreKey\<close> carries the response with the store's time-to-live.\<close>

datatype idem_call = ReserveKey idem_key fingerprint | StoreKey idem_key stored_response | ReleaseKey idem_key
datatype idem_result = Reserve reserve_outcome | StoreDone bool | ReleaseDone bool

fun idem_body :: "idem_config \<Rightarrow> u64 \<times> idem_call \<Rightarrow> shard_map \<Rightarrow> (shard_map, idem_result) attempt" where
  "idem_body cfg (now, ReserveKey k fp) m = map_attempt id Reserve (reserve_body cfg now k fp m)"
| "idem_body cfg (now, StoreKey k resp) m = map_attempt id StoreDone (store_body now k resp m)"
| "idem_body cfg (now, ReleaseKey k) m = map_attempt id ReleaseDone (release_body k m)"

fun call_key :: "idem_call \<Rightarrow> idem_key" where
  "call_key (ReserveKey k _) = k" | "call_key (StoreKey k _) = k" | "call_key (ReleaseKey k) = k"

section \<open>The store\<close>

definition IDEMP_SHARD_COUNT :: nat where "IDEMP_SHARD_COUNT = 64"
definition DEFAULT_IDEMPOTENCY_TTL_SECONDS :: u64 where "DEFAULT_IDEMPOTENCY_TTL_SECONDS = 24 * 60 * 60"
definition DEFAULT_MAX_ENTRIES_PER_SHARD :: nat where "DEFAULT_MAX_ENTRIES_PER_SHARD = 4096"
definition IDEMP_MAX_BODY_BYTES :: nat where "IDEMP_MAX_BODY_BYTES = 256 * 1024"

record idem_store =
  is_shards :: "shard_map list"
  is_ttl_ms :: u64
  is_max_entries_per_shard :: nat
  is_reservations :: u64
  is_replays :: u64
  is_mismatches :: u64
  is_in_flight_conflicts :: u64
  is_stored :: u64
  is_released :: u64

definition idem_with_clock :: "u64 \<Rightarrow> nat \<Rightarrow> idem_store" where
  "idem_with_clock ttl_seconds max_entries_per_shard =
     \<lparr>is_shards = replicate IDEMP_SHARD_COUNT [], is_ttl_ms = sat_mul ttl_seconds 1000,
      is_max_entries_per_shard = max max_entries_per_shard 1, is_reservations = 0, is_replays = 0,
      is_mismatches = 0, is_in_flight_conflicts = 0, is_stored = 0, is_released = 0\<rparr>"

definition idem_new :: idem_store where
  "idem_new = idem_with_clock DEFAULT_IDEMPOTENCY_TTL_SECONDS DEFAULT_MAX_ENTRIES_PER_SHARD"

definition idem_with_ttl :: "u64 \<Rightarrow> idem_store" where
  "idem_with_ttl ttl_seconds = idem_with_clock ttl_seconds DEFAULT_MAX_ENTRIES_PER_SHARD"

definition idem_ttl_seconds :: "idem_store \<Rightarrow> u64" where
  "idem_ttl_seconds st = is_ttl_ms st div 1000"

definition store_config :: "iteration \<Rightarrow> idem_store \<Rightarrow> idem_config" where
  "store_config iter st = \<lparr>ic_iter = iter, ic_ttl_ms = is_ttl_ms st, ic_cap = is_max_entries_per_shard st\<rparr>"

text \<open>A call on the shard of its key.\<close>

definition on_shard :: "sha256 \<Rightarrow> idem_key \<Rightarrow> (shard_map \<Rightarrow> (shard_map, 'r) attempt) \<Rightarrow> idem_store \<Rightarrow> 'r \<times> idem_store" where
  "on_shard sha k body st =
     (let idx = key_shard sha k; (m, out) = run_alone body (is_shards st ! idx)
      in (out, st\<lparr>is_shards := (is_shards st)[idx := m]\<rparr>))"

definition idem_reserve :: "sha256 \<Rightarrow> iteration \<Rightarrow> u64 \<Rightarrow> idem_key \<Rightarrow> fingerprint \<Rightarrow> idem_store \<Rightarrow> reserve_outcome \<times> idem_store" where
  "idem_reserve sha iter now k fingerprint st =
     (let (out, st) = on_shard sha k (reserve_body (store_config iter st) now k fingerprint) st
      in (out, case out of
            Reserved \<Rightarrow> st\<lparr>is_reservations := is_reservations st + 1\<rparr>
          | Replay _ \<Rightarrow> st\<lparr>is_replays := is_replays st + 1\<rparr>
          | FingerprintMismatch \<Rightarrow> st\<lparr>is_mismatches := is_mismatches st + 1\<rparr>
          | AlreadyInFlight \<Rightarrow> st\<lparr>is_in_flight_conflicts := is_in_flight_conflicts st + 1\<rparr>))"

definition idem_release :: "sha256 \<Rightarrow> idem_key \<Rightarrow> idem_store \<Rightarrow> idem_store" where
  "idem_release sha k st =
     (let (done, st) = on_shard sha k (release_body k) st
      in if done then st\<lparr>is_released := is_released st + 1\<rparr> else st)"

definition idem_save ::
  "sha256 \<Rightarrow> u64 \<Rightarrow> idem_key \<Rightarrow> u16 \<Rightarrow> string \<Rightarrow> string \<Rightarrow> fingerprint \<Rightarrow> string option \<Rightarrow> string option \<Rightarrow> idem_store
     \<Rightarrow> bool \<times> idem_store" where
  "idem_save sha now k status content_type body fingerprint provider request_id st =
     (if IDEMP_MAX_BODY_BYTES < length body then (False, idem_release sha k st)
      else
        let (done, st) = on_shard sha k (store_body now k
              \<lparr>sr_status = status, sr_content_type = content_type, sr_body = body, sr_fingerprint = fingerprint,
               sr_provider = provider, sr_request_id = request_id, sr_created_at_ms = now, sr_ttl_ms = is_ttl_ms st\<rparr>) st
        in (done, if done then st\<lparr>is_stored := is_stored st + 1\<rparr> else st))"

definition idem_stats :: "u64 \<Rightarrow> idem_store \<Rightarrow> nat \<times> nat" where
  "idem_stats now st =
     (let live = filter (\<lambda>e. \<not> slot_expired now (snd e)) (concat (is_shards st))
      in (length live, length (filter (\<lambda>e. case snd e of InFlight _ _ \<Rightarrow> True | Done _ \<Rightarrow> False) live)))"

section \<open>The chat handler\<close>

text \<open>The key of a request: a header value that is not visible ASCII counts as absent, but hides the
  branded header; a streamed request has none.\<close>

definition header_to_str :: "string \<Rightarrow> string option" where
  "header_to_str s = (if list_all (\<lambda>c. visible c \<or> c = CHR '' '' \<or> c = CHR 9) s then Some s else None)"

definition client_idempotency_key :: "bool \<Rightarrow> string option \<Rightarrow> string option \<Rightarrow> string option" where
  "client_idempotency_key is_stream idempotency_key branded =
     (if is_stream then None
      else case Option.bind (case idempotency_key of Some h \<Rightarrow> Some h | None \<Rightarrow> branded) header_to_str of
          Some s \<Rightarrow> (let s = trim s in if s = [] then None else Some s)
        | None \<Rightarrow> None)"

record buffered_response =
  br_status :: u16
  br_content_type :: "string option"
  br_body :: "string option"
  br_provider :: "string option"
  br_request_id :: "string option"

datatype idem_answer =
    RunPipeline
  | ReplayResponse stored_response
  | MismatchResponse
  | InFlightResponse
  | RunReserved idem_key fingerprint

text \<open>Up to the pipeline; the canonical request is given by its bytes.\<close>

definition idem_enter ::
  "sha256 \<Rightarrow> iteration \<Rightarrow> u64 \<Rightarrow> string \<Rightarrow> string option \<Rightarrow> string \<Rightarrow> idem_store \<Rightarrow> idem_answer \<times> idem_store" where
  "idem_enter sha iter now tenant_id client_key request st =
     (case client_key of
        None \<Rightarrow> (RunPipeline, st)
      | Some ck \<Rightarrow>
          (let k = \<lparr>ik_tenant = tenant_id, ik_key = ck\<rparr>; fp = sha request;
               (out, st) = idem_reserve sha iter now k fp st
           in (case out of
                 Replay stored \<Rightarrow> ReplayResponse stored
               | FingerprintMismatch \<Rightarrow> MismatchResponse
               | AlreadyInFlight \<Rightarrow> InFlightResponse
               | Reserved \<Rightarrow> RunReserved k fp, st)))"

text \<open>After the pipeline; a body that cannot be buffered is \<open>None\<close>, and so is the answer then (an
  internal error).\<close>

definition idem_finish ::
  "sha256 \<Rightarrow> u64 \<Rightarrow> idem_key \<Rightarrow> fingerprint \<Rightarrow> buffered_response \<Rightarrow> idem_store \<Rightarrow> buffered_response option \<times> idem_store" where
  "idem_finish sha now k fp resp st =
     (if 200 \<le> br_status resp \<and> br_status resp < 300 then
        (case br_body resp of
           Some body \<Rightarrow>
             (let content_type = (case br_content_type resp of Some c \<Rightarrow> c | None \<Rightarrow> ''application/json'');
                  (_, st) = idem_save sha now k (br_status resp) content_type body fp (br_provider resp) (br_request_id resp) st
              in (Some resp, st))
         | None \<Rightarrow> (None, idem_release sha k st))
      else (Some resp, idem_release sha k st))"

section \<open>Shards\<close>

lemma tenant_count_remove:
  "shard_ok m \<Longrightarrow> k \<in> fst ` set m \<Longrightarrow>
     tenant_count (shard_remove k m) t = (if t = ik_tenant k then tenant_count m t - 1 else tenant_count m t)"
proof -
  assume ok: "shard_ok m" and k: "k \<in> fst ` set m"
  let ?f = "filter (\<lambda>e. ik_tenant (fst e) = t) m"
  have s: "tenant_count (shard_remove k m) t = length (shard_remove k ?f)"
    by (simp add: tenant_count_def shard_remove_def conj_commute)
  show ?thesis
  proof (cases "t = ik_tenant k")
    case True
    then have "k \<in> fst ` set ?f" using k by auto
    then show ?thesis using s True length_shard_remove [OF shard_ok_filter [OF ok], of k "\<lambda>e. ik_tenant (fst e) = t"]
      by (simp add: tenant_count_def)
  next
    case False
    then have "k \<notin> fst ` set ?f" by auto
    from shard_remove_absent [OF this] show ?thesis using s False by (simp add: tenant_count_def)
  qed
qed

lemma tenant_count_filter: "tenant_count (filter P m) t \<le> tenant_count m t"
  by (induction m) (auto simp: tenant_count_def)

lemma tenant_count_pos: "0 < tenant_count m t \<longleftrightarrow> t \<in> (\<lambda>e. ik_tenant (fst e)) ` set m"
  by (auto simp: tenant_count_def filter_empty_conv)

text \<open>The entries of a shard, tenant by tenant.\<close>

lemma sum_tenant_count:
  assumes "finite A" "(\<lambda>e. ik_tenant (fst e)) ` set m \<subseteq> A"
  shows "(\<Sum>t\<in>A. tenant_count m t) = length m"
  using assms(2)
proof (induction m)
  case (Cons e m)
  have "tenant_count (e # m) t = (if t = ik_tenant (fst e) then 1 else 0) + tenant_count m t" for t
    by (simp add: tenant_count_def)
  then show ?case using Cons assms(1) by (simp add: sum.distrib)
qed (simp add: tenant_count_def)

section \<open>What eviction takes\<close>

text \<open>The largest holder pays, a tie going to the inserting tenant.\<close>

definition pays :: "string \<Rightarrow> shard_map \<Rightarrow> string \<Rightarrow> bool" where
  "pays inserting m victim \<longleftrightarrow>
     (\<forall>t. tenant_count m t \<le> tenant_count m victim) \<and> (victim \<noteq> inserting \<longrightarrow> tenant_count m inserting < tenant_count m victim)"

inductive evicts :: "nat \<Rightarrow> string \<Rightarrow> shard_map \<Rightarrow> shard_map \<Rightarrow> bool" for cap inserting where
  fits: "length m < cap \<Longrightarrow> evicts cap inserting m m"
| take: "cap \<le> length m \<Longrightarrow> k \<in> fst ` set m \<Longrightarrow> pays inserting m (ik_tenant k) \<Longrightarrow>
    evicts cap inserting (shard_remove k m) m' \<Longrightarrow> evicts cap inserting m m'"

lemma foldl_max:
  fixes r :: "'a \<Rightarrow> 'b::linorder"
  shows "\<forall>x\<in>set (c # cs). r x \<le> r (foldl (\<lambda>best x. if r x < r best then best else x) c cs)"
proof (induction cs arbitrary: c)
  case (Cons d cs)
  let ?b = "if r d < r c then c else d"
  have b: "r c \<le> r ?b" "r d \<le> r ?b" by auto
  have "\<forall>x\<in>set (?b # cs). r x \<le> r (foldl (\<lambda>best x. if r x < r best then best else x) ?b cs)" by (rule Cons.IH)
  then show ?case using b order_trans by (auto simp del: if_split)
qed simp

definition counts_ok :: "(string \<times> nat) list \<Rightarrow> shard_map \<Rightarrow> bool" where
  "counts_ok counts m \<longleftrightarrow>
     distinct (map fst counts) \<and> (\<forall>t n. (t, n) \<in> set counts \<longleftrightarrow> 0 < n \<and> n = tenant_count m t)"

lemma tenant_counts_ok: "counts_ok (tenant_counts m) m"
proof -
  have "map fst (tenant_counts m) = remdups (map (\<lambda>e. ik_tenant (fst e)) m)" by (simp add: tenant_counts_def comp_def)
  moreover have "(t, n) \<in> set (tenant_counts m) \<longleftrightarrow> 0 < n \<and> n = tenant_count m t" for t n
    using tenant_count_pos [of m t] by (auto simp: tenant_counts_def)
  ultimately show ?thesis by (simp add: counts_ok_def)
qed

lemma tenant_count_perm: "mset m = mset m' \<Longrightarrow> tenant_count m t = tenant_count m' t"
  unfolding tenant_count_def by (metis mset_filter size_mset)

lemma counts_ok_perm: "counts_ok counts m \<Longrightarrow> mset m = mset m' \<Longrightarrow> counts_ok counts m'"
  using tenant_count_perm [of m m'] by (simp add: counts_ok_def)

lemma victim_pays:
  assumes "counts_ok counts m" "eviction_victim counts inserting = Some v"
  shows "pays inserting m v" "0 < tenant_count m v"
proof -
  obtain c cs where c: "counts = c # cs" using assms(2) by (cases counts) (auto simp: eviction_victim_def)
  let ?r = "victim_rank inserting"
  define b where "b = foldl (\<lambda>best x. if ?r x < ?r best then best else x) c cs"
  have b: "b \<in> set counts" "fst b = v" "\<forall>x\<in>set counts. ?r x \<le> ?r b"
    using assms(2) foldl_member [of ?r c cs] foldl_max [of c cs ?r] by (simp_all add: c b_def eviction_victim_def)
  then have "(v, snd b) \<in> set counts" by (metis prod.collapse)
  then have n: "snd b = tenant_count m v" "0 < tenant_count m v" using assms(1) by (auto simp: counts_ok_def)
  have le: "?r (t, tenant_count m t) \<le> ?r b" if "0 < tenant_count m t" for t
    using assms(1) b(3) that by (simp add: counts_ok_def)
  show "0 < tenant_count m v" by (rule n(2))
  have "tenant_count m t \<le> tenant_count m v" for t
    using le [of t] n b(2) by (cases "0 < tenant_count m t") (auto simp: victim_rank_def less_eq_prod_def)
  moreover have "tenant_count m inserting < tenant_count m v" if "v \<noteq> inserting"
    using le [of inserting] n b(2) that
    by (cases "0 < tenant_count m inserting") (auto simp: victim_rank_def less_eq_prod_def)
  ultimately show "pays inserting m v" by (simp add: pays_def)
qed

lemma counts_drop_ok:
  assumes "counts_ok counts m" "shard_ok m" "k \<in> fst ` set m"
  shows "counts_ok (counts_drop (ik_tenant k) counts) (shard_remove k m)"
proof -
  let ?v = "ik_tenant k"
  have pos: "0 < tenant_count m ?v" using assms(3) by (auto simp: tenant_count_pos)
  then have "(?v, tenant_count m ?v) \<in> set counts" using assms(1) by (simp add: counts_ok_def)
  then have r: "map_of counts ?v = Some (tenant_count m ?v)" using assms(1) by (simp add: counts_ok_def)
  have d: "distinct (map fst (counts_remove ?v counts))" "?v \<notin> fst ` set (counts_remove ?v counts)"
    using assms(1) by (auto simp: counts_ok_def counts_remove_def distinct_map intro: inj_on_subset)
  then have "distinct (map fst (counts_drop ?v counts))" by (simp add: counts_drop_def r Let_def)
  moreover have "(t, n) \<in> set (counts_drop ?v counts) \<longleftrightarrow> 0 < n \<and> n = tenant_count (shard_remove k m) t" for t n
    using assms(1) pos
    by (auto simp: counts_drop_def r Let_def tenant_count_remove [OF assms(2,3)] counts_remove_def counts_ok_def split: if_splits)
  ultimately show ?thesis by (simp add: counts_ok_def)
qed

lemma evict_loop_evicts:
  assumes "1 \<le> cap" "shard_ok m" "counts_ok counts m" "mset (map fst oldest) = mset (map fst m)"
  shows "evicts cap inserting m (evict_loop cap inserting counts oldest m)"
  using assms
proof (induction "length m" arbitrary: m counts oldest)
  case 0
  then show ?case by (subst evict_loop.simps) (simp add: evicts.fits)
next
  case (Suc n)
  show ?case
  proof (cases "length m < cap")
    case True
    then show ?thesis by (subst evict_loop.simps) (simp add: evicts.fits)
  next
    case False
    obtain e0 where e0: "e0 \<in> set m" using Suc.hyps(2) by (cases m) auto
    then have "0 < tenant_count m (ik_tenant (fst e0))" by (auto simp: tenant_count_pos)
    then have "(ik_tenant (fst e0), tenant_count m (ik_tenant (fst e0))) \<in> set counts"
      using Suc.prems(3) by (simp add: counts_ok_def)
    then obtain v where v: "eviction_victim counts inserting = Some v"
      by (cases counts) (auto simp: eviction_victim_def)
    note p = victim_pays [OF Suc.prems(3) v]
    have keys: "fst ` set oldest = fst ` set m" using mset_eq_setD [OF Suc.prems(4)] unfolding set_map .
    obtain e1 where e1: "e1 \<in> set m" "ik_tenant (fst e1) = v" using p(2) unfolding tenant_count_pos by blast
    then have "fst e1 \<in> fst ` set oldest" unfolding keys by blast
    then obtain x where "x \<in> set oldest" "fst x = fst e1" by fastforce
    then have "\<exists>x\<in>set oldest. ik_tenant (fst x) = v" using e1(2) by (intro bexI [of _ x]) simp_all
    then obtain e where e: "find (\<lambda>e. ik_tenant (fst e) = v) oldest = Some e"
      by (cases "find (\<lambda>e. ik_tenant (fst e) = v) oldest") (auto simp: find_None_iff)
    then have e': "e \<in> set oldest" "ik_tenant (fst e) = v" using find_member [OF e] by simp_all
    then have k: "fst e \<in> fst ` set m" using keys by blast
    have o: "mset (map fst (remove1 e oldest)) = mset (map fst (shard_remove (fst e) m))"
    proof -
      have "mset oldest = add_mset e (mset (remove1 e oldest))" using e'(1) by simp
      then have "mset (map fst oldest) = add_mset (fst e) (mset (map fst (remove1 e oldest)))"
        unfolding mset_map by (simp only: image_mset_add_mset)
      then show ?thesis using shard_remove_mset [OF Suc.prems(2) k] Suc.prems(4) by simp
    qed
    have n: "n = length (shard_remove (fst e) m)" using length_shard_remove [OF Suc.prems(2) k] Suc.hyps(2) by simp
    have c: "counts_ok (counts_drop v counts) (shard_remove (fst e) m)"
      using counts_drop_ok [OF Suc.prems(3,2) k] unfolding e'(2) .
    have "evicts cap inserting (shard_remove (fst e) m)
        (evict_loop cap inserting (counts_drop v counts) (remove1 e oldest) (shard_remove (fst e) m))"
      by (rule Suc.hyps(1) [OF n Suc.prems(1) shard_ok_remove [OF Suc.prems(2)] c o])
    then have "evicts cap inserting m
        (evict_loop cap inserting (counts_drop v counts) (remove1 e oldest) (shard_remove (fst e) m))"
      by (rule evicts.take [rotated -1]) (use False k p(1) e'(2) in simp_all)
    then show ?thesis using False v e by (subst evict_loop.simps) simp
  qed
qed

lemma evicts_bounded: "evicts cap inserting m m' \<Longrightarrow> length m' < cap"
  by (induction rule: evicts.induct) auto

lemma evicts_subset: "evicts cap inserting m m' \<Longrightarrow> set m' \<subseteq> set m \<and> (shard_ok m \<longrightarrow> shard_ok m')"
  by (induction rule: evicts.induct) (auto simp: shard_remove_def shard_ok_remove [unfolded shard_remove_def])

text \<open>A tenant within its equal share of the shard does not pay for another tenant's insertion.\<close>

lemma share_not_victim:
  assumes "finite A" "(\<lambda>e. ik_tenant (fst e)) ` set m \<subseteq> A" "inserting \<in> A" "v \<noteq> inserting" "v \<in> A"
    and "card A * tenant_count m v \<le> cap" "cap \<le> length m"
  shows "\<not> pays inserting m v"
proof
  assume p: "pays inserting m v"
  have "length m = (\<Sum>t\<in>A. tenant_count m t)" using sum_tenant_count [OF assms(1,2)] by simp
  also have "\<dots> < (\<Sum>t\<in>A. tenant_count m v)"
    by (rule sum_strict_mono_ex1) (use p assms(1,3,4) in \<open>auto simp: pays_def\<close>)
  also have "\<dots> = card A * tenant_count m v" by simp
  finally show False using assms(6,7) by simp
qed

lemma evicts_keeps_share:
  assumes "evicts cap inserting m m'" "finite A" "(\<lambda>e. ik_tenant (fst e)) ` set m \<subseteq> A" "inserting \<in> A"
    and "v \<noteq> inserting" "v \<in> A" "card A * tenant_count m v \<le> cap" "shard_ok m" "ik_tenant k = v"
  shows "map_of m' k = map_of m k"
  using assms(1,3,7,8)
proof (induction rule: evicts.induct)
  case (take m k' m')
  have "ik_tenant k' \<noteq> v"
    using share_not_victim [OF assms(2) take.prems(1) assms(4-6) take.prems(2) take.hyps(1)] take.hyps(3) by auto
  moreover have "tenant_count (shard_remove k' m) v \<le> tenant_count m v"
    unfolding shard_remove_def by (rule tenant_count_filter)
  then have "card A * tenant_count (shard_remove k' m) v \<le> cap"
    using take.prems(2) mult_le_mono2 order_trans by blast
  moreover have "(\<lambda>e. ik_tenant (fst e)) ` set (shard_remove k' m) \<subseteq> A" using take.prems(1) by (auto simp: shard_remove_def)
  ultimately show ?case using take.IH shard_ok_remove [OF take.prems(3)] assms(9) by auto
qed simp

lemma evict_if_needed_cases:
  assumes "iter_ok iter" "1 \<le> cap" "shard_ok m"
  shows "evict_if_needed iter cap now inserting m = m \<and> length m < cap \<or>
    evicts cap inserting (filter (\<lambda>e. \<not> slot_expired now (snd e)) m) (evict_if_needed iter cap now inserting m)"
proof (cases "length m < cap")
  case True
  then show ?thesis by (simp add: evict_if_needed_def)
next
  case False
  let ?m = "filter (\<lambda>e. \<not> slot_expired now (snd e)) m"
  have ok: "shard_ok ?m" by (rule shard_ok_filter [OF assms(3)])
  have i: "mset (iter ?m) = mset ?m" using assms(1) by (simp add: iter_ok_def)
  have "mset (map fst (sort_key snd (map (\<lambda>(k, s). (k, slot_created_at_ms s)) (iter ?m)))) = mset (map fst ?m)"
    unfolding mset_map mset_sort i by (simp add: image_mset.compositionality comp_def case_prod_beta)
  then have "evicts cap inserting ?m (evict_loop cap inserting (tenant_counts (iter ?m))
      (sort_key snd (map (\<lambda>(k, s). (k, slot_created_at_ms s)) (iter ?m))) ?m)"
    using evict_loop_evicts [OF assms(2) ok counts_ok_perm [OF tenant_counts_ok i]] by simp
  then show ?thesis using False by (auto simp: evict_if_needed_def Let_def intro: evicts.fits)
qed

section \<open>What a call keeps\<close>

definition idem_config_ok :: "idem_config \<Rightarrow> bool" where
  "idem_config_ok cfg \<longleftrightarrow> iter_ok (ic_iter cfg) \<and> 1 \<le> ic_cap cfg"

definition bounded_shard :: "nat \<Rightarrow> shard_map \<Rightarrow> bool" where
  "bounded_shard cap m \<longleftrightarrow> shard_ok m \<and> length m \<le> cap"

lemma shard_remove_length: "length (shard_remove k m) \<le> length m"
  by (simp add: shard_remove_def)

lemma shard_insert_length:
  "shard_ok m \<Longrightarrow> map_of m k \<noteq> None \<Longrightarrow> length (shard_insert k s m) = length m"
  using length_shard_remove [of m k] by (force simp: shard_insert_def dest: map_of_SomeD)

text \<open>The map a reservation swaps in.\<close>

definition claimed :: "idem_config \<Rightarrow> u64 \<Rightarrow> idem_key \<Rightarrow> shard_map \<Rightarrow> shard_map" where
  "claimed cfg now k m = shard_insert k (InFlight now (ic_ttl_ms cfg))
     (evict_if_needed (ic_iter cfg) (ic_cap cfg) now (ik_tenant k) (shard_remove k m))"

lemma evicted_ok:
  assumes "idem_config_ok cfg" "shard_ok m"
  shows "shard_ok (evict_if_needed (ic_iter cfg) (ic_cap cfg) now t m)"
    "length (evict_if_needed (ic_iter cfg) (ic_cap cfg) now t m) < ic_cap cfg"
    "set (evict_if_needed (ic_iter cfg) (ic_cap cfg) now t m) \<subseteq> set m"
  using evict_if_needed_cases [of "ic_iter cfg" "ic_cap cfg" m now t] assms evicts_bounded
    evicts_subset [of "ic_cap cfg" t "filter (\<lambda>e. \<not> slot_expired now (snd e)) m"
      "evict_if_needed (ic_iter cfg) (ic_cap cfg) now t m"] shard_ok_filter [OF assms(2)]
  by (auto simp: idem_config_ok_def)

lemma bounded_claimed:
  assumes "idem_config_ok cfg" "bounded_shard (ic_cap cfg) m"
  shows "bounded_shard (ic_cap cfg) (claimed cfg now k m)"
proof -
  have ok: "shard_ok (shard_remove k m)" using assms(2) by (simp add: bounded_shard_def shard_ok_remove)
  show ?thesis using evicted_ok [OF assms(1) ok, of now "ik_tenant k"]
      shard_remove_length [of k "evict_if_needed (ic_iter cfg) (ic_cap cfg) now (ik_tenant k) (shard_remove k m)"]
    by (simp add: bounded_shard_def claimed_def shard_ok_insert) (simp add: shard_insert_def)
qed

lemma idem_body_cases:
  assumes "idem_body cfg (now, c) m = Swap m' r"
  obtains (claim) k fp where "c = ReserveKey k fp" "r = Reserve Reserved" "m' = claimed cfg now k m"
      "\<And>s. map_of m k = Some s \<Longrightarrow> slot_expired now s"
  | (save) k resp t0 t1 where "c = StoreKey k resp" "r = StoreDone True" "map_of m k = Some (InFlight t0 t1)"
      "m' = shard_insert k (Done (resp\<lparr>sr_created_at_ms := now\<rparr>)) m"
  | (free) k t0 t1 where "c = ReleaseKey k" "r = ReleaseDone True" "map_of m k = Some (InFlight t0 t1)"
      "m' = shard_remove k m"
  using assms that
  by (cases c) (auto simp: reserve_body_def store_body_def release_body_def claimed_def Let_def
      split: option.splits idem_slot.splits if_splits)

lemma idem_body_bounded:
  assumes "idem_config_ok cfg" "bounded_shard (ic_cap cfg) m" "idem_body cfg (now, c) m = Swap m' r"
  shows "bounded_shard (ic_cap cfg) m'"
  using assms(3)
proof (cases rule: idem_body_cases)
  case (claim k fp)
  then show ?thesis using bounded_claimed [OF assms(1,2)] by simp
next
  case (save k resp t0 t1)
  then show ?thesis using assms(2) shard_insert_length [of m k] shard_ok_insert by (auto simp: bounded_shard_def)
next
  case (free k t0 t1)
  then show ?thesis using assms(2) shard_ok_remove shard_remove_length [of k m] by (auto simp: bounded_shard_def)
qed

text \<open>The family of loops on one shard: its entries are unique and within the cap, in every interleaving.\<close>

interpretation shards: cas_family "\<lambda>(n :: nat, call). idem_body cfg call" "\<lambda>m. idem_config_ok cfg \<longrightarrow> bounded_shard (ic_cap cfg) m" for cfg
  by unfold_locales (auto intro: idem_body_bounded split: prod.splits)

section \<open>Entries survive\<close>

lemma tenant_count_subset:
  assumes "shard_ok m" "shard_ok m'" "set m' \<subseteq> set m"
  shows "tenant_count m' t \<le> tenant_count m t"
proof -
  have "distinct m" "distinct m'" using assms(1,2) by (auto simp: shard_ok_def distinct_map)
  have d: "tenant_count x t = card (set (filter (\<lambda>e. ik_tenant (fst e) = t) x))" if "distinct x" for x
    unfolding tenant_count_def by (rule distinct_card [symmetric]) (simp add: that)
  show ?thesis unfolding d [OF \<open>distinct m\<close>] d [OF \<open>distinct m'\<close>] using assms(3) by (intro card_mono) auto
qed

text \<open>The tenants of a shard are among \<open>A\<close>, and the entries of \<open>v\<close>, \<open>extra\<close> more counted, within its equal share.\<close>

definition within_share :: "string set \<Rightarrow> nat \<Rightarrow> string \<Rightarrow> nat \<Rightarrow> shard_map \<Rightarrow> bool" where
  "within_share A cap v extra m \<longleftrightarrow>
     finite A \<and> v \<in> A \<and> (\<lambda>e. ik_tenant (fst e)) ` set m \<subseteq> A \<and> card A * (tenant_count m v + extra) \<le> cap"

lemma within_share_mono:
  assumes "within_share A cap v extra m" "shard_ok m" "shard_ok m'" "set m' \<subseteq> set m"
  shows "within_share A cap v extra m'"
proof -
  have "card A * (tenant_count m' v + extra) \<le> card A * (tenant_count m v + extra)"
    using tenant_count_subset [OF assms(2-4), of v] by simp
  then show ?thesis using assms(1,4) unfolding within_share_def by (meson image_mono order_trans)
qed

lemma tenant_count_insert:
  "tenant_count (shard_insert k s m) t = (if t = ik_tenant k then 1 else 0) + tenant_count (shard_remove k m) t"
  by (simp add: tenant_count_def shard_insert_def)

text \<open>A call for a key of another tenant.\<close>

lemma foreign_claim:
  assumes cfg: "idem_config_ok cfg" and m: "shard_ok m" and share: "within_share A (ic_cap cfg) (ik_tenant k) extra m"
    and k': "ik_tenant k' \<in> A" "ik_tenant k' \<noteq> ik_tenant k"
  shows "within_share A (ic_cap cfg) (ik_tenant k) extra (claimed cfg now k' m)"
    and "map_of m k = Some s \<Longrightarrow> \<not> slot_expired now s \<Longrightarrow> map_of (claimed cfg now k' m) k = Some s"
proof -
  let ?m = "shard_remove k' m"
  let ?e = "evict_if_needed (ic_iter cfg) (ic_cap cfg) now (ik_tenant k') ?m"
  have ok: "shard_ok ?m" by (rule shard_ok_remove [OF m])
  have sub: "set ?m \<subseteq> set m" by (auto simp: shard_remove_def)
  note e = evicted_ok [OF cfg ok, of now "ik_tenant k'"]
  have r: "shard_ok (shard_remove k' ?e)" "set (shard_remove k' ?e) \<subseteq> set ?e"
    using shard_ok_remove [OF e(1)] by (auto simp: shard_remove_def)
  have "within_share A (ic_cap cfg) (ik_tenant k) extra (shard_remove k' ?e)"
    using within_share_mono [OF share m r(1)] r(2) e(3) sub by blast
  then show "within_share A (ic_cap cfg) (ik_tenant k) extra (claimed cfg now k' m)"
    using k' by (auto simp: within_share_def claimed_def tenant_count_insert) (auto simp: shard_insert_def)
  assume s: "map_of m k = Some s" "\<not> slot_expired now s"
  have ne: "k' \<noteq> k" using k' by auto
  have km: "map_of ?m k = Some s" using s ne by simp
  have "map_of ?e k = Some s"
  proof (rule evict_if_needed_cases [of "ic_iter cfg" "ic_cap cfg" ?m now "ik_tenant k'", THEN disjE])
    show "iter_ok (ic_iter cfg)" "1 \<le> ic_cap cfg" using cfg by (simp_all add: idem_config_ok_def)
    show "shard_ok ?m" by (rule ok)
    assume "?e = ?m \<and> length ?m < ic_cap cfg"
    then show ?thesis using km by simp
  next
    let ?live = "filter (\<lambda>e. \<not> slot_expired now (snd e)) ?m"
    assume ev: "evicts (ic_cap cfg) (ik_tenant k') ?live ?e"
    have lok: "shard_ok ?live" by (rule shard_ok_filter [OF ok])
    have lsub: "set ?live \<subseteq> set m" using sub by auto
    have "(k, s) \<in> set ?live" using map_of_SomeD [OF km] s(2) by simp
    then have live: "map_of ?live k = Some s" using lok by (simp add: shard_ok_def)
    have w: "within_share A (ic_cap cfg) (ik_tenant k) extra ?live" by (rule within_share_mono [OF share m lok lsub])
    have "card A * tenant_count ?live (ik_tenant k) \<le> card A * (tenant_count ?live (ik_tenant k) + extra)"
      by (rule mult_le_mono2) simp
    then have "card A * tenant_count ?live (ik_tenant k) \<le> ic_cap cfg" using w unfolding within_share_def by linarith
    then have "map_of ?e k = map_of ?live k"
      using evicts_keeps_share [OF ev, of A "ik_tenant k" k] w k' lok by (auto simp: within_share_def)
    then show ?thesis using live by simp
  qed
  then show "map_of (claimed cfg now k' m) k = Some s" using ne by (simp add: claimed_def)
qed

lemma foreign_call_keeps:
  assumes cfg: "idem_config_ok cfg" and m: "bounded_shard (ic_cap cfg) m"
    and share: "within_share A (ic_cap cfg) (ik_tenant k) extra m"
    and c: "ik_tenant (call_key c) \<in> A" "ik_tenant (call_key c) \<noteq> ik_tenant k"
    and body: "idem_body cfg (now, c) m = Swap m' r"
  shows "within_share A (ic_cap cfg) (ik_tenant k) extra m'"
    and "map_of m k = Some s \<Longrightarrow> \<not> slot_expired now s \<Longrightarrow> map_of m' k = Some s"
proof -
  have ok: "shard_ok m" using m by (simp add: bounded_shard_def)
  have "within_share A (ic_cap cfg) (ik_tenant k) extra m' \<and>
    (map_of m k = Some s \<longrightarrow> \<not> slot_expired now s \<longrightarrow> map_of m' k = Some s)"
    using body
  proof (cases rule: idem_body_cases)
    case (claim k' fp)
    then show ?thesis using foreign_claim [OF cfg ok share, of k'] c by auto
  next
    case (save k' resp t0 t1)
    have k': "ik_tenant k' \<in> A" "ik_tenant k' \<noteq> ik_tenant k" using save c by auto
    have sub: "set (shard_remove k' m) \<subseteq> set m" by (auto simp: shard_remove_def)
    from within_share_mono [OF share ok shard_ok_remove [OF ok] this] k' save(4) show ?thesis
      by (auto simp: within_share_def tenant_count_insert) (auto simp: shard_insert_def)
  next
    case (free k' t0 t1)
    have "set (shard_remove k' m) \<subseteq> set m" by (auto simp: shard_remove_def)
    from within_share_mono [OF share ok shard_ok_remove [OF ok] this] free c show ?thesis by auto
  qed
  then show "within_share A (ic_cap cfg) (ik_tenant k) extra m'"
    and "map_of m k = Some s \<Longrightarrow> \<not> slot_expired now s \<Longrightarrow> map_of m' k = Some s" by auto
qed

text \<open>Any sequence of such calls.\<close>

definition foreign_to :: "string set \<Rightarrow> idem_key \<Rightarrow> idem_slot \<Rightarrow> u64 \<times> idem_call \<Rightarrow> bool" where
  "foreign_to A k s x \<longleftrightarrow>
     ik_tenant (call_key (snd x)) \<in> A \<and> ik_tenant (call_key (snd x)) \<noteq> ik_tenant k \<and> \<not> slot_expired (fst x) s"

lemma foreign_run_keeps:
  assumes "idem_config_ok cfg" "bounded_shard (ic_cap cfg) m" "within_share A (ic_cap cfg) (ik_tenant k) extra m"
    and "map_of m k = Some s" "\<forall>x\<in>set cs. foreign_to A k s x"
  shows "map_of (fst (run_all (idem_body cfg) m cs)) k = Some s"
  using assms(2-5)
proof (induction cs arbitrary: m)
  case (Cons x cs)
  obtain now c where x: "x = (now, c)" by fastforce
  have c: "ik_tenant (call_key c) \<in> A" "ik_tenant (call_key c) \<noteq> ik_tenant k" "\<not> slot_expired now s"
    using Cons.prems(4) x by (auto simp: foreign_to_def)
  let ?m = "fst (run_alone (idem_body cfg x) m)"
  have "bounded_shard (ic_cap cfg) ?m \<and> within_share A (ic_cap cfg) (ik_tenant k) extra ?m \<and> map_of ?m k = Some s"
  proof (cases "idem_body cfg (now, c) m")
    case (Swap m' r)
    then show ?thesis
      using foreign_call_keeps [OF assms(1) Cons.prems(1,2) c(1,2) Swap] idem_body_bounded [OF assms(1) Cons.prems(1) Swap]
        Cons.prems(3) c(3) x by simp
  next
    case (Return r)
    then show ?thesis using Cons.prems x by simp
  qed
  then show ?case using Cons.IH [of ?m] Cons.prems(4) by (simp add: Let_def case_prod_beta del: run_alone.simps)
qed simp

lemma reserve_done:
  "map_of m k = Some (Done r) \<Longrightarrow> \<not> slot_expired now (Done r) \<Longrightarrow>
     run_alone (idem_body cfg (now, ReserveKey k fp)) m =
       (m, Reserve (if sr_fingerprint r = fp then Replay r else FingerprintMismatch))"
  by (simp add: reserve_body_def Let_def)

lemma reserve_in_flight:
  "map_of m k = Some (InFlight t0 ttl) \<Longrightarrow> \<not> slot_expired now (InFlight t0 ttl) \<Longrightarrow>
     run_alone (idem_body cfg (now, ReserveKey k fp)) m = (m, Reserve AlreadyInFlight)"
  by (simp add: reserve_body_def Let_def)

lemma reserve_free:
  "(\<And>s. map_of m k = Some s \<Longrightarrow> slot_expired now s) \<Longrightarrow>
     run_alone (idem_body cfg (now, ReserveKey k fp)) m = (claimed cfg now k m, Reserve Reserved)"
  by (auto simp: reserve_body_def claimed_def Let_def split: option.split)

section \<open>One holder at a time\<close>

text \<open>Calls that reserve \<open>k\<close>, or are for a key of another tenant of \<open>A\<close>.\<close>

definition contender :: "string set \<Rightarrow> idem_key \<Rightarrow> idem_call \<Rightarrow> bool" where
  "contender A k c \<longleftrightarrow> (\<exists>fp. c = ReserveKey k fp) \<or> ik_tenant (call_key c) \<in> A - {ik_tenant k}"

definition wins :: "idem_key \<Rightarrow> idem_call \<Rightarrow> idem_result \<Rightarrow> bool" where
  "wins k c r \<longleftrightarrow> (\<exists>fp. c = ReserveKey k fp) \<and> r = Reserve Reserved"

lemma contender_step:
  assumes "idem_config_ok cfg" "bounded_shard (ic_cap cfg) m" "within_share A (ic_cap cfg) (ik_tenant k) extra m"
    and "contender A k c" "run_alone (idem_body cfg (now, c)) m = (m', r)" "\<not> wins k c r"
  shows "bounded_shard (ic_cap cfg) m'" "within_share A (ic_cap cfg) (ik_tenant k) extra m'"
    and "map_of m k = Some s \<Longrightarrow> \<not> slot_expired now s \<Longrightarrow> map_of m' k = Some s"
proof -
  have "bounded_shard (ic_cap cfg) m' \<and> within_share A (ic_cap cfg) (ik_tenant k) extra m' \<and>
    (map_of m k = Some s \<longrightarrow> \<not> slot_expired now s \<longrightarrow> map_of m' k = Some s)"
  proof (cases "idem_body cfg (now, c) m")
    case (Return q)
    then show ?thesis using assms by simp
  next
    case (Swap m1 q)
    then have q: "m1 = m'" "q = r" using assms(5) by simp_all
    have "\<nexists>fp. c = ReserveKey k fp"
      using Swap assms(6) q by (auto simp: wins_def reserve_body_def Let_def split: option.splits idem_slot.splits if_splits)
    then have c: "ik_tenant (call_key c) \<in> A" "ik_tenant (call_key c) \<noteq> ik_tenant k" using assms(4) by (auto simp: contender_def)
    show ?thesis
      using foreign_call_keeps [OF assms(1-3) c Swap] idem_body_bounded [OF assms(1,2) Swap] q by auto
  qed
  then show "bounded_shard (ic_cap cfg) m'" "within_share A (ic_cap cfg) (ik_tenant k) extra m'"
    "map_of m k = Some s \<Longrightarrow> \<not> slot_expired now s \<Longrightarrow> map_of m' k = Some s" by auto
qed

text \<open>While a reservation is live nobody else wins.\<close>

lemma no_second_winner:
  assumes "idem_config_ok cfg" "bounded_shard (ic_cap cfg) m" "within_share A (ic_cap cfg) (ik_tenant k) extra m"
    and "map_of m k = Some (InFlight t0 ttl)"
    and "\<forall>t\<in>set ts. contender A k (snd (f t)) \<and> \<not> slot_expired (fst (f t)) (InFlight t0 ttl)"
    and "run_all (\<lambda>t. idem_body cfg (f t)) m ts = (m', rs)"
  shows "filter (\<lambda>(t, r). wins k (snd (f t)) r) (zip ts rs) = []"
  using assms(2-6)
proof (induction ts arbitrary: m rs)
  case (Cons t ts)
  obtain now c where c: "f t = (now, c)" by fastforce
  obtain m1 r where r: "run_alone (idem_body cfg (now, c)) m = (m1, r)" by fastforce
  obtain rs' where rs: "rs = r # rs'" "run_all (\<lambda>t. idem_body cfg (f t)) m1 ts = (m', rs')"
    using Cons.prems(5) c r by (auto simp: Let_def case_prod_beta simp del: run_alone.simps)
  have live: "\<not> slot_expired now (InFlight t0 ttl)" "contender A k c" using Cons.prems(4) c by auto
  have w: "\<not> wins k c r"
    using r reserve_in_flight [OF Cons.prems(3) live(1)] by (auto simp: wins_def simp del: run_alone.simps)
  note s = contender_step [OF assms(1) Cons.prems(1,2) live(2) r w]
  have "filter (\<lambda>(t, r). wins k (snd (f t)) r) (zip ts rs') = []"
    by (rule Cons.IH [OF s(1,2) s(3) [OF Cons.prems(3) live(1)] _ rs(2)]) (use Cons.prems(4) in simp)
  then show ?case using rs(1) w c by simp
qed simp

lemma one_winner:
  assumes "idem_config_ok cfg" "bounded_shard (ic_cap cfg) m" "within_share A (ic_cap cfg) (ik_tenant k) 1 m"
    and "\<forall>t\<in>set ts. contender A k (snd (f t))"
    and "\<forall>t\<in>set ts. \<forall>u\<in>set ts. \<not> slot_expired (fst (f t)) (InFlight (fst (f u)) (ic_ttl_ms cfg))"
    and "run_all (\<lambda>t. idem_body cfg (f t)) m ts = (m', rs)"
  shows "length (filter (\<lambda>(t, r). wins k (snd (f t)) r) (zip ts rs)) \<le> 1"
  using assms(2-6)
proof (induction ts arbitrary: m rs)
  case (Cons t ts)
  obtain now c where c: "f t = (now, c)" by fastforce
  obtain m1 r where r: "run_alone (idem_body cfg (now, c)) m = (m1, r)" by fastforce
  obtain rs' where rs: "rs = r # rs'" "run_all (\<lambda>t. idem_body cfg (f t)) m1 ts = (m', rs')"
    using Cons.prems(5) c r by (auto simp: Let_def case_prod_beta simp del: run_alone.simps)
  have ct: "contender A k c" using Cons.prems(3) c by auto
  show ?case
  proof (cases "wins k c r")
    case False
    note s = contender_step [OF assms(1) Cons.prems(1,2) ct r False]
    have "length (filter (\<lambda>(t, r). wins k (snd (f t)) r) (zip ts rs')) \<le> 1"
      by (rule Cons.IH [OF s(1,2) _ _ rs(2)]) (use Cons.prems(3,4) in auto)
    then show ?thesis using rs(1) False c by simp
  next
    case True
    then obtain fp where fp: "c = ReserveKey k fp" "r = Reserve Reserved" by (auto simp: wins_def)
    have "idem_body cfg (now, c) m \<noteq> Return r" using fp
      by (auto simp: reserve_body_def Let_def split: option.splits idem_slot.splits if_splits)
    then have sw: "idem_body cfg (now, c) m = Swap m1 r" using r by (cases "idem_body cfg (now, c) m") auto
    then have m1: "m1 = claimed cfg now k m" using fp by (cases rule: idem_body_cases) auto
    have ok: "shard_ok m" using Cons.prems(1) by (simp add: bounded_shard_def)
    have b1: "bounded_shard (ic_cap cfg) m1" using bounded_claimed [OF assms(1) Cons.prems(1)] m1 by simp
    let ?e = "evict_if_needed (ic_iter cfg) (ic_cap cfg) now (ik_tenant k) (shard_remove k m)"
    note e = evicted_ok [OF assms(1) shard_ok_remove [OF ok], of now "ik_tenant k" k]
    have "set (shard_remove k ?e) \<subseteq> set m" using e(3) by (auto simp: shard_remove_def)
    from within_share_mono [OF Cons.prems(2) ok shard_ok_remove [OF e(1)] this]
    have share: "within_share A (ic_cap cfg) (ik_tenant k) 0 m1"
      by (auto simp: within_share_def m1 claimed_def tenant_count_insert) (auto simp: shard_insert_def)
    have live: "map_of m1 k = Some (InFlight now (ic_ttl_ms cfg))" by (simp add: m1 claimed_def)
    have "filter (\<lambda>(t, r). wins k (snd (f t)) r) (zip ts rs') = []"
      by (rule no_second_winner [OF assms(1) b1 share live _ rs(2)]) (use Cons.prems(3,4) c in auto)
    then show ?thesis using rs(1) by simp
  qed
qed simp

section \<open>A request and its retry\<close>

definition idem_store_ok :: "sha256 \<Rightarrow> idem_store \<Rightarrow> bool" where
  "idem_store_ok sha st \<longleftrightarrow> length (is_shards st) = IDEMP_SHARD_COUNT \<and> 1 \<le> is_max_entries_per_shard st"

lemma key_shard_less: "idem_store_ok sha st \<Longrightarrow> key_shard sha k < length (is_shards st)"
proof -
  have "unat (drop_bit 2 w) < 64" for w :: "8 word"
  proof -
    have "unat w < 2 ^ LENGTH(8)" by (rule unsigned_less)
    then show ?thesis by (simp add: drop_bit_eq_div unat_div less_mult_imp_div_less)
  qed
  then show "idem_store_ok sha st \<Longrightarrow> key_shard sha k < length (is_shards st)"
    by (simp add: idem_store_ok_def key_shard_def IDEMP_SHARD_COUNT_def)
qed

definition slot_of :: "sha256 \<Rightarrow> idem_store \<Rightarrow> idem_key \<Rightarrow> idem_slot option" where
  "slot_of sha st k = map_of (is_shards st ! key_shard sha k) k"

lemma on_shard_slot:
  assumes "idem_store_ok sha st" "run_alone body (is_shards st ! key_shard sha k) = (m, out)"
  shows "fst (on_shard sha k body st) = out" "slot_of sha (snd (on_shard sha k body st)) k = map_of m k"
    "idem_store_ok sha (snd (on_shard sha k body st))" "is_ttl_ms (snd (on_shard sha k body st)) = is_ttl_ms st"
  using key_shard_less [OF assms(1), of k] assms by (simp_all add: on_shard_def slot_of_def idem_store_ok_def)

lemma enter_outcomes:
  fixes tenant ck :: string
  assumes "idem_store_ok sha st"
  defines "k \<equiv> \<lparr>ik_tenant = tenant, ik_key = ck\<rparr>"
  shows "\<forall>s. slot_of sha st k = Some s \<longrightarrow> slot_expired now s \<Longrightarrow>
      fst (idem_enter sha iter now tenant (Some ck) request st) = RunReserved k (sha request) \<and>
      slot_of sha (snd (idem_enter sha iter now tenant (Some ck) request st)) k = Some (InFlight now (is_ttl_ms st))"
    and "slot_of sha st k = Some (Done r) \<Longrightarrow> \<not> slot_expired now (Done r) \<Longrightarrow>
      fst (idem_enter sha iter now tenant (Some ck) request st) =
        (if sr_fingerprint r = sha request then ReplayResponse r else MismatchResponse)"
    and "slot_of sha st k = Some (InFlight t0 ttl) \<Longrightarrow> \<not> slot_expired now (InFlight t0 ttl) \<Longrightarrow>
      fst (idem_enter sha iter now tenant (Some ck) request st) = InFlightResponse"
    and "idem_store_ok sha (snd (idem_enter sha iter now tenant (Some ck) request st))"
    and "is_ttl_ms (snd (idem_enter sha iter now tenant (Some ck) request st)) = is_ttl_ms st"
proof -
  let ?m = "is_shards st ! key_shard sha k" and ?body = "reserve_body (store_config iter st) now k (sha request)"
  have e: "idem_enter sha iter now tenant (Some ck) request st =
      (let (out, st') = on_shard sha k ?body st;
           st' = (case out of
              Reserved \<Rightarrow> st'\<lparr>is_reservations := is_reservations st' + 1\<rparr>
            | Replay _ \<Rightarrow> st'\<lparr>is_replays := is_replays st' + 1\<rparr>
            | FingerprintMismatch \<Rightarrow> st'\<lparr>is_mismatches := is_mismatches st' + 1\<rparr>
            | AlreadyInFlight \<Rightarrow> st'\<lparr>is_in_flight_conflicts := is_in_flight_conflicts st' + 1\<rparr>)
       in (case out of Replay stored \<Rightarrow> ReplayResponse stored | FingerprintMismatch \<Rightarrow> MismatchResponse
           | AlreadyInFlight \<Rightarrow> InFlightResponse | Reserved \<Rightarrow> RunReserved k (sha request), st'))"
    unfolding idem_enter_def idem_reserve_def k_def by (simp add: Let_def case_prod_beta)
  obtain m out where run: "run_alone ?body ?m = (m, out)" by fastforce
  note o = on_shard_slot [OF assms(1) run]
  have frame: "slot_of sha (case out of
              Reserved \<Rightarrow> st'\<lparr>is_reservations := is_reservations st' + 1\<rparr>
            | Replay _ \<Rightarrow> st'\<lparr>is_replays := is_replays st' + 1\<rparr>
            | FingerprintMismatch \<Rightarrow> st'\<lparr>is_mismatches := is_mismatches st' + 1\<rparr>
            | AlreadyInFlight \<Rightarrow> st'\<lparr>is_in_flight_conflicts := is_in_flight_conflicts st' + 1\<rparr>) k = slot_of sha st' k" for st'
    by (simp add: slot_of_def split: reserve_outcome.split)
  have fst_e: "fst (idem_enter sha iter now tenant (Some ck) request st) =
      (case out of Replay stored \<Rightarrow> ReplayResponse stored | FingerprintMismatch \<Rightarrow> MismatchResponse
           | AlreadyInFlight \<Rightarrow> InFlightResponse | Reserved \<Rightarrow> RunReserved k (sha request))"
    using o(1) unfolding e by (simp add: Let_def case_prod_beta)
  have slot_e: "slot_of sha (snd (idem_enter sha iter now tenant (Some ck) request st)) k = map_of m k"
    using o(1,2) frame unfolding e by (simp add: Let_def case_prod_beta)
  show "idem_store_ok sha (snd (idem_enter sha iter now tenant (Some ck) request st))"
    using o(3) unfolding e by (simp add: Let_def case_prod_beta idem_store_ok_def split: reserve_outcome.split)
  show "is_ttl_ms (snd (idem_enter sha iter now tenant (Some ck) request st)) = is_ttl_ms st"
    using o(4) unfolding e by (simp add: Let_def case_prod_beta split: reserve_outcome.split)
  show "fst (idem_enter sha iter now tenant (Some ck) request st) = RunReserved k (sha request) \<and>
      slot_of sha (snd (idem_enter sha iter now tenant (Some ck) request st)) k = Some (InFlight now (is_ttl_ms st))"
    if "\<forall>s. slot_of sha st k = Some s \<longrightarrow> slot_expired now s"
    using that run unfolding fst_e slot_e
    by (auto simp: slot_of_def reserve_body_def Let_def store_config_def split: option.splits idem_slot.splits if_splits)
  show "fst (idem_enter sha iter now tenant (Some ck) request st) =
        (if sr_fingerprint r = sha request then ReplayResponse r else MismatchResponse)"
    if "slot_of sha st k = Some (Done r)" "\<not> slot_expired now (Done r)"
    using that run unfolding fst_e by (auto simp: slot_of_def reserve_body_def Let_def split: if_splits)
  show "fst (idem_enter sha iter now tenant (Some ck) request st) = InFlightResponse"
    if "slot_of sha st k = Some (InFlight t0 ttl)" "\<not> slot_expired now (InFlight t0 ttl)"
    using that run unfolding fst_e by (auto simp: slot_of_def reserve_body_def Let_def)
qed

text \<open>A response that is stored: a success that could be buffered, within the size limit.\<close>

definition storable :: "buffered_response \<Rightarrow> bool" where
  "storable resp \<longleftrightarrow> 200 \<le> br_status resp \<and> br_status resp < 300 \<and>
     (\<exists>body. br_body resp = Some body \<and> length body \<le> IDEMP_MAX_BODY_BYTES)"

definition stored_of :: "u64 \<Rightarrow> u64 \<Rightarrow> fingerprint \<Rightarrow> buffered_response \<Rightarrow> stored_response" where
  "stored_of now ttl fp resp =
     \<lparr>sr_status = br_status resp,
      sr_content_type = (case br_content_type resp of Some c \<Rightarrow> c | None \<Rightarrow> ''application/json''),
      sr_body = the (br_body resp), sr_fingerprint = fp, sr_provider = br_provider resp,
      sr_request_id = br_request_id resp, sr_created_at_ms = now, sr_ttl_ms = ttl\<rparr>"

lemma release_slot:
  assumes "idem_store_ok sha st" "slot_of sha st k = Some (InFlight t0 ttl)"
  shows "slot_of sha (idem_release sha k st) k = None" "idem_store_ok sha (idem_release sha k st)"
proof -
  let ?m = "is_shards st ! key_shard sha k"
  have "run_alone (release_body k) ?m = (shard_remove k ?m, True)"
    using assms(2) by (simp add: release_body_def slot_of_def)
  note o = on_shard_slot [OF assms(1) this]
  show "slot_of sha (idem_release sha k st) k = None"
    using o(2) by (simp add: idem_release_def case_prod_beta Let_def) (simp add: slot_of_def)
  show "idem_store_ok sha (idem_release sha k st)"
    using o(3) by (simp add: idem_release_def case_prod_beta Let_def idem_store_ok_def)
qed

lemma finish_slot:
  assumes "idem_store_ok sha st" "slot_of sha st k = Some (InFlight t0 ttl)"
  shows "slot_of sha (snd (idem_finish sha now k fp resp st)) k =
      (if storable resp then Some (Done (stored_of now (is_ttl_ms st) fp resp)) else None)"
    and "idem_store_ok sha (snd (idem_finish sha now k fp resp st))"
proof -
  let ?m = "is_shards st ! key_shard sha k"
  have run: "run_alone (store_body now k r) ?m = (shard_insert k (Done (r\<lparr>sr_created_at_ms := now\<rparr>)) ?m, True)" for r
    using assms(2) by (simp add: store_body_def slot_of_def)
  note o = on_shard_slot [OF assms(1) run]
  note rel = release_slot [OF assms]
  have save: "slot_of sha (snd (idem_save sha now k status ct body fp provider request_id st)) k =
      (if length body \<le> IDEMP_MAX_BODY_BYTES
       then Some (Done \<lparr>sr_status = status, sr_content_type = ct, sr_body = body, sr_fingerprint = fp,
         sr_provider = provider, sr_request_id = request_id, sr_created_at_ms = now, sr_ttl_ms = is_ttl_ms st\<rparr>) else None) \<and>
    idem_store_ok sha (snd (idem_save sha now k status ct body fp provider request_id st))" for status ct body provider request_id
    using o(1,2,3) rel
    by (auto simp: idem_save_def Let_def case_prod_beta not_less) (auto simp: slot_of_def idem_store_ok_def)
  show "slot_of sha (snd (idem_finish sha now k fp resp st)) k =
      (if storable resp then Some (Done (stored_of now (is_ttl_ms st) fp resp)) else None)"
    using save rel by (auto simp: idem_finish_def storable_def stored_of_def Let_def case_prod_beta split: option.split)
  show "idem_store_ok sha (snd (idem_finish sha now k fp resp st))"
    using save rel by (auto simp: idem_finish_def Let_def case_prod_beta split: option.split)
qed

section \<open>Properties\<close>

lemma fair_share_replay_parts:
  assumes "idem_config_ok cfg" and "bounded_shard (ic_cap cfg) m" and "within_share A (ic_cap cfg) (ik_tenant k) 0 m"
    and "map_of m k = Some (Done r)" and "\<forall>x\<in>set cs. foreign_to A k (Done r) x" and "\<not> slot_expired now (Done r)"
  shows "snd (run_alone (idem_body cfg (now, ReserveKey k (sr_fingerprint r))) (fst (run_all (idem_body cfg) m cs))) = Reserve (Replay r)"
    and "fp \<noteq> sr_fingerprint r \<Longrightarrow>
      snd (run_alone (idem_body cfg (now, ReserveKey k fp)) (fst (run_all (idem_body cfg) m cs))) = Reserve FingerprintMismatch"
proof -
  have "map_of (fst (run_all (idem_body cfg) m cs)) k = Some (Done r)" by (rule foreign_run_keeps [OF assms(1-5)])
  note d = reserve_done [OF this assms(6)]
  show "snd (run_alone (idem_body cfg (now, ReserveKey k (sr_fingerprint r))) (fst (run_all (idem_body cfg) m cs))) = Reserve (Replay r)"
    unfolding d by simp
  show "snd (run_alone (idem_body cfg (now, ReserveKey k fp)) (fst (run_all (idem_body cfg) m cs))) = Reserve FingerprintMismatch"
    if "fp \<noteq> sr_fingerprint r" unfolding d using that by simp
qed

text \<open>
  C9. No flood by other tenants makes a tenant's completed request run, and be charged, again. As long as a tenant holds no more than its equal share of a shard, any sequence of reservations, stores and releases by the other tenants leaves its unexpired entry in place, so the retry is answered with the stored response and a reuse of the key for another request is refused.
\<close>

theorem fair_share_replay:
  assumes "idem_config_ok cfg" and "bounded_shard (ic_cap cfg) m" and "within_share A (ic_cap cfg) (ik_tenant k) 0 m"
    and "map_of m k = Some (Done r)" and "\<forall>x\<in>set cs. foreign_to A k (Done r) x" and "\<not> slot_expired now (Done r)"
  shows "(snd (run_alone (idem_body cfg (now, ReserveKey k (sr_fingerprint r))) (fst (run_all (idem_body cfg) m cs))) = Reserve (Replay r)) \<and>
   ((fp \<noteq> sr_fingerprint r) \<longrightarrow> snd (run_alone (idem_body cfg (now, ReserveKey k fp)) (fst (run_all (idem_body cfg) m cs))) = Reserve FingerprintMismatch)"
  by ((rule conjI, rule fair_share_replay_parts(1) [OF assms]),
      (rule impI, rule fair_share_replay_parts(2) [OF assms], assumption))

theorem fair_share_replay_witness:
  "let r = \<lparr>sr_status = 200, sr_content_type = ''application/json'', sr_body = ''{}'', sr_fingerprint = [7], sr_provider = None,
       sr_request_id = None, sr_created_at_ms = 0, sr_ttl_ms = 1000\<rparr>;
     k = \<lparr>ik_tenant = ''acme'', ik_key = ''k1''\<rparr>; cfg = \<lparr>ic_iter = id, ic_ttl_ms = 1000, ic_cap = 2\<rparr>;
     flood = map (\<lambda>n. (5, ReserveKey \<lparr>ik_tenant = ''evil'', ik_key = replicate n CHR ''x''\<rparr> [])) [0..<50]
   in snd (run_alone (idem_body cfg (9, ReserveKey k [7])) (fst (run_all (idem_body cfg) [(k, Done r)] flood))) = Reserve (Replay r)"
proof -
  define r where "r = \<lparr>sr_status = 200, sr_content_type = ''application/json'', sr_body = ''{}'', sr_fingerprint = [7], sr_provider = None,
       sr_request_id = None, sr_created_at_ms = 0, sr_ttl_ms = 1000\<rparr>"
  define k where "k = \<lparr>ik_tenant = ''acme'', ik_key = ''k1''\<rparr>"
  define cfg where "cfg = \<lparr>ic_iter = id, ic_ttl_ms = 1000, ic_cap = 2\<rparr>"
  define flood where "flood = map (\<lambda>n. (5 :: u64, ReserveKey \<lparr>ik_tenant = ''evil'', ik_key = replicate n CHR ''x''\<rparr> [])) [0..<50]"
  have "idem_config_ok cfg" "bounded_shard (ic_cap cfg) [(k, Done r)]"
    by (simp_all add: idem_config_ok_def cfg_def iter_ok_def bounded_shard_def shard_ok_def)
  moreover have "within_share {''acme'', ''evil''} (ic_cap cfg) (ik_tenant k) 0 [(k, Done r)]"
    by (simp add: within_share_def cfg_def k_def tenant_count_def)
  moreover have "\<not> slot_expired 9 (Done r)" "\<forall>x\<in>set flood. foreign_to {''acme'', ''evil''} k (Done r) x"
    by (auto simp: flood_def foreign_to_def r_def k_def sat_add_def)
  ultimately have "snd (run_alone (idem_body cfg (9, ReserveKey k (sr_fingerprint r))) (fst (run_all (idem_body cfg) [(k, Done r)] flood))) = Reserve (Replay r)"
    by (intro fair_share_replay [THEN conjunct1]) simp_all
  then show ?thesis unfolding Let_def k_def cfg_def flood_def r_def by simp
qed

text \<open>
  C10. Two concurrent requests with the same idempotency key are never both sent to the provider: in every interleaving of the compare-exchange loops of any number of reservations of a key with any calls of other tenants on its shard, all within the time to live, at most one reservation of the key is granted, provided the tenant stays within its equal share of the shard.
\<close>

theorem single_flight:
  assumes "cell_reachable (\<lambda>(n :: nat, call). idem_body cfg call) m st"
    and "idem_config_ok cfg" and "bounded_shard (ic_cap cfg) m" and "within_share A (ic_cap cfg) (ik_tenant k) 1 m"
    and "\<forall>t r. calls st t = Finished r \<longrightarrow> contender A k (snd (snd t))"
    and "\<forall>t r u q. calls st t = Finished r \<longrightarrow> calls st u = Finished q \<longrightarrow>
      \<not> slot_expired (fst (snd t)) (InFlight (fst (snd u)) (ic_ttl_ms cfg))"
    and "calls st (n, now, ReserveKey k fp) = Finished (Reserve Reserved)"
    and "calls st (n', now', ReserveKey k fp') = Finished (Reserve Reserved)"
  shows "n = n' \<and> now = now' \<and> fp = fp'"
proof -
  obtain h where h: "distinct (map fst h)" "run_all (\<lambda>(n :: nat, call). idem_body cfg call) m (map fst h) = (cell st, map snd h)"
    "\<forall>t r. calls st t = Finished r \<longleftrightarrow> (t, r) \<in> set h"
    using shards.interleaving_sequential [OF assms(1)] by blast
  have run: "run_all (\<lambda>t. idem_body cfg (snd t)) m (map fst h) = (cell st, map snd h)"
    using h(2) by (simp add: case_prod_beta')
  let ?P = "\<lambda>(t, r). wins k (snd (snd t)) r"
  have t: "\<exists>r. calls st t = Finished r" if "t \<in> set (map fst h)" for t using that h(3) by auto
  have "length (filter ?P (zip (map fst h) (map snd h))) \<le> 1"
  proof (rule one_winner [OF assms(2-4) _ _ run])
    show "\<forall>t\<in>set (map fst h). contender A k (snd (snd t))" using t assms(5) by blast
    show "\<forall>t\<in>set (map fst h). \<forall>u\<in>set (map fst h). \<not> slot_expired (fst (snd t)) (InFlight (fst (snd u)) (ic_ttl_ms cfg))"
      using t assms(6) by blast
  qed
  then have "length (filter ?P h) \<le> 1" by (simp add: zip_map_fst_snd)
  moreover have "((n, now, ReserveKey k fp), Reserve Reserved) \<in> set (filter ?P h)"
    "((n', now', ReserveKey k fp'), Reserve Reserved) \<in> set (filter ?P h)"
    using assms(7,8) h(3) by (simp_all add: wins_def)
  ultimately show ?thesis by (cases "filter ?P h") auto
qed

theorem single_flight_witness:
  "\<exists>st. cell_reachable (\<lambda>(n :: nat, call). idem_body \<lparr>ic_iter = id, ic_ttl_ms = 1000, ic_cap = 8\<rparr> call) [] st \<and>
     calls st (0, 5, ReserveKey \<lparr>ik_tenant = ''acme'', ik_key = ''k1''\<rparr> [7]) = Finished (Reserve Reserved) \<and>
     (\<forall>n' now' fp'. calls st (n', now', ReserveKey \<lparr>ik_tenant = ''acme'', ik_key = ''k1''\<rparr> fp') \<noteq> Finished (Reserve Reserved) \<or> n' = 0)"
proof -
  let ?cfg = "\<lparr>ic_iter = id, ic_ttl_ms = 1000, ic_cap = 8\<rparr>" and ?k = "\<lparr>ik_tenant = ''acme'', ik_key = ''k1''\<rparr>"
  let ?b = "\<lambda>(n :: nat, call). idem_body ?cfg call" and ?t = "(0 :: nat, 5 :: u64, ReserveKey ?k [7])"
  have "?b ?t [] = Swap (claimed ?cfg 5 ?k []) (Reserve Reserved)" by (simp add: reserve_body_def claimed_def Let_def)
  from one_swap_reachable [of ?b, OF this] obtain st where st: "cell_reachable ?b [] st" "history st = [(?t, Reserve Reserved)]" by blast
  have f: "calls st u = Finished r \<longleftrightarrow> u = ?t \<and> r = Reserve Reserved" for u r
  proof -
    have "calls st u = Finished r \<longleftrightarrow> (u, r) \<in> set (history st)"
      using reachable_linearized [OF st(1)] unfolding linearized_def by blast
    then show ?thesis unfolding st(2) by simp
  qed
  have ok: "idem_config_ok ?cfg" "bounded_shard (ic_cap ?cfg) []" "within_share {''acme''} (ic_cap ?cfg) (ik_tenant ?k) 1 []"
    by (simp_all add: idem_config_ok_def iter_ok_def bounded_shard_def shard_ok_def within_share_def tenant_count_def)
  have "n' = 0" if "calls st (n', now', ReserveKey ?k fp') = Finished (Reserve Reserved)" for n' now' fp'
    using single_flight [OF st(1) ok _ _ _ that, of 0 5 "[7]"] f by (auto simp: contender_def sat_add_def)
  then show ?thesis using st(1) f by blast
qed

lemma retry_replays_parts:
  assumes "idem_store_ok sha st" and "fst (idem_enter sha iter now tenant (Some ck) request st) = RunReserved k fp"
    and "idem_finish sha now2 k fp resp (snd (idem_enter sha iter now tenant (Some ck) request st)) = (answer, st2)"
    and "now3 < sat_add now2 (is_ttl_ms st)"
  shows "storable resp \<Longrightarrow> fst (idem_enter sha iter now3 tenant (Some ck) request st2) =
      ReplayResponse (stored_of now2 (is_ttl_ms st) (sha request) resp)"
    and "storable resp \<Longrightarrow> sha request' \<noteq> sha request \<Longrightarrow>
      fst (idem_enter sha iter now3 tenant (Some ck) request' st2) = MismatchResponse"
    and "\<not> storable resp \<Longrightarrow> fst (idem_enter sha iter now3 tenant (Some ck) request' st2) =
      RunReserved \<lparr>ik_tenant = tenant, ik_key = ck\<rparr> (sha request')"
proof -
  let ?k = "\<lparr>ik_tenant = tenant, ik_key = ck\<rparr>" and ?st1 = "snd (idem_enter sha iter now tenant (Some ck) request st)"
  have free: "\<forall>s. slot_of sha st ?k = Some s \<longrightarrow> slot_expired now s"
  proof (intro allI impI, rule ccontr)
    fix s assume "slot_of sha st ?k = Some s" "\<not> slot_expired now s"
    then show False
      using enter_outcomes(2) [OF assms(1), of tenant ck _ now iter request]
        enter_outcomes(3) [OF assms(1), of tenant ck _ _ now iter request] assms(2)
      by (cases s) (auto split: if_splits)
  qed
  note e = enter_outcomes(1) [OF assms(1) free, of iter request]
  then have k: "k = ?k" "fp = sha request" using assms(2) by auto
  have s1: "slot_of sha ?st1 ?k = Some (InFlight now (is_ttl_ms st))" using e by simp
  have ok1: "idem_store_ok sha ?st1" "is_ttl_ms ?st1 = is_ttl_ms st" by (rule enter_outcomes [OF assms(1)])+
  have s2: "slot_of sha st2 ?k = (if storable resp then Some (Done (stored_of now2 (is_ttl_ms st) (sha request) resp)) else None)"
    "idem_store_ok sha st2"
    using finish_slot [OF ok1(1) s1, of now2 fp resp] assms(3) k ok1(2) by simp_all
  have live: "\<not> slot_expired now3 (Done (stored_of now2 (is_ttl_ms st) (sha request) resp))"
    using assms(4) by (simp add: stored_of_def)
  have fp: "sr_fingerprint (stored_of now2 (is_ttl_ms st) (sha request) resp) = sha request" by (simp add: stored_of_def)
  show "fst (idem_enter sha iter now3 tenant (Some ck) request st2) = ReplayResponse (stored_of now2 (is_ttl_ms st) (sha request) resp)"
    if "storable resp" using enter_outcomes(2) [OF s2(2) _ live] s2(1) that fp by simp
  show "fst (idem_enter sha iter now3 tenant (Some ck) request' st2) = MismatchResponse"
    if "storable resp" "sha request' \<noteq> sha request" using enter_outcomes(2) [OF s2(2) _ live] s2(1) that fp by simp
  show "fst (idem_enter sha iter now3 tenant (Some ck) request' st2) = RunReserved ?k (sha request')"
    if "\<not> storable resp" using enter_outcomes(1) [OF s2(2), of tenant ck now3] s2(1) that by simp
qed

text \<open>
  C11. Retrying a request replays its response. After a keyed request has run, the same request under the same key, within the time to live, is answered with the status, content type, body, provider and request id of the first response, without a dispatch; another request under the key is refused. If the first response was not a success, could not be buffered or is larger than 256 KiB, nothing is stored and the retry is dispatched.
\<close>

theorem retry_replays:
  assumes "idem_store_ok sha st" and "fst (idem_enter sha iter now tenant (Some ck) request st) = RunReserved k fp"
    and "idem_finish sha now2 k fp resp (snd (idem_enter sha iter now tenant (Some ck) request st)) = (answer, st2)"
    and "now3 < sat_add now2 (is_ttl_ms st)"
  shows "((storable resp) \<longrightarrow> fst (idem_enter sha iter now3 tenant (Some ck) request st2) =
      ReplayResponse (stored_of now2 (is_ttl_ms st) (sha request) resp)) \<and>
   ((storable resp) \<longrightarrow> (sha request' \<noteq> sha request) \<longrightarrow> fst (idem_enter sha iter now3 tenant (Some ck) request' st2) = MismatchResponse) \<and>
   ((\<not> storable resp) \<longrightarrow> fst (idem_enter sha iter now3 tenant (Some ck) request' st2) =
      RunReserved \<lparr>ik_tenant = tenant, ik_key = ck\<rparr> (sha request'))"
  by ((rule conjI, rule impI, rule retry_replays_parts(1) [OF assms], assumption),
      (rule conjI, rule impI, rule impI, rule retry_replays_parts(2) [OF assms], assumption, assumption),
      (rule impI, rule retry_replays_parts(3) [OF assms], assumption))

theorem retry_replays_witness:
  "let sha = (\<lambda>s. [of_nat (length s)]); resp = \<lparr>br_status = 200, br_content_type = None, br_body = Some ''{}'', br_provider = Some ''openai'', br_request_id = None\<rparr>;
     k = \<lparr>ik_tenant = ''acme'', ik_key = ''k1''\<rparr>;
     st2 = snd (idem_finish sha 20 k (sha ''req'') resp (snd (idem_enter sha id 10 ''acme'' (Some ''k1'') ''req'' idem_new)))
   in fst (idem_enter sha id 30 ''acme'' (Some ''k1'') ''req'' st2) = ReplayResponse (stored_of 20 86400000 (sha ''req'') resp)"
proof -
  let ?sha = "\<lambda>s :: string. [of_nat (length s) :: 8 word]"
  let ?resp = "\<lparr>br_status = 200, br_content_type = None, br_body = Some ''{}'', br_provider = Some ''openai'', br_request_id = None\<rparr>"
  let ?k = "\<lparr>ik_tenant = ''acme'', ik_key = ''k1''\<rparr>"
  have ok: "idem_store_ok ?sha idem_new" by (simp add: idem_store_ok_def idem_new_def idem_with_clock_def)
  have ttl: "is_ttl_ms idem_new = 86400000"
    by (simp add: idem_new_def idem_with_clock_def DEFAULT_IDEMPOTENCY_TTL_SECONDS_def sat_mul_def)
  have "slot_of ?sha idem_new ?k = None"
    using key_shard_less [OF ok, of ?k] by (simp add: slot_of_def idem_new_def idem_with_clock_def IDEMP_SHARD_COUNT_def)
  then have e: "fst (idem_enter ?sha id 10 ''acme'' (Some ''k1'') ''req'' idem_new) = RunReserved ?k (?sha ''req'')"
    using enter_outcomes(1) [OF ok] by simp
  have s: "storable ?resp" by (simp add: storable_def IDEMP_MAX_BODY_BYTES_def)
  have t: "30 < sat_add 20 (is_ttl_ms idem_new)" by (simp add: ttl sat_add_def)
  show ?thesis unfolding Let_def
    by (rule retry_replays [THEN conjunct1, THEN mp, OF ok e _ t s, unfolded ttl]) (rule prod.collapse [symmetric])
qed

subsection \<open>Further facts\<close>

text \<open>
  A reservation is not bound to the request that made it. When a request outlives its time to live and the key has been reserved again, its late release frees the key although the second request is in flight, so a third is granted; and its late success is stored under the key, so the second request's own retry is refused as a mismatch.
\<close>

lemma late_finish_hits_successor:
  assumes "map_of m k = None" and "sat_add t0 (ic_ttl_ms cfg) \<le> t1" and "t2 < sat_add t1 (ic_ttl_ms cfg)"
  shows "snd (run_all (idem_body cfg) m [(t0, ReserveKey k fa), (t1, ReserveKey k fb), (t2, ReleaseKey k), (t2, ReserveKey k fc)]) =
      [Reserve Reserved, Reserve Reserved, ReleaseDone True, Reserve Reserved]"
    and "fb \<noteq> sr_fingerprint resp \<Longrightarrow> t2 < sat_add t2 (sr_ttl_ms resp) \<Longrightarrow>
      snd (run_all (idem_body cfg) m [(t0, ReserveKey k fa), (t1, ReserveKey k fb), (t2, StoreKey k resp), (t2, ReserveKey k fb)]) =
      [Reserve Reserved, Reserve Reserved, StoreDone True, Reserve FingerprintMismatch]"
proof -
  have r0: "run_alone (idem_body cfg (t0, ReserveKey k fa)) m = (claimed cfg t0 k m, Reserve Reserved)"
    by (rule reserve_free) (simp add: assms(1))
  let ?m1 = "claimed cfg t0 k m"
  have r1: "run_alone (idem_body cfg (t1, ReserveKey k fb)) ?m1 = (claimed cfg t1 k ?m1, Reserve Reserved)"
    by (rule reserve_free) (use assms(2) in \<open>auto simp: claimed_def\<close>)
  let ?m2 = "claimed cfg t1 k ?m1"
  have live: "map_of ?m2 k = Some (InFlight t1 (ic_ttl_ms cfg))" by (simp add: claimed_def)
  have r2: "run_alone (idem_body cfg (t2, ReleaseKey k)) ?m2 = (shard_remove k ?m2, ReleaseDone True)"
    using live by (simp add: release_body_def)
  have r3: "snd (run_alone (idem_body cfg (t2, ReserveKey k fc)) (shard_remove k ?m2)) = Reserve Reserved"
    by (subst reserve_free) simp_all
  show "snd (run_all (idem_body cfg) m [(t0, ReserveKey k fa), (t1, ReserveKey k fb), (t2, ReleaseKey k), (t2, ReserveKey k fc)]) =
      [Reserve Reserved, Reserve Reserved, ReleaseDone True, Reserve Reserved]"
    using r0 r1 r2 r3 by (simp add: Let_def case_prod_beta del: run_alone.simps idem_body.simps)
  have s2: "run_alone (idem_body cfg (t2, StoreKey k resp)) ?m2 =
      (shard_insert k (Done (resp\<lparr>sr_created_at_ms := t2\<rparr>)) ?m2, StoreDone True)"
    using live by (simp add: store_body_def)
  show "snd (run_all (idem_body cfg) m [(t0, ReserveKey k fa), (t1, ReserveKey k fb), (t2, StoreKey k resp), (t2, ReserveKey k fb)]) =
      [Reserve Reserved, Reserve Reserved, StoreDone True, Reserve FingerprintMismatch]"
    if "fb \<noteq> sr_fingerprint resp" "t2 < sat_add t2 (sr_ttl_ms resp)"
  proof -
    have "snd (run_alone (idem_body cfg (t2, ReserveKey k fb)) (shard_insert k (Done (resp\<lparr>sr_created_at_ms := t2\<rparr>)) ?m2)) = Reserve FingerprintMismatch"
      by (subst reserve_done) (use that in auto)
    then show ?thesis using r0 r1 s2 by (simp add: Let_def case_prod_beta del: run_alone.simps idem_body.simps)
  qed
qed

end
