(* ===== verification/Cache_Keys.thy ===== *)
theory Cache_Keys
  imports Cas_Cell Shard_Map Json "HOL-Library.List_Lexorder" "HOL-Library.Char_ord"
begin

text \<open>
  Keys of the exact-match response cache and their flush generations: the first part of
  \<^verbatim>\<open>crates/cache/src/lib.rs\<close>. A key names its tenant and namespace and the digest of the request;
  a purge raises a generation that the digest absorbs. SHA-256 and the JSON text \<^verbatim>\<open>serde_json\<close>
  gives a view are parameters, and so are the wire types of messages and tools.
\<close>

section \<open>Keys\<close>

text \<open>A JSON number is finite; a float of a request is the rational it denotes.\<close>

type_synonym wire_float = rat

record cache_key =
  ck_tenant_id :: string
  ck_namespace :: string
  ck_hash :: "8 word list"

definition cache_key_shard :: "cache_key \<Rightarrow> nat" where
  "cache_key_shard k = unat (drop_bit 2 (ck_hash k ! 0))"

record ('m, 't) chat_request =
  cr_model :: string
  cr_messages :: "'m list"
  cr_temperature :: "wire_float option"
  cr_top_p :: "wire_float option"
  cr_stream :: "bool option"
  cr_max_tokens :: "u32 option"
  cr_max_completion_tokens :: "u32 option"
  cr_stop :: "string list option"
  cr_n :: "u32 option"
  cr_presence_penalty :: "wire_float option"
  cr_frequency_penalty :: "wire_float option"
  cr_user :: "string option"
  cr_tools :: "'t list option"
  cr_tool_choice :: "json option"
  cr_parallel_tool_calls :: "bool option"
  cr_response_format :: "json option"
  cr_seed :: "int option"
  cr_logprobs :: "bool option"
  cr_top_logprobs :: "u32 option"
  cr_logit_bias :: "(string \<times> wire_float) list option"
  cr_service_tier :: "string option"
  cr_reasoning_effort :: "string option"

record ('m, 't) key_view =
  kv_model :: string
  kv_messages :: "'m list"
  kv_temperature :: "wire_float option"
  kv_top_p :: "wire_float option"
  kv_max_tokens :: "u32 option"
  kv_max_completion_tokens :: "u32 option"
  kv_stop :: "string list option"
  kv_n :: "u32 option"
  kv_presence_penalty :: "wire_float option"
  kv_frequency_penalty :: "wire_float option"
  kv_tools :: "'t list option"
  kv_tool_choice :: "json option"
  kv_parallel_tool_calls :: "bool option"
  kv_response_format :: "json option"
  kv_seed :: "int option"
  kv_logprobs :: "bool option"
  kv_top_logprobs :: "u32 option"
  kv_logit_bias :: "(string \<times> wire_float) list option"
  kv_service_tier :: "string option"
  kv_reasoning_effort :: "string option"

definition key_view_of :: "('m, 't) chat_request \<Rightarrow> ('m, 't) key_view" where
  "key_view_of req =
     \<lparr>kv_model = cr_model req, kv_messages = cr_messages req, kv_temperature = cr_temperature req,
      kv_top_p = cr_top_p req, kv_max_tokens = cr_max_tokens req,
      kv_max_completion_tokens = cr_max_completion_tokens req, kv_stop = cr_stop req, kv_n = cr_n req,
      kv_presence_penalty = cr_presence_penalty req, kv_frequency_penalty = cr_frequency_penalty req,
      kv_tools = cr_tools req, kv_tool_choice = cr_tool_choice req,
      kv_parallel_tool_calls = cr_parallel_tool_calls req, kv_response_format = cr_response_format req,
      kv_seed = cr_seed req, kv_logprobs = cr_logprobs req, kv_top_logprobs = cr_top_logprobs req,
      kv_logit_bias = cr_logit_bias req, kv_service_tier = cr_service_tier req,
      kv_reasoning_effort = cr_reasoning_effort req\<rparr>"

definition le_bytes :: "u64 \<Rightarrow> string" where
  "le_bytes n = map (\<lambda>i. char_of (unat (drop_bit (8 * i) n) mod 256)) [0..<8]"

definition chain_name :: "string \<Rightarrow> string" where
  "chain_name p = to_ascii_lowercase (trim p)"

text \<open>What the hasher is fed, and the key.\<close>

definition exact_preimage ::
  "(('m, 't) key_view \<Rightarrow> string option) \<Rightarrow> ('m, 't) chat_request \<Rightarrow> string list \<Rightarrow> u64 \<Rightarrow> string" where
  "exact_preimage to_vec req chain generation =
     (case to_vec (key_view_of req) of Some b \<Rightarrow> b | None \<Rightarrow> []) @ [CHR 0x1F] @
     concat (map (\<lambda>p. chain_name p @ [CHR 0x1F]) chain) @
     (if 0 < generation then CHR 0x1E # le_bytes generation else [])"

definition exact_key_gen ::
  "sha256 \<Rightarrow> (('m, 't) key_view \<Rightarrow> string option) \<Rightarrow> string \<Rightarrow> string \<Rightarrow> ('m, 't) chat_request \<Rightarrow> string list \<Rightarrow> u64
     \<Rightarrow> cache_key" where
  "exact_key_gen sha to_vec tenant_id namespace req chain generation =
     \<lparr>ck_tenant_id = tenant_id, ck_namespace = namespace,
      ck_hash = sha (exact_preimage to_vec req chain generation)\<rparr>"

definition exact_key ::
  "sha256 \<Rightarrow> (('m, 't) key_view \<Rightarrow> string option) \<Rightarrow> string \<Rightarrow> string \<Rightarrow> ('m, 't) chat_request \<Rightarrow> string list \<Rightarrow> cache_key" where
  "exact_key sha to_vec tenant_id namespace req chain = exact_key_gen sha to_vec tenant_id namespace req chain 0"

section \<open>Flush generations\<close>

definition MAX_PURGED_SCOPES_PER_TENANT :: nat where
  "MAX_PURGED_SCOPES_PER_TENANT = 64"

definition WILDCARD_NAMESPACE :: string where
  "WILDCARD_NAMESPACE = ''*''"

datatype flush_error = InvalidNamespace | ScopeLimit | UnknownTenant

type_synonym scope_map = "(string, u64) entries"

text \<open>One cell per tenant of the list the registry starts with.\<close>

type_synonym flush_registry = "(string \<times> scope_map) list"

definition is_valid_flush_namespace :: "string \<Rightarrow> bool" where
  "is_valid_flush_namespace namespace \<longleftrightarrow>
     namespace = WILDCARD_NAMESPACE \<or>
     (namespace \<noteq> [] \<and> length namespace \<le> 64 \<and>
      list_all (\<lambda>b. is_ascii_lowercase b \<or> is_ascii_digit b \<or> b = CHR ''_'' \<or> b = CHR ''-'') namespace)"

definition flush_new :: "string list \<Rightarrow> flush_registry" where
  "flush_new tenant_ids = map (\<lambda>t. (t, [])) (sort (remdups tenant_ids))"

definition scope_generation :: "scope_map \<Rightarrow> string \<Rightarrow> u64" where
  "scope_generation m namespace = (case map_of m namespace of Some g \<Rightarrow> g | None \<Rightarrow> 0)"

definition flush_generation :: "flush_registry \<Rightarrow> string \<Rightarrow> string \<Rightarrow> u64" where
  "flush_generation reg tenant_id namespace =
     (case map_of reg tenant_id of Some m \<Rightarrow> scope_generation m namespace | None \<Rightarrow> 0)"

definition generation_effective :: "flush_registry \<Rightarrow> string \<Rightarrow> string \<Rightarrow> u64" where
  "generation_effective reg tenant_id namespace =
     (let wildcard = flush_generation reg tenant_id WILDCARD_NAMESPACE
      in if namespace = WILDCARD_NAMESPACE then wildcard
         else sat_add (flush_generation reg tenant_id namespace) wildcard)"

text \<open>The body of the compare-and-swap loop on the tenant's cell.\<close>

definition bump_body :: "string \<Rightarrow> scope_map \<Rightarrow> (scope_map, flush_error + u64) attempt" where
  "bump_body namespace current =
     (let existing = map_of current namespace;
          reserved_wildcard =
            (if namespace \<noteq> WILDCARD_NAMESPACE \<and> map_of current WILDCARD_NAMESPACE = None then 1 else 0)
      in if existing = None \<and> MAX_PURGED_SCOPES_PER_TENANT \<le> length current + reserved_wildcard
         then Return (Inl ScopeLimit)
         else
           let next = sat_add (case existing of Some g \<Rightarrow> g | None \<Rightarrow> 0) 1
           in Swap (shard_insert namespace next current) (Inr next))"

fun put_cell :: "string \<Rightarrow> scope_map \<Rightarrow> flush_registry \<Rightarrow> flush_registry" where
  "put_cell t m [] = []"
| "put_cell t m ((t', m') # reg) = (if t' = t then (t', m) # reg else (t', m') # put_cell t m reg)"

definition flush_bump :: "string \<Rightarrow> string \<Rightarrow> flush_registry \<Rightarrow> (flush_error + u64) \<times> flush_registry" where
  "flush_bump tenant_id namespace reg =
     (case map_of reg tenant_id of
        None \<Rightarrow> (Inl UnknownTenant, reg)
      | Some scopes \<Rightarrow>
          if \<not> is_valid_flush_namespace namespace then (Inl InvalidNamespace, reg)
          else let (m, out) = run_alone (bump_body namespace) scopes in (out, put_cell tenant_id m reg))"

definition purged_scope_count :: "flush_registry \<Rightarrow> nat" where
  "purged_scope_count reg = sum_list (map (\<lambda>(_, m). length m) reg)"

section \<open>What the digest distinguishes\<close>

lemma le_bytes_inj:
  assumes "le_bytes a = le_bytes b"
  shows "a = b"
proof (rule bit_word_eqI)
  have byte: "unat (drop_bit (8 * i) a) mod 256 = unat (drop_bit (8 * i) b) mod 256" if "i < 8" for i
  proof -
    have "le_bytes a ! i = le_bytes b ! i" using assms by simp
    then have "(of_char (char_of (unat (drop_bit (8 * i) a) mod 256) :: char) :: nat) =
        of_char (char_of (unat (drop_bit (8 * i) b) mod 256) :: char)"
      using that by (simp add: le_bytes_def)
    then show ?thesis by simp
  qed
  have at: "bit w n = bit (unat (drop_bit (8 * (n div 8)) w) mod 256) (n mod 8)" if "n < 64" for w :: u64 and n
  proof -
    have "bit (unat (drop_bit (8 * (n div 8)) w) mod 256) (n mod 8) =
        bit (take_bit 8 (unat (drop_bit (8 * (n div 8)) w))) (n mod 8)" by (simp add: take_bit_eq_mod)
    also have "\<dots> = bit (drop_bit (8 * (n div 8)) w) (n mod 8)"
      by (simp add: bit_take_bit_iff bit_unsigned_iff)
    also have "\<dots> = bit w n" by (simp add: bit_drop_bit_eq)
    finally show ?thesis by simp
  qed
  fix n assume "n < LENGTH(64)"
  then have n: "n < 64" by simp
  then show "bit a n = bit b n" using at [OF n, of a] at [OF n, of b] byte [of "n div 8"] by simp
qed

lemma first_separator:
  "s \<notin> set a \<Longrightarrow> s \<notin> set b \<Longrightarrow> a @ s # x = b @ s # y \<longleftrightarrow> a = b \<and> x = y"
proof (induction a arbitrary: b)
  case Nil then show ?case by (cases b) auto
next
  case (Cons c a) then show ?case by (cases b) auto
qed

definition plain_name :: "string \<Rightarrow> bool" where
  "plain_name p \<longleftrightarrow> CHR 0x1E \<notin> set (chain_name p) \<and> CHR 0x1F \<notin> set (chain_name p)"

lemma tokens_separate:
  assumes "r \<noteq> s" and "\<forall>p\<in>set c. r \<notin> set (f p) \<and> s \<notin> set (f p)" and "\<forall>p\<in>set c'. r \<notin> set (f p) \<and> s \<notin> set (f p)"
    and "t = [] \<or> (\<exists>u. t = r # u)" and "t' = [] \<or> (\<exists>u. t' = r # u)"
    and "concat (map (\<lambda>p. f p @ [s]) c) @ t = concat (map (\<lambda>p. f p @ [s]) c') @ t'"
  shows "map f c = map f c' \<and> t = t'"
  using assms(2-)
proof (induction c arbitrary: c')
  case Nil
  show ?case
  proof (cases c')
    case (Cons p ps)
    then have "t = f p @ s # concat (map (\<lambda>p. f p @ [s]) ps) @ t'" using Nil.prems(5) by simp
    then show ?thesis using Nil.prems(2,3) Cons assms(1) by (cases "f p") auto
  qed (use Nil in simp)
next
  case (Cons q c)
  show ?case
  proof (cases c')
    case Nil
    then have "t' = f q @ s # concat (map (\<lambda>p. f p @ [s]) c) @ t" using Cons.prems(5) by simp
    then show ?thesis using Cons.prems(1,4) assms(1) by (cases "f q") auto
  next
    case c': (Cons p ps)
    have "f q @ s # (concat (map (\<lambda>p. f p @ [s]) c) @ t) = f p @ s # (concat (map (\<lambda>p. f p @ [s]) ps) @ t')"
      using Cons.prems(5) c' by simp
    moreover have "s \<notin> set (f q)" "s \<notin> set (f p)" using Cons.prems(1,2) c' by auto
    ultimately have q: "f q = f p"
      and "concat (map (\<lambda>p. f p @ [s]) c) @ t = concat (map (\<lambda>p. f p @ [s]) ps) @ t'"
      using first_separator [of s "f q" "f p"] by blast+
    with Cons.IH [of ps] Cons.prems(1-4) c' show ?thesis by simp
  qed
qed

lemma preimage_separates:
  assumes to_vec: "\<And>v b. to_vec v = Some b \<Longrightarrow> CHR 0x1F \<notin> set b"
    and plain: "\<forall>p\<in>set chain. plain_name p" "\<forall>p\<in>set chain'. plain_name p"
    and eq: "exact_preimage to_vec req chain g = exact_preimage to_vec req' chain' g'"
  shows "(case to_vec (key_view_of req) of Some b \<Rightarrow> b | None \<Rightarrow> []) = (case to_vec (key_view_of req') of Some b \<Rightarrow> b | None \<Rightarrow> [])"
    and "map chain_name chain = map chain_name chain'" and "g = g'"
proof -
  define V where "V = (\<lambda>r. case to_vec (key_view_of r) of Some b \<Rightarrow> b | None \<Rightarrow> [])"
  define T where "T = (\<lambda>g. if 0 < g then CHR 0x1E # le_bytes g else [])"
  define C where "C = (\<lambda>c. concat (map (\<lambda>p. chain_name p @ [CHR 0x1F]) c))"
  have no: "CHR 0x1F \<notin> set (V r)" for r unfolding V_def using to_vec by (auto split: option.split)
  have "V req @ CHR 0x1F # (C chain @ T g) = V req' @ CHR 0x1F # (C chain' @ T g')"
    using eq unfolding exact_preimage_def V_def T_def C_def by simp
  then have v: "V req = V req'" and c: "C chain @ T g = C chain' @ T g'"
    using first_separator [OF no no] by blast+
  have t: "T g = [] \<or> (\<exists>u. T g = CHR 0x1E # u)" for g by (simp add: T_def)
  have n: "(CHR 0x1E :: char) \<noteq> CHR 0x1F" by simp
  have m: "map chain_name chain = map chain_name chain'" and t: "T g = T g'"
    using tokens_separate [OF n _ _ t t, of chain chain_name chain' g g'] plain c unfolding C_def plain_name_def by blast+
  show "(case to_vec (key_view_of req) of Some b \<Rightarrow> b | None \<Rightarrow> []) = (case to_vec (key_view_of req') of Some b \<Rightarrow> b | None \<Rightarrow> [])"
    using v by (simp add: V_def)
  show "map chain_name chain = map chain_name chain'" by (rule m)
  show "g = g'"
  proof (cases "0 < g \<and> 0 < g'")
    case True
    then show ?thesis using t le_bytes_inj by (simp add: T_def)
  next
    case False
    then show ?thesis using t by (auto simp: T_def word_gt_0 split: if_splits)
  qed
qed

section \<open>Purges\<close>

text \<open>A named scope never takes the last slot before the wildcard has one.\<close>

definition scopes_ok :: "scope_map \<Rightarrow> bool" where
  "scopes_ok m \<longleftrightarrow>
     shard_ok m \<and> length m + (if map_of m WILDCARD_NAMESPACE = None then 1 else 0) \<le> MAX_PURGED_SCOPES_PER_TENANT"

lemma scopes_ok_empty [simp]: "scopes_ok []"
  by (simp add: scopes_ok_def shard_ok_def MAX_PURGED_SCOPES_PER_TENANT_def)

lemma length_shard_insert:
  "shard_ok m \<Longrightarrow> length (shard_insert k v m) = (if map_of m k = None then Suc (length m) else length m)"
  using length_shard_remove [of m k] shard_remove_absent [of k m]
  by (auto simp: shard_insert_def map_of_eq_None_iff)

lemma bump_keeps:
  assumes "scopes_ok m" and "bump_body ns m = Swap m' r"
  shows "scopes_ok m'"
  using assms
  by (auto simp: scopes_ok_def bump_body_def Let_def length_shard_insert shard_ok_insert split: if_splits option.splits)

text \<open>A call is named by its thread and its scope.\<close>

fun bump_call :: "nat \<times> string \<Rightarrow> scope_map \<Rightarrow> (scope_map, flush_error + u64) attempt" where
  "bump_call (_, ns) = bump_body ns"

interpretation flush: cas_family bump_call scopes_ok
proof
  fix m t m' r assume "scopes_ok m" "bump_call t m = Swap m' r"
  then show "scopes_ok m'" by (cases t) (auto dest: bump_keeps)
qed

lemma wildcard_never_limited:
  assumes "scopes_ok m"
  shows "bump_body WILDCARD_NAMESPACE m =
    Swap (shard_insert WILDCARD_NAMESPACE (sat_add (scope_generation m WILDCARD_NAMESPACE) 1) m)
      (Inr (sat_add (scope_generation m WILDCARD_NAMESPACE) 1))"
  using assms by (auto simp: bump_body_def Let_def scopes_ok_def scope_generation_def split: option.split)

lemma bump_known:
  "map_of m ns = Some g \<Longrightarrow> bump_body ns m = Swap (shard_insert ns (sat_add g 1) m) (Inr (sat_add g 1))"
  by (simp add: bump_body_def Let_def)

lemma scope_generation_insert [simp]:
  "scope_generation (shard_insert ns g m) n = (if n = ns then g else scope_generation m n)"
  by (simp add: scope_generation_def)

lemma bump_alone:
  assumes "run_alone (bump_body ns) m = (m', out)"
  shows "(out = Inl ScopeLimit \<and> m' = m) \<or>
    (\<exists>g. out = Inr g \<and> g = sat_add (scope_generation m ns) 1 \<and> m' = shard_insert ns g m)"
  using assms by (auto simp: bump_body_def Let_def scope_generation_def split: if_splits option.splits)

definition purges_of :: "string \<Rightarrow> ((nat \<times> string) \<times> (flush_error + u64)) list \<Rightarrow> nat" where
  "purges_of ns h = length (filter (\<lambda>((_, n), out). n = ns \<and> \<not> isl out) h)"

lemma purges_counted:
  assumes "run_all bump_call m ts = (m', outs)"
  shows "unat (scope_generation m' ns) =
    min (2 ^ 64 - 1) (unat (scope_generation m ns) + purges_of ns (zip ts outs))"
  using assms
proof (induction ts arbitrary: m m' outs)
  case Nil
  then show ?case using unat_u64_lt [of "scope_generation m ns"] by (simp add: purges_of_def)
next
  case (Cons t ts)
  obtain i n where t: "t = (i, n)" by (cases t)
  obtain m1 out where one: "run_alone (bump_body n) m = (m1, out)" by fastforce
  obtain m2 outs' where rest: "run_all bump_call m1 ts = (m2, outs')" by fastforce
  have eq: "m' = m2" "outs = out # outs'" using Cons.prems one rest t by (auto simp del: run_alone.simps)
  have "unat (scope_generation m1 ns) =
      min (2 ^ 64 - 1) (unat (scope_generation m ns) + (if n = ns \<and> \<not> isl out then 1 else 0))"
    using bump_alone [OF one] unat_u64_lt [of "scope_generation m ns"] by (auto simp: unat_sat_add)
  moreover have "purges_of ns (zip (t # ts) outs) = (if n = ns \<and> \<not> isl out then 1 else 0) + purges_of ns (zip ts outs')"
    using eq t by (simp add: purges_of_def)
  moreover have "min M (min M a + b) = min M (a + b)" for M a b :: nat by simp
  ultimately show ?case using Cons.IH [OF rest] eq(1) by (simp add: add.assoc del: min_Suc_Suc)
qed

text \<open>Whatever ran before, a purge of everything is accepted.\<close>

lemma wildcard_accepted:
  assumes "run_all bump_call m ts = (m', outs)" and "scopes_ok m" and "((n, WILDCARD_NAMESPACE), r) \<in> set (zip ts outs)"
  shows "\<not> isl r"
  using assms
proof (induction ts arbitrary: m outs)
  case (Cons t ts)
  obtain m1 out where one: "run_alone (bump_call t) m = (m1, out)" by fastforce
  obtain m2 outs' where rest: "run_all bump_call m1 ts = (m2, outs')" by fastforce
  have eq: "outs = out # outs'" "m' = m2" using Cons.prems(1) one rest by (auto simp del: run_alone.simps)
  have ok: "scopes_ok m1"
    using flush.run_alone_good [OF Cons.prems(2), of t] one by simp
  show ?case
  proof (cases "t = (n, WILDCARD_NAMESPACE) \<and> r = out")
    case True
    then show ?thesis using one wildcard_never_limited [OF Cons.prems(2)] by auto
  next
    case False
    then show ?thesis using Cons.IH [OF _ ok] Cons.prems(3) rest eq by auto
  qed
qed simp

lemma map_of_put_cell:
  "map_of (put_cell t m reg) t' = (if t' = t then map_option (\<lambda>_. m) (map_of reg t) else map_of reg t')"
  by (induction t m reg rule: put_cell.induct) auto

lemma bump_registry:
  assumes "flush_bump t ns reg = (out, reg')"
  shows "flush_generation reg' t' n =
    (case out of Inr g \<Rightarrow> if t' = t \<and> n = ns then g else flush_generation reg t' n | Inl _ \<Rightarrow> flush_generation reg t' n)"
    and "out = Inr g \<Longrightarrow> g = sat_add (flush_generation reg t ns) 1"
proof -
  have "(case out of Inr g \<Rightarrow> flush_generation reg' t' n = (if t' = t \<and> n = ns then g else flush_generation reg t' n) \<and>
        g = sat_add (flush_generation reg t ns) 1 | Inl _ \<Rightarrow> flush_generation reg' t' n = flush_generation reg t' n)"
  proof (cases "map_of reg t")
    case None
    then show ?thesis using assms by (auto simp: flush_bump_def)
  next
    case (Some m)
    obtain m' out' where r: "run_alone (bump_body ns) m = (m', out')" by fastforce
    show ?thesis
    proof (cases "is_valid_flush_namespace ns")
      case False
      then show ?thesis using assms Some by (auto simp: flush_bump_def)
    next
      case True
      then have "out = out'" "reg' = put_cell t m' reg" using assms Some r by (auto simp: flush_bump_def simp del: run_alone.simps)
      then show ?thesis using bump_alone [OF r] Some
        by (auto simp: flush_generation_def map_of_put_cell split: option.split)
    qed
  qed
  then show "flush_generation reg' t' n =
      (case out of Inr g \<Rightarrow> if t' = t \<and> n = ns then g else flush_generation reg t' n | Inl _ \<Rightarrow> flush_generation reg t' n)"
    and "out = Inr g \<Longrightarrow> g = sat_add (flush_generation reg t ns) 1" by (auto split: sum.splits)
qed

lemma generation_monotone:
  "flush_generation reg t' n \<le> flush_generation (snd (flush_bump t ns reg)) t' n"
proof -
  obtain out reg' where b: "flush_bump t ns reg = (out, reg')" by fastforce
  have "unat (flush_generation reg t ns) < 2 ^ 64" by (rule unat_u64_lt)
  then show ?thesis
    using bump_registry(1) [OF b, of t' n] bump_registry(2) [OF b] b by (auto simp: word_le_nat_alt unat_sat_add split: sum.splits)
qed

lemma effective_monotone:
  "generation_effective reg t' n \<le> generation_effective (snd (flush_bump t ns reg)) t' n"
  using generation_monotone [of reg t' n t ns] generation_monotone [of reg t' WILDCARD_NAMESPACE t ns]
  by (auto simp: generation_effective_def Let_def word_le_nat_alt unat_sat_add)

definition purge_all :: "(string \<times> string) list \<Rightarrow> flush_registry \<Rightarrow> flush_registry" where
  "purge_all ps reg = fold (\<lambda>(t, n) reg. snd (flush_bump t n reg)) ps reg"

lemma purge_all_monotone: "generation_effective reg t n \<le> generation_effective (purge_all ps reg) t n"
proof (induction ps arbitrary: reg)
  case (Cons p ps)
  show ?case using effective_monotone [of reg t n "fst p" "snd p"] Cons.IH [of "snd (flush_bump (fst p) (snd p) reg)"]
    by (auto simp: purge_all_def case_prod_beta)
qed (simp add: purge_all_def)

text \<open>The namespaces a purge is meant for.\<close>

definition in_scope :: "string \<Rightarrow> string \<Rightarrow> bool" where
  "in_scope ns n \<longleftrightarrow> ns = WILDCARD_NAMESPACE \<or> n = ns"

lemma effective_raised:
  assumes "flush_bump t ns reg = (Inr g, reg')" and "in_scope ns n" and "generation_effective reg t n < u64_max"
  shows "unat (generation_effective reg' t n) = unat (generation_effective reg t n) + 1"
proof -
  have s: "unat (sat_add (flush_generation reg t ns) 1) = unat (flush_generation reg t ns) + 1"
    if "unat (flush_generation reg t ns) < 2 ^ 64 - 1" using that by (simp add: unat_sat_add)
  show ?thesis
    using bump_registry(1) [OF assms(1)] bump_registry(2) [OF assms(1) refl] assms(2,3)
    by (auto simp: generation_effective_def Let_def in_scope_def word_less_nat_alt unat_sat_add)
qed

lemma effective_untouched:
  assumes "flush_bump t ns reg = (out, reg')" and "t' \<noteq> t \<or> \<not> in_scope ns n"
  shows "generation_effective reg' t' n = generation_effective reg t' n"
  using bump_registry(1) [OF assms(1)] assms(2)
  by (auto simp: generation_effective_def Let_def in_scope_def split: sum.splits)

definition collides :: "sha256 \<Rightarrow> string \<Rightarrow> string \<Rightarrow> bool" where
  "collides sha a b \<longleftrightarrow> a \<noteq> b \<and> sha a = sha b"

lemma key_equal:
  "exact_key_gen sha to_vec t n r c g = exact_key_gen sha to_vec t' n' r' c' g' \<longleftrightarrow>
     t = t' \<and> n = n' \<and>
     (exact_preimage to_vec r c g = exact_preimage to_vec r' c' g' \<or>
      collides sha (exact_preimage to_vec r c g) (exact_preimage to_vec r' c' g'))"
  by (auto simp: exact_key_gen_def collides_def)

section \<open>Properties\<close>

subsection \<open>Further facts\<close>

text \<open>
  Purges of one tenant that race on its cell are all counted: in every interleaving of the compare-exchange loops the generation of a namespace is its old one plus the purges of it that were acknowledged, saturating at the end of the counter; the number of scopes stays within the limit, and a purge of everything is never refused, however many namespaces are purged beside it.
\<close>

lemma racing_purges_counted:
  assumes "cell_reachable bump_call m s" and "scopes_ok m"
  shows "unat (scope_generation (cell s) ns) = min (2 ^ 64 - 1) (unat (scope_generation m ns) + purges_of ns (history s))"
    and "length (cell s) \<le> MAX_PURGED_SCOPES_PER_TENANT"
    and "calls s (n, WILDCARD_NAMESPACE) = Finished r \<Longrightarrow> \<not> isl r"
proof -
  have lin: "run_all bump_call m (map fst (history s)) = (cell s, map snd (history s))"
    "\<forall>t r. calls s t = Finished r \<longleftrightarrow> (t, r) \<in> set (history s)"
    using reachable_linearized [OF assms(1)] unfolding linearized_def by blast+
  show "unat (scope_generation (cell s) ns) = min (2 ^ 64 - 1) (unat (scope_generation m ns) + purges_of ns (history s))"
    using purges_counted [OF lin(1), of ns] by (simp add: zip_map_fst_snd)
  have "scopes_ok (cell s)" by (rule flush.interleaving_good [OF assms])
  then show "length (cell s) \<le> MAX_PURGED_SCOPES_PER_TENANT" by (simp add: scopes_ok_def)
  show "\<not> isl r" if "calls s (n, WILDCARD_NAMESPACE) = Finished r"
    using wildcard_accepted [OF lin(1) assms(2)] lin(2) that by (auto simp: zip_map_fst_snd)
qed

end
