(* ===== verification/Cache_Core.thy ===== *)
theory Cache_Core
  imports Cache_Keys
begin

text \<open>
  The store of the exact-match response cache: the capacity plan and \<^verbatim>\<open>CacheCore\<close> of
  \<^verbatim>\<open>crates/cache/src/lib.rs\<close>. Shards are lists of entries; \<open>iter\<close> is the order in which a map is
  iterated over and \<open>now\<close> the reading of the clock. A \<^verbatim>\<open>usize\<close> that counts bytes is a natural
  number, its saturating addition written out.
\<close>

definition SHARD_COUNT :: nat where "SHARD_COUNT = 64"
definition MAX_ENTRY_BYTES :: nat where "MAX_ENTRY_BYTES = 256 * 1024"
definition KEY_OVERHEAD_BYTES :: nat where "KEY_OVERHEAD_BYTES = 160"
definition MAX_WRITE_RETENTION_BYTES :: nat where "MAX_WRITE_RETENTION_BYTES = 16 * 1024 * 1024"
definition DEFAULT_BUDGET_BYTES :: u64 where "DEFAULT_BUDGET_BYTES = 64 * 1024 * 1024"

definition usz_add :: "nat \<Rightarrow> nat \<Rightarrow> nat" where
  "usz_add a b = min (2 ^ 64 - 1) (a + b)"

section \<open>Entries\<close>

record cache_entry =
  ce_body :: string
  ce_model :: string
  ce_prompt_tokens :: u32
  ce_completion_tokens :: u32
  ce_total_tokens :: u32
  ce_inserted_at_ms :: u64
  ce_ttl_ms :: u64

definition entry_cost :: "cache_entry \<Rightarrow> nat" where
  "entry_cost e = length (ce_body e) + length (ce_model e) + KEY_OVERHEAD_BYTES"

definition entry_expired :: "u64 \<Rightarrow> cache_entry \<Rightarrow> bool" where
  "entry_expired now e \<longleftrightarrow> sat_add (ce_inserted_at_ms e) (ce_ttl_ms e) \<le> now"

section \<open>The capacity plan\<close>

record capacity_plan =
  pl_tenant_ids :: "string list"
  pl_storage_budgets :: "nat list"
  pl_writer_budgets :: "nat list"
  pl_budget_bytes :: nat
  pl_storage_budget_bytes :: nat
  pl_writer_budget_bytes :: nat
  pl_effective_payload_budget_bytes :: "nat list"
  pl_min_positive_effective_payload_budget_bytes :: nat

definition partition_bytes :: "nat \<Rightarrow> nat \<Rightarrow> nat list" where
  "partition_bytes amount parts =
     (if parts = 0 then []
      else map (\<lambda>i. amount div parts + (if i < amount mod parts then 1 else 0)) [0..<parts])"

definition capacity_plan_new :: "u64 \<Rightarrow> string list \<Rightarrow> capacity_plan" where
  "capacity_plan_new budget_bytes ids =
     (let tenant_ids = sort (remdups ids);
          writer_budget_bytes = min (unat budget_bytes div 2) MAX_WRITE_RETENTION_BYTES;
          storage_budget_bytes = unat budget_bytes - writer_budget_bytes;
          storage_budgets = partition_bytes storage_budget_bytes (length tenant_ids);
          writer_budgets = partition_bytes writer_budget_bytes (length tenant_ids);
          effective = map (\<lambda>(stored, queued). min stored queued - KEY_OVERHEAD_BYTES) (zip storage_budgets writer_budgets);
          positive = filter (\<lambda>n. 0 < n) effective
      in \<lparr>pl_tenant_ids = tenant_ids, pl_storage_budgets = storage_budgets, pl_writer_budgets = writer_budgets,
          pl_budget_bytes = unat budget_bytes, pl_storage_budget_bytes = storage_budget_bytes,
          pl_writer_budget_bytes = writer_budget_bytes, pl_effective_payload_budget_bytes = effective,
          pl_min_positive_effective_payload_budget_bytes = (if positive = [] then 0 else Min (set positive))\<rparr>)"

definition tenant_index :: "capacity_plan \<Rightarrow> string \<Rightarrow> nat option" where
  "tenant_index plan t = map_of (zip (pl_tenant_ids plan) [0..<length (pl_tenant_ids plan)]) t"

definition plan_tenant_count :: "capacity_plan \<Rightarrow> nat" where
  "plan_tenant_count plan = length (pl_tenant_ids plan)"

definition min_effective_entry_bytes :: "capacity_plan \<Rightarrow> nat" where
  "min_effective_entry_bytes plan = min (pl_min_positive_effective_payload_budget_bytes plan) MAX_ENTRY_BYTES"

definition max_response_bytes_for_tenant :: "capacity_plan \<Rightarrow> string \<Rightarrow> nat \<Rightarrow> nat" where
  "max_response_bytes_for_tenant plan tenant_id model_len =
     (case tenant_index plan tenant_id of
        None \<Rightarrow> 0
      | Some i \<Rightarrow> min (pl_effective_payload_budget_bytes plan ! i - model_len) MAX_ENTRY_BYTES)"

definition owns_positive_share :: "capacity_plan \<Rightarrow> string \<Rightarrow> bool" where
  "owns_positive_share plan tenant_id \<longleftrightarrow>
     (case tenant_index plan tenant_id of None \<Rightarrow> False | Some i \<Rightarrow> 0 < pl_effective_payload_budget_bytes plan ! i)"

section \<open>The store\<close>

type_synonym cache_shard = "(cache_key, cache_entry) entries"

record cache_core =
  cc_shards :: "cache_shard list"
  cc_capacity :: capacity_plan
  cc_tenant_bytes :: "nat list"
  cc_oversize_drops :: u64
  cc_write_drops :: u64
  cc_hits :: u64
  cc_misses :: u64

definition core_with_capacity :: "capacity_plan \<Rightarrow> cache_core" where
  "core_with_capacity plan =
     \<lparr>cc_shards = replicate SHARD_COUNT [], cc_capacity = plan, cc_tenant_bytes = replicate (plan_tenant_count plan) 0,
      cc_oversize_drops = 0, cc_write_drops = 0, cc_hits = 0, cc_misses = 0\<rparr>"

definition core_new :: "u64 \<Rightarrow> string list \<Rightarrow> cache_core" where
  "core_new budget_bytes ids = core_with_capacity (capacity_plan_new budget_bytes ids)"

definition core_lookup :: "u64 \<Rightarrow> cache_key \<Rightarrow> cache_core \<Rightarrow> cache_entry option \<times> cache_core" where
  "core_lookup now k core =
     (let hit = (case map_of (cc_shards core ! cache_key_shard k) k of
                   Some e \<Rightarrow> if \<not> entry_expired now e then Some e else None
                 | None \<Rightarrow> None)
      in (hit, if hit \<noteq> None then core\<lparr>cc_hits := cc_hits core + 1\<rparr> else core\<lparr>cc_misses := cc_misses core + 1\<rparr>))"

definition stats_snapshot :: "cache_core \<Rightarrow> nat \<times> nat" where
  "stats_snapshot core =
     (sum_list (map length (cc_shards core)),
      sum_list (map (\<lambda>m. sum_list (map (\<lambda>e. entry_cost (snd e)) m)) (cc_shards core)))"

definition record_oversize :: "cache_core \<Rightarrow> cache_core" where
  "record_oversize core = core\<lparr>cc_oversize_drops := cc_oversize_drops core + 1\<rparr>"

text \<open>A candidate for eviction: its key, when it was inserted, its cost, whether it has expired.\<close>

type_synonym candidate = "cache_key \<times> u64 \<times> nat \<times> bool"

definition shard_candidates :: "(cache_shard \<Rightarrow> cache_shard) \<Rightarrow> u64 \<Rightarrow> string \<Rightarrow> cache_shard \<Rightarrow> candidate list" where
  "shard_candidates iter now tenant_id m =
     map (\<lambda>(k, e). (k, ce_inserted_at_ms e, entry_cost e, entry_expired now e))
       (filter (\<lambda>(k, _). ck_tenant_id k = tenant_id) (iter m))"

definition evict_expired :: "nat \<Rightarrow> candidate list \<Rightarrow> nat \<Rightarrow> cache_key list \<times> nat" where
  "evict_expired budget cands amount =
     (if budget < amount then
        let gone = filter (\<lambda>(_, _, _, expired). expired) cands
        in (map fst gone, foldl (\<lambda>n (_, _, cost, _). n - cost) amount gone)
      else ([], amount))"

fun evict_oldest :: "nat \<Rightarrow> candidate list \<Rightarrow> nat \<Rightarrow> cache_key list \<times> nat" where
  "evict_oldest budget [] amount = ([], amount)"
| "evict_oldest budget ((k, _, cost, _) # cs) amount =
     (if amount \<le> budget then ([], amount)
      else let (gone, amount) = evict_oldest budget cs (amount - cost) in (k # gone, amount))"

definition evict_live :: "nat \<Rightarrow> candidate list \<Rightarrow> nat \<Rightarrow> cache_key list \<times> nat" where
  "evict_live budget cands amount =
     (if budget < amount then
        evict_oldest budget (sort_key (\<lambda>(_, inserted, _, _). inserted) (filter (\<lambda>(_, _, _, expired). \<not> expired) cands)) amount
      else ([], amount))"

definition remove_keys :: "nat \<Rightarrow> cache_key list \<Rightarrow> cache_shard \<Rightarrow> cache_shard" where
  "remove_keys i removals m = fold shard_remove (filter (\<lambda>k. cache_key_shard k = i) removals) m"

definition apply_insert ::
  "(cache_shard \<Rightarrow> cache_shard) \<Rightarrow> u64 \<Rightarrow> cache_key \<Rightarrow> cache_entry \<Rightarrow> cache_core \<Rightarrow> cache_core" where
  "apply_insert iter now k e core =
     (let idx = cache_key_shard k; plan = cc_capacity core in
      case tenant_index plan (ck_tenant_id k) of
        None \<Rightarrow> core\<lparr>cc_write_drops := cc_write_drops core + 1\<rparr>
      | Some ti \<Rightarrow>
          let tenant_budget = pl_storage_budgets plan ! ti; cost = entry_cost e in
          if MAX_ENTRY_BYTES < length (ce_body e) \<or> tenant_budget < cost then record_oversize core
          else
            let current = cc_shards core ! idx;
                replaced_cost = (case map_of current k of Some prior \<Rightarrow> entry_cost prior | None \<Rightarrow> 0);
                target = shard_insert k e current;
                projected_total = usz_add (cc_tenant_bytes core ! ti - replaced_cost) cost
            in
            if projected_total \<le> tenant_budget then
              core\<lparr>cc_shards := (cc_shards core)[idx := target], cc_tenant_bytes := (cc_tenant_bytes core)[ti := projected_total]\<rparr>
            else
              let shard = (\<lambda>i. if i = idx then target else cc_shards core ! i);
                  cands = concat (map (\<lambda>i. shard_candidates iter now (ck_tenant_id k) (shard i)) [0..<SHARD_COUNT]);
                  tenant_total = foldl (\<lambda>n (_, _, cost, _). usz_add n cost) 0 cands;
                  (expired, tenant_total) = evict_expired tenant_budget cands tenant_total;
                  (oldest, tenant_total) = evict_live tenant_budget cands tenant_total
              in core\<lparr>cc_shards := map (\<lambda>i. remove_keys i (expired @ oldest) (shard i)) [0..<SHARD_COUNT],
                      cc_tenant_bytes := (cc_tenant_bytes core)[ti := tenant_total]\<rparr>)"


section \<open>The plan\<close>

lemma sum_partition: "0 < n \<Longrightarrow> sum_list (partition_bytes b n) = b"
proof -
  assume n: "0 < n"
  have "sum_list (partition_bytes b n) = (\<Sum>i<n. b div n + (if i < b mod n then 1 else 0))"
    using n by (simp add: partition_bytes_def sum_list_sum_nth atLeast0LessThan)
  also have "\<dots> = n * (b div n) + card {i. i < n \<and> i < b mod n}"
    by (simp add: sum.distrib sum.If_cases Int_def lessThan_def)
  also have "{i. i < n \<and> i < b mod n} = {..<b mod n}" using mod_less_divisor [OF n, of b] by auto
  finally show ?thesis by simp
qed

lemma length_partition [simp]: "length (partition_bytes b n) = n"
  by (simp add: partition_bytes_def)

lemma partition_nth_le: "i < n \<Longrightarrow> partition_bytes b n ! i \<le> b"
  using sum_partition [of n b] elem_le_sum_list [of i "partition_bytes b n"] by simp

definition plan_ok :: "capacity_plan \<Rightarrow> bool" where
  "plan_ok plan \<longleftrightarrow>
     distinct (pl_tenant_ids plan) \<and> length (pl_storage_budgets plan) = plan_tenant_count plan \<and>
     length (pl_writer_budgets plan) = plan_tenant_count plan \<and>
     length (pl_effective_payload_budget_bytes plan) = plan_tenant_count plan \<and>
     (\<forall>i<plan_tenant_count plan.
        pl_storage_budgets plan ! i < 2 ^ 63 \<and>
        pl_effective_payload_budget_bytes plan ! i =
          min (pl_storage_budgets plan ! i) (pl_writer_budgets plan ! i) - KEY_OVERHEAD_BYTES) \<and>
     sum_list (pl_storage_budgets plan) \<le> pl_storage_budget_bytes plan \<and>
     sum_list (pl_writer_budgets plan) \<le> pl_writer_budget_bytes plan \<and>
     pl_storage_budget_bytes plan + pl_writer_budget_bytes plan = pl_budget_bytes plan"

lemma plan_new_simps [simp]:
  "pl_budget_bytes (capacity_plan_new b ids) = unat b"
  "pl_tenant_ids (capacity_plan_new b ids) = sort (remdups ids)"
  by (simp_all only: capacity_plan_new_def Let_def capacity_plan.simps)

lemma plan_new_ok:
  assumes "b < 2 ^ 63"
  shows "plan_ok (capacity_plan_new b ids)"
proof -
  define w where "w = min (unat b div 2) MAX_WRITE_RETENTION_BYTES"
  define sb where "sb = unat b - w"
  define n where "n = length (sort (remdups ids))"
  have b: "unat b < 2 ^ 63" using assms by (simp add: word_less_nat_alt)
  have p: "partition_bytes sb n ! i < 2 ^ 63" if "i < n" for i
    using partition_nth_le [OF that, of sb] b by (simp add: sb_def)
  have sum: "sum_list (partition_bytes x n) \<le> x" for x
    using sum_partition [of n x] by (cases "n = 0") (auto simp: partition_bytes_def)
  have e: "map (\<lambda>(stored, queued). min stored queued - KEY_OVERHEAD_BYTES) (zip (partition_bytes sb n) (partition_bytes w n)) ! i =
      min (partition_bytes sb n ! i) (partition_bytes w n ! i) - KEY_OVERHEAD_BYTES" if "i < n" for i
    using that by simp
  have add: "sb + w = unat b" by (simp add: sb_def w_def)
  show ?thesis
    unfolding plan_ok_def capacity_plan_new_def Let_def plan_tenant_count_def capacity_plan.simps
      w_def [symmetric] sb_def [symmetric] n_def [symmetric]
    using p sum e add by simp
qed

lemma tenant_index_Some:
  "distinct (pl_tenant_ids plan) \<Longrightarrow>
     tenant_index plan t = Some i \<longleftrightarrow> i < plan_tenant_count plan \<and> pl_tenant_ids plan ! i = t"
  by (auto simp: tenant_index_def plan_tenant_count_def map_of_eq_Some_iff set_zip distinct_map)

lemma tenant_index_None: "tenant_index plan t = None \<longleftrightarrow> t \<notin> set (pl_tenant_ids plan)"
  by (simp add: tenant_index_def map_of_eq_None_iff flip: set_map)

lemma plan_index:
  assumes "plan_ok plan" "tenant_index plan t = Some i"
  shows "i < plan_tenant_count plan" "i < length (pl_storage_budgets plan)" "pl_storage_budgets plan ! i < 2 ^ 63"
    "pl_tenant_ids plan ! i = t"
  using assms tenant_index_Some [of plan t i] by (auto simp: plan_ok_def)

lemma plan_index_inj: "plan_ok plan \<Longrightarrow> tenant_index plan t = Some i \<Longrightarrow> tenant_index plan t' = Some i \<Longrightarrow> t = t'"
  using plan_index(4) by metis

section \<open>Costs of a tenant's entries\<close>

definition shard_spent :: "string \<Rightarrow> cache_shard \<Rightarrow> nat" where
  "shard_spent t m = sum_list (map (\<lambda>(k, e). if ck_tenant_id k = t then entry_cost e else 0) m)"

definition spent :: "cache_shard list \<Rightarrow> string \<Rightarrow> nat" where
  "spent ms t = sum_list (map (shard_spent t) ms)"

lemma shard_spent_Nil [simp]: "shard_spent t [] = 0"
  by (simp add: shard_spent_def)

lemma shard_spent_Cons [simp]:
  "shard_spent t ((k, e) # m) = (if ck_tenant_id k = t then entry_cost e else 0) + shard_spent t m"
  by (simp add: shard_spent_def)

lemma shard_spent_remove:
  "shard_ok m \<Longrightarrow> shard_spent t (shard_remove k m) +
     (case map_of m k of Some e \<Rightarrow> if ck_tenant_id k = t then entry_cost e else 0 | None \<Rightarrow> 0) = shard_spent t m"
proof (induction m)
  case (Cons x m)
  obtain k' e where x: "x = (k', e)" by (cases x)
  have ok: "shard_ok m" using Cons.prems by (simp add: shard_ok_def)
  show ?case
  proof (cases "k' = k")
    case True
    then have "k \<notin> fst ` set m" using Cons.prems x by (auto simp: shard_ok_def)
    then show ?thesis using True x shard_remove_absent [of k m] by (simp add: shard_remove_def)
  next
    case False
    then show ?thesis using Cons.IH [OF ok] x by (simp add: shard_remove_def add.assoc)
  qed
qed (simp add: shard_remove_def)

lemma shard_spent_insert:
  "shard_ok m \<Longrightarrow> shard_spent t (shard_insert k e m) +
     (case map_of m k of Some e \<Rightarrow> if ck_tenant_id k = t then entry_cost e else 0 | None \<Rightarrow> 0) =
   (if ck_tenant_id k = t then entry_cost e else 0) + shard_spent t m"
  using shard_spent_remove [of m t k] by (simp add: shard_insert_def add.assoc)

lemma spent_update:
  "i < length ms \<Longrightarrow> spent (ms[i := m]) t + shard_spent t (ms ! i) = spent ms t + shard_spent t m"
proof -
  assume i: "i < length ms"
  have "shard_spent t (ms ! i) \<le> spent ms t"
    using elem_le_sum_list [of i "map (shard_spent t) ms"] i by (simp add: spent_def)
  then show ?thesis using i by (simp add: spent_def map_update sum_list_update)
qed

lemma cost_pos [simp]: "0 < entry_cost e"
  by (simp add: entry_cost_def KEY_OVERHEAD_BYTES_def)

section \<open>Stores\<close>

definition cached :: "cache_core \<Rightarrow> cache_key \<Rightarrow> cache_entry option" where
  "cached core k = map_of (cc_shards core ! cache_key_shard k) k"

lemma cache_key_shard_less: "cache_key_shard k < SHARD_COUNT"
proof -
  have "unat (drop_bit 2 w) < 64" for w :: "8 word"
  proof -
    have "unat w < 256" using unsigned_less [of w] by simp
    then show ?thesis by (simp add: unat_drop_bit_eq drop_bit_eq_div unat_div less_mult_imp_div_less)
  qed
  then show ?thesis by (simp add: cache_key_shard_def SHARD_COUNT_def)
qed

definition core_ok :: "cache_core \<Rightarrow> bool" where
  "core_ok core \<longleftrightarrow>
     plan_ok (cc_capacity core) \<and> length (cc_shards core) = SHARD_COUNT \<and>
     length (cc_tenant_bytes core) = plan_tenant_count (cc_capacity core) \<and>
     (\<forall>i<SHARD_COUNT. shard_ok (cc_shards core ! i) \<and>
        (\<forall>(k, e)\<in>set (cc_shards core ! i). cache_key_shard k = i \<and> length (ce_body e) \<le> MAX_ENTRY_BYTES \<and>
           tenant_index (cc_capacity core) (ck_tenant_id k) \<noteq> None)) \<and>
     (\<forall>t i. tenant_index (cc_capacity core) t = Some i \<longrightarrow>
        cc_tenant_bytes core ! i = spent (cc_shards core) t \<and>
        spent (cc_shards core) t \<le> pl_storage_budgets (cc_capacity core) ! i)"

lemma core_new_ok:
  assumes "b < 2 ^ 63"
  shows "core_ok (core_new b ids)"
proof -
  have "spent (replicate n []) t = 0" for n t by (induction n) (simp_all add: spent_def)
  then show ?thesis
    using plan_new_ok [OF assms, of ids] plan_index [OF plan_new_ok [OF assms]]
    by (auto simp: core_ok_def core_new_def core_with_capacity_def shard_ok_def)
qed

section \<open>What an insertion evicts\<close>

abbreviation cand_cost :: "candidate \<Rightarrow> nat" where "cand_cost c \<equiv> fst (snd (snd c))"
abbreviation cand_expired :: "candidate \<Rightarrow> bool" where "cand_expired c \<equiv> snd (snd (snd c))"
abbreviation cand_inserted :: "candidate \<Rightarrow> u64" where "cand_inserted c \<equiv> fst (snd c)"

abbreviation costs :: "candidate list \<Rightarrow> nat" where "costs cs \<equiv> sum_list (map cand_cost cs)"

lemma foldl_usz_add: "foldl (\<lambda>n (_, _, cost, _). usz_add n cost) (min (2 ^ 64 - 1) a) cs = min (2 ^ 64 - 1) (a + costs cs)"
proof (induction cs arbitrary: a)
  case (Cons c cs)
  have "usz_add (min (2 ^ 64 - 1) a) (cand_cost c) = min (2 ^ 64 - 1) (a + cand_cost c)" by (simp add: usz_add_def)
  then show ?case using Cons.IH [of "a + cand_cost c"] by (simp add: case_prod_beta add.assoc)
qed simp

lemma foldl_costs: "foldl (\<lambda>n (_, _, cost, _). n - cost) a cs = a - costs cs"
  by (induction cs arbitrary: a) (auto simp: case_prod_beta)

lemma costs_mset: "mset a = mset b \<Longrightarrow> costs a = costs b"
  by (drule arg_cong [of _ _ "\<lambda>m. sum_mset (image_mset cand_cost m)"]) (simp only: mset_map [symmetric] sum_mset_sum_list)

lemma costs_split: "costs (filter cand_expired cs) + costs (filter (\<lambda>c. \<not> cand_expired c) cs) = costs cs"
  by (induction cs) auto

text \<open>The oldest go until the rest fits; the last one that went did not fit.\<close>

lemma evict_oldest_prefix:
  assumes "evict_oldest budget cs (costs cs) = (ks, rest)"
  shows "\<exists>n\<le>length cs. ks = map fst (take n cs) \<and> rest = costs (drop n cs) \<and> rest \<le> budget \<and>
    (0 < n \<longrightarrow> budget < costs (drop (n - 1) cs))"
  using assms
proof (induction cs arbitrary: ks rest)
  case (Cons c cs)
  obtain k i x y where c: "c = (k, i, x, y)" by (cases c)
  show ?case
  proof (cases "costs (c # cs) \<le> budget")
    case True
    then have "ks = [] \<and> rest = costs (c # cs)" using Cons.prems c by simp
    then show ?thesis using True by (intro exI [of _ 0]) simp
  next
    case False
    obtain ks' where e: "evict_oldest budget cs (costs cs) = (ks', rest)" "ks = k # ks'"
      using Cons.prems False c by (auto split: prod.splits)
    from Cons.IH [OF e(1)] obtain n where n: "n \<le> length cs" "ks' = map fst (take n cs)" "rest = costs (drop n cs)"
      "rest \<le> budget" "0 < n \<longrightarrow> budget < costs (drop (n - 1) cs)" by blast
    have "budget < costs (drop n (c # cs))" using n(5) False by (cases n) simp_all
    then show ?thesis using n e(2) c by (intro exI [of _ "Suc n"]) simp
  qed
qed simp

text \<open>
  The eviction of one insertion: from the candidates, the expired ones all go when the total is
  over the budget, then the oldest of the others.
\<close>

definition evicts_from :: "nat \<Rightarrow> candidate list \<Rightarrow> cache_key set \<Rightarrow> bool" where
  "evicts_from budget cs gone \<longleftrightarrow>
     (let live = filter (\<lambda>c. \<not> cand_expired c) cs in
      if costs cs \<le> budget then gone = {}
      else \<exists>old kept. mset (old @ kept) = mset live \<and> sorted (map cand_inserted (old @ kept)) \<and>
             gone = fst ` set (filter cand_expired cs) \<union> fst ` set old \<and> costs kept \<le> budget \<and>
             (old \<noteq> [] \<longrightarrow> budget < cand_cost (last old) + costs kept))"

lemma evict_all:
  assumes e: "evict_expired budget cs (costs cs) = (ks1, t1)" and l: "evict_live budget cs t1 = (ks2, t2)"
  shows "evicts_from budget cs (set (ks1 @ ks2)) \<and> t2 \<le> budget \<and>
    (costs cs \<le> budget \<longrightarrow> t2 = costs cs) \<and>
    (distinct (map fst cs) \<longrightarrow> t2 = costs (filter (\<lambda>c. fst c \<notin> set (ks1 @ ks2)) cs))"
proof (cases "costs cs \<le> budget")
  case True
  then show ?thesis using e l by (auto simp: evict_expired_def evict_live_def evicts_from_def Let_def)
next
  case False
  define x where "x = filter cand_expired cs"
  define live where "live = filter (\<lambda>c. \<not> cand_expired c) cs"
  define s where "s = sort_key cand_inserted live"
  have pat: "(\<lambda>(_, _, _, expired). expired) = (cand_expired :: candidate \<Rightarrow> bool)"
    "(\<lambda>(_, _, _, expired). \<not> expired) = (\<lambda>c :: candidate. \<not> cand_expired c)"
    "(\<lambda>(_, inserted, _, _). inserted) = (cand_inserted :: candidate \<Rightarrow> u64)" by (auto simp: fun_eq_iff)
  have 1: "ks1 = map fst x" "t1 = costs live"
    using e False costs_split [of cs] by (auto simp: evict_expired_def foldl_costs Let_def pat x_def live_def)
  have perm: "mset s = mset live" by (simp add: s_def)
  have sorted: "sorted (map cand_inserted s)" by (simp add: s_def)
  have cs_eq: "costs s = costs live" using perm by (rule costs_mset)
  have "\<exists>n\<le>length s. ks2 = map fst (take n s) \<and> t2 = costs (drop n s) \<and> t2 \<le> budget \<and>
      (0 < n \<longrightarrow> budget < costs (drop (n - 1) s))"
  proof (cases "t1 \<le> budget")
    case True
    then have "ks2 = [] \<and> t2 = t1" using l by (simp add: evict_live_def)
    then show ?thesis using True cs_eq 1(2) by (intro exI [of _ 0]) simp
  next
    case f: False
    then have "evict_oldest budget s (costs s) = (ks2, t2)"
      using l 1(2) cs_eq by (simp add: evict_live_def pat s_def live_def)
    then show ?thesis by (rule evict_oldest_prefix)
  qed
  then obtain n where n: "n \<le> length s" "ks2 = map fst (take n s)" "t2 = costs (drop n s)" "t2 \<le> budget"
    "0 < n \<longrightarrow> budget < costs (drop (n - 1) s)" by blast
  have last: "budget < cand_cost (last (take n s)) + costs (drop n s)" if ne: "take n s \<noteq> []"
  proof -
    have m: "0 < n" "n - 1 < length s" using ne n(1) by auto
    have "drop (n - 1) s = s ! (n - 1) # drop n s" using m Cons_nth_drop_Suc [of "n - 1" s] by simp
    moreover have "last (take n s) = s ! (n - 1)" using ne n(1) by (simp add: last_conv_nth)
    ultimately show ?thesis using n(5) m(1) by simp
  qed
  have "mset (take n s @ drop n s) = mset live \<and> sorted (map cand_inserted (take n s @ drop n s)) \<and>
      set (ks1 @ ks2) = fst ` set x \<union> fst ` set (take n s) \<and> costs (drop n s) \<le> budget \<and>
      (take n s \<noteq> [] \<longrightarrow> budget < cand_cost (last (take n s)) + costs (drop n s))"
    using perm sorted n(2-4) 1(1) by (auto simp only: append_take_drop_id set_append set_map dest: last)
  then have ev: "evicts_from budget cs (set (ks1 @ ks2))"
    unfolding evicts_from_def Let_def x_def [symmetric] live_def [symmetric] using False by (simp only: if_False) blast
  have rest: "t2 = costs (filter (\<lambda>c. fst c \<notin> set (ks1 @ ks2)) cs)" if d: "distinct (map fst cs)"
  proof -
    let ?P = "\<lambda>c. fst c \<notin> set (ks1 @ ks2)"
    have "mset cs = mset x + mset live"
      using multiset_partition [of "mset cs" cand_expired] by (simp add: x_def live_def)
    then have ms: "mset cs = mset (x @ take n s @ drop n s)"
      using perm by (simp only: append_take_drop_id mset_append)
    have "distinct (map fst (x @ take n s @ drop n s))"
      using d mset_eq_imp_distinct_iff [of "map fst cs" "map fst (x @ take n s @ drop n s)"] ms by (simp only: mset_map)
    then have dm: "distinct (map fst x @ map fst (take n s) @ map fst (drop n s))" by (simp only: map_append)
    have "filter ?P x = []" "filter ?P (take n s) = []" using 1(1) n(2) by (auto simp: filter_empty_conv)
    moreover have "filter ?P (drop n s) = drop n s"
    proof (rule filter_True, rule ballI)
      fix c assume "c \<in> set (drop n s)"
      then have "fst c \<in> set (map fst (drop n s))" by simp
      then show "?P c" using dm 1(1) n(2) by (simp only: distinct_append set_append) blast
    qed
    ultimately have "filter ?P (x @ take n s @ drop n s) = drop n s" by (simp only: filter_append append_Nil)
    then have "mset (filter ?P cs) = mset (drop n s)" using ms by (metis mset_filter)
    then show ?thesis using n(3) costs_mset by metis
  qed
  show ?thesis using ev rest n(4) False by simp
qed

section \<open>Insertion\<close>

definition candidate_of :: "u64 \<Rightarrow> cache_key \<times> cache_entry \<Rightarrow> candidate" where
  "candidate_of now = (\<lambda>(k, e). (k, ce_inserted_at_ms e, entry_cost e, entry_expired now e))"

definition tenant_entries :: "string \<Rightarrow> cache_shard list \<Rightarrow> cache_shard" where
  "tenant_entries t ms = filter (\<lambda>(k, _). ck_tenant_id k = t) (concat ms)"

definition tenant_candidates :: "u64 \<Rightarrow> string \<Rightarrow> cache_shard list \<Rightarrow> candidate list" where
  "tenant_candidates now t ms = map (candidate_of now) (tenant_entries t ms)"

lemma evicts_from_mset:
  assumes "mset a = mset b"
  shows "evicts_from budget a gone \<longleftrightarrow> evicts_from budget b gone"
proof -
  have "set a = set b" using assms by (rule mset_eq_setD)
  moreover have "mset (filter P a) = mset (filter P b)" for P using assms by (simp add: mset_filter)
  moreover have "costs a = costs b" using assms by (rule costs_mset)
  ultimately show ?thesis by (simp add: evicts_from_def Let_def)
qed

lemma costs_tenant_candidates: "costs (tenant_candidates now t ms) = spent ms t"
proof -
  have "sum_list (map (cand_cost \<circ> candidate_of now) (filter (\<lambda>(k, _). ck_tenant_id k = t) m)) = shard_spent t m" for m
    by (induction m) (auto simp: candidate_of_def)
  then have "sum_list (map (cand_cost \<circ> candidate_of now) (filter (\<lambda>(k, _). ck_tenant_id k = t) (concat ms))) = spent ms t"
    by (induction ms) (simp_all add: spent_def)
  then show ?thesis by (simp add: tenant_candidates_def tenant_entries_def)
qed

text \<open>Every entry sits in the shard of its key.\<close>

definition sharded :: "cache_shard list \<Rightarrow> bool" where
  "sharded ms \<longleftrightarrow> length ms = SHARD_COUNT \<and>
     (\<forall>i<SHARD_COUNT. shard_ok (ms ! i) \<and> (\<forall>k\<in>fst ` set (ms ! i). cache_key_shard k = i))"

lemma core_ok_sharded: "core_ok core \<Longrightarrow> sharded (cc_shards core)"
  by (fastforce simp: core_ok_def sharded_def)

lemma distinct_sharded:
  assumes "sharded ms"
  shows "distinct (map fst (concat ms))"
proof -
  have "distinct (map fst (concat (map ((!) ms) [0..<n]))) \<and>
      cache_key_shard ` fst ` set (concat (map ((!) ms) [0..<n])) \<subseteq> {..<n}" if "n \<le> SHARD_COUNT" for n
    using that
  proof (induction n)
    case (Suc n)
    have k: "\<forall>k\<in>fst ` set (ms ! n). cache_key_shard k = n" "distinct (map fst (ms ! n))"
      using assms Suc.prems by (auto simp: sharded_def shard_ok_def)
    define A where "A = concat (map ((!) ms) [0..<n])"
    have IH: "distinct (map fst A)" "\<forall>x\<in>fst ` set A. cache_key_shard x < n"
      using Suc unfolding A_def by auto
    have "fst ` set A \<inter> fst ` set (ms ! n) = {}" using IH(2) k(1) by fastforce
    then have "distinct (map fst (A @ ms ! n))" using IH(1) k(2) by simp
    moreover have "cache_key_shard ` fst ` set (A @ ms ! n) \<subseteq> {..<Suc n}"
      using IH(2) k(1) by (auto simp: less_Suc_eq)
    ultimately show ?case by (simp add: A_def del: set_append set_concat)
  qed simp
  from this [of SHARD_COUNT] show ?thesis using assms map_nth [of ms] by (simp add: sharded_def)
qed

lemma set_shard_insert: "set (shard_insert k e m) = insert (k, e) {x \<in> set m. fst x \<noteq> k}"
  by (auto simp: shard_insert_def shard_remove_def)

lemma sharded_insert:
  assumes "sharded ms"
  shows "sharded (ms[cache_key_shard k := shard_insert k e (ms ! cache_key_shard k)])"
  using assms cache_key_shard_less [of k]
  by (auto simp: sharded_def nth_list_update shard_ok_insert set_shard_insert)

lemma remove_keys_filter:
  assumes "\<forall>k\<in>fst ` set m. cache_key_shard k = i"
  shows "remove_keys i ks m = filter (\<lambda>(k, _). k \<notin> set ks) m"
proof -
  have "fold shard_remove xs m = filter (\<lambda>(k, _). k \<notin> set xs) m" for xs and m :: cache_shard
  proof (induction xs arbitrary: m)
    case (Cons x xs)
    show ?case unfolding fold_simps comp_def Cons.IH
      by (auto simp: shard_remove_def case_prod_beta intro: filter_cong)
  qed simp
  then show ?thesis using assms unfolding remove_keys_def by (auto intro!: filter_cong)
qed

lemma map_of_filter_keys: "map_of (filter (\<lambda>(k, _). k \<notin> gone) m) k = (if k \<in> gone then None else map_of m k)"
  by (induction m) auto

lemma sharded_filter: "sharded ms \<Longrightarrow> sharded (map (filter P) ms)"
  by (auto simp: sharded_def shard_ok_filter)

lemma tenant_entries_filter: "tenant_entries t (map (filter P) ms) = filter P (tenant_entries t ms)"
  by (induction ms) (auto simp: tenant_entries_def conj_commute)

lemma spent_filter:
  "spent (map (filter (\<lambda>(k, _). k \<notin> gone)) ms) t = costs (filter (\<lambda>c. fst c \<notin> gone) (tenant_candidates now t ms))"
proof -
  have "tenant_candidates now t (map (filter (\<lambda>(k, _). k \<notin> gone)) ms) =
      filter (\<lambda>c. fst c \<notin> gone) (tenant_candidates now t ms)"
    unfolding tenant_candidates_def tenant_entries_filter filter_map
    by (auto simp: candidate_of_def case_prod_beta comp_def intro!: filter_cong map_cong)
  then show ?thesis using costs_tenant_candidates by metis
qed

lemma keys_of_candidates: "map fst (tenant_candidates now t ms) = map fst (tenant_entries t ms)"
  by (simp add: tenant_candidates_def candidate_of_def case_prod_beta)

lemma evicts_from_keys: "evicts_from budget cs gone \<Longrightarrow> gone \<subseteq> fst ` set cs"
proof -
  assume a: "evicts_from budget cs gone"
  show ?thesis
  proof (cases "costs cs \<le> budget")
    case False
    then obtain old kept where "mset (old @ kept) = mset (filter (\<lambda>c. \<not> cand_expired c) cs)"
      and g: "gone = fst ` set (filter cand_expired cs) \<union> fst ` set old"
      using a unfolding evicts_from_def Let_def by auto
    then have "set (old @ kept) = set (filter (\<lambda>c. \<not> cand_expired c) cs)" by (intro mset_eq_setD)
    then show ?thesis using g by auto
  qed (use a in \<open>simp add: evicts_from_def Let_def\<close>)
qed

text \<open>The store with the entry put in, before any eviction.\<close>

definition with_entry :: "cache_key \<Rightarrow> cache_entry \<Rightarrow> cache_shard list \<Rightarrow> cache_shard list" where
  "with_entry k e ms = ms[cache_key_shard k := shard_insert k e (ms ! cache_key_shard k)]"

definition admissible :: "capacity_plan \<Rightarrow> cache_key \<Rightarrow> cache_entry \<Rightarrow> bool" where
  "admissible plan k e \<longleftrightarrow>
     (case tenant_index plan (ck_tenant_id k) of
        None \<Rightarrow> False
      | Some i \<Rightarrow> length (ce_body e) \<le> MAX_ENTRY_BYTES \<and> entry_cost e \<le> pl_storage_budgets plan ! i)"

text \<open>
  One insertion of an admissible entry: what goes is an eviction from the inserting tenant's
  entries, the new one among them; the tenant's byte count is that of what stays.
\<close>

definition inserts :: "u64 \<Rightarrow> cache_key \<Rightarrow> cache_entry \<Rightarrow> cache_core \<Rightarrow> cache_core \<Rightarrow> cache_key set \<Rightarrow> bool" where
  "inserts now k e core core' gone \<longleftrightarrow>
     (\<exists>i. tenant_index (cc_capacity core) (ck_tenant_id k) = Some i \<and>
        evicts_from (pl_storage_budgets (cc_capacity core) ! i)
          (tenant_candidates now (ck_tenant_id k) (with_entry k e (cc_shards core))) gone \<and>
        cc_shards core' = map (filter (\<lambda>(k', _). k' \<notin> gone)) (with_entry k e (cc_shards core)) \<and>
        cc_tenant_bytes core' = (cc_tenant_bytes core)[i := spent (cc_shards core') (ck_tenant_id k)] \<and>
        spent (cc_shards core') (ck_tenant_id k) \<le> pl_storage_budgets (cc_capacity core) ! i)"

lemma spent_with_entry:
  assumes "sharded ms"
  shows "spent (with_entry k e ms) t +
      (case map_of (ms ! cache_key_shard k) k of Some p \<Rightarrow> if ck_tenant_id k = t then entry_cost p else 0 | None \<Rightarrow> 0) =
    spent ms t + (if ck_tenant_id k = t then entry_cost e else 0)"
proof -
  have i: "cache_key_shard k < length ms" "shard_ok (ms ! cache_key_shard k)"
    using assms cache_key_shard_less [of k] by (simp_all add: sharded_def)
  show ?thesis
    using spent_update [OF i(1), of "shard_insert k e (ms ! cache_key_shard k)" t]
      shard_spent_insert [OF i(2), of t k e] by (simp add: with_entry_def)
qed

lemma filter_none_gone: "map (filter (\<lambda>(k, _). k \<notin> {})) ms = ms"
  by (intro map_idI) (auto intro: filter_True)

lemma apply_insert_rejects:
  "\<not> admissible (cc_capacity core) k e \<Longrightarrow>
     cc_shards (apply_insert iter now k e core) = cc_shards core \<and>
     cc_tenant_bytes (apply_insert iter now k e core) = cc_tenant_bytes core"
  by (auto simp: apply_insert_def admissible_def record_oversize_def Let_def split: option.splits)

lemma apply_insert_capacity [simp]: "cc_capacity (apply_insert iter now k e core) = cc_capacity core"
  by (auto simp: apply_insert_def record_oversize_def Let_def split: option.splits prod.splits)

lemma gathered_candidates:
  assumes "iter_ok iter"
  shows "mset (concat (map (\<lambda>i. shard_candidates iter now t (shard i)) xs)) = mset (tenant_candidates now t (map shard xs))"
proof -
  have "mset (shard_candidates iter now t m) = mset (map (candidate_of now) (filter (\<lambda>(k, _). ck_tenant_id k = t) m))" for m
    using assms by (simp add: iter_ok_def shard_candidates_def candidate_of_def)
  then show ?thesis by (induction xs) (simp_all add: tenant_candidates_def tenant_entries_def)
qed

lemma replaced_le:
  assumes "sharded ms"
  shows "(case map_of (ms ! cache_key_shard k) k of Some p \<Rightarrow> entry_cost p | None \<Rightarrow> 0) \<le> spent ms (ck_tenant_id k)"
proof -
  have i: "cache_key_shard k < length ms" "shard_ok (ms ! cache_key_shard k)"
    using assms cache_key_shard_less [of k] by (simp_all add: sharded_def)
  have "shard_spent (ck_tenant_id k) (ms ! cache_key_shard k) \<le> spent ms (ck_tenant_id k)"
    using elem_le_sum_list [of "cache_key_shard k" "map (shard_spent (ck_tenant_id k)) ms"] i by (simp add: spent_def)
  then show ?thesis using shard_spent_remove [OF i(2), of "ck_tenant_id k" k] by (simp cong: option.case_cong)
qed

lemma distinct_candidates:
  assumes "sharded ms"
  shows "distinct (map fst (tenant_candidates now t ms))"
  unfolding keys_of_candidates tenant_entries_def using distinct_sharded [OF assms] by (rule distinct_map_filter)

lemma apply_insert_inserts:
  assumes ok: "core_ok core" and it: "iter_ok iter" and ad: "admissible (cc_capacity core) k e"
  shows "\<exists>gone. inserts now k e core (apply_insert iter now k e core) gone"
proof -
  let ?plan = "cc_capacity core" and ?t = "ck_tenant_id k" and ?idx = "cache_key_shard k"
  define pre where "pre = with_entry k e (cc_shards core)"
  define shard where "shard = (\<lambda>i. if i = ?idx then shard_insert k e (cc_shards core ! ?idx) else cc_shards core ! i)"
  obtain ti where ti: "tenant_index ?plan ?t = Some ti" and sz: "\<not> MAX_ENTRY_BYTES < length (ce_body e)"
    and fits: "\<not> pl_storage_budgets ?plan ! ti < entry_cost e" using ad by (auto simp: admissible_def split: option.splits)
  define budget where "budget = pl_storage_budgets ?plan ! ti"
  define replaced where "replaced = (case map_of (cc_shards core ! ?idx) k of Some prior \<Rightarrow> entry_cost prior | None \<Rightarrow> 0)"
  have sh: "sharded (cc_shards core)" by (rule core_ok_sharded [OF ok])
  have pre: "sharded pre" unfolding pre_def with_entry_def by (rule sharded_insert [OF sh])
  have bytes: "cc_tenant_bytes core ! ti = spent (cc_shards core) ?t" "spent (cc_shards core) ?t \<le> budget" and b: "budget < 2 ^ 63"
    using ok ti plan_index(3) [of ?plan ?t ti] by (simp_all add: core_ok_def budget_def)
  have sp: "spent pre ?t + replaced = spent (cc_shards core) ?t + entry_cost e"
    using spent_with_entry [OF sh, of k e ?t] by (simp add: pre_def replaced_def cong: option.case_cong)
  have rl: "replaced \<le> spent (cc_shards core) ?t" unfolding replaced_def by (rule replaced_le [OF sh])
  have small: "spent pre ?t < 2 ^ 64 - 1" using sp bytes(2) b fits by (simp add: budget_def)
  have proj: "usz_add (cc_tenant_bytes core ! ti - replaced) (entry_cost e) = spent pre ?t"
    using sp rl small bytes(1) by (simp add: usz_add_def)
  show ?thesis
  proof (cases "spent pre ?t \<le> budget")
    case True
    have "apply_insert iter now k e core =
        core\<lparr>cc_shards := pre, cc_tenant_bytes := (cc_tenant_bytes core)[ti := spent pre ?t]\<rparr>"
      using ti sz fits True proj
      by (simp add: apply_insert_def Let_def budget_def pre_def with_entry_def replaced_def)
    then have "inserts now k e core (apply_insert iter now k e core) {}"
      using ti True unfolding inserts_def pre_def [symmetric] filter_none_gone
      by (simp add: evicts_from_def costs_tenant_candidates budget_def)
    then show ?thesis by blast
  next
    case False
    define cands where "cands = concat (map (\<lambda>i. shard_candidates iter now ?t (shard i)) [0..<SHARD_COUNT])"
    have len: "length (cc_shards core) = SHARD_COUNT" using sh by (simp add: sharded_def)
    have pre_eq: "map shard [0..<SHARD_COUNT] = pre"
      using len by (intro nth_equalityI) (auto simp: pre_def with_entry_def shard_def nth_list_update)
    have ms: "mset cands = mset (tenant_candidates now ?t pre)"
      unfolding cands_def pre_eq [symmetric] by (rule gathered_candidates [OF it])
    have cc: "costs cands = spent pre ?t" using costs_mset [OF ms] costs_tenant_candidates by metis
    have d: "distinct (map fst cands)"
      using distinct_candidates [OF pre, of now ?t] ms by (metis mset_eq_imp_distinct_iff mset_map)
    have tot: "foldl (\<lambda>n (_, _, cost, _). usz_add n cost) 0 cands = costs cands"
      using foldl_usz_add [of 0 cands] small cc by simp
    obtain ks1 t1 where e1: "evict_expired budget cands (costs cands) = (ks1, t1)" by fastforce
    obtain ks2 t2 where e2: "evict_live budget cands t1 = (ks2, t2)" by fastforce
    note all = evict_all [OF e1 e2]
    define gone where "gone = set (ks1 @ ks2)"
    have "apply_insert iter now k e core =
        core\<lparr>cc_shards := map (\<lambda>i. remove_keys i (ks1 @ ks2) (shard i)) [0..<SHARD_COUNT],
             cc_tenant_bytes := (cc_tenant_bytes core)[ti := t2]\<rparr>"
      using ti sz fits False proj e1 e2 tot
      by (simp add: apply_insert_def Let_def budget_def replaced_def flip: shard_def cands_def)
    moreover have "map (\<lambda>i. remove_keys i (ks1 @ ks2) (shard i)) [0..<SHARD_COUNT] = map (filter (\<lambda>(k', _). k' \<notin> gone)) pre"
    proof -
      have "remove_keys i (ks1 @ ks2) (shard i) = filter (\<lambda>(k', _). k' \<notin> gone) (shard i)" if i: "i < SHARD_COUNT" for i
      proof -
        have "shard i = pre ! i" using i pre_eq by (metis diff_zero length_upt nth_map_upt add_0)
        then have "\<forall>k\<in>fst ` set (shard i). cache_key_shard k = i" using pre i by (simp add: sharded_def)
        then show ?thesis unfolding gone_def by (rule remove_keys_filter)
      qed
      then show ?thesis unfolding pre_eq [symmetric] by simp
    qed
    moreover have "t2 = spent (map (filter (\<lambda>(k', _). k' \<notin> gone)) pre) ?t"
    proof -
      have "mset (filter (\<lambda>c. fst c \<notin> gone) cands) = mset (filter (\<lambda>c. fst c \<notin> gone) (tenant_candidates now ?t pre))"
        using ms by simp
      from costs_mset [OF this] show ?thesis using all d spent_filter gone_def by metis
    qed
    moreover have "evicts_from budget (tenant_candidates now ?t pre) gone" "t2 \<le> budget"
      using all evicts_from_mset [OF ms] by (simp_all add: gone_def)
    ultimately have "inserts now k e core (apply_insert iter now k e core) gone"
      using ti unfolding inserts_def pre_def [symmetric] by (simp add: budget_def)
    then show ?thesis by blast
  qed
qed

lemma gone_tenant: "inserts now k e core core' gone \<Longrightarrow> k' \<in> gone \<Longrightarrow> ck_tenant_id k' = ck_tenant_id k"
proof -
  assume i: "inserts now k e core core' gone" and k': "k' \<in> gone"
  then have "k' \<in> set (map fst (tenant_candidates now (ck_tenant_id k) (with_entry k e (cc_shards core))))"
    using evicts_from_keys unfolding inserts_def by fastforce
  then show ?thesis unfolding keys_of_candidates by (auto simp: tenant_entries_def)
qed

lemma cached_insert:
  assumes "sharded (cc_shards core)" and "inserts now k e core core' gone"
  shows "cached core' k' = (if k' \<in> gone then None else if k' = k then Some e else cached core k')"
proof -
  have "cache_key_shard k' < length (with_entry k e (cc_shards core))" "cache_key_shard k' < length (cc_shards core)"
    "cache_key_shard k < length (cc_shards core)"
    using assms(1) cache_key_shard_less by (simp_all add: with_entry_def sharded_def)
  then show ?thesis using assms(2)
    by (auto simp: cached_def inserts_def map_of_filter_keys with_entry_def nth_list_update)
qed

lemma spent_others:
  assumes "sharded (cc_shards core)" and "inserts now k e core core' gone" and "t \<noteq> ck_tenant_id k"
  shows "spent (cc_shards core') t = spent (cc_shards core) t"
proof -
  let ?pre = "with_entry k e (cc_shards core)"
  have "fst c \<notin> gone" if "c \<in> set (tenant_candidates now t ?pre)" for c
  proof -
    have "fst c \<in> set (map fst (tenant_candidates now t ?pre))" using that by simp
    then have "ck_tenant_id (fst c) = t" unfolding keys_of_candidates by (auto simp: tenant_entries_def)
    then show ?thesis using gone_tenant [OF assms(2)] assms(3) by blast
  qed
  then have "filter (\<lambda>c. fst c \<notin> gone) (tenant_candidates now t ?pre) = tenant_candidates now t ?pre"
    by (intro filter_True) blast
  then have "spent (cc_shards core') t = spent ?pre t"
    using assms(2) costs_tenant_candidates spent_filter [of gone ?pre t now] unfolding inserts_def by metis
  also have "\<dots> = spent (cc_shards core) t"
    using spent_with_entry [OF assms(1), of k e t] assms(3) by (simp split: option.splits)
  finally show ?thesis .
qed

lemma set_with_entry:
  assumes "i < SHARD_COUNT" and "length ms = SHARD_COUNT"
  shows "set (with_entry k e ms ! i) \<subseteq> set (ms ! i) \<union> (if i = cache_key_shard k then {(k, e)} else {})"
  using assms by (auto simp: with_entry_def nth_list_update set_shard_insert)

lemma apply_insert_ok:
  assumes ok: "core_ok core" and it: "iter_ok iter"
  shows "core_ok (apply_insert iter now k e core)"
proof (cases "admissible (cc_capacity core) k e")
  case False
  from apply_insert_rejects [OF this, of iter now] show ?thesis using ok by (simp add: core_ok_def)
next
  case ad: True
  define core' where "core' = apply_insert iter now k e core"
  obtain gone where ins: "inserts now k e core core' gone"
    using apply_insert_inserts [OF ok it ad] core'_def by blast
  have sh: "sharded (cc_shards core)" by (rule core_ok_sharded [OF ok])
  let ?pre = "with_entry k e (cc_shards core)"
  obtain ti where ti: "tenant_index (cc_capacity core) (ck_tenant_id k) = Some ti"
    and bytes: "cc_tenant_bytes core' = (cc_tenant_bytes core)[ti := spent (cc_shards core') (ck_tenant_id k)]"
    and shards: "cc_shards core' = map (filter (\<lambda>(k', _). k' \<notin> gone)) ?pre"
    and le: "spent (cc_shards core') (ck_tenant_id k) \<le> pl_storage_budgets (cc_capacity core) ! ti"
    using ins unfolding inserts_def by blast
  have body: "length (ce_body e) \<le> MAX_ENTRY_BYTES" using ad ti by (simp add: admissible_def)
  have sh': "sharded (cc_shards core')" unfolding shards with_entry_def by (rule sharded_filter [OF sharded_insert [OF sh]])
  have cap: "cc_capacity core' = cc_capacity core" by (simp add: core'_def)
  have len: "length (cc_shards core) = SHARD_COUNT" "length ?pre = SHARD_COUNT"
    using sh by (simp_all add: sharded_def with_entry_def)
  have entries: "cache_key_shard k' = i \<and> length (ce_body e') \<le> MAX_ENTRY_BYTES \<and>
      tenant_index (cc_capacity core) (ck_tenant_id k') \<noteq> None"
    if i: "i < SHARD_COUNT" and m: "(k', e') \<in> set (cc_shards core' ! i)" for i k' e'
  proof -
    have "(k', e') \<in> set (?pre ! i)" using m i len(2) by (auto simp: shards)
    then have "(k', e') \<in> set (cc_shards core ! i) \<or> i = cache_key_shard k \<and> k' = k \<and> e' = e"
      using set_with_entry [OF i len(1), of k e] by (auto split: if_splits)
    then show ?thesis using ok i body ti unfolding core_ok_def by fastforce
  qed
  have totals: "cc_tenant_bytes core' ! i = spent (cc_shards core') t \<and>
      spent (cc_shards core') t \<le> pl_storage_budgets (cc_capacity core) ! i"
    if "tenant_index (cc_capacity core) t = Some i" for t i
  proof (cases "t = ck_tenant_id k")
    case True
    have "ti < length (cc_tenant_bytes core)" using ok plan_index(1) [OF _ ti] by (simp add: core_ok_def)
    then show ?thesis using True that ti le bytes by simp
  next
    case False
    have p: "plan_ok (cc_capacity core)" using ok by (simp add: core_ok_def)
    then have "i \<noteq> ti" using False that ti plan_index_inj by blast
    then show ?thesis using bytes that ok spent_others [OF sh ins False] by (simp add: core_ok_def)
  qed
  have "core_ok core'"
    unfolding core_ok_def cap
    using ok sh' bytes entries totals by (auto simp: core_ok_def sharded_def)
  then show ?thesis by (simp add: core'_def)
qed

text \<open>What the inserting tenant's other entries and the new one can count on.\<close>

lemma evicts_split:
  assumes ev: "evicts_from budget cs gone" and d: "distinct (map fst cs)" and over: "budget < costs cs"
  obtains old kept where "distinct (old @ kept)" "sorted (map cand_inserted (old @ kept))"
    "set old \<union> set kept = {c \<in> set cs. \<not> cand_expired c}"
    "old \<noteq> [] \<longrightarrow> budget < cand_cost (last old) + costs kept"
    "\<forall>c\<in>set cs. \<not> cand_expired c \<longrightarrow> (fst c \<in> gone \<longleftrightarrow> c \<in> set old)"
proof -
  obtain old kept where m: "mset (old @ kept) = mset (filter (\<lambda>c. \<not> cand_expired c) cs)"
    and s: "sorted (map cand_inserted (old @ kept))"
    and g: "gone = fst ` set (filter cand_expired cs) \<union> fst ` set old"
    and l: "old \<noteq> [] \<longrightarrow> budget < cand_cost (last old) + costs kept"
    using ev over unfolding evicts_from_def Let_def by auto
  have set: "set old \<union> set kept = {c \<in> set cs. \<not> cand_expired c}"
    using mset_eq_setD [OF m] by simp
  have dist: "distinct (old @ kept)"
    using mset_eq_imp_distinct_iff [OF m] d by (simp add: distinct_map)
  have iff: "fst c \<in> gone \<longleftrightarrow> c \<in> set old" if c: "c \<in> set cs" "\<not> cand_expired c" for c
  proof
    assume "fst c \<in> gone"
    then have "fst c \<in> fst ` (set (filter cand_expired cs) \<union> set old)" unfolding g image_Un .
    then obtain x where eq: "fst c = fst x" and x: "x \<in> set (filter cand_expired cs) \<union> set old" by (rule imageE)
    then have "x \<in> set cs" using set by auto
    then have "x = c" using d c(1) eq unfolding distinct_map by (metis inj_onD)
    then show "c \<in> set old" using x(1) c(2) by auto
  qed (use g in simp)
  then show thesis using that [OF dist s set l] by blast
qed

lemma evicts_live_order:
  assumes ev: "evicts_from budget cs gone" and d: "distinct (map fst cs)"
    and c: "c \<in> set cs" "\<not> cand_expired c" "fst c \<in> gone"
    and c': "c' \<in> set cs" "\<not> cand_expired c'" "fst c' \<notin> gone"
  shows "cand_inserted c \<le> cand_inserted c'"
proof -
  have over: "budget < costs cs"
  proof (rule ccontr)
    assume "\<not> budget < costs cs"
    then have "gone = {}" using ev by (simp add: evicts_from_def)
    then show False using c(3) by simp
  qed
  obtain old kept where "distinct (old @ kept)" and s: "sorted (map cand_inserted (old @ kept))"
    and set: "set old \<union> set kept = {c \<in> set cs. \<not> cand_expired c}"
    and "old \<noteq> [] \<longrightarrow> budget < cand_cost (last old) + costs kept"
    and g: "\<forall>c\<in>set cs. \<not> cand_expired c \<longrightarrow> (fst c \<in> gone \<longleftrightarrow> c \<in> set old)"
    using evicts_split [OF ev d over] by blast
  have "c \<in> set old" using g c by blast
  moreover have "c' \<in> set kept" using c' g set by blast
  ultimately show ?thesis using s by (auto simp: sorted_append)
qed

lemma newest_stays:
  assumes ev: "evicts_from budget cs gone" and d: "distinct (map fst cs)"
    and c: "c \<in> set cs" "\<not> cand_expired c" "cand_cost c \<le> budget"
    and newest: "\<And>c'. c' \<in> set cs \<Longrightarrow> c' \<noteq> c \<Longrightarrow> \<not> cand_expired c' \<Longrightarrow> cand_inserted c' < cand_inserted c"
  shows "fst c \<notin> gone"
proof (cases "costs cs \<le> budget")
  case False
  then have over: "budget < costs cs" by simp
  obtain old kept where dist: "distinct (old @ kept)" and s: "sorted (map cand_inserted (old @ kept))"
    and set: "set old \<union> set kept = {c \<in> set cs. \<not> cand_expired c}"
    and l: "old \<noteq> [] \<longrightarrow> budget < cand_cost (last old) + costs kept"
    and g: "\<forall>c\<in>set cs. \<not> cand_expired c \<longrightarrow> (fst c \<in> gone \<longleftrightarrow> c \<in> set old)"
    using evicts_split [OF ev d over] by blast
  have older: "cand_inserted x < cand_inserted c" if "x \<in> set old \<union> set kept" "x \<noteq> c" for x
    using newest [of x] that unfolding set by blast
  have "c \<notin> set old"
  proof
    assume o: "c \<in> set old"
    have "kept = []"
    proof (rule ccontr)
      assume "kept \<noteq> []"
      then obtain x where x: "x \<in> set kept" by (cases kept) auto
      then have "cand_inserted c \<le> cand_inserted x" "x \<noteq> c" using s o dist by (auto simp: sorted_append)
      then show False using older [of x] x by auto
    qed
    moreover have "last old = c"
    proof (rule ccontr)
      assume ne: "last old \<noteq> c"
      have old: "old = butlast old @ [last old]" using o by (cases old rule: rev_cases) auto
      have "c \<in> set (butlast old @ [last old])" using o old by simp
      then have "c \<in> set (butlast old)" using ne by simp
      moreover have "sorted (map cand_inserted (butlast old @ [last old]))" using s old by (metis map_append sorted_append)
      ultimately have "cand_inserted c \<le> cand_inserted (last old)" by (auto simp: sorted_append)
      moreover have "last old \<in> set old" using o by (cases old rule: rev_cases) auto
      ultimately show False using older [of "last old"] ne by auto
    qed
    moreover have "old \<noteq> []" using o by auto
    ultimately show False using l c(3) by simp
  qed
  then show ?thesis using c(1,2) g by blast
qed (use ev in \<open>simp add: evicts_from_def\<close>)

section \<open>Stores shared by tenants\<close>

text \<open>
  A store that tenants insert into, each within a share of its own: an insertion leaves what is
  stored for the others alone.
\<close>

locale tenant_store =
  fixes ok :: "'s \<Rightarrow> bool" and valid :: "'i \<Rightarrow> bool" and insertion :: "'i \<Rightarrow> 's \<Rightarrow> 's"
    and stored :: "'s \<Rightarrow> 'k \<Rightarrow> 'e option" and owner :: "'k \<Rightarrow> 't" and inserter :: "'i \<Rightarrow> 't"
    and used :: "'s \<Rightarrow> 't \<Rightarrow> nat" and share :: "'s \<Rightarrow> 't \<Rightarrow> nat"
  assumes insertion_ok: "ok s \<Longrightarrow> valid i \<Longrightarrow> ok (insertion i s)"
    and insertion_foreign: "ok s \<Longrightarrow> valid i \<Longrightarrow> owner k \<noteq> inserter i \<Longrightarrow> stored (insertion i s) k = stored s k"
    and used_foreign: "ok s \<Longrightarrow> valid i \<Longrightarrow> t \<noteq> inserter i \<Longrightarrow> used (insertion i s) t = used s t"
    and share_same: "share (insertion i s) = share s"
    and within_share: "ok s \<Longrightarrow> used s t \<le> share s t"
begin

lemma run_ok: "ok s \<Longrightarrow> \<forall>i\<in>set is. valid i \<Longrightarrow> ok (fold insertion is s)"
  by (induction "is" arbitrary: s) (auto intro: insertion_ok)

lemma run_foreign:
  "ok s \<Longrightarrow> \<forall>i\<in>set is. valid i \<and> inserter i \<noteq> owner k \<Longrightarrow> stored (fold insertion is s) k = stored s k"
  by (induction "is" arbitrary: s) (auto simp: insertion_ok insertion_foreign)

lemma run_used_foreign:
  "ok s \<Longrightarrow> \<forall>i\<in>set is. valid i \<and> inserter i \<noteq> t \<Longrightarrow> used (fold insertion is s) t = used s t"
  by (induction "is" arbitrary: s) (auto simp: insertion_ok used_foreign)

lemma run_share: "share (fold insertion is s) = share s"
  by (induction "is" arbitrary: s) (auto simp: share_same)

lemma run_within: "ok s \<Longrightarrow> \<forall>i\<in>set is. valid i \<Longrightarrow> used (fold insertion is s) t \<le> share s t"
  using within_share [OF run_ok] run_share by metis

end

text \<open>An insertion, with the iteration order and the clock it meets.\<close>

type_synonym cache_put = "(cache_shard \<Rightarrow> cache_shard) \<times> u64 \<times> cache_key \<times> cache_entry"

fun do_put :: "cache_put \<Rightarrow> cache_core \<Rightarrow> cache_core" where
  "do_put (iter, now, k, e) core = apply_insert iter now k e core"

fun put_ok :: "cache_put \<Rightarrow> bool" where
  "put_ok (iter, _, _, _) = iter_ok iter"

fun put_tenant :: "cache_put \<Rightarrow> string" where
  "put_tenant (_, _, k, _) = ck_tenant_id k"

definition tenant_spent :: "cache_core \<Rightarrow> string \<Rightarrow> nat" where
  "tenant_spent core t = spent (cc_shards core) t"

definition tenant_share :: "cache_core \<Rightarrow> string \<Rightarrow> nat" where
  "tenant_share core t =
     (case tenant_index (cc_capacity core) t of None \<Rightarrow> 0 | Some i \<Rightarrow> pl_storage_budgets (cc_capacity core) ! i)"

lemma spent_unregistered:
  assumes "core_ok core" "tenant_index (cc_capacity core) t = None"
  shows "spent (cc_shards core) t = 0"
proof -
  have "shard_spent t (cc_shards core ! i) = 0" if "i < SHARD_COUNT" for i
    using assms that by (fastforce simp: core_ok_def shard_spent_def sum_list_eq_0_iff)
  then show ?thesis using assms(1) by (auto simp: spent_def sum_list_eq_0_iff core_ok_def in_set_conv_nth)
qed

lemma apply_insert_foreign:
  assumes "core_ok core" "iter_ok iter" "t \<noteq> ck_tenant_id k"
  shows "ck_tenant_id k' = t \<Longrightarrow> cached (apply_insert iter now k e core) k' = cached core k'"
    and "spent (cc_shards (apply_insert iter now k e core)) t = spent (cc_shards core) t"
proof -
  have "(ck_tenant_id k' = t \<longrightarrow> cached (apply_insert iter now k e core) k' = cached core k') \<and>
      spent (cc_shards (apply_insert iter now k e core)) t = spent (cc_shards core) t"
  proof (cases "admissible (cc_capacity core) k e")
    case True
    obtain gone where ins: "inserts now k e core (apply_insert iter now k e core) gone"
      using apply_insert_inserts [OF assms(1,2) True] by blast
    note sh = core_ok_sharded [OF assms(1)]
    show ?thesis
      using cached_insert [OF sh ins] gone_tenant [OF ins] spent_others [OF sh ins assms(3)] assms(3) by auto
  next
    case False
    then show ?thesis using apply_insert_rejects by (simp add: cached_def)
  qed
  then show "ck_tenant_id k' = t \<Longrightarrow> cached (apply_insert iter now k e core) k' = cached core k'"
    and "spent (cc_shards (apply_insert iter now k e core)) t = spent (cc_shards core) t" by simp_all
qed

interpretation cache: tenant_store core_ok put_ok do_put cached ck_tenant_id put_tenant tenant_spent tenant_share
proof
  fix core and p :: cache_put and k t
  obtain iter now k' e where p: "p = (iter, now, k', e)" by (cases p)
  show "core_ok core \<Longrightarrow> put_ok p \<Longrightarrow> core_ok (do_put p core)" using apply_insert_ok p by simp
  show "core_ok core \<Longrightarrow> put_ok p \<Longrightarrow> ck_tenant_id k \<noteq> put_tenant p \<Longrightarrow> cached (do_put p core) k = cached core k"
    using apply_insert_foreign(1) p by simp
  show "core_ok core \<Longrightarrow> put_ok p \<Longrightarrow> t \<noteq> put_tenant p \<Longrightarrow> tenant_spent (do_put p core) t = tenant_spent core t"
    using apply_insert_foreign(2) p by (simp add: tenant_spent_def)
  show "tenant_share (do_put p core) = tenant_share core" using p by (simp add: tenant_share_def fun_eq_iff split: option.split)
  show "core_ok core \<Longrightarrow> tenant_spent core t \<le> tenant_share core t"
    using spent_unregistered [of core t] by (auto simp: core_ok_def tenant_spent_def tenant_share_def split: option.split)
qed

lemma core_ok_registered:
  assumes "core_ok core" "m \<in> set (cc_shards core)" "(k, e) \<in> set m"
  shows "ck_tenant_id k \<in> set (pl_tenant_ids (cc_capacity core))"
proof -
  obtain i where i: "i < SHARD_COUNT" "m = cc_shards core ! i"
    using assms(1,2) by (auto simp: core_ok_def in_set_conv_nth)
  then have "tenant_index (cc_capacity core) (ck_tenant_id k) \<noteq> None"
    using assms(1,3) unfolding core_ok_def by blast
  then show ?thesis by (simp add: tenant_index_None)
qed

lemma stored_bytes:
  assumes "core_ok core"
  shows "snd (stats_snapshot core) = (\<Sum>t\<in>set (pl_tenant_ids (cc_capacity core)). spent (cc_shards core) t)"
proof -
  let ?T = "set (pl_tenant_ids (cc_capacity core))"
  have one: "sum_list (map (\<lambda>e. entry_cost (snd e)) m) = (\<Sum>t\<in>?T. shard_spent t m)"
    if "\<forall>(k, e)\<in>set m. ck_tenant_id k \<in> ?T" for m
    using that by (induction m) (auto simp: sum.distrib)
  have "sum_list (map (\<lambda>m. sum_list (map (\<lambda>e. entry_cost (snd e)) m)) ms) = (\<Sum>t\<in>?T. spent ms t)"
    if "\<forall>m\<in>set ms. \<forall>(k, e)\<in>set m. ck_tenant_id k \<in> ?T" for ms
    using that by (induction ms) (auto simp: spent_def sum.distrib one)
  moreover have "\<forall>m\<in>set (cc_shards core). \<forall>(k, e)\<in>set m. ck_tenant_id k \<in> ?T"
    using core_ok_registered [OF assms] by blast
  ultimately show ?thesis by (simp add: stats_snapshot_def)
qed

lemma stored_within_budget:
  assumes "core_ok core"
  shows "snd (stats_snapshot core) \<le> pl_storage_budget_bytes (cc_capacity core)"
proof -
  let ?plan = "cc_capacity core"
  have p: "plan_ok ?plan" and d: "distinct (pl_tenant_ids ?plan)" using assms by (simp_all add: core_ok_def plan_ok_def)
  have i: "spent (cc_shards core) (pl_tenant_ids ?plan ! i) \<le> pl_storage_budgets ?plan ! i"
    if "i < plan_tenant_count ?plan" for i
    using assms that tenant_index_Some [OF d, of "pl_tenant_ids ?plan ! i" i] by (simp add: core_ok_def)
  have "snd (stats_snapshot core) = sum_list (map (spent (cc_shards core)) (pl_tenant_ids ?plan))"
    using stored_bytes [OF assms] d by (simp add: sum_list_distinct_conv_sum_set)
  also have "\<dots> \<le> sum_list (pl_storage_budgets ?plan)"
    using i p by (auto simp: sum_list_sum_nth plan_ok_def plan_tenant_count_def intro!: sum_mono)
  also have "\<dots> \<le> pl_storage_budget_bytes ?plan" using p by (simp add: plan_ok_def)
  finally show ?thesis .
qed

text \<open>Nothing is cached that was not put in.\<close>

lemma put_origin:
  assumes "core_ok core" "iter_ok iter" "cached (apply_insert iter now k e core) k' = Some e'"
  shows "cached core k' = Some e' \<or> k' = k \<and> e' = e"
proof (cases "admissible (cc_capacity core) k e")
  case True
  obtain gone where "inserts now k e core (apply_insert iter now k e core) gone"
    using apply_insert_inserts [OF assms(1,2) True] by blast
  from cached_insert [OF core_ok_sharded [OF assms(1)] this, of k'] show ?thesis
    using assms(3) by (auto split: if_splits)
next
  case False
  then show ?thesis using apply_insert_rejects assms(3) by (simp add: cached_def)
qed

lemma run_origin:
  assumes "core_ok core" "\<forall>p\<in>set puts. put_ok p" "cached (fold do_put puts core) k = Some e"
  shows "cached core k = Some e \<or> (\<exists>iter now. (iter, now, k, e) \<in> set puts)"
  using assms
proof (induction puts arbitrary: core)
  case (Cons p puts)
  obtain iter now k' e' where p: "p = (iter, now, k', e')" by (cases p)
  have "core_ok (do_put p core)" using Cons.prems(1,2) p apply_insert_ok by simp
  with Cons have "cached (do_put p core) k = Some e \<or> (\<exists>iter now. (iter, now, k, e) \<in> set puts)" by simp
  then show ?case using put_origin [OF Cons.prems(1), of iter now k' e' k e] Cons.prems(2) p by auto
qed simp

lemma cached_new [simp]: "cached (core_new b ids) k = None"
  using cache_key_shard_less [of k] by (simp add: cached_def core_new_def core_with_capacity_def)

lemma run_capacity: "cc_capacity (fold do_put puts core) = cc_capacity core"
  by (induction puts arbitrary: core) (auto simp: split_paired_all)

lemma lookup_cached:
  "fst (core_lookup now k core) = (case cached core k of Some e \<Rightarrow> if entry_expired now e then None else Some e | None \<Rightarrow> None)"
  by (simp add: core_lookup_def cached_def Let_def split: option.split)

text \<open>The candidates of an insertion are the tenant's entries.\<close>

lemma in_store:
  assumes "sharded ms"
  shows "(k, e) \<in> set (concat ms) \<longleftrightarrow> map_of (ms ! cache_key_shard k) k = Some e"
proof
  assume "(k, e) \<in> set (concat ms)"
  then obtain i where i: "i < SHARD_COUNT" "(k, e) \<in> set (ms ! i)"
    using assms by (auto simp: sharded_def in_set_conv_nth [of _ ms])
  then have "cache_key_shard k = i" "distinct (map fst (ms ! i))" using assms by (force simp: sharded_def shard_ok_def)+
  then show "map_of (ms ! cache_key_shard k) k = Some e" using i(2) by simp
next
  assume "map_of (ms ! cache_key_shard k) k = Some e"
  then have "(k, e) \<in> set (ms ! cache_key_shard k)" by (rule map_of_SomeD)
  moreover have "ms ! cache_key_shard k \<in> set ms" using assms cache_key_shard_less [of k] by (simp add: sharded_def)
  ultimately show "(k, e) \<in> set (concat ms)" by auto
qed

definition merged :: "cache_core \<Rightarrow> cache_key \<Rightarrow> cache_entry \<Rightarrow> cache_key \<Rightarrow> cache_entry option" where
  "merged core k e = (cached core)(k \<mapsto> e)"

lemma candidate_iff:
  assumes "sharded (cc_shards core)"
  shows "c \<in> set (tenant_candidates now t (with_entry k e (cc_shards core))) \<longleftrightarrow>
    (\<exists>k' e'. merged core k e k' = Some e' \<and> ck_tenant_id k' = t \<and> c = candidate_of now (k', e'))"
proof -
  let ?pre = "with_entry k e (cc_shards core)"
  have pre: "sharded ?pre" unfolding with_entry_def by (rule sharded_insert [OF assms])
  have "map_of (?pre ! cache_key_shard k') k' = merged core k e k'" for k'
  proof -
    have "cache_key_shard k < length (cc_shards core)" "cache_key_shard k' < length (cc_shards core)"
      using assms cache_key_shard_less by (simp_all add: sharded_def)
    then show ?thesis by (auto simp: merged_def cached_def with_entry_def nth_list_update)
  qed
  then have "(k', e') \<in> set (concat ?pre) \<longleftrightarrow> merged core k e k' = Some e'" for k' e' using in_store [OF pre] by simp
  then show ?thesis unfolding tenant_candidates_def tenant_entries_def by (auto simp del: set_concat)
qed

lemma evicts_expired:
  "evicts_from budget cs gone \<Longrightarrow> c \<in> set cs \<Longrightarrow> cand_expired c \<Longrightarrow> gone \<noteq> {} \<Longrightarrow> fst c \<in> gone"
  by (auto simp: evicts_from_def Let_def split: if_splits)

text \<open>An eviction of live entries stops as soon as the rest fits.\<close>

lemma evicts_minimal:
  assumes ev: "evicts_from budget cs gone" and d: "distinct (map fst cs)"
    and c: "c \<in> set cs" "\<not> cand_expired c" "fst c \<in> gone"
  shows "\<exists>c'\<in>set cs. \<not> cand_expired c' \<and> fst c' \<in> gone \<and> budget < cand_cost c' + costs (filter (\<lambda>c. fst c \<notin> gone) cs)"
proof -
  have over: "budget < costs cs"
  proof (rule ccontr)
    assume "\<not> budget < costs cs"
    then have "gone = {}" using ev by (simp add: evicts_from_def)
    then show False using c(3) by simp
  qed
  obtain old kept where m: "mset (old @ kept) = mset (filter (\<lambda>c. \<not> cand_expired c) cs)"
    and g: "gone = fst ` set (filter cand_expired cs) \<union> fst ` set old"
    and l: "old \<noteq> [] \<longrightarrow> budget < cand_cost (last old) + costs kept"
    using ev over unfolding evicts_from_def Let_def by auto
  have set: "set old \<union> set kept = {c \<in> set cs. \<not> cand_expired c}" using mset_eq_setD [OF m] by simp
  have dist: "distinct (map fst (old @ kept))"
    using mset_eq_imp_distinct_iff [of "map fst (old @ kept)" "map fst (filter (\<lambda>c. \<not> cand_expired c) cs)"] m
      distinct_map_filter [OF d] by (simp only: mset_map)
  have inj: "x = y" if "x \<in> set cs" "y \<in> set cs" "fst x = fst y" for x y
    using d that unfolding distinct_map by (metis inj_onD)
  have old: "x \<in> set old" if "x \<in> set cs" "\<not> cand_expired x" "fst x \<in> gone" for x
  proof -
    have "fst x \<in> fst ` (set (filter cand_expired cs) \<union> set old)" using that(3) unfolding g image_Un .
    then obtain y where eq: "fst x = fst y" and y: "y \<in> set (filter cand_expired cs) \<union> set old" by (rule imageE)
    then have "y \<in> set cs" using set by auto
    then have "x = y" using inj that(1) eq by blast
    then show ?thesis using y that(2) by auto
  qed
  have ne: "old \<noteq> []" using old [OF c] by auto
  have "mset (filter (\<lambda>c. fst c \<notin> gone) cs) = mset kept"
  proof -
    have "mset (filter (\<lambda>c. fst c \<notin> gone) cs) = mset (filter (\<lambda>c. fst c \<notin> gone) (filter (\<lambda>c. \<not> cand_expired c) cs))"
      unfolding filter_filter using g by (intro arg_cong [of _ _ mset] filter_cong) auto
    also have "\<dots> = mset (filter (\<lambda>c. fst c \<notin> gone) (old @ kept))" using m by (metis mset_filter)
    also have "filter (\<lambda>c. fst c \<notin> gone) (old @ kept) = kept"
    proof -
      have "filter (\<lambda>c. fst c \<notin> gone) old = []" using g by (auto simp: filter_empty_conv)
      moreover have "filter (\<lambda>c. fst c \<notin> gone) kept = kept"
      proof (rule filter_True, rule ballI, rule notI)
        fix x assume x: "x \<in> set kept" "fst x \<in> gone"
        then have "x \<in> set old" using old [of x] set by blast
        then show False using dist x(1) by (auto simp: distinct_map)
      qed
      ultimately show ?thesis by simp
    qed
    finally show ?thesis .
  qed
  then have "costs (filter (\<lambda>c. fst c \<notin> gone) cs) = costs kept" by (rule costs_mset)
  moreover have "last old \<in> set cs \<and> \<not> cand_expired (last old)" using set ne last_in_set [OF ne] by blast
  moreover have "fst (last old) \<in> gone" using g last_in_set [OF ne] by auto
  ultimately show ?thesis using l ne by metis
qed

text \<open>What one insertion does to the tenant's entries, over the store as a map.\<close>

lemma kept_costs:
  assumes "inserts now k e core core' gone"
  shows "costs (filter (\<lambda>c. fst c \<notin> gone) (tenant_candidates now (ck_tenant_id k) (with_entry k e (cc_shards core)))) =
    tenant_spent core' (ck_tenant_id k)"
  using assms spent_filter unfolding inserts_def tenant_spent_def by metis

lemma insertion_facts:
  assumes ok: "core_ok core" and ad: "admissible (cc_capacity core) k e" and ins: "inserts now k e core core' gone"
    and t: "t = ck_tenant_id k"
  shows "\<forall>k'. cached core' k' = (if k' \<in> gone then None else merged core k e k')"
    and "\<forall>k'\<in>gone. ck_tenant_id k' = t"
    and "tenant_spent core' t \<le> tenant_share core t"
    and "\<forall>i. tenant_index (cc_capacity core) t = Some i \<longrightarrow> cc_tenant_bytes core' ! i = tenant_spent core' t"
    and "spent (with_entry k e (cc_shards core)) t \<le> tenant_share core t \<longrightarrow> gone = {}"
    and "gone \<noteq> {} \<longrightarrow> (\<forall>k1 e1. merged core k e k1 = Some e1 \<and> ck_tenant_id k1 = t \<and> entry_expired now e1 \<longrightarrow> k1 \<in> gone)"
    and "\<forall>k1 e1 k2 e2. merged core k e k1 = Some e1 \<and> ck_tenant_id k1 = t \<and> \<not> entry_expired now e1 \<and> k1 \<in> gone \<and>
      merged core k e k2 = Some e2 \<and> ck_tenant_id k2 = t \<and> \<not> entry_expired now e2 \<and> k2 \<notin> gone \<longrightarrow>
      ce_inserted_at_ms e1 \<le> ce_inserted_at_ms e2"
    and "\<forall>k1 e1. merged core k e k1 = Some e1 \<and> \<not> entry_expired now e1 \<and> k1 \<in> gone \<longrightarrow>
      (\<exists>k2 e2. merged core k e k2 = Some e2 \<and> \<not> entry_expired now e2 \<and> k2 \<in> gone \<and>
         tenant_share core t < entry_cost e2 + tenant_spent core' t)"
    and "\<not> entry_expired now e \<and>
      (\<forall>k1 e1. cached core k1 = Some e1 \<and> ck_tenant_id k1 = t \<and> k1 \<noteq> k \<and> \<not> entry_expired now e1 \<longrightarrow>
         ce_inserted_at_ms e1 < ce_inserted_at_ms e) \<longrightarrow> k \<notin> gone"
proof -
  let ?cs = "tenant_candidates now t (with_entry k e (cc_shards core))"
  note sh = core_ok_sharded [OF ok]
  obtain i where i: "tenant_index (cc_capacity core) t = Some i" and ev: "evicts_from (tenant_share core t) ?cs gone"
    and bytes: "cc_tenant_bytes core' = (cc_tenant_bytes core)[i := tenant_spent core' t]"
    and fits: "tenant_spent core' t \<le> tenant_share core t"
    using ins unfolding inserts_def t tenant_spent_def tenant_share_def by auto
  have c: "candidate_of now (k', e') \<in> set ?cs" if "merged core k e k' = Some e'" "ck_tenant_id k' = t" for k' e'
    using candidate_iff [OF sh, of "candidate_of now (k', e')" now t k e] that by blast
  have cand [simp]: "fst (candidate_of now (k', e')) = k'" "cand_inserted (candidate_of now (k', e')) = ce_inserted_at_ms e'"
    "cand_cost (candidate_of now (k', e')) = entry_cost e'" "cand_expired (candidate_of now (k', e')) = entry_expired now e'" for k' e'
    by (simp_all add: candidate_of_def)
  have d: "distinct (map fst ?cs)"
    by (rule distinct_candidates) (simp only: with_entry_def sharded_insert [OF sh])
  show "\<forall>k'. cached core' k' = (if k' \<in> gone then None else merged core k e k')"
    unfolding merged_def using cached_insert [OF sh ins] by auto
  show tenant: "\<forall>k'\<in>gone. ck_tenant_id k' = t" using gone_tenant [OF ins] t by blast
  show "tenant_spent core' t \<le> tenant_share core t" by (rule fits)
  have "i < length (cc_tenant_bytes core)" using ok i plan_index(1) by (simp add: core_ok_def)
  then show "\<forall>i. tenant_index (cc_capacity core) t = Some i \<longrightarrow> cc_tenant_bytes core' ! i = tenant_spent core' t"
    using i bytes by simp
  show "spent (with_entry k e (cc_shards core)) t \<le> tenant_share core t \<longrightarrow> gone = {}"
    using ev by (simp add: evicts_from_def costs_tenant_candidates)
  show "gone \<noteq> {} \<longrightarrow> (\<forall>k1 e1. merged core k e k1 = Some e1 \<and> ck_tenant_id k1 = t \<and> entry_expired now e1 \<longrightarrow> k1 \<in> gone)"
  proof (intro impI allI)
    fix k1 e1 assume "gone \<noteq> {}" "merged core k e k1 = Some e1 \<and> ck_tenant_id k1 = t \<and> entry_expired now e1"
    then show "k1 \<in> gone" using evicts_expired [OF ev c [of k1 e1]] by simp
  qed
  show "\<forall>k1 e1 k2 e2. merged core k e k1 = Some e1 \<and> ck_tenant_id k1 = t \<and> \<not> entry_expired now e1 \<and> k1 \<in> gone \<and>
      merged core k e k2 = Some e2 \<and> ck_tenant_id k2 = t \<and> \<not> entry_expired now e2 \<and> k2 \<notin> gone \<longrightarrow>
      ce_inserted_at_ms e1 \<le> ce_inserted_at_ms e2"
  proof (intro allI impI)
    fix k1 e1 k2 e2
    assume a: "merged core k e k1 = Some e1 \<and> ck_tenant_id k1 = t \<and> \<not> entry_expired now e1 \<and> k1 \<in> gone \<and>
      merged core k e k2 = Some e2 \<and> ck_tenant_id k2 = t \<and> \<not> entry_expired now e2 \<and> k2 \<notin> gone"
    show "ce_inserted_at_ms e1 \<le> ce_inserted_at_ms e2"
      using evicts_live_order [OF ev d c [of k1 e1] _ _ c [of k2 e2]] a by simp
  qed
  show "\<forall>k1 e1. merged core k e k1 = Some e1 \<and> \<not> entry_expired now e1 \<and> k1 \<in> gone \<longrightarrow>
      (\<exists>k2 e2. merged core k e k2 = Some e2 \<and> \<not> entry_expired now e2 \<and> k2 \<in> gone \<and>
         tenant_share core t < entry_cost e2 + tenant_spent core' t)"
  proof (intro allI impI)
    fix k1 e1 assume a: "merged core k e k1 = Some e1 \<and> \<not> entry_expired now e1 \<and> k1 \<in> gone"
    then have t1: "ck_tenant_id k1 = t" using tenant by blast
    obtain c' where c': "c' \<in> set ?cs" "\<not> cand_expired c'" "fst c' \<in> gone"
      "tenant_share core t < cand_cost c' + costs (filter (\<lambda>c. fst c \<notin> gone) ?cs)"
      using evicts_minimal [OF ev d c [of k1 e1]] a t1 by auto
    obtain k2 e2 where "merged core k e k2 = Some e2" "c' = candidate_of now (k2, e2)"
      using c'(1) candidate_iff [OF sh, of c' now t k e] by auto
    then show "\<exists>k2 e2. merged core k e k2 = Some e2 \<and> \<not> entry_expired now e2 \<and> k2 \<in> gone \<and>
         tenant_share core t < entry_cost e2 + tenant_spent core' t"
      using c'(2-4) kept_costs [OF ins] t by (intro exI [of _ k2] exI [of _ e2]) simp
  qed
  show "\<not> entry_expired now e \<and>
      (\<forall>k1 e1. cached core k1 = Some e1 \<and> ck_tenant_id k1 = t \<and> k1 \<noteq> k \<and> \<not> entry_expired now e1 \<longrightarrow>
         ce_inserted_at_ms e1 < ce_inserted_at_ms e) \<longrightarrow> k \<notin> gone"
  proof
    assume a: "\<not> entry_expired now e \<and>
      (\<forall>k1 e1. cached core k1 = Some e1 \<and> ck_tenant_id k1 = t \<and> k1 \<noteq> k \<and> \<not> entry_expired now e1 \<longrightarrow>
         ce_inserted_at_ms e1 < ce_inserted_at_ms e)"
    have "fst (candidate_of now (k, e)) \<notin> gone"
    proof (rule newest_stays [OF ev d c])
      show "merged core k e k = Some e" "ck_tenant_id k = t" by (simp_all add: merged_def t)
      show "\<not> cand_expired (candidate_of now (k, e))" using a by simp
      show "cand_cost (candidate_of now (k, e)) \<le> tenant_share core t"
        using ad i t by (simp add: admissible_def tenant_share_def)
      show "cand_inserted c' < cand_inserted (candidate_of now (k, e))"
        if c': "c' \<in> set ?cs" "c' \<noteq> candidate_of now (k, e)" "\<not> cand_expired c'" for c'
      proof -
        obtain k' e' where k': "merged core k e k' = Some e'" "ck_tenant_id k' = t" "c' = candidate_of now (k', e')"
          using c'(1) candidate_iff [OF sh, of c' now t k e] by auto
        then show ?thesis using a c'(2,3) by (cases "k' = k") (auto simp: merged_def)
      qed
    qed
    then show "k \<notin> gone" by simp
  qed
qed

section \<open>Properties\<close>

lemma cache_isolation_parts:
  assumes "b < 2 ^ 63" and "\<forall>p\<in>set before. put_ok p" and "\<forall>p\<in>set puts. put_ok p \<and> put_tenant p \<noteq> t"
  shows "ck_tenant_id k = t \<Longrightarrow>
      cached (fold do_put (before @ puts) (core_new b ids)) k = cached (fold do_put before (core_new b ids)) k"
    and "tenant_spent (fold do_put (before @ puts) (core_new b ids)) t = tenant_spent (fold do_put before (core_new b ids)) t"
    and "tenant_spent (fold do_put (before @ puts) (core_new b ids)) u \<le> tenant_share (core_new b ids) u"
proof -
  note new = core_new_ok [OF assms(1), of ids]
  note ok = cache.run_ok [OF new assms(2)]
  show "cached (fold do_put (before @ puts) (core_new b ids)) k = cached (fold do_put before (core_new b ids)) k" if "ck_tenant_id k = t"
    using cache.run_foreign [OF ok, of puts k] assms(3) that by simp
  show "tenant_spent (fold do_put (before @ puts) (core_new b ids)) t = tenant_spent (fold do_put before (core_new b ids)) t"
    using cache.run_used_foreign [OF ok, of puts t] assms(3) by simp
  have "\<forall>p\<in>set (before @ puts). put_ok p" using assms(2,3) by auto
  then show "tenant_spent (fold do_put (before @ puts) (core_new b ids)) u \<le> tenant_share (core_new b ids) u"
    by (rule cache.run_within [OF new])
qed

text \<open>
  C13. Whatever one group of tenants writes to the response cache, at any rate, of any size and in any order, evictions included, what is cached for any other tenant and the bytes it uses stay exactly as they were, and no tenant ever uses more than its share.
\<close>

theorem cache_isolation:
  assumes "b < 2 ^ 63" and "\<forall>p\<in>set before. put_ok p" and "\<forall>p\<in>set puts. put_ok p \<and> put_tenant p \<noteq> t"
  shows "((ck_tenant_id k = t) \<longrightarrow> cached (fold do_put (before @ puts) (core_new b ids)) k = cached (fold do_put before (core_new b ids)) k) \<and>
   (tenant_spent (fold do_put (before @ puts) (core_new b ids)) t = tenant_spent (fold do_put before (core_new b ids)) t) \<and>
   (tenant_spent (fold do_put (before @ puts) (core_new b ids)) u \<le> tenant_share (core_new b ids) u)"
  by ((rule conjI, rule impI, rule cache_isolation_parts(1) [OF assms], assumption),
      (rule conjI, rule cache_isolation_parts(2) [OF assms]),
      (rule cache_isolation_parts(3) [OF assms]))

theorem cache_isolation_witness:
  "\<exists>p. put_tenant p = ''b'' \<and> tenant_spent (fold do_put [p] (core_new 0x100000 [''a'', ''b''])) ''a'' =
     tenant_spent (core_new 0x100000 [''a'', ''b'']) ''a''"
proof -
  let ?p = "(id, 0, \<lparr>ck_tenant_id = ''b'', ck_namespace = ''n'', ck_hash = [0]\<rparr>,
    \<lparr>ce_body = ''{}'', ce_model = ''m'', ce_prompt_tokens = 1, ce_completion_tokens = 1, ce_total_tokens = 2,
       ce_inserted_at_ms = 0, ce_ttl_ms = 1000\<rparr>) :: cache_put"
  have b: "(0x100000 :: u64) < 2 ^ 63" and ok: "\<forall>p\<in>set [?p]. put_ok p \<and> put_tenant p \<noteq> ''a''" and before: "\<forall>p\<in>set []. put_ok p"
    by (simp_all add: iter_ok_def)
  show ?thesis using cache_isolation [THEN conjunct2, THEN conjunct1, OF b before ok, of "[''a'', ''b'']"] by (intro exI [of _ ?p]) simp
qed

text \<open>
  C15. An insertion refines a map update with eviction: the entry is put in, some keys of the inserting tenant go, and everything else is as it was. Nothing goes while the tenant's entries fit its share; otherwise all its expired entries go and then its live entries by age, none that is younger than one that stays and no more than needed, until they fit. The byte count kept for the tenant is the sum of what is left, and a new entry that is younger than the tenant's other live entries is never the one that goes.
\<close>

theorem insertion_evicts_oldest:
  assumes ok: "core_ok core" and it: "iter_ok iter" and ad: "admissible (cc_capacity core) k e"
    and core': "core' = apply_insert iter now k e core" and t: "t = ck_tenant_id k"
  shows "\<exists>gone.
      (\<forall>k'. cached core' k' = (if k' \<in> gone then None else merged core k e k')) \<and>
      (\<forall>k'\<in>gone. ck_tenant_id k' = t) \<and>
      tenant_spent core' t \<le> tenant_share core t \<and>
      (\<forall>i. tenant_index (cc_capacity core) t = Some i \<longrightarrow> cc_tenant_bytes core' ! i = tenant_spent core' t) \<and>
      (spent (with_entry k e (cc_shards core)) t \<le> tenant_share core t \<longrightarrow> gone = {}) \<and>
      (gone \<noteq> {} \<longrightarrow> (\<forall>k1 e1. merged core k e k1 = Some e1 \<and> ck_tenant_id k1 = t \<and> entry_expired now e1 \<longrightarrow> k1 \<in> gone)) \<and>
      (\<forall>k1 e1 k2 e2. merged core k e k1 = Some e1 \<and> ck_tenant_id k1 = t \<and> \<not> entry_expired now e1 \<and> k1 \<in> gone \<and>
         merged core k e k2 = Some e2 \<and> ck_tenant_id k2 = t \<and> \<not> entry_expired now e2 \<and> k2 \<notin> gone \<longrightarrow>
         ce_inserted_at_ms e1 \<le> ce_inserted_at_ms e2) \<and>
      (\<forall>k1 e1. merged core k e k1 = Some e1 \<and> \<not> entry_expired now e1 \<and> k1 \<in> gone \<longrightarrow>
         (\<exists>k2 e2. merged core k e k2 = Some e2 \<and> \<not> entry_expired now e2 \<and> k2 \<in> gone \<and>
            tenant_share core t < entry_cost e2 + tenant_spent core' t)) \<and>
      (\<not> entry_expired now e \<and>
         (\<forall>k1 e1. cached core k1 = Some e1 \<and> ck_tenant_id k1 = t \<and> k1 \<noteq> k \<and> \<not> entry_expired now e1 \<longrightarrow>
            ce_inserted_at_ms e1 < ce_inserted_at_ms e) \<longrightarrow> k \<notin> gone)"
proof -
  obtain gone where ins: "inserts now k e core core' gone"
    using apply_insert_inserts [OF ok it ad] core' by blast
  show ?thesis by (rule exI [of _ gone]) (intro conjI insertion_facts [OF ok ad ins t])
qed

theorem insertion_evicts_oldest_witness:
  "\<exists>e gone. cached (apply_insert id 5 \<lparr>ck_tenant_id = ''a'', ck_namespace = ''n'', ck_hash = [0]\<rparr> e (core_new 0x100000 [''a'']))
      \<lparr>ck_tenant_id = ''a'', ck_namespace = ''n'', ck_hash = [0]\<rparr> =
      (if \<lparr>ck_tenant_id = ''a'', ck_namespace = ''n'', ck_hash = [0]\<rparr> \<in> gone then None else Some e) \<and>
      \<lparr>ck_tenant_id = ''a'', ck_namespace = ''n'', ck_hash = [0]\<rparr> \<notin> gone"
proof -
  let ?core = "core_new 0x100000 [''a'']" and ?k = "\<lparr>ck_tenant_id = ''a'', ck_namespace = ''n'', ck_hash = [0]\<rparr> :: cache_key"
  let ?e = "\<lparr>ce_body = ''{}'', ce_model = ''m'', ce_prompt_tokens = 1, ce_completion_tokens = 1, ce_total_tokens = 2,
       ce_inserted_at_ms = 5, ce_ttl_ms = 1000\<rparr>"
  have ok: "core_ok ?core" by (rule core_new_ok) simp
  have it: "iter_ok id" by (simp add: iter_ok_def)
  have ad: "admissible (cc_capacity ?core) ?k ?e"
    by (simp add: admissible_def core_new_def core_with_capacity_def capacity_plan_new_def Let_def partition_bytes_def
        tenant_index_def MAX_WRITE_RETENTION_BYTES_def MAX_ENTRY_BYTES_def entry_cost_def KEY_OVERHEAD_BYTES_def)
  have live: "\<not> entry_expired 5 ?e" by (simp add: entry_expired_def sat_add_def)
  obtain gone where "\<forall>k'. cached (apply_insert id 5 ?k ?e ?core) k' = (if k' \<in> gone then None else merged ?core ?k ?e k')"
    and "?k \<notin> gone"
    using insertion_evicts_oldest [OF ok it ad refl refl, of 5] live by auto
  then show ?thesis by (intro exI [of _ ?e] exI [of _ gone]) (simp add: merged_def)
qed

end
