(* ===== verification/Cache_Writer.thy ===== *)
theory Cache_Writer
  imports Cache_Core
begin

text \<open>
  Write-behind of the exact-match cache: \<^verbatim>\<open>WriteAdmission\<close>, \<^verbatim>\<open>ReadyLaneReceivers\<close> and the writer
  thread of \<^verbatim>\<open>ExactCache\<close> in \<^verbatim>\<open>crates/cache/src/lib.rs\<close>, as one transition system. Request threads
  reserve bytes, send to the lane of their tenant and signal the writer; the writer takes one
  operation per turn. Each atomic access and each channel operation is a step of its own, and the
  steps of all threads interleave; the byte reservation, a compare-exchange loop on one counter,
  is one step. Lanes are numbered like the tenants of the capacity plan.
\<close>

section \<open>Writes\<close>

definition WRITE_LANE_CAPACITY :: nat where "WRITE_LANE_CAPACITY = 16"

record cache_write =
  cw_key :: cache_key
  cw_body :: string
  cw_ttl_seconds :: u64
  cw_model :: string
  cw_prompt_tokens :: u32
  cw_completion_tokens :: u32
  cw_total_tokens :: u32

definition write_entry :: "cache_write \<Rightarrow> u64 \<Rightarrow> cache_entry" where
  "write_entry w inserted_at_ms =
     \<lparr>ce_body = cw_body w, ce_model = cw_model w, ce_prompt_tokens = cw_prompt_tokens w,
      ce_completion_tokens = cw_completion_tokens w, ce_total_tokens = cw_total_tokens w,
      ce_inserted_at_ms = inserted_at_ms, ce_ttl_ms = sat_mul (cw_ttl_seconds w) 1000\<rparr>"

definition effective_entry_budgets :: "capacity_plan \<Rightarrow> nat list" where
  "effective_entry_budgets plan =
     map (\<lambda>(stored, queued). min stored queued) (zip (pl_storage_budgets plan) (pl_writer_budgets plan))"

definition write_drop :: "cache_core \<Rightarrow> cache_core" where
  "write_drop core = core\<lparr>cc_write_drops := cc_write_drops core + 1\<rparr>"

text \<open>The loop that reserves bytes on a lane's counter; a sum past \<^verbatim>\<open>usize\<close> is refused.\<close>

definition reserve_bytes_body :: "nat \<Rightarrow> nat \<Rightarrow> nat \<Rightarrow> (nat, bool) attempt" where
  "reserve_bytes_body limit cost current =
     (if 2 ^ 64 \<le> current + cost then Return False
      else if limit < current + cost then Return False
      else Swap (current + cost) True)"

fun reserve_call :: "nat \<Rightarrow> nat \<times> nat \<Rightarrow> nat \<Rightarrow> (nat, bool) attempt" where
  "reserve_call limit (_, cost) = reserve_bytes_body limit cost"

interpretation reservation: cas_family "reserve_call limit" "\<lambda>n. n \<le> limit" for limit
proof
  fix n t n' r assume "n \<le> limit" "reserve_call limit t n = Swap n' r"
  then show "n' \<le> limit" by (cases t) (auto simp: reserve_bytes_body_def split: if_splits)
qed

lemma reserve_alone:
  "limit < 2 ^ 64 \<Longrightarrow> run_alone (reserve_bytes_body limit cost) n = (if n + cost \<le> limit then (n + cost, True) else (n, False))"
  by (simp add: reserve_bytes_body_def)

text \<open>A barrier carries the thread that waits for its acknowledgement.\<close>

datatype 'p lane_op = InsertOp cache_key cache_entry | Barrier 'p

fun op_cost :: "'p lane_op \<Rightarrow> nat" where
  "op_cost (InsertOp _ e) = entry_cost e" | "op_cost (Barrier _) = 0"

text \<open>What a thread calls: \<^verbatim>\<open>insert\<close> at a reading of the clock, or \<^verbatim>\<open>flush\<close>.\<close>

datatype job = Insert cache_write u64 | Flush

text \<open>Where a calling thread is, and where the writer thread is.\<close>

datatype 'p pc =
    Start
  | Sending nat "'p lane_op"
  | Scheduling nat
  | Signalling nat
  | Flushing nat
  | Awaiting
  | Returned bool

datatype 'p turn =
    Collect
  | Choose
  | Blocked
  | Take nat
  | Stale nat
  | Applying nat "'p lane_op"
  | Release nat "'p lane_op"
  | Finish nat
  | Clear nat
  | Recheck nat
  | Reclaim nat
  | Exited

record 'p writer_sys =
  ws_core :: cache_core
  ws_lanes :: "nat \<Rightarrow> 'p lane_op list"
  ws_scheduled :: "nat \<Rightarrow> bool"
  ws_ready :: "nat list"
  ws_queued :: "nat \<Rightarrow> nat"
  ws_local_ready :: "nat list"
  ws_pending :: "nat \<Rightarrow> 'p lane_op option"
  ws_turn :: "'p turn"
  ws_pcs :: "'p \<Rightarrow> 'p pc"
  ws_acks :: "'p \<Rightarrow> nat"
  ws_closed :: bool
  ws_sent :: "nat \<Rightarrow> 'p lane_op list"
  ws_handled :: "nat \<Rightarrow> 'p lane_op list"

definition writer_init :: "u64 \<Rightarrow> string list \<Rightarrow> 'p writer_sys" where
  "writer_init budget_bytes ids =
     \<lparr>ws_core = core_new budget_bytes ids, ws_lanes = (\<lambda>_. []), ws_scheduled = (\<lambda>_. False), ws_ready = [],
      ws_queued = (\<lambda>_. 0), ws_local_ready = [], ws_pending = (\<lambda>_. None), ws_turn = Collect,
      ws_pcs = (\<lambda>_. Start), ws_acks = (\<lambda>_. 0), ws_closed = False, ws_sent = (\<lambda>_. []), ws_handled = (\<lambda>_. [])\<rparr>"

definition queued_bytes :: "capacity_plan \<Rightarrow> 'p writer_sys \<Rightarrow> nat" where
  "queued_bytes plan s = (\<Sum>i<plan_tenant_count plan. ws_queued s i)"

text \<open>After a lane is scheduled: the insertion returns, the flush goes to the next lane.\<close>

fun scheduled_pc :: "job \<Rightarrow> nat \<Rightarrow> 'p pc" where
  "scheduled_pc (Insert _ _) i = Returned True" | "scheduled_pc Flush i = Flushing (Suc i)"

abbreviation set_pc :: "'p \<Rightarrow> 'p pc \<Rightarrow> 'p writer_sys \<Rightarrow> 'p writer_sys" where
  "set_pc p c s \<equiv> s\<lparr>ws_pcs := (ws_pcs s)(p := c)\<rparr>"

abbreviation set_turn :: "'p turn \<Rightarrow> 'p writer_sys \<Rightarrow> 'p writer_sys" where
  "set_turn c s \<equiv> s\<lparr>ws_turn := c\<rparr>"

text \<open>
  The steps of a calling thread. A failed signal is a step too; it is shown never to happen.
\<close>

inductive caller_step ::
  "nat \<Rightarrow> ('p \<Rightarrow> job) \<Rightarrow> 'p writer_sys \<Rightarrow> 'p writer_sys \<Rightarrow> bool" for lane_capacity jobs where
  unknown_tenant: "ws_pcs s p = Start \<Longrightarrow> \<not> ws_closed s \<Longrightarrow> jobs p = Insert w now \<Longrightarrow>
     tenant_index (cc_capacity (ws_core s)) (ck_tenant_id (cw_key w)) = None \<Longrightarrow>
     caller_step lane_capacity jobs s (set_pc p (Returned False) (s\<lparr>ws_core := write_drop (ws_core s)\<rparr>))"
| oversize: "ws_pcs s p = Start \<Longrightarrow> \<not> ws_closed s \<Longrightarrow> jobs p = Insert w now \<Longrightarrow>
     tenant_index (cc_capacity (ws_core s)) (ck_tenant_id (cw_key w)) = Some i \<Longrightarrow>
     e = write_entry w now \<Longrightarrow>
     MAX_ENTRY_BYTES < length (ce_body e) \<or> effective_entry_budgets (cc_capacity (ws_core s)) ! i < entry_cost e \<Longrightarrow>
     caller_step lane_capacity jobs s (set_pc p (Returned False) (s\<lparr>ws_core := record_oversize (ws_core s)\<rparr>))"
| over_budget: "ws_pcs s p = Start \<Longrightarrow> \<not> ws_closed s \<Longrightarrow> jobs p = Insert w now \<Longrightarrow>
     tenant_index (cc_capacity (ws_core s)) (ck_tenant_id (cw_key w)) = Some i \<Longrightarrow>
     e = write_entry w now \<Longrightarrow>
     length (ce_body e) \<le> MAX_ENTRY_BYTES \<Longrightarrow> entry_cost e \<le> effective_entry_budgets (cc_capacity (ws_core s)) ! i \<Longrightarrow>
     pl_writer_budgets (cc_capacity (ws_core s)) ! i < ws_queued s i + entry_cost e \<Longrightarrow>
     caller_step lane_capacity jobs s (set_pc p (Returned False) (s\<lparr>ws_core := write_drop (ws_core s)\<rparr>))"
| reserve: "ws_pcs s p = Start \<Longrightarrow> \<not> ws_closed s \<Longrightarrow> jobs p = Insert w now \<Longrightarrow>
     tenant_index (cc_capacity (ws_core s)) (ck_tenant_id (cw_key w)) = Some i \<Longrightarrow>
     e = write_entry w now \<Longrightarrow>
     length (ce_body e) \<le> MAX_ENTRY_BYTES \<Longrightarrow> entry_cost e \<le> effective_entry_budgets (cc_capacity (ws_core s)) ! i \<Longrightarrow>
     ws_queued s i + entry_cost e \<le> pl_writer_budgets (cc_capacity (ws_core s)) ! i \<Longrightarrow>
     caller_step lane_capacity jobs s
       (set_pc p (Sending i (InsertOp (cw_key w) e)) (s\<lparr>ws_queued := (ws_queued s)(i := ws_queued s i + entry_cost e)\<rparr>))"
| send: "ws_pcs s p = Sending i x \<Longrightarrow> length (ws_lanes s i) < lane_capacity \<Longrightarrow>
     caller_step lane_capacity jobs s
       (set_pc p (Scheduling i) (s\<lparr>ws_lanes := (ws_lanes s)(i := ws_lanes s i @ [x]), ws_sent := (ws_sent s)(i := ws_sent s i @ [x])\<rparr>))"
| lane_full: "ws_pcs s p = Sending i x \<Longrightarrow> lane_capacity \<le> length (ws_lanes s i) \<Longrightarrow>
     caller_step lane_capacity jobs s
       (set_pc p (Returned False)
         (s\<lparr>ws_queued := (ws_queued s)(i := ws_queued s i - op_cost x), ws_core := write_drop (ws_core s)\<rparr>))"
| schedule: "ws_pcs s p = Scheduling i \<Longrightarrow> \<not> ws_scheduled s i \<Longrightarrow>
     caller_step lane_capacity jobs s (set_pc p (Signalling i) (s\<lparr>ws_scheduled := (ws_scheduled s)(i := True)\<rparr>))"
| scheduled: "ws_pcs s p = Scheduling i \<Longrightarrow> ws_scheduled s i \<Longrightarrow>
     caller_step lane_capacity jobs s (set_pc p (scheduled_pc (jobs p) i) s)"
| signal: "ws_pcs s p = Signalling i \<Longrightarrow> length (ws_ready s) < plan_tenant_count (cc_capacity (ws_core s)) + 1 \<Longrightarrow>
     caller_step lane_capacity jobs s (set_pc p (scheduled_pc (jobs p) i) (s\<lparr>ws_ready := ws_ready s @ [i]\<rparr>))"
| signal_fails: "ws_pcs s p = Signalling i \<Longrightarrow> plan_tenant_count (cc_capacity (ws_core s)) + 1 \<le> length (ws_ready s) \<Longrightarrow>
     caller_step lane_capacity jobs s
       (set_pc p (scheduled_pc (jobs p) i) (s\<lparr>ws_scheduled := (ws_scheduled s)(i := False)\<rparr>))"
| flush: "ws_pcs s p = Start \<Longrightarrow> \<not> ws_closed s \<Longrightarrow> jobs p = Flush \<Longrightarrow>
     caller_step lane_capacity jobs s (set_pc p (Flushing 0) s)"
| send_barrier: "ws_pcs s p = Flushing i \<Longrightarrow> i < plan_tenant_count (cc_capacity (ws_core s)) \<Longrightarrow>
     length (ws_lanes s i) < lane_capacity \<Longrightarrow>
     caller_step lane_capacity jobs s
       (set_pc p (Scheduling i)
         (s\<lparr>ws_lanes := (ws_lanes s)(i := ws_lanes s i @ [Barrier p]), ws_sent := (ws_sent s)(i := ws_sent s i @ [Barrier p])\<rparr>))"
| await: "ws_pcs s p = Flushing i \<Longrightarrow> plan_tenant_count (cc_capacity (ws_core s)) \<le> i \<Longrightarrow>
     caller_step lane_capacity jobs s (set_pc p Awaiting s)"
| flushed: "ws_pcs s p = Awaiting \<Longrightarrow> ws_acks s p = plan_tenant_count (cc_capacity (ws_core s)) \<Longrightarrow>
     caller_step lane_capacity jobs s (set_pc p (Returned True) s)"

text \<open>
  The steps of the writer thread. With \<open>strict\<close>, a stale token is only cleared while the lane is
  still empty; the program is \<open>strict = False\<close>.
\<close>

inductive writer_step :: "bool \<Rightarrow> 'p writer_sys \<Rightarrow> 'p writer_sys \<Rightarrow> bool" for strict where
  collect: "ws_turn s = Collect \<Longrightarrow> ws_ready s = i # r \<Longrightarrow>
     writer_step strict s (s\<lparr>ws_ready := r, ws_local_ready := ws_local_ready s @ [i]\<rparr>)"
| collected: "ws_turn s = Collect \<Longrightarrow> ws_ready s = [] \<Longrightarrow> writer_step strict s (set_turn Choose s)"
| choose: "ws_turn s = Choose \<Longrightarrow> ws_local_ready s = i # r \<Longrightarrow>
     writer_step strict s (set_turn (Take i) (s\<lparr>ws_local_ready := r\<rparr>))"
| none_ready: "ws_turn s = Choose \<Longrightarrow> ws_local_ready s = [] \<Longrightarrow> writer_step strict s (set_turn Blocked s)"
| wake: "ws_turn s = Blocked \<Longrightarrow> ws_ready s = i # r \<Longrightarrow>
     writer_step strict s (set_turn Collect (s\<lparr>ws_ready := r, ws_local_ready := ws_local_ready s @ [i]\<rparr>))"
| exit: "ws_turn s = Blocked \<Longrightarrow> ws_ready s = [] \<Longrightarrow> ws_closed s \<Longrightarrow> writer_step strict s (set_turn Exited s)"
| take_pending: "ws_turn s = Take i \<Longrightarrow> ws_pending s i = Some x \<Longrightarrow>
     writer_step strict s (set_turn (Applying i x) (s\<lparr>ws_pending := (ws_pending s)(i := None)\<rparr>))"
| take_lane: "ws_turn s = Take i \<Longrightarrow> ws_pending s i = None \<Longrightarrow> ws_lanes s i = x # xs \<Longrightarrow>
     writer_step strict s (set_turn (Applying i x) (s\<lparr>ws_lanes := (ws_lanes s)(i := xs)\<rparr>))"
| take_stale: "ws_turn s = Take i \<Longrightarrow> ws_pending s i = None \<Longrightarrow> ws_lanes s i = [] \<Longrightarrow>
     writer_step strict s (set_turn (Stale i) s)"
| clear_stale: "ws_turn s = Stale i \<Longrightarrow> (strict \<Longrightarrow> ws_lanes s i = []) \<Longrightarrow>
     writer_step strict s (set_turn Collect (s\<lparr>ws_scheduled := (ws_scheduled s)(i := False)\<rparr>))"
| apply_op: "ws_turn s = Applying i (InsertOp k e) \<Longrightarrow> iter_ok iter \<Longrightarrow>
     writer_step strict s (set_turn (Release i (InsertOp k e)) (s\<lparr>ws_core := apply_insert iter now k e (ws_core s)\<rparr>))"
| acknowledge: "ws_turn s = Applying i (Barrier q) \<Longrightarrow>
     writer_step strict s (set_turn (Release i (Barrier q)) (s\<lparr>ws_acks := (ws_acks s)(q := ws_acks s q + 1)\<rparr>))"
| release: "ws_turn s = Release i x \<Longrightarrow>
     writer_step strict s (set_turn (Finish i)
       (s\<lparr>ws_queued := (ws_queued s)(i := ws_queued s i - op_cost x), ws_handled := (ws_handled s)(i := ws_handled s i @ [x])\<rparr>))"
| finish_more: "ws_turn s = Finish i \<Longrightarrow> ws_lanes s i = x # xs \<Longrightarrow>
     writer_step strict s (set_turn Collect
       (s\<lparr>ws_lanes := (ws_lanes s)(i := xs), ws_pending := (ws_pending s)(i := Some x), ws_local_ready := ws_local_ready s @ [i]\<rparr>))"
| finish_closed: "ws_turn s = Finish i \<Longrightarrow> ws_lanes s i = [] \<Longrightarrow> ws_closed s \<Longrightarrow>
     writer_step strict s (set_turn Collect (s\<lparr>ws_scheduled := (ws_scheduled s)(i := False)\<rparr>))"
| finish_empty: "ws_turn s = Finish i \<Longrightarrow> ws_lanes s i = [] \<Longrightarrow> \<not> ws_closed s \<Longrightarrow>
     writer_step strict s (set_turn (Clear i) s)"
| clear: "ws_turn s = Clear i \<Longrightarrow>
     writer_step strict s (set_turn (Recheck i) (s\<lparr>ws_scheduled := (ws_scheduled s)(i := False)\<rparr>))"
| recheck_more: "ws_turn s = Recheck i \<Longrightarrow> ws_lanes s i = x # xs \<Longrightarrow>
     writer_step strict s (set_turn (Reclaim i)
       (s\<lparr>ws_lanes := (ws_lanes s)(i := xs), ws_pending := (ws_pending s)(i := Some x)\<rparr>))"
| recheck_empty: "ws_turn s = Recheck i \<Longrightarrow> ws_lanes s i = [] \<Longrightarrow> writer_step strict s (set_turn Collect s)"
| reclaim: "ws_turn s = Reclaim i \<Longrightarrow> \<not> ws_scheduled s i \<Longrightarrow>
     writer_step strict s (set_turn Collect
       (s\<lparr>ws_scheduled := (ws_scheduled s)(i := True), ws_local_ready := ws_local_ready s @ [i]\<rparr>))"
| reclaim_lost: "ws_turn s = Reclaim i \<Longrightarrow> ws_scheduled s i \<Longrightarrow> writer_step strict s (set_turn Collect s)"

text \<open>Lookups, the oversize count of the gateway, and the end of the cache, when no call is under way.\<close>

inductive other_step :: "'p writer_sys \<Rightarrow> 'p writer_sys \<Rightarrow> bool" where
  lookup: "other_step s (s\<lparr>ws_core := snd (core_lookup now k (ws_core s))\<rparr>)"
| count_oversize: "other_step s (s\<lparr>ws_core := record_oversize (ws_core s)\<rparr>)"
| shutdown: "(\<And>p. ws_pcs s p = Start \<or> (\<exists>r. ws_pcs s p = Returned r)) \<Longrightarrow> other_step s (s\<lparr>ws_closed := True\<rparr>)"

inductive cache_reachable ::
  "bool \<Rightarrow> nat \<Rightarrow> ('p \<Rightarrow> job) \<Rightarrow> u64 \<Rightarrow> string list \<Rightarrow> 'p writer_sys \<Rightarrow> bool"
  for strict lane_capacity jobs budget_bytes ids where
  init: "cache_reachable strict lane_capacity jobs budget_bytes ids (writer_init budget_bytes ids)"
| caller: "cache_reachable strict lane_capacity jobs budget_bytes ids s \<Longrightarrow> caller_step lane_capacity jobs s s' \<Longrightarrow>
     cache_reachable strict lane_capacity jobs budget_bytes ids s'"
| writer: "cache_reachable strict lane_capacity jobs budget_bytes ids s \<Longrightarrow> writer_step strict s s' \<Longrightarrow>
     cache_reachable strict lane_capacity jobs budget_bytes ids s'"
| other: "cache_reachable strict lane_capacity jobs budget_bytes ids s \<Longrightarrow> other_step s s' \<Longrightarrow>
     cache_reachable strict lane_capacity jobs budget_bytes ids s'"

inductive_cases caller_stepE: "caller_step n jobs s s'"
inductive_cases writer_stepE: "writer_step strict s s'"
inductive_cases other_stepE: "other_step s s'"

section \<open>Sums over threads\<close>

definition active :: "('p \<Rightarrow> 'p pc) \<Rightarrow> bool" where
  "active pcs \<longleftrightarrow> finite {p. pcs p \<noteq> Start}"

definition pc_sum :: "('p pc \<Rightarrow> nat) \<Rightarrow> ('p \<Rightarrow> 'p pc) \<Rightarrow> nat" where
  "pc_sum w pcs = (\<Sum>p | pcs p \<noteq> Start. w (pcs p))"

lemma active_upd [simp]: "active pcs \<Longrightarrow> active (pcs(p := c))"
  unfolding active_def by (rule finite_subset [of _ "insert p {q. pcs q \<noteq> Start}"]) auto

lemma active_Start [simp]: "active (\<lambda>_. Start)"
  by (simp add: active_def)

lemma pc_sum_Start [simp]: "pc_sum w (\<lambda>_. Start) = 0"
  by (simp add: pc_sum_def)

lemma pc_sum_split:
  assumes "active pcs" "w Start = 0"
  shows "pc_sum w pcs = w (pcs p) + (\<Sum>q\<in>{q. pcs q \<noteq> Start} - {p}. w (pcs q))"
proof (cases "pcs p = Start")
  case True
  then have "{q. pcs q \<noteq> Start} - {p} = {q. pcs q \<noteq> Start}" by auto
  then show ?thesis using True assms(2) by (simp add: pc_sum_def)
next
  case False
  then show ?thesis using assms(1) by (simp add: pc_sum_def active_def sum.remove)
qed

lemma pc_sum_upd:
  assumes "active pcs" "w Start = 0"
  shows "pc_sum w (pcs(p := c)) = pc_sum w pcs - w (pcs p) + w c"
proof -
  have "{q. (pcs(p := c)) q \<noteq> Start} - {p} = {q. pcs q \<noteq> Start} - {p}" by auto
  moreover have "(\<Sum>q\<in>{q. pcs q \<noteq> Start} - {p}. w ((pcs(p := c)) q)) = (\<Sum>q\<in>{q. pcs q \<noteq> Start} - {p}. w (pcs q))"
    by (rule sum.cong) auto
  ultimately show ?thesis
    using pc_sum_split [of "pcs(p := c)" w p] pc_sum_split [of pcs w p] assms by simp
qed

lemma pc_sum_ge: "active pcs \<Longrightarrow> w Start = 0 \<Longrightarrow> w (pcs p) \<le> pc_sum w pcs"
  using pc_sum_split [of pcs w p] by simp

lemma pc_sum_0: "(\<And>p. w (pcs p) = 0) \<Longrightarrow> pc_sum w pcs = 0"
  by (simp add: pc_sum_def)

section \<open>Tokens\<close>

fun signals :: "nat \<Rightarrow> 'p pc \<Rightarrow> nat" where
  "signals i (Signalling j) = (if j = i then 1 else 0)" | "signals i _ = 0"

fun reserved_cost :: "nat \<Rightarrow> 'p pc \<Rightarrow> nat" where
  "reserved_cost i (Sending j x) = (if j = i then op_cost x else 0)" | "reserved_cost i _ = 0"

fun holds :: "'p turn \<Rightarrow> nat option" where
  "holds (Take i) = Some i" | "holds (Stale i) = Some i" | "holds (Applying i _) = Some i"
| "holds (Release i _) = Some i" | "holds (Finish i) = Some i" | "holds (Clear i) = Some i" | "holds _ = None"

fun rechecks :: "'p turn \<Rightarrow> nat option" where
  "rechecks (Recheck i) = Some i" | "rechecks (Reclaim i) = Some i" | "rechecks _ = None"

fun current :: "nat \<Rightarrow> 'p turn \<Rightarrow> 'p lane_op list" where
  "current i (Applying j x) = (if j = i then [x] else [])" | "current i (Release j x) = (if j = i then [x] else [])"
| "current i _ = []"

definition pending_ops :: "nat \<Rightarrow> 'p writer_sys \<Rightarrow> 'p lane_op list" where
  "pending_ops i s = (case ws_pending s i of Some x \<Rightarrow> [x] | None \<Rightarrow> [])"

lemma scheduled_pc_simps [simp]:
  "signals i (scheduled_pc j k) = 0" "reserved_cost i (scheduled_pc j k) = 0"
  by (cases j; simp)+

definition tokens :: "'p writer_sys \<Rightarrow> nat \<Rightarrow> nat" where
  "tokens s i =
     count_list (ws_ready s) i + count_list (ws_local_ready s) i + (if holds (ws_turn s) = Some i then 1 else 0) +
     pc_sum (signals i) (ws_pcs s)"

definition tokens_ok :: "'p writer_sys \<Rightarrow> bool" where
  "tokens_ok s \<longleftrightarrow> (\<forall>i. tokens s i = (if ws_scheduled s i then 1 else 0))"

lemma token_counts:
  "tokens_ok s \<Longrightarrow> count_list (ws_ready s) i + count_list (ws_local_ready s) i +
     (if holds (ws_turn s) = Some i then 1 else 0) + pc_sum (signals i) (ws_pcs s) = (if ws_scheduled s i then 1 else 0)"
  by (simp add: tokens_ok_def tokens_def)

lemma held_scheduled: "tokens_ok s \<Longrightarrow> holds (ws_turn s) = Some i \<Longrightarrow> ws_scheduled s i"
  using token_counts [of s i] by (simp split: if_splits)

lemma ready_scheduled: "tokens_ok s \<Longrightarrow> i \<in> set (ws_ready s) \<or> i \<in> set (ws_local_ready s) \<Longrightarrow> ws_scheduled s i"
  using token_counts [of s i] by (auto simp: count_list_0_iff split: if_splits)

lemma signalling_scheduled: "tokens_ok s \<Longrightarrow> active (ws_pcs s) \<Longrightarrow> ws_pcs s p = Signalling i \<Longrightarrow> ws_scheduled s i"
  using token_counts [of s i] pc_sum_ge [of "ws_pcs s" "signals i" p] by (simp split: if_splits)

lemma distinct_counts: "(\<And>x. count_list xs x \<le> 1) \<Longrightarrow> distinct xs"
proof (induction xs)
  case (Cons y xs)
  have "count_list xs x \<le> 1" for x using Cons.prems [of x] by (simp split: if_splits)
  moreover have "count_list xs y = 0" using Cons.prems [of y] by simp
  ultimately show ?case using Cons.IH by (simp add: count_list_0_iff)
qed simp

lemma ready_distinct: "tokens_ok s \<Longrightarrow> distinct (ws_local_ready s @ ws_ready s)"
proof -
  assume t: "tokens_ok s"
  have "count_list (ws_local_ready s @ ws_ready s) i \<le> 1" for i
    using token_counts [OF t, of i] by (simp split: if_splits)
  then show ?thesis by (rule distinct_counts)
qed

lemma caller_active: "caller_step n jobs s s' \<Longrightarrow> active (ws_pcs s) \<Longrightarrow> active (ws_pcs s')"
  by (erule caller_stepE) simp_all

lemma writer_pcs: "writer_step strict s s' \<Longrightarrow> ws_pcs s' = ws_pcs s"
  by (erule writer_stepE) simp_all

lemma caller_tokens:
  assumes "caller_step n jobs s s'" and "tokens_ok s" and "active (ws_pcs s)"
  shows "tokens_ok s'"
  unfolding tokens_ok_def tokens_def
proof
  fix j
  note t = token_counts [OF assms(2), of j]
  note u = pc_sum_upd [OF assms(3), of "signals j"]
  have le: "signals j (ws_pcs s p) \<le> pc_sum (signals j) (ws_pcs s)" for p
    using pc_sum_ge [OF assms(3)] by simp
  show "count_list (ws_ready s') j + count_list (ws_local_ready s') j +
      (if holds (ws_turn s') = Some j then 1 else 0) + pc_sum (signals j) (ws_pcs s') = (if ws_scheduled s' j then 1 else 0)"
    using assms(1)
  proof (cases rule: caller_step.cases)
    case (signal p i) then show ?thesis using t u le [of p] by auto
  next
    case (signal_fails p i)
    then show ?thesis using t u le [of p] signalling_scheduled [OF assms(2,3)] by (auto split: if_splits)
  next
    case (schedule p i) then show ?thesis using t u le [of p] by (auto split: if_splits)
  qed (use t u in auto)
qed

lemma writer_tokens:
  assumes "writer_step strict s s'" and "tokens_ok s"
  shows "tokens_ok s'"
  unfolding tokens_ok_def tokens_def
proof
  fix j
  note t = token_counts [OF assms(2), of j]
  show "count_list (ws_ready s') j + count_list (ws_local_ready s') j +
      (if holds (ws_turn s') = Some j then 1 else 0) + pc_sum (signals j) (ws_pcs s') = (if ws_scheduled s' j then 1 else 0)"
    using assms(1) by (cases rule: writer_step.cases) (use t in \<open>auto split: if_splits\<close>)
qed

section \<open>Lanes\<close>

text \<open>What is pending, what the writer has in hand, and the lanes in use.\<close>

fun idle_pc :: "'p pc \<Rightarrow> bool" where
  "idle_pc Start = True" | "idle_pc (Returned _) = True" | "idle_pc _ = False"

fun bound_for :: "'p pc \<Rightarrow> nat option" where
  "bound_for (Sending i _) = Some i" | "bound_for (Scheduling i) = Some i" | "bound_for _ = None"

lemma scheduled_pc_bound [simp]: "bound_for (scheduled_pc j k) = None"
  by (cases j; simp)

definition turn_ok :: "'p writer_sys \<Rightarrow> bool" where
  "turn_ok s \<longleftrightarrow>
     (\<forall>i. (holds (ws_turn s) = Some i \<and> ws_turn s \<noteq> Take i) \<or> ws_turn s = Recheck i \<longrightarrow> ws_pending s i = None) \<and>
     (\<forall>i. ws_pending s i \<noteq> None \<longrightarrow> ws_scheduled s i \<or> ws_turn s = Reclaim i) \<and>
     (ws_turn s = Blocked \<or> ws_turn s = Exited \<longrightarrow> ws_local_ready s = []) \<and>
     (ws_turn s = Exited \<longrightarrow> ws_closed s \<and> ws_ready s = [])"

definition lanes_in_use :: "'p writer_sys \<Rightarrow> bool" where
  "lanes_in_use s \<longleftrightarrow>
     (\<forall>i. ws_scheduled s i \<or> rechecks (ws_turn s) = Some i \<or> ws_lanes s i \<noteq> [] \<longrightarrow>
        i < plan_tenant_count (cc_capacity (ws_core s))) \<and>
     (\<forall>p i. bound_for (ws_pcs s p) = Some i \<longrightarrow> i < plan_tenant_count (cc_capacity (ws_core s)))"

definition closed_ok :: "'p writer_sys \<Rightarrow> bool" where
  "closed_ok s \<longleftrightarrow> (ws_closed s \<longrightarrow> (\<forall>p. idle_pc (ws_pcs s p)))"

lemma caller_busy: "caller_step n jobs s s' \<Longrightarrow> ws_closed s \<Longrightarrow> \<exists>p. \<not> idle_pc (ws_pcs s p)"
  by (erule caller_stepE) (metis idle_pc.simps)+

lemma caller_open: "caller_step n jobs s s' \<Longrightarrow> closed_ok s \<Longrightarrow> \<not> ws_closed s"
  by (metis caller_busy closed_ok_def)

definition fifo_ok :: "'p writer_sys \<Rightarrow> bool" where
  "fifo_ok s \<longleftrightarrow> (\<forall>i. ws_sent s i = ws_handled s i @ current i (ws_turn s) @ pending_ops i s @ ws_lanes s i)"

definition bytes_ok :: "'p writer_sys \<Rightarrow> bool" where
  "bytes_ok s \<longleftrightarrow>
     (\<forall>i. ws_queued s i = sum_list (map op_cost (current i (ws_turn s) @ pending_ops i s @ ws_lanes s i)) +
        pc_sum (reserved_cost i) (ws_pcs s)) \<and>
     (\<forall>i<plan_tenant_count (cc_capacity (ws_core s)). ws_queued s i \<le> pl_writer_budgets (cc_capacity (ws_core s)) ! i)"

lemma caller_turn:
  assumes "caller_step n jobs s s'" and "turn_ok s" and "closed_ok s" and "tokens_ok s" and "active (ws_pcs s)"
    and "lanes_in_use s"
  shows "turn_ok s'"
proof -
  have ready: "length (ws_ready s) \<le> plan_tenant_count (cc_capacity (ws_core s))"
  proof -
    have "set (ws_ready s) \<subseteq> {..<plan_tenant_count (cc_capacity (ws_core s))}"
      using ready_scheduled [OF assms(4)] assms(6) by (auto simp: lanes_in_use_def)
    then have "card (set (ws_ready s)) \<le> plan_tenant_count (cc_capacity (ws_core s))" by (simp add: subset_eq_atLeast0_lessThan_card atLeast0LessThan)
    then show ?thesis using ready_distinct [OF assms(4)] by (simp add: distinct_card)
  qed
  show ?thesis using assms(1)
  proof (cases rule: caller_step.cases)
    case (signal p i)
    then show ?thesis using assms(2) caller_open [OF assms(1,3)] by (auto simp: turn_ok_def)
  next
    case (signal_fails p i)
    then show ?thesis using ready by simp
  qed (use assms(2) in \<open>auto simp: turn_ok_def\<close>)
qed

lemma writer_turn: "writer_step strict s s' \<Longrightarrow> turn_ok s \<Longrightarrow> tokens_ok s \<Longrightarrow> turn_ok s'"
  by (erule writer_stepE) (auto simp: turn_ok_def dest: held_scheduled)

lemma caller_capacity: "caller_step n jobs s s' \<Longrightarrow> cc_capacity (ws_core s') = cc_capacity (ws_core s)"
  by (erule caller_stepE) (simp_all add: write_drop_def record_oversize_def)

lemma writer_capacity: "writer_step strict s s' \<Longrightarrow> cc_capacity (ws_core s') = cc_capacity (ws_core s)"
  by (erule writer_stepE) simp_all

lemma other_capacity: "other_step s s' \<Longrightarrow> cc_capacity (ws_core s') = cc_capacity (ws_core s)"
  by (erule other_stepE) (simp_all add: core_lookup_def record_oversize_def Let_def)

lemma caller_lanes:
  assumes "caller_step n jobs s s'" and "lanes_in_use s" and "plan_ok (cc_capacity (ws_core s))"
  shows "lanes_in_use s'"
proof -
  have b: "bound_for (ws_pcs s p) = Some i \<Longrightarrow> i < plan_tenant_count (cc_capacity (ws_core s))" for p i
    using assms(2) by (auto simp: lanes_in_use_def)
  show ?thesis using assms(1)
  proof (cases rule: caller_step.cases)
    case (reserve p w now i e)
    then show ?thesis using assms(2) plan_index(1) [OF assms(3)] by (auto simp: lanes_in_use_def)
  next
    case (send p i x)
    then show ?thesis using assms(2) b [of p i] by (auto simp: lanes_in_use_def)
  next
    case (schedule p i)
    then show ?thesis using assms(2) b [of p i] by (auto simp: lanes_in_use_def)
  qed (use assms(2) in \<open>auto simp: lanes_in_use_def write_drop_def record_oversize_def\<close>)
qed

lemma writer_lanes:
  assumes "writer_step strict s s'" and "lanes_in_use s" and "tokens_ok s"
  shows "lanes_in_use s'"
  using assms(1) assms(2) held_scheduled [OF assms(3)] writer_capacity [OF assms(1)] writer_pcs [OF assms(1)]
  unfolding lanes_in_use_def by (cases rule: writer_step.cases) (auto split: if_splits)

lemma caller_closed: "caller_step n jobs s s' \<Longrightarrow> closed_ok s \<Longrightarrow> closed_ok s'"
proof -
  assume a: "caller_step n jobs s s'" "closed_ok s"
  have "ws_closed s' = ws_closed s" using a(1) by (cases rule: caller_step.cases) simp_all
  then show ?thesis using caller_open [OF a] by (simp add: closed_ok_def)
qed

lemma writer_closed: "writer_step strict s s' \<Longrightarrow> closed_ok s \<Longrightarrow> closed_ok s'"
  by (erule writer_stepE) (simp_all add: closed_ok_def)

lemma caller_fifo: "caller_step n jobs s s' \<Longrightarrow> fifo_ok s \<Longrightarrow> fifo_ok s'"
  by (erule caller_stepE) (auto simp: fifo_ok_def pending_ops_def)

lemma writer_fifo: "writer_step strict s s' \<Longrightarrow> fifo_ok s \<Longrightarrow> turn_ok s \<Longrightarrow> fifo_ok s'"
  by (erule writer_stepE) (auto simp: fifo_ok_def pending_ops_def turn_ok_def split: option.splits)

lemma bytes_at:
  "bytes_ok s \<Longrightarrow> ws_queued s i = sum_list (map op_cost (current i (ws_turn s) @ pending_ops i s @ ws_lanes s i)) +
     pc_sum (reserved_cost i) (ws_pcs s)"
  by (simp add: bytes_ok_def)

lemma bytes_le: "bytes_ok s \<Longrightarrow> i < plan_tenant_count (cc_capacity (ws_core s)) \<Longrightarrow>
     ws_queued s i \<le> pl_writer_budgets (cc_capacity (ws_core s)) ! i"
  unfolding bytes_ok_def by blast

lemma caller_bytes:
  assumes "caller_step n jobs s s'" and "bytes_ok s" and "active (ws_pcs s)"
  shows "bytes_ok s'"
proof -
  note cap = caller_capacity [OF assms(1)]
  have le: "reserved_cost j (ws_pcs s p) \<le> pc_sum (reserved_cost j) (ws_pcs s)" for p j
    using pc_sum_ge [OF assms(3)] by simp
  have "ws_queued s' j = sum_list (map op_cost (current j (ws_turn s') @ pending_ops j s' @ ws_lanes s' j)) +
      pc_sum (reserved_cost j) (ws_pcs s')" for j
  proof -
    note t = bytes_at [OF assms(2), of j] and u = pc_sum_upd [OF assms(3), of "reserved_cost j"]
    show ?thesis using assms(1)
    proof (cases rule: caller_step.cases)
      case (send p i x) then show ?thesis using t u le [of j p] by (auto simp: pending_ops_def)
    next
      case (lane_full p i x) then show ?thesis using t u le [of j p] by (auto simp: pending_ops_def)
    next
      case (reserve p w now i e) then show ?thesis using t u by (auto simp: pending_ops_def)
    qed (use t u in \<open>auto simp: pending_ops_def\<close>)
  qed
  moreover have "ws_queued s' j \<le> pl_writer_budgets (cc_capacity (ws_core s)) ! j"
    if "j < plan_tenant_count (cc_capacity (ws_core s))" for j
    using assms(1) bytes_le [OF assms(2) that] by (cases rule: caller_step.cases) (auto split: if_splits)
  ultimately show ?thesis unfolding bytes_ok_def cap by blast
qed

lemma writer_bytes:
  assumes "writer_step strict s s'" and "bytes_ok s" and "turn_ok s"
  shows "bytes_ok s'"
proof -
  note cap = writer_capacity [OF assms(1)]
  have "ws_queued s' j = sum_list (map op_cost (current j (ws_turn s') @ pending_ops j s' @ ws_lanes s' j)) +
      pc_sum (reserved_cost j) (ws_pcs s')" for j
    using assms(1) bytes_at [OF assms(2), of j] assms(3)
    by (cases rule: writer_step.cases) (auto simp: pending_ops_def turn_ok_def split: option.splits)
  moreover have "ws_queued s' j \<le> pl_writer_budgets (cc_capacity (ws_core s)) ! j"
    if "j < plan_tenant_count (cc_capacity (ws_core s))" for j
    using assms(1) bytes_le [OF assms(2) that] by (cases rule: writer_step.cases) auto
  ultimately show ?thesis unfolding bytes_ok_def cap by blast
qed

section \<open>Every interleaving\<close>

lemma core_ok_counters [simp]:
  "core_ok (write_drop core) = core_ok core" "core_ok (record_oversize core) = core_ok core"
  "core_ok (snd (core_lookup now k core)) = core_ok core"
  by (simp_all add: core_ok_def write_drop_def record_oversize_def core_lookup_def Let_def)

lemma caller_core: "caller_step n jobs s s' \<Longrightarrow> core_ok (ws_core s) \<Longrightarrow> core_ok (ws_core s')"
  by (erule caller_stepE) simp_all

lemma writer_core: "writer_step strict s s' \<Longrightarrow> core_ok (ws_core s) \<Longrightarrow> core_ok (ws_core s')"
  by (erule writer_stepE) (simp_all add: apply_insert_ok)

definition sys_ok :: "'p writer_sys \<Rightarrow> bool" where
  "sys_ok s \<longleftrightarrow> core_ok (ws_core s) \<and> active (ws_pcs s) \<and> tokens_ok s \<and> turn_ok s \<and> lanes_in_use s \<and>
     closed_ok s \<and> fifo_ok s \<and> bytes_ok s"

lemma sys_ok_init: "b < 2 ^ 63 \<Longrightarrow> sys_ok (writer_init b ids)"
  using core_new_ok [of b ids]
  by (simp add: sys_ok_def writer_init_def tokens_ok_def tokens_def turn_ok_def lanes_in_use_def closed_ok_def fifo_ok_def
      bytes_ok_def pending_ops_def)

lemma sys_ok_caller: "sys_ok s \<Longrightarrow> caller_step n jobs s s' \<Longrightarrow> sys_ok s'"
  unfolding sys_ok_def
  using caller_core caller_active caller_tokens caller_turn caller_lanes caller_closed caller_fifo caller_bytes
  by (metis core_ok_def)

lemma sys_ok_writer: "sys_ok s \<Longrightarrow> writer_step strict s s' \<Longrightarrow> sys_ok s'"
  unfolding sys_ok_def
  using writer_core writer_pcs writer_tokens writer_turn writer_lanes writer_closed writer_fifo writer_bytes by metis

lemma closed_simps [simp]:
  "tokens_ok (s\<lparr>ws_closed := c\<rparr>) = tokens_ok s" "lanes_in_use (s\<lparr>ws_closed := c\<rparr>) = lanes_in_use s"
  "fifo_ok (s\<lparr>ws_closed := c\<rparr>) = fifo_ok s" "bytes_ok (s\<lparr>ws_closed := c\<rparr>) = bytes_ok s"
  by (simp_all add: tokens_ok_def tokens_def lanes_in_use_def fifo_ok_def bytes_ok_def pending_ops_def)

lemma core_simps:
  assumes "cc_capacity c = cc_capacity (ws_core s)"
  shows "tokens_ok (s\<lparr>ws_core := c\<rparr>) = tokens_ok s" "lanes_in_use (s\<lparr>ws_core := c\<rparr>) = lanes_in_use s"
    "fifo_ok (s\<lparr>ws_core := c\<rparr>) = fifo_ok s" "bytes_ok (s\<lparr>ws_core := c\<rparr>) = bytes_ok s"
    "turn_ok (s\<lparr>ws_core := c\<rparr>) = turn_ok s" "closed_ok (s\<lparr>ws_core := c\<rparr>) = closed_ok s"
  using assms
  by (simp_all add: tokens_ok_def tokens_def lanes_in_use_def fifo_ok_def bytes_ok_def pending_ops_def turn_ok_def closed_ok_def)

lemma sys_ok_other: "sys_ok s \<Longrightarrow> other_step s s' \<Longrightarrow> sys_ok s'"
proof -
  assume ok: "sys_ok s" and st: "other_step s s'"
  show ?thesis using st
  proof (cases rule: other_step.cases)
    case shutdown
    have "idle_pc (ws_pcs s p)" for p using shutdown(2) [of p] by auto
    moreover have "turn_ok (s\<lparr>ws_closed := True\<rparr>)" using ok by (simp add: sys_ok_def turn_ok_def)
    ultimately show ?thesis using ok shutdown(1) by (simp add: sys_ok_def closed_ok_def)
  next
    case (lookup now k)
    then show ?thesis using ok core_simps [of "snd (core_lookup now k (ws_core s))" s] other_capacity [OF st]
      by (simp add: sys_ok_def)
  next
    case count_oversize
    then show ?thesis using ok core_simps [of "record_oversize (ws_core s)" s] other_capacity [OF st]
      by (simp add: sys_ok_def)
  qed
qed

lemma reachable_sys_ok: "cache_reachable strict n jobs b ids s \<Longrightarrow> b < 2 ^ 63 \<Longrightarrow> sys_ok s"
  by (induction rule: cache_reachable.induct) (auto intro: sys_ok_init sys_ok_caller sys_ok_writer sys_ok_other)

lemma reachable_capacity:
  "cache_reachable strict n jobs b ids s \<Longrightarrow> cc_capacity (ws_core s) = capacity_plan_new b ids"
  by (induction rule: cache_reachable.induct)
    (simp_all add: writer_init_def core_new_def core_with_capacity_def caller_capacity writer_capacity other_capacity)

section \<open>Wake-ups\<close>

text \<open>Work in a lane is announced, or about to be.\<close>

definition someone_schedules :: "('p \<Rightarrow> 'p pc) \<Rightarrow> nat \<Rightarrow> bool" where
  "someone_schedules pcs i \<longleftrightarrow> (\<exists>p. pcs p = Scheduling i)"

definition announced :: "'p writer_sys \<Rightarrow> bool" where
  "announced s \<longleftrightarrow> (\<forall>i. ws_lanes s i \<noteq> [] \<longrightarrow>
     ws_scheduled s i \<or> someone_schedules (ws_pcs s) i \<or> rechecks (ws_turn s) = Some i)"

definition quiet :: "'p writer_sys \<Rightarrow> bool" where
  "quiet s \<longleftrightarrow> (ws_turn s = Blocked \<or> ws_turn s = Exited) \<and> ws_ready s = [] \<and> (\<forall>p. idle_pc (ws_pcs s p))"

lemma someone_schedules_upd:
  "someone_schedules pcs i \<Longrightarrow> pcs p \<noteq> Scheduling i \<Longrightarrow> someone_schedules (pcs(p := c)) i"
  "someone_schedules (pcs(p := Scheduling i)) i"
  unfolding someone_schedules_def by (metis fun_upd_apply)+

lemma ready_bounded:
  assumes "sys_ok s"
  shows "length (ws_ready s) \<le> plan_tenant_count (cc_capacity (ws_core s))"
proof -
  have t: "tokens_ok s" and l: "lanes_in_use s" using assms by (simp_all add: sys_ok_def)
  have "set (ws_ready s) \<subseteq> {..<plan_tenant_count (cc_capacity (ws_core s))}"
    using ready_scheduled [OF t] l by (auto simp: lanes_in_use_def)
  then have "card (set (ws_ready s)) \<le> plan_tenant_count (cc_capacity (ws_core s))"
    by (simp add: subset_eq_atLeast0_lessThan_card atLeast0LessThan)
  then show ?thesis using ready_distinct [OF t] by (simp add: distinct_card)
qed

lemma caller_announced:
  assumes "caller_step n jobs s s'" and "announced s" and "sys_ok s"
  shows "announced s'"
  using assms(1)
proof (cases rule: caller_step.cases)
  case (signal_fails p i)
  then show ?thesis using ready_bounded [OF assms(3)] by simp
qed (use assms(2) in \<open>auto simp: announced_def intro: someone_schedules_upd\<close>)

lemma writer_announced: "writer_step True s s' \<Longrightarrow> announced s \<Longrightarrow> announced s'"
  by (erule writer_stepE) (auto simp: announced_def split: if_splits)

lemma other_announced: "other_step s s' \<Longrightarrow> announced s \<Longrightarrow> announced s'"
  by (erule other_stepE) (simp_all add: announced_def)

lemma reachable_announced:
  assumes "cache_reachable True n jobs b ids s" and "b < 2 ^ 63"
  shows "announced s"
  using assms(1)
proof (induction rule: cache_reachable.induct)
  case init
  show ?case by (simp add: announced_def writer_init_def)
next
  case (caller s s')
  then show ?case using caller_announced reachable_sys_ok assms(2) by blast
qed (auto intro: writer_announced other_announced)

lemma quiet_lanes:
  assumes "sys_ok s" and "quiet s"
  shows "\<not> ws_scheduled s i" "ws_sent s i = ws_handled s i @ ws_lanes s i"
    "ws_queued s i = sum_list (map op_cost (ws_lanes s i))" "\<not> someone_schedules (ws_pcs s) i"
proof -
  have ok: "tokens_ok s" "turn_ok s" "fifo_ok s" "bytes_ok s" using assms(1) by (simp_all add: sys_ok_def)
  have idle: "idle_pc (ws_pcs s p)" for p using assms(2) by (simp add: quiet_def)
  have turn: "ws_turn s = Blocked \<or> ws_turn s = Exited" "ws_ready s = []" "ws_local_ready s = []"
    using assms(2) ok(2) by (auto simp: quiet_def turn_ok_def)
  have h: "holds (ws_turn s) = None" "current i (ws_turn s) = []" "ws_turn s \<noteq> Reclaim i" using turn(1) by auto
  have pc: "signals i (ws_pcs s p) = 0" "reserved_cost i (ws_pcs s p) = 0" for p
    using idle [of p] by (cases "ws_pcs s p"; simp)+
  have sums: "pc_sum (signals i) (ws_pcs s) = 0" "pc_sum (reserved_cost i) (ws_pcs s) = 0"
    by (rule pc_sum_0, rule pc)+
  show ns: "\<not> ws_scheduled s i" using token_counts [OF ok(1), of i] sums(1) turn h(1) by (simp split: if_splits)
  then have "ws_pending s i = None" using ok(2) h(3) by (auto simp: turn_ok_def)
  then have p: "pending_ops i s = []" by (simp add: pending_ops_def)
  show "ws_sent s i = ws_handled s i @ ws_lanes s i" using ok(3) h(2) p by (simp add: fifo_ok_def)
  show "ws_queued s i = sum_list (map op_cost (ws_lanes s i))" using bytes_at [OF ok(4), of i] h(2) p sums(2) by simp
  show "\<not> someone_schedules (ws_pcs s) i"
  proof
    assume "someone_schedules (ws_pcs s) i"
    then obtain p where "ws_pcs s p = Scheduling i" by (auto simp: someone_schedules_def)
    then show False using idle [of p] by simp
  qed
qed

lemma queued_within_budget:
  assumes "sys_ok s"
  shows "queued_bytes (cc_capacity (ws_core s)) s \<le> pl_writer_budget_bytes (cc_capacity (ws_core s))"
proof -
  let ?plan = "cc_capacity (ws_core s)"
  have p: "plan_ok ?plan" using assms by (simp add: sys_ok_def core_ok_def)
  have "queued_bytes ?plan s \<le> (\<Sum>i<plan_tenant_count ?plan. pl_writer_budgets ?plan ! i)"
    unfolding queued_bytes_def using assms bytes_le by (intro sum_mono) (auto simp: sys_ok_def)
  also have "\<dots> = sum_list (pl_writer_budgets ?plan)"
    using p by (simp add: sum_list_sum_nth plan_ok_def atLeast0LessThan)
  also have "\<dots> \<le> pl_writer_budget_bytes ?plan" using p by (simp add: plan_ok_def)
  finally show ?thesis .
qed

section \<open>A run that loses a wake-up\<close>

text \<open>One lane; the state by its parts.\<close>

definition lane_state ::
  "cache_core \<Rightarrow> nat lane_op list \<Rightarrow> bool \<Rightarrow> nat list \<Rightarrow> nat \<Rightarrow> nat list \<Rightarrow> nat lane_op option \<Rightarrow> nat turn \<Rightarrow>
     (nat \<Rightarrow> nat pc) \<Rightarrow> nat lane_op list \<Rightarrow> nat lane_op list \<Rightarrow> nat writer_sys" where
  "lane_state core lane flag ready queued local_ready pending turn pcs sent handled =
     \<lparr>ws_core = core, ws_lanes = (\<lambda>_. [])(0 := lane), ws_scheduled = (\<lambda>_. False)(0 := flag), ws_ready = ready,
      ws_queued = (\<lambda>_. 0)(0 := queued), ws_local_ready = local_ready, ws_pending = (\<lambda>_. None)(0 := pending),
      ws_turn = turn, ws_pcs = pcs, ws_acks = (\<lambda>_. 0), ws_closed = False, ws_sent = (\<lambda>_. [])(0 := sent),
      ws_handled = (\<lambda>_. [])(0 := handled)\<rparr>"

abbreviation reach :: "(nat \<Rightarrow> job) \<Rightarrow> u64 \<Rightarrow> string list \<Rightarrow> nat writer_sys \<Rightarrow> bool" where
  "reach jobs b ids \<equiv> cache_reachable False WRITE_LANE_CAPACITY jobs b ids"

lemma reserve_and_send:
  assumes "reach jobs b ids (lane_state c l bt r q lr pd t pcs se ha)" and "pcs p = Start" and "jobs p = Insert w now"
    and "tenant_index (cc_capacity c) (ck_tenant_id (cw_key w)) = Some 0"
    and "length (ce_body (write_entry w now)) \<le> MAX_ENTRY_BYTES"
    and "entry_cost (write_entry w now) \<le> effective_entry_budgets (cc_capacity c) ! 0"
    and "q + entry_cost (write_entry w now) \<le> pl_writer_budgets (cc_capacity c) ! 0" and "length l < WRITE_LANE_CAPACITY"
  shows "reach jobs b ids (lane_state c (l @ [InsertOp (cw_key w) (write_entry w now)]) bt r (q + entry_cost (write_entry w now)) lr pd t
    (pcs(p := Scheduling 0)) (se @ [InsertOp (cw_key w) (write_entry w now)]) ha)"
proof -
  let ?x = "InsertOp (cw_key w) (write_entry w now)"
  have "caller_step WRITE_LANE_CAPACITY jobs (lane_state c l bt r q lr pd t pcs se ha)
      (lane_state c l bt r (q + entry_cost (write_entry w now)) lr pd t (pcs(p := Sending 0 ?x)) se ha)"
    using caller_step.reserve [of "lane_state c l bt r q lr pd t pcs se ha" p jobs w now 0 "write_entry w now" WRITE_LANE_CAPACITY]
      assms by (simp add: lane_state_def)
  from cache_reachable.caller [OF assms(1) this]
  have 1: "reach jobs b ids (lane_state c l bt r (q + entry_cost (write_entry w now)) lr pd t (pcs(p := Sending 0 ?x)) se ha)" .
  show ?thesis
    by (rule cache_reachable.caller [OF 1])
      (use caller_step.send [of "lane_state c l bt r (q + entry_cost (write_entry w now)) lr pd t (pcs(p := Sending 0 ?x)) se ha"
            p 0 ?x WRITE_LANE_CAPACITY jobs] assms(8) in \<open>simp add: lane_state_def\<close>)
qed

lemma schedule_wins:
  assumes "reach jobs b ids (lane_state c l False [] q lr pd t pcs se ha)" and "pcs p = Scheduling 0" and "jobs p = Insert w now"
  shows "reach jobs b ids (lane_state c l True [0] q lr pd t (pcs(p := Returned True)) se ha)"
proof -
  have "caller_step WRITE_LANE_CAPACITY jobs (lane_state c l False [] q lr pd t pcs se ha)
      (lane_state c l True [] q lr pd t (pcs(p := Signalling 0)) se ha)"
    using caller_step.schedule [of "lane_state c l False [] q lr pd t pcs se ha" p 0 WRITE_LANE_CAPACITY jobs] assms(2)
    by (simp add: lane_state_def)
  from cache_reachable.caller [OF assms(1) this]
  have 1: "reach jobs b ids (lane_state c l True [] q lr pd t (pcs(p := Signalling 0)) se ha)" .
  show ?thesis
    by (rule cache_reachable.caller [OF 1])
      (use caller_step.signal [of "lane_state c l True [] q lr pd t (pcs(p := Signalling 0)) se ha" p 0 WRITE_LANE_CAPACITY jobs]
          assms(3) in \<open>simp add: lane_state_def\<close>)
qed

lemma schedule_loses:
  assumes "reach jobs b ids (lane_state c l True r q lr pd t pcs se ha)" and "pcs p = Scheduling 0" and "jobs p = Insert w now"
  shows "reach jobs b ids (lane_state c l True r q lr pd t (pcs(p := Returned True)) se ha)"
  by (rule cache_reachable.caller [OF assms(1)])
    (use caller_step.scheduled [of "lane_state c l True r q lr pd t pcs se ha" p 0 WRITE_LANE_CAPACITY jobs] assms(2,3)
      in \<open>simp add: lane_state_def\<close>)

text \<open>The writer takes the token of the lane.\<close>

lemma own_turn:
  assumes "reach jobs b ids (lane_state c l bt [] q [0] pd Collect pcs se ha)"
  shows "reach jobs b ids (lane_state c l bt [] q [] pd (Take 0) pcs se ha)"
proof -
  have 1: "reach jobs b ids (lane_state c l bt [] q [0] pd Choose pcs se ha)"
    by (rule cache_reachable.writer [OF assms])
      (use writer_step.collected [of "lane_state c l bt [] q [0] pd Collect pcs se ha" False] in \<open>simp add: lane_state_def\<close>)
  show ?thesis
    by (rule cache_reachable.writer [OF 1])
      (use writer_step.choose [of "lane_state c l bt [] q [0] pd Choose pcs se ha" 0 "[]" False] in \<open>simp add: lane_state_def\<close>)
qed

lemma take_turn:
  assumes "reach jobs b ids (lane_state c l bt [0] q [] pd Collect pcs se ha)"
  shows "reach jobs b ids (lane_state c l bt [] q [] pd (Take 0) pcs se ha)"
proof -
  have 1: "reach jobs b ids (lane_state c l bt [] q [0] pd Collect pcs se ha)"
    by (rule cache_reachable.writer [OF assms])
      (use writer_step.collect [of "lane_state c l bt [0] q [] pd Collect pcs se ha" 0 "[]" False] in \<open>simp add: lane_state_def\<close>)
  then show ?thesis by (rule own_turn)
qed

lemma handle_lane:
  assumes "reach jobs b ids (lane_state c (InsertOp k e # l) bt [] q [] None (Take 0) pcs se ha)"
  shows "reach jobs b ids (lane_state (apply_insert id now k e c) l bt [] (q - entry_cost e) [] None (Finish 0) pcs se (ha @ [InsertOp k e]))"
proof -
  have 1: "reach jobs b ids (lane_state c l bt [] q [] None (Applying 0 (InsertOp k e)) pcs se ha)"
    by (rule cache_reachable.writer [OF assms])
      (use writer_step.take_lane [of "lane_state c (InsertOp k e # l) bt [] q [] None (Take 0) pcs se ha" 0 "InsertOp k e" l False] in \<open>simp add: lane_state_def iter_ok_def\<close>)
  have 2: "reach jobs b ids (lane_state (apply_insert id now k e c) l bt [] q [] None (Release 0 (InsertOp k e)) pcs se ha)"
    by (rule cache_reachable.writer [OF 1])
      (use writer_step.apply_op [of "lane_state c l bt [] q [] None (Applying 0 (InsertOp k e)) pcs se ha" 0 k e id False now] in \<open>simp add: lane_state_def iter_ok_def\<close>)
  show ?thesis
    by (rule cache_reachable.writer [OF 2])
      (use writer_step.release [of "lane_state (apply_insert id now k e c) l bt [] q [] None (Release 0 (InsertOp k e)) pcs se ha" 0 "InsertOp k e" False] in \<open>simp add: lane_state_def iter_ok_def\<close>)
qed

lemma handle_pending:
  assumes "reach jobs b ids (lane_state c l bt [] q [] (Some (InsertOp k e)) (Take 0) pcs se ha)"
  shows "reach jobs b ids (lane_state (apply_insert id now k e c) l bt [] (q - entry_cost e) [] None (Finish 0) pcs se (ha @ [InsertOp k e]))"
proof -
  have 1: "reach jobs b ids (lane_state c l bt [] q [] None (Applying 0 (InsertOp k e)) pcs se ha)"
    by (rule cache_reachable.writer [OF assms])
      (use writer_step.take_pending [of "lane_state c l bt [] q [] (Some (InsertOp k e)) (Take 0) pcs se ha" 0 "InsertOp k e" False] in \<open>simp add: lane_state_def iter_ok_def\<close>)
  have 2: "reach jobs b ids (lane_state (apply_insert id now k e c) l bt [] q [] None (Release 0 (InsertOp k e)) pcs se ha)"
    by (rule cache_reachable.writer [OF 1])
      (use writer_step.apply_op [of "lane_state c l bt [] q [] None (Applying 0 (InsertOp k e)) pcs se ha" 0 k e id False now] in \<open>simp add: lane_state_def iter_ok_def\<close>)
  show ?thesis
    by (rule cache_reachable.writer [OF 2])
      (use writer_step.release [of "lane_state (apply_insert id now k e c) l bt [] q [] None (Release 0 (InsertOp k e)) pcs se ha" 0 "InsertOp k e" False] in \<open>simp add: lane_state_def iter_ok_def\<close>)
qed

lemma finish_with_work:
  assumes "reach jobs b ids (lane_state c (x # l) bt [] q [] None (Finish 0) pcs se ha)"
  shows "reach jobs b ids (lane_state c l bt [] q [0] (Some x) Collect pcs se ha)"
proof -
  show ?thesis
    by (rule cache_reachable.writer [OF assms])
      (use writer_step.finish_more [of "lane_state c (x # l) bt [] q [] None (Finish 0) pcs se ha" 0 x l False] in \<open>simp add: lane_state_def iter_ok_def\<close>)
qed

lemma finish_without_work:
  assumes "reach jobs b ids (lane_state c [] bt [] q [] None (Finish 0) pcs se ha)"
  shows "reach jobs b ids (lane_state c [] False [] q [] None Collect pcs se ha)"
proof -
  have 1: "reach jobs b ids (lane_state c [] bt [] q [] None (Clear 0) pcs se ha)"
    by (rule cache_reachable.writer [OF assms])
      (use writer_step.finish_empty [of "lane_state c [] bt [] q [] None (Finish 0) pcs se ha" 0 False] in \<open>simp add: lane_state_def iter_ok_def\<close>)
  have 2: "reach jobs b ids (lane_state c [] False [] q [] None (Recheck 0) pcs se ha)"
    by (rule cache_reachable.writer [OF 1])
      (use writer_step.clear [of "lane_state c [] bt [] q [] None (Clear 0) pcs se ha" 0 False] in \<open>simp add: lane_state_def iter_ok_def\<close>)
  show ?thesis
    by (rule cache_reachable.writer [OF 2])
      (use writer_step.recheck_empty [of "lane_state c [] False [] q [] None (Recheck 0) pcs se ha" 0 False] in \<open>simp add: lane_state_def iter_ok_def\<close>)
qed

lemma find_stale:
  assumes "reach jobs b ids (lane_state c [] bt [] q [] None (Take 0) pcs se ha)"
  shows "reach jobs b ids (lane_state c [] bt [] q [] None (Stale 0) pcs se ha)"
proof -
  show ?thesis
    by (rule cache_reachable.writer [OF assms])
      (use writer_step.take_stale [of "lane_state c [] bt [] q [] None (Take 0) pcs se ha" 0 False] in \<open>simp add: lane_state_def iter_ok_def\<close>)
qed

lemma clear_and_block:
  assumes "reach jobs b ids (lane_state c l bt [] q [] None (Stale 0) pcs se ha)"
  shows "reach jobs b ids (lane_state c l False [] q [] None Blocked pcs se ha)"
proof -
  have 1: "reach jobs b ids (lane_state c l False [] q [] None Collect pcs se ha)"
    by (rule cache_reachable.writer [OF assms])
      (use writer_step.clear_stale [of "lane_state c l bt [] q [] None (Stale 0) pcs se ha" 0 False] in \<open>simp add: lane_state_def iter_ok_def\<close>)
  have 2: "reach jobs b ids (lane_state c l False [] q [] None Choose pcs se ha)"
    by (rule cache_reachable.writer [OF 1])
      (use writer_step.collected [of "lane_state c l False [] q [] None Collect pcs se ha" False] in \<open>simp add: lane_state_def iter_ok_def\<close>)
  show ?thesis
    by (rule cache_reachable.writer [OF 2])
      (use writer_step.none_ready [of "lane_state c l False [] q [] None Choose pcs se ha" False] in \<open>simp add: lane_state_def iter_ok_def\<close>)
qed

definition demo_write :: "nat \<Rightarrow> cache_write" where
  "demo_write n =
     \<lparr>cw_key = \<lparr>ck_tenant_id = ''a'', ck_namespace = ''default'', ck_hash = [of_nat n]\<rparr>, cw_body = ''{}'', cw_ttl_seconds = 60,
      cw_model = ''m'', cw_prompt_tokens = 1, cw_completion_tokens = 1, cw_total_tokens = 2\<rparr>"

definition demo_op :: "nat \<Rightarrow> nat lane_op" where
  "demo_op n = InsertOp (cw_key (demo_write n)) (write_entry (demo_write n) 0)"

definition demo_jobs :: "nat \<Rightarrow> job" where
  "demo_jobs p = Insert (demo_write p) 0"

abbreviation demo_plan :: capacity_plan where
  "demo_plan \<equiv> capacity_plan_new 0x100000 [''a'']"

lemma demo_facts [simp]:
  "tenant_index demo_plan ''a'' = Some 0" "effective_entry_budgets demo_plan ! 0 = 524288" "pl_writer_budgets demo_plan ! 0 = 524288"
  "entry_cost (write_entry (demo_write n) 0) = 163" "ck_tenant_id (cw_key (demo_write n)) = ''a''"
  "length (ce_body (write_entry (demo_write n) 0)) = 2"
  by (simp_all add: tenant_index_def effective_entry_budgets_def capacity_plan_new_def Let_def partition_bytes_def
      MAX_WRITE_RETENTION_BYTES_def entry_cost_def write_entry_def demo_write_def KEY_OVERHEAD_BYTES_def)

lemma demo_send:
  assumes "reach demo_jobs 0x100000 [''a''] (lane_state c l bt r q lr pd t pcs se ha)" and "pcs p = Start"
    and "cc_capacity c = demo_plan" and "q \<le> 1000" and "length l < WRITE_LANE_CAPACITY"
  shows "reach demo_jobs 0x100000 [''a''] (lane_state c (l @ [demo_op p]) bt r (q + 163) lr pd t (pcs(p := Scheduling 0))
    (se @ [demo_op p]) ha)"
  using reserve_and_send [OF assms(1,2), of "demo_write p" 0] assms(3-5)
  by (simp add: demo_jobs_def demo_op_def MAX_ENTRY_BYTES_def)

lemma demo_wins:
  assumes "reach demo_jobs 0x100000 [''a''] (lane_state c l False [] q lr pd t pcs se ha)" and "pcs p = Scheduling 0"
  shows "reach demo_jobs 0x100000 [''a''] (lane_state c l True [0] q lr pd t (pcs(p := Returned True)) se ha)"
  by (rule schedule_wins [OF assms, of "demo_write p" 0]) (simp add: demo_jobs_def)

lemma demo_loses:
  assumes "reach demo_jobs 0x100000 [''a''] (lane_state c l True r q lr pd t pcs se ha)" and "pcs p = Scheduling 0"
  shows "reach demo_jobs 0x100000 [''a''] (lane_state c l True r q lr pd t (pcs(p := Returned True)) se ha)"
  by (rule schedule_loses [OF assms, of "demo_write p" 0]) (simp add: demo_jobs_def)

text \<open>
  Two writes are sent; the second one signals, and the writer handles both before the first one
  signals: a stale token. A third write is sent after the writer has found the lane empty and before
  it clears the bit.
\<close>

lemma lost_wakeup_run:
  obtains c q pcs se ha where
    "reach demo_jobs 0x100000 [''a''] (lane_state c [demo_op 2] False [] q [] None Blocked pcs se ha)"
    "pcs 2 = Returned True" "\<And>p. idle_pc (pcs p)"
proof -
  let ?r = "reach demo_jobs 0x100000 [''a'']"
  let ?c0 = "core_new 0x100000 [''a'']"
  have cap: "cc_capacity ?c0 = demo_plan" by (simp add: core_new_def core_with_capacity_def)
  have op: "demo_op n = InsertOp (cw_key (demo_write n)) (write_entry (demo_write n) 0)" for n by (simp add: demo_op_def)
  have "?r (writer_init 0x100000 [''a''])" by (rule cache_reachable.init)
  also have "writer_init 0x100000 [''a''] = lane_state ?c0 [] False [] 0 [] None Collect (\<lambda>_. Start) [] []"
    by (simp add: writer_init_def lane_state_def fun_upd_idem)
  finally have 0: "?r (lane_state ?c0 [] False [] 0 [] None Collect (\<lambda>_. Start) [] [])" .
  have n: "0 < WRITE_LANE_CAPACITY" "1 < WRITE_LANE_CAPACITY" by (simp_all add: WRITE_LANE_CAPACITY_def)
  note 1 = demo_send [OF 0, of 0, simplified, OF cap n(1)]
  note 2 = demo_send [OF 1, of 1, simplified, OF cap n(2) [simplified]]
  note 3 = demo_wins [OF 2, of 1, simplified]
  note 4 = finish_with_work [OF handle_lane [OF take_turn [OF 3 [unfolded op]]]]
  note 5 = finish_without_work [OF handle_pending [OF own_turn [OF 4]]]
  note 6 = demo_wins [OF 5, of 0, simplified]
  note 7 = find_stale [OF take_turn [OF 6]]
  note 8 = demo_send [OF 7, of 2, simplified, OF cap n(1)]
  note 9 = clear_and_block [OF demo_loses [OF 8, of 2, simplified]]
  show thesis by (rule that [OF 9]) simp_all
qed

lemma lost_wakeup:
  obtains s where "cache_reachable False WRITE_LANE_CAPACITY demo_jobs 0x100000 [''a''] s" "quiet s" "\<not> ws_closed s"
    "ws_pcs s 2 = Returned True" "ws_lanes s 0 = [demo_op 2]" "\<not> ws_scheduled s 0"
    "current 0 (ws_turn s) = []" "pending_ops 0 s = []"
proof -
  obtain c q pcs se ha where r: "reach demo_jobs 0x100000 [''a''] (lane_state c [demo_op 2] False [] q [] None Blocked pcs se ha)"
    and p: "pcs 2 = Returned True" "\<And>p. idle_pc (pcs p)" using lost_wakeup_run by blast
  show thesis by (rule that [OF r]) (use p in \<open>simp_all add: lane_state_def quiet_def pending_ops_def\<close>)
qed

section \<open>Properties\<close>

lemma cache_envelope_parts:
  assumes "cache_reachable False lane_capacity jobs b ids s" and "b < 2 ^ 63"
  shows "snd (stats_snapshot (ws_core s)) + queued_bytes (cc_capacity (ws_core s)) s \<le> unat b"
    and "tenant_index (capacity_plan_new b ids) t = Some i \<Longrightarrow>
      tenant_spent (ws_core s) t \<le> pl_storage_budgets (capacity_plan_new b ids) ! i \<and>
      ws_queued s i \<le> pl_writer_budgets (capacity_plan_new b ids) ! i"
    and "ws_queued s i = sum_list (map op_cost (current i (ws_turn s) @ pending_ops i s @ ws_lanes s i)) +
      pc_sum (reserved_cost i) (ws_pcs s)"
    and "length (ws_ready s) \<le> plan_tenant_count (capacity_plan_new b ids)"
proof -
  have ok: "sys_ok s" using reachable_sys_ok [OF assms] .
  note cap = reachable_capacity [OF assms(1)]
  have core: "core_ok (ws_core s)" and bytes: "bytes_ok s" using ok by (simp_all add: sys_ok_def)
  have plan: "plan_ok (capacity_plan_new b ids)" by (rule plan_new_ok [OF assms(2)])
  have "pl_storage_budget_bytes (capacity_plan_new b ids) + pl_writer_budget_bytes (capacity_plan_new b ids) = unat b"
    using plan by (simp add: plan_ok_def)
  then show "snd (stats_snapshot (ws_core s)) + queued_bytes (cc_capacity (ws_core s)) s \<le> unat b"
    using stored_within_budget [OF core] queued_within_budget [OF ok] cap by simp
  show "tenant_spent (ws_core s) t \<le> pl_storage_budgets (capacity_plan_new b ids) ! i \<and>
      ws_queued s i \<le> pl_writer_budgets (capacity_plan_new b ids) ! i"
    if t: "tenant_index (capacity_plan_new b ids) t = Some i"
    using cache.within_share [OF core, of t] bytes_le [OF bytes, of i] plan_index(1) [OF plan t] t
    by (simp add: tenant_share_def cap)
  show "ws_queued s i = sum_list (map op_cost (current i (ws_turn s) @ pending_ops i s @ ws_lanes s i)) +
      pc_sum (reserved_cost i) (ws_pcs s)" by (rule bytes_at [OF bytes])
  show "length (ws_ready s) \<le> plan_tenant_count (capacity_plan_new b ids)" using ready_bounded [OF ok] cap by simp
qed

text \<open>
  C14. In every interleaving of request threads, the writer thread and lookups, the bytes stored and the bytes waiting in the write lanes together stay within the cache's memory budget; each tenant's stored bytes and waiting bytes stay within its own shares, the byte counter of a lane is exactly what waits in it, and a signal to the writer never finds the ready queue full.
\<close>

theorem cache_envelope:
  assumes "cache_reachable False lane_capacity jobs b ids s" and "b < 2 ^ 63"
  shows "(snd (stats_snapshot (ws_core s)) + queued_bytes (cc_capacity (ws_core s)) s \<le> unat b) \<and>
   ((tenant_index (capacity_plan_new b ids) t = Some i) \<longrightarrow> tenant_spent (ws_core s) t \<le> pl_storage_budgets (capacity_plan_new b ids) ! i \<and>
      ws_queued s i \<le> pl_writer_budgets (capacity_plan_new b ids) ! i) \<and>
   (ws_queued s i = sum_list (map op_cost (current i (ws_turn s) @ pending_ops i s @ ws_lanes s i)) +
      pc_sum (reserved_cost i) (ws_pcs s)) \<and>
   (length (ws_ready s) \<le> plan_tenant_count (capacity_plan_new b ids))"
  by ((rule conjI, rule cache_envelope_parts(1) [OF assms]),
      (rule conjI, rule impI, rule cache_envelope_parts(2) [OF assms], assumption),
      (rule conjI, rule cache_envelope_parts(3) [OF assms]),
      (rule cache_envelope_parts(4) [OF assms]))

theorem cache_envelope_witness:
  "\<exists>s. cache_reachable False WRITE_LANE_CAPACITY demo_jobs 0x100000 [''a''] s \<and> ws_lanes s 0 = [demo_op 2] \<and>
     snd (stats_snapshot (ws_core s)) + queued_bytes (cc_capacity (ws_core s)) s \<le> 1048576"
proof -
  obtain s where r: "cache_reachable False WRITE_LANE_CAPACITY demo_jobs 0x100000 [''a''] s" "ws_lanes s 0 = [demo_op 2]"
    using lost_wakeup by blast
  have "snd (stats_snapshot (ws_core s)) + queued_bytes (cc_capacity (ws_core s)) s \<le> 1048576"
    using cache_envelope [THEN conjunct1, OF r(1)] by simp
  then show ?thesis using r by blast
qed

lemma stale_token_loses_wakeup_parts:
  shows "\<exists>s p. cache_reachable False WRITE_LANE_CAPACITY demo_jobs 0x100000 [''a''] s \<and> quiet s \<and> \<not> ws_closed s \<and>
      ws_pcs s p = Returned True \<and> ws_lanes s 0 = [demo_op p] \<and> \<not> ws_scheduled s 0"
    and "cache_reachable False lane_capacity jobs b ids s \<Longrightarrow> b < 2 ^ 63 \<Longrightarrow> quiet s \<Longrightarrow>
      \<not> ws_scheduled s i \<and> ws_sent s i = ws_handled s i @ ws_lanes s i \<and>
      (\<not> ws_closed s \<longrightarrow> \<not> writer_step False s s')"
proof -
  show "\<exists>s p. cache_reachable False WRITE_LANE_CAPACITY demo_jobs 0x100000 [''a''] s \<and> quiet s \<and> \<not> ws_closed s \<and>
      ws_pcs s p = Returned True \<and> ws_lanes s 0 = [demo_op p] \<and> \<not> ws_scheduled s 0"
    using lost_wakeup by blast
  show "\<not> ws_scheduled s i \<and> ws_sent s i = ws_handled s i @ ws_lanes s i \<and> (\<not> ws_closed s \<longrightarrow> \<not> writer_step False s s')"
    if "cache_reachable False lane_capacity jobs b ids s" "b < 2 ^ 63" "quiet s"
  proof -
    have ok: "sys_ok s" using reachable_sys_ok [OF that(1,2)] .
    have "\<not> ws_closed s \<longrightarrow> \<not> writer_step False s s'"
      using that(3) ok by (auto simp: quiet_def sys_ok_def turn_ok_def elim: writer_stepE)
    then show ?thesis using quiet_lanes(1,2) [OF ok that(3), of i] by simp
  qed
qed

text \<open>
  C16. A write the cache has accepted can stay in its lane for good: there is a run in which the insertion has returned true, no thread and no token is left, the writer sleeps, and the operation still waits with its lane not scheduled, so only a later write to the same lane wakes the writer. In every such quiet state no lane is scheduled, what waits in a lane is exactly what was sent and not handled, and the writer's own steps are over until a signal comes.
\<close>

theorem stale_token_loses_wakeup:
  shows "((\<exists>s p. cache_reachable False WRITE_LANE_CAPACITY demo_jobs 0x100000 [''a''] s \<and> quiet s \<and> \<not> ws_closed s \<and>
      ws_pcs s p = Returned True \<and> ws_lanes s 0 = [demo_op p] \<and> \<not> ws_scheduled s 0)) \<and>
   ((cache_reachable False lane_capacity jobs b ids s) \<longrightarrow> (b < 2 ^ 63) \<longrightarrow> (quiet s) \<longrightarrow> \<not> ws_scheduled s i \<and> ws_sent s i = ws_handled s i @ ws_lanes s i \<and>
      (\<not> ws_closed s \<longrightarrow> \<not> writer_step False s s'))"
  by ((rule conjI, rule stale_token_loses_wakeup_parts(1)),
      (rule impI, rule impI, rule impI, rule stale_token_loses_wakeup_parts(2), assumption, assumption, assumption))

theorem stale_token_loses_wakeup_witness:
  "\<exists>s. quiet s \<and> ws_lanes s 0 \<noteq> [] \<and> \<not> ws_scheduled s 0 \<and>
     ws_sent s 0 = ws_handled s 0 @ [demo_op 2]"
proof -
  obtain s where r: "cache_reachable False WRITE_LANE_CAPACITY demo_jobs 0x100000 [''a''] s" "quiet s" "ws_lanes s 0 = [demo_op 2]"
    using lost_wakeup by blast
  then have "\<not> ws_scheduled s 0 \<and> ws_sent s 0 = ws_handled s 0 @ ws_lanes s 0"
    using stale_token_loses_wakeup [THEN conjunct2, THEN mp, THEN mp, THEN mp, OF r(1) _ r(2), of 0] by simp
  then show ?thesis using r by (intro exI [of _ s]) simp
qed

subsection \<open>Further facts\<close>

text \<open>
  The write-behind of the cache handles the operations of a tenant exactly once and in the order they were sent, in every interleaving: what was sent to a lane is what was handled, then what the writer has in hand, then what still waits. A lane is in the ready queues at most once, and a lane nobody marked as scheduled has no token anywhere.
\<close>

lemma lanes_in_order:
  assumes "cache_reachable False lane_capacity jobs b ids s" and "b < 2 ^ 63"
  shows "ws_sent s i = ws_handled s i @ current i (ws_turn s) @ pending_ops i s @ ws_lanes s i"
    and "distinct (ws_local_ready s @ ws_ready s)"
    and "tokens s i = (if ws_scheduled s i then 1 else 0)"
proof -
  have ok: "sys_ok s" using reachable_sys_ok [OF assms] .
  show "ws_sent s i = ws_handled s i @ current i (ws_turn s) @ pending_ops i s @ ws_lanes s i"
    using ok by (simp add: sys_ok_def fifo_ok_def)
  show "distinct (ws_local_ready s @ ws_ready s)" using ok by (intro ready_distinct) (simp add: sys_ok_def)
  show "tokens s i = (if ws_scheduled s i then 1 else 0)" using ok by (simp add: sys_ok_def tokens_ok_def)
qed

text \<open>
  If the writer cleared a stale token only while the lane is still empty, as it rechecks at the end of every other turn, no accepted write would be left behind: whenever the system is quiet, every lane is empty, every operation that was sent has been handled in order, and nothing is counted as waiting.
\<close>

lemma no_lost_wakeup:
  assumes "cache_reachable True lane_capacity jobs b ids s" and "b < 2 ^ 63" and "quiet s"
  shows "ws_lanes s i = []" and "ws_handled s i = ws_sent s i" and "ws_queued s i = 0"
proof -
  have ok: "sys_ok s" using reachable_sys_ok [OF assms(1,2)] .
  note q = quiet_lanes [OF ok assms(3), of i]
  have "rechecks (ws_turn s) = None" using assms(3) by (auto simp: quiet_def)
  then show "ws_lanes s i = []" using reachable_announced [OF assms(1,2)] q by (auto simp: announced_def)
  then show "ws_handled s i = ws_sent s i" "ws_queued s i = 0" using q by simp_all
qed

end
