(* ===== verification/Response_Cache.thy ===== *)
theory Response_Cache
  imports Cache_Writer Authentication Policy_Eval Idempotency
begin

text \<open>
  How the gateway uses the exact-match cache: the participation decision, the hit that is served,
  the write after a success (\<^verbatim>\<open>crates/routeplane/src/proxy.rs\<close>) and the purge endpoint
  (\<^verbatim>\<open>cache_api.rs\<close>). The classification of the request, the JSON forms of \<^verbatim>\<open>serde_json\<close> and SHA-256
  are parameters. Reversible tokenization and the semantic tier are not part of this build.
\<close>

section \<open>Participation\<close>

datatype cache_plan = CacheOff | CacheBypass | CacheActive cache_key bool u64 nat

text \<open>The header \<^verbatim>\<open>x-routeplane-cache-control\<close>.\<close>

definition client_cache_no_store :: "string option \<Rightarrow> bool" where
  "client_cache_no_store header =
     (case Option.bind header header_to_str of
        Some v \<Rightarrow> to_ascii_lowercase (trim v) = ''no-store''
      | None \<Rightarrow> False)"

text \<open>Only an explicit tenant id with a share of the cache has authority over entries.\<close>

definition cache_tenant :: "capacity_plan \<Rightarrow> virtual_key \<Rightarrow> string option" where
  "cache_tenant plan vk =
     Option.bind (Option.bind (canonical_tenant_id vk) tenant_id_new)
       (\<lambda>t. if owns_positive_share plan t then Some t else None)"

definition cache_chain :: "target_plan list \<Rightarrow> string list" where
  "cache_chain targets = map (\<lambda>t. to_ascii_lowercase (trim (tp_provider t))) targets"

definition shaped_payload ::
  "(('m, 't) chat_request \<Rightarrow> json option) \<Rightarrow> (json \<Rightarrow> ('m, 't) chat_request option) \<Rightarrow> target_plan list
     \<Rightarrow> ('m, 't) chat_request \<Rightarrow> ('m, 't) chat_request" where
  "shaped_payload to_value from_value targets payload =
     (case targets of
        t # _ \<Rightarrow> if \<not> shaping_is_noop (tp_params t) then shaping_apply to_value from_value (tp_params t) payload else payload
      | [] \<Rightarrow> payload)"

record ('m, 't) cache_env =
  en_sha :: sha256
  en_to_vec :: "('m, 't) key_view \<Rightarrow> string option"
  en_to_value :: "('m, 't) chat_request \<Rightarrow> json option"
  en_from_value :: "json \<Rightarrow> ('m, 't) chat_request option"

record ('m, 't) cache_request =
  rq_directive :: "cache_directive option"
  rq_no_store :: "string option"
  rq_personal_data :: bool
  rq_required_region :: "string option"
  rq_key :: virtual_key
  rq_payload :: "('m, 't) chat_request"
  rq_targets :: "target_plan list"

definition cache_plan_of ::
  "('m, 't) cache_env \<Rightarrow> capacity_plan \<Rightarrow> flush_registry \<Rightarrow> ('m, 't) cache_request \<Rightarrow> cache_plan" where
  "cache_plan_of env plan reg rq =
     (case rq_directive rq of
        None \<Rightarrow> CacheOff
      | Some d \<Rightarrow>
          if client_cache_no_store (rq_no_store rq) then CacheBypass
          else if rq_personal_data rq \<or> rq_required_region rq \<noteq> None then CacheBypass
          else if cr_stream (rq_payload rq) = Some True then CacheBypass
          else case cache_tenant plan (rq_key rq) of
              None \<Rightarrow> CacheBypass
            | Some t \<Rightarrow>
                let generation = generation_effective reg t (cd_namespace d);
                    shaped = shaped_payload (en_to_value env) (en_from_value env) (rq_targets rq) (rq_payload rq);
                    k = exact_key_gen (en_sha env) (en_to_vec env) t (cd_namespace d) shaped (cache_chain (rq_targets rq)) generation
                in CacheActive k (cd_force_refresh d) (cd_ttl_seconds d)
                     (min (unat (cd_max_response_bytes d))
                       (max_response_bytes_for_tenant plan t (length (cr_model (rq_payload rq))))))"

section \<open>Statuses\<close>

datatype cache_status = Hit | Miss | Refreshed | SemanticHit | BypassStatus

fun header_value :: "cache_status \<Rightarrow> string" where
  "header_value Hit = ''hit''" | "header_value Miss = ''miss''" | "header_value Refreshed = ''refreshed''"
| "header_value SemanticHit = ''semantic-hit''" | "header_value BypassStatus = ''bypass''"

fun event_value :: "cache_status \<Rightarrow> string" where
  "event_value Hit = ''hit''" | "event_value Miss = ''miss''" | "event_value Refreshed = ''refreshed''"
| "event_value SemanticHit = ''semantic_hit''" | "event_value BypassStatus = ''bypass''"

fun cache_event_status :: "cache_plan \<Rightarrow> string option" where
  "cache_event_status CacheOff = None"
| "cache_event_status CacheBypass = Some (event_value BypassStatus)"
| "cache_event_status (CacheActive _ refresh _ _) = Some (event_value (if refresh then Refreshed else Miss))"

section \<open>Serving and storing\<close>

fun serve_hit :: "u64 \<Rightarrow> cache_plan \<Rightarrow> cache_core \<Rightarrow> cache_entry option \<times> cache_core" where
  "serve_hit now (CacheActive k False _ _) core = core_lookup now k core"
| "serve_hit now _ core = (None, core)"

record usage =
  us_prompt_tokens :: u32
  us_completion_tokens :: u32
  us_total_tokens :: u32

text \<open>
  After a success: the write handed to the cache, if any, and the store, where a body over the
  limits is counted.
\<close>

fun store_response :: "cache_plan \<Rightarrow> string \<Rightarrow> string \<Rightarrow> usage \<Rightarrow> cache_core \<Rightarrow> cache_write option \<times> cache_core" where
  "store_response (CacheActive k _ ttl_seconds max_response_bytes) body model u core =
     (if length body \<le> min max_response_bytes
            (max_response_bytes_for_tenant (cc_capacity core) (ck_tenant_id k) (length model))
      then (Some \<lparr>cw_key = k, cw_body = body, cw_ttl_seconds = ttl_seconds, cw_model = model,
                 cw_prompt_tokens = us_prompt_tokens u, cw_completion_tokens = us_completion_tokens u,
                 cw_total_tokens = us_total_tokens u\<rparr>, core)
      else (None, record_oversize core))"
| "store_response _ body model u core = (None, core)"

section \<open>The purge endpoint\<close>

datatype purge_answer = Purged string "string option" u64 | PurgeError u16 string

definition purge :: "capacity_plan \<Rightarrow> virtual_key \<Rightarrow> string option \<Rightarrow> flush_registry \<Rightarrow> purge_answer \<times> flush_registry" where
  "purge plan vk namespace reg =
     (case cache_tenant plan vk of
        None \<Rightarrow> (PurgeError 403 ''routeplane_cache_tenant_authority_missing'', reg)
      | Some t \<Rightarrow>
          if (case namespace of Some ns \<Rightarrow> \<not> is_valid_cache_namespace ns | None \<Rightarrow> False)
          then (PurgeError 400 ''routeplane_invalid_cache_namespace'', reg)
          else case flush_bump t (case namespace of Some ns \<Rightarrow> ns | None \<Rightarrow> WILDCARD_NAMESPACE) reg of
              (Inr generation, reg) \<Rightarrow> (Purged t namespace generation, reg)
            | (Inl InvalidNamespace, reg) \<Rightarrow> (PurgeError 400 ''routeplane_invalid_cache_namespace'', reg)
            | (Inl ScopeLimit, reg) \<Rightarrow> (PurgeError 429 ''routeplane_cache_purge_scope_limit'', reg)
            | (Inl UnknownTenant, reg) \<Rightarrow> (PurgeError 403 ''routeplane_cache_tenant_authority_missing'', reg))"

section \<open>Keys of active plans\<close>

text \<open>What is hashed for a request, and its key.\<close>

definition key_bytes :: "('m, 't) cache_env \<Rightarrow> flush_registry \<Rightarrow> ('m, 't) cache_request \<Rightarrow> string \<Rightarrow> string \<Rightarrow> string" where
  "key_bytes env reg rq t n =
     exact_preimage (en_to_vec env) (shaped_payload (en_to_value env) (en_from_value env) (rq_targets rq) (rq_payload rq))
       (cache_chain (rq_targets rq)) (generation_effective reg t n)"

definition the_key :: "('m, 't) cache_env \<Rightarrow> flush_registry \<Rightarrow> ('m, 't) cache_request \<Rightarrow> string \<Rightarrow> string \<Rightarrow> cache_key" where
  "the_key env reg rq t n =
     \<lparr>ck_tenant_id = t, ck_namespace = n, ck_hash = en_sha env (key_bytes env reg rq t n)\<rparr>"

lemma active_plan:
  "cache_plan_of env plan reg rq = CacheActive k refresh ttl cap \<longleftrightarrow>
     (\<exists>d t. rq_directive rq = Some d \<and> \<not> client_cache_no_store (rq_no_store rq) \<and> \<not> rq_personal_data rq \<and>
        rq_required_region rq = None \<and> cr_stream (rq_payload rq) \<noteq> Some True \<and> cache_tenant plan (rq_key rq) = Some t \<and>
        k = the_key env reg rq t (cd_namespace d) \<and> refresh = cd_force_refresh d \<and> ttl = cd_ttl_seconds d \<and>
        cap = min (unat (cd_max_response_bytes d)) (max_response_bytes_for_tenant plan t (length (cr_model (rq_payload rq)))))"
  by (auto simp: cache_plan_of_def the_key_def key_bytes_def exact_key_gen_def Let_def split: option.split)

definition plain_request :: "('m, 't) cache_request \<Rightarrow> bool" where
  "plain_request rq \<longleftrightarrow> (\<forall>p\<in>set (cache_chain (rq_targets rq)). plain_name p)"

text \<open>What two requests share when they have the same key.\<close>

definition same_request ::
  "('m, 't) cache_env \<Rightarrow> flush_registry \<Rightarrow> ('m, 't) cache_request \<Rightarrow> flush_registry \<Rightarrow> ('m, 't) cache_request \<Rightarrow> string \<Rightarrow> string \<Rightarrow> bool" where
  "same_request env reg rq reg' rq' t n \<longleftrightarrow>
     en_to_vec env (key_view_of (shaped_payload (en_to_value env) (en_from_value env) (rq_targets rq) (rq_payload rq))) =
       en_to_vec env (key_view_of (shaped_payload (en_to_value env) (en_from_value env) (rq_targets rq') (rq_payload rq'))) \<and>
     map chain_name (cache_chain (rq_targets rq)) = map chain_name (cache_chain (rq_targets rq')) \<and>
     generation_effective reg t n = generation_effective reg' t n"

lemma same_key:
  assumes vec: "\<And>v. \<exists>b. en_to_vec env v = Some b \<and> CHR 0x1F \<notin> set b"
    and plain: "plain_request rq" "plain_request rq'"
    and eq: "the_key env reg rq t n = the_key env reg' rq' t' n'"
  shows "t = t'" "n = n'"
    "same_request env reg rq reg' rq' t n \<or> collides (en_sha env) (key_bytes env reg rq t n) (key_bytes env reg' rq' t n)"
proof -
  have no: "CHR 0x1F \<notin> set b" if "en_to_vec env v = Some b" for v b
    using vec [of v] that by auto
  have some: "en_to_vec env v = en_to_vec env v'"
    if "(case en_to_vec env v of Some b \<Rightarrow> b | None \<Rightarrow> []) = (case en_to_vec env v' of Some b \<Rightarrow> b | None \<Rightarrow> [])" for v v'
    using that vec [of v] vec [of v'] by auto
  show k: "t = t'" "n = n'" using eq by (simp_all add: the_key_def)
  show "same_request env reg rq reg' rq' t n \<or> collides (en_sha env) (key_bytes env reg rq t n) (key_bytes env reg' rq' t n)"
  proof (cases "key_bytes env reg rq t n = key_bytes env reg' rq' t n")
    case True
    note sep = preimage_separates [OF no plain [unfolded plain_request_def] True [unfolded key_bytes_def]]
    show ?thesis unfolding same_request_def using some [OF sep(1)] sep(2,3) by simp
  next
    case False
    then show ?thesis using eq k by (simp add: the_key_def collides_def)
  qed
qed

section \<open>A concrete request\<close>

definition demo_env :: "(unit, unit) cache_env" where
  "demo_env = \<lparr>en_sha = (\<lambda>s. [of_nat (length s)]), en_to_vec = (\<lambda>_. Some ''{}''), en_to_value = (\<lambda>_. None), en_from_value = (\<lambda>_. None)\<rparr>"

definition demo_key :: virtual_key where
  "demo_key =
     \<lparr>vk_name = ''k'', vk_routeplane_key = ''rp_k'', vk_provider_keys = Map.empty, vk_tenant_id = Some ''a'',
      vk_lifecycle_state = Active, vk_tier = Free, vk_capability_overrides = {}, vk_rollout_holdbacks = {},
      vk_default_residency = None, vk_compliance_frameworks = [], vk_compliance_mode = Strict,
      vk_provisioned_models = {}, vk_integrations = Map.empty\<rparr>"

definition demo_payload :: "(unit, unit) chat_request" where
  "demo_payload =
     \<lparr>cr_model = ''m'', cr_messages = [()], cr_temperature = None, cr_top_p = None, cr_stream = None, cr_max_tokens = None,
      cr_max_completion_tokens = None, cr_stop = None, cr_n = None, cr_presence_penalty = None, cr_frequency_penalty = None,
      cr_user = None, cr_tools = None, cr_tool_choice = None, cr_parallel_tool_calls = None, cr_response_format = None,
      cr_seed = None, cr_logprobs = None, cr_top_logprobs = None, cr_logit_bias = None, cr_service_tier = None,
      cr_reasoning_effort = None\<rparr>"

definition demo_request :: "bool \<Rightarrow> (unit, unit) cache_request" where
  "demo_request personal =
     \<lparr>rq_directive = Some \<lparr>cd_mode = Simple, cd_ttl_seconds = 60, cd_namespace = ''default'', cd_force_refresh = False,
        cd_similarity_threshold = None, cd_max_response_bytes = 1000\<rparr>,
      rq_no_store = None, rq_personal_data = personal, rq_required_region = None, rq_key = demo_key,
      rq_payload = demo_payload, rq_targets = []\<rparr>"

definition demo_cache_key :: "u64 \<Rightarrow> cache_key" where
  "demo_cache_key g = \<lparr>ck_tenant_id = ''a'', ck_namespace = ''default'', ck_hash = [if 0 < g then 12 else 3]\<rparr>"

definition demo_entry :: cache_entry where
  "demo_entry = write_entry (demo_write 0) 0"

lemma demo_preimage: "en_to_vec env = (\<lambda>_. Some ''{}'') \<Longrightarrow>
    length (exact_preimage (en_to_vec env) req [] g) = (if 0 < g then 12 else 3)"
  by (simp add: exact_preimage_def le_bytes_def)

lemma demo_active: "cache_plan_of demo_env demo_plan reg (demo_request False) =
    CacheActive (demo_cache_key (generation_effective reg ''a'' ''default'')) False 60 1000"
proof -
  have t: "cache_tenant demo_plan demo_key = Some ''a''"
    by (simp add: demo_key_def cache_tenant_def canonical_tenant_id_def tenant_id_new_def TENANT_ID_MAX_LEN_def
        is_ascii_alphanumeric_def is_ascii_lowercase_def is_ascii_uppercase_def is_ascii_digit_def owns_positive_share_def
        capacity_plan_new_def Let_def partition_bytes_def MAX_WRITE_RETENTION_BYTES_def KEY_OVERHEAD_BYTES_def tenant_index_def)
  have cap: "max_response_bytes_for_tenant demo_plan ''a'' 1 = 262144"
    by (simp add: max_response_bytes_for_tenant_def capacity_plan_new_def Let_def partition_bytes_def MAX_ENTRY_BYTES_def
        MAX_WRITE_RETENTION_BYTES_def KEY_OVERHEAD_BYTES_def tenant_index_def)
  have sha: "en_sha demo_env (exact_preimage (en_to_vec demo_env) req [] g) = [if 0 < g then 12 else 3]" for req g
  proof -
    have "en_to_vec demo_env = (\<lambda>_. Some ''{}'')" by (simp add: demo_env_def)
    note demo_preimage [OF this]
    moreover have "en_sha demo_env s = [of_nat (length s)]" for s by (simp add: demo_env_def)
    ultimately show ?thesis by simp
  qed
  show ?thesis
    using t cap by (simp add: cache_plan_of_def demo_request_def demo_payload_def client_cache_no_store_def Let_def
        exact_key_gen_def sha demo_cache_key_def cache_chain_def)
qed

lemma demo_reg: "generation_effective [] ''a'' ''default'' = 0" "generation_effective [(''a'', [])] ''a'' ''default'' = 0"
  "generation_effective [(''a'', [(''*'', 1)])] ''a'' ''default'' = 1"
  by (simp_all add: generation_effective_def flush_generation_def scope_generation_def WILDCARD_NAMESPACE_def sat_add_def)

lemma demo_purge: "purge demo_plan demo_key None [(''a'', [])] = (Purged ''a'' None 1, [(''a'', [(''*'', 1)])])"
proof -
  have "cache_tenant demo_plan demo_key = Some ''a''"
    using demo_active [of "[]"] by (auto simp: active_plan the_key_def demo_cache_key_def demo_request_def)
  then show ?thesis
    by (simp add: purge_def flush_bump_def is_valid_flush_namespace_def bump_body_def MAX_PURGED_SCOPES_PER_TENANT_def
        WILDCARD_NAMESPACE_def shard_insert_def shard_remove_def sat_add_def)
qed

lemma demo_cached: "cached (do_put (id, 0, demo_cache_key 0, demo_entry) (core_new 0x100000 [''a''])) (demo_cache_key 0) = Some demo_entry"
proof -
  let ?core = "core_new 0x100000 [''a'']"
  have ok: "core_ok ?core" by (rule core_new_ok) simp
  have cap: "cc_capacity ?core = demo_plan" by (simp add: core_new_def core_with_capacity_def)
  have "pl_storage_budgets demo_plan ! 0 = 524288"
    by (simp add: capacity_plan_new_def Let_def partition_bytes_def MAX_WRITE_RETENTION_BYTES_def)
  then show ?thesis using cap
    by (simp add: apply_insert_def core_new_def core_with_capacity_def demo_cache_key_def demo_entry_def cached_def Let_def
        cache_key_shard_def SHARD_COUNT_def MAX_ENTRY_BYTES_def usz_add_def plan_tenant_count_def)
qed

section \<open>Properties\<close>



lemma purged_entries_unreachable_parts:
  assumes "purge plan vk namespace reg = (Purged t namespace g, reg')" and scope: "ns = (case namespace of Some ns \<Rightarrow> ns | None \<Rightarrow> WILDCARD_NAMESPACE)"
    and vec: "\<forall>v. \<exists>w. en_to_vec env v = Some w \<and> CHR 0x1F \<notin> set w" and pl: "plain_request rq" "plain_request rq'"
    and k: "cache_plan_of env plan reg rq = CacheActive k r ttl cap"
    and k': "cache_plan_of env plan (purge_all later reg') rq' = CacheActive k' r' ttl' cap'"
    and t: "ck_tenant_id k = t" and sc: "in_scope ns (ck_namespace k)" and lt: "generation_effective reg t (ck_namespace k) < u64_max"
  shows "k \<noteq> k' \<or> collides (en_sha env) (key_bytes env reg rq t (ck_namespace k)) (key_bytes env (purge_all later reg') rq' t (ck_namespace k))"
    and "cache_plan_of env plan reg rq2 = CacheActive k2 r2 ttl2 cap2 \<Longrightarrow> ck_tenant_id k2 \<noteq> t \<or> \<not> in_scope ns (ck_namespace k2) \<Longrightarrow>
      cache_plan_of env plan reg' rq2 = cache_plan_of env plan reg rq2"
proof -
  have b: "flush_bump t ns reg = (Inr g, reg')"
    using assms(1) scope by (auto simp: purge_def split: option.splits if_splits prod.splits sum.splits flush_error.splits)
  show "k \<noteq> k' \<or> collides (en_sha env) (key_bytes env reg rq t (ck_namespace k)) (key_bytes env (purge_all later reg') rq' t (ck_namespace k))"
  proof (cases "k = k'")
    case True
    obtain n where n: "k = the_key env reg rq t n" "n = ck_namespace k" using k t unfolding active_plan by (auto simp: the_key_def)
    obtain t' n' where n': "k' = the_key env (purge_all later reg') rq' t' n'" using k' unfolding active_plan by blast
    have "the_key env reg rq t n = the_key env (purge_all later reg') rq' t' n'" using True n(1) n' by simp
    note same = same_key [OF vec [rule_format] pl this]
    have "unat (generation_effective reg' t n) = unat (generation_effective reg t n) + 1"
      using effective_raised [OF b sc lt] n(2) by simp
    then have "generation_effective reg t n < generation_effective (purge_all later reg') t n"
      using purge_all_monotone [of reg' t n later] by (simp add: word_less_nat_alt word_le_nat_alt)
    then show ?thesis using same(3) n(2) by (auto simp: same_request_def)
  qed simp
  show "cache_plan_of env plan reg' rq2 = cache_plan_of env plan reg rq2"
    if k2: "cache_plan_of env plan reg rq2 = CacheActive k2 r2 ttl2 cap2" and o: "ck_tenant_id k2 \<noteq> t \<or> \<not> in_scope ns (ck_namespace k2)"
  proof -
    obtain t' n where "ck_tenant_id k2 = t'" "ck_namespace k2 = n" "t' \<noteq> t \<or> \<not> in_scope ns n" using o by simp
    then show ?thesis unfolding k2 using k2 effective_untouched [OF b, of t' n]
      unfolding active_plan by (auto simp: the_key_def key_bytes_def)
  qed
qed

text \<open>
  C17. After a purge is acknowledged, no request of the tenant is served an entry of the purged scope that was written before: its key differs from every key computed before the purge, whatever purges follow, unless the digest of the two different byte strings collides or the generation counter is at its end. A purge of one tenant or one namespace leaves the plans of every other tenant and of the namespaces outside its scope as they were.
\<close>

theorem purged_entries_unreachable:
  assumes "purge plan vk namespace reg = (Purged t namespace g, reg')" and scope: "ns = (case namespace of Some ns \<Rightarrow> ns | None \<Rightarrow> WILDCARD_NAMESPACE)"
    and vec: "\<forall>v. \<exists>w. en_to_vec env v = Some w \<and> CHR 0x1F \<notin> set w" and pl: "plain_request rq" "plain_request rq'"
    and k: "cache_plan_of env plan reg rq = CacheActive k r ttl cap"
    and k': "cache_plan_of env plan (purge_all later reg') rq' = CacheActive k' r' ttl' cap'"
    and t: "ck_tenant_id k = t" and sc: "in_scope ns (ck_namespace k)" and lt: "generation_effective reg t (ck_namespace k) < u64_max"
  shows "(k \<noteq> k' \<or> collides (en_sha env) (key_bytes env reg rq t (ck_namespace k)) (key_bytes env (purge_all later reg') rq' t (ck_namespace k))) \<and>
   ((cache_plan_of env plan reg rq2 = CacheActive k2 r2 ttl2 cap2) \<longrightarrow> (ck_tenant_id k2 \<noteq> t \<or> \<not> in_scope ns (ck_namespace k2)) \<longrightarrow> cache_plan_of env plan reg' rq2 = cache_plan_of env plan reg rq2)"
  by ((rule conjI, rule purged_entries_unreachable_parts(1) [OF assms]),
      (rule impI, rule impI, rule purged_entries_unreachable_parts(2) [OF assms], assumption, assumption))

theorem purged_entries_unreachable_witness:
  "\<exists>g reg' k'. purge demo_plan demo_key None [(''a'', [])] = (Purged ''a'' None g, reg') \<and>
     cache_plan_of demo_env demo_plan reg' (demo_request False) = CacheActive k' False 60 1000 \<and> demo_cache_key 0 \<noteq> k'"
proof -
  let ?reg = "[(''a'', [])] :: flush_registry" and ?reg' = "[(''a'', [(''*'', 1)])] :: flush_registry"
  note p = demo_purge
  have k: "cache_plan_of demo_env demo_plan ?reg (demo_request False) = CacheActive (demo_cache_key 0) False 60 1000"
    using demo_active [of ?reg] by (simp add: demo_reg)
  have k': "cache_plan_of demo_env demo_plan ?reg' (demo_request False) = CacheActive (demo_cache_key 1) False 60 1000"
    using demo_active [of ?reg'] by (simp add: demo_reg)
  have later: "purge_all [] ?reg' = ?reg'" by (simp add: purge_all_def)
  then have k'': "cache_plan_of demo_env demo_plan (purge_all [] ?reg') (demo_request False) = CacheActive (demo_cache_key 1) False 60 1000"
    using k' by simp
  have plain: "plain_request (demo_request False)" by (simp add: plain_request_def cache_chain_def demo_request_def)
  have vec: "\<forall>v. \<exists>w. en_to_vec demo_env v = Some w \<and> CHR 0x1F \<notin> set w" by (simp add: demo_env_def)
  have c: "ck_tenant_id (demo_cache_key 0) = ''a''" "ck_namespace (demo_cache_key 0) = ''default''" by (simp_all add: demo_cache_key_def)
  have key: "en_sha demo_env (key_bytes demo_env reg (demo_request False) ''a'' ''default'') =
      ck_hash (demo_cache_key (generation_effective reg ''a'' ''default''))" for reg
    using demo_active [of reg] by (auto simp: active_plan the_key_def demo_cache_key_def demo_request_def)
  have sc: "in_scope ''*'' (ck_namespace (demo_cache_key 0))" by (simp add: in_scope_def WILDCARD_NAMESPACE_def)
  have lt: "generation_effective ?reg ''a'' (ck_namespace (demo_cache_key 0)) < u64_max" by (simp add: c demo_reg u64_max_def word_gt_0)
  have ns: "''*'' = (case None of Some ns \<Rightarrow> ns | None \<Rightarrow> WILDCARD_NAMESPACE)" by (simp add: WILDCARD_NAMESPACE_def)
  have "demo_cache_key 0 \<noteq> demo_cache_key 1 \<or> collides (en_sha demo_env)
      (key_bytes demo_env ?reg (demo_request False) ''a'' ''default'') (key_bytes demo_env ?reg' (demo_request False) ''a'' ''default'')"
    using purged_entries_unreachable [THEN conjunct1, OF p ns vec plain plain k k'' c(1) sc lt] by (simp only: later c)
  then have "demo_cache_key 0 \<noteq> demo_cache_key 1" using key [of ?reg] key [of ?reg'] by (simp add: collides_def demo_reg demo_cache_key_def)
  then show ?thesis using p k' by blast
qed

lemma regulated_never_cached_parts:
  shows "rq_personal_data rq \<or> rq_required_region rq \<noteq> None \<or> cr_stream (rq_payload rq) = Some True \<or>
      client_cache_no_store (rq_no_store rq) \<or> cache_tenant plan (rq_key rq) = None \<Longrightarrow>
      serve_hit now (cache_plan_of env plan reg rq) core = (None, core) \<and>
      store_response (cache_plan_of env plan reg rq) body model u core = (None, core)"
    and "fst (store_response (cache_plan_of env (cc_capacity core) reg rq) body model u core) = Some w \<Longrightarrow>
      length (cw_body w) \<le> MAX_ENTRY_BYTES \<and> owns_positive_share (cc_capacity core) (ck_tenant_id (cw_key w)) \<and>
      (\<exists>d. rq_directive rq = Some d \<and> length (cw_body w) \<le> unat (cd_max_response_bytes d))"
proof -
  show "serve_hit now (cache_plan_of env plan reg rq) core = (None, core) \<and>
      store_response (cache_plan_of env plan reg rq) body model u core = (None, core)"
    if r: "rq_personal_data rq \<or> rq_required_region rq \<noteq> None \<or> cr_stream (rq_payload rq) = Some True \<or>
      client_cache_no_store (rq_no_store rq) \<or> cache_tenant plan (rq_key rq) = None"
  proof (cases "cache_plan_of env plan reg rq")
    case (CacheActive k r' ttl cap)
    then have False using r unfolding active_plan by auto
    then show ?thesis ..
  qed simp_all
  show "length (cw_body w) \<le> MAX_ENTRY_BYTES \<and> owns_positive_share (cc_capacity core) (ck_tenant_id (cw_key w)) \<and>
      (\<exists>d. rq_directive rq = Some d \<and> length (cw_body w) \<le> unat (cd_max_response_bytes d))"
    if s: "fst (store_response (cache_plan_of env (cc_capacity core) reg rq) body model u core) = Some w"
  proof (cases "cache_plan_of env (cc_capacity core) reg rq")
    case (CacheActive k r ttl cap)
    then obtain d t where d: "rq_directive rq = Some d" "cache_tenant (cc_capacity core) (rq_key rq) = Some t" "ck_tenant_id k = t"
      "cap = min (unat (cd_max_response_bytes d)) (max_response_bytes_for_tenant (cc_capacity core) t (length (cr_model (rq_payload rq))))"
      unfolding active_plan by (auto simp: the_key_def)
    moreover have "owns_positive_share (cc_capacity core) t"
      using d(2) by (auto simp: cache_tenant_def bind_eq_Some_conv split: if_splits)
    moreover have "max_response_bytes_for_tenant p t' n \<le> MAX_ENTRY_BYTES" for p t' n
      by (simp add: max_response_bytes_for_tenant_def split: option.split)
    ultimately show ?thesis using s CacheActive by (auto split: if_splits intro: order_trans)
  qed (use s in simp_all)
qed



end
