(* ===== verification/Prompt_Templates.thy ===== *)
theory Prompt_Templates
  imports Json
begin

text \<open>
  Prompt templates: the tokenizer and the parser of the mustache subset in
  \<^verbatim>\<open>crates/prompts/src/lib.rs\<close>. Text is UTF-8; the tokenizer moves by bytes where the code moves by
  characters, which is the same because no byte of a longer character is a brace.
\<close>

section \<open>Tokens\<close>

datatype token =
  TextToken string | VarToken string | SectionOpen string | InvertedOpen string | CloseToken string | PartialToken string

datatype template_node = NText string | NVar string | NPartial string | NSection string bool "template_node list"

definition quoted :: "string \<Rightarrow> string" where
  "quoted s = [CHR 0x27] @ s @ [CHR 0x27]"

text \<open>\<^verbatim>\<open>s.find(pat)\<close>, as what stands before and after the first match.\<close>

fun str_until :: "string \<Rightarrow> string \<Rightarrow> (string \<times> string) option" where
  "str_until pat [] = (if pat = [] then Some ([], []) else None)"
| "str_until pat (c # s) =
     (if prefix pat (c # s) then Some ([], drop (length pat) (c # s))
      else map_option (\<lambda>(before, after). (c # before, after)) (str_until pat s))"

definition non_empty :: "string \<Rightarrow> string + string" where
  "non_empty s = (if s = [] then Inl (''empty mustache tag '' @ quoted ''{{}}'') else Inr s)"

definition classify_tag :: "string \<Rightarrow> bool \<Rightarrow> string + token" where
  "classify_tag inner triple =
     (if triple then map_sum id VarToken (non_empty inner)
      else case strip_prefix ''>'' inner of
        Some r \<Rightarrow> map_sum id PartialToken (non_empty (trim r))
      | None \<Rightarrow> (case strip_prefix ''#'' inner of
          Some r \<Rightarrow> map_sum id SectionOpen (non_empty (trim r))
        | None \<Rightarrow> (case strip_prefix ''^'' inner of
            Some r \<Rightarrow> map_sum id InvertedOpen (non_empty (trim r))
          | None \<Rightarrow> (case strip_prefix ''/'' inner of
              Some r \<Rightarrow> map_sum id CloseToken (non_empty (trim r))
            | None \<Rightarrow> (case strip_prefix ''&'' inner of
                Some r \<Rightarrow> map_sum id VarToken (non_empty (trim r))
              | None \<Rightarrow> map_sum id VarToken (non_empty inner))))))"

text \<open>The tag after its opening braces: what is inside, what follows, and whether it has three braces.\<close>

definition tag_at :: "string \<Rightarrow> string + (string \<times> string \<times> bool)" where
  "tag_at after =
     (case strip_prefix ''{'' after of
        Some a3 \<Rightarrow>
          (case str_until ''}}}'' a3 of
             None \<Rightarrow> Inl (''unclosed triple-stache '' @ quoted ''{{{'')
           | Some (inner, remaining) \<Rightarrow> Inr (trim inner, remaining, True))
      | None \<Rightarrow>
          (case str_until ''}}'' after of
             None \<Rightarrow> Inl (''unclosed tag '' @ quoted ''{{'')
           | Some (inner, remaining) \<Rightarrow> Inr (trim inner, remaining, False)))"

definition pending_text :: "string \<Rightarrow> token list" where
  "pending_text t = (if t = [] then [] else [TextToken t])"

lemma str_until_shorter: "str_until pat s = Some (a, b) \<Longrightarrow> length b \<le> length s"
  by (induction s arbitrary: a) (auto split: if_splits)

lemma tag_at_shorter: "tag_at after = Inr (inner, remaining, triple) \<Longrightarrow> length remaining \<le> length after"
  by (auto simp: tag_at_def strip_prefix_def dest!: str_until_shorter split: option.splits if_splits)

function tokenize_from :: "string \<Rightarrow> string \<Rightarrow> string + token list" where
  "tokenize_from text_so_far [] = Inr (pending_text text_so_far)"
| "tokenize_from text_so_far (c # s) =
     (case strip_prefix ''{{'' (c # s) of
        Some after \<Rightarrow>
          (case tag_at after of
             Inl e \<Rightarrow> Inl e
           | Inr (inner, remaining, triple) \<Rightarrow>
               (case classify_tag inner triple of
                  Inl e \<Rightarrow> Inl e
                | Inr t \<Rightarrow> map_sum id (\<lambda>ts. pending_text text_so_far @ t # ts) (tokenize_from [] remaining)))
      | None \<Rightarrow> tokenize_from (text_so_far @ [c]) s)"
  by pat_completeness auto
termination
  by (relation "measure (\<lambda>(_, s). length s)")
    (auto simp: strip_prefix_def dest!: tag_at_shorter split: if_splits)

definition tokenize :: "string \<Rightarrow> string + token list" where
  "tokenize tpl = tokenize_from [] tpl"

section \<open>Nodes\<close>

definition push_node :: "template_node \<Rightarrow> string + (template_node list \<times> token list) \<Rightarrow> string + (template_node list \<times> token list)" where
  "push_node n r = map_sum id (\<lambda>(ns, rest). (n # ns, rest)) r"

text \<open>The nodes up to the closing tag that is waited for, and the tokens after it.\<close>

function parse_nodes :: "string option \<Rightarrow> token list \<Rightarrow> string + (template_node list \<times> token list)" where
  "parse_nodes close [] =
     (case close of
        Some expected \<Rightarrow> Inl (''unclosed section {{#'' @ expected @ ''}}'')
      | None \<Rightarrow> Inr ([], []))"
| "parse_nodes close (TextToken t # ts) = push_node (NText t) (parse_nodes close ts)"
| "parse_nodes close (VarToken n # ts) = push_node (NVar n) (parse_nodes close ts)"
| "parse_nodes close (PartialToken r # ts) = push_node (NPartial r) (parse_nodes close ts)"
| "parse_nodes close (SectionOpen n # ts) =
     (case parse_nodes (Some n) ts of
        Inl e \<Rightarrow> Inl e
      | Inr (children, rest) \<Rightarrow> push_node (NSection n False children) (parse_nodes close rest))"
| "parse_nodes close (InvertedOpen n # ts) =
     (case parse_nodes (Some n) ts of
        Inl e \<Rightarrow> Inl e
      | Inr (children, rest) \<Rightarrow> push_node (NSection n True children) (parse_nodes close rest))"
| "parse_nodes close (CloseToken n # ts) =
     (case close of
        Some expected \<Rightarrow>
          if expected = n then Inr ([], ts)
          else Inl (''mismatched section close: expected {{/'' @ expected @ ''}} got {{/'' @ n @ ''}}'')
      | None \<Rightarrow> Inl (''unexpected section close {{/'' @ n @ ''}}''))"
  by pat_completeness auto

lemma push_node_Inr: "push_node n r = Inr (ns, rest) \<longleftrightarrow> (\<exists>ns'. r = Inr (ns', rest) \<and> ns = n # ns')"
  by (cases r) (auto simp: push_node_def)

lemma parse_nodes_shorter:
  "parse_nodes_dom (close, ts) \<Longrightarrow> parse_nodes close ts = Inr (ns, rest) \<Longrightarrow> length rest \<le> length ts"
  by (induction close ts arbitrary: ns rest rule: parse_nodes.pinduct)
    (fastforce simp: parse_nodes.psimps push_node_Inr split: option.splits if_splits sum.splits prod.splits)+

termination parse_nodes
  by (relation "measure (\<lambda>(_, ts). length ts)") (auto dest: parse_nodes_shorter simp: less_Suc_eq_le)

definition parse_template :: "string \<Rightarrow> string + template_node list" where
  "parse_template tpl =
     (case tokenize tpl of
        Inl e \<Rightarrow> Inl e
      | Inr tokens \<Rightarrow> map_sum id fst (parse_nodes None tokens))"

section \<open>Templates and their trees\<close>

text \<open>The tokens of a tree, and a text for a token.\<close>

fun node_tokens :: "template_node \<Rightarrow> token list" where
  "node_tokens (NText t) = [TextToken t]"
| "node_tokens (NVar n) = [VarToken n]"
| "node_tokens (NPartial r) = [PartialToken r]"
| "node_tokens (NSection n inverted children) =
     (if inverted then InvertedOpen n else SectionOpen n) # concat (map node_tokens children) @ [CloseToken n]"

definition tree_tokens :: "template_node list \<Rightarrow> token list" where
  "tree_tokens ns = concat (map node_tokens ns)"

lemma tree_tokens_simps [simp]:
  "tree_tokens [] = []" "tree_tokens (n # ns) = node_tokens n @ tree_tokens ns"
  by (simp_all add: tree_tokens_def)

fun closing :: "string option \<Rightarrow> token list" where
  "closing None = []" | "closing (Some n) = [CloseToken n]"

lemma push_node_simps [simp]: "push_node n (Inr (ns, rest)) = Inr (n # ns, rest)"
  by (simp add: push_node_def)

lemma parse_sound:
  "parse_nodes close ts = Inr (ns, rest) \<Longrightarrow> ts = tree_tokens ns @ closing close @ rest \<and> (close = None \<longrightarrow> rest = [])"
proof (induction close ts arbitrary: ns rest rule: parse_nodes.induct)
  case (5 close n ts)
  then show ?case
    by (auto simp: push_node_Inr tree_tokens_def split: sum.splits prod.splits)
next
  case (6 close n ts)
  then show ?case
    by (auto simp: push_node_Inr tree_tokens_def split: sum.splits prod.splits)
qed (auto simp: push_node_Inr split: option.splits if_splits)

lemma parse_tree:
  assumes "\<And>n close rest. n \<in> set ns \<Longrightarrow> parse_nodes close (node_tokens n @ rest) = push_node n (parse_nodes close rest)"
  shows "parse_nodes close (tree_tokens ns @ rest) = foldr push_node ns (parse_nodes close rest)"
  using assms by (induction ns) auto

lemma push_all: "foldr push_node ns (Inr (ms, rest)) = Inr (ns @ ms, rest)"
  by (induction ns) auto

lemma parse_one_node: "parse_nodes close (node_tokens n @ rest) = push_node n (parse_nodes close rest)"
proof (induction n arbitrary: close rest)
  case (NSection name inverted children)
  have "parse_nodes (Some name) (tree_tokens children @ CloseToken name # rest) = Inr (children, rest)" for rest
    using parse_tree [of children "Some name" "CloseToken name # rest"] NSection by (simp add: push_all)
  then show ?case by (simp add: tree_tokens_def)
qed simp_all

lemma parse_complete: "parse_nodes None (tree_tokens ns) = Inr (ns, [])"
  using parse_tree [of ns None "[]"] by (simp add: parse_one_node push_all)

text \<open>A name stands in braces without being mistaken for anything else.\<close>

definition name_ok :: "string \<Rightarrow> bool" where
  "name_ok n \<longleftrightarrow> n \<noteq> [] \<and> trim n = n"

definition printable_name :: "string \<Rightarrow> bool" where
  "printable_name n \<longleftrightarrow> name_ok n \<and> CHR ''{'' \<notin> set n \<and> CHR ''}'' \<notin> set n"

fun token_ok :: "token \<Rightarrow> bool" where
  "token_ok (TextToken t) \<longleftrightarrow> t \<noteq> []"
| "token_ok (VarToken n) \<longleftrightarrow> name_ok n"
| "token_ok (SectionOpen n) \<longleftrightarrow> name_ok n"
| "token_ok (InvertedOpen n) \<longleftrightarrow> name_ok n"
| "token_ok (CloseToken n) \<longleftrightarrow> name_ok n"
| "token_ok (PartialToken n) \<longleftrightarrow> name_ok n"

fun printable :: "token \<Rightarrow> bool" where
  "printable (TextToken t) \<longleftrightarrow> t \<noteq> [] \<and> \<not> contains t ''{{'' \<and> last t \<noteq> CHR ''{''"
| "printable (VarToken n) \<longleftrightarrow> printable_name n \<and> hd n \<notin> set ''>#^/&''"
| "printable (SectionOpen n) \<longleftrightarrow> printable_name n"
| "printable (InvertedOpen n) \<longleftrightarrow> printable_name n"
| "printable (CloseToken n) \<longleftrightarrow> printable_name n"
| "printable (PartialToken n) \<longleftrightarrow> printable_name n"

fun is_text :: "token \<Rightarrow> bool" where
  "is_text (TextToken _) = True" | "is_text _ = False"

fun texts_apart :: "token list \<Rightarrow> bool" where
  "texts_apart (s # t # ts) \<longleftrightarrow> \<not> (is_text s \<and> is_text t) \<and> texts_apart (t # ts)"
| "texts_apart _ = True"

fun token_source :: "token \<Rightarrow> string" where
  "token_source (TextToken t) = t"
| "token_source (VarToken n) = ''{{'' @ n @ ''}}''"
| "token_source (SectionOpen n) = ''{{#'' @ n @ ''}}''"
| "token_source (InvertedOpen n) = ''{{^'' @ n @ ''}}''"
| "token_source (CloseToken n) = ''{{/'' @ n @ ''}}''"
| "token_source (PartialToken n) = ''{{>'' @ n @ ''}}''"

definition tree_source :: "template_node list \<Rightarrow> string" where
  "tree_source ns = concat (map token_source (tree_tokens ns))"

lemma classify_ok: "classify_tag (trim inner) triple = Inr t \<Longrightarrow> token_ok t"
  by (auto simp: classify_tag_def non_empty_def name_ok_def split: option.splits if_splits)

lemma tag_at_trimmed: "tag_at after = Inr (inner, remaining, triple) \<Longrightarrow> trim inner = inner"
  by (auto simp: tag_at_def split: option.splits)

lemma tokenize_from_ok: "tokenize_from acc s = Inr ts \<Longrightarrow> \<forall>t\<in>set ts. token_ok t"
proof (induction acc s arbitrary: ts rule: tokenize_from.induct)
  case (2 acc c s)
  show ?case
  proof (cases "strip_prefix ''{{'' (c # s)")
    case None
    then show ?thesis using 2 by auto
  next
    case (Some after)
    then obtain inner remaining triple t us where t: "tag_at after = Inr (inner, remaining, triple)"
      "classify_tag inner triple = Inr t" "tokenize_from [] remaining = Inr us" "ts = pending_text acc @ t # us"
      using 2(3) by (auto simp: map_sum_Inr split: sum.splits)
    then have "token_ok t" using classify_ok [of inner triple t] tag_at_trimmed by metis
    then show ?thesis using 2(2) [OF Some t(1) refl refl t(2,3)] t(4) by (auto simp: pending_text_def)
  qed
qed (auto simp: pending_text_def)

lemma whitespace_invisible: "\<forall>w\<in>set utf8_whitespace. \<forall>c\<in>set w. \<not> visible c"
  by (simp add: utf8_whitespace_def bytes_def visible_def)

text \<open>A trimmed name stays trimmed behind a sigil.\<close>

lemma trim_sigil:
  assumes "name_ok n" and "c \<in> set ''>#^/&''"
  shows "trim (c # n) = c # n"
proof -
  have vis: "visible (hd (c # n))" using assms(2) by (auto simp: visible_def)
  have w: "c \<notin> set w" if "w \<in> set utf8_whitespace" for w
    using whitespace_invisible that vis by fastforce
  have "\<not> suffix w (c # n)" if ws: "w \<in> set utf8_whitespace" for w
  proof
    assume "suffix w (c # n)"
    then have "w = c # n \<or> suffix w n" by (auto simp: suffix_Cons)
    then have s: "suffix w n" using w [OF ws] by auto
    have "trim n = n" using assms(1) by (simp add: name_ok_def)
    then have "\<not> suffix w n" using trim_end_done [OF ws, of "trim_start n"] by (simp add: trim_def)
    then show False using s by simp
  qed
  then have "find (\<lambda>w. suffix w (c # n)) utf8_whitespace = None" by (simp add: find_None_iff)
  then have "trim_end (c # n) = c # n" by (subst trim_end.simps) simp
  then show ?thesis using trim_start_visible [OF vis] by (simp add: trim_def)
qed

lemma str_until_braces: "CHR ''}'' \<notin> set body \<Longrightarrow> str_until ''}}'' (body @ ''}}'' @ rest) = Some (body, rest)"
  by (induction body) (auto simp: prefix_def)

lemma tokenize_tag:
  assumes "printable t" and "\<not> is_text t"
  shows "tokenize_from acc (token_source t @ rest) = map_sum id (\<lambda>ts. pending_text acc @ t # ts) (tokenize_from [] rest)"
proof -
  obtain body where src: "token_source t = ''{{'' @ body @ ''}}''" and b: "CHR ''}'' \<notin> set body" "body \<noteq> []" "hd body \<noteq> CHR ''{''"
    and trimmed: "trim body = body" and cl: "classify_tag body False = Inr t"
  proof (cases t)
    case (VarToken n)
    then have n: "printable_name n" "hd n \<notin> set ''>#^/&''" using assms by simp_all
    then have "classify_tag n False = Inr t"
      by (cases n) (auto simp: VarToken classify_tag_def strip_prefix_def non_empty_def printable_name_def name_ok_def)
    then show thesis using that [of n] n VarToken by (cases n) (auto simp: printable_name_def name_ok_def)
  next
    case (SectionOpen n)
    then show thesis using that [of "CHR ''#'' # n"] assms trim_sigil [of n "CHR ''#''"]
      by (auto simp: classify_tag_def strip_prefix_def non_empty_def printable_name_def name_ok_def)
  next
    case (InvertedOpen n)
    then show thesis using that [of "CHR ''^'' # n"] assms trim_sigil [of n "CHR ''^''"]
      by (auto simp: classify_tag_def strip_prefix_def non_empty_def printable_name_def name_ok_def)
  next
    case (CloseToken n)
    then show thesis using that [of "CHR ''/'' # n"] assms trim_sigil [of n "CHR ''/''"]
      by (auto simp: classify_tag_def strip_prefix_def non_empty_def printable_name_def name_ok_def)
  next
    case (PartialToken n)
    then show thesis using that [of "CHR ''>'' # n"] assms trim_sigil [of n "CHR ''>''"]
      by (auto simp: classify_tag_def strip_prefix_def non_empty_def printable_name_def name_ok_def)
  qed (use assms in simp)
  have "tag_at (body @ ''}}'' @ rest) = Inr (body, rest, False)"
    using b str_until_braces [OF b(1), of rest] trimmed by (cases body) (auto simp: tag_at_def strip_prefix_def)
  then show ?thesis using src cl by (simp add: strip_prefix_def)
qed

lemma tokenize_text:
  assumes "\<not> contains t ''{{''" and "t \<noteq> [] \<Longrightarrow> last t \<noteq> CHR ''{''"
  shows "tokenize_from acc (t @ rest) = tokenize_from (acc @ t) rest"
  using assms
proof (induction t arbitrary: acc)
  case (Cons c t)
  have "\<not> prefix ''{{'' (c # t @ rest)"
    using Cons.prems by (cases t) (auto split: if_splits)
  then have "strip_prefix ''{{'' (c # t @ rest) = None" by (simp only: strip_prefix_def if_False)
  then have "tokenize_from acc ((c # t) @ rest) = tokenize_from (acc @ [c]) (t @ rest)" by simp
  then show ?case using Cons by (auto split: if_splits)
qed simp

lemma tokenize_source:
  assumes "\<forall>t\<in>set ts. printable t" and "texts_apart ts"
  shows "tokenize_from acc (concat (map token_source ts)) =
    (case ts of TextToken t # us \<Rightarrow> Inr (TextToken (acc @ t) # us) | _ \<Rightarrow> Inr (pending_text acc @ ts))"
  using assms
proof (induction ts arbitrary: acc)
  case (Cons t ts)
  have apart: "texts_apart ts" using Cons.prems(2) by (cases ts) auto
  show ?case
  proof (cases "is_text t")
    case False
    have "tokenize_from [] (concat (map token_source ts)) = Inr ts"
      using Cons.IH [of "[]"] Cons.prems(1) apart by (auto simp: pending_text_def split: list.split token.split)
    then have "tokenize_from acc (concat (map token_source (t # ts))) = Inr (pending_text acc @ t # ts)"
      using tokenize_tag [of t acc "concat (map token_source ts)"] False Cons.prems(1) by simp
    then show ?thesis using False by (cases t) simp_all
  next
    case True
    then obtain x where t: "t = TextToken x" by (cases t) auto
    have rest: "\<And>y us. ts \<noteq> TextToken y # us" using Cons.prems(2) t by auto
    have "tokenize_from (acc @ x) (concat (map token_source ts)) = Inr (pending_text (acc @ x) @ ts)"
      using Cons.IH [of "acc @ x"] Cons.prems(1) apart rest by (auto split: list.splits token.splits)
    then show ?thesis using tokenize_text [of x acc] Cons.prems(1) t by (simp add: pending_text_def)
  qed
qed (simp add: pending_text_def)

lemma printed_template:
  assumes "\<forall>t\<in>set (tree_tokens ns). printable t" and "texts_apart (tree_tokens ns)"
  shows "parse_template (tree_source ns) = Inr ns"
proof -
  have "tokenize (tree_source ns) = Inr (tree_tokens ns)"
    using tokenize_source [OF assms, of "[]"] by (auto simp: tokenize_def tree_source_def pending_text_def split: list.split token.split)
  then show ?thesis by (simp add: parse_template_def parse_complete)
qed

section \<open>Properties\<close>

lemma template_round_trip_parts:
  shows "(\<forall>t\<in>set (tree_tokens ns). printable t) \<and> texts_apart (tree_tokens ns) \<Longrightarrow> parse_template (tree_source ns) = Inr ns"
    and "parse_template tpl = Inr ns \<Longrightarrow> tokenize tpl = Inr (tree_tokens ns) \<and> (\<forall>t\<in>set (tree_tokens ns). token_ok t)"
proof -
  show "parse_template (tree_source ns) = Inr ns" if "(\<forall>t\<in>set (tree_tokens ns). printable t) \<and> texts_apart (tree_tokens ns)"
    using printed_template [of ns] that by blast
  show "tokenize tpl = Inr (tree_tokens ns) \<and> (\<forall>t\<in>set (tree_tokens ns). token_ok t)" if p: "parse_template tpl = Inr ns"
  proof -
    obtain ts rest where ts: "tokenize tpl = Inr ts" "parse_nodes None ts = Inr (ns, rest)"
      using p by (auto simp: parse_template_def map_sum_Inr split: sum.splits)
    then have "ts = tree_tokens ns" using parse_sound [OF ts(2)] by simp
    then show ?thesis using ts(1) tokenize_from_ok [OF ts(1) [unfolded tokenize_def]] by simp
  qed
qed



end
