(* ===== verification/Prompt_Variants.thy ===== *)
theory Prompt_Variants
  imports Json
begin

text \<open>
  Weighted variants of a prompt: the sticky assignment of cohorts and the merge of parameters in
  \<^verbatim>\<open>crates/prompts/src/lib.rs\<close>. The assignment is computed in \<^verbatim>\<open>f64\<close>; a finite \<^verbatim>\<open>f64\<close> is the rational
  it denotes, and every operation rounds its exact result to the nearest, ties to even.
\<close>

section \<open>Rounding\<close>

text \<open>
  The number of binary places that leaves 53 significant bits, and the rounding to them, for
  numbers below \<open>2 ^ 53\<close>; 1074 places reach the least positive \<^verbatim>\<open>f64\<close>.
\<close>

function places :: "rat \<Rightarrow> nat \<Rightarrow> nat" where
  "places x k = (if 1074 \<le> k \<or> 2 ^ 52 \<le> x * 2 ^ k then k else places x (k + 1))"
  by pat_completeness auto
termination by (relation "measure (\<lambda>(_, k). 1074 - k)") auto

declare places.simps [simp del]

definition round_half_even :: "rat \<Rightarrow> int" where
  "round_half_even y =
     (let f = \<lfloor>y\<rfloor>; d = y - of_int f
      in if 1 / 2 < d \<or> (d = 1 / 2 \<and> odd f) then f + 1 else f)"

definition f64_round :: "rat \<Rightarrow> f64" where
  "f64_round x = (let k = places x 0 in of_int (round_half_even (x * 2 ^ k)) / 2 ^ k)"

lemma round_half_even_int [simp]: "round_half_even (of_int i) = i"
  by (simp add: round_half_even_def)

lemma round_half_even_mono: "x \<le> y \<Longrightarrow> round_half_even x \<le> round_half_even y"
proof -
  assume le: "x \<le> y"
  then have f: "\<lfloor>x\<rfloor> \<le> \<lfloor>y\<rfloor>" by (rule floor_mono)
  show ?thesis
  proof (cases "\<lfloor>x\<rfloor> = \<lfloor>y\<rfloor>")
    case True
    then show ?thesis using le by (auto simp: round_half_even_def Let_def)
  next
    case False
    then have "\<lfloor>x\<rfloor> + 1 \<le> \<lfloor>y\<rfloor>" using f by simp
    then show ?thesis by (auto simp: round_half_even_def Let_def)
  qed
qed

lemma places_spec:
  "k \<le> 1074 \<Longrightarrow> k \<le> places x k \<and> places x k \<le> 1074 \<and> (places x k < 1074 \<longrightarrow> 2 ^ 52 \<le> x * 2 ^ places x k) \<and>
    (\<forall>j. k \<le> j \<and> j < places x k \<longrightarrow> x * 2 ^ j < 2 ^ 52)"
proof (induction x k rule: places.induct)
  case (1 x k)
  show ?case
  proof (cases "1074 \<le> k \<or> 2 ^ 52 \<le> x * 2 ^ k")
    case True
    then have "places x k = k" by (subst places.simps) simp
    then show ?thesis using True 1(2) by auto
  next
    case False
    have p: "places x k = places x (k + 1)" using False by (subst places.simps) simp
    have ih: "k + 1 \<le> places x (k + 1)" "places x (k + 1) \<le> 1074"
      "places x (k + 1) < 1074 \<longrightarrow> 2 ^ 52 \<le> x * 2 ^ places x (k + 1)"
      "\<forall>j. k + 1 \<le> j \<and> j < places x (k + 1) \<longrightarrow> x * 2 ^ j < 2 ^ 52"
      using 1(1) [OF False] False by simp_all
    have "x * 2 ^ j < 2 ^ 52" if "k \<le> j" "j < places x (k + 1)" for j
      using that ih(4) False by (cases "j = k") auto
    then show ?thesis using ih p by simp
  qed
qed

lemma places_reached: "places x 0 < 1074 \<Longrightarrow> 2 ^ 52 \<le> x * 2 ^ places x 0"
  using places_spec [of 0 x] by blast

lemma places_before: "j < places x 0 \<Longrightarrow> x * 2 ^ j < 2 ^ 52"
  using places_spec [of 0 x] by blast

lemma places_le: "places x 0 \<le> 1074"
  using places_spec [of 0 x] by blast

lemma round_half_even_ge: "of_int i \<le> y \<Longrightarrow> i \<le> round_half_even y"
  using round_half_even_mono [of "of_int i" y] by simp

lemma round_half_even_le: "y \<le> of_int i \<Longrightarrow> round_half_even y \<le> i"
  using round_half_even_mono [of y "of_int i"] by simp

lemma f64_round_ge: "of_int i \<le> x * 2 ^ places x 0 \<Longrightarrow> of_int i / 2 ^ places x 0 \<le> f64_round x"
  unfolding f64_round_def Let_def using round_half_even_ge [of i] by (intro divide_right_mono) simp_all

lemma f64_round_le: "x * 2 ^ places x 0 \<le> of_int i \<Longrightarrow> f64_round x \<le> of_int i / 2 ^ places x 0"
  unfolding f64_round_def Let_def using round_half_even_le [of _ i] by (intro divide_right_mono) simp_all

lemma f64_round_mono:
  assumes "0 \<le> x" "x \<le> y"
  shows "f64_round x \<le> f64_round y"
proof -
  define kx ky where "kx = places x 0" and "ky = places y 0"
  have le: "x * 2 ^ k \<le> y * 2 ^ k" for k :: nat using assms(2) by (simp add: mult_right_mono)
  have "ky \<le> kx"
  proof (rule ccontr)
    assume "\<not> ky \<le> kx"
    then have lt: "kx < ky" by simp
    then have "kx < 1074" using places_le [of y] by (simp add: ky_def)
    then have "2 ^ 52 \<le> x * 2 ^ kx" unfolding kx_def by (rule places_reached)
    moreover have "y * 2 ^ kx < 2 ^ 52" using lt unfolding ky_def by (rule places_before)
    ultimately show False using le [of kx] by linarith
  qed
  show ?thesis
  proof (cases "kx = ky")
    case True
    have "round_half_even (x * 2 ^ ky) \<le> round_half_even (y * 2 ^ ky)" using le by (rule round_half_even_mono)
    then show ?thesis
      unfolding f64_round_def Let_def kx_def [symmetric] ky_def [symmetric] True by (intro divide_right_mono) simp_all
  next
    case False
    then have lt: "ky < kx" using \<open>ky \<le> kx\<close> by simp
    have lo: "x * 2 ^ ky < 2 ^ 52" using lt unfolding kx_def by (rule places_before)
    have "ky < 1074" using lt places_le [of x] by (simp add: kx_def)
    then have "2 ^ 52 \<le> y * 2 ^ ky" unfolding ky_def by (rule places_reached)
    then have y: "of_int (2 ^ 52) / 2 ^ ky \<le> f64_round y" unfolding ky_def by (intro f64_round_ge) simp
    have "x * 2 ^ kx = (x * 2 ^ ky) * 2 ^ (kx - ky)" using lt by (simp flip: power_add)
    also have "\<dots> \<le> 2 ^ 52 * 2 ^ (kx - ky)" using lo by (intro mult_right_mono) simp_all
    finally have "x * 2 ^ kx \<le> of_int (2 ^ 52 * 2 ^ (kx - ky))" by simp
    then have "f64_round x \<le> of_int (2 ^ 52 * 2 ^ (kx - ky)) / 2 ^ kx" unfolding kx_def by (rule f64_round_le)
    also have "\<dots> = of_int (2 ^ 52) / 2 ^ ky"
    proof -
      have "(2 :: rat) ^ kx = 2 ^ (kx - ky) * 2 ^ ky" using lt by (simp flip: power_add)
      then show ?thesis by simp
    qed
    finally show ?thesis using y by simp
  qed
qed

lemma f64_round_less: "0 \<le> y \<Longrightarrow> f64_round x < f64_round y \<Longrightarrow> 0 \<le> x \<Longrightarrow> x < y"
  using f64_round_mono [of y x] by fastforce

text \<open>A rounded number is its own rounding.\<close>

lemma f64_round_exact: "x * 2 ^ places x 0 = of_int i \<Longrightarrow> f64_round x = x"
  unfolding f64_round_def Let_def by (simp add: field_simps)

lemma f64_round_idem:
  assumes "0 \<le> x"
  shows "f64_round (f64_round x) = f64_round x"
proof -
  define k m y where "k = places x 0" and "m = round_half_even (x * 2 ^ k)" and "y = f64_round x"
  have y: "y * 2 ^ k = of_int m" by (simp add: y_def f64_round_def Let_def m_def k_def)
  define j where "j = places y 0"
  have jk: "j \<le> k"
  proof (rule ccontr)
    assume "\<not> j \<le> k"
    then have lt: "k < places y 0" by (simp add: j_def)
    then have "k < 1074" using places_le [of y] by simp
    then have "2 ^ 52 \<le> x * 2 ^ k" unfolding k_def by (rule places_reached)
    then have "2 ^ 52 \<le> m" unfolding m_def by (intro round_half_even_ge) simp
    then have "(of_int (2 ^ 52) :: rat) \<le> of_int m" by (simp only: of_int_le_iff)
    moreover have "y * 2 ^ k < 2 ^ 52" using lt by (rule places_before)
    ultimately show False using y by simp
  qed
  show ?thesis
  proof (cases "j = k")
    case True
    then show ?thesis using f64_round_exact [of y m] y by (simp add: y_def [symmetric] j_def [symmetric])
  next
    case False
    then have lt: "j < k" using jk by simp
    have "k - 1 < places x 0" using lt by (simp add: k_def)
    then have "x * 2 ^ (k - 1) < 2 ^ 52" by (rule places_before)
    moreover have "(2 :: rat) ^ k = 2 * 2 ^ (k - 1)" using lt by (cases k) simp_all
    ultimately have "x * 2 ^ k \<le> of_int (2 ^ 53)" by simp
    then have m: "m \<le> 2 ^ 53" unfolding m_def by (rule round_half_even_le)
    have "j < 1074" using lt places_le [of x] by (simp add: k_def)
    then have ge: "2 ^ 52 \<le> y * 2 ^ j" unfolding j_def by (rule places_reached)
    have split: "(2 :: rat) ^ k = 2 ^ j * 2 ^ (k - j)" using lt by (simp flip: power_add)
    have "y * 2 ^ j * 2 ^ (k - j) = of_int m" using y split by (simp add: mult.assoc)
    then have "(of_int (2 ^ 52 * 2 ^ (k - j)) :: rat) \<le> of_int m"
      using mult_right_mono [OF ge, of "2 ^ (k - j)"] by simp
    then have m': "2 ^ 52 * 2 ^ (k - j) \<le> m" by (simp only: of_int_le_iff)
    have "k - j = 1"
    proof (rule ccontr)
      assume "k - j \<noteq> 1"
      then have "(2 :: int) ^ 2 \<le> 2 ^ (k - j)" using lt by (intro power_increasing) simp_all
      then show False using m m' by simp
    qed
    then have "m = 2 ^ 53" using m m' by simp
    then have "y * 2 ^ j = of_int (2 ^ 52)" using y split \<open>k - j = 1\<close> by simp
    then show ?thesis using f64_round_exact [of y "2 ^ 52"] by (simp add: y_def [symmetric] j_def [symmetric])
  qed
qed

lemma f64_round_zero [simp]: "f64_round 0 = 0"
  by (rule f64_round_exact [of _ 0]) simp

lemma f64_round_nonneg: "0 \<le> x \<Longrightarrow> 0 \<le> f64_round x"
  using f64_round_mono [of 0 x] by simp

section \<open>Variants\<close>

record variant =
  va_label :: string
  va_version :: u32
  va_weight :: u32
  va_model :: "string option"
  va_params :: "json option"

definition MAX_VARIANTS :: nat where "MAX_VARIANTS = 16"

definition FNV_OFFSET :: u64 where "FNV_OFFSET = 0xcbf29ce484222325"
definition FNV_PRIME :: u64 where "FNV_PRIME = 0x00000100000001b3"

definition fnv_mix :: "u64 \<Rightarrow> string \<Rightarrow> u64" where
  "fnv_mix hash bs = foldl (\<lambda>h b. (h XOR of_nat (of_char b)) * FNV_PRIME) hash bs"

definition stable_bucket :: "string \<Rightarrow> string \<Rightarrow> u64" where
  "stable_bucket name cohort_key = fnv_mix (fnv_mix (fnv_mix FNV_OFFSET name) [CHR 0x00]) cohort_key"

definition hex_digit :: "nat \<Rightarrow> char" where
  "hex_digit n = (if n < 10 then char_of (48 + n) else char_of (87 + n))"

definition cohort_hash_hex :: "string \<Rightarrow> string" where
  "cohort_hash_hex cohort_key =
     (let hash = fnv_mix FNV_OFFSET cohort_key
      in map (\<lambda>i. hex_digit (unat (drop_bit (4 * i) hash) mod 16)) (rev [0..<16]))"

text \<open>The unit_position of a hash in the unit interval.\<close>

definition unit_position :: "u64 \<Rightarrow> f64" where
  "unit_position hash = of_nat (round_f64 (unat hash)) / 2 ^ 64"

fun walk_arms :: "f64 \<Rightarrow> f64 \<Rightarrow> f64 \<Rightarrow> variant list \<Rightarrow> variant option" where
  "walk_arms u total_f cumulative [] = None"
| "walk_arms u total_f cumulative (v # vs) =
     (let cumulative = f64_round (cumulative + f64_round (of_nat (unat (va_weight v)) / total_f))
      in if u < cumulative then Some v else walk_arms u total_f cumulative vs)"

definition total_weight :: "variant list \<Rightarrow> nat" where
  "total_weight vs = sum_list (map (\<lambda>v. unat (va_weight v)) vs)"

definition assign_variant :: "string \<Rightarrow> variant list \<Rightarrow> string option \<Rightarrow> variant option" where
  "assign_variant prompt_id variants cohort_key =
     (case variants of
        [] \<Rightarrow> None
      | first # _ \<Rightarrow>
          (case cohort_key of
             None \<Rightarrow> Some first
           | Some key \<Rightarrow>
               let total = total_weight variants in
               if total = 0 then Some first
               else case walk_arms (unit_position (stable_bucket prompt_id key)) (of_nat (round_f64 total)) 0 variants of
                   Some v \<Rightarrow> Some v
                 | None \<Rightarrow> Some (last variants)))"

definition merge_params :: "json option \<Rightarrow> json option \<Rightarrow> json option" where
  "merge_params version variant =
     (case (version, variant) of
        (None, None) \<Rightarrow> None
      | (Some v, None) \<Rightarrow> Some v
      | (None, Some ov) \<Rightarrow> Some ov
      | (Some (VObject base), Some (VObject ov)) \<Rightarrow> Some (VObject (foldl (\<lambda>m (k, v). obj_insert k v m) base ov))
      | (Some _, Some ov) \<Rightarrow> Some ov)"

definition variant_label_is_sane :: "string \<Rightarrow> bool" where
  "variant_label_is_sane label \<longleftrightarrow>
     label \<noteq> [] \<and> length label \<le> 64 \<and>
     list_all (\<lambda>b. is_ascii_alphanumeric b \<or> b = CHR ''_'' \<or> b = CHR ''-'') label \<and>
     (case strip_prefix ''v'' label of
        Some digits \<Rightarrow> \<not> (digits \<noteq> [] \<and> list_all is_ascii_digit digits)
      | None \<Rightarrow> True)"

section \<open>Assignment\<close>

lemma walk_member: "walk_arms u tot cum vs = Some v \<Longrightarrow> v \<in> set vs"
  by (induction vs arbitrary: cum) (auto simp: Let_def split: if_splits)

lemma assign_member: "assign_variant p vs key = Some v \<Longrightarrow> v \<in> set vs"
  by (auto simp: assign_variant_def Let_def split: list.splits option.splits if_splits dest: walk_member)

lemma assign_some: "vs \<noteq> [] \<Longrightarrow> \<exists>v. assign_variant p vs key = Some v"
  by (auto simp: assign_variant_def Let_def split: list.split option.split)

text \<open>Only the last arm can be served with weight zero.\<close>

lemma walk_weight:
  assumes "walk_arms u tot cum vs = Some v" and "\<not> u < cum" and "f64_round cum = cum" and "0 \<le> cum" and "0 \<le> tot"
  shows "va_weight v \<noteq> 0"
  using assms(1-4)
proof (induction vs arbitrary: cum)
  case (Cons w vs)
  define q where "q = f64_round (of_nat (unat (va_weight w)) / tot)"
  have q: "0 \<le> q" unfolding q_def by (intro f64_round_nonneg divide_nonneg_nonneg of_nat_0_le_iff assms(5))
  then have pos: "0 \<le> f64_round (cum + q)" using Cons.prems(4) by (intro f64_round_nonneg) simp
  have idem: "f64_round (f64_round (cum + q)) = f64_round (cum + q)" using q Cons.prems(4) by (intro f64_round_idem) simp
  show ?case
  proof (cases "u < f64_round (cum + q)")
    case True
    then have v: "v = w" using Cons.prems(1) by (simp add: Let_def q_def)
    show ?thesis
    proof
      assume "va_weight v = 0"
      then have "q = 0" using v by (simp add: q_def)
      then show False using True Cons.prems(2,3) by simp
    qed
  next
    case False
    then show ?thesis using Cons.IH [of "f64_round (cum + q)"] Cons.prems(1) idem pos by (simp add: Let_def q_def)
  qed
qed simp

lemma assign_weight:
  assumes "assign_variant p vs (Some key) = Some v" and "total_weight vs \<noteq> 0" and "va_weight v = 0"
  shows "v = last vs"
proof -
  have "0 \<le> unit_position (stable_bucket p key)" by (simp add: unit_position_def)
  then have "walk_arms (unit_position (stable_bucket p key)) (of_nat (round_f64 (total_weight vs))) 0 vs \<noteq> Some v"
    using walk_weight [of "unit_position (stable_bucket p key)" "of_nat (round_f64 (total_weight vs))" 0 vs v] assms(3)
    by (auto simp: not_less)
  then show ?thesis using assms by (auto simp: assign_variant_def Let_def split: list.splits option.splits)
qed

text \<open>Scaling all weights changes no assignment.\<close>

definition scaled :: "nat \<Rightarrow> variant list \<Rightarrow> variant list \<Rightarrow> bool" where
  "scaled k vs ws \<longleftrightarrow> list_all2 (\<lambda>v w. va_label w = va_label v \<and> unat (va_weight w) = k * unat (va_weight v)) vs ws"

lemma scaled_total: "scaled k vs ws \<Longrightarrow> total_weight ws = k * total_weight vs"
  unfolding scaled_def by (induction rule: list_all2_induct) (auto simp: total_weight_def algebra_simps)

lemma scaled_walk:
  assumes "scaled k vs ws" and "0 < k"
  shows "map_option va_label (walk_arms u (of_nat (k * t)) cum ws) = map_option va_label (walk_arms u (of_nat t) cum vs)"
  using assms(1) unfolding scaled_def
proof (induction arbitrary: cum rule: list_all2_induct)
  case (Cons v vs w ws)
  have "(of_nat (unat (va_weight w)) :: rat) / of_nat (k * t) = of_nat (unat (va_weight v)) / of_nat t"
    using Cons.hyps(1) assms(2) by simp
  then show ?case using Cons by (simp add: Let_def)
qed simp

lemma total_weight_less: "length vs \<le> MAX_VARIANTS \<Longrightarrow> total_weight vs < 2 ^ 53"
proof -
  assume l: "length vs \<le> MAX_VARIANTS"
  have "total_weight vs \<le> length vs * 2 ^ 32"
  proof (induction vs)
    case (Cons v vs)
    have "unat (va_weight v) < 2 ^ 32" using unsigned_less [of "va_weight v"] by simp
    then show ?case using Cons by (simp add: total_weight_def)
  qed (simp add: total_weight_def)
  also have "\<dots> \<le> 16 * 2 ^ 32" using l by (simp add: MAX_VARIANTS_def)
  finally show ?thesis by simp
qed

lemma map_option_or:
  "map_option f x = map_option f y \<Longrightarrow> f a = f b \<Longrightarrow>
     map_option f (case x of Some v \<Rightarrow> Some v | None \<Rightarrow> Some a) = map_option f (case y of Some v \<Rightarrow> Some v | None \<Rightarrow> Some b)"
  by (cases x; cases y) simp_all

lemma assign_scaled:
  assumes "scaled k vs ws" and "0 < k" and "length vs \<le> MAX_VARIANTS"
  shows "map_option va_label (assign_variant p ws key) = map_option va_label (assign_variant p vs key)"
proof -
  have len: "length ws = length vs" using assms(1) by (simp add: scaled_def list_all2_lengthD)
  have r: "round_f64 (total_weight vs) = total_weight vs" "round_f64 (total_weight ws) = k * total_weight vs"
    using total_weight_less [OF assms(3)] total_weight_less [of ws] assms(3) len scaled_total [OF assms(1)]
    by (simp_all add: round_f64_def)
  have z: "total_weight ws = 0 \<longleftrightarrow> total_weight vs = 0" using scaled_total [OF assms(1)] assms(2) by simp
  have w: "map_option va_label (walk_arms u (of_nat (round_f64 (total_weight ws))) 0 ws) =
      map_option va_label (walk_arms u (of_nat (round_f64 (total_weight vs))) 0 vs)" for u
    unfolding r using scaled_walk [OF assms(1,2)] .
  show ?thesis
  proof (cases vs)
    case Nil
    then show ?thesis using len by (simp add: assign_variant_def)
  next
    case (Cons v vs')
    then obtain x ws' where ws: "ws = x # ws'" using len by (cases ws) auto
    have first: "va_label x = va_label v" using assms(1) Cons ws by (simp add: scaled_def)
    have "va_label (last ws) = va_label (last vs)"
    proof -
      have "va_label (ws ! (length vs - 1)) = va_label (vs ! (length vs - 1))"
        using list_all2_nthD [OF assms(1) [unfolded scaled_def], of "length vs - 1"] Cons by simp
      moreover have "last ws = ws ! (length vs - 1)" "last vs = vs ! (length vs - 1)"
        using len Cons ws last_conv_nth [of ws] last_conv_nth [of vs] by simp_all
      ultimately show ?thesis by simp
    qed
    moreover have some: "assign_variant p us (Some k') =
        (if total_weight us = 0 then Some (hd us)
         else case walk_arms (unit_position (stable_bucket p k')) (of_nat (round_f64 (total_weight us))) 0 us of
             Some v \<Rightarrow> Some v | None \<Rightarrow> Some (last us))" if ne: "us \<noteq> []" for us k'
    proof -
      obtain u us' where us: "us = u # us'" using ne by (cases us) auto
      show ?thesis unfolding us assign_variant_def Let_def list.case option.case list.sel ..
    qed
    ultimately have last: "va_label (last ws) = va_label (last vs)" by simp
    have ne: "vs \<noteq> []" "ws \<noteq> []" and hd: "va_label (hd ws) = va_label (hd vs)" using Cons ws first by simp_all
    show ?thesis
    proof (cases key)
      case None
      then show ?thesis using Cons ws first by (simp add: assign_variant_def)
    next
      case (Some k')
      show ?thesis
      proof (cases "total_weight vs = 0")
        case True
        then show ?thesis unfolding Some some [OF ne(1)] some [OF ne(2)] using z hd by simp
      next
        case False
        then have nz: "total_weight ws \<noteq> 0" using z by simp
        show ?thesis
          unfolding Some some [OF ne(1)] some [OF ne(2)] if_not_P [OF False] if_not_P [OF nz]
          by (rule map_option_or [OF w last])
      qed
    qed
  qed
qed

text \<open>With two arms a cohort only moves to the arm whose share has grown.\<close>

definition share_of :: "variant \<Rightarrow> variant list \<Rightarrow> rat" where
  "share_of v vs = of_nat (unat (va_weight v)) / of_nat (total_weight vs)"

lemma assign_two:
  assumes "total_weight [a, b] \<noteq> 0"
  shows "assign_variant p [a, b] (Some key) =
    Some (if unit_position (stable_bucket p key) < f64_round (f64_round (share_of a [a, b])) then a else b)"
proof -
  have "round_f64 (total_weight [a, b]) = total_weight [a, b]"
    using total_weight_less [of "[a, b]"] by (simp add: round_f64_def MAX_VARIANTS_def)
  then show ?thesis using assms by (simp add: assign_variant_def Let_def share_of_def)
qed

lemma two_arms_move:
  assumes "total_weight [a, b] \<noteq> 0" "total_weight [a', b'] \<noteq> 0" "va_label a \<noteq> va_label b" "va_label a' = va_label a" "va_label b' = va_label b"
    and "assign_variant p [a, b] (Some key) = Some v" "assign_variant p [a', b'] (Some key) = Some v'" "va_label v' \<noteq> va_label v"
  shows "(va_label v' = va_label a \<and> share_of a [a, b] < share_of a' [a', b']) \<or>
    (va_label v' = va_label b \<and> share_of b [a, b] < share_of b' [a', b'])"
proof -
  let ?s = "share_of a [a, b]" and ?s' = "share_of a' [a', b']" and ?u = "unit_position (stable_bucket p key)"
  have pos: "0 \<le> ?s" "0 \<le> ?s'" unfolding share_of_def by (intro divide_nonneg_nonneg of_nat_0_le_iff)+
  have less: "x < y" if "f64_round (f64_round x) < f64_round (f64_round y)" "0 \<le> x" "0 \<le> y" for x y
    using f64_round_less f64_round_nonneg that by blast
  have one: "share_of x [x, y] + share_of y [x, y] = 1" if "total_weight [x, y] \<noteq> 0" for x y
  proof -
    have "share_of x [x, y] + share_of y [x, y] = of_nat (total_weight [x, y]) / of_nat (total_weight [x, y])"
      unfolding share_of_def add_divide_distrib [symmetric] by (simp add: total_weight_def)
    then show ?thesis using that by simp
  qed
  note one = one [OF assms(1)] one [OF assms(2)]
  have v: "v = (if ?u < f64_round (f64_round ?s) then a else b)" "v' = (if ?u < f64_round (f64_round ?s') then a' else b')"
    using assign_two [OF assms(1)] assign_two [OF assms(2)] assms(6,7) by simp_all
  show ?thesis
  proof (cases "?u < f64_round (f64_round ?s)")
    case True
    then have "\<not> ?u < f64_round (f64_round ?s')" using v assms(3-5,8) by auto
    then have "?s' < ?s" using True less pos by fastforce
    then show ?thesis using one v True \<open>\<not> ?u < f64_round (f64_round ?s')\<close> assms(5) by auto
  next
    case False
    then have "?u < f64_round (f64_round ?s')" using v assms(3-5,8) by (auto split: if_splits)
    then have "?s < ?s'" using False less pos by fastforce
    then show ?thesis using v \<open>?u < f64_round (f64_round ?s')\<close> assms(4) by auto
  qed
qed

section \<open>An example\<close>

definition demo_arm :: "string \<Rightarrow> u32 \<Rightarrow> variant" where
  "demo_arm l w = \<lparr>va_label = l, va_version = 1, va_weight = w, va_model = None, va_params = None\<rparr>"

lemma demo_hashes: "stable_bucket ''p'' ''k'' = 0x79147b19578f8702" "stable_bucket ''p'' ''rEVyqCgRUM0'' = 0xffffffffffffffc2"
  by (simp_all add: stable_bucket_def fnv_mix_def FNV_OFFSET_def FNV_PRIME_def)

lemma demo_positions: "0 \<le> unit_position (stable_bucket ''p'' ''k'')" "unit_position (stable_bucket ''p'' ''k'') < 1"
  "unit_position (stable_bucket ''p'' ''rEVyqCgRUM0'') = 1"
  unfolding demo_hashes by (simp_all add: unit_position_def round_f64_def bit_length.simps Let_def)

lemma f64_round_one [simp]: "f64_round 1 = 1"
  by (rule f64_round_exact [of _ "2 ^ places 1 0"]) simp

lemma demo_moves:
  "assign_variant ''p'' [demo_arm ''a'' 1, demo_arm ''b'' 0] (Some ''k'') = Some (demo_arm ''a'' 1)"
  "assign_variant ''p'' [demo_arm ''a'' 0, demo_arm ''b'' 1] (Some ''k'') = Some (demo_arm ''b'' 1)"
  "assign_variant ''p'' [demo_arm ''a'' 1, demo_arm ''b'' 0] (Some ''rEVyqCgRUM0'') = Some (demo_arm ''b'' 0)"
  using demo_positions by (simp_all add: assign_two total_weight_def demo_arm_def share_of_def)

section \<open>Properties\<close>

lemma variant_assignment_stable_parts:
  shows "scaled k vs ws \<and> 0 < k \<and> length vs \<le> MAX_VARIANTS \<Longrightarrow>
      map_option va_label (assign_variant p ws key) = map_option va_label (assign_variant p vs key)"
    and "total_weight [a, b] \<noteq> 0 \<and> total_weight [a', b'] \<noteq> 0 \<and> va_label a \<noteq> va_label b \<and>
      va_label a' = va_label a \<and> va_label b' = va_label b \<and>
      assign_variant p [a, b] (Some cohort) = Some v \<and> assign_variant p [a', b'] (Some cohort) = Some v' \<and> va_label v' \<noteq> va_label v \<Longrightarrow>
      (va_label v' = va_label a \<and> share_of a [a, b] < share_of a' [a', b']) \<or>
      (va_label v' = va_label b \<and> share_of b [a, b] < share_of b' [a', b'])"
    and "assign_variant p vs (Some cohort) = Some v \<and> total_weight vs \<noteq> 0 \<and> va_weight v = 0 \<Longrightarrow> v = last vs"
proof -
  show "map_option va_label (assign_variant p ws key) = map_option va_label (assign_variant p vs key)"
    if "scaled k vs ws \<and> 0 < k \<and> length vs \<le> MAX_VARIANTS"
    using that assign_scaled by blast
  show "(va_label v' = va_label a \<and> share_of a [a, b] < share_of a' [a', b']) \<or>
      (va_label v' = va_label b \<and> share_of b [a, b] < share_of b' [a', b'])"
    if "total_weight [a, b] \<noteq> 0 \<and> total_weight [a', b'] \<noteq> 0 \<and> va_label a \<noteq> va_label b \<and>
      va_label a' = va_label a \<and> va_label b' = va_label b \<and>
      assign_variant p [a, b] (Some cohort) = Some v \<and> assign_variant p [a', b'] (Some cohort) = Some v' \<and> va_label v' \<noteq> va_label v"
    using that two_arms_move by blast
  show "v = last vs" if "assign_variant p vs (Some cohort) = Some v \<and> total_weight vs \<noteq> 0 \<and> va_weight v = 0"
    using that assign_weight by blast
qed

text \<open>
  C24. The assignment of a cohort to a variant is computed in rounded floating-point numbers and keeps the documented promises all the same. Scaling all weights moves no cohort. With two arms a change of weights moves a cohort only to the arm whose share has grown. An arm of weight zero is served only if it is the last one.
\<close>

theorem variant_assignment_stable:
  shows "((scaled k vs ws \<and> 0 < k \<and> length vs \<le> MAX_VARIANTS) \<longrightarrow> map_option va_label (assign_variant p ws key) = map_option va_label (assign_variant p vs key)) \<and>
   ((total_weight [a, b] \<noteq> 0 \<and> total_weight [a', b'] \<noteq> 0 \<and> va_label a \<noteq> va_label b \<and>
      va_label a' = va_label a \<and> va_label b' = va_label b \<and>
      assign_variant p [a, b] (Some cohort) = Some v \<and> assign_variant p [a', b'] (Some cohort) = Some v' \<and> va_label v' \<noteq> va_label v) \<longrightarrow> (va_label v' = va_label a \<and> share_of a [a, b] < share_of a' [a', b']) \<or>
      (va_label v' = va_label b \<and> share_of b [a, b] < share_of b' [a', b'])) \<and>
   ((assign_variant p vs (Some cohort) = Some v \<and> total_weight vs \<noteq> 0 \<and> va_weight v = 0) \<longrightarrow> v = last vs)"
  by ((rule conjI, rule impI, rule variant_assignment_stable_parts(1), assumption),
      (rule conjI, rule impI, rule variant_assignment_stable_parts(2), assumption),
      (rule impI, rule variant_assignment_stable_parts(3), assumption))

theorem variant_assignment_stable_witness:
  "map_option va_label (assign_variant ''p'' [demo_arm ''a'' 2, demo_arm ''b'' 0] (Some ''k'')) = Some ''a'' \<and>
    share_of (demo_arm ''b'' 0) [demo_arm ''a'' 1, demo_arm ''b'' 0] < share_of (demo_arm ''b'' 1) [demo_arm ''a'' 0, demo_arm ''b'' 1] \<and>
    demo_arm ''b'' 0 = last [demo_arm ''a'' 1, demo_arm ''b'' 0]"
proof -
  have s: "scaled 2 [demo_arm ''a'' 1, demo_arm ''b'' 0] [demo_arm ''a'' 2, demo_arm ''b'' 0] \<and> 0 < (2 :: nat) \<and>
      length [demo_arm ''a'' 1, demo_arm ''b'' 0] \<le> MAX_VARIANTS"
    by (simp add: scaled_def demo_arm_def MAX_VARIANTS_def)
  have m: "total_weight [demo_arm ''a'' 1, demo_arm ''b'' 0] \<noteq> 0 \<and> total_weight [demo_arm ''a'' 0, demo_arm ''b'' 1] \<noteq> 0 \<and>
      va_label (demo_arm ''a'' 1) \<noteq> va_label (demo_arm ''b'' 0) \<and>
      va_label (demo_arm ''a'' 0) = va_label (demo_arm ''a'' 1) \<and> va_label (demo_arm ''b'' 1) = va_label (demo_arm ''b'' 0) \<and>
      assign_variant ''p'' [demo_arm ''a'' 1, demo_arm ''b'' 0] (Some ''k'') = Some (demo_arm ''a'' 1) \<and>
      assign_variant ''p'' [demo_arm ''a'' 0, demo_arm ''b'' 1] (Some ''k'') = Some (demo_arm ''b'' 1) \<and>
      va_label (demo_arm ''b'' 1) \<noteq> va_label (demo_arm ''a'' 1)"
    using demo_moves(1,2) by (simp add: demo_arm_def total_weight_def)
  have z: "assign_variant ''p'' [demo_arm ''a'' 1, demo_arm ''b'' 0] (Some ''rEVyqCgRUM0'') = Some (demo_arm ''b'' 0) \<and>
      total_weight [demo_arm ''a'' 1, demo_arm ''b'' 0] \<noteq> 0 \<and> va_weight (demo_arm ''b'' 0) = 0"
    using demo_moves(3) m by (simp add: demo_arm_def)
  have a: "va_label (demo_arm ''a'' 1) = ''a''" "va_label (demo_arm ''b'' 1) \<noteq> ''a''" by (simp_all add: demo_arm_def)
  show ?thesis
    using variant_assignment_stable [THEN conjunct1, THEN mp, OF s, of "''p''" "Some ''k''"] variant_assignment_stable [THEN conjunct2, THEN conjunct1, THEN mp, OF m]
      variant_assignment_stable [THEN conjunct2, THEN conjunct2, THEN mp, OF z] demo_moves(1) a m by auto
qed

subsection \<open>Further facts\<close>

text \<open>
  The cohort rEVyqCgRUM0 of a prompt with id p hashes so close to the top of the 64-bit range that its unit_position in the unit interval rounds to 1. It is served the treatment of a split whose treatment has weight zero.
\<close>

lemma zero_weight_arm_served:
  "unit_position (stable_bucket ''p'' ''rEVyqCgRUM0'') = 1 \<and>
    assign_variant ''p'' [demo_arm ''control'' 1, demo_arm ''treatment'' 0] (Some ''rEVyqCgRUM0'') = Some (demo_arm ''treatment'' 0)"
  using demo_positions(3) by (simp add: assign_two total_weight_def demo_arm_def share_of_def)

end
