(* ===== verification/Prompt_Registry.thy ===== *)
theory Prompt_Registry
  imports Prompt_Templates Prompt_Variants Shard_Map
begin

text \<open>
  The prompt registry of \<^verbatim>\<open>crates/prompts/src/lib.rs\<close>: its records, the resolution of a
  reference and the renderer. The compact JSON text of a value is a parameter.
\<close>

section \<open>Records\<close>

definition MAX_PARTIAL_DEPTH :: nat where "MAX_PARTIAL_DEPTH = 3"
definition MAX_RENDER_OUTPUT_BYTES :: nat where "MAX_RENDER_OUTPUT_BYTES = 256 * 1024"
definition MAX_PARTIAL_EXPANSIONS :: nat where "MAX_PARTIAL_EXPANSIONS = 64"

record prompt_bounds =
  bd_max_template_bytes :: nat
  bd_max_variables :: nat
  bd_max_labels :: nat
  bd_max_prompts_per_tenant :: nat

definition default_bounds :: prompt_bounds where
  "default_bounds =
     \<lparr>bd_max_template_bytes = 64 * 1024, bd_max_variables = 128, bd_max_labels = 32, bd_max_prompts_per_tenant = 1000\<rparr>"

text \<open>\<^verbatim>\<open>usize::from_str\<close> reads what \<^verbatim>\<open>u64::from_str\<close> reads.\<close>

definition bounds_from_env :: "(string \<Rightarrow> string option) \<Rightarrow> prompt_bounds" where
  "bounds_from_env env =
     (case Option.bind (env ''RP_PROMPTS_MAX_PER_TENANT'') parse_u64 of
        Some v \<Rightarrow> if 0 < v then default_bounds\<lparr>bd_max_prompts_per_tenant := unat v\<rparr> else default_bounds
      | None \<Rightarrow> default_bounds)"

record prompt_variable =
  va_name :: string
  va_required :: bool

record prompt_version =
  ve_version :: u32
  ve_template :: string
  ve_variables :: "prompt_variable list"
  ve_default_model :: "string option"
  ve_default_params :: "json option"
  ve_nodes :: "template_node list"
  ve_declared :: "(string \<times> bool) list"

record stored_prompt =
  sp_id :: string
  sp_name :: string
  sp_description :: "string option"
  sp_latest_version :: u32
  sp_labels :: "(string \<times> u32) list"
  sp_variants :: "variant list"
  sp_versions :: "(u32, prompt_version) entries"

datatype missing_policy = ErrorPolicy | EmptyPolicy

datatype prompt_error =
  PromptNotFound string
| VersionNotFound string
| RenderFailed string "string option"
| PartialCycle string
| TooLarge string

fun error_code :: "prompt_error \<Rightarrow> string" where
  "error_code (PromptNotFound _) = ''prompt_not_found''"
| "error_code (VersionNotFound _) = ''prompt_version_not_found''"
| "error_code (RenderFailed _ _) = ''prompt_render_failed''"
| "error_code (PartialCycle _) = ''prompt_partial_cycle''"
| "error_code (TooLarge _) = ''prompt_too_large''"

fun prompt_error_status :: "prompt_error \<Rightarrow> u16" where
  "prompt_error_status (PromptNotFound _) = 404" | "prompt_error_status (VersionNotFound _) = 404"
| "prompt_error_status (RenderFailed _ _) = 400" | "prompt_error_status (PartialCycle _) = 400" | "prompt_error_status (TooLarge _) = 400"

fun error_message :: "prompt_error \<Rightarrow> string" where
  "error_message (PromptNotFound reference) = ''prompt '' @ quoted reference @ '' not found''"
| "error_message (VersionNotFound reference) = ''no such version/label for reference '' @ quoted reference"
| "error_message (RenderFailed message _) = message"
| "error_message (PartialCycle message) = message"
| "error_message (TooLarge message) = message"

fun error_param :: "prompt_error \<Rightarrow> string option" where
  "error_param (RenderFailed _ p) = p" | "error_param _ = None"

section \<open>References\<close>

type_synonym prompt_registry = "(string, (string, stored_prompt) entries) entries"

definition tenant_prompts :: "prompt_registry \<Rightarrow> string \<Rightarrow> (string, stored_prompt) entries" where
  "tenant_prompts reg tenant_id = (case map_of reg tenant_id of Some m \<Rightarrow> m | None \<Rightarrow> [])"

definition prompt_lookup :: "prompt_registry \<Rightarrow> string \<Rightarrow> string \<Rightarrow> stored_prompt option" where
  "prompt_lookup reg tenant_id pid = Option.bind (map_of reg tenant_id) (\<lambda>m. map_of m pid)"

definition prompt_count :: "prompt_registry \<Rightarrow> nat" where
  "prompt_count reg = sum_list (map (\<lambda>(_, m). length m) reg)"

datatype selector = Latest | LabelSel string | VersionSel u32

definition u32_from_digits :: "string \<Rightarrow> u32 option" where
  "u32_from_digits ds = (if read_nat ds < 2 ^ 32 then Some (of_nat (read_nat ds)) else None)"

definition parse_reference :: "string \<Rightarrow> string \<times> selector" where
  "parse_reference reference =
     (case split_once CHR ''@'' reference of
        None \<Rightarrow> (reference, Latest)
      | Some (pid, sel) \<Rightarrow>
          (pid, case strip_prefix ''v'' sel of
             Some num \<Rightarrow>
               if num \<noteq> [] \<and> list_all is_ascii_digit num
               then (case u32_from_digits num of Some n \<Rightarrow> VersionSel n | None \<Rightarrow> LabelSel sel)
               else LabelSel sel
           | None \<Rightarrow> LabelSel sel))"

record resolved =
  rs_prompt_id :: string
  rs_version_number :: u32
  rs_label :: "string option"
  rs_variant :: "string option"
  rs_version :: prompt_version
  rs_prompt :: stored_prompt

text \<open>The version, the label and the variant a selector names in a prompt.\<close>

definition select_version ::
  "string \<Rightarrow> stored_prompt \<Rightarrow> selector \<Rightarrow> string option \<Rightarrow> prompt_error + (u32 \<times> string option \<times> string option)" where
  "select_version reference prompt sel cohort_key =
     (case sel of
        Latest \<Rightarrow>
          Inr (case assign_variant (sp_id prompt) (sp_variants prompt) cohort_key of
                 Some v \<Rightarrow> (va_version v, None, Some (va_label v))
               | None \<Rightarrow> (sp_latest_version prompt, None, None))
      | LabelSel l \<Rightarrow>
          (case map_of (sp_labels prompt) l of
             Some v \<Rightarrow> Inr (v, Some l, None)
           | None \<Rightarrow> Inl (VersionNotFound reference))
      | VersionSel n \<Rightarrow>
          if map_of (sp_versions prompt) n = None then Inl (VersionNotFound reference) else Inr (n, None, None))"

definition resolve_with_cohort ::
  "prompt_registry \<Rightarrow> string \<Rightarrow> string \<Rightarrow> string option \<Rightarrow> prompt_error + resolved" where
  "resolve_with_cohort reg tenant_id reference cohort_key =
     (let (pid, sel) = parse_reference reference in
      and_then (ok_or (PromptNotFound reference) (prompt_lookup reg tenant_id pid)) (\<lambda>prompt.
      and_then (select_version reference prompt sel cohort_key) (\<lambda>(version_number, label, variant).
      and_then (ok_or (VersionNotFound reference) (map_of (sp_versions prompt) version_number)) (\<lambda>version.
      Inr \<lparr>rs_prompt_id = sp_id prompt, rs_version_number = version_number, rs_label = label, rs_variant = variant,
           rs_version = version, rs_prompt = prompt\<rparr>))))"

definition resolve :: "prompt_registry \<Rightarrow> string \<Rightarrow> string \<Rightarrow> prompt_error + resolved" where
  "resolve reg tenant_id reference = resolve_with_cohort reg tenant_id reference None"

section \<open>Rendering\<close>

record render_ctx =
  rc_registry :: prompt_registry
  rc_tenant_id :: string
  rc_vars :: "(string \<times> json) list"
  rc_missing :: missing_policy
  rc_compact :: "json \<Rightarrow> string"

definition value_to_string :: "(json \<Rightarrow> string) \<Rightarrow> json \<Rightarrow> string" where
  "value_to_string show_json v = (case v of VString s \<Rightarrow> s | VNull \<Rightarrow> [] | _ \<Rightarrow> show_json v)"

fun is_truthy :: "json \<Rightarrow> bool" where
  "is_truthy (VBool b) = b" | "is_truthy (VString s) = (s \<noteq> [])" | "is_truthy _ = False"

fun join_strings :: "string \<Rightarrow> string list \<Rightarrow> string" where
  "join_strings sep [] = []"
| "join_strings sep [s] = s"
| "join_strings sep (s # t # ts) = s @ sep @ join_strings sep (t # ts)"

text \<open>The state of a render: the partials expanded so far and the output.\<close>

type_synonym render_state = "nat \<times> string"

definition check_output_cap :: "render_state \<Rightarrow> prompt_error + render_state" where
  "check_output_cap st =
     (if MAX_RENDER_OUTPUT_BYTES < length (snd st)
      then Inl (TooLarge (''rendered output exceeds the '' @ show_nat MAX_RENDER_OUTPUT_BYTES @ ''-byte cap''))
      else Inr st)"

definition emit :: "string \<Rightarrow> render_state \<Rightarrow> prompt_error + render_state" where
  "emit s st = check_output_cap (fst st, snd st @ s)"

definition render_var :: "render_ctx \<Rightarrow> (string \<times> bool) list \<Rightarrow> string \<Rightarrow> render_state \<Rightarrow> prompt_error + render_state" where
  "render_var ctx declared name st =
     (case map_of (rc_vars ctx) name of
        Some v \<Rightarrow> emit (value_to_string (rc_compact ctx) v) st
      | None \<Rightarrow>
          (case rc_missing ctx of
             EmptyPolicy \<Rightarrow> Inr st
           | ErrorPolicy \<Rightarrow>
               if map_of declared name \<noteq> Some False
               then Inl (RenderFailed (''missing value for required variable '' @ quoted name) (Some name))
               else Inr st))"

definition section_shown :: "render_ctx \<Rightarrow> string \<Rightarrow> bool \<Rightarrow> bool" where
  "section_shown ctx name inverted \<longleftrightarrow>
     (case map_of (rc_vars ctx) name of Some v \<Rightarrow> is_truthy v | None \<Rightarrow> False) \<noteq> inverted"

text \<open>The prompt a partial includes, and what is refused before it is rendered.\<close>

definition open_partial ::
  "render_ctx \<Rightarrow> string list \<Rightarrow> nat \<Rightarrow> string \<Rightarrow> render_state \<Rightarrow> prompt_error + (resolved \<times> render_state)" where
  "open_partial ctx stack depth reference st =
     (if MAX_PARTIAL_DEPTH < depth + 1
      then Inl (PartialCycle (''partial include depth exceeds '' @ show_nat MAX_PARTIAL_DEPTH @ '' at '' @ quoted reference @
             '' (chain: '' @ join_strings '' -> '' stack @ '')''))
      else case resolve (rc_registry ctx) (rc_tenant_id ctx) reference of
          Inl e \<Rightarrow> Inl (RenderFailed (''unresolved partial '' @ quoted reference @ '': '' @ error_message e) (Some reference))
        | Inr r \<Rightarrow>
            if rs_prompt_id r \<in> set stack
            then Inl (PartialCycle (''partial cycle: '' @ join_strings '' -> '' stack @ '' -> '' @ rs_prompt_id r))
            else if MAX_PARTIAL_EXPANSIONS < fst st + 1
            then Inl (TooLarge (''render exceeds the '' @ show_nat MAX_PARTIAL_EXPANSIONS @ ''-partial-expansion cap''))
            else Inr (r, (fst st + 1, snd st)))"

lemma open_partial_depth: "open_partial ctx stack depth reference st = Inr p \<Longrightarrow> depth < MAX_PARTIAL_DEPTH"
  by (auto simp: open_partial_def split: if_splits)

function render_nodes ::
  "render_ctx \<Rightarrow> template_node list \<Rightarrow> (string \<times> bool) list \<Rightarrow> string list \<Rightarrow> nat \<Rightarrow> render_state \<Rightarrow> prompt_error + render_state" where
  "render_nodes ctx [] declared stack depth st = Inr st"
| "render_nodes ctx (node # nodes) declared stack depth st =
     (case
        (case node of
           NText t \<Rightarrow> emit t st
         | NVar name \<Rightarrow> render_var ctx declared name st
         | NSection name inverted children \<Rightarrow>
             if section_shown ctx name inverted then
               (case render_nodes ctx children declared stack depth st of Inl e \<Rightarrow> Inl e | Inr st' \<Rightarrow> check_output_cap st')
             else Inr st
         | NPartial reference \<Rightarrow>
             (case open_partial ctx stack depth reference st of
                Inl e \<Rightarrow> Inl e
              | Inr (r, st') \<Rightarrow>
                  (case render_nodes ctx (ve_nodes (rs_version r)) (ve_declared (rs_version r)) (stack @ [rs_prompt_id r]) (depth + 1) st' of
                     Inl e \<Rightarrow> Inl e
                   | Inr st'' \<Rightarrow> check_output_cap st'')))
      of Inl e \<Rightarrow> Inl e
       | Inr st' \<Rightarrow> render_nodes ctx nodes declared stack depth st')"
  by pat_completeness auto
termination
  by (relation "measures [\<lambda>(_, _, _, _, depth, _). MAX_PARTIAL_DEPTH - depth, \<lambda>(_, nodes, _, _, _, _). size_list size nodes]")
    (auto dest: open_partial_depth)

record rendered =
  rd_prompt_id :: string
  rd_version :: u32
  rd_label :: "string option"
  rd_variant :: "string option"
  rd_model :: "string option"
  rd_params :: "json option"
  rd_text :: string

definition served_variant :: "resolved \<Rightarrow> variant option" where
  "served_variant r = Option.bind (rs_variant r) (\<lambda>label. find (\<lambda>v. va_label v = label) (sp_variants (rs_prompt r)))"

definition render_with_cohort ::
  "(json \<Rightarrow> string) \<Rightarrow> prompt_registry \<Rightarrow> string \<Rightarrow> string \<Rightarrow> (string \<times> json) list \<Rightarrow> missing_policy \<Rightarrow> string option
     \<Rightarrow> prompt_error + rendered" where
  "render_with_cohort show_json reg tenant_id reference vars missing cohort_key =
     and_then (resolve_with_cohort reg tenant_id reference cohort_key) (\<lambda>r.
     let ctx = \<lparr>rc_registry = reg, rc_tenant_id = tenant_id, rc_vars = vars, rc_missing = missing, rc_compact = show_json\<rparr> in
     and_then (render_nodes ctx (ve_nodes (rs_version r)) (ve_declared (rs_version r)) [rs_prompt_id r] 0 (0, [])) (\<lambda>st.
     and_then (check_output_cap st) (\<lambda>st.
     Inr \<lparr>rd_prompt_id = rs_prompt_id r, rd_version = rs_version_number r, rd_label = rs_label r, rd_variant = rs_variant r,
          rd_model = (case Option.bind (served_variant r) va_model of
                        Some m \<Rightarrow> Some m | None \<Rightarrow> ve_default_model (rs_version r)),
          rd_params = merge_params (ve_default_params (rs_version r)) (Option.bind (served_variant r) va_params),
          rd_text = snd st\<rparr>)))"

definition render ::
  "(json \<Rightarrow> string) \<Rightarrow> prompt_registry \<Rightarrow> string \<Rightarrow> string \<Rightarrow> (string \<times> json) list \<Rightarrow> missing_policy \<Rightarrow> prompt_error + rendered" where
  "render show_json reg tenant_id reference vars missing =
     render_with_cohort show_json reg tenant_id reference vars missing None"

section \<open>What a template means\<close>

text \<open>The text of a template and the number of partials in it, without caps and without a running state.\<close>

definition included :: "render_ctx \<Rightarrow> string list \<Rightarrow> nat \<Rightarrow> string \<Rightarrow> resolved option" where
  "included ctx stack depth reference =
     (if MAX_PARTIAL_DEPTH < depth + 1 then None
      else case resolve (rc_registry ctx) (rc_tenant_id ctx) reference of
          Inl _ \<Rightarrow> None
        | Inr r \<Rightarrow> if rs_prompt_id r \<in> set stack then None else Some r)"

definition var_text :: "render_ctx \<Rightarrow> (string \<times> bool) list \<Rightarrow> string \<Rightarrow> string option" where
  "var_text ctx declared name =
     (case map_of (rc_vars ctx) name of
        Some v \<Rightarrow> Some (value_to_string (rc_compact ctx) v)
      | None \<Rightarrow> if rc_missing ctx = EmptyPolicy \<or> map_of declared name = Some False then Some [] else None)"

lemma included_depth: "included ctx stack depth reference = Some r \<Longrightarrow> depth < MAX_PARTIAL_DEPTH"
  by (auto simp: included_def split: if_splits)

function meaning :: "render_ctx \<Rightarrow> template_node list \<Rightarrow> (string \<times> bool) list \<Rightarrow> string list \<Rightarrow> nat \<Rightarrow> (nat \<times> string) option" where
  "meaning ctx [] declared stack depth = Some (0, [])"
| "meaning ctx (node # nodes) declared stack depth =
     (case
        (case node of
           NText t \<Rightarrow> Some (0, t)
         | NVar name \<Rightarrow> map_option (\<lambda>t. (0, t)) (var_text ctx declared name)
         | NSection name inverted children \<Rightarrow>
             if section_shown ctx name inverted then meaning ctx children declared stack depth else Some (0, [])
         | NPartial reference \<Rightarrow>
             (case included ctx stack depth reference of
                None \<Rightarrow> None
              | Some r \<Rightarrow>
                  map_option (\<lambda>(k, t). (Suc k, t))
                    (meaning ctx (ve_nodes (rs_version r)) (ve_declared (rs_version r)) (stack @ [rs_prompt_id r]) (depth + 1))))
      of None \<Rightarrow> None
       | Some (k, t) \<Rightarrow> map_option (\<lambda>(k', t'). (k + k', t @ t')) (meaning ctx nodes declared stack depth))"
  by pat_completeness auto
termination
  by (relation "measures [\<lambda>(_, _, _, _, depth). MAX_PARTIAL_DEPTH - depth, \<lambda>(_, nodes, _, _, _). size_list size nodes]")
    (auto dest: included_depth)

lemma check_output_cap_Inr: "check_output_cap st = Inr st' \<longleftrightarrow> st' = st \<and> length (snd st) \<le> MAX_RENDER_OUTPUT_BYTES"
  by (auto simp: check_output_cap_def)

lemma emit_Inr: "emit t st = Inr st' \<longleftrightarrow> st' = (fst st, snd st @ t) \<and> length (snd st) + length t \<le> MAX_RENDER_OUTPUT_BYTES"
  by (auto simp: emit_def check_output_cap_Inr)

lemma render_var_Inr:
  assumes "length (snd st) \<le> MAX_RENDER_OUTPUT_BYTES"
  shows "render_var ctx declared name st = Inr st' \<longleftrightarrow>
    (\<exists>t. var_text ctx declared name = Some t \<and> st' = (fst st, snd st @ t) \<and> length (snd st) + length t \<le> MAX_RENDER_OUTPUT_BYTES)"
  using assms
  by (cases st; cases st') (auto simp: render_var_def var_text_def emit_Inr split: option.split missing_policy.split)

lemma open_partial_Inr:
  "open_partial ctx stack depth reference st = Inr (r, st') \<longleftrightarrow>
    included ctx stack depth reference = Some r \<and> st' = (fst st + 1, snd st) \<and> fst st + 1 \<le> MAX_PARTIAL_EXPANSIONS"
  by (auto simp: open_partial_def included_def split: sum.split)

definition fits :: "render_state \<Rightarrow> bool" where
  "fits st \<longleftrightarrow> fst st \<le> MAX_PARTIAL_EXPANSIONS \<and> length (snd st) \<le> MAX_RENDER_OUTPUT_BYTES"

text \<open>A rendering step is its meaning put behind the output, if the result fits.\<close>

definition steps_to :: "(nat \<times> string) option \<Rightarrow> render_state \<Rightarrow> render_state \<Rightarrow> bool" where
  "steps_to m st st' \<longleftrightarrow> (\<exists>k t. m = Some (k, t) \<and> st' = (fst st + k, snd st @ t) \<and> fits st')"

lemma steps_to_fits: "steps_to m st st' \<Longrightarrow> fits st'"
  by (auto simp: steps_to_def)

lemma steps_to_seq:
  "steps_to (case m of None \<Rightarrow> None | Some (k, t) \<Rightarrow> map_option (\<lambda>(k', t'). (k + k', t @ t')) m') st st'' \<longleftrightarrow>
    (\<exists>st'. steps_to m st st' \<and> steps_to m' st' st'')"
proof
  assume "steps_to (case m of None \<Rightarrow> None | Some (k, t) \<Rightarrow> map_option (\<lambda>(k', t'). (k + k', t @ t')) m') st st''"
  then obtain k t k' t' where m: "m = Some (k, t)" "m' = Some (k', t')"
    and st: "st'' = (fst st + (k + k'), snd st @ t @ t')" "fits st''"
    by (auto simp: steps_to_def split: option.splits)
  have "fits (fst st + k, snd st @ t)" using st by (simp add: fits_def)
  then have "steps_to m st (fst st + k, snd st @ t)" "steps_to m' (fst st + k, snd st @ t) st''"
    using m st by (auto simp: steps_to_def)
  then show "\<exists>st'. steps_to m st st' \<and> steps_to m' st' st''" by blast
qed (auto simp: steps_to_def)

lemma render_steps:
  "fits st \<Longrightarrow> render_nodes ctx nodes declared stack depth st = Inr st' \<longleftrightarrow> steps_to (meaning ctx nodes declared stack depth) st st'"
proof (induction ctx nodes declared stack depth st arbitrary: st' rule: render_nodes.induct)
  case (1 ctx declared stack depth st)
  then show ?case by (auto simp: steps_to_def)
next
  case (2 ctx node nodes declared stack depth st)
  define body where "body =
      (case node of
         NText t \<Rightarrow> emit t st
       | NVar name \<Rightarrow> render_var ctx declared name st
       | NSection name inverted children \<Rightarrow>
           if section_shown ctx name inverted then
             (case render_nodes ctx children declared stack depth st of Inl e \<Rightarrow> Inl e | Inr st' \<Rightarrow> check_output_cap st')
           else Inr st
       | NPartial reference \<Rightarrow>
           (case open_partial ctx stack depth reference st of
              Inl e \<Rightarrow> Inl e
            | Inr (r, st') \<Rightarrow>
                (case render_nodes ctx (ve_nodes (rs_version r)) (ve_declared (rs_version r)) (stack @ [rs_prompt_id r]) (depth + 1) st' of
                   Inl e \<Rightarrow> Inl e
                 | Inr st'' \<Rightarrow> check_output_cap st'')))"
  define m where "m =
      (case node of
         NText t \<Rightarrow> Some (0, t)
       | NVar name \<Rightarrow> map_option (\<lambda>t. (0, t)) (var_text ctx declared name)
       | NSection name inverted children \<Rightarrow>
           if section_shown ctx name inverted then meaning ctx children declared stack depth else Some (0, [])
       | NPartial reference \<Rightarrow>
           (case included ctx stack depth reference of
              None \<Rightarrow> None
            | Some r \<Rightarrow>
                map_option (\<lambda>(k, t). (Suc k, t))
                  (meaning ctx (ve_nodes (rs_version r)) (ve_declared (rs_version r)) (stack @ [rs_prompt_id r]) (depth + 1))))"
  have capped: "(case x of Inl e \<Rightarrow> Inl e | Inr st' \<Rightarrow> check_output_cap st') = Inr st1 \<longleftrightarrow> x = Inr st1 \<and> length (snd st1) \<le> MAX_RENDER_OUTPUT_BYTES"
    for x st1 by (cases x) (auto simp: check_output_cap_Inr)
  have body: "body = Inr st1 \<longleftrightarrow> steps_to m st st1" for st1
  proof (cases node)
    case (NText t)
    then show ?thesis using 2(4) by (auto simp: body_def m_def emit_Inr steps_to_def fits_def)
  next
    case (NVar name)
    then show ?thesis using 2(4) by (auto simp: body_def m_def render_var_Inr steps_to_def fits_def)
  next
    case (NSection name inverted children)
    then show ?thesis using 2(2) [OF NSection _ 2(4)] 2(4) steps_to_fits
      by (auto simp: body_def m_def capped steps_to_def fits_def)
  next
    case (NPartial reference)
    show ?thesis
    proof (cases "included ctx stack depth reference")
      case None
      then have "open_partial ctx stack depth reference st \<noteq> Inr p" for p using open_partial_Inr by (cases p) auto
      then show ?thesis using None NPartial
        by (cases "open_partial ctx stack depth reference st") (auto simp: body_def m_def steps_to_def)
    next
      case (Some r)
      let ?m = "meaning ctx (ve_nodes (rs_version r)) (ve_declared (rs_version r)) (stack @ [rs_prompt_id r]) (depth + 1)"
      show ?thesis
      proof (cases "fst st + 1 \<le> MAX_PARTIAL_EXPANSIONS")
        case True
        let ?st = "(fst st + 1, snd st)"
        have op: "open_partial ctx stack depth reference st = Inr (r, ?st)" using Some True by (simp add: open_partial_Inr)
        have fs: "fits ?st" using True 2(4) by (simp add: fits_def)
        have "body = Inr st1 \<longleftrightarrow> steps_to ?m ?st st1"
          using 2(1) [OF NPartial op refl fs, of st1] steps_to_fits [of ?m ?st st1] by (auto simp: body_def NPartial op capped fits_def)
        also have "\<dots> \<longleftrightarrow> steps_to m st st1" by (auto simp: m_def NPartial Some steps_to_def)
        finally show ?thesis .
      next
        case False
        then have "open_partial ctx stack depth reference st \<noteq> Inr p" for p using open_partial_Inr by (cases p) auto
        then have "body \<noteq> Inr st1" using NPartial
          by (cases "open_partial ctx stack depth reference st") (auto simp: body_def)
        moreover have "\<not> steps_to m st st1" using False Some NPartial by (auto simp: m_def steps_to_def fits_def)
        ultimately show ?thesis by blast
      qed
    qed
  qed
  have "render_nodes ctx (node # nodes) declared stack depth st = Inr st' \<longleftrightarrow>
      (\<exists>st1. body = Inr st1 \<and> render_nodes ctx nodes declared stack depth st1 = Inr st')"
    by (simp add: body_def [symmetric] split: sum.split)
  also have "\<dots> \<longleftrightarrow> (\<exists>st1. steps_to m st st1 \<and> steps_to (meaning ctx nodes declared stack depth) st1 st')"
    using body 2(3) [folded body_def] steps_to_fits by metis
  also have "\<dots> \<longleftrightarrow> steps_to (meaning ctx (node # nodes) declared stack depth) st st'"
    using steps_to_seq [where m = m] by (simp add: m_def)
  finally show ?case .
qed

end
