(* ===== verification/Prompt_Loading.thy ===== *)
theory Prompt_Loading
  imports Prompt_Registry
begin

text \<open>
  Loading of the prompt registry in \<^verbatim>\<open>crates/prompts/src/lib.rs\<close>: the checks of the records, and
  what they establish for resolution and rendering. Reading and decoding the file are parameters;
  the models start from the decoded records.
\<close>

section \<open>Loading\<close>

record version_record =
  vr_version :: u32
  vr_template :: string
  vr_variables :: "prompt_variable list"
  vr_default_model :: "string option"
  vr_default_params :: "json option"

record prompt_record =
  pr_tenant_id :: string
  pr_id :: string
  pr_name :: string
  pr_description :: "string option"
  pr_latest_version :: "u32 option"
  pr_labels :: "(string \<times> u32) list"
  pr_experiments :: "json option"
  pr_variants :: "variant list"
  pr_versions :: "version_record list"

datatype prompt_load_error =
  PromptsUnreadable string
| ParseFailed string
| DuplicatePrompt string string
| NoVersions string
| DuplicateVersion string u32
| InvalidVersionNumber string u32
| TemplateParse string u32 string
| TemplateTooLarge string u32 nat nat
| TooManyVariables string u32 nat nat
| TooManyLabels string nat nat
| TooManyPrompts string nat
| LabelTargetMissing string string u32
| LatestVersionMissing string u32
| LegacyExperimentsBlock string
| TooManyVariants string nat nat
| VariantLabelInvalid string string
| VariantLabelCollision string string
| VariantVersionMissing string string u32
| VariantsZeroWeight string

text \<open>A loop over records that carries a state and may return early.\<close>

fun try_fold :: "('s \<Rightarrow> 'a \<Rightarrow> 'e + 's) \<Rightarrow> 's \<Rightarrow> 'a list \<Rightarrow> 'e + 's" where
  "try_fold f s [] = Inr s"
| "try_fold f s (x # xs) = and_then (f s x) (\<lambda>s'. try_fold f s' xs)"

definition load_version ::
  "prompt_bounds \<Rightarrow> string \<Rightarrow> (u32, prompt_version) entries \<Rightarrow> version_record \<Rightarrow> prompt_load_error + (u32, prompt_version) entries" where
  "load_version bounds pid versions v =
     (let n = vr_version v in
      and_then (ensure (1 \<le> n) (InvalidVersionNumber pid n)) (\<lambda>_.
      and_then (ensure (length (vr_template v) \<le> bd_max_template_bytes bounds)
        (TemplateTooLarge pid n (length (vr_template v)) (bd_max_template_bytes bounds))) (\<lambda>_.
      and_then (ensure (length (vr_variables v) \<le> bd_max_variables bounds)
        (TooManyVariables pid n (length (vr_variables v)) (bd_max_variables bounds))) (\<lambda>_.
      and_then (ensure (map_of versions n = None) (DuplicateVersion pid n)) (\<lambda>_.
      and_then (map_sum (TemplateParse pid n) id (parse_template (vr_template v))) (\<lambda>nodes.
      Inr (shard_insert n
        \<lparr>ve_version = n, ve_template = vr_template v, ve_variables = vr_variables v, ve_default_model = vr_default_model v,
         ve_default_params = vr_default_params v, ve_nodes = nodes,
         ve_declared = rev (map (\<lambda>x. (va_name x, va_required x)) (vr_variables v))\<rparr> versions)))))))"

definition load_variant ::
  "string \<Rightarrow> (string \<times> u32) list \<Rightarrow> (u32, prompt_version) entries \<Rightarrow> variant list \<Rightarrow> variant \<Rightarrow> prompt_load_error + variant list" where
  "load_variant pid labels versions variants v =
     and_then (ensure (variant_label_is_sane (va_label v)) (VariantLabelInvalid pid (va_label v))) (\<lambda>_.
     and_then (ensure (\<not> (list_ex (\<lambda>w. va_label w = va_label v) variants \<or> map_of labels (va_label v) \<noteq> None))
       (VariantLabelCollision pid (va_label v))) (\<lambda>_.
     and_then (ensure (map_of versions (va_version v) \<noteq> None) (VariantVersionMissing pid (va_label v) (va_version v))) (\<lambda>_.
     Inr (variants @ [v]))))"

definition check_label :: "string \<Rightarrow> (u32, prompt_version) entries \<Rightarrow> unit \<Rightarrow> string \<times> u32 \<Rightarrow> prompt_load_error + unit" where
  "check_label pid versions u lv =
     ensure (map_of versions (snd lv) \<noteq> None) (LabelTargetMissing pid (fst lv) (snd lv))"

definition latest_of :: "prompt_record \<Rightarrow> (u32, prompt_version) entries \<Rightarrow> prompt_load_error + u32" where
  "latest_of rec versions =
     (case pr_latest_version rec of
        Some v \<Rightarrow> if map_of versions v = None then Inl (LatestVersionMissing (pr_id rec) v) else Inr v
      | None \<Rightarrow> Inr (Max (set (map fst versions))))"

definition load_prompt ::
  "prompt_bounds \<Rightarrow> prompt_registry \<Rightarrow> prompt_record \<Rightarrow> prompt_load_error + prompt_registry" where
  "load_prompt bounds tenants rec =
     (let pid = pr_id rec; tenant = pr_tenant_id rec in
      and_then (ensure (pr_experiments rec = None) (LegacyExperimentsBlock pid)) (\<lambda>_.
      and_then (ensure (pr_versions rec \<noteq> []) (NoVersions pid)) (\<lambda>_.
      and_then (ensure (length (pr_labels rec) \<le> bd_max_labels bounds)
        (TooManyLabels pid (length (pr_labels rec)) (bd_max_labels bounds))) (\<lambda>_.
      and_then (try_fold (load_version bounds pid) [] (pr_versions rec)) (\<lambda>versions.
      and_then (try_fold (check_label pid versions) () (pr_labels rec)) (\<lambda>_.
      and_then (ensure (length (pr_variants rec) \<le> MAX_VARIANTS) (TooManyVariants pid (length (pr_variants rec)) MAX_VARIANTS)) (\<lambda>_.
      and_then (try_fold (load_variant pid (pr_labels rec) versions) [] (pr_variants rec)) (\<lambda>variants.
      and_then (ensure (variants = [] \<or> total_weight variants \<noteq> 0) (VariantsZeroWeight pid)) (\<lambda>_.
      and_then (latest_of rec versions) (\<lambda>latest.
      let entry = tenant_prompts tenants tenant in
      and_then (ensure (map_of entry pid = None) (DuplicatePrompt tenant pid)) (\<lambda>_.
      and_then (ensure (length entry < bd_max_prompts_per_tenant bounds) (TooManyPrompts tenant (bd_max_prompts_per_tenant bounds))) (\<lambda>_.
      Inr (shard_insert tenant
        (shard_insert pid
          \<lparr>sp_id = pid, sp_name = pr_name rec, sp_description = pr_description rec, sp_latest_version = latest,
           sp_labels = pr_labels rec, sp_variants = variants, sp_versions = versions\<rparr> entry) tenants)))))))))))))"

definition load_records :: "prompt_bounds \<Rightarrow> prompt_record list \<Rightarrow> prompt_load_error + prompt_registry" where
  "load_records bounds recs = try_fold (load_prompt bounds) [] recs"

definition load_from_json ::
  "(string \<Rightarrow> prompt_record list option) \<Rightarrow> string \<Rightarrow> string \<Rightarrow> prompt_bounds \<Rightarrow> prompt_load_error + prompt_registry" where
  "load_from_json from_str content origin bounds =
     and_then (ok_or (ParseFailed origin) (from_str content)) (load_records bounds)"

definition load_from_file ::
  "(string \<Rightarrow> string option) \<Rightarrow> (string \<Rightarrow> prompt_record list option) \<Rightarrow> string \<Rightarrow> prompt_bounds
     \<Rightarrow> prompt_load_error + prompt_registry" where
  "load_from_file read_file from_str path bounds =
     and_then (ok_or (PromptsUnreadable path) (read_file path)) (\<lambda>content. load_from_json from_str content path bounds)"


section \<open>What loading establishes\<close>

lemma try_fold_invariant:
  assumes step: "\<And>past x s s'. P past s \<Longrightarrow> x \<in> set xs \<Longrightarrow> f s x = Inr s' \<Longrightarrow> P (past @ [x]) s'"
    and "P past s" and "try_fold f s xs = Inr s'"
  shows "P (past @ xs) s'"
  using assms
proof (induction xs arbitrary: past s)
  case (Cons x xs)
  then obtain s1 where s1: "f s x = Inr s1" "try_fold f s1 xs = Inr s'" by (auto simp: and_then_Inr)
  have "P (past @ [x]) s1" using Cons.prems(1) [OF Cons.prems(2) _ s1(1)] by simp
  then have "P ((past @ [x]) @ xs) s'" using Cons.IH Cons.prems(1) s1(2) by (metis list.set_intros(2))
  then show ?case by simp
qed simp

text \<open>A version, a prompt and a registry as the checks leave them.\<close>

definition version_ok :: "prompt_bounds \<Rightarrow> u32 \<Rightarrow> prompt_version \<Rightarrow> bool" where
  "version_ok bounds n v \<longleftrightarrow>
     1 \<le> n \<and> ve_version v = n \<and> length (ve_template v) \<le> bd_max_template_bytes bounds \<and>
     length (ve_variables v) \<le> bd_max_variables bounds \<and> parse_template (ve_template v) = Inr (ve_nodes v) \<and>
     ve_declared v = rev (map (\<lambda>x. (va_name x, va_required x)) (ve_variables v))"

definition versions_ok :: "prompt_bounds \<Rightarrow> (u32, prompt_version) entries \<Rightarrow> bool" where
  "versions_ok bounds vs \<longleftrightarrow> shard_ok vs \<and> (\<forall>n v. map_of vs n = Some v \<longrightarrow> version_ok bounds n v)"

definition variants_ok :: "(string \<times> u32) list \<Rightarrow> (u32, prompt_version) entries \<Rightarrow> variant list \<Rightarrow> bool" where
  "variants_ok labels versions vs \<longleftrightarrow>
     distinct (map va_label vs) \<and>
     (\<forall>v\<in>set vs. variant_label_is_sane (va_label v) \<and> map_of labels (va_label v) = None \<and> map_of versions (va_version v) \<noteq> None)"

definition prompt_ok :: "prompt_bounds \<Rightarrow> stored_prompt \<Rightarrow> bool" where
  "prompt_ok bounds p \<longleftrightarrow>
     versions_ok bounds (sp_versions p) \<and> map_of (sp_versions p) (sp_latest_version p) \<noteq> None \<and>
     length (sp_labels p) \<le> bd_max_labels bounds \<and> (\<forall>(l, n)\<in>set (sp_labels p). map_of (sp_versions p) n \<noteq> None) \<and>
     variants_ok (sp_labels p) (sp_versions p) (sp_variants p) \<and> length (sp_variants p) \<le> MAX_VARIANTS \<and>
     (sp_variants p = [] \<or> total_weight (sp_variants p) \<noteq> 0)"

definition tenant_ok :: "prompt_bounds \<Rightarrow> (string, stored_prompt) entries \<Rightarrow> bool" where
  "tenant_ok bounds m \<longleftrightarrow>
     shard_ok m \<and> length m \<le> bd_max_prompts_per_tenant bounds \<and> (\<forall>pid p. map_of m pid = Some p \<longrightarrow> sp_id p = pid \<and> prompt_ok bounds p)"

definition prompts_ok :: "prompt_bounds \<Rightarrow> prompt_registry \<Rightarrow> bool" where
  "prompts_ok bounds reg \<longleftrightarrow> shard_ok reg \<and> (\<forall>t m. map_of reg t = Some m \<longrightarrow> tenant_ok bounds m)"

text \<open>A stored version and a stored prompt as their records declare them.\<close>

definition version_of :: "version_record \<Rightarrow> prompt_version \<Rightarrow> bool" where
  "version_of rec v \<longleftrightarrow>
     ve_version v = vr_version rec \<and> ve_template v = vr_template rec \<and> ve_variables v = vr_variables rec \<and>
     ve_default_model v = vr_default_model rec \<and> ve_default_params v = vr_default_params rec"

definition versions_of :: "version_record list \<Rightarrow> (u32, prompt_version) entries \<Rightarrow> bool" where
  "versions_of recs vs \<longleftrightarrow>
     distinct (map vr_version recs) \<and> fst ` set vs = vr_version ` set recs \<and>
     (\<forall>rec\<in>set recs. \<exists>v. map_of vs (vr_version rec) = Some v \<and> version_of rec v)"

definition prompt_of :: "prompt_record \<Rightarrow> stored_prompt \<Rightarrow> bool" where
  "prompt_of rec p \<longleftrightarrow>
     sp_id p = pr_id rec \<and> sp_name p = pr_name rec \<and> sp_description p = pr_description rec \<and> sp_labels p = pr_labels rec \<and>
     sp_variants p = pr_variants rec \<and> versions_of (pr_versions rec) (sp_versions p) \<and>
     sp_latest_version p = (case pr_latest_version rec of Some n \<Rightarrow> n | None \<Rightarrow> Max (vr_version ` set (pr_versions rec)))"

lemma map_sum_left_Inr: "map_sum f id m = Inr y \<longleftrightarrow> m = Inr y"
  by (cases m) auto

lemma load_version_Inr:
  assumes "load_version bounds pid versions rec = Inr versions'" and "versions_ok bounds versions" and "versions_of recs versions"
  shows "versions_ok bounds versions' \<and> versions_of (recs @ [rec]) versions'"
proof -
  from assms(1) obtain nodes where new: "map_of versions (vr_version rec) = None" and parse: "parse_template (vr_template rec) = Inr nodes"
    and bounds: "1 \<le> vr_version rec" "length (vr_template rec) \<le> bd_max_template_bytes bounds"
      "length (vr_variables rec) \<le> bd_max_variables bounds"
    and versions': "versions' = shard_insert (vr_version rec)
        \<lparr>ve_version = vr_version rec, ve_template = vr_template rec, ve_variables = vr_variables rec,
         ve_default_model = vr_default_model rec, ve_default_params = vr_default_params rec, ve_nodes = nodes,
         ve_declared = rev (map (\<lambda>x. (va_name x, va_required x)) (vr_variables rec))\<rparr> versions"
    by (auto simp: load_version_def Let_def result_simps map_sum_left_Inr)
  obtain v where v': "versions' = shard_insert (vr_version rec) v versions"
    and ok: "version_ok bounds (vr_version rec) v" and decl: "version_of rec v"
    by (rule that [OF versions']) (use parse bounds in \<open>simp_all add: version_ok_def version_of_def\<close>)
  have fresh: "vr_version rec \<notin> fst ` set versions" using new by (simp add: map_of_eq_None_iff)
  then have keys: "fst ` set versions' = insert (vr_version rec) (fst ` set versions)"
    by (simp add: v' shard_insert_def shard_remove_absent)
  have "versions_ok bounds versions'" using assms(2) ok by (auto simp: versions_ok_def v' shard_ok_insert)
  moreover have "versions_of (recs @ [rec]) versions'"
    using assms(3) decl fresh keys by (auto simp: versions_of_def v', metis imageI)
  ultimately show ?thesis ..
qed

lemma load_versions_Inr:
  assumes "try_fold (load_version bounds pid) [] recs = Inr versions"
  shows "versions_ok bounds versions \<and> versions_of recs versions"
proof -
  have "versions_ok bounds versions \<and> versions_of ([] @ recs) versions"
    by (rule try_fold_invariant [where P = "\<lambda>past vs. versions_ok bounds vs \<and> versions_of past vs", OF _ _ assms])
      (use load_version_Inr in blast, simp add: versions_ok_def versions_of_def shard_ok_def)
  then show ?thesis by simp
qed

lemma check_labels_Inr:
  "try_fold (check_label pid versions) u labels = Inr u' \<longleftrightarrow> (\<forall>(l, n)\<in>set labels. map_of versions n \<noteq> None)"
  by (induction labels) (auto simp: check_label_def result_simps)

lemma load_variants_Inr:
  assumes "try_fold (load_variant pid labels versions) [] recs = Inr variants"
  shows "variants = recs \<and> variants_ok labels versions recs"
proof -
  have "variants = [] @ recs \<and> variants_ok labels versions ([] @ recs)"
    by (rule try_fold_invariant [where P = "\<lambda>past vs. vs = past \<and> variants_ok labels versions past", OF _ _ assms])
      (auto simp: variants_ok_def load_variant_def result_simps list_ex_iff)
  then show ?thesis by simp
qed

lemma latest_of_Inr:
  assumes "latest_of rec versions = Inr n" and "versions_of (pr_versions rec) versions" and "pr_versions rec \<noteq> []"
  shows "map_of versions n \<noteq> None \<and> n = (case pr_latest_version rec of Some n \<Rightarrow> n | None \<Rightarrow> Max (vr_version ` set (pr_versions rec)))"
proof (cases "pr_latest_version rec")
  case None
  then have n: "n = Max (fst ` set versions)" using assms(1) by (simp add: latest_of_def)
  have keys: "fst ` set versions = vr_version ` set (pr_versions rec)" using assms(2) by (simp add: versions_of_def)
  then have "fst ` set versions \<noteq> {}" using assms(3) by simp
  then have "n \<in> fst ` set versions" unfolding n by (intro Max_in) simp_all
  then show ?thesis using None n keys by (simp add: map_of_eq_None_iff)
qed (use assms(1) in \<open>auto simp: latest_of_def split: if_splits\<close>)

lemma load_prompt_Inr:
  assumes "load_prompt bounds reg rec = Inr reg'"
  obtains p where "prompt_ok bounds p" "prompt_of rec p" "map_of (tenant_prompts reg (pr_tenant_id rec)) (pr_id rec) = None"
    "length (tenant_prompts reg (pr_tenant_id rec)) < bd_max_prompts_per_tenant bounds"
    "reg' = shard_insert (pr_tenant_id rec) (shard_insert (pr_id rec) p (tenant_prompts reg (pr_tenant_id rec))) reg"
proof -
  obtain versions variants latest u where
    ne: "pr_versions rec \<noteq> []" and labels: "length (pr_labels rec) \<le> bd_max_labels bounds" and
    vs: "try_fold (load_version bounds (pr_id rec)) [] (pr_versions rec) = Inr versions" and
    ls: "try_fold (check_label (pr_id rec) versions) () (pr_labels rec) = Inr u" and
    len: "length (pr_variants rec) \<le> MAX_VARIANTS" and
    ws: "try_fold (load_variant (pr_id rec) (pr_labels rec) versions) [] (pr_variants rec) = Inr variants" and
    weight: "variants = [] \<or> total_weight variants \<noteq> 0" and
    latest: "latest_of rec versions = Inr latest" and
    fresh: "map_of (tenant_prompts reg (pr_tenant_id rec)) (pr_id rec) = None" and
    room: "length (tenant_prompts reg (pr_tenant_id rec)) < bd_max_prompts_per_tenant bounds" and
    reg: "Inr (shard_insert (pr_tenant_id rec)
        (shard_insert (pr_id rec)
          \<lparr>sp_id = pr_id rec, sp_name = pr_name rec, sp_description = pr_description rec, sp_latest_version = latest,
           sp_labels = pr_labels rec, sp_variants = variants, sp_versions = versions\<rparr>
          (tenant_prompts reg (pr_tenant_id rec))) reg) = (Inr reg' :: prompt_load_error + prompt_registry)"
    using assms unfolding load_prompt_def Let_def and_then_Inr ensure_Inr by blast
  note reg' = reg [unfolded sum.inject, symmetric]
  have versions: "versions_ok bounds versions" "versions_of (pr_versions rec) versions"
    using load_versions_Inr [OF vs] by simp_all
  have variants: "variants = pr_variants rec" "variants_ok (pr_labels rec) versions variants"
    using load_variants_Inr [OF ws] by simp_all
  have lat: "map_of versions latest \<noteq> None"
    "latest = (case pr_latest_version rec of Some n \<Rightarrow> n | None \<Rightarrow> Max (vr_version ` set (pr_versions rec)))"
    using latest_of_Inr [OF latest versions(2) ne] by blast+
  show ?thesis
  proof (rule that [OF _ _ fresh room reg'])
    show "prompt_ok bounds \<lparr>sp_id = pr_id rec, sp_name = pr_name rec, sp_description = pr_description rec,
      sp_latest_version = latest, sp_labels = pr_labels rec, sp_variants = variants, sp_versions = versions\<rparr>"
      using versions(1) lat(1) labels ls len weight variants by (simp add: prompt_ok_def check_labels_Inr)
    show "prompt_of rec \<lparr>sp_id = pr_id rec, sp_name = pr_name rec, sp_description = pr_description rec,
      sp_latest_version = latest, sp_labels = pr_labels rec, sp_variants = variants, sp_versions = versions\<rparr>"
      using versions(2) lat(2) variants(1) by (simp add: prompt_of_def)
  qed
qed

text \<open>The prompts of a registry are the records that were loaded.\<close>

definition holds_records :: "prompt_record list \<Rightarrow> prompt_registry \<Rightarrow> bool" where
  "holds_records recs reg \<longleftrightarrow>
     (\<forall>t pid p. prompt_lookup reg t pid = Some p \<longrightarrow> (\<exists>rec\<in>set recs. pr_tenant_id rec = t \<and> prompt_of rec p)) \<and>
     (\<forall>rec\<in>set recs. \<exists>p. prompt_lookup reg (pr_tenant_id rec) (pr_id rec) = Some p \<and> prompt_of rec p)"

lemma prompt_lookup_tenant: "prompt_lookup reg t pid = map_of (tenant_prompts reg t) pid"
  by (auto simp: prompt_lookup_def tenant_prompts_def split: option.split)

lemma tenant_ok_prompts: "prompts_ok bounds reg \<Longrightarrow> tenant_ok bounds (tenant_prompts reg t)"
  by (auto simp: prompts_ok_def tenant_ok_def tenant_prompts_def shard_ok_def split: option.split)

lemma length_insert_new: "map_of m k = None \<Longrightarrow> length (shard_insert k v m) = Suc (length m)"
  by (simp add: shard_insert_def shard_remove_absent map_of_eq_None_iff)

lemma prompt_count_insert:
  assumes "shard_ok reg" and "length m = Suc (length (tenant_prompts reg t))"
  shows "prompt_count (shard_insert t m reg) = Suc (prompt_count reg)"
proof -
  have "prompt_count reg = length (tenant_prompts reg t) + prompt_count (shard_remove t reg)"
    using assms(1)
  proof (induction reg)
    case (Cons e reg)
    show ?case
    proof (cases "fst e = t")
      case True
      then have "shard_remove t reg = reg" using Cons.prems by (intro shard_remove_absent) (auto simp: shard_ok_def)
      then show ?thesis using True by (cases e) (simp add: tenant_prompts_def shard_remove_def prompt_count_def)
    next
      case False
      then show ?thesis using Cons by (cases e) (auto simp: tenant_prompts_def shard_remove_def shard_ok_def prompt_count_def)
    qed
  qed (simp add: tenant_prompts_def shard_remove_def prompt_count_def)
  then show ?thesis using assms(2) by (simp add: prompt_count_def shard_insert_def)
qed

lemma load_prompt_step:
  assumes "load_prompt bounds reg rec = Inr reg'" and "prompts_ok bounds reg" and "holds_records recs reg"
  shows "prompts_ok bounds reg' \<and> holds_records (recs @ [rec]) reg' \<and> prompt_count reg' = Suc (prompt_count reg)"
proof -
  let ?t = "pr_tenant_id rec" and ?m = "tenant_prompts reg (pr_tenant_id rec)"
  obtain p where p: "prompt_ok bounds p" "prompt_of rec p" and fresh: "map_of ?m (pr_id rec) = None"
    and room: "length ?m < bd_max_prompts_per_tenant bounds" and reg': "reg' = shard_insert ?t (shard_insert (pr_id rec) p ?m) reg"
    using load_prompt_Inr [OF assms(1)] .
  have m: "tenant_ok bounds ?m" by (rule tenant_ok_prompts [OF assms(2)])
  have ok: "shard_ok reg" using assms(2) by (simp add: prompts_ok_def)
  have "sp_id p = pr_id rec" using p(2) by (simp add: prompt_of_def)
  then have "tenant_ok bounds (shard_insert (pr_id rec) p ?m)"
    using m p(1) room by (simp add: tenant_ok_def shard_ok_insert length_insert_new [OF fresh])
  then have "prompts_ok bounds reg'" using assms(2) by (simp add: prompts_ok_def reg' shard_ok_insert)
  moreover have look: "prompt_lookup reg' t pid = (if t = ?t \<and> pid = pr_id rec then Some p else prompt_lookup reg t pid)" for t pid
    by (simp add: reg' prompt_lookup_def tenant_prompts_def split: option.split)
  have "holds_records (recs @ [rec]) reg'"
  proof -
    have old: "prompt_lookup reg ?t (pr_id rec) = None" using fresh by (simp add: prompt_lookup_tenant)
    have "\<exists>q. prompt_lookup reg' (pr_tenant_id r) (pr_id r) = Some q \<and> prompt_of r q" if "r \<in> set (recs @ [rec])" for r
      using that assms(3) p(2) old unfolding holds_records_def look by auto
    moreover have "\<exists>r\<in>set (recs @ [rec]). pr_tenant_id r = t \<and> prompt_of r q" if "prompt_lookup reg' t pid = Some q" for t pid q
      using that assms(3) p(2) unfolding holds_records_def look by (auto split: if_splits)
    ultimately show ?thesis unfolding holds_records_def by blast
  qed
  moreover have "prompt_count reg' = Suc (prompt_count reg)"
    unfolding reg' by (rule prompt_count_insert [OF ok length_insert_new [OF fresh]])
  ultimately show ?thesis by blast
qed

lemma load_records_Inr:
  assumes "load_records bounds recs = Inr reg"
  shows "prompts_ok bounds reg \<and> holds_records recs reg \<and> prompt_count reg = length recs"
proof -
  have "prompts_ok bounds reg \<and> holds_records ([] @ recs) reg \<and> prompt_count reg = length ([] @ recs)"
    by (rule try_fold_invariant
        [where P = "\<lambda>past reg. prompts_ok bounds reg \<and> holds_records past reg \<and> prompt_count reg = length past",
          OF _ _ assms [unfolded load_records_def]])
      (use load_prompt_step in force,
       simp add: prompts_ok_def holds_records_def prompt_lookup_def prompt_count_def shard_ok_def)
  then show ?thesis by simp
qed

section \<open>Resolution in a loaded registry\<close>

lemma lookup_ok:
  assumes "prompts_ok bounds reg" and "prompt_lookup reg t pid = Some p"
  shows "sp_id p = pid" and "prompt_ok bounds p"
  using tenant_ok_prompts [OF assms(1), of t] assms(2) by (auto simp: prompt_lookup_tenant tenant_ok_def)

lemma select_version_Inl:
  "select_version reference p sel key = Inl e \<longleftrightarrow> e = VersionNotFound reference \<and>
     (case sel of Latest \<Rightarrow> False | LabelSel l \<Rightarrow> map_of (sp_labels p) l = None | VersionSel n \<Rightarrow> map_of (sp_versions p) n = None)"
  by (auto simp: select_version_def split: selector.split option.split)

lemma select_version_exists:
  assumes "prompt_ok bounds p" and "select_version reference p sel key = Inr (n, label, variant)"
  shows "\<exists>v. map_of (sp_versions p) n = Some v"
proof (cases sel)
  case Latest
  show ?thesis
  proof (cases "assign_variant (sp_id p) (sp_variants p) key")
    case None
    then show ?thesis using assms Latest by (auto simp: select_version_def prompt_ok_def)
  next
    case (Some v)
    then have "v \<in> set (sp_variants p)" by (rule assign_member)
    then show ?thesis using assms Latest Some by (auto simp: select_version_def prompt_ok_def variants_ok_def)
  qed
next
  case (LabelSel l)
  then have "(l, n) \<in> set (sp_labels p)" using assms(2) by (auto simp: select_version_def dest: map_of_SomeD split: option.splits)
  then show ?thesis using assms(1) by (auto simp: prompt_ok_def)
qed (use assms(2) in \<open>auto simp: select_version_def split: if_splits\<close>)

lemma resolve_Inl:
  assumes "prompts_ok bounds reg"
  shows "resolve_with_cohort reg t reference key = Inl e \<longleftrightarrow>
    (case prompt_lookup reg t (fst (parse_reference reference)) of
       None \<Rightarrow> e = PromptNotFound reference
     | Some p \<Rightarrow> e = VersionNotFound reference \<and>
         (case snd (parse_reference reference) of
            Latest \<Rightarrow> False
          | LabelSel l \<Rightarrow> map_of (sp_labels p) l = None
          | VersionSel n \<Rightarrow> map_of (sp_versions p) n = None))"
proof (cases "prompt_lookup reg t (fst (parse_reference reference))")
  case None
  then show ?thesis by (cases "parse_reference reference") (auto simp: resolve_with_cohort_def)
next
  case (Some p)
  obtain pid sel where ref: "parse_reference reference = (pid, sel)" by fastforce
  have res: "resolve_with_cohort reg t reference key =
      and_then (select_version reference p sel key) (\<lambda>(n, label, variant).
        and_then (ok_or (VersionNotFound reference) (map_of (sp_versions p) n)) (\<lambda>version.
        Inr \<lparr>rs_prompt_id = sp_id p, rs_version_number = n, rs_label = label, rs_variant = variant, rs_version = version, rs_prompt = p\<rparr>))"
    using Some ref by (simp add: resolve_with_cohort_def)
  have "resolve_with_cohort reg t reference key = Inl e \<longleftrightarrow> select_version reference p sel key = Inl e"
  proof (cases "select_version reference p sel key")
    case (Inr x)
    obtain n label variant where x: "x = (n, label, variant)" by (cases x)
    obtain v where "map_of (sp_versions p) n = Some v"
      using select_version_exists [OF lookup_ok(2) [OF assms Some]] Inr x by blast
    then show ?thesis using Inr x by (simp add: res)
  qed (simp add: res)
  then show ?thesis using Some ref by (simp add: select_version_Inl)
qed

lemma resolve_Inr:
  assumes "resolve_with_cohort reg t reference key = Inr r"
  shows "prompt_lookup reg t (fst (parse_reference reference)) = Some (rs_prompt r)"
    and "map_of (sp_versions (rs_prompt r)) (rs_version_number r) = Some (rs_version r)"
    and "rs_prompt_id r = sp_id (rs_prompt r)"
    and "select_version reference (rs_prompt r) (snd (parse_reference reference)) key = Inr (rs_version_number r, rs_label r, rs_variant r)"
  using assms by (auto simp: resolve_with_cohort_def result_simps case_prod_beta)

text \<open>A resolved version is a checked one: its nodes are those of its template.\<close>

lemma resolved_version:
  assumes "prompts_ok bounds reg" and "resolve_with_cohort reg t reference key = Inr r"
  shows "version_ok bounds (rs_version_number r) (rs_version r)"
    and "rs_prompt_id r = fst (parse_reference reference)"
proof -
  note r = resolve_Inr [OF assms(2)] and p = lookup_ok [OF assms(1) resolve_Inr(1) [OF assms(2)]]
  show "version_ok bounds (rs_version_number r) (rs_version r)" using p(2) r(2) by (simp add: prompt_ok_def versions_ok_def)
  show "rs_prompt_id r = fst (parse_reference reference)" using p(1) r(3) by simp
qed

lemma resolve_cohort_free:
  assumes "snd (parse_reference reference) \<noteq> Latest \<or>
    (\<forall>p. prompt_lookup reg t (fst (parse_reference reference)) = Some p \<longrightarrow> sp_variants p = [])"
  shows "resolve_with_cohort reg t reference key = resolve reg t reference"
proof (cases "prompt_lookup reg t (fst (parse_reference reference))")
  case (Some p)
  have "select_version reference p (snd (parse_reference reference)) key = select_version reference p (snd (parse_reference reference)) None"
    using assms Some by (auto simp: select_version_def assign_variant_def split: selector.split)
  then show ?thesis using Some by (simp add: resolve_with_cohort_def resolve_def case_prod_beta)
qed (simp add: resolve_with_cohort_def resolve_def case_prod_beta)

text \<open>Some loaded names cannot be referred to.\<close>

lemma split_once_first: "split_once c s = Some (a, b) \<Longrightarrow> c \<notin> set a"
  by (induction s arbitrary: a) (auto split: if_splits)

lemma split_once_absent: "split_once c s = None \<longleftrightarrow> c \<notin> set s"
  by (induction s) auto

lemma reference_id: "CHR ''@'' \<notin> set (fst (parse_reference reference))"
  by (auto simp: parse_reference_def split_once_absent dest: split_once_first split: option.split)

lemma reference_label:
  assumes "snd (parse_reference reference) = LabelSel (CHR ''v'' # ds)" and "ds \<noteq> []" and "list_all is_ascii_digit ds"
  shows "2 ^ 32 \<le> read_nat ds"
  using assms by (auto simp: parse_reference_def strip_prefix_def u32_from_digits_def split: option.splits if_splits)

section \<open>Isolation of the tenants\<close>

lemma render_nodes_registry:
  assumes "\<forall>pid. prompt_lookup reg' (rc_tenant_id ctx) pid = prompt_lookup (rc_registry ctx) (rc_tenant_id ctx) pid"
  shows "render_nodes (ctx\<lparr>rc_registry := reg'\<rparr>) nodes declared stack depth st = render_nodes ctx nodes declared stack depth st"
  using assms
proof (induction ctx nodes declared stack depth st rule: render_nodes.induct)
  case (2 ctx node nodes declared stack depth st)
  have res: "resolve reg' (rc_tenant_id ctx) reference = resolve (rc_registry ctx) (rc_tenant_id ctx) reference" for reference
    using 2(4) by (simp add: resolve_def resolve_with_cohort_def)
  have op: "open_partial (ctx\<lparr>rc_registry := reg'\<rparr>) stack depth reference st = open_partial ctx stack depth reference st" for reference
    by (simp add: open_partial_def res)
  have var: "render_var (ctx\<lparr>rc_registry := reg'\<rparr>) declared name st = render_var ctx declared name st" for name
    by (simp add: render_var_def split: option.split missing_policy.split)
  have shown: "section_shown (ctx\<lparr>rc_registry := reg'\<rparr>) name inverted = section_shown ctx name inverted" for name inverted
    by (simp add: section_shown_def)
  note ih = 2(1) [OF _ _ refl 2(4), unfolded Suc_eq_plus1 [symmetric]] 2(2) [OF _ _ 2(4)] 2(3) [OF _ 2(4)]
  show ?case
    by (cases node) (auto simp: op var shown ih split: sum.split prod.split)
qed simp

text \<open>What a tenant is served depends on its own prompts only.\<close>

lemma render_registry:
  assumes "\<forall>pid. prompt_lookup reg' t pid = prompt_lookup reg t pid"
  shows "render_with_cohort show_json reg' t reference vars missing key = render_with_cohort show_json reg t reference vars missing key"
proof -
  define ctx where "ctx = \<lparr>rc_registry = reg, rc_tenant_id = t, rc_vars = vars, rc_missing = missing, rc_compact = show_json\<rparr>"
  have ctx': "\<lparr>rc_registry = reg', rc_tenant_id = t, rc_vars = vars, rc_missing = missing, rc_compact = show_json\<rparr> = ctx\<lparr>rc_registry := reg'\<rparr>"
    by (simp add: ctx_def)
  have "resolve_with_cohort reg' t reference key = resolve_with_cohort reg t reference key"
    using assms by (simp add: resolve_with_cohort_def)
  moreover have "render_nodes (ctx\<lparr>rc_registry := reg'\<rparr>) nodes declared stack depth st = render_nodes ctx nodes declared stack depth st"
    for nodes declared stack depth st
    using assms by (intro render_nodes_registry) (simp add: ctx_def)
  ultimately show ?thesis unfolding render_with_cohort_def ctx' ctx_def [symmetric] Let_def by simp
qed

lemma tenant_prompts_insert: "tenant_prompts (shard_insert t m reg) t' = (if t' = t then m else tenant_prompts reg t')"
  by (simp add: tenant_prompts_def)

text \<open>A record is loaded into its tenant's prompts, whatever else the registry holds.\<close>

lemma load_prompt_local:
  assumes "load_prompt bounds reg rec = Inr reg'"
  shows "tenant_prompts reg' t =
    (if pr_tenant_id rec = t
     then case load_prompt bounds [(t, tenant_prompts reg t)] rec of Inr one \<Rightarrow> tenant_prompts one t | Inl _ \<Rightarrow> []
     else tenant_prompts reg t)"
proof (cases "pr_tenant_id rec = t")
  case True
  have same: "tenant_prompts [(t, tenant_prompts reg t)] t = tenant_prompts reg t" by (simp add: tenant_prompts_def)
  have "\<exists>m. reg' = shard_insert t m reg \<and> load_prompt bounds [(t, tenant_prompts reg t)] rec = Inr (shard_insert t m [(t, tenant_prompts reg t)])"
    using assms unfolding load_prompt_def Let_def True same and_then_Inr ensure_Inr sum.inject by blast
  then show ?thesis using True by (auto simp: tenant_prompts_insert)
next
  case False
  obtain p where "reg' = shard_insert (pr_tenant_id rec) (shard_insert (pr_id rec) p (tenant_prompts reg (pr_tenant_id rec))) reg"
    using load_prompt_Inr [OF assms] by metis
  then show ?thesis using False by (simp add: tenant_prompts_insert)
qed

fun load_tenant :: "prompt_bounds \<Rightarrow> string \<Rightarrow> (string, stored_prompt) entries \<Rightarrow> prompt_record list \<Rightarrow> (string, stored_prompt) entries" where
  "load_tenant bounds t m [] = m"
| "load_tenant bounds t m (rec # recs) =
     load_tenant bounds t (case load_prompt bounds [(t, m)] rec of Inr one \<Rightarrow> tenant_prompts one t | Inl _ \<Rightarrow> []) recs"

lemma load_records_local:
  "try_fold (load_prompt bounds) reg recs = Inr reg' \<Longrightarrow>
    tenant_prompts reg' t = load_tenant bounds t (tenant_prompts reg t) (filter (\<lambda>rec. pr_tenant_id rec = t) recs)"
proof (induction recs arbitrary: reg)
  case (Cons rec recs)
  then obtain reg1 where "load_prompt bounds reg rec = Inr reg1" "try_fold (load_prompt bounds) reg1 recs = Inr reg'"
    by (auto simp: and_then_Inr)
  then show ?case using Cons.IH [of reg1] load_prompt_local [of bounds reg rec reg1 t] by simp
qed simp

lemma same_tenant_records:
  assumes "load_records bounds recs = Inr reg" and "load_records bounds recs' = Inr reg'"
    and "filter (\<lambda>rec. pr_tenant_id rec = t) recs' = filter (\<lambda>rec. pr_tenant_id rec = t) recs"
  shows "prompt_lookup reg' t pid = prompt_lookup reg t pid"
  using assms load_records_local [of bounds "[]" recs reg t] load_records_local [of bounds "[]" recs' reg' t]
  by (simp add: load_records_def prompt_lookup_tenant)

text \<open>A render that succeeds is within the caps, and its text is the meaning of the template.\<close>

lemma render_Inr:
  "render_with_cohort show_json reg t reference vars missing key = Inr out \<longleftrightarrow>
    (\<exists>r k text. resolve_with_cohort reg t reference key = Inr r \<and>
       meaning \<lparr>rc_registry = reg, rc_tenant_id = t, rc_vars = vars, rc_missing = missing, rc_compact = show_json\<rparr>
         (ve_nodes (rs_version r)) (ve_declared (rs_version r)) [rs_prompt_id r] 0 = Some (k, text) \<and>
       k \<le> MAX_PARTIAL_EXPANSIONS \<and> length text \<le> MAX_RENDER_OUTPUT_BYTES \<and>
       out = \<lparr>rd_prompt_id = rs_prompt_id r, rd_version = rs_version_number r, rd_label = rs_label r, rd_variant = rs_variant r,
         rd_model = (case Option.bind (served_variant r) va_model of Some m \<Rightarrow> Some m | None \<Rightarrow> ve_default_model (rs_version r)),
         rd_params = merge_params (ve_default_params (rs_version r)) (Option.bind (served_variant r) va_params),
         rd_text = text\<rparr>)"
  (is "?lhs \<longleftrightarrow> ?rhs")
proof -
  have fits: "fits (0, [])" by (simp add: fits_def)
  show ?thesis
    unfolding render_with_cohort_def Let_def and_then_Inr render_steps [OF fits] check_output_cap_Inr sum.inject
    by (auto simp: steps_to_def fits_def)
qed

section \<open>An example\<close>

definition demo_template :: "string \<Rightarrow> version_record" where
  "demo_template tpl = \<lparr>vr_version = 1, vr_template = tpl, vr_variables = [], vr_default_model = Some ''m'', vr_default_params = None\<rparr>"

definition demo_record :: "string \<Rightarrow> string \<Rightarrow> string \<Rightarrow> prompt_record" where
  "demo_record t pid tpl =
     \<lparr>pr_tenant_id = t, pr_id = pid, pr_name = pid, pr_description = None, pr_latest_version = None,
      pr_labels = [(''prod'', 1)], pr_experiments = None, pr_variants = [], pr_versions = [demo_template tpl]\<rparr>"

definition demo_records :: "prompt_record list" where
  "demo_records = [demo_record ''t'' ''g'' ''Hi {{n}}{{>s}}'', demo_record ''u'' ''s'' ''?'', demo_record ''t'' ''s'' ''!'']"

definition demo_prompt :: "string \<Rightarrow> string \<Rightarrow> template_node list \<Rightarrow> stored_prompt" where
  "demo_prompt pid tpl nodes =
     \<lparr>sp_id = pid, sp_name = pid, sp_description = None, sp_latest_version = 1, sp_labels = [(''prod'', 1)], sp_variants = [],
      sp_versions = [(1, \<lparr>ve_version = 1, ve_template = tpl, ve_variables = [], ve_default_model = Some ''m'',
        ve_default_params = None, ve_nodes = nodes, ve_declared = []\<rparr>)]\<rparr>"

definition demo_prompts :: prompt_registry where
  "demo_prompts =
     [(''t'', [(''s'', demo_prompt ''s'' ''!'' [NText ''!'']),
               (''g'', demo_prompt ''g'' ''Hi {{n}}{{>s}}'' [NText ''Hi '', NVar ''n'', NPartial ''s''])]),
      (''u'', [(''s'', demo_prompt ''s'' ''?'' [NText ''?''])])]"

lemma demo_parse: "parse_template ''Hi {{n}}{{>s}}'' = Inr [NText ''Hi '', NVar ''n'', NPartial ''s'']"
  using printed_template [of "[NText ''Hi '', NVar ''n'', NPartial ''s'']"]
  by (simp add: tree_source_def printable_name_def name_ok_def trim_visible visible_def contains_def)

lemma demo_parse_text: "parse_template ''!'' = Inr [NText ''!'']" "parse_template ''?'' = Inr [NText ''?'']"
  using printed_template [of "[NText ''!'']"] printed_template [of "[NText ''?'']"]
  by (simp_all add: tree_source_def contains_def)

lemma demo_loaded: "load_records default_bounds demo_records = Inr demo_prompts"
  unfolding demo_records_def demo_record_def demo_template_def demo_prompts_def demo_prompt_def
  by (simp add: Let_def load_records_def load_prompt_def load_version_def check_label_def latest_of_def demo_parse demo_parse_text
      default_bounds_def shard_insert_def shard_remove_def tenant_prompts_def MAX_VARIANTS_def)

lemma demo_references: "parse_reference ''g@prod'' = (''g'', LabelSel ''prod'')" "parse_reference ''s'' = (''s'', Latest)"
  by (simp_all add: parse_reference_def strip_prefix_def)

lemma demo_lookup:
  "prompt_lookup demo_prompts ''t'' ''g'' = Some (demo_prompt ''g'' ''Hi {{n}}{{>s}}'' [NText ''Hi '', NVar ''n'', NPartial ''s''])"
  "prompt_lookup demo_prompts ''t'' ''s'' = Some (demo_prompt ''s'' ''!'' [NText ''!''])"
  by (simp_all add: prompt_lookup_def demo_prompts_def)

lemma demo_render:
  "render_with_cohort (\<lambda>_. []) demo_prompts ''t'' ''g@prod'' [(''n'', VString ''Bo'')] ErrorPolicy key =
    Inr \<lparr>rd_prompt_id = ''g'', rd_version = 1, rd_label = Some ''prod'', rd_variant = None, rd_model = Some ''m'', rd_params = None,
      rd_text = ''Hi Bo!''\<rparr>"
  by (simp add: render_with_cohort_def resolve_with_cohort_def demo_references demo_lookup demo_prompt_def select_version_def
      emit_def check_output_cap_def render_var_def open_partial_def resolve_def assign_variant_def value_to_string_def
      MAX_RENDER_OUTPUT_BYTES_def MAX_PARTIAL_DEPTH_def MAX_PARTIAL_EXPANSIONS_def served_variant_def merge_params_def)

section \<open>Properties\<close>

lemma prompt_tenant_isolation_parts:
  assumes "load_records bounds recs = Inr reg" and "load_records bounds recs' = Inr reg'"
    and "filter (\<lambda>rec. pr_tenant_id rec = t) recs' = filter (\<lambda>rec. pr_tenant_id rec = t) recs"
  shows "render_with_cohort show_json reg' t reference vars missing key = render_with_cohort show_json reg t reference vars missing key"
    and "resolve_with_cohort reg' t reference key = resolve_with_cohort reg t reference key"
proof -
  note same = same_tenant_records [OF assms]
  show "render_with_cohort show_json reg' t reference vars missing key = render_with_cohort show_json reg t reference vars missing key"
    by (rule render_registry) (simp add: same)
  show "resolve_with_cohort reg' t reference key = resolve_with_cohort reg t reference key"
    by (simp add: resolve_with_cohort_def same)
qed

text \<open>
  C19. What a tenant is served depends on its own records only. Two registry files with the same records of a tenant, among any records of others, render every reference of that tenant to the same result, whatever partials it includes, errors included.
\<close>

theorem prompt_tenant_isolation:
  assumes "load_records bounds recs = Inr reg" and "load_records bounds recs' = Inr reg'"
    and "filter (\<lambda>rec. pr_tenant_id rec = t) recs' = filter (\<lambda>rec. pr_tenant_id rec = t) recs"
  shows "(render_with_cohort show_json reg' t reference vars missing key = render_with_cohort show_json reg t reference vars missing key) \<and>
   (resolve_with_cohort reg' t reference key = resolve_with_cohort reg t reference key)"
  by ((rule conjI, rule prompt_tenant_isolation_parts(1) [OF assms]),
      (rule prompt_tenant_isolation_parts(2) [OF assms]))

theorem prompt_tenant_isolation_witness:
  "\<exists>reg. load_records default_bounds [demo_record ''t'' ''g'' ''Hi {{n}}{{>s}}'', demo_record ''t'' ''s'' ''!''] = Inr reg \<and>
    render_with_cohort (\<lambda>_. []) reg ''t'' ''g@prod'' [(''n'', VString ''Bo'')] ErrorPolicy None =
    render_with_cohort (\<lambda>_. []) demo_prompts ''t'' ''g@prod'' [(''n'', VString ''Bo'')] ErrorPolicy None"
proof -
  have "\<exists>reg. load_records default_bounds [demo_record ''t'' ''g'' ''Hi {{n}}{{>s}}'', demo_record ''t'' ''s'' ''!''] = Inr reg"
    by (simp add: Let_def demo_record_def demo_template_def load_records_def load_prompt_def load_version_def check_label_def latest_of_def
        demo_parse demo_parse_text default_bounds_def shard_insert_def shard_remove_def tenant_prompts_def MAX_VARIANTS_def)
  then obtain reg where
    reg: "load_records default_bounds [demo_record ''t'' ''g'' ''Hi {{n}}{{>s}}'', demo_record ''t'' ''s'' ''!''] = Inr reg" ..
  have "filter (\<lambda>rec. pr_tenant_id rec = ''t'') [demo_record ''t'' ''g'' ''Hi {{n}}{{>s}}'', demo_record ''t'' ''s'' ''!''] =
      filter (\<lambda>rec. pr_tenant_id rec = ''t'') demo_records"
    by (simp add: demo_records_def demo_record_def)
  then show ?thesis using prompt_tenant_isolation [THEN conjunct1, OF demo_loaded reg] reg by blast
qed

text \<open>
  C20. The renderer, which appends to one buffer and counts the partials of the whole render against its caps, computes the compositional meaning of the template. A render of a loaded registry succeeds exactly when the reference resolves, the template it parses has a meaning (every variable without a value may be left out, every partial resolves, none repeats a prompt on the way to it and none is nested deeper than three), the meaning includes at most 64 partials and its text has at most 256 KiB; the text rendered is that meaning, with the model and the parameters of the served variant over those of the version.
\<close>

theorem prompt_render_meaning:
  assumes "load_records bounds recs = Inr reg"
  shows "render_with_cohort show_json reg t reference vars missing key = Inr out \<longleftrightarrow>
    (\<exists>r nodes k text. resolve_with_cohort reg t reference key = Inr r \<and> parse_template (ve_template (rs_version r)) = Inr nodes \<and>
       meaning \<lparr>rc_registry = reg, rc_tenant_id = t, rc_vars = vars, rc_missing = missing, rc_compact = show_json\<rparr>
         nodes (ve_declared (rs_version r)) [fst (parse_reference reference)] 0 = Some (k, text) \<and>
       k \<le> 64 \<and> length text \<le> 256 * 1024 \<and>
       out = \<lparr>rd_prompt_id = fst (parse_reference reference), rd_version = rs_version_number r, rd_label = rs_label r, rd_variant = rs_variant r,
         rd_model = (case Option.bind (served_variant r) va_model of Some m \<Rightarrow> Some m | None \<Rightarrow> ve_default_model (rs_version r)),
         rd_params = merge_params (ve_default_params (rs_version r)) (Option.bind (served_variant r) va_params),
         rd_text = text\<rparr>)"
proof -
  have ok: "prompts_ok bounds reg" using load_records_Inr [OF assms] by blast
  have r: "parse_template (ve_template (rs_version r)) = Inr nodes \<longleftrightarrow> nodes = ve_nodes (rs_version r)"
    "rs_prompt_id r = fst (parse_reference reference)" if "resolve_with_cohort reg t reference key = Inr r" for r nodes
    using resolved_version [OF ok that] by (auto simp: version_ok_def)
  show ?thesis
    unfolding render_Inr MAX_PARTIAL_EXPANSIONS_def MAX_RENDER_OUTPUT_BYTES_def by (auto simp: r)
qed

theorem prompt_render_meaning_witness:
  "\<exists>r nodes k. resolve_with_cohort demo_prompts ''t'' ''g@prod'' None = Inr r \<and> parse_template (ve_template (rs_version r)) = Inr nodes \<and>
    meaning \<lparr>rc_registry = demo_prompts, rc_tenant_id = ''t'', rc_vars = [(''n'', VString ''Bo'')], rc_missing = ErrorPolicy, rc_compact = \<lambda>_. []\<rparr>
      nodes (ve_declared (rs_version r)) [''g''] 0 = Some (k, ''Hi Bo!'') \<and> k \<le> 64"
  using iffD1 [OF prompt_render_meaning [OF demo_loaded] demo_render [where key = None]] unfolding demo_references(1) fst_conv
  by auto

text \<open>
  C21. What an accepted registry file establishes. Every tenant holds at most the allowed number of prompts, each under its own id; every version has a positive number, its template and variables are within the bounds and its nodes are those its template parses to; the latest version, every label and every variant point to a version that exists; variant labels are distinct, sane and no labels of the prompt, and a split has weight. The prompts are exactly the records of the file, with their fields, and none is lost.
\<close>

theorem prompt_loading:
  assumes "load_records bounds recs = Inr reg"
  shows "prompts_ok bounds reg \<and> holds_records recs reg \<and> prompt_count reg = length recs"
  by (rule load_records_Inr [OF assms])

theorem prompt_loading_witness:
  "prompts_ok default_bounds demo_prompts \<and> holds_records demo_records demo_prompts \<and> prompt_count demo_prompts = length demo_records"
  by (rule prompt_loading [OF demo_loaded])

lemma prompt_resolution_parts:
  assumes "load_records bounds recs = Inr reg"
  shows "resolve_with_cohort reg t reference key = Inl e \<longleftrightarrow>
      (case prompt_lookup reg t (fst (parse_reference reference)) of
         None \<Rightarrow> e = PromptNotFound reference
       | Some p \<Rightarrow> e = VersionNotFound reference \<and>
           (case snd (parse_reference reference) of
              Latest \<Rightarrow> False
            | LabelSel l \<Rightarrow> map_of (sp_labels p) l = None
            | VersionSel n \<Rightarrow> map_of (sp_versions p) n = None))"
    and "resolve_with_cohort reg t reference key = Inr r \<Longrightarrow>
      prompt_lookup reg t (rs_prompt_id r) = Some (rs_prompt r) \<and> rs_prompt_id r = fst (parse_reference reference) \<and>
      map_of (sp_versions (rs_prompt r)) (rs_version_number r) = Some (rs_version r) \<and>
      version_ok bounds (rs_version_number r) (rs_version r)"
    and "snd (parse_reference reference) \<noteq> Latest \<or>
        (\<exists>p. prompt_lookup reg t (fst (parse_reference reference)) = Some p \<and> sp_variants p = []) \<Longrightarrow>
      resolve_with_cohort reg t reference key = resolve reg t reference"
proof -
  have ok: "prompts_ok bounds reg" using load_records_Inr [OF assms] by blast
  show "resolve_with_cohort reg t reference key = Inl e \<longleftrightarrow>
      (case prompt_lookup reg t (fst (parse_reference reference)) of
         None \<Rightarrow> e = PromptNotFound reference
       | Some p \<Rightarrow> e = VersionNotFound reference \<and>
           (case snd (parse_reference reference) of
              Latest \<Rightarrow> False
            | LabelSel l \<Rightarrow> map_of (sp_labels p) l = None
            | VersionSel n \<Rightarrow> map_of (sp_versions p) n = None))"
    by (rule resolve_Inl [OF ok])
  show "prompt_lookup reg t (rs_prompt_id r) = Some (rs_prompt r) \<and> rs_prompt_id r = fst (parse_reference reference) \<and>
      map_of (sp_versions (rs_prompt r)) (rs_version_number r) = Some (rs_version r) \<and>
      version_ok bounds (rs_version_number r) (rs_version r)"
    if r: "resolve_with_cohort reg t reference key = Inr r"
    using resolve_Inr(1,2) [OF r] resolved_version [OF ok r] by simp
  show "resolve_with_cohort reg t reference key = resolve reg t reference"
    if "snd (parse_reference reference) \<noteq> Latest \<or>
      (\<exists>p. prompt_lookup reg t (fst (parse_reference reference)) = Some p \<and> sp_variants p = [])"
    by (rule resolve_cohort_free) (use that in auto)
qed

text \<open>
  C25. Resolution in a loaded registry never finds a dangling pointer. A reference fails only when the tenant has no prompt of that id, or when an explicit label or version is not there; a bare reference to a prompt of the tenant always resolves. What is resolved is a checked version of that tenant's prompt, and an explicit label or version, or a prompt without variants, gives every cohort the same.
\<close>

theorem prompt_resolution:
  assumes "load_records bounds recs = Inr reg"
  shows "(resolve_with_cohort reg t reference key = Inl e \<longleftrightarrow>
      (case prompt_lookup reg t (fst (parse_reference reference)) of
         None \<Rightarrow> e = PromptNotFound reference
       | Some p \<Rightarrow> e = VersionNotFound reference \<and>
           (case snd (parse_reference reference) of
              Latest \<Rightarrow> False
            | LabelSel l \<Rightarrow> map_of (sp_labels p) l = None
            | VersionSel n \<Rightarrow> map_of (sp_versions p) n = None))) \<and>
   ((resolve_with_cohort reg t reference key = Inr r) \<longrightarrow> prompt_lookup reg t (rs_prompt_id r) = Some (rs_prompt r) \<and> rs_prompt_id r = fst (parse_reference reference) \<and>
      map_of (sp_versions (rs_prompt r)) (rs_version_number r) = Some (rs_version r) \<and>
      version_ok bounds (rs_version_number r) (rs_version r)) \<and>
   ((snd (parse_reference reference) \<noteq> Latest \<or>
        (\<exists>p. prompt_lookup reg t (fst (parse_reference reference)) = Some p \<and> sp_variants p = [])) \<longrightarrow> resolve_with_cohort reg t reference key = resolve reg t reference)"
  by ((rule conjI, rule prompt_resolution_parts(1) [OF assms]),
      (rule conjI, rule impI, rule prompt_resolution_parts(2) [OF assms], assumption),
      (rule impI, rule prompt_resolution_parts(3) [OF assms], assumption))

theorem prompt_resolution_witness:
  "(resolve_with_cohort demo_prompts ''t'' ''g@prod'' (Some ''k'') = resolve demo_prompts ''t'' ''g@prod'') \<and>
    (\<forall>e. resolve_with_cohort demo_prompts ''t'' ''s'' (Some ''k'') \<noteq> Inl e) \<and>
    (\<exists>r. resolve_with_cohort demo_prompts ''t'' ''s'' (Some ''k'') = Inr r \<and> version_ok default_bounds (rs_version_number r) (rs_version r))"
proof -
  have 1: "resolve_with_cohort demo_prompts ''t'' ''g@prod'' (Some ''k'') = resolve demo_prompts ''t'' ''g@prod''"
    by (rule prompt_resolution [THEN conjunct2, THEN conjunct2, THEN mp, OF demo_loaded]) (simp add: demo_references)
  have 2: "resolve_with_cohort demo_prompts ''t'' ''s'' (Some ''k'') \<noteq> Inl e" for e
    unfolding prompt_resolution [THEN conjunct1, OF demo_loaded] by (simp add: demo_references demo_lookup)
  then obtain r where "resolve_with_cohort demo_prompts ''t'' ''s'' (Some ''k'') = Inr r"
    by (cases "resolve_with_cohort demo_prompts ''t'' ''s'' (Some ''k'')") auto
  then show ?thesis using 1 2 prompt_resolution [THEN conjunct2, THEN conjunct1, THEN mp, OF demo_loaded] by blast
qed

subsection \<open>Further facts\<close>

text \<open>
  No reference resolves a prompt whose id holds an at sign, although such a prompt loads.
\<close>

lemma unreachable_prompts:
  assumes "load_records bounds recs = Inr reg" and "resolve_with_cohort reg t reference key = Inr r"
  shows "CHR ''@'' \<notin> set (rs_prompt_id r)"
  using resolved_version(2) [OF _ assms(2)] load_records_Inr [OF assms(1)] reference_id [of reference] by auto

end
