(* ===== verification/Prompt_Api.thy ===== *)
theory Prompt_Api
  imports Prompt_Loading Response_Cache
begin

text \<open>
  The routes of \<^verbatim>\<open>crates/routeplane/src/prompts_api.rs\<close>: a stored version, a render, and a completion,
  which binds the rendered prompt to a chat request. Decoding of the bodies and of the bound request
  and the compact JSON text of a value are parameters; the chat pipeline is where \<open>RunChat\<close> leads.
\<close>

section \<open>Answers\<close>

datatype 'r prompt_answer =
  Reply u16 json "(string \<times> string) list"
| RunChat 'r

definition json_object :: "(string \<times> json) list \<Rightarrow> json" where
  "json_object members = VObject (foldl (\<lambda>m (k, v). obj_insert k v m) [] members)"

definition json_str :: "string option \<Rightarrow> json" where
  "json_str s = (case s of Some s \<Rightarrow> VString s | None \<Rightarrow> VNull)"

definition json_or_null :: "json option \<Rightarrow> json" where
  "json_or_null v = (case v of Some v \<Rightarrow> v | None \<Rightarrow> VNull)"

definition json_u32 :: "u32 \<Rightarrow> json" where
  "json_u32 n = VNumber (PosInt (ucast n))"

definition openai_error :: "u16 \<Rightarrow> string \<Rightarrow> string \<Rightarrow> string \<Rightarrow> string option \<Rightarrow> 'r prompt_answer" where
  "openai_error status err_type code message param =
     Reply status
       (json_object [(''error'', json_object
          [(''message'', VString message), (''type'', VString err_type), (''code'', VString code), (''param'', json_str param)])]) []"

definition prompt_error_response :: "prompt_error \<Rightarrow> 'r prompt_answer" where
  "prompt_error_response e =
     openai_error (prompt_error_status e) ''invalid_request_error'' (error_code e) (error_message e) (error_param e)"

definition enterprise_only :: "string \<Rightarrow> 'r prompt_answer" where
  "enterprise_only endpoint =
     Reply 402
       (json_object [(''error'', json_object
          [(''message'', VString (endpoint @ '' is a Routeplane Enterprise feature and is not available in the '' @
              ''Community Edition. Learn more at https://routeplane.ai.'')),
           (''type'', VString ''invalid_request_error''), (''param'', VNull), (''code'', VString ''enterprise_only'')])])
       [(''x-routeplane-upgrade'', ''https://routeplane.ai'')]"

text \<open>The flag is the build: enterprise or community.\<close>

definition entitlement_gate :: "bool \<Rightarrow> tenant_context \<Rightarrow> 'r prompt_answer option" where
  "entitlement_gate enterprise ctx =
     (if active_feature (tc_capabilities ctx) PromptRegistry then None
      else
        let entitled_by_baseline = PromptRegistry \<in> tier_baseline (tc_tier ctx)
        in Some (if entitled_by_baseline
             then openai_error 403 ''invalid_request_error'' ''feature_not_released''
               ''Prompt registry is entitled for this tenant but not yet released (rollout holdback).'' None
             else if \<not> enterprise then enterprise_only ''/v1/prompts''
             else openai_error 403 ''invalid_request_error'' ''feature_not_entitled''
               ''Prompt registry requires the Standard tier or above.'' None))"

section \<open>Cohorts\<close>

definition cohort_text :: "string option \<Rightarrow> string option" where
  "cohort_text s = (case map_option trim s of Some t \<Rightarrow> if t \<noteq> [] then Some t else None | None \<Rightarrow> None)"

definition cohort_from_header :: "string option \<Rightarrow> string option" where
  "cohort_from_header header = cohort_text (Option.bind header header_to_str)"

definition cohort_from_overrides :: "json_map \<Rightarrow> string option" where
  "cohort_from_overrides overrides = cohort_text (Option.bind (obj_get overrides ''user'') as_str)"

section \<open>The routes\<close>

record prompt_event =
  ev_resource_tenant_id :: "string option"
  ev_tenant_id :: string
  ev_virtual_key_name :: string
  ev_model :: string
  ev_prompt_id :: string
  ev_prompt_version :: u32
  ev_prompt_label :: "string option"
  ev_prompt_variant :: "string option"

definition prompt_event_of :: "tenant_context \<Rightarrow> virtual_key \<Rightarrow> rendered \<Rightarrow> string \<Rightarrow> prompt_event" where
  "prompt_event_of ctx vk out model =
     \<lparr>ev_resource_tenant_id = tc_resource_tenant_id ctx, ev_tenant_id = tc_tenant_id ctx, ev_virtual_key_name = vk_name vk,
      ev_model = model, ev_prompt_id = rd_prompt_id out, ev_prompt_version = rd_version out, ev_prompt_label = rd_label out,
      ev_prompt_variant = rd_variant out\<rparr>"

definition variable_json :: "prompt_variable \<Rightarrow> json" where
  "variable_json x = json_object [(''name'', VString (va_name x)), (''required'', VBool (va_required x))]"

definition get_prompt :: "bool \<Rightarrow> prompt_registry \<Rightarrow> tenant_context \<Rightarrow> string \<Rightarrow> 'r prompt_answer" where
  "get_prompt enterprise reg ctx reference =
     (case entitlement_gate enterprise ctx of
        Some resp \<Rightarrow> resp
      | None \<Rightarrow>
          (case resolve reg (tc_tenant_id ctx) reference of
             Inl e \<Rightarrow> prompt_error_response e
           | Inr r \<Rightarrow>
               Reply 200
                 (json_object
                   [(''id'', VString (sp_id (rs_prompt r))), (''name'', VString (sp_name (rs_prompt r))),
                    (''description'', json_str (sp_description (rs_prompt r))),
                    (''latest_version'', json_u32 (sp_latest_version (rs_prompt r))),
                    (''version'', json_u32 (rs_version_number r)), (''label'', json_str (rs_label r)),
                    (''template'', VString (ve_template (rs_version r))),
                    (''variables'', VArray (map variable_json (ve_variables (rs_version r)))),
                    (''default_model'', json_str (ve_default_model (rs_version r))),
                    (''default_params'', json_or_null (ve_default_params (rs_version r)))]) []))"

definition user_message :: "string \<Rightarrow> json" where
  "user_message txt = VArray [json_object [(''role'', VString ''user''), (''content'', VString txt)]]"

record render_body =
  rb_variables :: "(string \<times> json) list"
  rb_missing :: missing_policy

definition render_prompt ::
  "bool \<Rightarrow> (json \<Rightarrow> string) \<Rightarrow> prompt_registry \<Rightarrow> virtual_key \<Rightarrow> tenant_context \<Rightarrow> string \<Rightarrow> string option \<Rightarrow> render_body
     \<Rightarrow> 'r prompt_answer \<times> prompt_event list" where
  "render_prompt enterprise show_json reg vk ctx reference cohort_header body =
     (case entitlement_gate enterprise ctx of
        Some resp \<Rightarrow> (resp, [])
      | None \<Rightarrow>
          let cohort = cohort_from_header cohort_header in
          (case render_with_cohort show_json reg (tc_tenant_id ctx) reference (rb_variables body) (rb_missing body) cohort of
             Inl e \<Rightarrow> (prompt_error_response e, [])
           | Inr out \<Rightarrow>
               (Reply 200
                  (json_object
                    [(''prompt_id'', VString (rd_prompt_id out)), (''version'', json_u32 (rd_version out)),
                     (''label'', json_str (rd_label out)), (''model'', json_str (rd_model out)),
                     (''params'', json_or_null (rd_params out)), (''messages'', user_message (rd_text out))]) [],
                [prompt_event_of ctx vk out (case rd_model out of Some m \<Rightarrow> m | None \<Rightarrow> [])])))"

record completions_body = render_body +
  cb_overrides :: json_map

text \<open>What the rendered prompt and the body bind, before the messages.\<close>

definition merged_members :: "rendered \<Rightarrow> json_map \<Rightarrow> json_map" where
  "merged_members out overrides =
     (let merged = (case rd_params out of
                      Some (VObject params) \<Rightarrow> foldl (\<lambda>m (k, v). obj_insert k v m) [] params
                    | _ \<Rightarrow> []);
          merged = (case rd_model out of Some model \<Rightarrow> obj_insert ''model'' (VString model) merged | None \<Rightarrow> merged)
      in foldl (\<lambda>m (k, v). obj_insert k v m) merged overrides)"

definition prompt_completions ::
  "bool \<Rightarrow> (json \<Rightarrow> string) \<Rightarrow> (json \<Rightarrow> string + ('m, 't) chat_request) \<Rightarrow> prompt_registry \<Rightarrow> virtual_key \<Rightarrow> tenant_context
     \<Rightarrow> string \<Rightarrow> string option \<Rightarrow> completions_body \<Rightarrow> ('m, 't) chat_request prompt_answer \<times> prompt_event list" where
  "prompt_completions enterprise show_json from_value reg vk ctx reference cohort_header body =
     (case entitlement_gate enterprise ctx of
        Some resp \<Rightarrow> (resp, [])
      | None \<Rightarrow>
          let cohort = (case cohort_from_header cohort_header of Some c \<Rightarrow> Some c | None \<Rightarrow> cohort_from_overrides (cb_overrides body)) in
          (case render_with_cohort show_json reg (tc_tenant_id ctx) reference (rb_variables body) (rb_missing body) cohort of
             Inl e \<Rightarrow> (prompt_error_response e, [])
           | Inr out \<Rightarrow>
               let merged = merged_members out (cb_overrides body) in
               if obj_get merged ''model'' = None
               then (openai_error 400 ''invalid_request_error'' ''prompt_render_failed''
                       (''No model resolved: the prompt version declares no default_model and the request supplied no '' @
                        ''model override.'') (Some ''model''), [])
               else
                 (case from_value (VObject (obj_insert ''messages'' (user_message (rd_text out)) merged)) of
                    Inl e \<Rightarrow> (openai_error 400 ''invalid_request_error'' ''prompt_render_failed''
                               (''Failed to bind the prompt to a chat request: '' @ e) None, [])
                  | Inr chat \<Rightarrow> (RunChat chat, [prompt_event_of ctx vk out (cr_model chat)]))))"

section \<open>What is bound\<close>

lemma obj_get_append: "obj_get (xs @ ys) j = (case obj_get xs j of Some v \<Rightarrow> Some v | None \<Rightarrow> obj_get ys j)"
  by (auto simp: obj_get_def map_add_def split: option.split)

lemma obj_get_merge: "obj_get (foldl (\<lambda>m (k, v). obj_insert k v m) m kvs) j = (case obj_get (rev kvs) j of Some v \<Rightarrow> Some v | None \<Rightarrow> obj_get m j)"
proof (induction kvs arbitrary: m)
  case (Cons kv kvs)
  obtain k v where "kv = (k, v)" by (cases kv)
  then show ?case using Cons.IH [of "obj_insert k v m"] by (auto simp: obj_get_insert obj_get_append split: option.split)
qed simp

lemma obj_get_rev: "distinct (obj_keys kvs) \<Longrightarrow> obj_get (rev kvs) = obj_get kvs"
  unfolding obj_get_def obj_keys_def fun_eq_iff [symmetric]
  by (intro map_of_inject_set [THEN iffD2]) (simp_all add: rev_map [symmetric])

text \<open>The members of the parameters of a prompt.\<close>

definition param_members :: "rendered \<Rightarrow> json_map" where
  "param_members out = (case rd_params out of Some (VObject params) \<Rightarrow> params | _ \<Rightarrow> [])"

lemma obj_get_merged:
  assumes "distinct (obj_keys overrides)" and "distinct (obj_keys (param_members out))"
  shows "obj_get (merged_members out overrides) k =
    (case obj_get overrides k of
       Some v \<Rightarrow> Some v
     | None \<Rightarrow> if k = ''model'' \<and> rd_model out \<noteq> None then Some (VString (the (rd_model out))) else obj_get (param_members out) k)"
proof -
  have "(case rd_params out of Some (VObject params) \<Rightarrow> foldl (\<lambda>m (k, v). obj_insert k v m) [] params | _ \<Rightarrow> []) =
      foldl (\<lambda>m (k, v). obj_insert k v m) [] (param_members out)"
    by (auto simp: param_members_def split: option.split json.split)
  then show ?thesis
    using assms by (auto simp: merged_members_def Let_def obj_get_merge obj_get_insert obj_get_rev split: option.split)
qed

lemma gate_open: "entitlement_gate enterprise ctx = None \<longleftrightarrow> active_feature (tc_capabilities ctx) PromptRegistry"
  by (simp add: entitlement_gate_def Let_def)

lemma gate_refuses: "entitlement_gate enterprise ctx \<noteq> Some (RunChat chat)"
  by (simp add: entitlement_gate_def Let_def openai_error_def enterprise_only_def)

text \<open>When a completion reaches the chat pipeline.\<close>

lemma completions_run:
  "prompt_completions enterprise show_json from_value reg vk ctx reference header body = (RunChat chat, events) \<longleftrightarrow>
    active_feature (tc_capabilities ctx) PromptRegistry \<and>
    (\<exists>out. render_with_cohort show_json reg (tc_tenant_id ctx) reference (rb_variables body) (rb_missing body)
          (case cohort_from_header header of Some c \<Rightarrow> Some c | None \<Rightarrow> cohort_from_overrides (cb_overrides body)) = Inr out \<and>
        obj_get (merged_members out (cb_overrides body)) ''model'' \<noteq> None \<and>
        from_value (VObject (obj_insert ''messages'' (user_message (rd_text out)) (merged_members out (cb_overrides body)))) = Inr chat \<and>
        events = [prompt_event_of ctx vk out (cr_model chat)])"
proof (cases "entitlement_gate enterprise ctx :: ('a, 'b) chat_request prompt_answer option")
  case (Some resp)
  then have "resp \<noteq> RunChat chat" using gate_refuses [of enterprise ctx chat] by simp
  then show ?thesis using Some gate_open [of enterprise ctx, where ?'a = "('a, 'b) chat_request"] by (simp add: prompt_completions_def)
next
  case None
  define cohort where "cohort = (case cohort_from_header header of Some c \<Rightarrow> Some c | None \<Rightarrow> cohort_from_overrides (cb_overrides body))"
  show ?thesis
    using None gate_open [of enterprise ctx, where ?'a = "('a, 'b) chat_request"]
    unfolding prompt_completions_def Let_def cohort_def [symmetric]
    by (auto simp: prompt_error_response_def openai_error_def split: sum.splits)
qed

section \<open>An example\<close>

definition demo_prompt_ctx :: tenant_context where
  "demo_prompt_ctx =
     \<lparr>tc_tenant_id = ''t'', tc_resource_tenant_id = None, tc_tier = Standard,
      tc_capabilities = capability_resolve Standard {} {}, tc_compliance_frameworks = [], tc_compliance_mode = Warn\<rparr>"

definition demo_body :: completions_body where
  "demo_body =
     \<lparr>rb_variables = [(''n'', VString ''Bo'')], rb_missing = ErrorPolicy,
      cb_overrides = [(''messages'', VNull), (''user'', VString ''k'')]\<rparr>"

lemma demo_completion:
  "prompt_completions True (\<lambda>_. []) (\<lambda>_. Inr demo_payload) demo_prompts demo_key demo_prompt_ctx ''g@prod'' None demo_body =
    (RunChat demo_payload, [\<lparr>ev_resource_tenant_id = None, ev_tenant_id = ''t'', ev_virtual_key_name = vk_name demo_key,
      ev_model = cr_model demo_payload, ev_prompt_id = ''g'', ev_prompt_version = 1, ev_prompt_label = Some ''prod'', ev_prompt_variant = None\<rparr>])"
  unfolding completions_run
  by (simp add: demo_prompt_ctx_def demo_body_def demo_render merged_members_def obj_get_insert prompt_event_of_def
      active_feature_def capability_resolve_def Let_def)

section \<open>Properties\<close>

text \<open>
  C22. A prompt completion reaches the chat pipeline only for a tenant whose prompt registry is active, and with the prompt of that tenant rendered for the cohort of the header or else of the user field. The request it is bound to has the rendered text as its only message, whatever the body says; every other member is the body's, or else the model of the prompt, or else that of its parameters. There is a model, and one event is recorded, with the version and variant that were rendered.
\<close>

theorem prompt_binding:
  assumes "prompt_completions enterprise show_json from_value reg vk ctx reference header body = (RunChat chat, events)"
    and "distinct (obj_keys (cb_overrides body))"
  shows "active_feature (tc_capabilities ctx) PromptRegistry \<and>
    (\<exists>out m. render_with_cohort show_json reg (tc_tenant_id ctx) reference (rb_variables body) (rb_missing body)
          (case cohort_from_header header of Some c \<Rightarrow> Some c | None \<Rightarrow> cohort_from_overrides (cb_overrides body)) = Inr out \<and>
       from_value (VObject m) = Inr chat \<and> obj_get m ''messages'' = Some (user_message (rd_text out)) \<and> obj_get m ''model'' \<noteq> None \<and>
       (distinct (obj_keys (param_members out)) \<longrightarrow>
         (\<forall>k. k \<noteq> ''messages'' \<longrightarrow> obj_get m k =
           (case obj_get (cb_overrides body) k of
              Some v \<Rightarrow> Some v
            | None \<Rightarrow> if k = ''model'' \<and> rd_model out \<noteq> None then Some (VString (the (rd_model out)))
                       else obj_get (param_members out) k))) \<and>
       events = [prompt_event_of ctx vk out (cr_model chat)])"
proof -
  obtain out where act: "active_feature (tc_capabilities ctx) PromptRegistry"
    and out: "render_with_cohort show_json reg (tc_tenant_id ctx) reference (rb_variables body) (rb_missing body)
          (case cohort_from_header header of Some c \<Rightarrow> Some c | None \<Rightarrow> cohort_from_overrides (cb_overrides body)) = Inr out"
    and model: "obj_get (merged_members out (cb_overrides body)) ''model'' \<noteq> None"
    and chat: "from_value (VObject (obj_insert ''messages'' (user_message (rd_text out)) (merged_members out (cb_overrides body)))) = Inr chat"
    and events: "events = [prompt_event_of ctx vk out (cr_model chat)]"
    using assms(1) unfolding completions_run by blast
  show ?thesis
    by (intro conjI act exI [of _ out] exI [of _ "obj_insert ''messages'' (user_message (rd_text out)) (merged_members out (cb_overrides body))"])
      (use out model chat events obj_get_merged [OF assms(2), of out] in \<open>simp_all add: obj_get_insert\<close>)
qed

theorem prompt_binding_witness:
  "\<exists>m. obj_get m ''messages'' = Some (user_message ''Hi Bo!'') \<and> obj_get m ''user'' = Some (VString ''k'') \<and>
    obj_get m ''model'' = Some (VString ''m'')"
proof -
  have d: "distinct (obj_keys (cb_overrides demo_body))" by (simp add: demo_body_def obj_keys_def)
  obtain out m where
    out: "render_with_cohort (\<lambda>_. []) demo_prompts (tc_tenant_id demo_prompt_ctx) ''g@prod'' (rb_variables demo_body) (rb_missing demo_body)
        (case cohort_from_header None of Some c \<Rightarrow> Some c | None \<Rightarrow> cohort_from_overrides (cb_overrides demo_body)) = Inr out"
    and msgs: "obj_get m ''messages'' = Some (user_message (rd_text out))"
    and rest: "distinct (obj_keys (param_members out)) \<longrightarrow>
         (\<forall>k. k \<noteq> ''messages'' \<longrightarrow> obj_get m k =
           (case obj_get (cb_overrides demo_body) k of
              Some v \<Rightarrow> Some v
            | None \<Rightarrow> if k = ''model'' \<and> rd_model out \<noteq> None then Some (VString (the (rd_model out)))
                       else obj_get (param_members out) k))"
    using prompt_binding [OF demo_completion d] by blast
  have o: "rd_text out = ''Hi Bo!''" "rd_model out = Some ''m''" "param_members out = []"
    using out demo_render by (auto simp: demo_body_def demo_prompt_ctx_def param_members_def)
  show ?thesis
    by (rule exI [of _ m]) (use msgs rest o in \<open>simp add: demo_body_def obj_keys_def\<close>)
qed

end
