(* ===== verification/Spec2Isabelle.thy ===== *)
theory Spec2Isabelle
  imports
    Routing Key_Cooldown Distributed Reconciler Auth_Failures Pricing Masker_Ids Residency
    Authentication Policy_Eval Custom_Providers Hedging Idempotency Response_Cache
    Prompt_Api
begin

text \<open>
  Routeplane is an LLM gateway: a request is authenticated, checked against rate limits and
  budgets, classified for personal data, routed to an upstream provider in the order that the
  strategy and the providers' health give, and metered. The development models the crates that
  hold this logic. Every definition is executable and follows one function, constant or type of
  the sources; a step that the code performs on an atomic is a step of the model.

  \<^bold>\<open>Shared layers.\<close> \<open>Prelude\<close>: \<^verbatim>\<open>u64\<close> values are 64-bit words, with the saturating and wrapping
  operators of Rust (the release profile has no overflow checks), \<^verbatim>\<open>i64\<close> values are integers
  wrapped by \<open>i64\<close>, and the packing of an epoch and a count in one word. \<open>Rust_Strings\<close>: the
  \<^verbatim>\<open>str\<close> operations on UTF-8 bytes. \<open>Cas_Cell\<close>: a compare-exchange loop as a state machine whose
  steps (load, attempt, retry) interleave with those of other threads; the locale \<open>cas_family\<close>
  proves once that every completed run of such loops is equal to some sequence of atomic updates.

  \<^bold>\<open>Router\<close> (\<^verbatim>\<open>crates/router/src/lib.rs\<close>, \<^verbatim>\<open>strategy.rs\<close>). \<open>Circuit_Breaker\<close>: one breaker, its three
  atomics as a record, its transitions. \<open>Health_Tracker\<close>: the registry of per-owner provider
  cells, latency average, probe cap and in-flight gauge; the locale \<open>cell_contract\<close> states what
  every tracker operation may change and is interpreted on all of them. \<open>Key_Cooldown\<close>: the
  per-key cooldown cells. \<open>Routing\<close>: candidate ordering for the six strategies with the
  generator of \<^verbatim>\<open>strategy.rs\<close>.

  \<^bold>\<open>Limits\<close> (\<^verbatim>\<open>crates/limits/src\<close>). \<open>Window_Counter\<close>: the packed counter words. \<open>Budget_Calendar\<close>: window
  boundaries, caps and replica shares. \<open>Limit_Scope\<close>: admission, settlement, advisories of one
  scope. \<open>Limit_Registry\<close>: the scopes of keys, tenants and models, reload, and a request's guard
  list. \<open>Reconciler\<close>: the locale \<open>limit_reconciler\<close> with its two providers. \<open>Distributed\<close>: the
  fleet-wide limiter over the locale \<open>shared_counter\<close>. \<open>Auth_Failures\<close>: the brute-force throttle.
  \<open>Pricing\<close>: prices, costs and display currencies.

  \<^bold>\<open>Personal data\<close> (\<^verbatim>\<open>crates/unicode\<close>, \<^verbatim>\<open>crates/residency\<close>, \<^verbatim>\<open>crates/guardrails/src/detect.rs\<close>).
  \<open>Unicode_Fold\<close>: the normalization before matching; \<open>Checksums\<close>: the locale \<open>check_chain\<close> of
  check-digit algorithms and the Verhoeff code; \<open>National_Ids\<close> and \<open>Masker_Ids\<close>: the two families
  of validators and their agreement; \<open>Residency\<close>: classification and the region lock.

  \<^bold>\<open>Access\<close> (\<^verbatim>\<open>crates/entitlements\<close>, \<^verbatim>\<open>crates/routeplane/src/auth.rs\<close>, \<^verbatim>\<open>console_accounts.rs\<close>,
  \<^verbatim>\<open>console_auth.rs\<close>). \<open>Entitlements\<close>: features, tiers, capability sets (the locale \<open>feature_provider\<close>) and
  the tenant lifecycle; \<open>Console_Accounts\<close>: the account store with its persist-then-swap mutations and
  the session check; \<open>Authentication\<close>: the virtual keys, the credential of a request and the
  middleware, which is shown to refine the throttle of \<open>Auth_Failures\<close>.

  \<^bold>\<open>Routing policies\<close> (\<^verbatim>\<open>crates/policy/src/lib.rs\<close>). \<open>Json\<close>: the \<^verbatim>\<open>?\<close> operator on results and JSON values.
  \<open>Policy_Config\<close>: the parser of routing configurations, with the well-formedness it establishes;
  \<open>Policy_Eval\<close>: conditions, the execution plan, backoff delays, parameter shaping and the combo registry.

  \<^bold>\<open>Custom providers\<close> (\<^verbatim>\<open>crates/routeplane/src/custom_providers.rs\<close>, \<^verbatim>\<open>providers_api.rs\<close>). \<open>Ip_Guard\<close>: the
  classification of addresses, proved against the networks it names, and the check of a base URL.
  \<open>Custom_Providers\<close>: the owner-keyed registry, its file, the API handlers; the locale \<open>isolated_runs\<close>
  lifts what one call keeps to every run, and is interpreted for isolation, for durability, for the
  validity of entries and for restarts.

  \<^bold>\<open>Dispatch\<close> (\<^verbatim>\<open>crates/routeplane/src/proxy.rs\<close>, \<^verbatim>\<open>config.rs\<close>, \<^verbatim>\<open>crates/adapters/src/lib.rs\<close>, \<^verbatim>\<open>client.rs\<close>).
  \<open>Provider_Errors\<close>: the typed errors of upstream calls; \<open>Deadlines\<close>: limits and the deadline of a request;
  \<open>Key_Pool\<close>: the keys of a provider, their order and their cooldowns; \<open>Dispatch\<close>: one target with its
  retries and the walk over targets and keys, on a health state that other requests change between any
  two accesses. The locale \<open>run_contract\<close> there states what a property of runs must tolerate to survive
  a whole dispatch; \<open>Dispatch_Facts\<close> interprets it for the gauge, for closed breakers, for the deadline
  and for the failure verdicts of pools. \<open>Hedging\<close>: the race of hedged targets as a step relation.

  \<^bold>\<open>Idempotency\<close> (\<^verbatim>\<open>crates/cache/src/idempotency.rs\<close> and its use in \<^verbatim>\<open>proxy.rs\<close>). \<open>Idempotency\<close>: a shard
  as a compare-exchange cell (an interpretation of \<open>cas_family\<close>), max-min fair eviction as the relation
  \<open>evicts\<close>, and the reservation and completion of a chat request. \<open>Shard_Map\<close> holds what its shards and
  those of the response cache share.

  \<^bold>\<open>Response cache\<close> (\<^verbatim>\<open>crates/cache/src/lib.rs\<close>, \<^verbatim>\<open>proxy.rs\<close>, \<^verbatim>\<open>cache_api.rs\<close>). \<open>Cache_Keys\<close>: the bytes a
  request is hashed from, what they distinguish, and the flush generations with their compare-exchange
  loop (a second interpretation of \<open>cas_family\<close>); \<open>Cache_Core\<close>: the capacity plan and the store, an
  insertion as the relation \<open>inserts\<close> and as a map update with eviction, and the locale \<open>tenant_store\<close>,
  which gives isolation and the shares for every run; \<open>Cache_Writer\<close>: the lanes, the byte reservations and
  the writer thread as one transition system, with the invariants \<open>tokens_ok\<close>, \<open>fifo_ok\<close> and \<open>bytes_ok\<close> and a
  run that loses a wake-up; \<open>Response_Cache\<close>: participation, hits, writes and purges of the gateway.

  \<^bold>\<open>Properties.\<close> Each theory ends with its properties, labelled C1, C2, ... in the order of their
  importance over the whole development, every one with a witness where it has hypotheses. They
  rest on the invariants of the component (\<open>cell_ok\<close>, \<open>registry_ok\<close>, \<open>snap_ok\<close>), which hold in
  every state its operations reach.

  \<^bold>\<open>Prompts\<close> (\<^verbatim>\<open>crates/prompts/src/lib.rs\<close>, \<^verbatim>\<open>crates/routeplane/src/prompts_api.rs\<close>).
  \<open>Prompt_Templates\<close> tokenizes and parses the template language; printing and parsing are inverse.
  \<open>Prompt_Variants\<close> assigns cohorts to weighted variants; \<^verbatim>\<open>f64\<close> arithmetic is rational arithmetic
  rounded to 53 bits after every operation, and the promises of the assignment are proved for the
  rounded values. \<open>Prompt_Registry\<close> resolves references and renders: \<open>render_nodes\<close> appends to one
  buffer and counts partials as the code does, and \<open>meaning\<close> is the text of a template without caps
  and state, which it is proved to compute. \<open>Prompt_Loading\<close> loads the records of a registry file and
  proves what an accepted file guarantees for resolution, rendering and the isolation of tenants.
  \<open>Prompt_Api\<close> is the routes: the entitlement gate, where the cohort comes from, and the request that
  a rendered prompt is bound to. Rendering terminates because partials nest at most three deep.

  \<^bold>\<open>Parameters.\<close> Code outside the repository is an argument of the model: the clock readings, the
  hash of \<^verbatim>\<open>RandomState\<close>, SHA-256, the Redis commands (with the documented atomicity of a script as the
  law of \<open>shared_counter\<close>), the calendar arithmetic of \<^verbatim>\<open>chrono\<close>, \<^verbatim>\<open>str::to_uppercase\<close> on non-ASCII
  text and what the \<^verbatim>\<open>regex\<close> crate finds. JSON decoding by serde is not modelled: the models start
  from the decoded records.

  \<^bold>\<open>Bounds.\<close> The loops of the code are structurally recursive here, or recurse on a length, except
  for the generator's rejection loop, whose fuel is proved sufficient, and for the retry loop, which
  terminates by the number of retries left; a hedged race has at most two turns per target; compare-exchange loops are
  step relations, with completion stated for the runs in which the thread is scheduled.

  \<^bold>\<open>Not modelled.\<close> HTTP handlers other than those named above, provider adapters, telemetry export,
  the compression crate, and the redaction passes and the JSON schema check of the guardrails;
  they are listed in the manifest with the reason. The loops of the streaming, embeddings and media
  endpoints repeat the pattern of \<open>Dispatch\<close> and are not modelled separately.
\<close>

end
